(* ===== verification/Prelude.thy ===== *)
theory Prelude
  imports Main "HOL-Library.Word"
begin

text \<open>
  Shared vocabulary of the development: machine integers, the outcome monad in which the
  kernel's functions are written, loop combinators, byte codecs, and the generic lemmas on
  words and lists that the component theories rely on.
\<close>

unbundle bit_operations_syntax

section \<open>Machine integers\<close>

type_synonym u8 = "8 word"
type_synonym u16 = "16 word"
type_synonym u32 = "32 word"
type_synonym u64 = "64 word"

section \<open>Outcomes and the kernel monad\<close>

text \<open>
  A kernel function either returns a value and a new state, or calls
  \<^verbatim>\<open>panic()\<close> with a message, or never returns: it spins on a lock that
  nobody releases, or sleeps and is never scheduled again.
\<close>

datatype 'r outcome = Ret 'r | Panic string | Hang

type_synonym ('s, 'a) kM = "'s \<Rightarrow> ('a \<times> 's) outcome"

definition return :: "'a \<Rightarrow> ('s, 'a) kM" where
  "return a = (\<lambda>s. Ret (a, s))"

definition bind :: "('s, 'a) kM \<Rightarrow> ('a \<Rightarrow> ('s, 'b) kM) \<Rightarrow> ('s, 'b) kM" where
  "bind m f = (\<lambda>s. case m s of
      Ret r \<Rightarrow> f (fst r) (snd r) | Panic e \<Rightarrow> Panic e | Hang \<Rightarrow> Hang)"

definition seq :: "('s, 'a) kM \<Rightarrow> ('s, 'b) kM \<Rightarrow> ('s, 'b) kM" where
  "seq m n = bind m (\<lambda>_. n)"

definition gets :: "('s \<Rightarrow> 'a) \<Rightarrow> ('s, 'a) kM" where
  "gets f = (\<lambda>s. Ret (f s, s))"

definition modify :: "('s \<Rightarrow> 's) \<Rightarrow> ('s, unit) kM" where
  "modify f = (\<lambda>s. Ret ((), f s))"

definition panic :: "string \<Rightarrow> ('s, 'a) kM" where
  "panic msg = (\<lambda>s. Panic msg)"

definition hang :: "('s, 'a) kM" where
  "hang = (\<lambda>s. Hang)"

definition whenM :: "bool \<Rightarrow> ('s, unit) kM \<Rightarrow> ('s, unit) kM" where
  "whenM b m = (if b then m else return ())"

text \<open>A \<^verbatim>\<open>for\<close> loop over a list of indices, and one whose body may leave early with a
  result.\<close>

primrec for_each :: "'x list \<Rightarrow> ('x \<Rightarrow> ('s, unit) kM) \<Rightarrow> ('s, unit) kM" where
  "for_each [] body = return ()"
| "for_each (x # xs) body = seq (body x) (for_each xs body)"

primrec for_until :: "'x list \<Rightarrow> ('x \<Rightarrow> ('s, 'r option) kM) \<Rightarrow> ('s, 'r option) kM" where
  "for_until [] body = return None"
| "for_until (x # xs) body = bind (body x) (\<lambda>r. case r of
      None \<Rightarrow> for_until xs body | Some v \<Rightarrow> return (Some v))"

text \<open>A \<^verbatim>\<open>for\<close> loop that carries local variables from one iteration to the next.\<close>

primrec for_acc :: "'x list \<Rightarrow> ('x \<Rightarrow> 'a \<Rightarrow> ('s, 'a) kM) \<Rightarrow> 'a \<Rightarrow> ('s, 'a) kM" where
  "for_acc [] body a = return a"
| "for_acc (x # xs) body a = bind (body x a) (for_acc xs body)"

text \<open>The same with an early exit: \<open>Inl\<close> continues with new local variables,
  \<open>Inr\<close> leaves the loop with a result.\<close>

primrec for_fold :: "'x list \<Rightarrow> ('x \<Rightarrow> 'a \<Rightarrow> ('s, 'a + 'r) kM) \<Rightarrow> 'a \<Rightarrow> ('s, 'a + 'r) kM" where
  "for_fold [] body a = return (Inl a)"
| "for_fold (x # xs) body a = bind (body x a) (\<lambda>r. case r of
      Inl a' \<Rightarrow> for_fold xs body a' | Inr v \<Rightarrow> return (Inr v))"

text \<open>Using a pointer: a null pointer faults, and a fault in the kernel panics in
  \<^verbatim>\<open>kerneltrap()\<close>.\<close>

definition with_ptr :: "'x option \<Rightarrow> ('x \<Rightarrow> ('s, 'a) kM) \<Rightarrow> ('s, 'a) kM" where
  "with_ptr p f = (case p of None \<Rightarrow> panic ''kerneltrap'' | Some x \<Rightarrow> f x)"

primrec repeatM :: "nat \<Rightarrow> ('s, 'a) kM \<Rightarrow> ('s, 'a list) kM" where
  "repeatM 0 m = return []"
| "repeatM (Suc n) m = bind m (\<lambda>x. bind (repeatM n m) (\<lambda>xs. return (x # xs)))"

text \<open>A \<^verbatim>\<open>while\<close> loop with a bound on its iterations: running out is \<open>Hang\<close>.\<close>

primrec while_fuel :: "nat \<Rightarrow> ('s \<Rightarrow> bool) \<Rightarrow> ('s, unit) kM \<Rightarrow> ('s, unit) kM" where
  "while_fuel 0 c body = (\<lambda>s. if c s then Hang else Ret ((), s))"
| "while_fuel (Suc n) c body =
     (\<lambda>s. if c s then seq body (while_fuel n c body) s else Ret ((), s))"

named_theorems kM_simps \<open>application of the monad's combinators to a state\<close>

lemma bind_apply [kM_simps]:
  "bind m f s = (case m s of Ret r \<Rightarrow> f (fst r) (snd r) | Panic e \<Rightarrow> Panic e | Hang \<Rightarrow> Hang)"
  by (simp add: bind_def)

lemma seq_apply [kM_simps]:
  "seq m n s = (case m s of Ret r \<Rightarrow> n (snd r) | Panic e \<Rightarrow> Panic e | Hang \<Rightarrow> Hang)"
  by (simp add: seq_def bind_def)

lemma return_apply [kM_simps]: "return a s = Ret (a, s)"
  by (simp add: return_def)

lemma gets_apply [kM_simps]: "gets f s = Ret (f s, s)"
  by (simp add: gets_def)

lemma modify_apply [kM_simps]: "modify f s = Ret ((), f s)"
  by (simp add: modify_def)

lemma panic_apply [kM_simps]: "panic e s = Panic e"
  by (simp add: panic_def)

lemma hang_apply [kM_simps]: "hang s = Hang"
  by (simp add: hang_def)

lemma whenM_apply [kM_simps]: "whenM b m s = (if b then m s else Ret ((), s))"
  by (simp add: whenM_def return_def)

lemma bind_eq_Ret [simp]:
  "bind m f s = Ret r \<longleftrightarrow> (\<exists>a s'. m s = Ret (a, s') \<and> f a s' = Ret r)"
  by (auto simp: bind_def split: outcome.splits)

lemma seq_eq_Ret [simp]:
  "seq m n s = Ret r \<longleftrightarrow> (\<exists>a s'. m s = Ret (a, s') \<and> n s' = Ret r)"
  by (simp add: seq_def)

lemma for_each_append:
  "for_each (xs @ ys) body s = seq (for_each xs body) (for_each ys body) s"
  by (induction xs arbitrary: s) (auto simp: kM_simps split: outcome.splits)

text \<open>An invariant of the body is an invariant of the loop; a loop whose body always returns
  returns.\<close>

lemma for_each_inv:
  assumes "I s" and "\<And>x t. x \<in> set xs \<Longrightarrow> I t \<Longrightarrow> \<exists>t'. body x t = Ret ((), t') \<and> I t'"
  shows "\<exists>s'. for_each xs body s = Ret ((), s') \<and> I s'"
  using assms
proof (induction xs arbitrary: s)
  case Nil
  then show ?case by (simp add: kM_simps)
next
  case (Cons x xs)
  from Cons.prems obtain t where t: "body x s = Ret ((), t)" "I t" by auto
  have "\<exists>s'. for_each xs body t = Ret ((), s') \<and> I s'"
    by (rule Cons.IH) (use Cons.prems t in auto)
  with t show ?case by (simp add: kM_simps)
qed

text \<open>A loop whose body is a pure state change is a fold.\<close>

lemma for_each_fold:
  assumes "I s"
    and "\<And>x t. x \<in> set xs \<Longrightarrow> I t \<Longrightarrow> body x t = Ret ((), f x t)"
    and "\<And>x t. x \<in> set xs \<Longrightarrow> I t \<Longrightarrow> I (f x t)"
  shows "for_each xs body s = Ret ((), fold f xs s)"
  using assms by (induction xs arbitrary: s) (auto simp: kM_simps)


section \<open>Little-endian codecs\<close>

text \<open>The machine is little-endian: \<open>le_word\<close> reads an integer of any width from its
  bytes, \<open>le_bytes n\<close> writes its \<open>n\<close> low bytes.\<close>

primrec le_word :: "u8 list \<Rightarrow> 'a::len word" where
  "le_word [] = 0"
| "le_word (b # bs) = ucast b OR push_bit 8 (le_word bs)"

definition le_bytes :: "nat \<Rightarrow> 'a::len word \<Rightarrow> u8 list" where
  "le_bytes n w = map (\<lambda>i. ucast (drop_bit (8 * i) w)) [0..<n]"

lemma length_le_bytes [simp]: "length (le_bytes n w) = n"
  by (simp add: le_bytes_def)

lemma bit_le_word:
  "bit (le_word bs :: 'a::len word) k \<longleftrightarrow>
    k < LENGTH('a) \<and> k < 8 * length bs \<and> bit (bs ! (k div 8)) (k mod 8)"
proof (induction bs arbitrary: k)
  case Nil
  then show ?case by simp
next
  case (Cons b bs)
  show ?case
  proof (cases "k < 8")
    case True
    then show ?thesis by (auto simp: bit_simps)
  next
    case False
    then obtain j where k: "k = j + 8" by (metis add.commute le_Suc_ex not_less)
    then have "\<not> bit b k" by (auto dest: bit_imp_le_length)
    moreover have "k div 8 = Suc (j div 8)" using k by simp
    ultimately show ?thesis using Cons [of j] k
      by (auto simp: bit_simps dest: bit_imp_le_length)
  qed
qed

lemma le_word_bytes:
  fixes w :: "'a::len word"
  assumes "8 * n = LENGTH('a)"
  shows "le_word (le_bytes n w) = w"
proof (rule bit_word_eqI)
  fix k assume k: "k < LENGTH('a)"
  then have "k div 8 < n" using assms by auto
  then show "bit (le_word (le_bytes n w) :: 'a word) k = bit w k"
    using k assms by (simp add: bit_le_word le_bytes_def bit_simps)
qed

lemma le_bytes_word:
  assumes "length bs = n" "8 * n \<le> LENGTH('a::len)"
  shows "le_bytes n (le_word bs :: 'a word) = bs"
proof (rule nth_equalityI)
  show "length (le_bytes n (le_word bs :: 'a word)) = length bs" using assms by simp
  fix i assume i: "i < length (le_bytes n (le_word bs :: 'a word))"
  show "le_bytes n (le_word bs :: 'a word) ! i = bs ! i"
  proof (rule bit_word_eqI)
    fix k assume "k < LENGTH(8)"
    then have "k < 8" by simp
    then have "8 * i + k < 8 * n" "(8 * i + k) div 8 = i" "(8 * i + k) mod 8 = k" using i by auto
    then show "bit (le_bytes n (le_word bs :: 'a word) ! i) k = bit (bs ! i) k"
      using i assms \<open>k < 8\<close> by (simp add: le_bytes_def bit_simps bit_le_word)
  qed
qed

section \<open>Page arithmetic\<close>

definition PGSIZE :: u64 where "PGSIZE = 4096"

definition PGROUNDUP :: "u64 \<Rightarrow> u64" where
  "PGROUNDUP sz = (sz + PGSIZE - 1) AND NOT (PGSIZE - 1)"

definition PGROUNDDOWN :: "u64 \<Rightarrow> u64" where
  "PGROUNDDOWN a = a AND NOT (PGSIZE - 1)"

lemma and_not_mask_eq: "a AND NOT (mask n) = a - take_bit n (a :: 'a::len word)"
proof -
  have "(a AND NOT (mask n)) + take_bit n a = (a AND NOT (mask n)) OR take_bit n a"
    by (rule disjunctive_add) (auto simp: bit_simps)
  also have "\<dots> = a" by (rule bit_word_eqI) (auto simp: bit_simps)
  finally show ?thesis by (simp add: eq_diff_eq)
qed

lemma unat_PGROUNDDOWN: "unat (PGROUNDDOWN a) = unat a div 4096 * 4096"
proof -
  have "PGSIZE - 1 = mask 12" by (simp add: mask_eq_exp_minus_1 PGSIZE_def)
  then have "PGROUNDDOWN a = a - take_bit 12 a"
    by (simp only: PGROUNDDOWN_def and_not_mask_eq)
  moreover have t: "unat (take_bit 12 a) = unat a mod 4096"
    by (simp add: take_bit_eq_mod unat_mod)
  moreover have "take_bit 12 a \<le> a" by (simp add: word_le_nat_alt t)
  ultimately have "unat (PGROUNDDOWN a) = unat a - unat a mod 4096"
    by (simp add: unat_sub)
  then show ?thesis by (metis minus_mod_eq_div_mult)
qed

lemma PGROUNDUP_down: "PGROUNDUP a = PGROUNDDOWN (a + 4095)"
  by (simp add: PGROUNDUP_def PGROUNDDOWN_def PGSIZE_def add.commute)

lemma unat_PGROUNDUP:
  assumes "unat a + 4095 < 2 ^ 64"
  shows "unat (PGROUNDUP a) = (unat a + 4095) div 4096 * 4096"
proof -
  have "unat (a + 4095) = unat a + 4095"
    using assms by (simp add: unat_word_ariths)
  then show ?thesis by (simp add: PGROUNDUP_down unat_PGROUNDDOWN)
qed

end
