(* ===== verification/Spinlock.thy ===== *)
theory Spinlock
  imports Prelude
begin

text \<open>
  Spin locks and interrupt nesting: \<^verbatim>\<open>kernel/spinlock.c\<close>,
  \<^verbatim>\<open>kernel/spinlock.h\<close>, the interrupt-enable helpers of
  \<^verbatim>\<open>kernel/riscv.h\<close> and \<^verbatim>\<open>struct cpu\<close> of
  \<^verbatim>\<open>kernel/proc.h\<close>.

  The state \<open>harts\<close> holds what the harts share at this level: which hart executes
  (\<open>tp\<close>), each hart's \<^verbatim>\<open>sstatus\<close>, the array \<^verbatim>\<open>cpus\<close>
  and the locks, one for every lock object of the kernel, by \<open>lockid\<close>.
  Later components extend this record with their own state.
\<close>

section \<open>State\<close>

text \<open>The lock objects of the kernel; \<open>KProc i\<close> is \<^verbatim>\<open>proc[i].lock\<close>,
  \<open>KBuf i\<close>, \<open>KInode i\<close> the spin lock inside a sleep lock,
  \<open>KPipe pi\<close> the lock of the pipe at address \<open>pi\<close>.\<close>

datatype lockid = KPid | KWait | KProc nat | KMem | KBcache | KBuf nat | KLog | KItable
  | KInode nat | KFtable | KPipe u64 | KCons | KTicks | KVdisk | KUart | KPr

record spinlock =
  locked :: bool
  lname :: string
  lcpu :: "nat option"

record cpu =
  cproc :: "nat option"
  noff :: int
  intena :: bool

record harts =
  tp :: nat
  sstatus :: "nat \<Rightarrow> u64"
  cpus :: "nat \<Rightarrow> cpu"
  lks :: "lockid \<Rightarrow> spinlock"

section \<open>Interrupt enable bit\<close>

definition SSTATUS_SPP :: u64 where "SSTATUS_SPP = push_bit 8 1"
definition SSTATUS_SPIE :: u64 where "SSTATUS_SPIE = push_bit 5 1"
definition SSTATUS_SIE :: u64 where "SSTATUS_SIE = push_bit 1 1"

definition r_sstatus :: "'z harts_scheme \<Rightarrow> u64" where
  "r_sstatus s = sstatus s (tp s)"

definition w_sstatus :: "u64 \<Rightarrow> 'z harts_scheme \<Rightarrow> 'z harts_scheme" where
  "w_sstatus x s = s\<lparr>sstatus := (sstatus s)(tp s := x)\<rparr>"

definition intr_on :: "'z harts_scheme \<Rightarrow> 'z harts_scheme" where
  "intr_on s = w_sstatus (r_sstatus s OR SSTATUS_SIE) s"

definition intr_off :: "'z harts_scheme \<Rightarrow> 'z harts_scheme" where
  "intr_off s = w_sstatus (r_sstatus s AND NOT SSTATUS_SIE) s"

definition intr_get :: "'z harts_scheme \<Rightarrow> bool" where
  "intr_get s \<longleftrightarrow> r_sstatus s AND SSTATUS_SIE \<noteq> 0"

section \<open>Nested interrupt disabling and spin locks\<close>

definition cpuid :: "'z harts_scheme \<Rightarrow> nat" where
  "cpuid s = tp s"

definition mycpu :: "'z harts_scheme \<Rightarrow> cpu" where
  "mycpu s = cpus s (cpuid s)"

definition set_mycpu :: "(cpu \<Rightarrow> cpu) \<Rightarrow> 'z harts_scheme \<Rightarrow> 'z harts_scheme" where
  "set_mycpu f s = s\<lparr>cpus := (cpus s)(cpuid s := f (mycpu s))\<rparr>"

definition initlock :: "lockid \<Rightarrow> string \<Rightarrow> 'z harts_scheme \<Rightarrow> 'z harts_scheme" where
  "initlock l name s = s\<lparr>lks := (lks s)(l := \<lparr>locked = False, lname = name, lcpu = None\<rparr>)\<rparr>"

definition holding :: "lockid \<Rightarrow> 'z harts_scheme \<Rightarrow> bool" where
  "holding l s \<longleftrightarrow> locked (lks s l) \<and> lcpu (lks s l) = Some (cpuid s)"

definition push_off :: "'z harts_scheme \<Rightarrow> 'z harts_scheme" where
  "push_off s =
    (let old = intr_get s;
         s1 = intr_off s;
         s2 = (if noff (mycpu s1) = 0 then set_mycpu (\<lambda>c. c\<lparr>intena := old\<rparr>) s1 else s1)
     in set_mycpu (\<lambda>c. c\<lparr>noff := noff c + 1\<rparr>) s2)"

definition pop_off :: "('z harts_scheme, unit) kM" where
  "pop_off =
    bind (gets intr_get) (\<lambda>on.
    if on then panic ''pop_off - interruptible'' else
    bind (gets (\<lambda>s. noff (mycpu s))) (\<lambda>n.
    if n < 1 then panic ''pop_off'' else
    seq (modify (set_mycpu (\<lambda>c. c\<lparr>noff := noff c - 1\<rparr>)))
    (bind (gets mycpu) (\<lambda>c.
    whenM (noff c = 0 \<and> intena c) (modify intr_on)))))"

text \<open>The spin of \<^verbatim>\<open>acquire()\<close> leaves its loop at once when the lock is free. When
  another hart holds it, this hart makes no progress until that one releases it: run alone,
  \<open>acquire\<close> hangs. The interleavings of several harts are the steps of
  \<open>lock_step\<close> below.\<close>

definition acquire :: "lockid \<Rightarrow> ('z harts_scheme, unit) kM" where
  "acquire l =
    seq (modify push_off)
    (bind (gets (holding l)) (\<lambda>h.
    if h then panic ''acquire'' else
    bind (gets (\<lambda>s. locked (lks s l))) (\<lambda>b.
    if b then hang else
    seq (modify (\<lambda>s. s\<lparr>lks := (lks s)(l := (lks s l)\<lparr>locked := True\<rparr>)\<rparr>))
    (modify (\<lambda>s. s\<lparr>lks := (lks s)(l := (lks s l)\<lparr>lcpu := Some (cpuid s)\<rparr>)\<rparr>)))))"

definition release :: "lockid \<Rightarrow> ('z harts_scheme, unit) kM" where
  "release l =
    bind (gets (holding l)) (\<lambda>h.
    if \<not> h then panic ''release'' else
    seq (modify (\<lambda>s. s\<lparr>lks := (lks s)(l := (lks s l)\<lparr>lcpu := None\<rparr>)\<rparr>))
    (seq (modify (\<lambda>s. s\<lparr>lks := (lks s)(l := (lks s l)\<lparr>locked := False\<rparr>)\<rparr>))
    pop_off))"

section \<open>Interrupt bit lemmas\<close>

lemma bit_SIE [simp]: "bit SSTATUS_SIE n \<longleftrightarrow> n = 1"
  by (auto simp: SSTATUS_SIE_def bit_simps)

lemma intr_get_bit: "intr_get s \<longleftrightarrow> bit (r_sstatus s) 1"
  using and_exp_eq_0_iff_not_bit [of "r_sstatus s" 1]
  by (simp add: intr_get_def SSTATUS_SIE_def push_bit_eq_mult)

lemma r_w_sstatus [simp]: "r_sstatus (w_sstatus x s) = x"
  by (simp add: r_sstatus_def w_sstatus_def)

lemma intr_get_on [simp]: "intr_get (intr_on s)"
  by (simp add: intr_get_bit intr_on_def bit_simps)

lemma intr_get_off [simp]: "\<not> intr_get (intr_off s)"
  by (simp add: intr_get_bit intr_off_def bit_simps)

lemma w_w_sstatus [simp]: "w_sstatus x (w_sstatus y s) = w_sstatus x s"
  by (simp add: w_sstatus_def)

lemma w_sstatus_id [simp]: "w_sstatus (r_sstatus s) s = s"
  by (simp add: w_sstatus_def r_sstatus_def)

lemma intr_on_off: "intr_get s \<Longrightarrow> intr_on (intr_off s) = s"
proof -
  assume "intr_get s"
  then have "(r_sstatus s AND NOT SSTATUS_SIE) OR SSTATUS_SIE = r_sstatus s"
    by (intro bit_word_eqI) (auto simp: bit_simps intr_get_bit)
  then show ?thesis by (simp add: intr_on_def intr_off_def)
qed

lemma intr_off_id: "\<not> intr_get s \<Longrightarrow> intr_off s = s"
proof -
  assume "\<not> intr_get s"
  then have "r_sstatus s AND NOT SSTATUS_SIE = r_sstatus s"
    by (intro bit_word_eqI) (auto simp: bit_simps intr_get_bit)
  then show ?thesis by (simp add: intr_off_def)
qed


section \<open>The effect of a critical section\<close>

text \<open>
  \<open>hart_ok\<close> is what \<^verbatim>\<open>push_off\<close>/\<^verbatim>\<open>pop_off\<close> keep: the nesting
  depth is not negative, and interrupts are off while it is positive. A critical section on a
  free lock leaves the locks as they were and the interrupt bit too; it may only refresh
  \<^verbatim>\<open>intena\<close>, which is meaningless at depth 0 (\<open>settle\<close>).
\<close>

definition hart_ok :: "'z harts_scheme \<Rightarrow> bool" where
  "hart_ok s \<longleftrightarrow> 0 \<le> noff (mycpu s) \<and> (0 < noff (mycpu s) \<longrightarrow> \<not> intr_get s)"

definition lock_free :: "lockid \<Rightarrow> 'z harts_scheme \<Rightarrow> bool" where
  "lock_free l s \<longleftrightarrow> \<not> locked (lks s l) \<and> lcpu (lks s l) = None"

definition settle :: "'z harts_scheme \<Rightarrow> 'z harts_scheme" where
  "settle s = (if noff (mycpu s) = 0 then set_mycpu (\<lambda>c. c\<lparr>intena := intr_get s\<rparr>) s else s)"

definition acq :: "lockid \<Rightarrow> 'z harts_scheme \<Rightarrow> 'z harts_scheme" where
  "acq l s = (push_off s)\<lparr>lks := (lks s)(l := (lks s l)\<lparr>locked := True, lcpu := Some (tp s)\<rparr>)\<rparr>"

lemmas hart_defs = cpuid_def mycpu_def set_mycpu_def r_sstatus_def w_sstatus_def intr_on_def
  intr_off_def intr_get_bit

lemma push_off_sel [simp]:
  "tp (push_off s) = tp s" "lks (push_off s) = lks s" "harts.more (push_off s) = harts.more s"
  "\<not> intr_get (push_off s)" "noff (mycpu (push_off s)) = noff (mycpu s) + 1"
  "cproc (mycpu (push_off s)) = cproc (mycpu s)"
  by (auto simp: push_off_def hart_defs Let_def bit_simps)

lemma pop_push:
  assumes "hart_ok s"
  shows "pop_off (push_off s) = Ret ((), settle s)"
proof -
  have on_off: "sstatus s (tp s) AND NOT SSTATUS_SIE OR SSTATUS_SIE = sstatus s (tp s)"
    if "bit (sstatus s (tp s)) 1"
    using that by (intro bit_word_eqI) (auto simp: bit_simps)
  have off: "sstatus s (tp s) AND NOT SSTATUS_SIE = sstatus s (tp s)"
    if "\<not> bit (sstatus s (tp s)) 1"
    using that by (intro bit_word_eqI) (auto simp: bit_simps)
  show ?thesis
    using assms on_off off
    by (auto simp: pop_off_def push_off_def settle_def hart_ok_def hart_defs Let_def
        kM_simps bit_simps)
qed

lemma acquire_free:
  "\<not> locked (lks s l) \<Longrightarrow> acquire l s = Ret ((), acq l s)"
  by (simp add: acquire_def kM_simps holding_def acq_def cpuid_def)

lemma acquire_held:
  "locked (lks s l) \<Longrightarrow> lcpu (lks s l) = Some (tp s) \<Longrightarrow> acquire l s = Panic ''acquire''"
  by (simp add: acquire_def kM_simps holding_def cpuid_def)

lemma release_free: "\<not> holding l s \<Longrightarrow> release l s = Panic ''release''"
  by (simp add: release_def kM_simps)

lemma pop_off_lks_update:
  "pop_off (s\<lparr>lks := f\<rparr>) = (case pop_off s of Ret r \<Rightarrow> Ret ((), (snd r)\<lparr>lks := f\<rparr>)
     | Panic e \<Rightarrow> Panic e | Hang \<Rightarrow> Hang)"
  by (simp add: pop_off_def kM_simps hart_defs)

lemma release_acq:
  assumes "hart_ok s" "lock_free l s"
  shows "release l (acq l s) = Ret ((), settle s)"
proof -
  have "(lks s)(l := (lks s l)\<lparr>lcpu := None, locked := False\<rparr>) = lks s"
    using assms(2) by (cases "lks s l") (simp add: lock_free_def fun_upd_idem)
  then have "(settle s)\<lparr>lks := (lks s)(l := (lks s l)\<lparr>lcpu := None, locked := False\<rparr>)\<rparr> = settle s"
    by (simp add: settle_def set_mycpu_def)
  moreover have "holding l (acq l s)"
    by (simp add: holding_def acq_def cpuid_def)
  ultimately show ?thesis
    by (simp add: release_def kM_simps acq_def pop_off_lks_update pop_push [OF assms(1)])
qed

lemma settle_sel [simp]:
  "tp (settle s) = tp s" "lks (settle s) = lks s" "harts.more (settle s) = harts.more s"
  "sstatus (settle s) = sstatus s"
  "noff (mycpu (settle s)) = noff (mycpu s)" "cproc (mycpu (settle s)) = cproc (mycpu s)"
  "intr_get (settle s) = intr_get s" "hart_ok (settle s) = hart_ok s"
  "lock_free l (settle s) = lock_free l s" "settle (settle s) = settle s"
  by (auto simp: settle_def hart_defs hart_ok_def lock_free_def)

lemma acq_sel [simp]:
  "tp (acq l s) = tp s" "harts.more (acq l s) = harts.more s"
  "lks (acq l s) = (lks s)(l := (lks s l)\<lparr>locked := True, lcpu := Some (tp s)\<rparr>)"
  "cproc (mycpu (acq l s)) = cproc (mycpu s)"
  "noff (mycpu (acq l s)) = noff (mycpu s) + 1" "\<not> intr_get (acq l s)"
  "hart_ok s \<Longrightarrow> hart_ok (acq l s)"
  "lock_free l' (acq l s) \<longleftrightarrow> l' \<noteq> l \<and> lock_free l' s"
  by (auto simp: acq_def hart_defs hart_ok_def lock_free_def push_off_def Let_def bit_simps)

lemma settle_acq [simp]: "hart_ok s \<Longrightarrow> settle (acq l s) = acq l s"
  using acq_sel(5) [of l s] by (simp add: settle_def hart_ok_def)

lemma acq_settle [simp]: "acq l (settle s) = acq l s"
  by (auto simp: acq_def settle_def push_off_def hart_defs Let_def)

lemma lock_free_unlocked: "lock_free l s \<Longrightarrow> \<not> locked (lks s l)"
  by (simp add: lock_free_def)

lemma push_pop_settle: "hart_ok s \<Longrightarrow> seq (modify push_off) pop_off s = Ret ((), settle s)"
  by (simp add: kM_simps pop_push)


section \<open>Harts interleaved\<close>

text \<open>
  Several harts run \<^verbatim>\<open>acquire\<close> and \<^verbatim>\<open>release\<close> at once. The unit of
  interleaving is one memory operation on the lock: the atomic swap, the store of
  \<^verbatim>\<open>lk->cpu\<close>, its reset, the store of \<^verbatim>\<open>lk->locked = 0\<close>.
  \<open>phase h\<close> says where hart \<open>h\<close> is, \<open>held h\<close> which locks it has acquired.
\<close>

datatype lphase = Run | Try lockid | Got lockid | Dropping lockid | Pop

record lsys =
  hs :: harts
  phase :: "nat \<Rightarrow> lphase"
  held :: "nat \<Rightarrow> lockid list"

definition on_hart :: "nat \<Rightarrow> lsys \<Rightarrow> harts" where
  "on_hart h x = (hs x)\<lparr>tp := h\<rparr>"

inductive lock_step :: "lsys \<Rightarrow> lsys \<Rightarrow> bool" where
  start: "phase x h = Run \<Longrightarrow> t = push_off (on_hart h x) \<Longrightarrow> \<not> holding l t \<Longrightarrow>
    lock_step x (x\<lparr>hs := t, phase := (phase x)(h := Try l)\<rparr>)"
| spin: "phase x h = Try l \<Longrightarrow> locked (lks (hs x) l) \<Longrightarrow> lock_step x x"
| swap: "phase x h = Try l \<Longrightarrow> t = on_hart h x \<Longrightarrow> \<not> locked (lks t l) \<Longrightarrow>
    lock_step x (x\<lparr>hs := t\<lparr>lks := (lks t)(l := (lks t l)\<lparr>locked := True\<rparr>)\<rparr>,
      phase := (phase x)(h := Got l)\<rparr>)"
| own: "phase x h = Got l \<Longrightarrow> t = on_hart h x \<Longrightarrow>
    lock_step x (x\<lparr>hs := t\<lparr>lks := (lks t)(l := (lks t l)\<lparr>lcpu := Some (cpuid t)\<rparr>)\<rparr>,
      phase := (phase x)(h := Run), held := (held x)(h := l # held x h)\<rparr>)"
| drop: "phase x h = Run \<Longrightarrow> t = on_hart h x \<Longrightarrow> holding l t \<Longrightarrow>
    lock_step x (x\<lparr>hs := t\<lparr>lks := (lks t)(l := (lks t l)\<lparr>lcpu := None\<rparr>)\<rparr>,
      phase := (phase x)(h := Dropping l), held := (held x)(h := remove1 l (held x h))\<rparr>)"
| unlock: "phase x h = Dropping l \<Longrightarrow> t = on_hart h x \<Longrightarrow>
    lock_step x (x\<lparr>hs := t\<lparr>lks := (lks t)(l := (lks t l)\<lparr>locked := False\<rparr>)\<rparr>,
      phase := (phase x)(h := Pop)\<rparr>)"
| pop: "phase x h = Pop \<Longrightarrow> pop_off (on_hart h x) = Ret ((), t) \<Longrightarrow>
    lock_step x (x\<lparr>hs := t, phase := (phase x)(h := Run)\<rparr>)"
| toggle: "phase x h = Run \<Longrightarrow> held x h = [] \<Longrightarrow>
    lock_step x (x\<lparr>hs := w_sstatus v (on_hart h x)\<rparr>)"

definition lsys_init :: "harts \<Rightarrow> lsys" where
  "lsys_init t = \<lparr>hs = t, phase = (\<lambda>_. Run), held = (\<lambda>_. [])\<rparr>"

definition boot_harts :: "harts \<Rightarrow> bool" where
  "boot_harts t \<longleftrightarrow> (\<forall>l. lock_free l t) \<and> (\<forall>h. noff (cpus t h) = 0)"

inductive lock_reach :: "lsys \<Rightarrow> bool" where
  init: "boot_harts t \<Longrightarrow> lock_reach (lsys_init t)"
| step: "lock_reach x \<Longrightarrow> lock_step x y \<Longrightarrow> lock_reach y"

text \<open>A hart owns a lock from the swap until the store that frees it.\<close>

definition owns :: "lsys \<Rightarrow> nat \<Rightarrow> lockid \<Rightarrow> bool" where
  "owns x h l \<longleftrightarrow> l \<in> set (held x h) \<or> phase x h = Got l \<or> phase x h = Dropping l"

definition depth :: "lsys \<Rightarrow> nat \<Rightarrow> int" where
  "depth x h = int (length (held x h)) + (if phase x h = Run then 0 else 1)"

definition lock_inv :: "lsys \<Rightarrow> bool" where
  "lock_inv x \<longleftrightarrow>
    (\<forall>h h' l. owns x h l \<longrightarrow> owns x h' l \<longrightarrow> h = h') \<and>
    (\<forall>l. locked (lks (hs x) l) \<longleftrightarrow> (\<exists>h. owns x h l)) \<and>
    (\<forall>h l. lcpu (lks (hs x) l) = Some h \<longleftrightarrow> l \<in> set (held x h)) \<and>
    (\<forall>h. distinct (held x h)) \<and>
    (\<forall>h l. phase x h = Got l \<or> phase x h = Dropping l \<longrightarrow> l \<notin> set (held x h)) \<and>
    (\<forall>h. noff (cpus (hs x) h) = depth x h \<and> (0 < depth x h \<longrightarrow> \<not> bit (sstatus (hs x) h) 1))"

lemma on_hart_sel [simp]:
  "tp (on_hart h x) = h" "lks (on_hart h x) = lks (hs x)" "cpus (on_hart h x) = cpus (hs x)"
  "sstatus (on_hart h x) = sstatus (hs x)"
  by (simp_all add: on_hart_def)

lemma push_off_cpus:
  "noff (cpus (push_off s) h) = noff (cpus s h) + (if h = tp s then 1 else 0)"
  "bit (sstatus (push_off s) h) (Suc 0) \<longleftrightarrow> h \<noteq> tp s \<and> bit (sstatus s h) (Suc 0)"
  by (auto simp: push_off_def hart_defs Let_def bit_simps)

lemma pop_off_cpus:
  assumes "pop_off s = Ret ((), t)"
  shows "lks t = lks s" "noff (cpus t h) = noff (cpus s h) - (if h = tp s then 1 else 0)"
    "h \<noteq> tp s \<or> noff (cpus s h) \<noteq> 1 \<Longrightarrow> sstatus t h = sstatus s h"
  using assms by (auto simp: pop_off_def kM_simps hart_defs split: if_splits)

lemma lock_inv_init: "boot_harts t \<Longrightarrow> lock_inv (lsys_init t)"
  by (simp add: lock_inv_def owns_def depth_def lsys_init_def boot_harts_def lock_free_def)

lemma lock_invI:
  assumes "\<And>h h' l. owns x h l \<Longrightarrow> owns x h' l \<Longrightarrow> h = h'"
    "\<And>l. locked (lks (hs x) l) \<longleftrightarrow> (\<exists>h. owns x h l)"
    "\<And>h l. lcpu (lks (hs x) l) = Some h \<longleftrightarrow> l \<in> set (held x h)"
    "\<And>h. distinct (held x h)"
    "\<And>h l. phase x h = Got l \<or> phase x h = Dropping l \<Longrightarrow> l \<notin> set (held x h)"
    "\<And>h. noff (cpus (hs x) h) = depth x h"
    "\<And>h. 0 < depth x h \<Longrightarrow> \<not> bit (sstatus (hs x) h) 1"
  shows "lock_inv x"
  using assms unfolding lock_inv_def by blast

lemma lock_invD:
  assumes "lock_inv x"
  shows "\<And>h h' l. owns x h l \<Longrightarrow> owns x h' l \<Longrightarrow> h = h'"
    "\<And>l. locked (lks (hs x) l) \<longleftrightarrow> (\<exists>h. owns x h l)"
    "\<And>h l. lcpu (lks (hs x) l) = Some h \<longleftrightarrow> l \<in> set (held x h)"
    "\<And>h. distinct (held x h)"
    "\<And>h l. phase x h = Got l \<or> phase x h = Dropping l \<Longrightarrow> l \<notin> set (held x h)"
    "\<And>h. noff (cpus (hs x) h) = depth x h"
    "\<And>h. 0 < depth x h \<Longrightarrow> \<not> bit (sstatus (hs x) h) 1"
  using assms unfolding lock_inv_def by blast+

lemma lock_inv_start:
  assumes "lock_inv x" "phase x h = Run" "t = push_off (on_hart h x)"
  shows "lock_inv (x\<lparr>hs := t, phase := (phase x)(h := Try l)\<rparr>)" (is "lock_inv ?y")
proof (rule lock_invI)
  note I = lock_invD [OF assms(1)]
  have own: "owns ?y = owns x" using assms(2) by (auto simp: owns_def fun_eq_iff)
  have dep: "depth ?y h' = depth x h' + (if h' = h then 1 else 0)" for h'
    using assms(2) by (simp add: depth_def)
  show "k = k'" if "owns ?y k m" "owns ?y k' m" for k k' m using that I(1) unfolding own by blast
  show "locked (lks (hs ?y) m) \<longleftrightarrow> (\<exists>k. owns ?y k m)" for m
    unfolding own using I(2) by (simp add: assms(3))
  show "lcpu (lks (hs ?y) m) = Some k \<longleftrightarrow> m \<in> set (held ?y k)" for k m
    using I(3) by (simp add: assms(3))
  show "distinct (held ?y k)" for k using I(4) by simp
  show "m \<notin> set (held ?y k)" if "phase ?y k = Got m \<or> phase ?y k = Dropping m" for k m
    using that I(5) by (auto split: if_splits)
  show "noff (cpus (hs ?y) k) = depth ?y k" for k
    unfolding dep using I(6) by (simp add: assms(3) push_off_cpus)
  show "\<not> bit (sstatus (hs ?y) k) 1" if "0 < depth ?y k" for k
    using that I(7) [of k] unfolding dep by (auto simp: assms(3) push_off_cpus)
qed


lemma lock_inv_swap:
  assumes "lock_inv x" "phase x h = Try l" "t = on_hart h x" "\<not> locked (lks t l)"
  shows "lock_inv (x\<lparr>hs := t\<lparr>lks := (lks t)(l := (lks t l)\<lparr>locked := True\<rparr>)\<rparr>,
      phase := (phase x)(h := Got l)\<rparr>)" (is "lock_inv ?y")
proof (rule lock_invI)
  note I = lock_invD [OF assms(1)]
  have free: "\<not> owns x k l" for k using I(2) assms(3,4) by auto
  have own: "owns ?y k m \<longleftrightarrow> owns x k m \<or> k = h \<and> m = l" for k m
    using assms(2) by (auto simp: owns_def)
  have dep: "depth ?y = depth x" using assms(2) by (auto simp: depth_def fun_eq_iff)
  show "k = k'" if "owns ?y k m" "owns ?y k' m" for k k' m
    using that I(1) free unfolding own by blast
  show "locked (lks (hs ?y) m) \<longleftrightarrow> (\<exists>k. owns ?y k m)" for m
    unfolding own using I(2) by (auto simp: assms(3))
  show "lcpu (lks (hs ?y) m) = Some k \<longleftrightarrow> m \<in> set (held ?y k)" for k m
    using I(3) by (simp add: assms(3))
  show "distinct (held ?y k)" for k using I(4) by simp
  show "m \<notin> set (held ?y k)" if "phase ?y k = Got m \<or> phase ?y k = Dropping m" for k m
    using that I(5) free by (auto simp: owns_def split: if_splits)
  show "noff (cpus (hs ?y) k) = depth ?y k" for k
    unfolding dep using I(6) by (simp add: assms(3))
  show "\<not> bit (sstatus (hs ?y) k) 1" if "0 < depth ?y k" for k
    using that I(7) unfolding dep by (simp add: assms(3))
qed

lemma lock_inv_own:
  assumes "lock_inv x" "phase x h = Got l" "t = on_hart h x"
  shows "lock_inv (x\<lparr>hs := t\<lparr>lks := (lks t)(l := (lks t l)\<lparr>lcpu := Some (cpuid t)\<rparr>)\<rparr>,
      phase := (phase x)(h := Run), held := (held x)(h := l # held x h)\<rparr>)" (is "lock_inv ?y")
proof (rule lock_invI)
  note I = lock_invD [OF assms(1)]
  have own: "owns ?y = owns x" using assms(2) by (auto simp: owns_def fun_eq_iff)
  have sole: "l \<notin> set (held x k)" for k
    using I(1) [of k l h] I(5) [of h l] assms(2) by (auto simp: owns_def)
  have dep: "depth ?y = depth x" using assms(2) by (auto simp: depth_def fun_eq_iff)
  show "k = k'" if "owns ?y k m" "owns ?y k' m" for k k' m using that I(1) unfolding own by blast
  show "locked (lks (hs ?y) m) \<longleftrightarrow> (\<exists>k. owns ?y k m)" for m
    unfolding own using I(2) by (simp add: assms(3))
  show "lcpu (lks (hs ?y) m) = Some k \<longleftrightarrow> m \<in> set (held ?y k)" for k m
    using I(3) sole by (auto simp: assms(3) cpuid_def)
  show "distinct (held ?y k)" for k using I(4) sole by simp
  show "m \<notin> set (held ?y k)" if "phase ?y k = Got m \<or> phase ?y k = Dropping m" for k m
    using that I(5) by (auto split: if_splits)
  show "noff (cpus (hs ?y) k) = depth ?y k" for k
    unfolding dep using I(6) by (simp add: assms(3))
  show "\<not> bit (sstatus (hs ?y) k) 1" if "0 < depth ?y k" for k
    using that I(7) unfolding dep by (simp add: assms(3))
qed

lemma lock_inv_drop:
  assumes "lock_inv x" "phase x h = Run" "t = on_hart h x" "holding l t"
  shows "lock_inv (x\<lparr>hs := t\<lparr>lks := (lks t)(l := (lks t l)\<lparr>lcpu := None\<rparr>)\<rparr>,
      phase := (phase x)(h := Dropping l), held := (held x)(h := remove1 l (held x h))\<rparr>)"
    (is "lock_inv ?y")
proof (rule lock_invI)
  note I = lock_invD [OF assms(1)]
  have lh: "l \<in> set (held x h)"
    using assms(3,4) I(3) by (simp add: holding_def cpuid_def)
  have own: "owns ?y = owns x"
    using assms(2) lh I(4) by (auto simp: owns_def fun_eq_iff)
  have sole: "l \<in> set (held x k) \<Longrightarrow> k = h" for k
    using I(1) [of k l h] lh by (auto simp: owns_def)
  have dep: "depth ?y = depth x"
    using assms(2) lh by (auto simp: depth_def fun_eq_iff length_remove1 of_nat_diff
        Suc_leI [OF length_pos_if_in_set])
  show "k = k'" if "owns ?y k m" "owns ?y k' m" for k k' m using that I(1) unfolding own by blast
  show "locked (lks (hs ?y) m) \<longleftrightarrow> (\<exists>k. owns ?y k m)" for m
    unfolding own using I(2) by (simp add: assms(3))
  show "lcpu (lks (hs ?y) m) = Some k \<longleftrightarrow> m \<in> set (held ?y k)" for k m
    using I(3) I(4) sole by (auto simp: assms(3))
  show "distinct (held ?y k)" for k using I(4) by simp
  show "m \<notin> set (held ?y k)" if "phase ?y k = Got m \<or> phase ?y k = Dropping m" for k m
    using that I(4,5) by (auto split: if_splits)
  show "noff (cpus (hs ?y) k) = depth ?y k" for k
    unfolding dep using I(6) by (simp add: assms(3))
  show "\<not> bit (sstatus (hs ?y) k) 1" if "0 < depth ?y k" for k
    using that I(7) unfolding dep by (simp add: assms(3))
qed

lemma lock_inv_unlock:
  assumes "lock_inv x" "phase x h = Dropping l" "t = on_hart h x"
  shows "lock_inv (x\<lparr>hs := t\<lparr>lks := (lks t)(l := (lks t l)\<lparr>locked := False\<rparr>)\<rparr>,
      phase := (phase x)(h := Pop)\<rparr>)" (is "lock_inv ?y")
proof (rule lock_invI)
  note I = lock_invD [OF assms(1)]
  have sole: "owns x k l \<longleftrightarrow> k = h" for k
    using I(1) [of k l h] assms(2) by (auto simp: owns_def)
  have own: "owns ?y k m \<longleftrightarrow> owns x k m \<and> m \<noteq> l" for k m
    using assms(2) sole [of k] I(5) [of h l] by (auto simp: owns_def)
  have dep: "depth ?y = depth x" using assms(2) by (auto simp: depth_def fun_eq_iff)
  show "k = k'" if "owns ?y k m" "owns ?y k' m" for k k' m using that I(1) unfolding own by blast
  show "locked (lks (hs ?y) m) \<longleftrightarrow> (\<exists>k. owns ?y k m)" for m
    unfolding own using I(2) by (auto simp: assms(3))
  show "lcpu (lks (hs ?y) m) = Some k \<longleftrightarrow> m \<in> set (held ?y k)" for k m
    using I(3) by (simp add: assms(3))
  show "distinct (held ?y k)" for k using I(4) by simp
  show "m \<notin> set (held ?y k)" if "phase ?y k = Got m \<or> phase ?y k = Dropping m" for k m
    using that I(5) by (auto split: if_splits)
  show "noff (cpus (hs ?y) k) = depth ?y k" for k
    unfolding dep using I(6) by (simp add: assms(3))
  show "\<not> bit (sstatus (hs ?y) k) 1" if "0 < depth ?y k" for k
    using that I(7) unfolding dep by (simp add: assms(3))
qed

lemma lock_inv_pop:
  assumes "lock_inv x" "phase x h = Pop" "pop_off (on_hart h x) = Ret ((), t)"
  shows "lock_inv (x\<lparr>hs := t, phase := (phase x)(h := Run)\<rparr>)" (is "lock_inv ?y")
proof (rule lock_invI)
  note I = lock_invD [OF assms(1)] and P = pop_off_cpus [OF assms(3)]
  have own: "owns ?y = owns x" using assms(2) by (auto simp: owns_def fun_eq_iff)
  have dep: "depth ?y k = depth x k - (if k = h then 1 else 0)" for k
    using assms(2) by (simp add: depth_def)
  show "k = k'" if "owns ?y k m" "owns ?y k' m" for k k' m using that I(1) unfolding own by blast
  show "locked (lks (hs ?y) m) \<longleftrightarrow> (\<exists>k. owns ?y k m)" for m
    unfolding own using I(2) by (simp add: P(1))
  show "lcpu (lks (hs ?y) m) = Some k \<longleftrightarrow> m \<in> set (held ?y k)" for k m
    using I(3) by (simp add: P(1))
  show "distinct (held ?y k)" for k using I(4) by simp
  show "m \<notin> set (held ?y k)" if "phase ?y k = Got m \<or> phase ?y k = Dropping m" for k m
    using that I(5) by (auto split: if_splits)
  show "noff (cpus (hs ?y) k) = depth ?y k" for k
    using I(6) by (simp add: dep P(2))
  show "\<not> bit (sstatus (hs ?y) k) 1" if "0 < depth ?y k" for k
    using that I(6,7) [of k] P(3) [of k] by (auto simp: dep split: if_splits)
qed

lemma lock_inv_toggle:
  assumes "lock_inv x" "phase x h = Run" "held x h = []"
  shows "lock_inv (x\<lparr>hs := w_sstatus v (on_hart h x)\<rparr>)"
  using assms by (auto simp: lock_inv_def owns_def depth_def w_sstatus_def)

lemma lock_step_inv: "lock_step x y \<Longrightarrow> lock_inv x \<Longrightarrow> lock_inv y"
  by (induction rule: lock_step.induct)
    (blast intro: lock_inv_start lock_inv_swap lock_inv_own lock_inv_drop lock_inv_unlock
      lock_inv_pop lock_inv_toggle)+

lemma lock_reach_inv: "lock_reach x \<Longrightarrow> lock_inv x"
  by (induction rule: lock_reach.induct) (blast intro: lock_inv_init lock_step_inv)+


text \<open>The sequential \<open>acquire\<close>, when it returns, is three steps of its hart: the
  check after \<open>push_off\<close>, the swap, and the store of the owner.\<close>

lemma acquire_steps:
  assumes "phase x h = Run" "acquire l (on_hart h x) = Ret ((), t)"
  shows "lock_step\<^sup>*\<^sup>* x (x\<lparr>hs := t, held := (held x)(h := l # held x h)\<rparr>)"
proof -
  let ?p = "push_off (on_hart h x)"
  let ?q = "?p\<lparr>lks := (lks ?p)(l := (lks ?p l)\<lparr>locked := True\<rparr>)\<rparr>"
  have nh: "\<not> holding l ?p" and nl: "\<not> locked (lks ?p l)"
    and t: "t = ?q\<lparr>lks := (lks ?q)(l := (lks ?q l)\<lparr>lcpu := Some h\<rparr>)\<rparr>"
    using assms(2) by (auto simp: acquire_def kM_simps cpuid_def split: if_splits)
  let ?x1 = "x\<lparr>hs := ?p, phase := (phase x)(h := Try l)\<rparr>"
  let ?x2 = "?x1\<lparr>hs := ?q, phase := (phase ?x1)(h := Got l)\<rparr>"
  have oh: "on_hart h (x\<lparr>hs := s, phase := ph\<rparr>) = s" if "tp s = h" for s ph
    using that by (cases s) (simp add: on_hart_def)
  have "lock_step x ?x1" using assms(1) nh by (intro lock_step.start) simp_all
  moreover have "lock_step ?x1 ?x2"
    by (rule lock_step.swap [where t = ?p]) (use nl in \<open>simp_all add: oh\<close>)
  moreover have "lock_step ?x2 (?x2\<lparr>hs := t, phase := (phase ?x2)(h := Run),
      held := (held ?x2)(h := l # held ?x2 h)\<rparr>)"
    using lock_step.own [of ?x2 h l ?q] by (simp add: oh t cpuid_def)
  moreover have "?x2\<lparr>hs := t, phase := (phase ?x2)(h := Run), held := (held ?x2)(h := l # held ?x2 h)\<rparr>
      = x\<lparr>hs := t, held := (held x)(h := l # held x h)\<rparr>"
    using assms(1) by (simp add: fun_upd_idem)
  ultimately show ?thesis by (metis (no_types, lifting) converse_rtranclp_into_rtranclp rtranclp.rtrancl_refl)
qed

text \<open>The sequential \<open>release\<close> is three steps as well: the reset of the owner after the check, the store that
  frees the lock, and \<open>pop_off\<close>.\<close>

lemma release_steps:
  assumes "phase x h = Run" "release l (on_hart h x) = Ret ((), t)"
  shows "lock_step\<^sup>*\<^sup>* x (x\<lparr>hs := t, held := (held x)(h := remove1 l (held x h))\<rparr>)"
proof -
  let ?p = "on_hart h x"
  let ?q = "?p\<lparr>lks := (lks ?p)(l := (lks ?p l)\<lparr>lcpu := None\<rparr>)\<rparr>"
  let ?r = "?q\<lparr>lks := (lks ?q)(l := (lks ?q l)\<lparr>locked := False\<rparr>)\<rparr>"
  have hold: "holding l ?p" and pop: "pop_off ?r = Ret ((), t)"
    using assms(2) by (auto simp: release_def kM_simps split: if_splits)
  let ?x1 = "x\<lparr>hs := ?q, phase := (phase x)(h := Dropping l), held := (held x)(h := remove1 l (held x h))\<rparr>"
  let ?x2 = "?x1\<lparr>hs := ?r, phase := (phase ?x1)(h := Pop)\<rparr>"
  have oh: "on_hart h y = hs y" if "tp (hs y) = h" for y
    using that by (cases "hs y") (simp add: on_hart_def)
  have "lock_step x ?x1" using assms(1) hold by (intro lock_step.drop) simp_all
  moreover have "lock_step ?x1 ?x2" using lock_step.unlock [of ?x1 h l ?q] by (simp add: oh)
  moreover have "lock_step ?x2 (?x2\<lparr>hs := t, phase := (phase ?x2)(h := Run)\<rparr>)"
    by (rule lock_step.pop) (use pop in \<open>simp_all add: oh\<close>)
  moreover have "?x2\<lparr>hs := t, phase := (phase ?x2)(h := Run)\<rparr> = x\<lparr>hs := t, held := (held x)(h := remove1 l (held x h))\<rparr>"
    using assms(1) by (simp add: fun_upd_idem)
  ultimately show ?thesis by (metis (no_types, lifting) converse_rtranclp_into_rtranclp rtranclp.rtrancl_refl)
qed

lemma lock_reach_steps: "lock_step\<^sup>*\<^sup>* x y \<Longrightarrow> lock_reach x \<Longrightarrow> lock_reach y"
  by (induction rule: rtranclp_induct) (auto intro: lock_reach.step)

definition quiet_harts :: harts where
  "quiet_harts = \<lparr>tp = 0, sstatus = (\<lambda>_. 0),
     cpus = (\<lambda>_. \<lparr>cproc = None, noff = 0, intena = False\<rparr>),
     lks = (\<lambda>_. \<lparr>locked = False, lname = [], lcpu = None\<rparr>)\<rparr>"

lemma lock_reach_holding:
  "lock_reach ((lsys_init quiet_harts)\<lparr>hs := acq l quiet_harts, held := (\<lambda>_. [])(0 := [l])\<rparr>)"
proof -
  have "lock_reach (lsys_init quiet_harts)"
    by (rule lock_reach.init) (simp add: boot_harts_def lock_free_def quiet_harts_def)
  moreover have "acquire l (on_hart 0 (lsys_init quiet_harts)) = Ret ((), acq l quiet_harts)"
    by (subst acquire_free) (simp_all add: on_hart_def lsys_init_def quiet_harts_def)
  from acquire_steps [OF _ this] have "lock_step\<^sup>*\<^sup>* (lsys_init quiet_harts)
      ((lsys_init quiet_harts)\<lparr>hs := acq l quiet_harts, held := (\<lambda>_. [])(0 := [l])\<rparr>)"
    by (simp add: lsys_init_def)
  ultimately show ?thesis by (rule lock_reach_steps [rotated])
qed

section \<open>Properties\<close>

text \<open>C1. Mutual exclusion. In every state the harts can reach by interleaving the memory
  operations of \<open>acquire\<close> and \<open>release\<close> (from boot, with every lock free), at
  most one hart owns a lock, and a hart that owns a lock has interrupts disabled. The interleaved operations are
  those of the code: a call of \<open>acquire\<close> or \<open>release\<close> that returns leads from a reachable state to a reachable
  state, with the lock added to those the hart holds or taken away from them.\<close>

theorem spinlock_mutual_exclusion:
  assumes "lock_reach x" and "owns x h l"
  shows "(\<forall>h'. owns x h' l \<longrightarrow> h' = h) \<and> locked (lks (hs x) l)
    \<and> \<not> intr_get (on_hart h x)
    \<and> (\<forall>k l' t. phase x k = Run \<and> acquire l' (on_hart k x) = Ret ((), t) \<longrightarrow>
        lock_reach (x\<lparr>hs := t, held := (held x)(k := l' # held x k)\<rparr>))
    \<and> (\<forall>k l' t. phase x k = Run \<and> release l' (on_hart k x) = Ret ((), t) \<longrightarrow>
        lock_reach (x\<lparr>hs := t, held := (held x)(k := remove1 l' (held x k))\<rparr>))"
proof -
  note I = lock_invD [OF lock_reach_inv [OF assms(1)]]
  have "held x h \<noteq> [] \<or> phase x h \<noteq> Run" using assms(2) by (auto simp: owns_def)
  then have "0 < depth x h" by (auto simp: depth_def)
  then have "\<not> intr_get (on_hart h x)"
    using I(7) by (simp add: intr_get_bit r_sstatus_def)
  moreover have "lock_reach (x\<lparr>hs := t, held := (held x)(k := l' # held x k)\<rparr>)"
    if "phase x k = Run" "acquire l' (on_hart k x) = Ret ((), t)" for k l' t
    using lock_reach_steps [OF acquire_steps [OF that] assms(1)] .
  moreover have "lock_reach (x\<lparr>hs := t, held := (held x)(k := remove1 l' (held x k))\<rparr>)"
    if "phase x k = Run" "release l' (on_hart k x) = Ret ((), t)" for k l' t
    using lock_reach_steps [OF release_steps [OF that] assms(1)] .
  ultimately show ?thesis using I(1,2) assms(2) by blast
qed

theorem spinlock_mutual_exclusion_witness:
  "\<exists>x. lock_reach x \<and> owns x 0 KMem \<and> {h. owns x h KMem} = {0} \<and> locked (lks (hs x) KMem)"
proof -
  let ?x = "(lsys_init quiet_harts)\<lparr>hs := acq KMem quiet_harts, held := (\<lambda>_. [])(0 := [KMem])\<rparr>"
  have r: "lock_reach ?x" by (rule lock_reach_holding)
  have o: "owns ?x 0 KMem" by (simp add: owns_def)
  from spinlock_mutual_exclusion [OF r o] o have "{h. owns ?x h KMem} = {0}" by blast
  with r o spinlock_mutual_exclusion [OF r o] show ?thesis by blast
qed

text \<open>\<open>holding()\<close> is exact in every reachable state of the interleaved harts, also
  between the swap and the store of the owner: it is true on a hart for the locks that hart
  has acquired and for no other. So the \<open>pop_off\<close> that ends \<open>release\<close> never
  panics: the nesting depth counts the locks held.\<close>

theorem holding_exact:
  assumes "lock_reach x"
  shows "(holding l (on_hart h x) \<longleftrightarrow> l \<in> set (held x h))
    \<and> (phase x h = Pop \<longrightarrow> (\<exists>t. pop_off (on_hart h x) = Ret ((), t)))"
proof -
  note I = lock_invD [OF lock_reach_inv [OF assms(1)]]
  have "holding l (on_hart h x) \<longleftrightarrow> l \<in> set (held x h)"
    using I(2,3) by (auto simp: holding_def cpuid_def owns_def)
  moreover have "\<exists>t. pop_off (on_hart h x) = Ret ((), t)" if "phase x h = Pop"
  proof -
    have "depth x h \<ge> 1" using that by (simp add: depth_def)
    then show ?thesis using I(6,7) [of h] by (auto simp: pop_off_def kM_simps hart_defs)
  qed
  ultimately show ?thesis by blast
qed

theorem holding_exact_witness:
  "\<exists>x. lock_reach x \<and> holding KMem (on_hart 0 x) \<and> \<not> holding KMem (on_hart 1 x)"
proof -
  let ?x = "(lsys_init quiet_harts)\<lparr>hs := acq KMem quiet_harts, held := (\<lambda>_. [])(0 := [KMem])\<rparr>"
  have r: "lock_reach ?x" by (rule lock_reach_holding)
  from holding_exact [OF r, of KMem 0] holding_exact [OF r, of KMem 1]
  have "holding KMem (on_hart 0 ?x) \<and> \<not> holding KMem (on_hart 1 ?x)" by simp
  with r show ?thesis by blast
qed

text \<open>A critical section on a free lock returns, and leaves every lock, the nesting depth
  and the interrupt-enable bit as they were; acquiring a lock the hart already holds panics.\<close>

theorem critical_section:
  assumes "hart_ok s" and "lock_free l s"
  shows "seq (acquire l) (release l) s = Ret ((), settle s)
    \<and> lks (settle s) = lks s \<and> noff (mycpu (settle s)) = noff (mycpu s)
    \<and> intr_get (settle s) = intr_get s
    \<and> seq (acquire l) (acquire l) s = Panic ''acquire''"
  using assms by (simp add: kM_simps acquire_free acquire_held lock_free_unlocked release_acq)

theorem critical_section_witness:
  "seq (acquire KMem) (release KMem) quiet_harts = Ret ((), settle quiet_harts)
    \<and> hart_ok quiet_harts \<and> lock_free KMem quiet_harts"
proof -
  have "hart_ok quiet_harts" "lock_free KMem quiet_harts"
    by (simp_all add: hart_ok_def lock_free_def quiet_harts_def hart_defs)
  then show ?thesis using critical_section [of quiet_harts KMem] by blast
qed

end
