(* ===== verification/Kstring.thy ===== *)
theory Kstring
  imports Prelude
begin

text \<open>
  Memory and string routines: \<^verbatim>\<open>kernel/string.c\<close>.

  \<^verbatim>\<open>memset\<close> and \<^verbatim>\<open>memmove\<close> work on the byte-addressed memory
  \<open>mem\<close>, because overlap matters. The routines that only read take the bytes at a
  pointer as a function of the index; the ones that fill a fixed array take the array as a
  byte list and the source as such a function.
\<close>

section \<open>Definitions\<close>

type_synonym mem = "u64 \<Rightarrow> u8"

type_synonym bytes_at = "nat \<Rightarrow> u8"

text \<open>The bytes at a pointer to the bytes \<open>bs\<close>, a string without its terminating nul.\<close>

definition bytes_of :: "u8 list \<Rightarrow> bytes_at" where
  "bytes_of bs i = (if i < length bs then bs ! i else 0)"

definition memset :: "u64 \<Rightarrow> u32 \<Rightarrow> u32 \<Rightarrow> mem \<Rightarrow> mem" where
  "memset dst c n m = fold (\<lambda>i m. m(dst + of_nat i := ucast c)) [0..<unat n] m"

text \<open>\<^verbatim>\<open>while(n-- > 0) { if(*s1 != *s2) return *s1 - *s2; s1++, s2++; }\<close>\<close>

fun memcmp :: "bytes_at \<Rightarrow> bytes_at \<Rightarrow> nat \<Rightarrow> int" where
  "memcmp s1 s2 0 = 0"
| "memcmp s1 s2 (Suc n) =
     (if s1 0 \<noteq> s2 0 then uint (s1 0) - uint (s2 0)
      else memcmp (\<lambda>i. s1 (Suc i)) (\<lambda>i. s2 (Suc i)) n)"

text \<open>The two copy loops of \<^verbatim>\<open>memmove\<close>: \<open>while(n-- > 0) *--d = *--s\<close> and
  \<open>while(n-- > 0) *d++ = *s++\<close>.\<close>

fun copy_down :: "nat \<Rightarrow> u64 \<Rightarrow> u64 \<Rightarrow> mem \<Rightarrow> mem" where
  "copy_down 0 d s m = m"
| "copy_down (Suc n) d s m = copy_down n (d - 1) (s - 1) (m(d - 1 := m (s - 1)))"

fun copy_up :: "nat \<Rightarrow> u64 \<Rightarrow> u64 \<Rightarrow> mem \<Rightarrow> mem" where
  "copy_up 0 d s m = m"
| "copy_up (Suc n) d s m = copy_up n (d + 1) (s + 1) (m(d := m s))"

definition memmove :: "u64 \<Rightarrow> u64 \<Rightarrow> u32 \<Rightarrow> mem \<Rightarrow> mem" where
  "memmove dst src n m =
     (if n = 0 then m
      else if src < dst \<and> src + ucast n > dst
      then copy_down (unat n) (dst + ucast n) (src + ucast n) m
      else copy_up (unat n) dst src m)"

definition memcpy :: "u64 \<Rightarrow> u64 \<Rightarrow> u32 \<Rightarrow> mem \<Rightarrow> mem" where
  "memcpy dst src n m = memmove dst src n m"

text \<open>\<^verbatim>\<open>while(n > 0 && *p && *p == *q) n--, p++, q++;\<close>\<close>

fun strncmp :: "bytes_at \<Rightarrow> bytes_at \<Rightarrow> nat \<Rightarrow> int" where
  "strncmp p q 0 = 0"
| "strncmp p q (Suc n) =
     (if p 0 \<noteq> 0 \<and> p 0 = q 0 then strncmp (\<lambda>i. p (Suc i)) (\<lambda>i. q (Suc i)) n
      else uint (p 0) - uint (q 0))"

text \<open>\<^verbatim>\<open>strncpy(s, t, n)\<close> at position \<open>i\<close> of \<open>s\<close>, with \<open>n\<close>
  bytes to go: the copying loop, then the padding loop.\<close>

fun strncpy_pad :: "nat \<Rightarrow> nat \<Rightarrow> u8 list \<Rightarrow> u8 list" where
  "strncpy_pad i 0 s = s"
| "strncpy_pad i (Suc n) s = strncpy_pad (Suc i) n (s[i := 0])"

fun strncpy_copy :: "nat \<Rightarrow> bytes_at \<Rightarrow> nat \<Rightarrow> u8 list \<Rightarrow> u8 list" where
  "strncpy_copy i t 0 s = s"
| "strncpy_copy i t (Suc n) s =
     (if t i \<noteq> 0 then strncpy_copy (Suc i) t n (s[i := t i])
      else strncpy_pad (Suc i) n (s[i := t i]))"

definition strncpy :: "u8 list \<Rightarrow> bytes_at \<Rightarrow> int \<Rightarrow> u8 list" where
  "strncpy s t n = strncpy_copy 0 t (nat n) s"

text \<open>\<^verbatim>\<open>while(--n > 0 && (*s++ = *t++) != 0); *s = 0;\<close> after the test \<open>n <= 0\<close>:
  the first argument is the position, the second \<open>n - 1\<close>.\<close>

fun safestrcpy_copy :: "nat \<Rightarrow> nat \<Rightarrow> bytes_at \<Rightarrow> u8 list \<Rightarrow> u8 list" where
  "safestrcpy_copy i 0 t s = s[i := 0]"
| "safestrcpy_copy i (Suc n) t s =
     (if t i \<noteq> 0 then safestrcpy_copy (Suc i) n t (s[i := t i])
      else (s[i := t i])[Suc i := 0])"

definition safestrcpy :: "u8 list \<Rightarrow> bytes_at \<Rightarrow> int \<Rightarrow> u8 list" where
  "safestrcpy s t n = (if n \<le> 0 then s else safestrcpy_copy 0 (nat (n - 1)) t s)"

partial_function (option) strlen_from :: "bytes_at \<Rightarrow> nat \<Rightarrow> nat option" where
  "strlen_from s n = (if s n = 0 then Some n else strlen_from s (Suc n))"

definition strlen :: "bytes_at \<Rightarrow> nat option" where
  "strlen s = strlen_from s 0"


section \<open>Address arithmetic\<close>

lemma unat_add_of_nat:
  fixes a :: u64
  assumes "unat a + i < 2 ^ 64"
  shows "unat (a + of_nat i) = unat a + i"
proof -
  have i: "unat (of_nat i :: u64) = i"
    using assms by (simp add: unat_of_nat)
  then show ?thesis
    using assms by (simp add: unat_word_ariths)
qed

lemma of_nat_inj_u64:
  assumes "i < 2 ^ 64" "j < 2 ^ 64"
  shows "(of_nat i :: u64) = of_nat j \<longleftrightarrow> i = j"
proof -
  have "unat (of_nat i :: u64) = i" "unat (of_nat j :: u64) = j"
    using assms by (simp_all add: unat_of_nat)
  then show ?thesis by metis
qed

text \<open>Address \<open>a\<close> is one of the \<open>n\<close> bytes from \<open>d\<close> on.\<close>

definition in_range :: "u64 \<Rightarrow> nat \<Rightarrow> u64 \<Rightarrow> bool" where
  "in_range d n a \<longleftrightarrow> (\<exists>i<n. a = d + of_nat i)"

lemma in_rangeI [intro]: "i < n \<Longrightarrow> in_range d n (d + of_nat i)"
  by (auto simp: in_range_def)

section \<open>What the loops compute\<close>

lemma fold_upd_range:
  fixes m :: mem
  shows "fold (\<lambda>i m. m(d + of_nat i := c)) [0..<n] m a
      = (if in_range d n a then c else m a)"
  by (induction n) (auto simp: less_Suc_eq in_range_def)

lemma memset_apply:
  "memset d c n m a = (if in_range d (unat n) a then ucast c else m a)"
  by (simp add: memset_def fold_upd_range)

lemma copy_up_apply:
  assumes "\<And>i j. i < j \<Longrightarrow> j < n \<Longrightarrow> d + of_nat i \<noteq> s + of_nat j"
  shows "copy_up n d s m a = (if \<exists>i<n. a = d + of_nat i then m (s + (a - d)) else m a)"
  using assms
proof (induction n arbitrary: d s m)
  case 0
  then show ?case by simp
next
  case (Suc n)
  have IH: "copy_up n (d + 1) (s + 1) (m(d := m s)) a
      = (if \<exists>i<n. a = d + 1 + of_nat i then (m(d := m s)) (s + 1 + (a - (d + 1)))
         else (m(d := m s)) a)"
  proof (rule Suc.IH)
    fix i j assume "i < j" "j < n"
    then have "d + of_nat (Suc i) \<noteq> s + of_nat (Suc j)" by (intro Suc.prems) auto
    then show "d + 1 + of_nat i \<noteq> s + 1 + of_nat j" by (simp add: algebra_simps)
  qed
  have ex: "(\<exists>i<Suc n. a = d + of_nat i) \<longleftrightarrow> a = d \<or> (\<exists>i<n. a = d + 1 + of_nat i)"
  proof
    assume "\<exists>i<Suc n. a = d + of_nat i"
    then obtain i where "i < Suc n" "a = d + of_nat i" by blast
    then show "a = d \<or> (\<exists>i<n. a = d + 1 + of_nat i)"
      by (cases i) (auto simp: algebra_simps)
  next
    assume "a = d \<or> (\<exists>i<n. a = d + 1 + of_nat i)"
    then show "\<exists>i<Suc n. a = d + of_nat i"
    proof
      assume "a = d" then show ?thesis by (intro exI [of _ 0]) simp
    next
      assume "\<exists>i<n. a = d + 1 + of_nat i"
      then obtain i where "i < n" "a = d + 1 + of_nat i" by blast
      then show ?thesis by (intro exI [of _ "Suc i"]) (simp add: algebra_simps)
    qed
  qed
  have src: "s + (a - d) \<noteq> d" if "i < n" "a = d + 1 + of_nat i" for i
  proof -
    have "d + of_nat 0 \<noteq> s + of_nat (Suc i)" using that by (intro Suc.prems) auto
    then show ?thesis using that by (simp add: algebra_simps)
  qed
  show ?case
  proof (cases "\<exists>i<n. a = d + 1 + of_nat i")
    case True
    then have "s + (a - d) \<noteq> d" using src by blast
    with True IH ex show ?thesis by (simp add: algebra_simps)
  next
    case False
    with IH ex show ?thesis by auto
  qed
qed

lemma copy_down_apply:
  assumes "\<And>i j. i < j \<Longrightarrow> j < n \<Longrightarrow> d - 1 - of_nat i \<noteq> s - 1 - of_nat j"
  shows "copy_down n d s m a = (if \<exists>i<n. a = d - 1 - of_nat i then m (s + (a - d)) else m a)"
  using assms
proof (induction n arbitrary: d s m)
  case 0
  then show ?case by simp
next
  case (Suc n)
  have IH: "copy_down n (d - 1) (s - 1) (m(d - 1 := m (s - 1))) a
      = (if \<exists>i<n. a = d - 1 - 1 - of_nat i then (m(d - 1 := m (s - 1))) (s - 1 + (a - (d - 1)))
         else (m(d - 1 := m (s - 1))) a)"
  proof (rule Suc.IH)
    fix i j assume "i < j" "j < n"
    then have "d - 1 - of_nat (Suc i) \<noteq> s - 1 - of_nat (Suc j)" by (intro Suc.prems) auto
    then show "d - 1 - 1 - of_nat i \<noteq> s - 1 - 1 - of_nat j" by (simp add: algebra_simps)
  qed
  have ex: "(\<exists>i<Suc n. a = d - 1 - of_nat i) \<longleftrightarrow> a = d - 1 \<or> (\<exists>i<n. a = d - 1 - 1 - of_nat i)"
  proof
    assume "\<exists>i<Suc n. a = d - 1 - of_nat i"
    then obtain i where "i < Suc n" "a = d - 1 - of_nat i" by blast
    then show "a = d - 1 \<or> (\<exists>i<n. a = d - 1 - 1 - of_nat i)"
      by (cases i) (auto simp: algebra_simps)
  next
    assume "a = d - 1 \<or> (\<exists>i<n. a = d - 1 - 1 - of_nat i)"
    then show "\<exists>i<Suc n. a = d - 1 - of_nat i"
    proof
      assume "a = d - 1" then show ?thesis by (intro exI [of _ 0]) simp
    next
      assume "\<exists>i<n. a = d - 1 - 1 - of_nat i"
      then obtain i where "i < n" "a = d - 1 - 1 - of_nat i" by blast
      then show ?thesis by (intro exI [of _ "Suc i"]) (simp add: algebra_simps)
    qed
  qed
  have src: "s + (a - d) \<noteq> d - 1" if "i < n" "a = d - 1 - 1 - of_nat i" for i
  proof -
    have "d - 1 - of_nat 0 \<noteq> s - 1 - of_nat (Suc i)" using that by (intro Suc.prems) auto
    moreover have "s + (a - d) = s - 1 - of_nat (Suc i)" using that by simp
    ultimately show ?thesis by simp
  qed
  show ?case
  proof (cases "\<exists>i<n. a = d - 1 - 1 - of_nat i")
    case True
    then have "s + (a - d) \<noteq> d - 1" using src by blast
    with True IH ex show ?thesis by (simp add: algebra_simps)
  next
    case False
    with IH ex show ?thesis by (auto simp: algebra_simps)
  qed
qed

lemma memmove_apply:
  assumes "unat src + unat n < 2 ^ 64" "unat dst + unat n < 2 ^ 64"
  shows "memmove dst src n m a
    = (if in_range dst (unat n) a then m (src + (a - dst)) else m a)"
proof -
  let ?n = "unat n"
  have un: "unat (src + of_nat i) = unat src + i" "unat (dst + of_nat i) = unat dst + i"
    if "i \<le> ?n" for i
    using that assms by (auto intro!: unat_add_of_nat)
  consider "n = 0" | "n \<noteq> 0" "src < dst \<and> src + ucast n > dst"
    | "n \<noteq> 0" "\<not> (src < dst \<and> src + ucast n > dst)" by blast
  then show ?thesis
  proof cases
    case 1
    then show ?thesis by (simp add: memmove_def in_range_def)
  next
    case 2
    have nc: "dst + ucast n - 1 - of_nat i \<noteq> src + ucast n - 1 - of_nat j" if "i < j" "j < ?n" for i j
    proof
      assume "dst + ucast n - 1 - of_nat i = src + ucast n - 1 - of_nat j"
      then have "dst + of_nat j = src + of_nat i" by (simp add: algebra_simps)
      then have "unat (dst + of_nat j) = unat (src + of_nat i)" by simp
      then have "unat dst + j = unat src + i" using un(1) [of i] un(2) [of j] that by simp
      with 2 that show False by (simp add: word_less_nat_alt)
    qed
    have ex: "(\<exists>i<?n. a = dst + ucast n - 1 - of_nat i) \<longleftrightarrow> (\<exists>i<?n. a = dst + of_nat i)"
    proof
      assume "\<exists>i<?n. a = dst + ucast n - 1 - of_nat i"
      then obtain i where "i < ?n" "a = dst + ucast n - 1 - of_nat i" by blast
      then show "\<exists>i<?n. a = dst + of_nat i"
        by (intro exI [of _ "?n - 1 - i"]) (simp add: of_nat_diff algebra_simps)
    next
      assume "\<exists>i<?n. a = dst + of_nat i"
      then obtain i where "i < ?n" "a = dst + of_nat i" by blast
      then show "\<exists>i<?n. a = dst + ucast n - 1 - of_nat i"
        by (intro exI [of _ "?n - 1 - i"]) (simp add: of_nat_diff algebra_simps)
    qed
    have eq: "src + ucast n + (a - (dst + ucast n)) = src + (a - dst)" by simp
    show ?thesis
      using 2 copy_down_apply [of ?n "dst + ucast n" "src + ucast n" m a, OF nc]
      unfolding ex eq by (simp add: memmove_def flip: in_range_def)
  next
    case 3
    have "dst + of_nat i \<noteq> src + of_nat j" if "i < j" "j < ?n" for i j
    proof
      assume "dst + of_nat i = src + of_nat j"
      then have "unat (dst + of_nat i) = unat (src + of_nat j)" by simp
      then have "unat dst + i = unat src + j" using un(2) [of i] un(1) [of j] that by simp
      moreover have "unat (src + ucast n) = unat src + ?n" using un(1) [of ?n] by simp
      ultimately show False using 3 that by (auto simp: word_less_nat_alt not_less)
    qed
    then have "copy_up ?n dst src m a = (if in_range dst ?n a then m (src + (a - dst)) else m a)"
      unfolding in_range_def by (rule copy_up_apply)
    moreover have "memmove dst src n m = copy_up ?n dst src m"
      unfolding memmove_def using 3 by (simp only: if_False)
    ultimately show ?thesis by simp
  qed
qed


section \<open>Access to a 64-bit word\<close>

definition load64 :: "mem \<Rightarrow> u64 \<Rightarrow> u64" where
  "load64 m a = le_word (map (\<lambda>i. m (a + of_nat i)) [0..<8])"

definition store64 :: "u64 \<Rightarrow> u64 \<Rightarrow> mem \<Rightarrow> mem" where
  "store64 a v m = fold (\<lambda>i m. m(a + of_nat i := le_bytes 8 v ! i)) [0..<8] m"

lemma fold_store_out:
  fixes m :: mem
  shows "\<not> in_range a n x \<Longrightarrow> fold (\<lambda>i m. m(a + of_nat i := f i)) [0..<n] m x = m x"
  by (induction n) (auto simp: in_range_def less_Suc_eq)

lemma fold_store_in:
  fixes m :: mem
  assumes "i < n" "n \<le> 2 ^ 64"
  shows "fold (\<lambda>i m. m(a + of_nat i := f i)) [0..<n] m (a + of_nat i) = f i"
  using assms
proof (induction n)
  case (Suc n)
  then show ?case by (auto simp: of_nat_inj_u64 less_Suc_eq)
qed simp

lemma store64_out: "\<not> in_range a 8 x \<Longrightarrow> store64 a v m x = m x"
  by (simp add: store64_def fold_store_out del: upt_Suc)

lemma load64_store64 [simp]: "load64 (store64 a v m) a = v"
proof -
  have "map (\<lambda>i. store64 a v m (a + of_nat i)) [0..<8] = le_bytes 8 v"
    by (rule nth_equalityI) (auto simp: store64_def fold_store_in simp del: upt_Suc)
  then show ?thesis by (simp add: load64_def le_word_bytes del: upt_Suc)
qed

lemma load64_cong:
  assumes "\<And>x. in_range a 8 x \<Longrightarrow> m x = m' x"
  shows "load64 m a = load64 m' a"
proof -
  have "map (\<lambda>i. m (a + of_nat i)) [0..<8] = map (\<lambda>i. m' (a + of_nat i)) [0..<8]"
    using assms by (intro map_cong) auto
  then show ?thesis unfolding load64_def by (rule arg_cong)
qed

section \<open>Strings\<close>

lemma strlen_from_unfold: "strlen_from s n = (if s n = 0 then Some n else strlen_from s (Suc n))"
  by (rule strlen_from.simps)

lemma strlen_from_Some:
  assumes "s k = 0" "\<forall>i<k. s i \<noteq> 0" "n \<le> k"
  shows "strlen_from s n = Some k"
  using assms(3)
proof (induction "k - n" arbitrary: n)
  case 0
  then have "n = k" by simp
  then show ?case using assms(1) by (subst strlen_from_unfold) simp
next
  case (Suc d)
  then have "s n \<noteq> 0" "strlen_from s (Suc n) = Some k" using assms(2) by auto
  then show ?case by (subst strlen_from_unfold) simp
qed

lemma strlen_Some: "s k = 0 \<Longrightarrow> \<forall>i<k. s i \<noteq> 0 \<Longrightarrow> strlen s = Some k"
  by (simp add: strlen_def strlen_from_Some)

text \<open>Two strings agree up to \<open>n\<close> bytes: the same bytes up to and including the first
  NUL, or in all of the first \<open>n\<close>.\<close>

definition same_prefix :: "bytes_at \<Rightarrow> bytes_at \<Rightarrow> nat \<Rightarrow> bool" where
  "same_prefix p q n \<longleftrightarrow> (\<forall>i<n. (\<forall>j<i. p j \<noteq> 0) \<longrightarrow> p i = q i)"

lemma all_less_Suc2: "(\<forall>i<Suc n. P i) \<longleftrightarrow> P 0 \<and> (\<forall>i<n. P (Suc i))"
  by (metis less_Suc_eq_0_disj)

lemma same_prefix_Suc:
  "same_prefix p q (Suc n) \<longleftrightarrow>
    p 0 = q 0 \<and> (p 0 \<noteq> 0 \<longrightarrow> same_prefix (\<lambda>i. p (Suc i)) (\<lambda>i. q (Suc i)) n)"
  unfolding same_prefix_def all_less_Suc2 by blast

lemma uint_diff_0: "uint (a :: u8) - uint b = 0 \<longleftrightarrow> a = b"
  by (simp add: word_uint_eq_iff)

lemma strncmp_0_iff: "strncmp p q n = 0 \<longleftrightarrow> same_prefix p q n"
proof (induction p q n rule: strncmp.induct)
  case (2 p q n)
  show ?case
  proof (cases "p 0 \<noteq> 0 \<and> p 0 = q 0")
    case True
    then show ?thesis using 2 by (simp add: same_prefix_Suc)
  next
    case False
    then have "strncmp p q (Suc n) = uint (p 0) - uint (q 0)" by (simp only: strncmp.simps if_False)
    with False show ?thesis by (auto simp only: uint_diff_0 same_prefix_Suc)
  qed
qed (simp add: same_prefix_def)

lemma memcmp_0_iff: "memcmp p q n = 0 \<longleftrightarrow> (\<forall>i<n. p i = q i)"
proof (induction p q n rule: memcmp.induct)
  case (2 p q n)
  show ?case
  proof (cases "p 0 = q 0")
    case True
    then show ?thesis using 2 by (simp add: all_less_Suc2)
  next
    case False
    then have "memcmp p q (Suc n) = uint (p 0) - uint (q 0)" by simp
    with False show ?thesis by (auto simp only: uint_diff_0 all_less_Suc2)
  qed
qed simp

text \<open>The string at \<open>t\<close>, cut at \<open>n\<close> bytes and padded with NUL.\<close>

definition padded :: "bytes_at \<Rightarrow> nat \<Rightarrow> u8" where
  "padded t i = (if \<exists>j<i. t j = 0 then 0 else t i)"

lemma length_strncpy_pad [simp]: "length (strncpy_pad i n s) = length s"
  by (induction i n s rule: strncpy_pad.induct) auto

lemma length_strncpy_copy [simp]: "length (strncpy_copy i t n s) = length s"
  by (induction i t n s rule: strncpy_copy.induct) auto

lemma nth_strncpy_pad:
  "i + n \<le> length s \<Longrightarrow> k < length s \<Longrightarrow>
    strncpy_pad i n s ! k = (if i \<le> k \<and> k < i + n then 0 else s ! k)"
  by (induction i n s rule: strncpy_pad.induct) (auto simp: nth_list_update)

lemma nth_strncpy_copy:
  assumes "i + n \<le> length s" "k < length s" "\<forall>j<i. t j \<noteq> 0"
  shows "strncpy_copy i t n s ! k = (if i \<le> k \<and> k < i + n then padded t k else s ! k)"
  using assms
proof (induction i t n s rule: strncpy_copy.induct)
  case (2 i t n s)
  show ?case
  proof (cases "t i = 0")
    case True
    then have "padded t k = 0" if "i < k" using that by (auto simp: padded_def)
    moreover have "padded t i = 0" using True by (simp add: padded_def)
    ultimately show ?thesis using 2 True
      by (auto simp: nth_strncpy_pad nth_list_update)
  next
    case False
    then have nz: "\<forall>j<Suc i. t j \<noteq> 0" using "2.prems"(3) by (simp add: less_Suc_eq)
    have "padded t i = t i" using "2.prems"(3) by (auto simp: padded_def)
    then show ?thesis using 2 False nz by (auto simp: nth_list_update)
  qed
qed auto

lemma strncpy_nth:
  assumes "0 \<le> n" "nat n \<le> length s" "k < length s"
  shows "strncpy s t n ! k = (if k < nat n then padded t k else s ! k)"
  using assms nth_strncpy_copy [of 0 "nat n" s k t] by (simp add: strncpy_def)

lemma length_safestrcpy_copy [simp]: "length (safestrcpy_copy i n t s) = length s"
  by (induction i n t s rule: safestrcpy_copy.induct) auto

lemma length_strncpy [simp]: "length (strncpy s t n) = length s"
  by (simp add: strncpy_def)

lemma length_safestrcpy [simp]: "length (safestrcpy s t n) = length s"
  by (simp add: safestrcpy_def)

lemma safestrcpy_copy_spec:
  assumes "i + n < length s" "\<forall>j<i. t j \<noteq> 0 \<and> s ! j = t j"
  shows "\<exists>k\<le>i + n. (\<forall>j<k. t j \<noteq> 0 \<and> safestrcpy_copy i n t s ! j = t j)
     \<and> safestrcpy_copy i n t s ! k = 0 \<and> (k < i + n \<longrightarrow> t k = 0)"
  using assms
proof (induction i n t s rule: safestrcpy_copy.induct)
  case (1 i t s)
  then show ?case by (intro exI [of _ i]) (auto simp: nth_list_update)
next
  case (2 i n t s)
  show ?case
  proof (cases "t i = 0")
    case True
    then show ?thesis using "2.prems" by (intro exI [of _ i]) (auto simp: nth_list_update)
  next
    case False
    have "\<forall>j<Suc i. t j \<noteq> 0 \<and> s[i := t i] ! j = t j"
      using False "2.prems" by (auto simp: nth_list_update less_Suc_eq)
    then show ?thesis using "2.IH" [OF False] "2.prems" False by simp
  qed
qed

section \<open>Properties\<close>

text \<open>C38. \<open>memmove\<close> copies the source as it was before the call, for overlapping
  and disjoint regions alike, and touches nothing outside the destination (for regions that do
  not wrap around the address space).\<close>

theorem memmove_correct:
  assumes "unat src + unat n < 2 ^ 64" and "unat dst + unat n < 2 ^ 64"
  shows "(\<forall>i<unat n. memmove dst src n m (dst + of_nat i) = m (src + of_nat i))
    \<and> (\<forall>a. (\<forall>i<unat n. a \<noteq> dst + of_nat i) \<longrightarrow> memmove dst src n m a = m a)"
proof -
  have "\<not> in_range dst (unat n) a" if "\<forall>i<unat n. a \<noteq> dst + of_nat i" for a
    using that by (auto simp: in_range_def)
  then show ?thesis using assms by (auto simp: memmove_apply)
qed

theorem memmove_correct_witness:
  "memmove 0x1001 0x1000 3 (\<lambda>a. if a = 0x1000 then 7 else if a = 0x1001 then 8 else 9) 0x1002
    = (8 :: u8)"
proof -
  let ?m = "\<lambda>a :: u64. if a = 0x1000 then 7 else if a = 0x1001 then 8 else (9 :: u8)"
  have "\<forall>i<unat (3 :: u32). memmove 0x1001 0x1000 3 ?m (0x1001 + of_nat i) = ?m (0x1000 + of_nat i)"
    by (rule memmove_correct [THEN conjunct1]) simp_all
  from this [rule_format, of 1] show ?thesis by simp
qed

text \<open>C39. \<open>safestrcpy\<close> into an array of \<open>n\<close> bytes always leaves a
  NUL-terminated string in it: the longest prefix of the source that fits with its terminator;
  the rest of the program's strings (names of processes) rely on it.\<close>

theorem safestrcpy_terminates_string:
  assumes "0 < n" and "nat n \<le> length s"
  shows "\<exists>k. k < nat n \<and> (\<forall>j<k. t j \<noteq> 0 \<and> safestrcpy s t n ! j = t j)
    \<and> safestrcpy s t n ! k = 0 \<and> (k < nat n - 1 \<longrightarrow> t k = 0)
    \<and> strlen (\<lambda>i. safestrcpy s t n ! i) = Some k"
proof -
  have r: "safestrcpy s t n = safestrcpy_copy 0 (nat n - 1) t s"
    using assms by (simp add: safestrcpy_def nat_diff_distrib)
  have "0 + (nat n - 1) < length s" using assms by linarith
  from safestrcpy_copy_spec [OF this] obtain k where k: "k \<le> nat n - 1"
    "\<forall>j<k. t j \<noteq> 0 \<and> safestrcpy s t n ! j = t j" "safestrcpy s t n ! k = 0"
    "k < nat n - 1 \<longrightarrow> t k = 0" unfolding r by auto
  then have "strlen (\<lambda>i. safestrcpy s t n ! i) = Some k" by (intro strlen_Some) auto
  with k assms show ?thesis by (intro exI [of _ k]) auto
qed

theorem safestrcpy_terminates_string_witness:
  "\<exists>k. k < 4 \<and> safestrcpy [1, 1, 1, 1] (\<lambda>i. of_nat (Suc i)) 4 ! k = 0
    \<and> strlen (\<lambda>i. safestrcpy [1, 1, 1, 1] (\<lambda>i. of_nat (Suc i)) 4 ! i) = Some k"
  using safestrcpy_terminates_string [of 4 "[1, 1, 1, 1]" "\<lambda>i. of_nat (Suc i)"] by auto

end
