(* ===== verification/Kalloc.thy ===== *)
theory Kalloc
  imports Spinlock Kstring
begin

text \<open>
  The physical page allocator: \<^verbatim>\<open>kernel/kalloc.c\<close>, with the page macros of
  \<^verbatim>\<open>kernel/riscv.h\<close> and the layout constants of
  \<^verbatim>\<open>kernel/memlayout.h\<close>. The free list is threaded through the free pages
  themselves: \<^verbatim>\<open>r->next\<close> is the first word of the page at \<open>r\<close>. The
  address \<^verbatim>\<open>end\<close>, which the linker script defines, is a component of the state.
\<close>

section \<open>State and operations\<close>

definition KERNBASE :: u64 where "KERNBASE = 0x80000000"
definition PHYSTOP :: u64 where "PHYSTOP = KERNBASE + 128 * 1024 * 1024"

record kmem = harts +
  mem :: mem
  freelist :: u64
  kend :: u64

definition kfree :: "u64 \<Rightarrow> ('z kmem_scheme, unit) kM" where
  "kfree pa =
    bind (gets kend) (\<lambda>e.
    if pa mod PGSIZE \<noteq> 0 \<or> pa < e \<or> pa \<ge> PHYSTOP then panic ''kfree'' else
    seq (modify (\<lambda>s. s\<lparr>mem := memset pa 1 4096 (mem s)\<rparr>))
    (seq (acquire KMem)
    (seq (modify (\<lambda>s. s\<lparr>mem := store64 pa (freelist s) (mem s)\<rparr>))
    (seq (modify (\<lambda>s. s\<lparr>freelist := pa\<rparr>))
    (release KMem)))))"

definition kalloc :: "('z kmem_scheme, u64) kM" where
  "kalloc =
    seq (acquire KMem)
    (bind (gets freelist) (\<lambda>r.
    seq (whenM (r \<noteq> 0) (modify (\<lambda>s. s\<lparr>freelist := load64 (mem s) r\<rparr>)))
    (seq (release KMem)
    (seq (whenM (r \<noteq> 0) (modify (\<lambda>s. s\<lparr>mem := memset r 5 4096 (mem s)\<rparr>)))
    (return r)))))"

text \<open>The loop of \<open>freerange\<close>, with a bound on its iterations; \<open>freerange\<close>
  gives it one more than the pages below \<open>pa_end\<close>, which is always enough.\<close>

primrec freerange_loop :: "nat \<Rightarrow> u64 \<Rightarrow> u64 \<Rightarrow> ('z kmem_scheme, unit) kM" where
  "freerange_loop 0 p pa_end = (if p + PGSIZE \<le> pa_end then hang else return ())"
| "freerange_loop (Suc n) p pa_end =
    (if p + PGSIZE \<le> pa_end then seq (kfree p) (freerange_loop n (p + PGSIZE) pa_end)
     else return ())"

definition freerange :: "u64 \<Rightarrow> u64 \<Rightarrow> ('z kmem_scheme, unit) kM" where
  "freerange pa_start pa_end =
    freerange_loop (Suc (unat pa_end div 4096)) (PGROUNDUP pa_start) pa_end"

definition kinit :: "('z kmem_scheme, unit) kM" where
  "kinit =
    seq (modify (initlock KMem ''kmem''))
    (bind (gets kend) (\<lambda>e. freerange e PHYSTOP))"

section \<open>Critical sections commute with the allocator's data\<close>

lemma kmem_acq [simp]:
  "mem (acq l s) = mem s" "freelist (acq l s) = freelist s" "kend (acq l s) = kend s"
  "acq l s\<lparr>mem := m\<rparr> = acq l (s\<lparr>mem := m\<rparr>)" "acq l s\<lparr>freelist := p\<rparr> = acq l (s\<lparr>freelist := p\<rparr>)"
  by (simp_all add: acq_def push_off_def hart_defs Let_def)

lemma kmem_settle [simp]:
  "mem (settle s) = mem s" "freelist (settle s) = freelist s" "kend (settle s) = kend s"
  "settle s\<lparr>mem := m\<rparr> = settle (s\<lparr>mem := m\<rparr>)"
  "settle s\<lparr>freelist := p\<rparr> = settle (s\<lparr>freelist := p\<rparr>)"
  by (simp_all add: settle_def hart_defs)

lemma kmem_ok [simp]:
  "hart_ok (s\<lparr>mem := m\<rparr>) = hart_ok s" "hart_ok (s\<lparr>freelist := p\<rparr>) = hart_ok s"
  "lock_free l (s\<lparr>mem := m\<rparr>) = lock_free l s" "lock_free l (s\<lparr>freelist := p\<rparr>) = lock_free l s"
  by (simp_all add: hart_ok_def lock_free_def hart_defs)

lemma kfree_eq:
  assumes "hart_ok s" "lock_free KMem s"
  shows "kfree pa s =
    (if pa mod PGSIZE \<noteq> 0 \<or> pa < kend s \<or> pa \<ge> PHYSTOP then Panic ''kfree''
     else Ret ((), settle (s\<lparr>mem := store64 pa (freelist s) (memset pa 1 4096 (mem s)),
                            freelist := pa\<rparr>)))"
  using assms
  by (simp add: kfree_def kM_simps acquire_free lock_free_unlocked release_acq)

lemma kalloc_eq:
  assumes "hart_ok s" "lock_free KMem s"
  shows "kalloc s =
    Ret (freelist s, settle (if freelist s = 0 then s
      else s\<lparr>freelist := load64 (mem s) (freelist s), mem := memset (freelist s) 5 4096 (mem s)\<rparr>))"
  using assms
  by (simp add: kalloc_def kM_simps acquire_free lock_free_unlocked release_acq)


section \<open>The free list\<close>

primrec free_list :: "mem \<Rightarrow> u64 \<Rightarrow> u64 list \<Rightarrow> bool" where
  "free_list m p [] \<longleftrightarrow> p = 0"
| "free_list m p (a # as) \<longleftrightarrow> p = a \<and> a \<noteq> 0 \<and> free_list m (load64 m a) as"

definition page_ok :: "'z kmem_scheme \<Rightarrow> u64 \<Rightarrow> bool" where
  "page_ok s a \<longleftrightarrow> a mod PGSIZE = 0 \<and> kend s \<le> a \<and> a < PHYSTOP"

text \<open>\<open>kmem_inv s ps\<close>: the free list of \<open>s\<close> is the list \<open>ps\<close> of
  distinct, aligned pages between \<^verbatim>\<open>end\<close> and \<^verbatim>\<open>PHYSTOP\<close>.\<close>

definition kmem_inv :: "'z kmem_scheme \<Rightarrow> u64 list \<Rightarrow> bool" where
  "kmem_inv s ps \<longleftrightarrow> 0 < kend s \<and> free_list (mem s) (freelist s) ps \<and> distinct ps
    \<and> (\<forall>a\<in>set ps. page_ok s a)"

definition kmem_ready :: "'z kmem_scheme \<Rightarrow> bool" where
  "kmem_ready s \<longleftrightarrow> hart_ok s \<and> lock_free KMem s"

lemma aligned_unat: "a mod PGSIZE = 0 \<longleftrightarrow> unat a mod 4096 = 0"
  by (simp add: PGSIZE_def unat_eq_0 [symmetric] unat_mod)

lemma page_unat:
  assumes "a mod PGSIZE = 0" "i < 4096"
  shows "unat (a + of_nat i) = unat a + i"
proof (rule unat_add_of_nat)
  obtain k where k: "unat a = 4096 * k"
    using assms(1) by (meson aligned_unat dvd_def dvd_eq_mod_eq_0)
  have "unat a < 2 ^ 64" using unsigned_less [of a] by simp
  then have "k < 2 ^ 52" unfolding k by simp
  then show "unat a + i < 2 ^ 64" using assms(2) unfolding k by simp
qed

lemma page_disjoint:
  assumes "a mod PGSIZE = 0" "b mod PGSIZE = 0" "in_range a 4096 x" "in_range b 4096 x"
  shows "a = b"
proof -
  from assms(3,4) obtain i j where ij: "i < 4096" "x = a + of_nat i" "j < 4096" "x = b + of_nat j"
    unfolding in_range_def by blast
  have "unat a + i = unat b + j"
    using page_unat [OF assms(1) ij(1)] page_unat [OF assms(2) ij(3)] ij(2,4) by simp
  moreover obtain k l where "unat a = 4096 * k" "unat b = 4096 * l"
    using assms(1,2) by (meson aligned_unat dvd_def dvd_eq_mod_eq_0)
  moreover from this have "(unat a + i) div 4096 = k" "(unat b + j) div 4096 = l"
    using ij(1,3) by simp_all
  ultimately have "unat a = unat b" by simp
  then show ?thesis by (simp add: word_unat_eq_iff)
qed

lemma in_range_mono:
  assumes "in_range a n x" "n \<le> m"
  shows "in_range a m x"
proof -
  from assms(1) obtain i where "i < n" "x = a + of_nat i" unfolding in_range_def by blast
  with assms(2) have "i < m \<and> x = a + of_nat i" by simp
  then show ?thesis unfolding in_range_def by blast
qed

lemma free_list_cong:
  assumes "\<And>a x. a \<in> set ps \<Longrightarrow> in_range a 4096 x \<Longrightarrow> m' x = m x"
  shows "free_list m' p ps = free_list m p ps"
  using assms
proof (induction ps arbitrary: p)
  case (Cons a as)
  have "load64 m' a = load64 m a"
    using Cons.prems [of a] in_range_mono [of a 8 _ 4096] by (intro load64_cong) simp
  moreover have "free_list m' (load64 m a) as = free_list m (load64 m a) as"
    by (rule Cons.IH, rule Cons.prems) simp_all
  ultimately show ?case by simp
qed simp

lemma kmem_inv_page: "kmem_inv s ps \<Longrightarrow> a \<in> set ps \<Longrightarrow> page_ok s a \<and> a \<noteq> 0"
  by (auto simp: kmem_inv_def page_ok_def)

lemma kmem_inv_frame:
  assumes "kmem_inv s ps" "kend s' = kend s" "freelist s' = freelist s"
    "\<And>a x. a \<in> set ps \<Longrightarrow> in_range a 4096 x \<Longrightarrow> mem s' x = mem s x"
  shows "kmem_inv s' ps"
  using assms free_list_cong [of ps "mem s'" "mem s"] by (simp add: kmem_inv_def page_ok_def)

lemma kmem_inv_settle [simp]: "kmem_inv (settle s) ps = kmem_inv s ps"
  by (simp add: kmem_inv_def page_ok_def)

lemma kmem_ready_settle [simp]: "kmem_ready (settle s) = kmem_ready s"
  by (simp add: kmem_ready_def)

lemma kmem_ready_upd [simp]:
  "kmem_ready (s\<lparr>mem := m\<rparr>) = kmem_ready s" "kmem_ready (s\<lparr>freelist := p\<rparr>) = kmem_ready s"
  by (simp_all add: kmem_ready_def)

lemma memset_page: "memset p c 4096 m x = (if in_range p 4096 x then ucast c else m x)"
  by (simp add: memset_apply)

lemma kalloc_nil:
  assumes "kmem_ready s" "kmem_inv s []"
  shows "kalloc s = Ret (0, settle s)"
  using assms by (simp add: kalloc_eq kmem_ready_def kmem_inv_def)

lemma kalloc_cons:
  assumes "kmem_ready s" "kmem_inv s (p # ps)"
  obtains m where
    "kalloc s = Ret (p, settle (s\<lparr>freelist := load64 (mem s) p, mem := m\<rparr>))"
    "kmem_inv (s\<lparr>freelist := load64 (mem s) p, mem := m\<rparr>) ps"
    "\<And>x. m x = (if in_range p 4096 x then 5 else mem s x)"
proof
  let ?m = "memset p 5 4096 (mem s)"
  have fl: "freelist s = p" "p \<noteq> 0" "free_list (mem s) (load64 (mem s) p) ps" "p \<notin> set ps"
    "distinct ps" "\<forall>a\<in>set ps. page_ok s a" "page_ok s p" "0 < kend s"
    using assms(2) by (auto simp: kmem_inv_def)
  show "kalloc s = Ret (p, settle (s\<lparr>freelist := load64 (mem s) p, mem := ?m\<rparr>))"
    using assms(1) fl(1,2) by (simp add: kalloc_eq kmem_ready_def)
  have "free_list ?m (load64 (mem s) p) ps"
  proof (subst free_list_cong [where m = "mem s"])
    fix a x assume "a \<in> set ps" "in_range a 4096 x"
    then have "\<not> in_range p 4096 x"
      using fl page_disjoint [of a p x] by (auto simp: page_ok_def)
    then show "?m x = mem s x" by (simp add: memset_page)
  qed (rule fl(3))
  then show "kmem_inv (s\<lparr>freelist := load64 (mem s) p, mem := ?m\<rparr>) ps"
    using fl by (simp add: kmem_inv_def page_ok_def)
qed (simp add: memset_page)

lemma kfree_ok:
  assumes "kmem_ready s" "kmem_inv s ps" "page_ok s p" "p \<notin> set ps"
  obtains m where "kfree p s = Ret ((), settle (s\<lparr>freelist := p, mem := m\<rparr>))"
    "kmem_inv (s\<lparr>freelist := p, mem := m\<rparr>) (p # ps)"
    "\<And>x. \<not> in_range p 4096 x \<Longrightarrow> m x = mem s x"
proof
  let ?m = "store64 p (freelist s) (memset p 1 4096 (mem s))"
  have eq: "s\<lparr>mem := ?m, freelist := p\<rparr> = s\<lparr>freelist := p, mem := ?m\<rparr>" by simp
  have "kfree p s = Ret ((), settle (s\<lparr>mem := ?m, freelist := p\<rparr>))"
    using assms(1,3) by (simp add: kfree_eq kmem_ready_def page_ok_def not_less not_le)
  then show "kfree p s = Ret ((), settle (s\<lparr>freelist := p, mem := ?m\<rparr>))" unfolding eq .
  show out: "?m x = mem s x" if "\<not> in_range p 4096 x" for x
    using that by (subst store64_out) (auto simp: memset_page dest: in_range_mono [of p 8 _ 4096])
  have "free_list ?m (freelist s) ps"
  proof (subst free_list_cong [where m = "mem s"])
    fix a x assume "a \<in> set ps" "in_range a 4096 x"
    then have "\<not> in_range p 4096 x"
      using assms page_disjoint [of a p x] by (auto simp: page_ok_def kmem_inv_def)
    then show "?m x = mem s x" by (rule out)
  next
    show "free_list (mem s) (freelist s) ps" using assms(2) by (simp add: kmem_inv_def)
  qed
  then show "kmem_inv (s\<lparr>freelist := p, mem := ?m\<rparr>) (p # ps)"
    using assms by (auto simp: kmem_inv_def page_ok_def)
qed

section \<open>Initialisation\<close>

lemma in_range_self: "0 < n \<Longrightarrow> in_range a n a"
  unfolding in_range_def by (rule exI [of _ 0]) simp

lemma in_range_between:
  assumes "p \<le> a" "unat a < unat p + n"
  shows "in_range p n a"
proof -
  have "a = p + of_nat (unat a - unat p)"
    using assms(1) by (simp add: word_le_nat_alt of_nat_diff)
  moreover have "unat a - unat p < n" using assms by (simp add: word_le_nat_alt less_diff_conv2)
  ultimately show ?thesis unfolding in_range_def by blast
qed

lemma unat_PHYSTOP [simp]: "unat PHYSTOP = 0x88000000"
  by (simp add: PHYSTOP_def KERNBASE_def)

lemma next_page:
  assumes "p mod PGSIZE = 0" "p < PHYSTOP"
  shows "unat (p + PGSIZE) = unat p + 4096" "p + PGSIZE \<le> PHYSTOP"
    "(p + PGSIZE) mod PGSIZE = 0"
proof -
  obtain k where k: "unat p = 4096 * k"
    using assms(1) by (meson aligned_unat dvd_def dvd_eq_mod_eq_0)
  have lt: "unat p < 0x88000000" using assms(2) by (simp add: word_less_nat_alt)
  then have "k < 0x88000" unfolding k by simp
  then have le: "unat p + 4096 \<le> 0x88000000" unfolding k by simp
  show u: "unat (p + PGSIZE) = unat p + 4096"
    using unat_add_of_nat [of p 4096] lt by (simp add: PGSIZE_def)
  show "p + PGSIZE \<le> PHYSTOP" using le by (simp add: word_le_nat_alt u)
  show "(p + PGSIZE) mod PGSIZE = 0" unfolding aligned_unat u k by simp
qed

lemma no_next_page:
  assumes "\<not> p < PHYSTOP" "p \<le> PHYSTOP" shows "\<not> p + PGSIZE \<le> PHYSTOP"
  using assms by (simp add: PGSIZE_def PHYSTOP_def KERNBASE_def)

lemma pages_below_next:
  assumes "p mod PGSIZE = 0" "p < PHYSTOP" "kend s \<le> p"
  shows "{a. page_ok s a \<and> a < p + PGSIZE} = insert p {a. page_ok s a \<and> a < p}"
proof -
  have "a = p" if "page_ok s a" "a < p + PGSIZE" "\<not> a < p" for a
  proof (rule page_disjoint [of a p a])
    show "in_range p 4096 a"
      using that next_page(1) [OF assms(1,2)]
      by (intro in_range_between) (simp_all add: word_less_nat_alt word_le_nat_alt)
  qed (use that assms in \<open>simp_all add: page_ok_def in_range_self\<close>)
  moreover have "p < p + PGSIZE" using next_page(1) [OF assms(1,2)] by (simp add: word_less_nat_alt)
  moreover have "page_ok s p" using assms by (simp add: page_ok_def)
  ultimately show ?thesis by (auto intro: less_trans)
qed

lemma freerange_loop_ok:
  assumes "kmem_ready s" "kmem_inv s ps" "set ps = {a. page_ok s a \<and> a < p}"
    "p mod PGSIZE = 0" "kend s \<le> p" "p \<le> PHYSTOP" "unat PHYSTOP - unat p \<le> 4096 * n"
  shows "\<exists>s' ps'. freerange_loop n p PHYSTOP s = Ret ((), s') \<and> kmem_ready s' \<and> kmem_inv s' ps'
    \<and> set ps' = {a. page_ok s' a} \<and> kend s' = kend s"
  using assms
proof (induction n arbitrary: s ps p)
  case 0
  then have "p = PHYSTOP" by (simp add: word_le_nat_alt word_unat_eq_iff)
  with 0 show ?case using no_next_page [of p] by (auto simp: page_ok_def return_apply)
next
  case (Suc n)
  show ?case
  proof (cases "p < PHYSTOP")
    case True
    note np = next_page [OF Suc.prems(4) True]
    have pg: "page_ok s p" "p \<notin> set ps" using Suc.prems True by (auto simp: page_ok_def)
    obtain m where
      m: "kfree p s = Ret ((), settle (s\<lparr>freelist := p, mem := m\<rparr>))"
        "kmem_inv (s\<lparr>freelist := p, mem := m\<rparr>) (p # ps)"
      by (rule kfree_ok [OF Suc.prems(1,2) pg]) (rule that)
    define s' where "s' = settle (s\<lparr>freelist := p, mem := m\<rparr>)"
    have s': "kfree p s = Ret ((), s')" "kmem_inv s' (p # ps)" "kmem_ready s'" "kend s' = kend s"
      using m Suc.prems(1) by (simp_all add: s'_def)
    have "set (p # ps) = {a. page_ok s' a \<and> a < p + PGSIZE}"
      using pages_below_next [OF Suc.prems(4) True Suc.prems(5)] Suc.prems(3) s'(4)
      by (simp add: page_ok_def)
    moreover have "kend s' \<le> p + PGSIZE"
      using Suc.prems(5) np(1) s'(4) by (simp add: word_le_nat_alt)
    moreover have "unat PHYSTOP - unat (p + PGSIZE) \<le> 4096 * n" using Suc.prems(7) np(1) by simp
    ultimately show ?thesis
      using Suc.IH [OF s'(3,2) _ np(3) _ np(2)] s'(1,4) np(2) by (simp add: seq_apply)
  next
    case False
    then have "p = PHYSTOP" using Suc.prems(6) by simp
    with Suc.prems False show ?thesis
      using no_next_page [of p] by (auto simp: page_ok_def return_apply)
  qed
qed

lemma round_up_ge: "(x::nat) \<le> (x + 4095) div 4096 * 4096"
proof -
  have "(x + 4095) mod 4096 < 4096" by simp
  moreover have "(x + 4095) div 4096 * 4096 + (x + 4095) mod 4096 = x + 4095"
    by (rule div_mult_mod_eq)
  ultimately show ?thesis by linarith
qed

lemma freerange_ok:
  assumes "kmem_ready s" "kmem_inv s []" "kend s \<le> PHYSTOP"
  shows "\<exists>s' ps. freerange (kend s) PHYSTOP s = Ret ((), s') \<and> kmem_ready s' \<and> kmem_inv s' ps
    \<and> set ps = {a. page_ok s' a} \<and> kend s' = kend s"
proof -
  let ?p = "PGROUNDUP (kend s)"
  have e: "unat (kend s) \<le> 0x88000000" using assms(3) by (simp add: word_le_nat_alt)
  then have p: "unat ?p = (unat (kend s) + 4095) div 4096 * 4096"
    by (intro unat_PGROUNDUP) simp
  have "(unat (kend s) + 4095) div 4096 \<le> 0x88000" using e by (simp add: div_le_mono)
  then have le: "?p \<le> PHYSTOP" by (simp add: word_le_nat_alt p)
  have ge: "kend s \<le> ?p" unfolding word_le_nat_alt p by (rule round_up_ge)
  have "{a. page_ok s a \<and> a < ?p} = {}"
  proof (rule equals0I)
    fix a assume "a \<in> {a. page_ok s a \<and> a < ?p}"
    then have a: "unat a mod 4096 = 0" "unat (kend s) \<le> unat a" "unat a < unat ?p"
      by (simp_all add: page_ok_def aligned_unat word_le_nat_alt word_less_nat_alt)
    then obtain k where k: "unat a = 4096 * k" by (meson dvd_def dvd_eq_mod_eq_0)
    have "(unat (kend s) + 4095) div 4096 \<le> k"
      using a(2) unfolding k by (simp add: less_Suc_eq_le [symmetric] div_less_iff_less_mult)
    with a(3) show False unfolding p k by simp
  qed
  with assms le ge p show ?thesis
    unfolding freerange_def by (intro freerange_loop_ok [where ps = "[]"]) (simp_all add: aligned_unat)
qed

lemma kmem_initlock [simp]:
  "kend (initlock l n s) = kend s" "mem (initlock l n s) = mem s"
  "freelist (initlock l n s) = freelist s" "hart_ok (initlock l n s) = hart_ok s"
  "lock_free l (initlock l n s)"
  by (simp_all add: initlock_def hart_ok_def hart_defs lock_free_def)

lemma kmem_inv_nil: "kmem_inv s [] \<longleftrightarrow> 0 < kend s \<and> freelist s = 0"
  by (auto simp: kmem_inv_def)


section \<open>The allocator as an interface\<close>

text \<open>What the callers of the allocator rely on. \<open>inv s ps\<close> says that the allocator is
  usable in \<open>s\<close> and that its free pages are \<open>ps\<close>.\<close>

locale page_allocator =
  fixes alloc :: "'s \<Rightarrow> (u64 \<times> 's) outcome"
    and dealloc :: "u64 \<Rightarrow> 's \<Rightarrow> (unit \<times> 's) outcome"
    and inv :: "'s \<Rightarrow> u64 list \<Rightarrow> bool"
    and usable :: "'s \<Rightarrow> u64 \<Rightarrow> bool"
    and contents :: "'s \<Rightarrow> mem"
  assumes alloc_nil: "inv s [] \<Longrightarrow> \<exists>s'. alloc s = Ret (0, s') \<and> inv s' [] \<and> contents s' = contents s"
    and alloc_cons: "inv s (p # ps) \<Longrightarrow> \<exists>s'. alloc s = Ret (p, s') \<and> inv s' ps \<and> usable s' p
      \<and> (\<forall>x. \<not> in_range p 4096 x \<longrightarrow> contents s' x = contents s x)"
    and dealloc: "inv s ps \<Longrightarrow> usable s p \<Longrightarrow> p \<notin> set ps \<Longrightarrow>
      \<exists>s'. dealloc p s = Ret ((), s') \<and> inv s' (p # ps)
        \<and> (\<forall>x. \<not> in_range p 4096 x \<longrightarrow> contents s' x = contents s x)"
    and inv_page: "inv s ps \<Longrightarrow> p \<in> set ps \<Longrightarrow> usable s p \<and> p \<noteq> 0"
    and inv_distinct: "inv s ps \<Longrightarrow> distinct ps"
begin

lemma alloc_dealloc:
  assumes "inv s (p # ps)"
  shows "\<exists>s'. bind alloc dealloc s = Ret ((), s') \<and> inv s' (p # ps)
    \<and> (\<forall>x. \<not> in_range p 4096 x \<longrightarrow> contents s' x = contents s x)"
proof -
  from alloc_cons [OF assms] obtain s1 where s1: "alloc s = Ret (p, s1)" "inv s1 ps" "usable s1 p"
    "\<forall>x. \<not> in_range p 4096 x \<longrightarrow> contents s1 x = contents s x" by blast
  have "p \<notin> set ps" using inv_distinct [OF assms] by simp
  from dealloc [OF s1(2,3) this] s1(1,4) show ?thesis by (auto simp: bind_apply)
qed

lemma dealloc_alloc:
  assumes "inv s ps" "usable s p" "p \<notin> set ps"
  shows "\<exists>s'. seq (dealloc p) alloc s = Ret (p, s') \<and> inv s' ps"
  using dealloc [OF assms] alloc_cons by (fastforce simp: seq_apply)

lemma repeat_alloc:
  assumes "inv s ps" "n \<le> length ps"
  shows "\<exists>s'. repeatM n alloc s = Ret (take n ps, s') \<and> inv s' (drop n ps)"
  using assms
proof (induction n arbitrary: s ps)
  case 0 then show ?case by (simp add: return_apply)
next
  case (Suc n)
  then obtain p qs where ps: "ps = p # qs" by (cases ps) auto
  with alloc_cons Suc.prems(1) obtain s1 where s1: "alloc s = Ret (p, s1)" "inv s1 qs" by blast
  from Suc.IH [OF s1(2)] Suc.prems(2) s1(1) ps show ?case by (auto simp: kM_simps)
qed

lemma repeat_alloc_all:
  assumes "inv s ps"
  shows "\<exists>s'. repeatM (Suc (length ps)) alloc s = Ret (ps @ [0], s') \<and> inv s' []"
  using assms
proof (induction ps arbitrary: s)
  case Nil then show ?case using alloc_nil [of s] by (auto simp: kM_simps)
next
  case (Cons p ps)
  from alloc_cons [OF Cons.prems] obtain s1 where s1: "alloc s = Ret (p, s1)" "inv s1 ps" by blast
  from Cons.IH [OF s1(2)] obtain s2 where "repeatM (Suc (length ps)) alloc s1 = Ret (ps @ [0], s2)"
    "inv s2 []" by blast
  with s1(1) show ?case by (simp add: bind_apply return_apply)
qed

end

definition kmem_pages :: "'z kmem_scheme \<Rightarrow> u64 list \<Rightarrow> bool" where
  "kmem_pages s ps \<longleftrightarrow> kmem_ready s \<and> kmem_inv s ps"

lemma kmem_pages_cons:
  assumes "kmem_pages s (p # ps)"
  shows "\<exists>s'. kalloc s = Ret (p, s') \<and> kmem_pages s' ps \<and> page_ok s' p
    \<and> (\<forall>x. \<not> in_range p 4096 x \<longrightarrow> mem s' x = mem s x)"
proof -
  have r: "kmem_ready s" "kmem_inv s (p # ps)" "page_ok s p"
    using assms by (simp_all add: kmem_pages_def kmem_inv_def)
  obtain m where
    "kalloc s = Ret (p, settle (s\<lparr>freelist := load64 (mem s) p, mem := m\<rparr>))"
    "kmem_inv (s\<lparr>freelist := load64 (mem s) p, mem := m\<rparr>) ps"
    "\<And>x. m x = (if in_range p 4096 x then 5 else mem s x)"
    by (rule kalloc_cons [OF r(1,2)]) (rule that)
  with r(1,3) show ?thesis by (simp add: kmem_pages_def page_ok_def)
qed

lemma kmem_pages_free:
  assumes "kmem_pages s ps" "page_ok s p" "p \<notin> set ps"
  shows "\<exists>s'. kfree p s = Ret ((), s') \<and> kmem_pages s' (p # ps)
    \<and> (\<forall>x. \<not> in_range p 4096 x \<longrightarrow> mem s' x = mem s x)"
proof -
  have r: "kmem_ready s" "kmem_inv s ps" using assms(1) by (simp_all add: kmem_pages_def)
  obtain m where
    "kfree p s = Ret ((), settle (s\<lparr>freelist := p, mem := m\<rparr>))"
    "kmem_inv (s\<lparr>freelist := p, mem := m\<rparr>) (p # ps)"
    "\<And>x. \<not> in_range p 4096 x \<Longrightarrow> m x = mem s x"
    by (rule kfree_ok [OF r assms(2,3)]) (rule that)
  with r(1) show ?thesis by (simp add: kmem_pages_def)
qed

lemma kmem_pages_facts:
  "kmem_pages s [] \<Longrightarrow> \<exists>s'. kalloc s = Ret (0, s') \<and> kmem_pages s' [] \<and> mem s' = mem s"
  "kmem_pages s ps \<Longrightarrow> p \<in> set ps \<Longrightarrow> page_ok s p \<and> p \<noteq> 0"
  "kmem_pages s ps \<Longrightarrow> distinct ps"
  using kmem_inv_page [of s ps p] by (simp_all add: kmem_pages_def kalloc_nil kmem_inv_def)

interpretation km: page_allocator kalloc kfree kmem_pages page_ok mem
  by (rule page_allocator.intro [OF kmem_pages_facts(1) kmem_pages_cons kmem_pages_free
      kmem_pages_facts(2,3)])

section \<open>Properties\<close>

text \<open>A state to evaluate the allocator in: three whole pages below \<^verbatim>\<open>PHYSTOP\<close>.\<close>

definition small_kmem :: kmem where
  "small_kmem = harts.extend quiet_harts
     (kmem.fields (\<lambda>_. 0) 0 (PHYSTOP - 3 * PGSIZE - 100))"

lemma small_kmem_sel [simp]:
  "freelist small_kmem = 0" "kend small_kmem = 0x87FFCF9C" "hart_ok small_kmem"
  by (simp_all add: small_kmem_def harts.defs kmem.defs quiet_harts_def PHYSTOP_def KERNBASE_def
      PGSIZE_def hart_ok_def hart_defs)

text \<open>C9. \<^verbatim>\<open>kinit\<close> returns, and then the free list holds every aligned page
  between \<^verbatim>\<open>end\<close> and \<^verbatim>\<open>PHYSTOP\<close>, each once, and nothing else.\<close>

theorem kinit_frees_all_pages:
  assumes "hart_ok s" and "freelist s = 0" and "0 < kend s" and "kend s \<le> PHYSTOP"
  shows "\<exists>s' ps. kinit s = Ret ((), s') \<and> kmem_ready s' \<and> kmem_inv s' ps
    \<and> set ps = {a. page_ok s' a} \<and> kend s' = kend s"
proof -
  let ?s = "initlock KMem ''kmem'' s"
  have "kmem_ready ?s" "kmem_inv ?s []" "kend ?s \<le> PHYSTOP"
    using assms by (simp_all add: kmem_ready_def kmem_inv_nil)
  from freerange_ok [OF this] show ?thesis
    unfolding kinit_def by (simp add: kM_simps)
qed

theorem kinit_frees_all_pages_witness:
  "\<exists>s' ps. kinit small_kmem = Ret ((), s') \<and> kmem_inv s' ps
    \<and> PHYSTOP - PGSIZE \<in> set ps \<and> PHYSTOP - 4 * PGSIZE \<notin> set ps"
proof -
  have "kend small_kmem \<le> PHYSTOP" "0 < kend small_kmem"
    by (simp_all add: PHYSTOP_def KERNBASE_def)
  from kinit_frees_all_pages [OF small_kmem_sel(3,1) this(2,1)] obtain s' ps
    where "kinit small_kmem = Ret ((), s')" "kmem_inv s' ps" "set ps = {a. page_ok s' a}"
      "kend s' = 0x87FFCF9C" by auto
  moreover from this(4) have "page_ok s' (PHYSTOP - PGSIZE)" "\<not> page_ok s' (PHYSTOP - 4 * PGSIZE)"
    by (simp_all add: page_ok_def PHYSTOP_def KERNBASE_def PGSIZE_def)
  ultimately show ?thesis by blast
qed

text \<open>C8. Refinement of the free list to a stack of pages: \<^verbatim>\<open>kalloc\<close> pops the
  first free page and returns it, \<^verbatim>\<open>kfree\<close> of a page that is not free pushes it; both
  return, keep the invariant and change memory only inside that page; an empty allocator returns the
  null pointer.\<close>

theorem kalloc_kfree_refine_stack:
  assumes "kmem_ready s" and "kmem_inv s ps"
  shows "(case ps of [] \<Rightarrow> kalloc s = Ret (0, settle s)
      | p # qs \<Rightarrow> \<exists>s'. kalloc s = Ret (p, s') \<and> kmem_ready s' \<and> kmem_inv s' qs
          \<and> (\<forall>x. \<not> in_range p 4096 x \<longrightarrow> mem s' x = mem s x))
    \<and> (\<forall>q. page_ok s q \<and> q \<notin> set ps \<longrightarrow>
      (\<exists>s'. kfree q s = Ret ((), s') \<and> kmem_ready s' \<and> kmem_inv s' (q # ps)
        \<and> (\<forall>x. \<not> in_range q 4096 x \<longrightarrow> mem s' x = mem s x)))"
proof
  show "case ps of [] \<Rightarrow> kalloc s = Ret (0, settle s)
      | p # qs \<Rightarrow> \<exists>s'. kalloc s = Ret (p, s') \<and> kmem_ready s' \<and> kmem_inv s' qs
          \<and> (\<forall>x. \<not> in_range p 4096 x \<longrightarrow> mem s' x = mem s x)"
  proof (cases ps)
    case (Cons p qs)
    with assms show ?thesis using km.alloc_cons [of s p qs] by (auto simp: kmem_pages_def)
  qed (use assms in \<open>simp add: kalloc_nil\<close>)
  show "\<forall>q. page_ok s q \<and> q \<notin> set ps \<longrightarrow>
      (\<exists>s'. kfree q s = Ret ((), s') \<and> kmem_ready s' \<and> kmem_inv s' (q # ps)
        \<and> (\<forall>x. \<not> in_range q 4096 x \<longrightarrow> mem s' x = mem s x))"
    using assms km.dealloc [of s ps] by (auto simp: kmem_pages_def)
qed

definition one_page :: kmem where
  "one_page = small_kmem\<lparr>freelist := 0x87FFF000, kend := 0x87FFE000\<rparr>"

lemma load64_zero: "load64 (\<lambda>_. 0) a = 0"
  by (simp add: load64_def map_replicate_const numeral_eq_Suc)

lemma one_page_ok: "kmem_ready one_page" "kmem_inv one_page [0x87FFF000]" "page_ok one_page 0x87FFE000"
  by (simp_all add: one_page_def small_kmem_def kmem_ready_def kmem_inv_def page_ok_def harts.defs
      kmem.defs hart_ok_def lock_free_def hart_defs quiet_harts_def PGSIZE_def PHYSTOP_def
      KERNBASE_def load64_zero)

theorem kalloc_kfree_refine_stack_witness:
  "(\<exists>s'. kalloc one_page = Ret (0x87FFF000, s') \<and> kmem_inv s' [])
    \<and> (\<exists>s'. kfree 0x87FFE000 one_page = Ret ((), s') \<and> kmem_inv s' [0x87FFE000, 0x87FFF000])"
  using kalloc_kfree_refine_stack [OF one_page_ok(1,2)] one_page_ok(3) by auto

text \<open>Starting from \<open>n\<close> free pages, \<open>n\<close> calls of \<^verbatim>\<open>kalloc\<close> hand out
  those \<open>n\<close> pages, all distinct and usable, and the next call returns the null pointer.\<close>

theorem kalloc_exhausts:
  assumes "kmem_ready s" and "kmem_inv s ps"
  shows "(\<exists>s'. repeatM (Suc (length ps)) kalloc s = Ret (ps @ [0], s') \<and> kmem_inv s' [])
    \<and> distinct (ps @ [0]) \<and> set ps \<subseteq> {a. page_ok s a}"
proof -
  have "distinct (ps @ [0])" "set ps \<subseteq> {a. page_ok s a}"
    using assms(2) kmem_inv_page [of s ps 0] by (auto simp: kmem_inv_def)
  then show ?thesis using assms km.repeat_alloc_all [of s ps] by (auto simp: kmem_pages_def)
qed

theorem kalloc_exhausts_witness:
  "\<exists>s'. repeatM 2 kalloc one_page = Ret ([0x87FFF000, 0], s') \<and> kmem_inv s' []"
  using kalloc_exhausts [OF one_page_ok(1,2)] by (simp add: numeral_2_eq_2)

text \<open>\<^verbatim>\<open>kfree\<close> refuses every address that is not page aligned or not between
  \<^verbatim>\<open>end\<close> and \<^verbatim>\<open>PHYSTOP\<close>: it panics before it writes anything.\<close>

theorem kfree_rejects:
  assumes "\<not> page_ok s p"
  shows "kfree p s = Panic ''kfree''"
proof -
  have "p mod PGSIZE \<noteq> 0 \<or> p < kend s \<or> p \<ge> PHYSTOP"
    using assms unfolding page_ok_def by (meson not_le)
  then show ?thesis unfolding kfree_def by (simp only: kM_simps outcome.case fst_conv snd_conv if_P)
qed

theorem kfree_rejects_witness: "kfree 0x87FFF008 one_page = Panic ''kfree''"
  by (rule kfree_rejects) (simp add: page_ok_def PGSIZE_def)

end
