(* ===== verification/Vm.thy ===== *)
theory Vm
  imports Kalloc
begin

text \<open>
  Page tables and user memory: \<^verbatim>\<open>kernel/vm.c\<close>, with the page-table macros of
  \<^verbatim>\<open>kernel/riscv.h\<close> and \<^verbatim>\<open>kernel/memlayout.h\<close>. A page table is the
  address of a page of 512 entries of eight bytes; \<^verbatim>\<open>pte_t *\<close> is the address of an
  entry. The addresses \<^verbatim>\<open>etext\<close> and \<^verbatim>\<open>trampoline\<close>, which the linker
  defines, are components of the state. Kernel buffers that are copied to or from user memory are
  lists of bytes.
\<close>

section \<open>Page-table entries and addresses\<close>

definition PTE_V :: u64 where "PTE_V = 1"
definition PTE_R :: u64 where "PTE_R = 2"
definition PTE_W :: u64 where "PTE_W = 4"
definition PTE_X :: u64 where "PTE_X = 8"
definition PTE_U :: u64 where "PTE_U = 16"

definition PA2PTE :: "u64 \<Rightarrow> u64" where
  "PA2PTE pa = push_bit 10 (drop_bit 12 pa)"

definition PTE2PA :: "u64 \<Rightarrow> u64" where
  "PTE2PA pte = push_bit 12 (drop_bit 10 pte)"

definition PTE_FLAGS :: "u64 \<Rightarrow> u64" where
  "PTE_FLAGS pte = pte AND 0x3FF"

definition PXSHIFT :: "nat \<Rightarrow> nat" where
  "PXSHIFT level = 12 + 9 * level"

definition PX :: "nat \<Rightarrow> u64 \<Rightarrow> u64" where
  "PX level va = drop_bit (PXSHIFT level) va AND 0x1FF"

definition MAXVA :: u64 where "MAXVA = push_bit 38 1"
definition TRAMPOLINE :: u64 where "TRAMPOLINE = MAXVA - PGSIZE"
definition TRAPFRAME :: u64 where "TRAPFRAME = TRAMPOLINE - PGSIZE"

definition KSTACK :: "nat \<Rightarrow> u64" where
  "KSTACK p = TRAMPOLINE - of_nat (p + 1) * 2 * PGSIZE"

abbreviation UART0 :: u64 where "UART0 \<equiv> 0x10000000"
abbreviation VIRTIO0 :: u64 where "VIRTIO0 \<equiv> 0x10001000"
abbreviation PLIC :: u64 where "PLIC \<equiv> 0x0c000000"

definition MAKE_SATP :: "u64 \<Rightarrow> u64" where
  "MAKE_SATP pagetable = push_bit 60 8 OR drop_bit 12 pagetable"

definition NPROC :: nat where "NPROC = 64"

record vmstate = kmem +
  kernel_pagetable :: u64
  satp :: "nat \<Rightarrow> u64"
  etext :: u64
  trampoline :: u64

section \<open>Walking and mapping\<close>

definition pt_entry :: "u64 \<Rightarrow> nat \<Rightarrow> u64 \<Rightarrow> u64" where
  "pt_entry pagetable level va = pagetable + 8 * PX level va"

definition load_pte :: "u64 \<Rightarrow> ('z vmstate_scheme, u64) kM" where
  "load_pte pte = gets (\<lambda>s. load64 (mem s) pte)"

definition store_pte :: "u64 \<Rightarrow> u64 \<Rightarrow> ('z vmstate_scheme, unit) kM" where
  "store_pte pte v = modify (\<lambda>s. s\<lparr>mem := store64 pte v (mem s)\<rparr>)"

primrec walk_levels :: "nat \<Rightarrow> u64 \<Rightarrow> u64 \<Rightarrow> bool \<Rightarrow> ('z vmstate_scheme, u64) kM" where
  "walk_levels 0 pagetable va alloc = return (pt_entry pagetable 0 va)"
| "walk_levels (Suc l) pagetable va alloc =
    (let pte = pt_entry pagetable (Suc l) va in
     bind (load_pte pte) (\<lambda>e.
     if e AND PTE_V \<noteq> 0 then walk_levels l (PTE2PA e) va alloc
     else if \<not> alloc then return 0
     else bind kalloc (\<lambda>pg.
       if pg = 0 then return 0
       else seq (modify (\<lambda>s. s\<lparr>mem := memset pg 0 4096 (mem s)\<rparr>))
         (seq (store_pte pte (PA2PTE pg OR PTE_V)) (walk_levels l pg va alloc)))))"

definition walk :: "u64 \<Rightarrow> u64 \<Rightarrow> bool \<Rightarrow> ('z vmstate_scheme, u64) kM" where
  "walk pagetable va alloc =
    (if va \<ge> MAXVA then panic ''walk'' else walk_levels 2 pagetable va alloc)"

definition walkaddr :: "u64 \<Rightarrow> u64 \<Rightarrow> ('z vmstate_scheme, u64) kM" where
  "walkaddr pagetable va =
    (if va \<ge> MAXVA then return 0 else
     bind (walk pagetable va False) (\<lambda>pte.
     if pte = 0 then return 0 else
     bind (load_pte pte) (\<lambda>e.
     if e AND PTE_V = 0 then return 0 else
     if e AND PTE_U = 0 then return 0 else
     return (PTE2PA e))))"

text \<open>The loop of \<open>mappages\<close>: \<open>a\<close> reaches \<open>lastva\<close> after
  \<open>(lastva - a) div PGSIZE\<close> steps, wrap-around included.\<close>

primrec mappages_loop :: "nat \<Rightarrow> u64 \<Rightarrow> u64 \<Rightarrow> u64 \<Rightarrow> u64 \<Rightarrow> u64 \<Rightarrow> ('z vmstate_scheme, int) kM"
  where
  "mappages_loop 0 pagetable a lastva pa perm = hang"
| "mappages_loop (Suc n) pagetable a lastva pa perm =
    bind (walk pagetable a True) (\<lambda>pte.
    if pte = 0 then return (-1) else
    bind (load_pte pte) (\<lambda>e.
    if e AND PTE_V \<noteq> 0 then panic ''mappages: remap'' else
    seq (store_pte pte (PA2PTE pa OR perm OR PTE_V))
    (if a = lastva then return 0
     else mappages_loop n pagetable (a + PGSIZE) lastva (pa + PGSIZE) perm)))"

definition mappages :: "u64 \<Rightarrow> u64 \<Rightarrow> u64 \<Rightarrow> u64 \<Rightarrow> u64 \<Rightarrow> ('z vmstate_scheme, int) kM" where
  "mappages pagetable va sz pa perm =
    (if sz = 0 then panic ''mappages: size'' else
     let a = PGROUNDDOWN va; lastva = PGROUNDDOWN (va + sz - 1) in
     mappages_loop (Suc (unat (lastva - a) div 4096)) pagetable a lastva pa perm)"

definition kvmmap :: "u64 \<Rightarrow> u64 \<Rightarrow> u64 \<Rightarrow> u64 \<Rightarrow> u64 \<Rightarrow> ('z vmstate_scheme, unit) kM" where
  "kvmmap kpgtbl va pa sz perm =
    bind (mappages kpgtbl va sz pa perm) (\<lambda>r. whenM (r \<noteq> 0) (panic ''kvmmap''))"

definition proc_mapstacks :: "u64 \<Rightarrow> ('z vmstate_scheme, unit) kM" where
  "proc_mapstacks kpgtbl =
    for_each [0..<NPROC] (\<lambda>p.
      bind kalloc (\<lambda>pa.
      if pa = 0 then panic ''kalloc''
      else kvmmap kpgtbl (KSTACK p) pa PGSIZE (PTE_R OR PTE_W)))"

definition kvmmake :: "('z vmstate_scheme, u64) kM" where
  "kvmmake =
    bind kalloc (\<lambda>kpgtbl.
    seq (modify (\<lambda>s. s\<lparr>mem := memset kpgtbl 0 4096 (mem s)\<rparr>))
    (seq (kvmmap kpgtbl UART0 UART0 PGSIZE (PTE_R OR PTE_W))
    (seq (kvmmap kpgtbl VIRTIO0 VIRTIO0 PGSIZE (PTE_R OR PTE_W))
    (seq (kvmmap kpgtbl PLIC PLIC 0x400000 (PTE_R OR PTE_W))
    (bind (gets etext) (\<lambda>e.
    seq (kvmmap kpgtbl KERNBASE KERNBASE (e - KERNBASE) (PTE_R OR PTE_X))
    (seq (kvmmap kpgtbl e e (PHYSTOP - e) (PTE_R OR PTE_W))
    (bind (gets trampoline) (\<lambda>t.
    seq (kvmmap kpgtbl TRAMPOLINE t PGSIZE (PTE_R OR PTE_X))
    (seq (proc_mapstacks kpgtbl)
    (return kpgtbl)))))))))))"

definition kvminit :: "('z vmstate_scheme, unit) kM" where
  "kvminit = bind kvmmake (\<lambda>pt. modify (\<lambda>s. s\<lparr>kernel_pagetable := pt\<rparr>))"

definition kvminithart :: "('z vmstate_scheme, unit) kM" where
  "kvminithart =
    modify (\<lambda>s. s\<lparr>satp := (satp s)(tp s := MAKE_SATP (kernel_pagetable s))\<rparr>)"

section \<open>User page tables\<close>

primrec uvmunmap_loop :: "nat \<Rightarrow> u64 \<Rightarrow> u64 \<Rightarrow> u64 \<Rightarrow> bool \<Rightarrow> ('z vmstate_scheme, unit) kM" where
  "uvmunmap_loop 0 pagetable a end_va do_free = (if a < end_va then hang else return ())"
| "uvmunmap_loop (Suc n) pagetable a end_va do_free =
    (if a < end_va then
      bind (walk pagetable a False) (\<lambda>pte.
      if pte = 0 then panic ''uvmunmap: walk'' else
      bind (load_pte pte) (\<lambda>e.
      if e AND PTE_V = 0 then panic ''uvmunmap: not mapped'' else
      if PTE_FLAGS e = PTE_V then panic ''uvmunmap: not a leaf'' else
      seq (whenM do_free (kfree (PTE2PA e)))
      (seq (store_pte pte 0)
      (uvmunmap_loop n pagetable (a + PGSIZE) end_va do_free))))
     else return ())"

definition uvmunmap :: "u64 \<Rightarrow> u64 \<Rightarrow> u64 \<Rightarrow> bool \<Rightarrow> ('z vmstate_scheme, unit) kM" where
  "uvmunmap pagetable va npages do_free =
    (if va mod PGSIZE \<noteq> 0 then panic ''uvmunmap: not aligned''
     else uvmunmap_loop (unat npages) pagetable va (va + npages * PGSIZE) do_free)"

definition uvmcreate :: "('z vmstate_scheme, u64) kM" where
  "uvmcreate =
    bind kalloc (\<lambda>pagetable.
    if pagetable = 0 then return 0
    else seq (modify (\<lambda>s. s\<lparr>mem := memset pagetable 0 4096 (mem s)\<rparr>)) (return pagetable))"

definition write_bytes :: "u64 \<Rightarrow> u8 list \<Rightarrow> mem \<Rightarrow> mem" where
  "write_bytes a bs m = (\<lambda>x. if unat (x - a) < length bs then bs ! unat (x - a) else m x)"

definition read_bytes :: "mem \<Rightarrow> u64 \<Rightarrow> nat \<Rightarrow> u8 list" where
  "read_bytes m a n = map (\<lambda>i. m (a + of_nat i)) [0..<n]"

definition uvmfirst :: "u64 \<Rightarrow> u8 list \<Rightarrow> ('z vmstate_scheme, unit) kM" where
  "uvmfirst pagetable src =
    (if length src \<ge> 4096 then panic ''uvmfirst: more than a page'' else
     bind kalloc (\<lambda>pg.
     seq (modify (\<lambda>s. s\<lparr>mem := memset pg 0 4096 (mem s)\<rparr>))
     (bind (mappages pagetable 0 PGSIZE pg (PTE_W OR PTE_R OR PTE_X OR PTE_U)) (\<lambda>_.
     modify (\<lambda>s. s\<lparr>mem := write_bytes pg src (mem s)\<rparr>)))))"

definition uvmdealloc :: "u64 \<Rightarrow> u64 \<Rightarrow> u64 \<Rightarrow> ('z vmstate_scheme, u64) kM" where
  "uvmdealloc pagetable oldsz newsz =
    (if newsz \<ge> oldsz then return oldsz else
     seq (whenM (PGROUNDUP newsz < PGROUNDUP oldsz)
       (uvmunmap pagetable (PGROUNDUP newsz)
         (scast (ucast ((PGROUNDUP oldsz - PGROUNDUP newsz) div PGSIZE) :: u32)) True))
     (return newsz))"

primrec uvmalloc_loop :: "nat \<Rightarrow> u64 \<Rightarrow> u64 \<Rightarrow> u64 \<Rightarrow> u64 \<Rightarrow> u64 \<Rightarrow> ('z vmstate_scheme, u64) kM"
  where
  "uvmalloc_loop 0 pagetable a oldsz newsz xperm = (if a < newsz then hang else return newsz)"
| "uvmalloc_loop (Suc n) pagetable a oldsz newsz xperm =
    (if a < newsz then
      bind kalloc (\<lambda>pg.
      if pg = 0 then seq (uvmdealloc pagetable a oldsz) (return 0) else
      seq (modify (\<lambda>s. s\<lparr>mem := memset pg 0 4096 (mem s)\<rparr>))
      (bind (mappages pagetable a PGSIZE pg (PTE_R OR PTE_U OR xperm)) (\<lambda>r.
      if r \<noteq> 0 then seq (kfree pg) (seq (uvmdealloc pagetable a oldsz) (return 0))
      else uvmalloc_loop n pagetable (a + PGSIZE) oldsz newsz xperm)))
     else return newsz)"

definition uvmalloc :: "u64 \<Rightarrow> u64 \<Rightarrow> u64 \<Rightarrow> u64 \<Rightarrow> ('z vmstate_scheme, u64) kM" where
  "uvmalloc pagetable oldsz newsz xperm =
    (if newsz < oldsz then return oldsz else
     let oldsz' = PGROUNDUP oldsz in
     uvmalloc_loop (Suc (unat (newsz - oldsz') div 4096)) pagetable oldsz' oldsz' newsz xperm)"

text \<open>\<open>freewalk\<close> recurses through the levels of the table; a table of Sv39 has three.\<close>

primrec freewalk :: "nat \<Rightarrow> u64 \<Rightarrow> ('z vmstate_scheme, unit) kM" where
  "freewalk 0 pagetable = hang"
| "freewalk (Suc d) pagetable =
    seq (for_each [0..<512] (\<lambda>i.
      let slot = pagetable + 8 * of_nat i in
      bind (load_pte slot) (\<lambda>pte.
      if pte AND PTE_V \<noteq> 0 \<and> pte AND (PTE_R OR PTE_W OR PTE_X) = 0 then
        seq (freewalk d (PTE2PA pte)) (store_pte slot 0)
      else whenM (pte AND PTE_V \<noteq> 0) (panic ''freewalk: leaf''))))
    (kfree pagetable)"

definition uvmfree :: "u64 \<Rightarrow> u64 \<Rightarrow> ('z vmstate_scheme, unit) kM" where
  "uvmfree pagetable sz =
    seq (whenM (sz > 0) (uvmunmap pagetable 0 (PGROUNDUP sz div PGSIZE) True))
    (freewalk 3 pagetable)"

primrec uvmcopy_loop :: "nat \<Rightarrow> u64 \<Rightarrow> u64 \<Rightarrow> u64 \<Rightarrow> u64 \<Rightarrow> ('z vmstate_scheme, int) kM" where
  "uvmcopy_loop 0 old new i sz = (if i < sz then hang else return 0)"
| "uvmcopy_loop (Suc n) old new i sz =
    (if i < sz then
      bind (walk old i False) (\<lambda>pte.
      if pte = 0 then panic ''uvmcopy: pte should exist'' else
      bind (load_pte pte) (\<lambda>e.
      if e AND PTE_V = 0 then panic ''uvmcopy: page not present'' else
      bind kalloc (\<lambda>pg.
      if pg = 0 then seq (uvmunmap new 0 (i div PGSIZE) True) (return (-1)) else
      seq (modify (\<lambda>s. s\<lparr>mem := memmove pg (PTE2PA e) 4096 (mem s)\<rparr>))
      (bind (mappages new i PGSIZE pg (PTE_FLAGS e)) (\<lambda>r.
      if r \<noteq> 0 then seq (kfree pg) (seq (uvmunmap new 0 (i div PGSIZE) True) (return (-1)))
      else uvmcopy_loop n old new (i + PGSIZE) sz)))))
     else return 0)"

definition uvmcopy :: "u64 \<Rightarrow> u64 \<Rightarrow> u64 \<Rightarrow> ('z vmstate_scheme, int) kM" where
  "uvmcopy old new sz = uvmcopy_loop (Suc (unat sz div 4096)) old new 0 sz"

definition uvmclear :: "u64 \<Rightarrow> u64 \<Rightarrow> ('z vmstate_scheme, unit) kM" where
  "uvmclear pagetable va =
    bind (walk pagetable va False) (\<lambda>pte.
    if pte = 0 then panic ''uvmclear''
    else bind (load_pte pte) (\<lambda>e. store_pte pte (e AND NOT PTE_U)))"

section \<open>Copying to and from user memory\<close>

text \<open>Each iteration of the copy loops uses up at least one byte of \<open>len\<close> or of
  \<open>maxlen\<close>, so the length is enough fuel. \<open>copyin\<close> returns its result code
  and the bytes it has written at \<^verbatim>\<open>dst\<close>, also those of the pages before a failure;
  \<open>copyinstr\<close> returns the bytes of the string, or \<open>None\<close> for \<open>-1\<close>.\<close>

primrec copyout_loop :: "nat \<Rightarrow> u64 \<Rightarrow> u64 \<Rightarrow> u8 list \<Rightarrow> ('z vmstate_scheme, int) kM" where
  "copyout_loop 0 pagetable dstva src = (if src \<noteq> [] then hang else return 0)"
| "copyout_loop (Suc k) pagetable dstva src =
    (if src = [] then return 0 else
     let va0 = PGROUNDDOWN dstva in
     bind (walkaddr pagetable va0) (\<lambda>pa0.
     if pa0 = 0 then return (-1) else
     let n = min (unat (PGSIZE - (dstva - va0))) (length src) in
     seq (modify (\<lambda>s. s\<lparr>mem := write_bytes (pa0 + (dstva - va0)) (take n src) (mem s)\<rparr>))
     (copyout_loop k pagetable (va0 + PGSIZE) (drop n src))))"

definition copyout :: "u64 \<Rightarrow> u64 \<Rightarrow> u8 list \<Rightarrow> ('z vmstate_scheme, int) kM" where
  "copyout pagetable dstva src = copyout_loop (length src) pagetable dstva src"

primrec copyin_loop :: "nat \<Rightarrow> u64 \<Rightarrow> u64 \<Rightarrow> nat \<Rightarrow> ('z vmstate_scheme, int \<times> u8 list) kM" where
  "copyin_loop 0 pagetable srcva len = (if len > 0 then hang else return (0, []))"
| "copyin_loop (Suc k) pagetable srcva len =
    (if len = 0 then return (0, []) else
     let va0 = PGROUNDDOWN srcva in
     bind (walkaddr pagetable va0) (\<lambda>pa0.
     if pa0 = 0 then return (-1, []) else
     let n = min (unat (PGSIZE - (srcva - va0))) len in
     bind (gets (\<lambda>s. read_bytes (mem s) (pa0 + (srcva - va0)) n)) (\<lambda>bs.
     bind (copyin_loop k pagetable (va0 + PGSIZE) (len - n)) (\<lambda>r.
     return (fst r, bs @ snd r)))))"

definition copyin :: "u64 \<Rightarrow> u64 \<Rightarrow> nat \<Rightarrow> ('z vmstate_scheme, int \<times> u8 list) kM" where
  "copyin pagetable srcva len = copyin_loop len pagetable srcva len"

primrec copyinstr_loop :: "nat \<Rightarrow> u64 \<Rightarrow> u64 \<Rightarrow> nat \<Rightarrow> ('z vmstate_scheme, u8 list option) kM" where
  "copyinstr_loop 0 pagetable srcva maxlen = (if maxlen > 0 then hang else return None)"
| "copyinstr_loop (Suc k) pagetable srcva maxlen =
    (if maxlen = 0 then return None else
     let va0 = PGROUNDDOWN srcva in
     bind (walkaddr pagetable va0) (\<lambda>pa0.
     if pa0 = 0 then return None else
     let n = min (unat (PGSIZE - (srcva - va0))) maxlen in
     bind (gets (\<lambda>s. read_bytes (mem s) (pa0 + (srcva - va0)) n)) (\<lambda>bs.
     if 0 \<in> set bs then return (Some (takeWhile (\<lambda>b. b \<noteq> 0) bs @ [0]))
     else bind (copyinstr_loop k pagetable (va0 + PGSIZE) (maxlen - n)) (\<lambda>r.
       return (map_option (\<lambda>rest. bs @ rest) r)))))"

definition copyinstr :: "u64 \<Rightarrow> u64 \<Rightarrow> nat \<Rightarrow> ('z vmstate_scheme, u8 list option) kM" where
  "copyinstr pagetable srcva maxlen = copyinstr_loop maxlen pagetable srcva maxlen"

end
