(* ===== verification/Rand.thy ===== *)
theory Rand
  imports Prelude "HOL-Library.Signed_Division"
begin

text \<open>
  The MT19937 generator of \<^verbatim>\<open>kernel/rand.c\<close>, which the lottery scheduler draws from. The
  static variables \<^verbatim>\<open>mt\<close> and \<^verbatim>\<open>mti\<close> are a record; the values of
  \<^verbatim>\<open>long\<close> are integers. The results show that the state stays well formed, that
  \<^verbatim>\<open>genrand\<close> never leaves the range of \<^verbatim>\<open>RAND_MAX\<close>, and that
  \<^verbatim>\<open>random\<close> returns a value of the closed interval from 0 to its argument.
\<close>

definition MT_N :: nat where "MT_N = 624"
definition MT_M :: nat where "MT_M = 397"
definition MATRIX_A :: u64 where "MATRIX_A = 0x9908b0df"
definition UPPER_MASK :: u64 where "UPPER_MASK = 0x80000000"
definition LOWER_MASK :: u64 where "LOWER_MASK = 0x7fffffff"
abbreviation TEMPERING_MASK_B :: u64 where "TEMPERING_MASK_B \<equiv> 0x9d2c5680"
abbreviation TEMPERING_MASK_C :: u64 where "TEMPERING_MASK_C \<equiv> 0xefc60000"
definition RAND_MAX :: u64 where "RAND_MAX = 0x7fffffff"

record mtstate =
  mt :: "u64 list"
  mti :: nat

definition mt_init :: mtstate where
  "mt_init = \<lparr>mt = replicate MT_N 0, mti = MT_N + 1\<rparr>"

definition sgenrand :: "u64 \<Rightarrow> mtstate \<Rightarrow> mtstate" where
  "sgenrand seed s =
    (let m0 = (mt s)[0 := seed AND 0xffffffff] in
     \<lparr>mt = fold (\<lambda>i m. m[i := (69069 * m ! (i - 1)) AND 0xffffffff]) [1..<MT_N] m0, mti = MT_N\<rparr>)"

definition mag01 :: "u64 \<Rightarrow> u64" where
  "mag01 x = (if x = 0 then 0 else MATRIX_A)"

text \<open>One word of the next block, from the words \<open>kk\<close>, \<open>k1\<close> (its successor) and
  \<open>k2\<close> (the word \<^verbatim>\<open>M\<close> places on).\<close>

definition mt_twist :: "nat \<Rightarrow> nat \<Rightarrow> nat \<Rightarrow> u64 list \<Rightarrow> u64 list" where
  "mt_twist kk k1 k2 m =
    (let y = (m ! kk AND UPPER_MASK) OR (m ! k1 AND LOWER_MASK) in
     m[kk := m ! k2 XOR drop_bit 1 y XOR mag01 (y AND 1)])"

definition mt_generate :: "u64 list \<Rightarrow> u64 list" where
  "mt_generate m =
    (let m1 = fold (\<lambda>kk. mt_twist kk (kk + 1) (kk + MT_M)) [0..<MT_N - MT_M] m;
         m2 = fold (\<lambda>kk. mt_twist kk (kk + 1) (kk + MT_M - MT_N)) [MT_N - MT_M..<MT_N - 1] m1
     in mt_twist (MT_N - 1) 0 (MT_M - 1) m2)"

definition mt_temper :: "u64 \<Rightarrow> u64" where
  "mt_temper y0 =
    (let y1 = y0 XOR drop_bit 11 y0;
         y2 = y1 XOR (push_bit 7 y1 AND TEMPERING_MASK_B);
         y3 = y2 XOR (push_bit 15 y2 AND TEMPERING_MASK_C)
     in y3 XOR drop_bit 18 y3)"

definition genrand :: "mtstate \<Rightarrow> int \<times> mtstate" where
  "genrand s =
    (let s1 = (if mti s \<ge> MT_N then
                let s0 = (if mti s = MT_N + 1 then sgenrand 4357 s else s)
                in \<lparr>mt = mt_generate (mt s0), mti = 0\<rparr>
              else s);
         y = mt_temper (mt s1 ! mti s1)
     in (sint (y AND RAND_MAX), s1\<lparr>mti := mti s1 + 1\<rparr>))"

text \<open>The remainder of C truncates towards zero. A zero divisor (\<open>maxv = -1\<close>) is undefined
  in C; here it gives the dividend.\<close>

definition random :: "int \<Rightarrow> mtstate \<Rightarrow> int \<times> mtstate" where
  "random maxv s = (let (g, s') = genrand s in (g smod (maxv + 1), s'))"

definition fits32 :: "u64 \<Rightarrow> bool" where
  "fits32 w \<longleftrightarrow> w < 2 ^ 32"

definition mt_ok :: "mtstate \<Rightarrow> bool" where
  "mt_ok s \<longleftrightarrow> length (mt s) = MT_N \<and> mti s \<le> MT_N + 1 \<and> (\<forall>w\<in>set (mt s). fits32 w)"

section \<open>Well-formed states\<close>

lemma fits32_bits: "fits32 w \<longleftrightarrow> (\<forall>n\<ge>32. \<not> bit w n)"
proof
  assume "fits32 w"
  then have "unat w < 2 ^ 32" by (simp add: fits32_def word_less_nat_alt)
  then have "take_bit 32 w = w" by (simp add: word_unat_eq_iff unsigned_take_bit_eq take_bit_nat_eq_self)
  then show "\<forall>n\<ge>32. \<not> bit w n" by (metis bit_take_bit_iff not_less)
next
  assume "\<forall>n\<ge>32. \<not> bit w n"
  then have "take_bit 32 w = w" by (intro bit_word_eqI) (metis bit_take_bit_iff not_less)
  moreover have "unat (take_bit 32 w) < 2 ^ 32"
    unfolding unsigned_take_bit_eq by (rule take_bit_nat_less_exp)
  ultimately show "fits32 w" by (simp add: fits32_def word_less_nat_alt)
qed

lemma and_u32: "fits32 (x AND 0xffffffff)"
proof -
  have m: "(0xffffffff :: u64) = mask 32" by (simp add: mask_eq_exp_minus_1)
  show ?thesis unfolding m fits32_bits by (auto simp: bit_simps)
qed

lemma masks_u32: "fits32 MATRIX_A" "fits32 LOWER_MASK" "fits32 UPPER_MASK"
  by (simp_all add: fits32_def MATRIX_A_def LOWER_MASK_def UPPER_MASK_def)

lemma twist_word_u32:
  assumes "fits32 b"
  shows "fits32 (b XOR drop_bit 1 ((a AND UPPER_MASK) OR (c AND LOWER_MASK)) XOR mag01 d)"
  using assms masks_u32 unfolding fits32_bits by (auto simp: bit_simps mag01_def)

lemma update_u32:
  assumes "\<forall>w\<in>set m. fits32 w" "fits32 v" shows "\<forall>w\<in>set (m[i := v]). fits32 w"
  using assms set_update_subset_insert [of m i v] by blast

lemma mt_twist_ok:
  assumes "k2 < length m" "\<forall>w\<in>set m. fits32 w"
  shows "length (mt_twist kk k1 k2 m) = length m" "\<forall>w\<in>set (mt_twist kk k1 k2 m). fits32 w"
proof -
  show "length (mt_twist kk k1 k2 m) = length m" by (simp add: mt_twist_def Let_def)
  show "\<forall>w\<in>set (mt_twist kk k1 k2 m). fits32 w" unfolding mt_twist_def Let_def
    by (rule update_u32 [OF assms(2) twist_word_u32]) (use assms in simp)
qed

lemma fold_twist_ok:
  assumes "\<forall>kk\<in>set ks. f kk < n" "length m = n" "\<forall>w\<in>set m. fits32 w"
  shows "length (fold (\<lambda>kk. mt_twist kk (g kk) (f kk)) ks m) = n
    \<and> (\<forall>w\<in>set (fold (\<lambda>kk. mt_twist kk (g kk) (f kk)) ks m). fits32 w)"
  using assms
proof (induction ks arbitrary: m)
  case (Cons k ks)
  then have "f k < length m" by simp
  note tw = mt_twist_ok [OF this Cons.prems(3), of k "g k"]
  have "length (fold (\<lambda>kk. mt_twist kk (g kk) (f kk)) ks (mt_twist k (g k) (f k) m)) = n
    \<and> (\<forall>w\<in>set (fold (\<lambda>kk. mt_twist kk (g kk) (f kk)) ks (mt_twist k (g k) (f k) m)). fits32 w)"
    using Cons.prems tw by (intro Cons.IH) simp_all
  then show ?case by simp
qed simp

lemma mt_generate_ok:
  assumes "length m = MT_N" "\<forall>w\<in>set m. fits32 w"
  shows "length (mt_generate m) = MT_N \<and> (\<forall>w\<in>set (mt_generate m). fits32 w)"
proof -
  let ?m1 = "fold (\<lambda>kk. mt_twist kk (kk + 1) (kk + MT_M)) [0..<MT_N - MT_M] m"
  let ?m2 = "fold (\<lambda>kk. mt_twist kk (kk + 1) (kk + MT_M - MT_N)) [MT_N - MT_M..<MT_N - 1] ?m1"
  have b: "\<forall>kk\<in>set [0..<MT_N - MT_M]. kk + MT_M < MT_N"
    "\<forall>kk\<in>set [MT_N - MT_M..<MT_N - 1]. kk + MT_M - MT_N < MT_N"
    unfolding set_upt by (auto simp: MT_N_def MT_M_def)
  have m1: "length ?m1 = MT_N \<and> (\<forall>w\<in>set ?m1. fits32 w)"
    by (rule fold_twist_ok [OF b(1) assms])
  have m2: "length ?m2 = MT_N \<and> (\<forall>w\<in>set ?m2. fits32 w)"
    using m1 by (intro fold_twist_ok [OF b(2)]) simp_all
  have "MT_M - 1 < MT_N" by (simp add: MT_N_def MT_M_def)
  then have lt: "MT_M - 1 < length ?m2" using m2 by (simp only:)
  show ?thesis unfolding mt_generate_def Let_def
    using mt_twist_ok [OF lt conjunct2 [OF m2], of "MT_N - 1" 0] conjunct1 [OF m2] by (simp only: simp_thms)
qed

lemma sgenrand_ok:
  assumes "length (mt s) = MT_N" "\<forall>w\<in>set (mt s). fits32 w"
  shows "mt_ok (sgenrand seed s)"
proof -
  have "length (fold (\<lambda>i m. m[i := (69069 * m ! (i - 1)) AND 0xffffffff]) xs m) = length m
      \<and> (\<forall>w\<in>set (fold (\<lambda>i m. m[i := (69069 * m ! (i - 1)) AND 0xffffffff]) xs m). fits32 w)"
    if "\<forall>w\<in>set m. fits32 w" for xs :: "nat list" and m
    using that
  proof (induction xs arbitrary: m)
    case (Cons x xs)
    from Cons.IH [OF update_u32 [OF Cons.prems and_u32]] show ?case by simp
  qed simp
  moreover have "\<forall>w\<in>set ((mt s)[0 := seed AND 0xffffffff]). fits32 w"
    by (rule update_u32 [OF assms(2) and_u32])
  ultimately show ?thesis using assms(1) by (simp add: mt_ok_def sgenrand_def Let_def)
qed

lemma RAND_MAX_mask: "RAND_MAX = mask 31"
  by (simp add: RAND_MAX_def mask_eq_exp_minus_1)

lemma and_RAND_MAX: "0 \<le> sint (y AND RAND_MAX)" "sint (y AND RAND_MAX) \<le> 0x7fffffff"
proof -
  have "uint (y AND RAND_MAX) = take_bit 31 (uint y)"
    by (simp add: RAND_MAX_mask unsigned_and_eq take_bit_eq_mask [symmetric] unsigned_take_bit_eq)
  moreover have "take_bit 31 (uint y) < 2 ^ 31" by (rule take_bit_int_less_exp)
  ultimately have u: "uint (y AND RAND_MAX) < 2 ^ 31" by simp
  have "- (2 ^ 63) \<le> uint (y AND RAND_MAX)"
    using unsigned_greater_eq [of "y AND RAND_MAX"] by (rule order_trans [rotated]) simp
  then have "signed_take_bit 63 (uint (y AND RAND_MAX)) = uint (y AND RAND_MAX)"
    using u by (intro signed_take_bit_int_eq_self) simp_all
  then have "sint (y AND RAND_MAX) = uint (y AND RAND_MAX)" by (simp add: sint_uint)
  with u show "0 \<le> sint (y AND RAND_MAX)" "sint (y AND RAND_MAX) \<le> 0x7fffffff" by simp_all
qed

lemma genrand_ok:
  assumes "mt_ok s" "genrand s = (g, s')"
  shows "mt_ok s' \<and> 0 \<le> g \<and> g \<le> 0x7fffffff \<and> mti s' \<le> MT_N \<and> 0 < mti s'"
proof -
  define s1 where "s1 = (if mti s \<ge> MT_N then
      let s0 = (if mti s = MT_N + 1 then sgenrand 4357 s else s)
      in \<lparr>mt = mt_generate (mt s0), mti = 0\<rparr> else s)"
  have "length (mt s1) = MT_N \<and> (\<forall>w\<in>set (mt s1). fits32 w) \<and> mti s1 < MT_N"
  proof (cases "mti s \<ge> MT_N")
    case True
    let ?s0 = "if mti s = MT_N + 1 then sgenrand 4357 s else s"
    have "length (mt ?s0) = MT_N" "\<forall>w\<in>set (mt ?s0). fits32 w"
      using assms(1) sgenrand_ok [of s 4357] by (auto simp: mt_ok_def)
    from mt_generate_ok [OF this] True show ?thesis by (simp add: s1_def Let_def MT_N_def)
  next
    case False
    then show ?thesis using assms(1) by (simp add: s1_def mt_ok_def)
  qed
  moreover have "g = sint (mt_temper (mt s1 ! mti s1) AND RAND_MAX)" "s' = s1\<lparr>mti := mti s1 + 1\<rparr>"
    using assms(2) by (simp_all add: genrand_def s1_def Let_def)
  ultimately show ?thesis using and_RAND_MAX by (simp add: mt_ok_def)
qed

lemma random_range:
  assumes "mt_ok s" "0 \<le> maxv"
  shows "case random maxv s of (r, s') \<Rightarrow> 0 \<le> r \<and> r \<le> maxv \<and> mt_ok s' \<and> mti s' \<le> MT_N"
proof -
  obtain g s' where g: "genrand s = (g, s')" by (cases "genrand s")
  from genrand_ok [OF assms(1) this] have "mt_ok s'" "0 \<le> g" "mti s' \<le> MT_N" by simp_all
  moreover from this(2) assms(2) have "g smod (maxv + 1) = g mod (maxv + 1)"
    by (simp add: smod_mod_positive)
  moreover have "0 \<le> g mod (maxv + 1)" "g mod (maxv + 1) \<le> maxv"
    using assms(2) pos_mod_bound [of "maxv + 1" g] by simp_all
  ultimately show ?thesis by (simp add: random_def g)
qed

lemma mt_init_ok: "mt_ok mt_init"
  by (auto simp: mt_ok_def mt_init_def fits32_def)

section \<open>Properties\<close>

text \<open>C40. \<^verbatim>\<open>random(max)\<close> keeps the generator well formed, never indexes the state
  vector out of range, and returns a value of the closed interval from 0 to \<open>max\<close>.\<close>

theorem random_in_range:
  assumes "mt_ok s" and "0 \<le> maxv"
  shows "case random maxv s of (r, s') \<Rightarrow> 0 \<le> r \<and> r \<le> maxv \<and> mt_ok s' \<and> mti s' \<le> MT_N"
  using assms by (rule random_range)

theorem random_in_range_witness:
  "mt_ok mt_init \<and> (case random 2 mt_init of (r, s') \<Rightarrow> 0 \<le> r \<and> r \<le> 2 \<and> mt_ok s')"
proof -
  from random_in_range [OF mt_init_ok, of 2] mt_init_ok show ?thesis by auto
qed

end
