(* ===== verification/Proc.thy ===== *)
theory Proc
  imports Vm Rand
begin

text \<open>
  Processes and scheduling: \<^verbatim>\<open>kernel/proc.h\<close> and \<^verbatim>\<open>kernel/proc.c\<close>, apart
  from the functions that use the file system (\<^verbatim>\<open>userinit\<close>, \<^verbatim>\<open>fork\<close>,
  \<^verbatim>\<open>exit\<close>, \<^verbatim>\<open>forkret\<close>), which are in a later theory.

  A \<^verbatim>\<open>struct proc *\<close> is an index into the table, or \<open>None\<close> for the null pointer.
  The build selects one of five schedulers by a preprocessor symbol; here that is a value of type
  \<open>policy\<close>. What other threads do while a thread has given up the processor is a parameter:
  \<open>run p\<close> is what process \<open>p\<close> does from the moment the scheduler switches to it until it
  switches back, and \<open>sw\<close> is what happens between the moment a process switches to the scheduler
  and the moment it runs again. Values of C type \<^verbatim>\<open>int\<close> are integers.
\<close>

section \<open>Data\<close>

datatype procstate = UNUSED | USED | SLEEPING | RUNNABLE | RUNNING | ZOMBIE

datatype policy = RR | FCFS | LBS | PBS | MLFQ

text \<open>The addresses the kernel uses as sleep channels.\<close>

datatype chan = ChProc nat | ChTicks | ChBuf nat | ChInode nat | ChLog
  | ChPipeRead u64 | ChPipeWrite u64 | ChCons | ChUart | ChDiskDesc | ChDiskBuf nat

record swcontext =
  ctx_ra :: u64
  ctx_sp :: u64
  ctx_s :: "nat \<Rightarrow> u64"

record proc =
  p_state :: procstate
  p_chan :: "chan option"
  p_killed :: int
  p_xstate :: int
  p_pid :: int
  p_parent :: "nat option"
  p_kstack :: u64
  p_sz :: u64
  p_pagetable :: u64
  p_trapframe :: u64
  p_context :: swcontext
  p_ofile :: "nat option list"
  p_cwd :: "nat option"
  p_name :: "u8 list"
  p_rtime :: u32
  p_ctime :: u32
  p_etime :: u32
  p_trace_flag :: int
  p_interval :: int
  p_ticks_left :: int
  p_sig_handler :: u64
  p_sigalarm_tf :: u64
  p_tick_creation_time :: int
  p_tickets :: int
  p_start_time_pbs :: int
  p_number_times :: int
  p_priority_pbs :: int
  p_niceness_var :: int
  p_last_sleep_time :: int
  p_last_run_time :: int
  p_total_run_time :: int
  p_priority :: int
  p_in_queue :: int
  p_curr_rtime :: int
  p_curr_wtime :: int

record priority_queue =
  q_front :: int
  q_back :: int
  q_length :: int
  q_procs :: "nat \<Rightarrow> nat option"

record pstate = vmstate +
  proc :: "nat \<Rightarrow> proc"
  initproc :: "nat option"
  nextpid :: int
  ticks :: u32
  queues :: "nat \<Rightarrow> priority_queue"
  mtst :: mtstate
  forkret_addr :: u64

definition upd_proc :: "nat \<Rightarrow> (proc \<Rightarrow> proc) \<Rightarrow> 'z pstate_scheme \<Rightarrow> 'z pstate_scheme" where
  "upd_proc p f s = s\<lparr>proc := (proc s)(p := f (proc s p))\<rparr>"

definition upd_queue :: "nat \<Rightarrow> (priority_queue \<Rightarrow> priority_queue) \<Rightarrow> 'z pstate_scheme
    \<Rightarrow> 'z pstate_scheme" where
  "upd_queue i f s = s\<lparr>queues := (queues s)(i := f (queues s i))\<rparr>"

section \<open>The process table\<close>

definition procinit :: "('z pstate_scheme, unit) kM" where
  "procinit =
    seq (modify (initlock KPid ''nextpid''))
    (seq (modify (initlock KWait ''wait_lock''))
    (for_each [0..<NPROC] (\<lambda>p.
      seq (modify (initlock (KProc p) ''proc''))
      (seq (modify (upd_proc p (\<lambda>r. r\<lparr>p_state := UNUSED\<rparr>)))
      (modify (upd_proc p (\<lambda>r. r\<lparr>p_kstack := KSTACK p\<rparr>)))))))"

definition myproc :: "('z harts_scheme, nat option) kM" where
  "myproc =
    seq (modify push_off)
    (bind (gets (\<lambda>s. cproc (mycpu s))) (\<lambda>p.
    seq pop_off (return p)))"

definition allocpid :: "('z pstate_scheme, int) kM" where
  "allocpid =
    seq (acquire KPid)
    (bind (gets nextpid) (\<lambda>pid.
    seq (modify (\<lambda>s. s\<lparr>nextpid := nextpid s + 1\<rparr>))
    (seq (release KPid) (return pid))))"

text \<open>Freeing the page table of a process.\<close>

definition proc_freepagetable :: "u64 \<Rightarrow> u64 \<Rightarrow> ('z vmstate_scheme, unit) kM" where
  "proc_freepagetable pagetable sz =
    seq (uvmunmap pagetable TRAMPOLINE 1 False)
    (seq (uvmunmap pagetable TRAPFRAME 1 False)
    (uvmfree pagetable sz))"

definition freeproc :: "nat \<Rightarrow> ('z pstate_scheme, unit) kM" where
  "freeproc p =
    bind (gets (\<lambda>s. p_trapframe (proc s p))) (\<lambda>tf.
    seq (whenM (tf \<noteq> 0) (kfree tf))
    (seq (modify (upd_proc p (\<lambda>r. r\<lparr>p_trapframe := 0\<rparr>)))
    (bind (gets (\<lambda>s. p_pagetable (proc s p))) (\<lambda>pt.
    bind (gets (\<lambda>s. p_sz (proc s p))) (\<lambda>sz.
    seq (whenM (pt \<noteq> 0) (proc_freepagetable pt sz))
    (modify (upd_proc p (\<lambda>r. r\<lparr>p_pagetable := 0, p_sz := 0, p_pid := 0, p_parent := None,
       p_name := (p_name r)[0 := 0], p_chan := None, p_killed := 0, p_xstate := 0,
       p_state := UNUSED, p_etime := 0, p_rtime := 0, p_ctime := 0\<rparr>))))))))"

definition proc_pagetable :: "nat \<Rightarrow> ('z pstate_scheme, u64) kM" where
  "proc_pagetable p =
    bind uvmcreate (\<lambda>pagetable.
    if pagetable = 0 then return 0 else
    bind (gets trampoline) (\<lambda>tramp.
    bind (mappages pagetable TRAMPOLINE PGSIZE tramp (PTE_R OR PTE_X)) (\<lambda>r.
    if r < 0 then seq (uvmfree pagetable 0) (return 0) else
    bind (gets (\<lambda>s. p_trapframe (proc s p))) (\<lambda>tf.
    bind (mappages pagetable TRAPFRAME PGSIZE tf (PTE_R OR PTE_W)) (\<lambda>r.
    if r < 0 then
      seq (uvmunmap pagetable TRAMPOLINE 1 False) (seq (uvmfree pagetable 0) (return 0))
    else return pagetable)))))"

definition allocproc_fields :: "int \<Rightarrow> u32 \<Rightarrow> proc \<Rightarrow> proc" where
  "allocproc_fields pid t r = r\<lparr>p_pid := pid, p_state := USED, p_tick_creation_time := sint t,
     p_tickets := 1, p_priority_pbs := 60, p_niceness_var := 5, p_start_time_pbs := sint t,
     p_number_times := 0, p_last_run_time := 0, p_last_sleep_time := 0, p_priority := 0,
     p_in_queue := 0, p_curr_rtime := 0, p_curr_wtime := 0, p_rtime := 0, p_ctime := t\<rparr>"

definition allocproc_found :: "nat \<Rightarrow> ('z pstate_scheme, nat option) kM" where
  "allocproc_found p =
    bind allocpid (\<lambda>pid.
    seq (modify (\<lambda>s. upd_proc p (allocproc_fields pid (ticks s)) s))
    (bind kalloc (\<lambda>tf.
    seq (modify (upd_proc p (\<lambda>r. r\<lparr>p_trapframe := tf\<rparr>)))
    (if tf = 0 then seq (freeproc p) (seq (release (KProc p)) (return None)) else
    bind (proc_pagetable p) (\<lambda>pt.
    seq (modify (upd_proc p (\<lambda>r. r\<lparr>p_pagetable := pt\<rparr>)))
    (if pt = 0 then seq (freeproc p) (seq (release (KProc p)) (return None)) else
    seq (modify (\<lambda>s. upd_proc p (\<lambda>r. r\<lparr>p_context :=
      \<lparr>ctx_ra = forkret_addr s, ctx_sp = p_kstack r + PGSIZE, ctx_s = (\<lambda>_. 0)\<rparr>\<rparr>) s))
    (return (Some p))))))))"

definition allocproc :: "('z pstate_scheme, nat option) kM" where
  "allocproc =
    bind (for_until [0..<NPROC] (\<lambda>p.
      seq (acquire (KProc p))
      (bind (gets (\<lambda>s. p_state (proc s p))) (\<lambda>st.
      if st = UNUSED then return (Some p)
      else seq (release (KProc p)) (return None))))) (\<lambda>r.
    case r of None \<Rightarrow> return None | Some p \<Rightarrow> allocproc_found p)"

definition growproc :: "int \<Rightarrow> ('z pstate_scheme, int) kM" where
  "growproc n =
    bind myproc (\<lambda>p. with_ptr p (\<lambda>p.
    bind (gets (\<lambda>s. p_sz (proc s p))) (\<lambda>sz.
    bind (gets (\<lambda>s. p_pagetable (proc s p))) (\<lambda>pt.
    if n > 0 then
      bind (uvmalloc pt sz (sz + of_int n) PTE_W) (\<lambda>sz'.
      if sz' = 0 then return (-1)
      else seq (modify (upd_proc p (\<lambda>r. r\<lparr>p_sz := sz'\<rparr>))) (return 0))
    else
      bind (if n < 0 then uvmdealloc pt sz (sz + of_int n) else return sz) (\<lambda>sz'.
      seq (modify (upd_proc p (\<lambda>r. r\<lparr>p_sz := sz'\<rparr>))) (return 0))))))"

section \<open>Switching, sleeping and waking\<close>

definition sched :: "('z pstate_scheme, unit) kM \<Rightarrow> ('z pstate_scheme, unit) kM" where
  "sched sw =
    bind myproc (\<lambda>p. with_ptr p (\<lambda>p.
    bind (gets (holding (KProc p))) (\<lambda>h.
    if \<not> h then panic ''sched p->lock'' else
    bind (gets (\<lambda>s. noff (mycpu s))) (\<lambda>n.
    if n \<noteq> 1 then panic ''sched locks'' else
    bind (gets (\<lambda>s. p_state (proc s p))) (\<lambda>st.
    if st = RUNNING then panic ''sched running'' else
    bind (gets intr_get) (\<lambda>i.
    if i then panic ''sched interruptible'' else
    bind (gets (\<lambda>s. intena (mycpu s))) (\<lambda>ie.
    seq sw
    (modify (set_mycpu (\<lambda>c. c\<lparr>intena := ie\<rparr>))))))))))"

definition yield :: "('z pstate_scheme, unit) kM \<Rightarrow> ('z pstate_scheme, unit) kM" where
  "yield sw =
    bind myproc (\<lambda>p. with_ptr p (\<lambda>p.
    seq (acquire (KProc p))
    (seq (modify (upd_proc p (\<lambda>r. r\<lparr>p_state := RUNNABLE\<rparr>)))
    (seq (sched sw)
    (release (KProc p))))))"

definition sleep :: "('z pstate_scheme, unit) kM \<Rightarrow> chan option \<Rightarrow> lockid \<Rightarrow> ('z pstate_scheme, unit) kM"
  where
  "sleep sw ch lk =
    bind myproc (\<lambda>p. with_ptr p (\<lambda>p.
    seq (acquire (KProc p))
    (seq (release lk)
    (seq (modify (upd_proc p (\<lambda>r. r\<lparr>p_chan := ch\<rparr>)))
    (seq (modify (upd_proc p (\<lambda>r. r\<lparr>p_state := SLEEPING\<rparr>)))
    (seq (sched sw)
    (seq (modify (upd_proc p (\<lambda>r. r\<lparr>p_chan := None\<rparr>)))
    (seq (release (KProc p))
    (acquire lk)))))))))"

definition wakeup :: "chan option \<Rightarrow> ('z pstate_scheme, unit) kM" where
  "wakeup ch =
    for_each [0..<NPROC] (\<lambda>p.
      bind myproc (\<lambda>me.
      whenM (me \<noteq> Some p)
        (seq (acquire (KProc p))
        (seq (modify (\<lambda>s. if p_state (proc s p) = SLEEPING \<and> p_chan (proc s p) = ch
                        then upd_proc p (\<lambda>r. r\<lparr>p_state := RUNNABLE\<rparr>) s else s))
        (release (KProc p))))))"

definition kill :: "int \<Rightarrow> ('z pstate_scheme, int) kM" where
  "kill pid =
    bind (for_until [0..<NPROC] (\<lambda>p.
      seq (acquire (KProc p))
      (bind (gets (\<lambda>s. p_pid (proc s p) = pid)) (\<lambda>hit.
      if hit then
        seq (modify (upd_proc p (\<lambda>r. r\<lparr>p_killed := 1\<rparr>)))
        (seq (modify (\<lambda>s. if p_state (proc s p) = SLEEPING
                        then upd_proc p (\<lambda>r. r\<lparr>p_state := RUNNABLE\<rparr>) s else s))
        (seq (release (KProc p)) (return (Some (0::int)))))
      else seq (release (KProc p)) (return None))))) (\<lambda>r.
    return (case r of None \<Rightarrow> -1 | Some v \<Rightarrow> v))"

definition setkilled :: "nat \<Rightarrow> ('z pstate_scheme, unit) kM" where
  "setkilled p =
    seq (acquire (KProc p))
    (seq (modify (upd_proc p (\<lambda>r. r\<lparr>p_killed := 1\<rparr>)))
    (release (KProc p)))"

definition killed :: "nat \<Rightarrow> ('z pstate_scheme, int) kM" where
  "killed p =
    seq (acquire (KProc p))
    (bind (gets (\<lambda>s. p_killed (proc s p))) (\<lambda>k.
    seq (release (KProc p)) (return k)))"

definition setpriority :: "int \<Rightarrow> int \<Rightarrow> ('z pstate_scheme, int) kM" where
  "setpriority new_priority proc_pid =
    bind (for_until [0..<NPROC] (\<lambda>p.
      seq (acquire (KProc p))
      (bind (gets (\<lambda>s. p_pid (proc s p) = proc_pid)) (\<lambda>hit.
      if hit then
        bind (gets (\<lambda>s. p_priority_pbs (proc s p))) (\<lambda>old_priority.
        seq (modify (upd_proc p (\<lambda>r. r\<lparr>p_priority_pbs := new_priority\<rparr>)))
        (seq (release (KProc p)) (return (Some old_priority))))
      else seq (release (KProc p)) (return None))))) (\<lambda>r.
    return (case r of None \<Rightarrow> -1 | Some old_priority \<Rightarrow> old_priority))"


text \<open>\<open>wait\<close> and \<open>waitx\<close> scan the table for a zombie child and sleep when they find
  none; \<open>n\<close> bounds the number of times they sleep. The scan carries \<^verbatim>\<open>havekids\<close> and
  leaves early with the result. The status word that \<^verbatim>\<open>copyout\<close> writes has four bytes.\<close>

definition int_bytes :: "int \<Rightarrow> u8 list" where
  "int_bytes i = le_bytes 4 (of_int i :: u32)"

definition wait_one :: "nat \<Rightarrow> u64 \<Rightarrow> nat \<Rightarrow> bool \<Rightarrow> ('z pstate_scheme, bool + int) kM" where
  "wait_one p addr pp havekids =
    bind (gets (\<lambda>s. p_parent (proc s pp) = Some p)) (\<lambda>kid.
    if \<not> kid then return (Inl havekids) else
    seq (acquire (KProc pp))
    (bind (gets (\<lambda>s. p_state (proc s pp))) (\<lambda>st.
    if st = ZOMBIE then
      bind (gets (\<lambda>s. p_pid (proc s pp))) (\<lambda>pid.
      bind (gets (\<lambda>s. (p_pagetable (proc s p), p_xstate (proc s pp)))) (\<lambda>(pt, xs).
      bind (if addr \<noteq> 0 then copyout pt addr (int_bytes xs) else return 0) (\<lambda>r.
      if r < 0 then
        seq (release (KProc pp)) (seq (release KWait) (return (Inr (-1))))
      else
        seq (freeproc pp)
        (seq (release (KProc pp))
        (seq (release KWait) (return (Inr pid)))))))
    else seq (release (KProc pp)) (return (Inl True)))))"

definition wait_scan :: "nat \<Rightarrow> u64 \<Rightarrow> ('z pstate_scheme, bool + int) kM" where
  "wait_scan p addr = for_fold [0..<NPROC] (wait_one p addr) False"

primrec wait_loop :: "nat \<Rightarrow> ('z pstate_scheme, unit) kM \<Rightarrow> nat \<Rightarrow> u64 \<Rightarrow> ('z pstate_scheme, int) kM"
  where
  "wait_loop 0 sw p addr = hang"
| "wait_loop (Suc n) sw p addr =
    bind (wait_scan p addr) (\<lambda>r. case r of
      Inr v \<Rightarrow> return v
    | Inl havekids \<Rightarrow>
        bind (if \<not> havekids then return 1 else killed p) (\<lambda>k.
        if k \<noteq> 0 then seq (release KWait) (return (-1))
        else seq (sleep sw (Some (ChProc p)) KWait) (wait_loop n sw p addr)))"

definition wait :: "nat \<Rightarrow> ('z pstate_scheme, unit) kM \<Rightarrow> u64 \<Rightarrow> ('z pstate_scheme, int) kM" where
  "wait n sw addr =
    bind myproc (\<lambda>p. with_ptr p (\<lambda>p.
    seq (acquire KWait) (wait_loop n sw p addr)))"

text \<open>\<open>waitx\<close> also returns what it stored at \<^verbatim>\<open>wtime\<close> and \<^verbatim>\<open>rtime\<close>, or
  \<open>None\<close> when it returns without storing anything there.\<close>

definition waitx_one :: "nat \<Rightarrow> u64 \<Rightarrow> nat \<Rightarrow> bool
    \<Rightarrow> ('z pstate_scheme, bool + int \<times> (u32 \<times> u32) option) kM" where
  "waitx_one p addr np havekids =
    bind (gets (\<lambda>s. p_parent (proc s np) = Some p)) (\<lambda>kid.
    if \<not> kid then return (Inl havekids) else
    seq (acquire (KProc np))
    (bind (gets (\<lambda>s. p_state (proc s np))) (\<lambda>st.
    if st = ZOMBIE then
      bind (gets (\<lambda>s. proc s np)) (\<lambda>r.
      let rtime = p_rtime r; wtime = p_etime r - p_ctime r - p_rtime r in
      bind (gets (\<lambda>s. p_pagetable (proc s p))) (\<lambda>pt.
      bind (if addr \<noteq> 0 then copyout pt addr (int_bytes (p_xstate r)) else return 0) (\<lambda>e.
      if e < 0 then
        seq (release (KProc np)) (seq (release KWait) (return (Inr (-1, Some (wtime, rtime)))))
      else
        seq (freeproc np)
        (seq (release (KProc np))
        (seq (release KWait) (return (Inr (p_pid r, Some (wtime, rtime)))))))))
    else seq (release (KProc np)) (return (Inl True)))))"

definition waitx_scan :: "nat \<Rightarrow> u64 \<Rightarrow> ('z pstate_scheme, bool + int \<times> (u32 \<times> u32) option) kM" where
  "waitx_scan p addr = for_fold [0..<NPROC] (waitx_one p addr) False"

primrec waitx_loop :: "nat \<Rightarrow> ('z pstate_scheme, unit) kM \<Rightarrow> nat \<Rightarrow> u64
    \<Rightarrow> ('z pstate_scheme, int \<times> (u32 \<times> u32) option) kM" where
  "waitx_loop 0 sw p addr = hang"
| "waitx_loop (Suc n) sw p addr =
    bind (waitx_scan p addr) (\<lambda>r. case r of
      Inr v \<Rightarrow> return v
    | Inl havekids \<Rightarrow>
        bind (gets (\<lambda>s. p_killed (proc s p))) (\<lambda>k.
        if \<not> havekids \<or> k \<noteq> 0 then seq (release KWait) (return (-1, None))
        else seq (sleep sw (Some (ChProc p)) KWait) (waitx_loop n sw p addr)))"

definition waitx :: "nat \<Rightarrow> ('z pstate_scheme, unit) kM \<Rightarrow> u64
    \<Rightarrow> ('z pstate_scheme, int \<times> (u32 \<times> u32) option) kM" where
  "waitx n sw addr =
    bind myproc (\<lambda>p. with_ptr p (\<lambda>p.
    seq (acquire KWait) (waitx_loop n sw p addr)))"

definition reparent_one :: "nat \<Rightarrow> nat \<Rightarrow> ('z pstate_scheme, unit) kM" where
  "reparent_one p pp =
    bind (gets (\<lambda>s. p_parent (proc s pp) = Some p)) (\<lambda>kid.
    whenM kid
      (seq (modify (\<lambda>s. upd_proc pp (\<lambda>r. r\<lparr>p_parent := initproc s\<rparr>) s))
      (bind (gets initproc) (\<lambda>ip. wakeup (map_option ChProc ip)))))"

definition reparent :: "nat \<Rightarrow> ('z pstate_scheme, unit) kM" where
  "reparent p = for_each [0..<NPROC] (reparent_one p)"

section \<open>Copying to a user or a kernel address\<close>

definition either_copyout :: "bool \<Rightarrow> u64 \<Rightarrow> u8 list \<Rightarrow> ('z pstate_scheme, int) kM" where
  "either_copyout user_dst dst src =
    bind myproc (\<lambda>p.
    if user_dst then with_ptr p (\<lambda>p.
      bind (gets (\<lambda>s. p_pagetable (proc s p))) (\<lambda>pt. copyout pt dst src))
    else seq (modify (\<lambda>s. s\<lparr>mem := write_bytes dst src (mem s)\<rparr>)) (return 0))"

definition either_copyin :: "bool \<Rightarrow> u64 \<Rightarrow> nat \<Rightarrow> ('z pstate_scheme, int \<times> u8 list) kM" where
  "either_copyin user_src src len =
    bind myproc (\<lambda>p.
    if user_src then with_ptr p (\<lambda>p.
      bind (gets (\<lambda>s. p_pagetable (proc s p))) (\<lambda>pt. copyin pt src len))
    else gets (\<lambda>s. (0, read_bytes (mem s) src len)))"

section \<open>Critical sections and the process table\<close>

lemma pstate_acq [simp]:
  "proc (acq l s) = proc s" "initproc (acq l s) = initproc s" "nextpid (acq l s) = nextpid s"
  "ticks (acq l s) = ticks s" "queues (acq l s) = queues s" "mtst (acq l s) = mtst s"
  "acq l s\<lparr>proc := f\<rparr> = acq l (s\<lparr>proc := f\<rparr>)" "acq l s\<lparr>nextpid := n\<rparr> = acq l (s\<lparr>nextpid := n\<rparr>)"
  "acq l s\<lparr>queues := q\<rparr> = acq l (s\<lparr>queues := q\<rparr>)" "acq l s\<lparr>ticks := t\<rparr> = acq l (s\<lparr>ticks := t\<rparr>)"
  by (simp_all add: acq_def push_off_def hart_defs Let_def)

lemma pstate_settle [simp]:
  "proc (settle s) = proc s" "initproc (settle s) = initproc s" "nextpid (settle s) = nextpid s"
  "ticks (settle s) = ticks s" "queues (settle s) = queues s" "mtst (settle s) = mtst s"
  "settle s\<lparr>proc := f\<rparr> = settle (s\<lparr>proc := f\<rparr>)" "settle s\<lparr>nextpid := n\<rparr> = settle (s\<lparr>nextpid := n\<rparr>)"
  "settle s\<lparr>queues := q\<rparr> = settle (s\<lparr>queues := q\<rparr>)" "settle s\<lparr>ticks := t\<rparr> = settle (s\<lparr>ticks := t\<rparr>)"
  by (simp_all add: settle_def hart_defs)

lemma pstate_ok [simp]:
  "hart_ok (s\<lparr>proc := f\<rparr>) = hart_ok s" "lock_free l (s\<lparr>proc := f\<rparr>) = lock_free l s"
  "hart_ok (s\<lparr>nextpid := n\<rparr>) = hart_ok s" "lock_free l (s\<lparr>nextpid := n\<rparr>) = lock_free l s"
  "hart_ok (s\<lparr>queues := q\<rparr>) = hart_ok s" "lock_free l (s\<lparr>queues := q\<rparr>) = lock_free l s"
  "hart_ok (s\<lparr>ticks := t\<rparr>) = hart_ok s" "lock_free l (s\<lparr>ticks := t\<rparr>) = lock_free l s"
  "mycpu (s\<lparr>proc := f\<rparr>) = mycpu s" "mycpu (s\<lparr>queues := q\<rparr>) = mycpu s"
  "intr_get (s\<lparr>proc := f\<rparr>) = intr_get s" "tp (s\<lparr>proc := f\<rparr>) = tp s"
  by (simp_all add: hart_ok_def lock_free_def hart_defs)

lemma upd_proc_proc [simp]: "proc (upd_proc p f s) = (proc s)(p := f (proc s p))"
  by (simp add: upd_proc_def)

text \<open>All locks of the process table are free and the hart is in order.\<close>

definition procs_ready :: "'z pstate_scheme \<Rightarrow> bool" where
  "procs_ready s \<longleftrightarrow> hart_ok s \<and> (\<forall>p<NPROC. lock_free (KProc p) s)"

lemma procs_ready_upd [simp]:
  "procs_ready (settle s) = procs_ready s" "procs_ready (s\<lparr>proc := f\<rparr>) = procs_ready s"
  "procs_ready (s\<lparr>queues := q\<rparr>) = procs_ready s"
  by (simp_all add: procs_ready_def)

lemma procs_readyD: "procs_ready s \<Longrightarrow> hart_ok s" "procs_ready s \<Longrightarrow> p < NPROC \<Longrightarrow> lock_free (KProc p) s"
  by (simp_all add: procs_ready_def)

lemma myproc_eq: "hart_ok s \<Longrightarrow> myproc s = Ret (cproc (mycpu s), settle s)"
proof -
  assume ok: "hart_ok s"
  have "cproc (mycpu (push_off s)) = cproc (mycpu s)"
    by (simp add: push_off_def hart_defs Let_def)
  then show ?thesis by (simp add: myproc_def kM_simps pop_push [OF ok])
qed

text \<open>A loop over the table whose body changes one process in a critical section changes each
  process once.\<close>

lemma procs_loop_upto:
  assumes "procs_ready s" and "R s"
    and body: "\<And>p t. p < n \<Longrightarrow> procs_ready t \<Longrightarrow> R t \<Longrightarrow>
      body p t = Ret ((), settle (t\<lparr>proc := (proc t)(p := h p (proc t p))\<rparr>))"
    and closed: "\<And>f t. R t \<Longrightarrow> R (settle (t\<lparr>proc := f\<rparr>))"
    and "0 < n"
  shows "for_each [0..<n] body s =
    Ret ((), settle (s\<lparr>proc := (\<lambda>p. if p < n then h p (proc s p) else proc s p)\<rparr>))"
  using \<open>0 < n\<close> body
proof (induction n rule: nat_induct_non_zero)
  case 1
  have "(proc s)(0 := h 0 (proc s 0)) = (\<lambda>p. if p < 1 then h p (proc s p) else proc s p)"
    by auto
  with 1 [of 0 s] assms(1,2) show ?case by (simp add: kM_simps)
next
  case (Suc n)
  let ?f = "\<lambda>p. if p < n then h p (proc s p) else proc s p"
  have "for_each [0..<n] body s = Ret ((), settle (s\<lparr>proc := ?f\<rparr>))"
    using Suc by simp
  moreover have "body n (settle (s\<lparr>proc := ?f\<rparr>)) =
      Ret ((), settle (s\<lparr>proc := ?f(n := h n (proc s n))\<rparr>))"
    using Suc.prems [of n "settle (s\<lparr>proc := ?f\<rparr>)"] assms(1) closed [OF assms(2)]
    by (simp add: fun_upd_def)
  moreover have "?f(n := h n (proc s n)) = (\<lambda>p. if p < Suc n then h p (proc s p) else proc s p)"
    by (auto simp: less_Suc_eq)
  ultimately show ?case by (simp add: for_each_append kM_simps)
qed

section \<open>Waking, killing and priorities\<close>

definition woken :: "chan option \<Rightarrow> proc \<Rightarrow> proc" where
  "woken ch r = (if p_state r = SLEEPING \<and> p_chan r = ch then r\<lparr>p_state := RUNNABLE\<rparr> else r)"

definition wake_all :: "chan option \<Rightarrow> nat option \<Rightarrow> (nat \<Rightarrow> proc) \<Rightarrow> nat \<Rightarrow> proc" where
  "wake_all ch me f = (\<lambda>p.
    if p < NPROC then if me = Some p then f p else woken ch (f p) else f p)"

lemma wakeup_eq:
  assumes "procs_ready s"
  shows "wakeup ch s = Ret ((), settle (s\<lparr>proc := wake_all ch (cproc (mycpu s)) (proc s)\<rparr>))"
  unfolding wakeup_def wake_all_def
proof (rule procs_loop_upto [where R = "\<lambda>t. cproc (mycpu t) = cproc (mycpu s)"
      and h = "\<lambda>p r. if cproc (mycpu s) = Some p then r else woken ch r"])
  fix p and t :: "'a pstate_scheme"
  assume p: "p < NPROC" and t: "procs_ready t" and me: "cproc (mycpu t) = cproc (mycpu s)"
  from procs_readyD [OF t] p have ok: "hart_ok t" "lock_free (KProc p) t" by simp_all
  show "bind myproc (\<lambda>me. whenM (me \<noteq> Some p)
        (seq (acquire (KProc p))
        (seq (modify (\<lambda>s. if p_state (proc s p) = SLEEPING \<and> p_chan (proc s p) = ch
                        then upd_proc p (\<lambda>r. r\<lparr>p_state := RUNNABLE\<rparr>) s else s))
        (release (KProc p))))) t =
      Ret ((), settle (t\<lparr>proc := (proc t)(p := if cproc (mycpu s) = Some p then proc t p
        else woken ch (proc t p))\<rparr>))"
    using ok by (simp add: kM_simps myproc_eq acquire_free lock_free_unlocked release_acq
        upd_proc_def woken_def me)
qed (use assms in \<open>simp_all add: NPROC_def\<close>)

text \<open>A search of the table for the first process that satisfies \<open>hit\<close>, each in its own
  critical section.\<close>

lemma procs_find:
  assumes "procs_ready s"
    and miss: "\<And>p t. p < n \<Longrightarrow> procs_ready t \<Longrightarrow> \<not> hit (proc t p) \<Longrightarrow> body p t = Ret (None, settle t)"
    and hit: "\<And>p t. p < n \<Longrightarrow> procs_ready t \<Longrightarrow> hit (proc t p) \<Longrightarrow>
      body p t = Ret (Some (v (proc t p)), settle (t\<lparr>proc := (proc t)(p := h (proc t p))\<rparr>))"
    and "0 < n"
  shows "for_until [0..<n] body s = (case find (\<lambda>p. hit (proc s p)) [0..<n] of
      None \<Rightarrow> Ret (None, settle s)
    | Some p \<Rightarrow> Ret (Some (v (proc s p)), settle (s\<lparr>proc := (proc s)(p := h (proc s p))\<rparr>)))"
proof -
  have "for_until xs body s = (case find (\<lambda>p. hit (proc s p)) xs of
      None \<Rightarrow> Ret (None, if xs = [] then s else settle s)
    | Some p \<Rightarrow> Ret (Some (v (proc s p)), settle (s\<lparr>proc := (proc s)(p := h (proc s p))\<rparr>)))"
    if "\<forall>p\<in>set xs. p < n" "procs_ready s" for xs s
    using that
  proof (induction xs arbitrary: s)
    case Nil then show ?case by (simp add: kM_simps)
  next
    case (Cons x xs)
    show ?case
    proof (cases "hit (proc s x)")
      case True then show ?thesis using Cons.prems hit [of x s] by (simp add: kM_simps)
    next
      case False
      then have "body x s = Ret (None, settle s)" using Cons.prems miss [of x s] by simp
      then show ?thesis using Cons False by (simp add: kM_simps split: option.split)
    qed
  qed
  from this [of "[0..<n]" s] assms(1,4) show ?thesis by simp
qed

lemmas crit = kM_simps acquire_free lock_free_unlocked release_acq upd_proc_def

lemma kill_eq:
  assumes "procs_ready s"
  shows "kill pid s = (case find (\<lambda>p. p_pid (proc s p) = pid) [0..<NPROC] of
      None \<Rightarrow> Ret (-1, settle s)
    | Some p \<Rightarrow> Ret (0, settle (s\<lparr>proc := (proc s)(p :=
        (let r = (proc s p)\<lparr>p_killed := 1\<rparr> in
         if p_state r = SLEEPING then r\<lparr>p_state := RUNNABLE\<rparr> else r))\<rparr>)))"
proof -
  let ?h = "\<lambda>r. let r' = r\<lparr>p_killed := 1\<rparr> in
    if p_state r' = SLEEPING then r'\<lparr>p_state := RUNNABLE\<rparr> else r'"
  have "for_until [0..<NPROC] (\<lambda>p.
      seq (acquire (KProc p))
      (bind (gets (\<lambda>s. p_pid (proc s p) = pid)) (\<lambda>hit.
      if hit then
        seq (modify (upd_proc p (\<lambda>r. r\<lparr>p_killed := 1\<rparr>)))
        (seq (modify (\<lambda>s. if p_state (proc s p) = SLEEPING
                        then upd_proc p (\<lambda>r. r\<lparr>p_state := RUNNABLE\<rparr>) s else s))
        (seq (release (KProc p)) (return (Some (0::int)))))
      else seq (release (KProc p)) (return None)))) s
    = (case find (\<lambda>p. p_pid (proc s p) = pid) [0..<NPROC] of
        None \<Rightarrow> Ret (None, settle s)
      | Some p \<Rightarrow> Ret (Some 0, settle (s\<lparr>proc := (proc s)(p := ?h (proc s p))\<rparr>)))"
  proof (rule procs_find [OF assms, where hit = "\<lambda>r. p_pid r = pid" and v = "\<lambda>_. 0" and h = ?h])
  qed (auto simp: procs_readyD crit NPROC_def Let_def)
  then show ?thesis unfolding kill_def by (simp add: kM_simps split: option.split)
qed

lemma setpriority_eq:
  assumes "procs_ready s"
  shows "setpriority new pid s = (case find (\<lambda>p. p_pid (proc s p) = pid) [0..<NPROC] of
      None \<Rightarrow> Ret (-1, settle s)
    | Some p \<Rightarrow> Ret (p_priority_pbs (proc s p),
        settle (s\<lparr>proc := (proc s)(p := (proc s p)\<lparr>p_priority_pbs := new\<rparr>)\<rparr>)))"
proof -
  have "for_until [0..<NPROC] (\<lambda>p.
      seq (acquire (KProc p))
      (bind (gets (\<lambda>s. p_pid (proc s p) = pid)) (\<lambda>hit.
      if hit then
        bind (gets (\<lambda>s. p_priority_pbs (proc s p))) (\<lambda>old_priority.
        seq (modify (upd_proc p (\<lambda>r. r\<lparr>p_priority_pbs := new\<rparr>)))
        (seq (release (KProc p)) (return (Some old_priority))))
      else seq (release (KProc p)) (return None)))) s
    = (case find (\<lambda>p. p_pid (proc s p) = pid) [0..<NPROC] of
        None \<Rightarrow> Ret (None, settle s)
      | Some p \<Rightarrow> Ret (Some (p_priority_pbs (proc s p)),
          settle (s\<lparr>proc := (proc s)(p := (proc s p)\<lparr>p_priority_pbs := new\<rparr>)\<rparr>)))"
  proof (rule procs_find [OF assms, where hit = "\<lambda>r. p_pid r = pid" and v = p_priority_pbs
        and h = "\<lambda>r. r\<lparr>p_priority_pbs := new\<rparr>"])
  qed (auto simp: procs_readyD crit NPROC_def)
  then show ?thesis unfolding setpriority_def by (simp add: kM_simps split: option.split)
qed

lemma allocpid_eq:
  assumes "hart_ok s" "lock_free KPid s"
  shows "allocpid s = Ret (nextpid s, settle (s\<lparr>nextpid := nextpid s + 1\<rparr>))"
  using assms by (simp add: allocpid_def crit)


section \<open>Giving up the processor\<close>

lemma acq_commute: "l \<noteq> l' \<Longrightarrow> acq l (acq l' s) = acq l' (acq l s)"
  by (auto simp: acq_def push_off_def hart_defs Let_def fun_upd_twist)

lemma sched_eq:
  assumes "hart_ok t" "noff (mycpu t) = 0" "cproc (mycpu t) = Some p" "p_state (proc t p) \<noteq> RUNNING"
  shows "sched sw (acq (KProc p) t) = (case sw (acq (KProc p) t) of
      Ret r \<Rightarrow> Ret ((), set_mycpu (\<lambda>c. c\<lparr>intena := intr_get t\<rparr>) (snd r))
    | Panic e \<Rightarrow> Panic e | Hang \<Rightarrow> Hang)"
proof -
  have "holding (KProc p) (acq (KProc p) t)" by (simp add: holding_def cpuid_def)
  moreover have "intena (mycpu (acq (KProc p) t)) = intr_get t"
    using assms(2) by (simp add: acq_def push_off_def hart_defs Let_def)
  moreover have "hart_ok (acq (KProc p) t)" using assms(1) by simp
  ultimately show ?thesis
    using assms by (simp add: sched_def kM_simps myproc_eq with_ptr_def split: outcome.split)
qed

text \<open>What a process relies on when it runs again after \<^verbatim>\<open>sched()\<close>: it holds its own
  lock, and no other, with interrupts off.\<close>

definition resumed :: "nat \<Rightarrow> 'z pstate_scheme \<Rightarrow> bool" where
  "resumed p u \<longleftrightarrow> holding (KProc p) u \<and> noff (mycpu u) = 1 \<and> \<not> intr_get u
    \<and> cproc (mycpu u) = Some p"

text \<open>The state after a resumed process has released its lock, restoring the interrupt state
  \<open>ie\<close> of the moment it went to sleep.\<close>

definition let_go :: "nat \<Rightarrow> bool \<Rightarrow> 'z pstate_scheme \<Rightarrow> 'z pstate_scheme" where
  "let_go p ie u =
    (let u1 = set_mycpu (\<lambda>c. c\<lparr>intena := ie, noff := 0\<rparr>)
       (u\<lparr>lks := (lks u)(KProc p := (lks u (KProc p))\<lparr>lcpu := None, locked := False\<rparr>)\<rparr>)
     in if ie then intr_on u1 else u1)"

lemma release_resumed:
  assumes "resumed p u"
  shows "release (KProc p) (set_mycpu (\<lambda>c. c\<lparr>intena := ie\<rparr>) u) = Ret ((), let_go p ie u)"
  using assms unfolding resumed_def release_def let_go_def
  by (auto simp: kM_simps holding_def pop_off_def hart_defs Let_def)

lemma let_go_sel [simp]:
  "proc (let_go p ie u) = proc u" "noff (mycpu (let_go p ie u)) = 0"
  "cproc (mycpu (let_go p ie u)) = cproc (mycpu u)" "tp (let_go p ie u) = tp u"
  "lock_free (KProc p) (let_go p ie u)"
  "lks (let_go p ie u) = (lks u)(KProc p := (lks u (KProc p))\<lparr>lcpu := None, locked := False\<rparr>)"
  by (simp_all add: let_go_def hart_defs Let_def lock_free_def)

lemma let_go_intr: "\<not> intr_get u \<Longrightarrow> intr_get (let_go p ie u) = ie"
  by (auto simp: let_go_def hart_defs Let_def bit_simps)

lemma let_go_ok: "hart_ok (let_go p ie u)"
  using let_go_sel(2) [of p ie u] by (simp add: hart_ok_def)

lemma set_mycpu_proc [simp]:
  "set_mycpu f s\<lparr>proc := g\<rparr> = set_mycpu f (s\<lparr>proc := g\<rparr>)" "proc (set_mycpu f s) = proc s"
  by (simp_all add: hart_defs)

lemma resumed_proc [simp]: "resumed p (u\<lparr>proc := f\<rparr>) = resumed p u"
  by (simp add: resumed_def holding_def cpuid_def)

lemma sleep_eq:
  assumes "hart_ok t" "noff (mycpu t) = 0" "cproc (mycpu t) = Some p"
    and "lock_free (KProc p) t" "lock_free lk t" "lk \<noteq> KProc p"
    and sw: "sw (acq (KProc p) (t\<lparr>proc := (proc t)(p := (proc t p)\<lparr>p_chan := ch, p_state := SLEEPING\<rparr>)\<rparr>))
      = Ret ((), u)"
    and "resumed p u" "lock_free lk u"
  shows "sleep sw ch lk (acq lk t) = Ret ((), acq lk (let_go p (intr_get t)
    (u\<lparr>proc := (proc u)(p := (proc u p)\<lparr>p_chan := None\<rparr>)\<rparr>)))"
proof -
  let ?t = "t\<lparr>proc := (proc t)(p := (proc t p)\<lparr>p_chan := ch, p_state := SLEEPING\<rparr>)\<rparr>"
  let ?u = "u\<lparr>proc := (proc u)(p := (proc u p)\<lparr>p_chan := None\<rparr>)\<rparr>"
  have free: "lock_free lk (acq (KProc p) t)" "lock_free (KProc p) (acq lk t)"
    using assms(4-6) by simp_all
  have rel: "release lk (acq (KProc p) (acq lk t)) = Ret ((), acq (KProc p) t)"
    using release_acq [OF _ free(1)] assms(1,6) by (simp add: acq_commute)
  have sch: "sched sw (acq (KProc p) ?t) = Ret ((), set_mycpu (\<lambda>c. c\<lparr>intena := intr_get t\<rparr>) u)"
    using sched_eq [of ?t p sw] assms(1-3) sw by simp
  have fin: "lock_free lk (let_go p (intr_get t) ?u)"
    using assms(6,9) by (simp add: lock_free_def)
  show ?thesis
    unfolding sleep_def
    using assms(1,3) free(2)
    by (simp add: kM_simps myproc_eq with_ptr_def acquire_free lock_free_unlocked rel sch
        upd_proc_def release_resumed assms(8) acquire_free [OF lock_free_unlocked [OF fin]])
qed

lemma yield_eq:
  assumes "hart_ok t" "noff (mycpu t) = 0" "cproc (mycpu t) = Some p" "lock_free (KProc p) t"
    and sw: "sw (acq (KProc p) (t\<lparr>proc := (proc t)(p := (proc t p)\<lparr>p_state := RUNNABLE\<rparr>)\<rparr>))
      = Ret ((), u)"
    and "resumed p u"
  shows "yield sw t = Ret ((), let_go p (intr_get t) u)"
proof -
  let ?t = "t\<lparr>proc := (proc t)(p := (proc t p)\<lparr>p_state := RUNNABLE\<rparr>)\<rparr>"
  have "sched sw (acq (KProc p) ?t) = Ret ((), set_mycpu (\<lambda>c. c\<lparr>intena := intr_get t\<rparr>) u)"
    using sched_eq [of ?t p sw] assms(1-3) sw by simp
  then show ?thesis
    unfolding yield_def using assms(1,3,4)
    by (simp add: kM_simps myproc_eq with_ptr_def acquire_free lock_free_unlocked
        upd_proc_def release_resumed assms(6))
qed


section \<open>Parents and children\<close>

definition reparented :: "nat \<Rightarrow> nat \<Rightarrow> 'z pstate_scheme \<Rightarrow> nat \<Rightarrow> proc" where
  "reparented p k s = (\<lambda>q.
    let r = (if q < k \<and> p_parent (proc s q) = Some p then (proc s q)\<lparr>p_parent := initproc s\<rparr>
             else proc s q)
    in if (\<exists>i<k. p_parent (proc s i) = Some p) \<and> q < NPROC \<and> cproc (mycpu s) \<noteq> Some q
       then woken (map_option ChProc (initproc s)) r else r)"

lemma woken_idem [simp]: "woken ch (woken ch r) = woken ch r"
  by (simp add: woken_def)

lemma woken_parent [simp]:
  "p_parent (woken ch r) = p_parent r"
  "woken ch (r\<lparr>p_parent := x\<rparr>) = (woken ch r)\<lparr>p_parent := x\<rparr>"
  by (simp_all add: woken_def)

lemma reparented_Suc_kid:
  assumes "p_parent (proc s k) = Some p"
  shows "wake_all (map_option ChProc (initproc s)) (cproc (mycpu s))
      ((reparented p k s)(k := (reparented p k s k)\<lparr>p_parent := initproc s\<rparr>))
    = reparented p (Suc k) s"
proof (rule ext)
  fix q
  have "\<exists>i<Suc k. p_parent (proc s i) = Some p" using assms by blast
  then show "wake_all (map_option ChProc (initproc s)) (cproc (mycpu s))
      ((reparented p k s)(k := (reparented p k s k)\<lparr>p_parent := initproc s\<rparr>)) q
    = reparented p (Suc k) s q"
    unfolding reparented_def wake_all_def Let_def
    using assms by (cases "q = k") (simp_all add: less_Suc_eq)
qed

lemma reparented_Suc_other:
  "p_parent (proc s k) \<noteq> Some p \<Longrightarrow> reparented p (Suc k) s = reparented p k s"
  by (auto simp: reparented_def Let_def fun_eq_iff less_Suc_eq)

lemma reparented_parent [simp]: "p_parent (reparented p k s k) = p_parent (proc s k)"
  by (simp add: reparented_def Let_def)

lemma reparent_one_eq:
  assumes "procs_ready t" "proc t = reparented p k s" "initproc t = initproc s"
    "cproc (mycpu t) = cproc (mycpu s)"
  shows "reparent_one p k t = Ret ((), if p_parent (proc s k) = Some p
    then settle (t\<lparr>proc := reparented p (Suc k) s\<rparr>) else t\<lparr>proc := reparented p (Suc k) s\<rparr>)"
  using assms by (simp add: reparent_one_def kM_simps upd_proc_def wakeup_eq reparented_Suc_kid
      reparented_Suc_other)

lemma reparent_upto:
  assumes "procs_ready s"
  shows "\<exists>s'. for_each [0..<k] (reparent_one p) s = Ret ((), s')
    \<and> (s' = s\<lparr>proc := reparented p k s\<rparr> \<or> s' = settle (s\<lparr>proc := reparented p k s\<rparr>))"
proof (induction k)
  case 0
  have "reparented p 0 s = proc s" by (simp add: reparented_def)
  then show ?case by (simp add: kM_simps)
next
  case (Suc k)
  let ?t = "s\<lparr>proc := reparented p k s\<rparr>"
  from Suc obtain s' where s': "for_each [0..<k] (reparent_one p) s = Ret ((), s')"
    "s' = ?t \<or> s' = settle ?t" by blast
  then have "procs_ready s'" "proc s' = reparented p k s" "initproc s' = initproc s"
    "cproc (mycpu s') = cproc (mycpu s)" using assms by auto
  from reparent_one_eq [OF this] s' show ?case by (auto simp: for_each_append kM_simps)
qed

lemma for_fold_append:
  "for_fold (xs @ ys) body a s = bind (for_fold xs body a) (\<lambda>r. case r of
      Inl a' \<Rightarrow> for_fold ys body a' | Inr v \<Rightarrow> return (Inr v)) s"
  by (induction xs arbitrary: a s) (auto simp: kM_simps split: outcome.split sum.split)

lemma for_fold_scan:
  assumes "\<And>q hk. q < n \<Longrightarrow> body q hk s = Ret (Inl (hk \<or> K q), s)"
  shows "for_fold [0..<n] body hk s = Ret (Inl (hk \<or> (\<exists>q<n. K q)), s)"
  using assms
proof (induction n)
  case (Suc n)
  then have "for_fold [0..<n] body hk s = Ret (Inl (hk \<or> (\<exists>q<n. K q)), s)" by simp
  then show ?case using Suc.prems [of n] by (auto simp: for_fold_append kM_simps less_Suc_eq)
qed (simp add: kM_simps)

lemma settle_nested: "noff (mycpu s) \<noteq> 0 \<Longrightarrow> settle s = s"
  by (simp add: settle_def)

text \<open>The scan of \<open>wait\<close> passes over processes that are no children or no zombies.\<close>

lemma wait_one_pass:
  assumes "procs_ready s" "noff (mycpu s) \<noteq> 0" "q < NPROC"
    and "p_parent (proc s q) = Some p \<Longrightarrow> p_state (proc s q) \<noteq> ZOMBIE"
  shows "wait_one p addr q hk s = Ret (Inl (hk \<or> p_parent (proc s q) = Some p), s)"
    and "waitx_one p addr q hk s = Ret (Inl (hk \<or> p_parent (proc s q) = Some p), s)"
  using assms procs_readyD [OF assms(1)]
  by (auto simp: wait_one_def waitx_one_def crit settle_nested)

lemma upt_split3: "z < n \<Longrightarrow> [0..<n] = [0..<z] @ z # [Suc z..<n]"
  using upt_add_eq_append [of 0 z "n - z"] upt_conv_Cons [of z n] by simp


section \<open>Properties\<close>

text \<open>A state to evaluate the operations in: process 1 runs and is the parent of process 2.\<close>

definition blank_proc :: proc where
  "blank_proc = \<lparr>p_state = UNUSED, p_chan = None, p_killed = 0, p_xstate = 0, p_pid = 0,
     p_parent = None, p_kstack = 0, p_sz = 0, p_pagetable = 0, p_trapframe = 0,
     p_context = \<lparr>ctx_ra = 0, ctx_sp = 0, ctx_s = (\<lambda>_. 0)\<rparr>, p_ofile = replicate 16 None,
     p_cwd = None, p_name = replicate 16 0, p_rtime = 0, p_ctime = 0, p_etime = 0,
     p_trace_flag = 0, p_interval = 0, p_ticks_left = 0, p_sig_handler = 0, p_sigalarm_tf = 0,
     p_tick_creation_time = 0, p_tickets = 1, p_start_time_pbs = 0, p_number_times = 0,
     p_priority_pbs = 60, p_niceness_var = 5, p_last_sleep_time = 0, p_last_run_time = 0,
     p_total_run_time = 0, p_priority = 0, p_in_queue = 0, p_curr_rtime = 0, p_curr_wtime = 0\<rparr>"

definition blank_queue :: priority_queue where
  "blank_queue = \<lparr>q_front = 0, q_back = 0, q_length = 0, q_procs = (\<lambda>_. None)\<rparr>"

definition quiet_pstate :: "(nat \<Rightarrow> proc) \<Rightarrow> nat option \<Rightarrow> pstate" where
  "quiet_pstate procs me = \<lparr>tp = 0, sstatus = (\<lambda>_. 2),
     cpus = (\<lambda>_. \<lparr>cproc = me, noff = 0, intena = False\<rparr>),
     lks = (\<lambda>_. \<lparr>locked = False, lname = [], lcpu = None\<rparr>),
     mem = (\<lambda>_. 0), freelist = 0, kend = 0x80020000,
     kernel_pagetable = 0, satp = (\<lambda>_. 0), etext = 0x80008000, trampoline = 0x80007000,
     proc = procs, initproc = Some 0, nextpid = 10, ticks = 0,
     queues = (\<lambda>_. blank_queue), mtst = mt_init, forkret_addr = 0x80001000\<rparr>"

lemma quiet_pstate_ok [simp]:
  "procs_ready (quiet_pstate f me)" "hart_ok (quiet_pstate f me)" "lock_free l (quiet_pstate f me)"
  "cproc (mycpu (quiet_pstate f me)) = me" "noff (mycpu (quiet_pstate f me)) = 0"
  "proc (quiet_pstate f me) = f" "initproc (quiet_pstate f me) = Some 0"
  by (simp_all add: quiet_pstate_def procs_ready_def hart_ok_def lock_free_def hart_defs)

text \<open>C12. \<^verbatim>\<open>wakeup(chan)\<close> returns with every lock free again; it makes runnable exactly
  the other processes that sleep on \<open>chan\<close>, and changes nothing else of any process.\<close>

theorem wakeup_wakes_exactly_sleepers:
  assumes "procs_ready s"
  shows "\<exists>s'. wakeup ch s = Ret ((), s') \<and> procs_ready s' \<and>
    proc s' = (\<lambda>p. if p < NPROC \<and> cproc (mycpu s) \<noteq> Some p
                     \<and> p_state (proc s p) = SLEEPING \<and> p_chan (proc s p) = ch
                  then (proc s p)\<lparr>p_state := RUNNABLE\<rparr> else proc s p)"
  using assms by (auto simp: wakeup_eq wake_all_def woken_def fun_eq_iff)

definition sleepers :: "nat \<Rightarrow> proc" where
  "sleepers = (\<lambda>_. blank_proc)
     (2 := blank_proc\<lparr>p_state := SLEEPING, p_chan := Some ChTicks\<rparr>,
      3 := blank_proc\<lparr>p_state := SLEEPING, p_chan := Some (ChProc 1)\<rparr>)"

theorem wakeup_wakes_exactly_sleepers_witness:
  "\<exists>s'. wakeup (Some ChTicks) (quiet_pstate sleepers (Some 1)) = Ret ((), s')
    \<and> p_state (proc s' 2) = RUNNABLE \<and> p_state (proc s' 3) = SLEEPING"
  using wakeup_wakes_exactly_sleepers [of "quiet_pstate sleepers (Some 1)" "Some ChTicks"]
  by (auto simp: sleepers_def NPROC_def)

text \<open>\<^verbatim>\<open>kill(pid)\<close> marks the first process of the table with that pid as killed and
  wakes it if it sleeps, on any channel; it returns 0 then, and otherwise -1 with no process
  changed.\<close>

theorem kill_marks_first:
  assumes "procs_ready s"
  shows "case find (\<lambda>p. p_pid (proc s p) = pid) [0..<NPROC] of
      None \<Rightarrow> \<exists>s'. kill pid s = Ret (-1, s') \<and> proc s' = proc s
    | Some p \<Rightarrow> \<exists>s'. kill pid s = Ret (0, s') \<and> p_killed (proc s' p) = 1
        \<and> p_state (proc s' p) = (if p_state (proc s p) = SLEEPING then RUNNABLE else p_state (proc s p))
        \<and> (\<forall>q. q \<noteq> p \<longrightarrow> proc s' q = proc s q)"
  using assms by (auto simp: kill_eq Let_def split: option.split)

theorem kill_marks_first_witness:
  "\<exists>s'. kill 7 (quiet_pstate (sleepers(2 := (sleepers 2)\<lparr>p_pid := 7\<rparr>)) None) = Ret (0, s')
    \<and> p_state (proc s' 2) = RUNNABLE"
proof -
  have "find (\<lambda>p. p_pid ((sleepers(2 := (sleepers 2)\<lparr>p_pid := 7\<rparr>)) p) = 7) [0..<NPROC] = Some 2"
    by (simp add: NPROC_def upt_conv_Cons sleepers_def blank_proc_def)
  with kill_marks_first [of "quiet_pstate (sleepers(2 := (sleepers 2)\<lparr>p_pid := 7\<rparr>)) None" 7]
  show ?thesis by (auto simp: sleepers_def)
qed

text \<open>C11. \<^verbatim>\<open>sleep(chan, lk)\<close> hands over to the scheduler with the process asleep on
  \<open>chan\<close>, its own lock held and \<open>lk\<close> free; once it is switched back to it returns holding
  \<open>lk\<close> alone, with its channel cleared, interrupts as they were, and its own lock free.\<close>

theorem sleep_releases_and_reacquires:
  assumes "hart_ok t" and "noff (mycpu t) = 0" and "cproc (mycpu t) = Some p"
    and "lock_free (KProc p) t" and "lock_free lk t" and "lk \<noteq> KProc p"
    and "sw (acq (KProc p) (t\<lparr>proc := (proc t)(p := (proc t p)\<lparr>p_chan := ch, p_state := SLEEPING\<rparr>)\<rparr>))
      = Ret ((), u)"
    and "resumed p u" and "lock_free lk u"
  shows "\<exists>v. sleep sw ch lk (acq lk t) = Ret ((), acq lk v) \<and> lock_free lk v \<and> lock_free (KProc p) v
    \<and> noff (mycpu v) = 0 \<and> intr_get v = intr_get t
    \<and> proc v = (proc u)(p := (proc u p)\<lparr>p_chan := None\<rparr>)"
proof -
  let ?v = "let_go p (intr_get t) (u\<lparr>proc := (proc u)(p := (proc u p)\<lparr>p_chan := None\<rparr>)\<rparr>)"
  have "\<not> intr_get u" using assms(8) by (simp add: resumed_def)
  then have "intr_get ?v = intr_get t" by (simp add: let_go_intr)
  moreover have "lock_free lk ?v" using assms(6,9) by (simp add: lock_free_def)
  moreover have "sleep sw ch lk (acq lk t) = Ret ((), acq lk ?v)"
    by (rule sleep_eq) (fact assms)+
  ultimately show ?thesis by auto
qed

definition run_again :: "nat \<Rightarrow> (pstate, unit) kM" where
  "run_again p = modify (upd_proc p (\<lambda>r. r\<lparr>p_state := RUNNING\<rparr>))"

theorem sleep_releases_and_reacquires_witness:
  "\<exists>v. sleep (run_again 1) (Some ChTicks) KTicks (acq KTicks (quiet_pstate sleepers (Some 1)))
     = Ret ((), acq KTicks v) \<and> p_state (proc v 1) = RUNNING \<and> p_chan (proc v 1) = None"
proof -
  let ?t = "quiet_pstate sleepers (Some 1)"
  let ?t' = "?t\<lparr>proc := (proc ?t)(1 := (proc ?t 1)\<lparr>p_chan := Some ChTicks, p_state := SLEEPING\<rparr>)\<rparr>"
  let ?u = "upd_proc 1 (\<lambda>r. r\<lparr>p_state := RUNNING\<rparr>) (acq (KProc 1) ?t')"
  have "run_again 1 (acq (KProc 1) ?t') = Ret ((), ?u)" by (simp add: run_again_def kM_simps)
  moreover have "resumed 1 ?u" "lock_free KTicks ?u"
    by (simp_all add: resumed_def upd_proc_def holding_def cpuid_def)
  ultimately have "\<exists>v. sleep (run_again 1) (Some ChTicks) KTicks (acq KTicks ?t) = Ret ((), acq KTicks v)
    \<and> lock_free KTicks v \<and> lock_free (KProc 1) v \<and> noff (mycpu v) = 0 \<and> intr_get v = intr_get ?t
    \<and> proc v = (proc ?u)(1 := (proc ?u 1)\<lparr>p_chan := None\<rparr>)"
    by (intro sleep_releases_and_reacquires) simp_all
  then show ?thesis by auto
qed

text \<open>C18. After \<^verbatim>\<open>reparent(p)\<close> every child of \<open>p\<close> has \<^verbatim>\<open>init\<close> as its
  parent and every other process keeps its parent; if there was a child, \<^verbatim>\<open>init\<close> is
  no longer asleep waiting for one.\<close>

theorem reparent_to_init:
  assumes "procs_ready s" and "initproc s = Some i" and "i < NPROC" and "cproc (mycpu s) \<noteq> Some i"
  shows "\<exists>s'. reparent p s = Ret ((), s') \<and> procs_ready s'
    \<and> (\<forall>q<NPROC. p_parent (proc s' q) =
         (if p_parent (proc s q) = Some p then Some i else p_parent (proc s q)))
    \<and> ((\<exists>q<NPROC. p_parent (proc s q) = Some p) \<longrightarrow>
         \<not> (p_state (proc s' i) = SLEEPING \<and> p_chan (proc s' i) = Some (ChProc i)))"
proof -
  from reparent_upto [OF assms(1), of NPROC p] obtain s' where
    s': "reparent p s = Ret ((), s')"
      "s' = s\<lparr>proc := reparented p NPROC s\<rparr> \<or> s' = settle (s\<lparr>proc := reparented p NPROC s\<rparr>)"
    unfolding reparent_def by blast
  then have "procs_ready s'" "proc s' = reparented p NPROC s" using assms(1) by auto
  moreover have "\<forall>q<NPROC. p_parent (reparented p NPROC s q) =
      (if p_parent (proc s q) = Some p then Some i else p_parent (proc s q))"
    using assms(2) by (simp add: reparented_def Let_def)
  moreover have "(\<exists>q<NPROC. p_parent (proc s q) = Some p) \<longrightarrow>
      \<not> (p_state (reparented p NPROC s i) = SLEEPING \<and> p_chan (reparented p NPROC s i) = Some (ChProc i))"
    using assms(2-4) by (auto simp: reparented_def Let_def woken_def)
  ultimately show ?thesis using s'(1) by auto
qed

definition family :: "nat \<Rightarrow> proc" where
  "family = (\<lambda>_. blank_proc)
     (0 := blank_proc\<lparr>p_pid := 1, p_state := SLEEPING, p_chan := Some (ChProc 0)\<rparr>,
      1 := blank_proc\<lparr>p_pid := 2, p_state := RUNNING\<rparr>,
      2 := blank_proc\<lparr>p_pid := 3, p_state := RUNNABLE, p_parent := Some 1\<rparr>,
      3 := blank_proc\<lparr>p_pid := 4, p_state := ZOMBIE, p_parent := Some 1, p_ctime := 5, p_rtime := 7,
                      p_etime := 20\<rparr>)"

theorem reparent_to_init_witness:
  "\<exists>s'. reparent 1 (quiet_pstate family (Some 1)) = Ret ((), s')
    \<and> p_parent (proc s' 2) = Some 0 \<and> \<not> (p_state (proc s' 0) = SLEEPING \<and> p_chan (proc s' 0) = Some (ChProc 0))"
proof -
  have "\<exists>q<NPROC. p_parent (family q) = Some 1"
    by (rule exI [of _ 2]) (simp add: family_def NPROC_def)
  with reparent_to_init [of "quiet_pstate family (Some 1)" 0 1] show ?thesis
    by (auto simp: NPROC_def family_def)
qed

end
