(* ===== verification/Fifo.thy ===== *)
theory Fifo
  imports Prelude
begin

text \<open>
  The interface of a bounded first-in first-out queue, as the ring buffers of the kernel provide it:
  the queues of the feedback scheduler, the pipe buffer and the transmit buffer of the serial port.
  \<open>abs q\<close> is the list of elements of \<open>q\<close>, oldest first.
\<close>

locale bounded_queue =
  fixes inv :: "'q \<Rightarrow> bool"
    and abs :: "'q \<Rightarrow> 'a list"
    and cap :: nat
    and put :: "'a \<Rightarrow> 'q \<Rightarrow> 'q"
    and first :: "'q \<Rightarrow> 'a"
    and get :: "'q \<Rightarrow> 'q"
  assumes put_inv: "inv q \<Longrightarrow> length (abs q) < cap \<Longrightarrow> inv (put x q)"
    and put_abs: "inv q \<Longrightarrow> length (abs q) < cap \<Longrightarrow> abs (put x q) = abs q @ [x]"
    and get_inv: "inv q \<Longrightarrow> abs q \<noteq> [] \<Longrightarrow> inv (get q)"
    and first_abs: "inv q \<Longrightarrow> abs q \<noteq> [] \<Longrightarrow> first q = hd (abs q)"
    and get_abs: "inv q \<Longrightarrow> abs q \<noteq> [] \<Longrightarrow> abs (get q) = tl (abs q)"
begin

lemma put_list:
  assumes "inv q" "length (abs q) + length xs \<le> cap"
  shows "inv (fold put xs q) \<and> abs (fold put xs q) = abs q @ xs"
  using assms
proof (induction xs arbitrary: q)
  case (Cons x xs)
  then have "inv (put x q)" "abs (put x q) = abs q @ [x]" by (simp_all add: put_inv put_abs)
  with Cons.IH [of "put x q"] Cons.prems show ?case by simp
qed simp

lemma get_list:
  assumes "inv q" "n \<le> length (abs q)"
  shows "inv ((get ^^ n) q) \<and> abs ((get ^^ n) q) = drop n (abs q)
    \<and> map (\<lambda>k. first ((get ^^ k) q)) [0..<n] = take n (abs q)"
  using assms
proof (induction n)
  case (Suc n)
  let ?q = "(get ^^ n) q"
  from Suc have IH: "inv ?q" "abs ?q = drop n (abs q)"
    "map (\<lambda>k. first ((get ^^ k) q)) [0..<n] = take n (abs q)" by simp_all
  have ne: "abs ?q \<noteq> []" using IH(2) Suc.prems(2) by simp
  have "first ?q = abs q ! n" using IH ne Suc.prems(2) by (simp add: first_abs hd_drop_conv_nth)
  moreover have "abs (get ?q) = drop (Suc n) (abs q)"
    using IH ne by (simp add: get_abs drop_Suc tl_drop)
  ultimately show ?case
    using IH ne Suc.prems(2) by (simp add: get_inv take_Suc_conv_app_nth)
qed simp

lemma fifo_order:
  assumes "inv q" "abs q = []" "length xs \<le> cap"
  shows "map (\<lambda>k. first ((get ^^ k) (fold put xs q))) [0..<length xs] = xs"
  using put_list [of q xs] get_list [of "fold put xs q" "length xs"] assms by simp

end

text \<open>Ring arithmetic: the elements of an array of \<open>n\<close> slots from \<open>cur\<close> on.\<close>

definition slots :: "nat \<Rightarrow> (nat \<Rightarrow> 'a) \<Rightarrow> nat \<Rightarrow> nat \<Rightarrow> 'a list" where
  "slots n a cur m = map (\<lambda>k. a ((cur + k) mod n)) [0..<m]"

lemma length_slots [simp]: "length (slots n a cur m) = m"
  by (simp add: slots_def)

lemma slots_0 [simp]: "slots n a cur 0 = []"
  by (simp add: slots_def)

lemma slots_Suc: "cur < n \<Longrightarrow> slots n a cur (Suc m) = a cur # slots n a (Suc cur mod n) m"
  by (simp add: slots_def upt_conv_Cons map_Suc_upt [symmetric] mod_add_left_eq del: upt_Suc)

lemma slots_Suc_last: "slots n a cur (Suc m) = slots n a cur m @ [a ((cur + m) mod n)]"
  by (simp add: slots_def)

lemma slots_cong:
  "(\<And>k. k < m \<Longrightarrow> a ((cur + k) mod n) = b ((cur + k) mod n)) \<Longrightarrow> slots n a cur m = slots n b cur m"
  by (simp add: slots_def)

lemma ring_index_neq:
  assumes "cur < n" "0 < k" "k < (n::nat)"
  shows "(cur + k) mod n \<noteq> cur"
proof (cases "cur + k < n")
  case True then show ?thesis using assms(2) by simp
next
  case False
  then have "(cur + k) mod n = cur + k - n" using assms by (simp add: mod_if)
  then show ?thesis using assms False by arith
qed

lemma slots_upd_before:
  assumes "cur < n" "m < n"
  shows "slots n (a(cur := v)) (Suc cur mod n) m = slots n a (Suc cur mod n) m"
proof (rule slots_cong)
  fix k assume "k < m"
  then have "(cur + Suc k) mod n \<noteq> cur" using assms by (intro ring_index_neq) simp_all
  then show "(a(cur := v)) ((Suc cur mod n + k) mod n) = a ((Suc cur mod n + k) mod n)"
    by (simp add: mod_add_left_eq)
qed

lemma slots_upd_end:
  assumes "cur < n" "m < n"
  shows "slots n (a((cur + m) mod n := v)) cur m = slots n a cur m"
proof (rule slots_cong)
  fix k assume "k < m"
  then have "((cur + k) mod n + (m - k)) mod n \<noteq> (cur + k) mod n"
    using assms by (intro ring_index_neq) simp_all
  moreover have "((cur + k) mod n + (m - k)) mod n = (cur + m) mod n"
    using \<open>k < m\<close> by (subst mod_add_left_eq) simp
  ultimately have "(cur + m) mod n \<noteq> (cur + k) mod n" by simp
  then show "(a((cur + m) mod n := v)) ((cur + k) mod n) = a ((cur + k) mod n)" by simp
qed

text \<open>Rings whose read and write positions are counters that are never reduced: machine words whose
  width the size of the ring divides. \<open>wring N a r w\<close> are the elements between the counters.\<close>

definition wring :: "nat \<Rightarrow> (nat \<Rightarrow> 'a) \<Rightarrow> 'w::len word \<Rightarrow> 'w word \<Rightarrow> 'a list" where
  "wring N a r w = slots N a (unat r mod N) (unat (w - r))"

definition ring_size :: "'w::len itself \<Rightarrow> nat \<Rightarrow> bool" where
  "ring_size t N \<longleftrightarrow> 0 < N \<and> N dvd 2 ^ LENGTH('w) \<and> N < 2 ^ LENGTH('w)"

lemma length_wring [simp]: "length (wring N a r w) = unat (w - r)"
  by (simp add: wring_def)

lemma wring_empty [simp]: "wring N a r r = []"
  by (simp add: wring_def)

lemma unat_add_mod:
  fixes r :: "'w::len word"
  assumes "ring_size TYPE('w) N"
  shows "unat (r + x) mod N = (unat r mod N + unat x) mod N"
  using assms by (simp add: ring_size_def unat_word_ariths mod_mod_cancel mod_add_left_eq)

lemma unat_succ_diff:
  fixes r w :: "'w::len word"
  assumes "unat (w - r) < N" "ring_size TYPE('w) N"
  shows "unat (w + 1 - r) = Suc (unat (w - r))"
proof -
  have "unat (w - r) + 1 < 2 ^ LENGTH('w)" using assms by (simp add: ring_size_def)
  then have "unat ((w - r) + 1) = unat (w - r) + 1"
    by (simp add: unat_word_ariths(1) unat_1 del: unsigned_1)
  moreover have "w + 1 - r = (w - r) + 1" by simp
  ultimately show ?thesis by (metis Suc_eq_plus1)
qed

lemma wring_push:
  fixes r w :: "'w::len word"
  assumes "ring_size TYPE('w) N" "unat (w - r) < N"
  shows "wring N (a(unat w mod N := x)) r (w + 1) = wring N a r w @ [x]"
proof -
  have "unat w mod N = unat (r + (w - r)) mod N" by simp
  also have "\<dots> = (unat r mod N + unat (w - r)) mod N" by (rule unat_add_mod [OF assms(1)])
  finally have w: "unat w mod N = (unat r mod N + unat (w - r)) mod N" .
  have lt: "unat r mod N < N" using assms(1) by (simp add: ring_size_def)
  show ?thesis
    unfolding wring_def unat_succ_diff [OF assms(2,1)] slots_Suc_last
    by (simp add: w slots_upd_end [OF lt assms(2)])
qed

lemma wring_pop:
  fixes r w :: "'w::len word"
  assumes "ring_size TYPE('w) N" "r \<noteq> w"
  shows "wring N a r w = a (unat r mod N) # wring N a (r + 1) w"
proof -
  have "unat (w - r) \<noteq> 0" using assms(2) by (metis eq_iff_diff_eq_0 unat_eq_zero)
  then obtain k where k: "unat (w - r) = Suc k" using not0_implies_Suc by blast
  have "w - (r + 1) = (w - r) - 1" by simp
  also have "unat \<dots> = k" using k by (metis diff_Suc_1 unat_0 unat_minus_one nat.distinct(1))
  finally have k1: "unat (w - (r + 1)) = k" .
  have "unat (r + 1) mod N = Suc (unat r mod N) mod N"
    using unat_add_mod [OF assms(1), of r 1] by (cases "LENGTH('w) = 0") simp_all
  then show ?thesis
    using assms(1) by (simp add: wring_def k k1 slots_Suc ring_size_def)
qed

lemma wring_unpush:
  fixes r w :: "'w::len word"
  assumes "r \<noteq> w"
  shows "wring N a r (w - 1) = butlast (wring N a r w)"
proof -
  have "unat (w - r) \<noteq> 0" using assms by (metis eq_iff_diff_eq_0 unat_eq_zero)
  then obtain k where k: "unat (w - r) = Suc k" using not0_implies_Suc by blast
  have "w - 1 - r = (w - r) - 1" by simp
  also have "unat \<dots> = k" using k by (metis diff_Suc_1 unat_0 unat_minus_one nat.distinct(1))
  finally show ?thesis by (simp add: wring_def k slots_Suc_last)
qed

lemma wring_append:
  fixes r w e :: "'w::len word"
  assumes "ring_size TYPE('w) N" "unat (w - r) \<le> unat (e - r)"
  shows "wring N a r e = wring N a r w @ wring N a w e"
proof -
  have "e - w = (e - r) - (w - r)" by simp
  then have ew: "unat (e - w) = unat (e - r) - unat (w - r)"
    using assms(2) by (metis unat_sub word_le_nat_alt)
  have w: "unat w mod N = (unat r mod N + unat (w - r)) mod N"
    using unat_add_mod [OF assms(1), of r "w - r"] by simp
  have "slots N a (unat r mod N) (m + k) = slots N a (unat r mod N) m @ slots N a ((unat r mod N + m) mod N) k"
    for m k
  proof -
    have "[0..<m + k] = [0..<m] @ map (\<lambda>i. i + m) [0..<k]"
      using upt_add_eq_append [of 0 m k] map_add_upt [of m k] by (simp add: add.commute)
    then show ?thesis by (simp add: slots_def mod_add_left_eq mod_add_right_eq ac_simps)
  qed
  from this [of "unat (w - r)" "unat (e - w)"] show ?thesis
    using assms(2) by (simp add: wring_def ew w)
qed

lemma wring_last:
  fixes r w :: "'w::len word"
  assumes "ring_size TYPE('w) N" "r \<noteq> w"
  shows "last (wring N a r w) = a (unat (w - 1) mod N)"
proof -
  have "unat (w - r) \<noteq> 0" using assms by (metis eq_iff_diff_eq_0 unat_eq_zero)
  then obtain k where k: "unat (w - r) = Suc k" using not0_implies_Suc by blast
  have "w - 1 - r = (w - r) - 1" by simp
  also have "unat \<dots> = k" using k by (metis diff_Suc_1 unat_0 unat_minus_one nat.distinct(1))
  finally have k1: "unat (w - 1 - r) = k" .
  have "unat (w - 1) mod N = (unat r mod N + k) mod N"
    using unat_add_mod [OF assms(1), of r "w - 1 - r"] k1 by simp
  then show ?thesis by (simp add: wring_def k slots_Suc_last)
qed

end
