(* ===== verification/Console.thy ===== *)
theory Console
  imports Proc Fifo
begin

text \<open>
  Console input and output: \<^verbatim>\<open>kernel/uart.c\<close>, \<^verbatim>\<open>kernel/printf.c\<close>,
  \<^verbatim>\<open>kernel/console.c\<close> and \<^verbatim>\<open>procdump()\<close> of \<^verbatim>\<open>kernel/proc.c\<close>.

  The 16550a device is not under the kernel's control: \<open>uart_in k r\<close> is the value that the
  \<open>k\<close>-th read of a device register returns when it reads register \<open>r\<close>, an arbitrary
  function of the state, and \<open>uart_out\<close> records the writes to the registers in order.
  \<open>u_fuel\<close> bounds the polling loops, which a device that is never ready keeps in forever.

  The environment \<open>E\<close> of an operation that may sleep has the bound \<open>e_fuel\<close> on the
  iterations of a loop around \<^verbatim>\<open>sleep()\<close>, what the rest of the system does while the process
  is not running (\<open>e_sw\<close>), and the disk driver's \<^verbatim>\<open>virtio_disk_rw()\<close> (\<open>e_rw\<close>).
\<close>

section \<open>State\<close>

record 's env =
  e_fuel :: nat
  e_sw :: "('s, unit) kM"
  e_rw :: "nat \<Rightarrow> bool \<Rightarrow> ('s, unit) kM"

record consbuf =
  c_buf :: "nat \<Rightarrow> u8"
  c_r :: u32
  c_w :: u32
  c_e :: u32

record ustate = pstate +
  uart_in :: "nat \<Rightarrow> nat \<Rightarrow> u8"
  uart_nreads :: nat
  uart_out :: "(nat \<times> u8) list"
  u_fuel :: nat
  uart_tx_buf :: "nat \<Rightarrow> u8"
  uart_tx_w :: u64
  uart_tx_r :: u64
  panicked :: bool
  pr_locking :: bool
  cons :: consbuf

section \<open>The UART driver\<close>

abbreviation RHR :: nat where "RHR \<equiv> 0"
abbreviation THR :: nat where "THR \<equiv> 0"
abbreviation IER :: nat where "IER \<equiv> 1"
abbreviation IER_RX_ENABLE :: u8 where "IER_RX_ENABLE \<equiv> push_bit 0 1"
abbreviation IER_TX_ENABLE :: u8 where "IER_TX_ENABLE \<equiv> push_bit 1 1"
abbreviation FCR :: nat where "FCR \<equiv> 2"
abbreviation FCR_FIFO_ENABLE :: u8 where "FCR_FIFO_ENABLE \<equiv> push_bit 0 1"
abbreviation FCR_FIFO_CLEAR :: u8 where "FCR_FIFO_CLEAR \<equiv> push_bit 1 3"
abbreviation LCR :: nat where "LCR \<equiv> 3"
abbreviation LCR_EIGHT_BITS :: u8 where "LCR_EIGHT_BITS \<equiv> push_bit 0 3"
abbreviation LCR_BAUD_LATCH :: u8 where "LCR_BAUD_LATCH \<equiv> push_bit 7 1"
abbreviation LSR :: nat where "LSR \<equiv> 5"
definition LSR_TX_IDLE :: u8 where "LSR_TX_IDLE = push_bit 5 1"
definition UART_TX_BUF_SIZE :: u64 where "UART_TX_BUF_SIZE = 32"

definition ReadReg :: "nat \<Rightarrow> ('z ustate_scheme, u8) kM" where
  "ReadReg reg =
    bind (gets (\<lambda>s. uart_in s (uart_nreads s) reg)) (\<lambda>v.
    seq (modify (\<lambda>s. s\<lparr>uart_nreads := uart_nreads s + 1\<rparr>)) (return v))"

definition WriteReg :: "nat \<Rightarrow> u8 \<Rightarrow> ('z ustate_scheme, unit) kM" where
  "WriteReg reg v = modify (\<lambda>s. s\<lparr>uart_out := uart_out s @ [(reg, v)]\<rparr>)"

definition uartinit :: "('z ustate_scheme, unit) kM" where
  "uartinit =
    seq (WriteReg IER 0)
    (seq (WriteReg LCR LCR_BAUD_LATCH)
    (seq (WriteReg 0 0x03)
    (seq (WriteReg 1 0)
    (seq (WriteReg LCR LCR_EIGHT_BITS)
    (seq (WriteReg FCR (FCR_FIFO_ENABLE OR FCR_FIFO_CLEAR))
    (seq (WriteReg IER (IER_TX_ENABLE OR IER_RX_ENABLE))
    (modify (initlock KUart ''uart''))))))))"

text \<open>Each round of the loop of \<open>uartstart\<close> takes one of the
  \<open>uart_tx_w - uart_tx_r\<close> waiting characters.\<close>

primrec uartstart_loop :: "nat \<Rightarrow> ('z ustate_scheme, unit) kM" where
  "uartstart_loop 0 = return ()"
| "uartstart_loop (Suc n) =
    bind (gets (\<lambda>s. uart_tx_w s = uart_tx_r s)) (\<lambda>empty.
    if empty then return () else
    bind (ReadReg LSR) (\<lambda>lsr.
    if lsr AND LSR_TX_IDLE = 0 then return () else
    bind (gets (\<lambda>s. uart_tx_buf s (unat (uart_tx_r s mod UART_TX_BUF_SIZE)))) (\<lambda>c.
    seq (modify (\<lambda>s. s\<lparr>uart_tx_r := uart_tx_r s + 1\<rparr>))
    (seq (wakeup (Some ChUart))
    (seq (WriteReg THR c)
    (uartstart_loop n))))))"

definition uartstart :: "('z ustate_scheme, unit) kM" where
  "uartstart = bind (gets (\<lambda>s. unat (uart_tx_w s - uart_tx_r s))) uartstart_loop"

definition uartputc :: "'z ustate_scheme env \<Rightarrow> u8 \<Rightarrow> ('z ustate_scheme, unit) kM" where
  "uartputc E c =
    seq (acquire KUart)
    (bind (gets panicked) (\<lambda>p.
    if p then hang else
    seq (while_fuel (e_fuel E) (\<lambda>s. uart_tx_w s = uart_tx_r s + UART_TX_BUF_SIZE)
          (sleep (e_sw E) (Some ChUart) KUart))
    (seq (modify (\<lambda>s. s\<lparr>uart_tx_buf := (uart_tx_buf s)(unat (uart_tx_w s mod UART_TX_BUF_SIZE) := c)\<rparr>))
    (seq (modify (\<lambda>s. s\<lparr>uart_tx_w := uart_tx_w s + 1\<rparr>))
    (seq uartstart
    (release KUart))))))"

text \<open>Polling the line status register until the transmitter is idle.\<close>

primrec uart_wait :: "nat \<Rightarrow> ('z ustate_scheme, unit) kM" where
  "uart_wait 0 = hang"
| "uart_wait (Suc n) =
    bind (ReadReg LSR) (\<lambda>lsr. if lsr AND LSR_TX_IDLE = 0 then uart_wait n else return ())"

definition uartputc_sync :: "int \<Rightarrow> ('z ustate_scheme, unit) kM" where
  "uartputc_sync c =
    seq (modify push_off)
    (bind (gets panicked) (\<lambda>p.
    if p then hang else
    seq (bind (gets u_fuel) uart_wait)
    (seq (WriteReg THR (word_of_int c))
    pop_off)))"

definition uartgetc :: "('z ustate_scheme, int) kM" where
  "uartgetc =
    bind (ReadReg LSR) (\<lambda>lsr.
    if lsr AND 1 \<noteq> 0 then bind (ReadReg RHR) (\<lambda>c. return (uint c)) else return (-1))"

section \<open>Formatted output\<close>

definition BACKSPACE :: int where "BACKSPACE = 0x100"

definition consputc :: "int \<Rightarrow> ('z ustate_scheme, unit) kM" where
  "consputc c =
    (if c = BACKSPACE then
       seq (uartputc_sync 8) (seq (uartputc_sync 32) (uartputc_sync 8))
     else uartputc_sync c)"

definition char_code :: "char \<Rightarrow> int" where
  "char_code c = of_char c"

definition digits :: string where "digits = ''0123456789abcdef''"

text \<open>The \<^verbatim>\<open>do\<close> loop of \<open>printint\<close>, which fills \<^verbatim>\<open>buf\<close> from the
  least significant digit; a value of 32 bits has at most 32 digits.\<close>

primrec print_digits :: "nat \<Rightarrow> u32 \<Rightarrow> u32 \<Rightarrow> char list" where
  "print_digits 0 x base = []"
| "print_digits (Suc n) x base =
    digits ! unat (x mod base) # (if x div base \<noteq> 0 then print_digits n (x div base) base else [])"

definition printint_buf :: "int \<Rightarrow> u32 \<Rightarrow> bool \<Rightarrow> char list" where
  "printint_buf xx base sign =
    (let sign = (sign \<and> xx < 0);
         x = (if sign then - of_int xx else of_int xx :: u32)
     in print_digits 32 x base @ (if sign then ''-'' else []))"

definition printint :: "int \<Rightarrow> u32 \<Rightarrow> bool \<Rightarrow> ('z ustate_scheme, unit) kM" where
  "printint xx base sign = for_each (rev (printint_buf xx base sign)) (\<lambda>c. consputc (char_code c))"

definition printptr :: "u64 \<Rightarrow> ('z ustate_scheme, unit) kM" where
  "printptr x =
    seq (consputc (char_code CHR ''0''))
    (seq (consputc (char_code CHR ''x''))
    (for_each [0..<16] (\<lambda>i. consputc (char_code (digits ! unat (drop_bit 60 (push_bit (4 * i) x)))))))"

text \<open>The variable arguments of \<open>printf\<close>; \<open>va_arg\<close> takes the next one. A string argument
  is a list of bytes up to its nul, or \<open>None\<close> for a null pointer. A conversion without its
  argument, undefined in C, takes \<open>AInt 0\<close>.\<close>

datatype arg = AInt int | APtr u64 | AStr "u8 list option"

definition va_arg :: "arg list \<Rightarrow> arg" where
  "va_arg args = (case args of [] \<Rightarrow> AInt 0 | a # _ \<Rightarrow> a)"

definition va_int :: "arg \<Rightarrow> int" where
  "va_int a = (case a of AInt x \<Rightarrow> x | APtr x \<Rightarrow> sint (ucast x :: u32) | AStr _ \<Rightarrow> 0)"

definition va_ptr :: "arg \<Rightarrow> u64" where
  "va_ptr a = (case a of APtr x \<Rightarrow> x | AInt x \<Rightarrow> of_int x | AStr _ \<Rightarrow> 0)"

definition va_str :: "arg \<Rightarrow> u8 list" where
  "va_str a = (case a of AStr (Some bs) \<Rightarrow> bs | _ \<Rightarrow> map of_char ''(null)'')"

fun printf_loop :: "string \<Rightarrow> arg list \<Rightarrow> ('z ustate_scheme, unit) kM" where
  "printf_loop [] args = return ()"
| "printf_loop (c # fmt) args =
    (if c \<noteq> CHR ''%'' then seq (consputc (char_code c)) (printf_loop fmt args) else
     (case fmt of
       [] \<Rightarrow> return ()
     | c # fmt \<Rightarrow>
       (if c = CHR ''d'' then seq (printint (va_int (va_arg args)) 10 True) (printf_loop fmt (tl args))
        else if c = CHR ''x'' then seq (printint (va_int (va_arg args)) 16 True) (printf_loop fmt (tl args))
        else if c = CHR ''p'' then seq (printptr (va_ptr (va_arg args))) (printf_loop fmt (tl args))
        else if c = CHR ''s'' then
          seq (for_each (va_str (va_arg args)) (\<lambda>b. consputc (uint b))) (printf_loop fmt (tl args))
        else if c = CHR ''%'' then seq (consputc (char_code CHR ''%'')) (printf_loop fmt args)
        else seq (consputc (char_code CHR ''%'')) (seq (consputc (char_code c)) (printf_loop fmt args)))))"

definition printf :: "string \<Rightarrow> arg list \<Rightarrow> ('z ustate_scheme, unit) kM" where
  "printf fmt args =
    bind (gets pr_locking) (\<lambda>locking.
    seq (whenM locking (acquire KPr))
    (seq (printf_loop fmt args)
    (whenM locking (release KPr))))"

definition printfinit :: "('z ustate_scheme, unit) kM" where
  "printfinit =
    seq (modify (initlock KPr ''pr''))
    (modify (\<lambda>s. s\<lparr>pr_locking := True\<rparr>))"

text \<open>What \<^verbatim>\<open>panic()\<close> does before it spins forever: the state in which the other harts
  find the machine. In the model the outcome of the panicking operation is \<open>Panic s\<close>.\<close>

definition panic_effect :: "string \<Rightarrow> ('z ustate_scheme, unit) kM" where
  "panic_effect msg =
    seq (modify (\<lambda>s. s\<lparr>pr_locking := False\<rparr>))
    (seq (printf ''panic: '' [])
    (seq (printf msg [])
    (seq (printf ''\<newline>'' [])
    (modify (\<lambda>s. s\<lparr>panicked := True\<rparr>)))))"

section \<open>The process list\<close>

primrec state_name :: "procstate \<Rightarrow> string" where
  "state_name UNUSED = ''unused''"
| "state_name USED = ''used''"
| "state_name SLEEPING = ''sleep ''"
| "state_name RUNNABLE = ''runble''"
| "state_name RUNNING = ''run   ''"
| "state_name ZOMBIE = ''zombie''"

definition procdump :: "('z ustate_scheme, unit) kM" where
  "procdump =
    seq (printf ''\<newline>'' [])
    (for_each [0..<NPROC] (\<lambda>p.
      bind (gets (\<lambda>s. proc s p)) (\<lambda>r.
      if p_state r = UNUSED then return () else
      seq (printf ''%d %s %s'' [AInt (p_pid r), AStr (Some (map of_char (state_name (p_state r)))),
             AStr (Some (takeWhile (\<lambda>b. b \<noteq> 0) (p_name r)))])
      (printf ''\<newline>'' []))))"

section \<open>The console\<close>

definition INPUT_BUF_SIZE :: u32 where "INPUT_BUF_SIZE = 128"

definition upd_cons :: "(consbuf \<Rightarrow> consbuf) \<Rightarrow> 'z ustate_scheme \<Rightarrow> 'z ustate_scheme" where
  "upd_cons f s = s\<lparr>cons := f (cons s)\<rparr>"

definition cons_slot :: "u32 \<Rightarrow> nat" where
  "cons_slot i = unat (i mod INPUT_BUF_SIZE)"

primrec consolewrite_loop :: "nat \<Rightarrow> 'z ustate_scheme env \<Rightarrow> bool \<Rightarrow> u64 \<Rightarrow> int \<Rightarrow> ('z ustate_scheme, int) kM" where
  "consolewrite_loop 0 E user_src src i = return i"
| "consolewrite_loop (Suc k) E user_src src i =
    bind (either_copyin user_src (src + of_int i) 1) (\<lambda>(r, bs).
    if r = -1 then return i else
    seq (uartputc E (hd bs))
    (consolewrite_loop k E user_src src (i + 1)))"

definition consolewrite :: "'z ustate_scheme env \<Rightarrow> bool \<Rightarrow> u64 \<Rightarrow> int \<Rightarrow> ('z ustate_scheme, int) kM" where
  "consolewrite E user_src src n = consolewrite_loop (nat n) E user_src src 0"

text \<open>Waiting for input: \<open>False\<close> when the process has been killed.\<close>

primrec cons_wait :: "nat \<Rightarrow> 'z ustate_scheme env \<Rightarrow> ('z ustate_scheme, bool) kM" where
  "cons_wait 0 E = hang"
| "cons_wait (Suc k) E =
    bind (gets cons) (\<lambda>c.
    if c_r c \<noteq> c_w c then return True else
    bind myproc (\<lambda>p. with_ptr p (\<lambda>p.
    bind (killed p) (\<lambda>kl.
    if kl \<noteq> 0 then return False else
    seq (sleep (e_sw E) (Some ChCons) KCons) (cons_wait k E)))))"

text \<open>The loop of \<open>consoleread\<close>: \<open>n\<close> bytes are still wanted, each round that does not
  leave the loop delivers one. \<open>None\<close> is the return of \<open>-1\<close>, which has released the lock.\<close>

primrec consoleread_loop :: "nat \<Rightarrow> 'z ustate_scheme env \<Rightarrow> bool \<Rightarrow> nat \<Rightarrow> u64 \<Rightarrow> ('z ustate_scheme, nat option) kM" where
  "consoleread_loop 0 E user_dst target dst = return (Some 0)"
| "consoleread_loop (Suc n) E user_dst target dst =
    bind (cons_wait (Suc (e_fuel E)) E) (\<lambda>ready.
    if \<not> ready then seq (release KCons) (return None) else
    bind (gets (\<lambda>s. c_buf (cons s) (cons_slot (c_r (cons s))))) (\<lambda>c.
    seq (modify (upd_cons (\<lambda>b. b\<lparr>c_r := c_r b + 1\<rparr>)))
    (if c = 4 then
       seq (whenM (Suc n < target) (modify (upd_cons (\<lambda>b. b\<lparr>c_r := c_r b - 1\<rparr>))))
       (return (Some (Suc n)))
     else
       bind (either_copyout user_dst dst [c]) (\<lambda>r.
       if r = -1 then return (Some (Suc n)) else
       if c = 10 then return (Some n)
       else consoleread_loop n E user_dst target (dst + 1)))))"

definition consoleread :: "'z ustate_scheme env \<Rightarrow> bool \<Rightarrow> u64 \<Rightarrow> int \<Rightarrow> ('z ustate_scheme, int) kM" where
  "consoleread E user_dst dst n =
    seq (acquire KCons)
    (bind (consoleread_loop (nat n) E user_dst (nat n) dst) (\<lambda>r. case r of
      None \<Rightarrow> return (-1)
    | Some left \<Rightarrow> seq (release KCons) (return (int (nat n) - int left))))"

text \<open>Control-U erases back to the last newline or to the last position handed to readers,
  at most the \<open>cons.e - cons.w\<close> characters of the line being edited.\<close>

primrec cons_killline :: "nat \<Rightarrow> ('z ustate_scheme, unit) kM" where
  "cons_killline 0 = return ()"
| "cons_killline (Suc k) =
    bind (gets cons) (\<lambda>b.
    if c_e b \<noteq> c_w b \<and> c_buf b (cons_slot (c_e b - 1)) \<noteq> 10 then
      seq (modify (upd_cons (\<lambda>b. b\<lparr>c_e := c_e b - 1\<rparr>)))
      (seq (consputc BACKSPACE) (cons_killline k))
    else return ())"

text \<open>The \<^verbatim>\<open>switch\<close> of \<open>consoleintr\<close>, under the lock.\<close>

definition consoleintr_char :: "int \<Rightarrow> ('z ustate_scheme, unit) kM" where
  "consoleintr_char c =
    (if c = 0x10 then procdump
     else if c = 0x15 then bind (gets (\<lambda>s. unat (c_e (cons s) - c_w (cons s)))) cons_killline
     else if c = 0x08 \<or> c = 0x7f then
       bind (gets cons) (\<lambda>b.
       whenM (c_e b \<noteq> c_w b)
         (seq (modify (upd_cons (\<lambda>b. b\<lparr>c_e := c_e b - 1\<rparr>))) (consputc BACKSPACE)))
     else
       bind (gets cons) (\<lambda>b.
       whenM (c \<noteq> 0 \<and> c_e b - c_r b < INPUT_BUF_SIZE)
         (let c = (if c = 13 then 10 else c) in
          seq (consputc c)
          (seq (modify (upd_cons (\<lambda>b. b\<lparr>c_buf := (c_buf b)(cons_slot (c_e b) := word_of_int c), c_e := c_e b + 1\<rparr>)))
          (bind (gets cons) (\<lambda>b.
          whenM (c = 10 \<or> c = 4 \<or> c_e b - c_r b = INPUT_BUF_SIZE)
            (seq (modify (upd_cons (\<lambda>b. b\<lparr>c_w := c_e b\<rparr>)))
            (wakeup (Some ChCons)))))))))"

definition consoleintr :: "int \<Rightarrow> ('z ustate_scheme, unit) kM" where
  "consoleintr c = seq (acquire KCons) (seq (consoleintr_char c) (release KCons))"

primrec uartintr_input :: "nat \<Rightarrow> ('z ustate_scheme, unit) kM" where
  "uartintr_input 0 = hang"
| "uartintr_input (Suc n) =
    bind uartgetc (\<lambda>c. if c = -1 then return () else seq (consoleintr c) (uartintr_input n))"

definition uartintr :: "('z ustate_scheme, unit) kM" where
  "uartintr =
    seq (bind (gets u_fuel) uartintr_input)
    (seq (acquire KUart)
    (seq uartstart
    (release KUart)))"

text \<open>The entries of \<^verbatim>\<open>devsw\<close> for the console are \<open>consoleread\<close> and
  \<open>consolewrite\<close>; no other device is ever connected (see \<open>devsw_read\<close> in the file layer).\<close>

definition consoleinit :: "('z ustate_scheme, unit) kM" where
  "consoleinit = seq (modify (initlock KCons ''cons'')) uartinit"

section \<open>Critical sections and the console state\<close>

lemma ustate_acq [simp]:
  "uart_in (acq l s) = uart_in s"
  "(acq l s)\<lparr>uart_in := x0\<rparr> = acq l (s\<lparr>uart_in := x0\<rparr>)"
  "uart_nreads (acq l s) = uart_nreads s"
  "(acq l s)\<lparr>uart_nreads := x1\<rparr> = acq l (s\<lparr>uart_nreads := x1\<rparr>)"
  "uart_out (acq l s) = uart_out s"
  "(acq l s)\<lparr>uart_out := x2\<rparr> = acq l (s\<lparr>uart_out := x2\<rparr>)"
  "u_fuel (acq l s) = u_fuel s"
  "(acq l s)\<lparr>u_fuel := x3\<rparr> = acq l (s\<lparr>u_fuel := x3\<rparr>)"
  "uart_tx_buf (acq l s) = uart_tx_buf s"
  "(acq l s)\<lparr>uart_tx_buf := x4\<rparr> = acq l (s\<lparr>uart_tx_buf := x4\<rparr>)"
  "uart_tx_w (acq l s) = uart_tx_w s"
  "(acq l s)\<lparr>uart_tx_w := x5\<rparr> = acq l (s\<lparr>uart_tx_w := x5\<rparr>)"
  "uart_tx_r (acq l s) = uart_tx_r s"
  "(acq l s)\<lparr>uart_tx_r := x6\<rparr> = acq l (s\<lparr>uart_tx_r := x6\<rparr>)"
  "panicked (acq l s) = panicked s"
  "(acq l s)\<lparr>panicked := x7\<rparr> = acq l (s\<lparr>panicked := x7\<rparr>)"
  "pr_locking (acq l s) = pr_locking s"
  "(acq l s)\<lparr>pr_locking := x8\<rparr> = acq l (s\<lparr>pr_locking := x8\<rparr>)"
  "cons (acq l s) = cons s"
  "(acq l s)\<lparr>cons := x9\<rparr> = acq l (s\<lparr>cons := x9\<rparr>)"
  by (simp_all add: acq_def push_off_def hart_defs Let_def)

lemma ustate_settle [simp]:
  "uart_in (settle s) = uart_in s"
  "(settle s)\<lparr>uart_in := x0\<rparr> = settle (s\<lparr>uart_in := x0\<rparr>)"
  "uart_nreads (settle s) = uart_nreads s"
  "(settle s)\<lparr>uart_nreads := x1\<rparr> = settle (s\<lparr>uart_nreads := x1\<rparr>)"
  "uart_out (settle s) = uart_out s"
  "(settle s)\<lparr>uart_out := x2\<rparr> = settle (s\<lparr>uart_out := x2\<rparr>)"
  "u_fuel (settle s) = u_fuel s"
  "(settle s)\<lparr>u_fuel := x3\<rparr> = settle (s\<lparr>u_fuel := x3\<rparr>)"
  "uart_tx_buf (settle s) = uart_tx_buf s"
  "(settle s)\<lparr>uart_tx_buf := x4\<rparr> = settle (s\<lparr>uart_tx_buf := x4\<rparr>)"
  "uart_tx_w (settle s) = uart_tx_w s"
  "(settle s)\<lparr>uart_tx_w := x5\<rparr> = settle (s\<lparr>uart_tx_w := x5\<rparr>)"
  "uart_tx_r (settle s) = uart_tx_r s"
  "(settle s)\<lparr>uart_tx_r := x6\<rparr> = settle (s\<lparr>uart_tx_r := x6\<rparr>)"
  "panicked (settle s) = panicked s"
  "(settle s)\<lparr>panicked := x7\<rparr> = settle (s\<lparr>panicked := x7\<rparr>)"
  "pr_locking (settle s) = pr_locking s"
  "(settle s)\<lparr>pr_locking := x8\<rparr> = settle (s\<lparr>pr_locking := x8\<rparr>)"
  "cons (settle s) = cons s"
  "(settle s)\<lparr>cons := x9\<rparr> = settle (s\<lparr>cons := x9\<rparr>)"
  by (simp_all add: settle_def hart_defs)

lemma ustate_push [simp]:
  "uart_in (push_off s) = uart_in s"
  "(push_off s)\<lparr>uart_in := x0\<rparr> = push_off (s\<lparr>uart_in := x0\<rparr>)"
  "uart_nreads (push_off s) = uart_nreads s"
  "(push_off s)\<lparr>uart_nreads := x1\<rparr> = push_off (s\<lparr>uart_nreads := x1\<rparr>)"
  "uart_out (push_off s) = uart_out s"
  "(push_off s)\<lparr>uart_out := x2\<rparr> = push_off (s\<lparr>uart_out := x2\<rparr>)"
  "u_fuel (push_off s) = u_fuel s"
  "(push_off s)\<lparr>u_fuel := x3\<rparr> = push_off (s\<lparr>u_fuel := x3\<rparr>)"
  "uart_tx_buf (push_off s) = uart_tx_buf s"
  "(push_off s)\<lparr>uart_tx_buf := x4\<rparr> = push_off (s\<lparr>uart_tx_buf := x4\<rparr>)"
  "uart_tx_w (push_off s) = uart_tx_w s"
  "(push_off s)\<lparr>uart_tx_w := x5\<rparr> = push_off (s\<lparr>uart_tx_w := x5\<rparr>)"
  "uart_tx_r (push_off s) = uart_tx_r s"
  "(push_off s)\<lparr>uart_tx_r := x6\<rparr> = push_off (s\<lparr>uart_tx_r := x6\<rparr>)"
  "panicked (push_off s) = panicked s"
  "(push_off s)\<lparr>panicked := x7\<rparr> = push_off (s\<lparr>panicked := x7\<rparr>)"
  "pr_locking (push_off s) = pr_locking s"
  "(push_off s)\<lparr>pr_locking := x8\<rparr> = push_off (s\<lparr>pr_locking := x8\<rparr>)"
  "cons (push_off s) = cons s"
  "(push_off s)\<lparr>cons := x9\<rparr> = push_off (s\<lparr>cons := x9\<rparr>)"
  by (simp_all add: push_off_def hart_defs Let_def)

lemma ustate_ok [simp]:
  "hart_ok (s\<lparr>uart_in := x0\<rparr>) = hart_ok s" "lock_free l (s\<lparr>uart_in := x0\<rparr>) = lock_free l s" "mycpu (s\<lparr>uart_in := x0\<rparr>) = mycpu s"
  "intr_get (s\<lparr>uart_in := x0\<rparr>) = intr_get s"
  "hart_ok (s\<lparr>uart_nreads := x1\<rparr>) = hart_ok s" "lock_free l (s\<lparr>uart_nreads := x1\<rparr>) = lock_free l s" "mycpu (s\<lparr>uart_nreads := x1\<rparr>) = mycpu s"
  "intr_get (s\<lparr>uart_nreads := x1\<rparr>) = intr_get s"
  "hart_ok (s\<lparr>uart_out := x2\<rparr>) = hart_ok s" "lock_free l (s\<lparr>uart_out := x2\<rparr>) = lock_free l s" "mycpu (s\<lparr>uart_out := x2\<rparr>) = mycpu s"
  "intr_get (s\<lparr>uart_out := x2\<rparr>) = intr_get s"
  "hart_ok (s\<lparr>u_fuel := x3\<rparr>) = hart_ok s" "lock_free l (s\<lparr>u_fuel := x3\<rparr>) = lock_free l s" "mycpu (s\<lparr>u_fuel := x3\<rparr>) = mycpu s"
  "intr_get (s\<lparr>u_fuel := x3\<rparr>) = intr_get s"
  "hart_ok (s\<lparr>uart_tx_buf := x4\<rparr>) = hart_ok s" "lock_free l (s\<lparr>uart_tx_buf := x4\<rparr>) = lock_free l s" "mycpu (s\<lparr>uart_tx_buf := x4\<rparr>) = mycpu s"
  "intr_get (s\<lparr>uart_tx_buf := x4\<rparr>) = intr_get s"
  "hart_ok (s\<lparr>uart_tx_w := x5\<rparr>) = hart_ok s" "lock_free l (s\<lparr>uart_tx_w := x5\<rparr>) = lock_free l s" "mycpu (s\<lparr>uart_tx_w := x5\<rparr>) = mycpu s"
  "intr_get (s\<lparr>uart_tx_w := x5\<rparr>) = intr_get s"
  "hart_ok (s\<lparr>uart_tx_r := x6\<rparr>) = hart_ok s" "lock_free l (s\<lparr>uart_tx_r := x6\<rparr>) = lock_free l s" "mycpu (s\<lparr>uart_tx_r := x6\<rparr>) = mycpu s"
  "intr_get (s\<lparr>uart_tx_r := x6\<rparr>) = intr_get s"
  "hart_ok (s\<lparr>panicked := x7\<rparr>) = hart_ok s" "lock_free l (s\<lparr>panicked := x7\<rparr>) = lock_free l s" "mycpu (s\<lparr>panicked := x7\<rparr>) = mycpu s"
  "intr_get (s\<lparr>panicked := x7\<rparr>) = intr_get s"
  "hart_ok (s\<lparr>pr_locking := x8\<rparr>) = hart_ok s" "lock_free l (s\<lparr>pr_locking := x8\<rparr>) = lock_free l s" "mycpu (s\<lparr>pr_locking := x8\<rparr>) = mycpu s"
  "intr_get (s\<lparr>pr_locking := x8\<rparr>) = intr_get s"
  "hart_ok (s\<lparr>cons := x9\<rparr>) = hart_ok s" "lock_free l (s\<lparr>cons := x9\<rparr>) = lock_free l s" "mycpu (s\<lparr>cons := x9\<rparr>) = mycpu s"
  "intr_get (s\<lparr>cons := x9\<rparr>) = intr_get s"
  by (simp_all add: hart_ok_def lock_free_def hart_defs)

lemma ustate_ready [simp]:
  "procs_ready (s\<lparr>uart_in := x0\<rparr>) = procs_ready s"
  "procs_ready (s\<lparr>uart_nreads := x1\<rparr>) = procs_ready s"
  "procs_ready (s\<lparr>uart_out := x2\<rparr>) = procs_ready s"
  "procs_ready (s\<lparr>u_fuel := x3\<rparr>) = procs_ready s"
  "procs_ready (s\<lparr>uart_tx_buf := x4\<rparr>) = procs_ready s"
  "procs_ready (s\<lparr>uart_tx_w := x5\<rparr>) = procs_ready s"
  "procs_ready (s\<lparr>uart_tx_r := x6\<rparr>) = procs_ready s"
  "procs_ready (s\<lparr>panicked := x7\<rparr>) = procs_ready s"
  "procs_ready (s\<lparr>pr_locking := x8\<rparr>) = procs_ready s"
  "procs_ready (s\<lparr>cons := x9\<rparr>) = procs_ready s"
  by (simp_all add: procs_ready_def)

section \<open>Output\<close>

text \<open>The device is ready whenever it is asked, and nothing has panicked.\<close>

definition uart_ready :: "'z ustate_scheme \<Rightarrow> bool" where
  "uart_ready s \<longleftrightarrow> (\<forall>k. uart_in s k LSR AND LSR_TX_IDLE \<noteq> 0) \<and> u_fuel s \<noteq> 0 \<and> \<not> panicked s"

lemma uart_ready_simps [simp]:
  "uart_ready (settle s) = uart_ready s" "uart_ready (acq l s) = uart_ready s"
  "uart_ready (s\<lparr>uart_out := x\<rparr>) = uart_ready s" "uart_ready (s\<lparr>uart_nreads := k\<rparr>) = uart_ready s"
  by (simp_all add: uart_ready_def)

text \<open>The bytes \<open>bs\<close> have gone out: one write to the transmit register for each, after one read
  of the status.\<close>

definition emit :: "u8 list \<Rightarrow> 'z ustate_scheme \<Rightarrow> 'z ustate_scheme" where
  "emit bs s = s\<lparr>uart_nreads := uart_nreads s + length bs, uart_out := uart_out s @ map (Pair THR) bs\<rparr>"

lemma emit_simps [simp]:
  "hart_ok (emit bs s) = hart_ok s" "uart_ready (emit bs s) = uart_ready s"
  "lock_free l (emit bs s) = lock_free l s" "emit bs (settle s) = settle (emit bs s)"
  "emit bs (acq l s) = acq l (emit bs s)" "emit [] s = s" "pr_locking (emit bs s) = pr_locking s"
  "emit bs (emit cs s) = emit (cs @ bs) s"
  by (simp_all add: emit_def ac_simps)

lemma uartputc_sync_eq:
  assumes "hart_ok s" "uart_ready s"
  shows "uartputc_sync c s = Ret ((), settle (emit [word_of_int c] s))"
proof -
  obtain n where n: "u_fuel s = Suc n" using assms(2) by (auto simp: uart_ready_def gr0_conv_Suc)
  have "uart_in s k LSR AND LSR_TX_IDLE \<noteq> 0" for k using assms(2) by (simp add: uart_ready_def)
  moreover have "\<not> panicked s" using assms(2) by (simp add: uart_ready_def)
  ultimately show ?thesis
    using assms(1) n
    by (simp add: uartputc_sync_def kM_simps ReadReg_def WriteReg_def emit_def pop_push)
qed

lemma consputc_eq:
  assumes "hart_ok s" "uart_ready s" "c \<noteq> BACKSPACE"
  shows "consputc c s = Ret ((), settle (emit [word_of_int c] s))"
  using assms by (simp add: consputc_def uartputc_sync_eq)

lemma consputc_list:
  assumes "hart_ok s" "uart_ready s" "cs \<noteq> []" "\<forall>c \<in> set cs. f c \<noteq> BACKSPACE"
  shows "for_each cs (\<lambda>c. consputc (f c)) s = Ret ((), settle (emit (map (\<lambda>c. word_of_int (f c)) cs) s))"
  using assms
proof (induction cs arbitrary: s)
  case (Cons c cs)
  then show ?case by (cases "cs = []") (simp_all add: kM_simps consputc_eq)
qed simp


section \<open>What printf writes\<close>

text \<open>The reference: a number in a base as a string of digits without leading zeros, an address as
  sixteen hexadecimal digits, and the text of a format with its arguments.\<close>

fun num_text :: "nat \<Rightarrow> nat \<Rightarrow> string" where
  "num_text b n = (if n < b \<or> b < 2 then [digits ! n] else num_text b (n div b) @ [digits ! (n mod b)])"

declare num_text.simps [simp del]

definition int_text :: "nat \<Rightarrow> int \<Rightarrow> string" where
  "int_text b x = (if x < 0 then ''-'' else []) @ num_text b (nat \<bar>x\<bar>)"

definition ptr_text :: "u64 \<Rightarrow> string" where
  "ptr_text x = ''0x'' @ map (\<lambda>i. digits ! (unat x div 16 ^ (15 - i) mod 16)) [0..<16]"

definition bytes :: "string \<Rightarrow> u8 list" where
  "bytes cs = map of_char cs"

fun format_text :: "string \<Rightarrow> arg list \<Rightarrow> u8 list" where
  "format_text [] args = []"
| "format_text (c # fmt) args =
    (if c \<noteq> CHR ''%'' then bytes [c] @ format_text fmt args else
     (case fmt of
       [] \<Rightarrow> []
     | c # fmt \<Rightarrow>
       (if c = CHR ''d'' then bytes (int_text 10 (va_int (va_arg args))) @ format_text fmt (tl args)
        else if c = CHR ''x'' then bytes (int_text 16 (va_int (va_arg args))) @ format_text fmt (tl args)
        else if c = CHR ''p'' then bytes (ptr_text (va_ptr (va_arg args))) @ format_text fmt (tl args)
        else if c = CHR ''s'' then va_str (va_arg args) @ format_text fmt (tl args)
        else if c = CHR ''%'' then bytes ''%'' @ format_text fmt args
        else bytes [CHR ''%'', c] @ format_text fmt args)))"

lemma char_code_word [simp]: "word_of_int (char_code c) = (of_char c :: u8)"
  by (simp add: char_code_def of_char_def) 

lemma char_code_no_backspace [simp]: "char_code c \<noteq> BACKSPACE"
proof -
  have "char_code c < 256" by (simp add: char_code_def of_char_def horner_sum_bound)
  then show ?thesis by (simp add: BACKSPACE_def)
qed

lemma print_digits_text:
  assumes "2 \<le> b" "unat x < unat b ^ n" "0 < n"
  shows "rev (print_digits n x b) = num_text (unat b) (unat x)"
  using assms
proof (induction n arbitrary: x)
  case (Suc n)
  have b: "2 \<le> unat b" using Suc.prems(1) by (simp add: word_le_nat_alt)
  show ?case
  proof (cases "x div b = 0")
    case True
    then have "unat x div unat b = 0" by (metis unat_0 unat_div)
    then have "unat x < unat b" using b by (simp add: div_eq_0_iff)
    then show ?thesis using True by (simp add: num_text.simps [of "unat b" "unat x"] unat_mod)
  next
    case False
    then have d: "unat x div unat b \<noteq> 0" by (metis unat_div unat_eq_zero)
    then have big: "\<not> unat x < unat b" by auto
    have "unat (x div b) < unat b ^ n"
      using Suc.prems(2) b by (simp add: unat_div less_mult_imp_div_less mult.commute)
    moreover have "0 < n" using big Suc.prems(2) by (cases n) auto
    ultimately show ?thesis
      using Suc.IH [of "x div b"] False big b Suc.prems(1)
      by (simp add: num_text.simps [of "unat b" "unat x"] unat_mod unat_div)
  qed
qed simp

lemma unat_of_int32: "0 \<le> y \<Longrightarrow> y < 2 ^ 32 \<Longrightarrow> unat (of_int y :: u32) = nat y"
  by (simp add: unsigned_of_int take_bit_int_eq_self)

lemma printint_text:
  assumes "2 \<le> b" "- (2 ^ 31) \<le> x" "x < 2 ^ 31"
  shows "rev (printint_buf x b True) = int_text (unat b) x"
proof -
  have b: "2 \<le> unat b" using assms(1) by (simp add: word_le_nat_alt)
  have fuel: "unat y < unat b ^ 32" for y :: u32
  proof -
    have "unat y < 2 ^ 32" using unsigned_less [of y] by simp
    also have "\<dots> \<le> unat b ^ 32" using power_mono [OF b, of 32] by simp
    finally show ?thesis .
  qed
  have neg: "unat (- of_int x :: u32) = nat \<bar>x\<bar>" if "x < 0"
  proof -
    have "(- of_int x :: u32) = of_int (- x)" by simp
    also have "unat \<dots> = nat (- x)" using that assms by (intro unat_of_int32) simp_all
    finally show ?thesis using that by simp
  qed
  have pos: "unat (of_int x :: u32) = nat \<bar>x\<bar>" if "\<not> x < 0"
    using that assms by (subst unat_of_int32) simp_all
  show ?thesis
    using print_digits_text [OF assms(1) fuel] neg pos
    by (simp add: printint_buf_def int_text_def Let_def)
qed

lemma nibble:
  fixes x :: u64
  assumes "i < 16"
  shows "unat (drop_bit 60 (push_bit (4 * i) x)) = unat x div 16 ^ (15 - i) mod 16"
proof -
  have e: "60 - 4 * i = 4 * (15 - i)" using assms by simp
  have f: "n + 60 - 4 * i = n + 4 * (15 - i)" for n using assms by simp
  have "drop_bit 60 (push_bit (4 * i) x) = take_bit 4 (drop_bit (60 - 4 * i) x)"
    using assms by (intro bit_word_eqI) (auto simp: bit_simps e f add.commute dest: bit_imp_le_length)
  moreover have "take_bit 64 (unat x) = unat x"
  proof (rule take_bit_nat_eq_self)
    show "unat x < 2 ^ 64" using unsigned_less [of x] by simp
  qed
  ultimately have "unat (drop_bit 60 (push_bit (4 * i) x)) = take_bit 4 (drop_bit (4 * (15 - i)) (unat x))"
    by (simp add: unsigned_take_bit_eq unsigned_drop_bit_eq e)
  also have "\<dots> = unat x div 2 ^ (4 * (15 - i)) mod 2 ^ 4"
    by (simp only: take_bit_eq_mod drop_bit_eq_div)
  finally show ?thesis by (simp add: power_mult)
qed

lemma printint_acq:
  assumes "hart_ok s" "uart_ready s" "2 \<le> b" "- (2 ^ 31) \<le> x" "x < 2 ^ 31"
  shows "printint x b True (acq l s) = Ret ((), acq l (emit (bytes (int_text (unat b) x)) s))"
proof -
  have ne: "int_text (unat b) x \<noteq> []" by (simp add: int_text_def num_text.simps)
  show ?thesis
    using consputc_list [of "acq l s" "int_text (unat b) x" char_code] assms ne
    by (simp add: printint_def printint_text bytes_def)
qed

lemma printptr_acq:
  assumes "hart_ok s" "uart_ready s"
  shows "printptr x (acq l s) = Ret ((), acq l (emit (bytes (ptr_text x)) s))"
proof -
  let ?f = "\<lambda>i. char_code (digits ! unat (drop_bit 60 (push_bit (4 * i) x)))"
  let ?s = "acq l (emit (bytes ''0x'') s)"
  have m: "map (\<lambda>i. word_of_int (?f i) :: u8) [0..<16]
      = map of_char (map (\<lambda>i. digits ! (unat x div 16 ^ (15 - i) mod 16)) [0..<16])"
    by (simp add: nibble del: upt_rec_numeral)
  have "for_each [0..<16] (\<lambda>i. consputc (?f i)) ?s =
      Ret ((), settle (emit (map (\<lambda>i. word_of_int (?f i)) [0..<16]) ?s))"
    by (rule consputc_list) (use assms in simp_all)
  then show ?thesis unfolding m using assms
    by (simp add: printptr_def kM_simps consputc_eq ptr_text_def bytes_def del: upt_rec_numeral)
qed

text \<open>The arguments are values of C type \<^verbatim>\<open>int\<close>.\<close>

definition int_args :: "arg list \<Rightarrow> bool" where
  "int_args args \<longleftrightarrow> (\<forall>x. AInt x \<in> set args \<longrightarrow> - (2 ^ 31) \<le> x \<and> x < 2 ^ 31)"

lemma int_args_va: "int_args args \<Longrightarrow> - (2 ^ 31) \<le> va_int (va_arg args) \<and> va_int (va_arg args) < 2 ^ 31"
proof -
  assume a: "int_args args"
  have "- (2 ^ 31) \<le> sint (ucast v :: u32)" "sint (ucast v :: u32) < 2 ^ 31" for v :: u64
    using sint_greater_eq [of "ucast v :: u32"] sint_less [of "ucast v :: u32"] by simp_all
  then show ?thesis using a
    by (auto simp: int_args_def va_arg_def va_int_def split: list.split arg.split)
qed

lemma int_args_tl: "int_args args \<Longrightarrow> int_args (tl args)"
  by (cases args) (auto simp: int_args_def)

lemma consputc_str:
  assumes "hart_ok s" "uart_ready s"
  shows "for_each bs (\<lambda>b. consputc (uint b)) (acq l s) = Ret ((), acq l (emit bs s))"
proof (cases "bs = []")
  case True
  then show ?thesis by (simp add: kM_simps)
next
  case False
  have lt: "uint b < 2 ^ 8" for b :: u8 using unsigned_less [of b] by simp
  have "uint b \<noteq> BACKSPACE" for b :: u8 using lt [of b] by (simp add: BACKSPACE_def)
  then show ?thesis using consputc_list [of "acq l s" bs uint] False assms by simp
qed

lemma printf_loop_eq:
  assumes "hart_ok s" "uart_ready s" "int_args args"
  shows "printf_loop fmt args (acq l s) = Ret ((), acq l (emit (format_text fmt args) s))"
  using assms
proof (induction fmt args arbitrary: s rule: printf_loop.induct)
  case (1 args)
  then show ?case by (simp add: kM_simps)
next
  case (2 c fmt args)
  note va = int_args_va [OF "2.prems"(3)] int_args_tl [OF "2.prems"(3)]
  show ?case
  proof (cases "c = CHR ''%''")
    case False
    then show ?thesis using "2.IH"(1) [OF False, of "emit (bytes [c]) s"] "2.prems"
      by (simp add: kM_simps consputc_eq bytes_def)
  next
    case True
    show ?thesis
    proof (cases fmt)
      case Nil
      then show ?thesis using True by (simp add: kM_simps)
    next
      case (Cons d fmt')
      note IH = "2.IH"(2-7) [OF _ Cons, unfolded True, simplified]
      show ?thesis
        using True Cons "2.prems" va
        by (auto simp: kM_simps consputc_eq consputc_str printint_acq printptr_acq bytes_def IH)
    qed
  qed
qed

text \<open>C36. \<open>printf\<close> writes exactly the text that its format and arguments describe: on a
  device that is ready, with the print lock free, it returns, and the bytes sent to the transmit
  register are those of \<open>format_text\<close>, where \<^verbatim>\<open>%d\<close> and \<^verbatim>\<open>%x\<close> give the number in
  the base without leading zeros, also for the least integer, and \<^verbatim>\<open>%p\<close> the sixteen
  hexadecimal digits of an address. It leaves the locks and the interrupt state as they were.\<close>

theorem printf_output:
  assumes "hart_ok s" "uart_ready s" "int_args args" "pr_locking s" "lock_free KPr s"
  shows "printf fmt args s = Ret ((), settle (emit (format_text fmt args) s))"
  using assms printf_loop_eq [of s args fmt KPr]
  by (simp add: printf_def crit)

definition quiet_ustate :: "(nat \<Rightarrow> proc) \<Rightarrow> nat option \<Rightarrow> ustate" where
  "quiet_ustate ps ip = pstate.extend (quiet_pstate ps ip) \<lparr>uart_in = (\<lambda>_ _. LSR_TX_IDLE), uart_nreads = 0, uart_out = [],
     u_fuel = 1, uart_tx_buf = (\<lambda>_. 0), uart_tx_w = 0, uart_tx_r = 0, panicked = False, pr_locking = True,
     cons = \<lparr>c_buf = (\<lambda>_. 0), c_r = 0, c_w = 0, c_e = 0\<rparr>\<rparr>"

lemma quiet_ustate_ok [simp]:
  "hart_ok (quiet_ustate f me)" "lock_free l (quiet_ustate f me)" "uart_ready (quiet_ustate f me)"
  "pr_locking (quiet_ustate f me)" "uart_out (quiet_ustate f me) = []" "procs_ready (quiet_ustate f me)"
  "cproc (mycpu (quiet_ustate f me)) = me" "noff (mycpu (quiet_ustate f me)) = 0" "proc (quiet_ustate f me) = f"
  by (simp_all add: quiet_ustate_def pstate.defs quiet_pstate_def hart_ok_def lock_free_def hart_defs
      uart_ready_def LSR_TX_IDLE_def procs_ready_def)

theorem printf_output_witness:
  "\<exists>s'. printf ''%d:%x%s'' [AInt (-42), AInt 255, AStr (Some [10])] (quiet_ustate (\<lambda>_. blank_proc) None) = Ret ((), s')
     \<and> uart_out s' = map (Pair THR) [0x2d, 0x34, 0x32, 0x3a, 0x66, 0x66, 10]"
  using printf_output [of "quiet_ustate (\<lambda>_. blank_proc) None" "[AInt (-42), AInt 255, AStr (Some [10])]" "''%d:%x%s''"]
  by (simp add: int_args_def emit_def bytes_def va_arg_def va_int_def va_str_def int_text_def num_text.simps digits_def)

section \<open>The line editor\<close>

text \<open>What the input buffer holds: the bytes that are ready for readers, and the line that is
  still being edited.\<close>

definition cons_lines :: "consbuf \<Rightarrow> u8 list \<times> u8 list" where
  "cons_lines b = (wring 128 (c_buf b) (c_r b) (c_w b), wring 128 (c_buf b) (c_w b) (c_e b))"

definition cons_ok :: "consbuf \<Rightarrow> bool" where
  "cons_ok b \<longleftrightarrow> unat (c_w b - c_r b) \<le> unat (c_e b - c_r b) \<and> unat (c_e b - c_r b) \<le> 128
     \<and> 10 \<notin> set (snd (cons_lines b))"

definition line_edit :: "int \<Rightarrow> u8 list \<times> u8 list \<Rightarrow> u8 list \<times> u8 list" where
  "line_edit c l =
    (let (done, cur) = l in
     if c = 0x15 then (done, [])
     else if c = 0x08 \<or> c = 0x7f then (done, butlast cur)
     else if c = 0 \<or> length done + length cur \<ge> 128 then (done, cur)
     else let x = (if c = 13 then 10 else word_of_int c); cur' = cur @ [x] in
       if x = 10 \<or> x = 4 \<or> length done + length cur' = 128 then (done @ cur', []) else (done, cur'))"

lemma ring_128: "ring_size TYPE(32) 128"
  by (simp add: ring_size_def)

lemma cons_slot_eq: "cons_slot i = unat i mod 128"
  by (simp add: cons_slot_def INPUT_BUF_SIZE_def unat_mod)

lemma cons_okD:
  assumes "cons_ok b"
  shows "unat (c_e b - c_r b) = unat (c_w b - c_r b) + unat (c_e b - c_w b)"
    and "wring 128 (c_buf b) (c_r b) (c_e b) = fst (cons_lines b) @ snd (cons_lines b)"
    and "length (fst (cons_lines b)) + length (snd (cons_lines b)) = unat (c_e b - c_r b)"
proof -
  have le: "unat (c_w b - c_r b) \<le> unat (c_e b - c_r b)" using assms by (simp add: cons_ok_def)
  from wring_append [OF ring_128 this] show a: "wring 128 (c_buf b) (c_r b) (c_e b) = fst (cons_lines b) @ snd (cons_lines b)"
    by (simp add: cons_lines_def)
  have "length (wring 128 (c_buf b) (c_r b) (c_e b)) = length (fst (cons_lines b)) + length (snd (cons_lines b))"
    unfolding a by simp
  then show "length (fst (cons_lines b)) + length (snd (cons_lines b)) = unat (c_e b - c_r b)" by simp
  then show "unat (c_e b - c_r b) = unat (c_w b - c_r b) + unat (c_e b - c_w b)" by (simp add: cons_lines_def)
qed

text \<open>The three changes that \<open>consoleintr\<close> makes to the buffer.\<close>

lemma cons_erase:
  assumes "cons_ok b" "c_e b \<noteq> c_w b"
  shows "cons_ok (b\<lparr>c_e := c_e b - 1\<rparr>)
    \<and> cons_lines (b\<lparr>c_e := c_e b - 1\<rparr>) = (fst (cons_lines b), butlast (snd (cons_lines b)))"
proof -
  have l: "cons_lines (b\<lparr>c_e := c_e b - 1\<rparr>) = (fst (cons_lines b), butlast (snd (cons_lines b)))"
    using wring_unpush [of "c_w b" "c_e b"] assms(2) by (auto simp: cons_lines_def)
  have ew: "unat (c_e b - c_w b) \<noteq> 0" using assms(2) by (metis eq_iff_diff_eq_0 unat_eq_zero)
  then have er: "unat (c_e b - c_r b) \<noteq> 0" using cons_okD(1) [OF assms(1)] by linarith
  have "c_e b - 1 - c_r b = (c_e b - c_r b) - 1" by simp
  then have "unat (c_e b - 1 - c_r b) = unat (c_e b - c_r b) - 1"
    using er by (metis unat_0 unat_minus_one)
  then show ?thesis
    using assms(1) l cons_okD(1) [OF assms(1)] ew by (auto simp: cons_ok_def dest: in_set_butlastD)
qed

lemma cons_push:
  assumes "cons_ok b" "c_e b - c_r b < 128" and a'_def: "a' = (c_buf b)(cons_slot (c_e b) := x)"
  shows "wring 128 a' (c_r b) (c_w b) = fst (cons_lines b)"
    and "wring 128 a' (c_w b) (c_e b + 1) = snd (cons_lines b) @ [x]"
    and "wring 128 a' (c_r b) (c_e b + 1) = fst (cons_lines b) @ snd (cons_lines b) @ [x]"
    and "unat (c_e b + 1 - c_r b) = Suc (unat (c_e b - c_r b))"
proof -
  have lt: "unat (c_e b - c_r b) < 128" using assms(2) by (simp add: word_less_nat_alt)
  then have lt': "unat (c_e b - c_w b) < 128" using cons_okD(1) [OF assms(1)] by linarith
  show w: "wring 128 a' (c_w b) (c_e b + 1) = snd (cons_lines b) @ [x]"
    using wring_push [OF ring_128 lt'] by (simp add: a'_def cons_slot_eq cons_lines_def)
  show r: "wring 128 a' (c_r b) (c_e b + 1) = fst (cons_lines b) @ snd (cons_lines b) @ [x]"
    using wring_push [OF ring_128 lt, of "c_buf b" x] cons_okD(2) [OF assms(1)] by (simp add: a'_def cons_slot_eq)
  show n: "unat (c_e b + 1 - c_r b) = Suc (unat (c_e b - c_r b))"
    by (rule unat_succ_diff [OF lt ring_128])
  have "unat (c_w b - c_r b) \<le> unat (c_e b + 1 - c_r b)"
    using n assms(1) by (simp add: cons_ok_def)
  from wring_append [OF ring_128 this, of a'] show "wring 128 a' (c_r b) (c_w b) = fst (cons_lines b)"
    unfolding w r by simp
qed

lemma cons_append:
  assumes "cons_ok b" "c_e b - c_r b < 128" "x \<noteq> 10"
    and "b' = b\<lparr>c_buf := (c_buf b)(cons_slot (c_e b) := x), c_e := c_e b + 1\<rparr>"
  shows "cons_ok b' \<and> cons_lines b' = (fst (cons_lines b), snd (cons_lines b) @ [x])"
proof -
  have l: "cons_lines b' = (fst (cons_lines b), snd (cons_lines b) @ [x])"
    using cons_push [OF assms(1,2) refl] by (simp add: cons_lines_def assms(4))
  have "unat (c_e b - c_r b) < 128" using assms(2) by (simp add: word_less_nat_alt)
  then show ?thesis
    using l assms(1,3) cons_push(4) [OF assms(1,2) refl] by (simp add: cons_ok_def) (simp add: assms(4))
qed

lemma cons_commit:
  assumes "cons_ok b" "c_e b - c_r b < 128"
    and "b' = b\<lparr>c_buf := (c_buf b)(cons_slot (c_e b) := x), c_e := c_e b + 1, c_w := c_e b + 1\<rparr>"
  shows "cons_ok b' \<and> cons_lines b' = (fst (cons_lines b) @ snd (cons_lines b) @ [x], [])"
proof -
  have l: "cons_lines b' = (fst (cons_lines b) @ snd (cons_lines b) @ [x], [])"
    using cons_push(3) [OF assms(1,2) refl] by (simp add: cons_lines_def assms(3))
  have "unat (c_e b - c_r b) < 128" using assms(2) by (simp add: word_less_nat_alt)
  then show ?thesis
    using l cons_push(4) [OF assms(1,2) refl] by (simp add: cons_ok_def) (simp add: assms(3))
qed

lemma procs_ready_acq:
  "procs_ready s \<Longrightarrow> (\<And>p. l \<noteq> KProc p) \<Longrightarrow> procs_ready (acq l s)"
  by (auto simp: procs_ready_def)

lemma emit_more [simp]:
  "cons (emit bs s) = cons s" "proc (emit bs s) = proc s" "procs_ready (emit bs s) = procs_ready s"
  "(emit bs s)\<lparr>cons := b\<rparr> = emit bs (s\<lparr>cons := b\<rparr>)" "(emit bs s)\<lparr>proc := f\<rparr> = emit bs (s\<lparr>proc := f\<rparr>)"
  "mycpu (emit bs s) = mycpu s" "uart_ready (s\<lparr>cons := b\<rparr>) = uart_ready s" "uart_ready (s\<lparr>proc := f\<rparr>) = uart_ready s"
  by (simp_all add: emit_def uart_ready_def)

lemma consputc_backspace:
  assumes "hart_ok s" "uart_ready s"
  shows "consputc BACKSPACE (acq l s) = Ret ((), acq l (emit [8, 32, 8] s))"
  using assms by (simp add: consputc_def kM_simps uartputc_sync_eq)

lemma cons_killline_eq:
  assumes "hart_ok s" "uart_ready s" "cons_ok (cons s)" "unat (c_e (cons s) - c_w (cons s)) = k"
  shows "\<exists>bs b. cons_killline k (acq l s) = Ret ((), acq l (emit bs (s\<lparr>cons := b\<rparr>)))
    \<and> cons_ok b \<and> cons_lines b = (fst (cons_lines (cons s)), [])"
  using assms
proof (induction k arbitrary: s)
  case 0
  then have "c_e (cons s) = c_w (cons s)" by (metis eq_iff_diff_eq_0 unat_eq_zero)
  then have "cons_killline 0 (acq l s) = Ret ((), acq l (emit [] (s\<lparr>cons := cons s\<rparr>)))
     \<and> cons_ok (cons s) \<and> cons_lines (cons s) = (fst (cons_lines (cons s)), [])"
    using 0 by (simp add: kM_simps cons_lines_def)
  then show ?case by blast
next
  case (Suc k)
  let ?b = "cons s" and ?b1 = "(cons s)\<lparr>c_e := c_e (cons s) - 1\<rparr>"
  let ?s1 = "emit [8, 32, 8] (s\<lparr>cons := ?b1\<rparr>)"
  have ne: "c_e ?b \<noteq> c_w ?b" using Suc.prems(4) by auto
  have e1: "cons_ok ?b1" "cons_lines ?b1 = (fst (cons_lines ?b), butlast (snd (cons_lines ?b)))"
    using cons_erase [OF Suc.prems(3) ne] by auto
  have "unat (c_e ?b1 - c_w ?b1) = length (snd (cons_lines ?b1))" by (simp add: cons_lines_def)
  also have "\<dots> = k" using e1(2) Suc.prems(4) by (simp add: cons_lines_def)
  finally have k: "unat (c_e ?b1 - c_w ?b1) = k" .
  have "last (snd (cons_lines ?b)) = c_buf ?b (cons_slot (c_e ?b - 1))"
    using wring_last [OF ring_128 ne [symmetric]] by (simp add: cons_lines_def cons_slot_eq)
  moreover have "snd (cons_lines ?b) \<noteq> []" using Suc.prems(4) by (metis cons_lines_def length_0_conv length_wring nat.distinct(1) snd_conv)
  ultimately have nl: "c_buf ?b (cons_slot (c_e ?b - 1)) \<noteq> 10"
    using Suc.prems(3) by (metis cons_ok_def last_in_set)
  from Suc.IH [of ?s1] k e1 Suc.prems obtain bs b where
    "cons_killline k (acq l ?s1) = Ret ((), acq l (emit bs (?s1\<lparr>cons := b\<rparr>)))"
    "cons_ok b" "cons_lines b = (fst (cons_lines ?b), [])" by auto
  then show ?case
    using ne nl Suc.prems(1,2)
    by (intro exI [of _ "[8, 32, 8] @ bs"] exI [of _ b])
       (simp add: kM_simps upd_cons_def consputc_backspace)
qed

text \<open>What \<open>consoleintr\<close> does to the buffer, the processes and the screen.\<close>

lemma consoleintr_store:
  assumes "procs_ready s" "uart_ready s" "cons_ok (cons s)" "0 < c" "c < 256"
    "c_e (cons s) - c_r (cons s) < 128" "c \<notin> {0x10, 0x15, 0x08, 0x7f}"
  shows "\<exists>bs ps b. consoleintr_char c (acq KCons s) = Ret ((), acq KCons (emit bs (s\<lparr>cons := b, proc := ps\<rparr>)))
    \<and> cons_ok b \<and> cons_lines b = line_edit c (cons_lines (cons s))"
proof -
  define c' where "c' = (if c = 13 then 10 else c)"
  define x where "x = (word_of_int c' :: u8)"
  let ?b = "cons s"
  let ?b1 = "?b\<lparr>c_buf := (c_buf ?b)(cons_slot (c_e ?b) := x), c_e := c_e ?b + 1\<rparr>"
  let ?b2 = "?b1\<lparr>c_w := c_e ?b + 1\<rparr>"
  let ?s1 = "emit [x] (s\<lparr>cons := ?b1\<rparr>)"
  have ok: "hart_ok s" using assms(1) by (rule procs_readyD)
  have c': "0 < c'" "c' < 256" "c' \<noteq> BACKSPACE" using assms(4,5) by (auto simp: c'_def BACKSPACE_def)
  have ux: "uint x = c'" using c'(1,2) by (simp add: x_def unsigned_of_int take_bit_int_eq_self)
  have x10: "x = 10 \<longleftrightarrow> c' = 10" and x4: "x = 4 \<longleftrightarrow> c' = 4"
    using ux by (auto simp: x_def)
  have "c_e ?b1 - c_r ?b1 = 128 \<longleftrightarrow> unat (c_e ?b + 1 - c_r ?b) = unat (128 :: u32)"
    by (simp add: word_unat_eq_iff)
  then have full: "c_e ?b1 - c_r ?b1 = 128 \<longleftrightarrow> length (fst (cons_lines ?b)) + length (snd (cons_lines ?b) @ [x]) = 128"
    using cons_push(4) [OF assms(3,6) refl] cons_okD(3) [OF assms(3)] by simp
  have room: "\<not> 128 \<le> length (fst (cons_lines ?b)) + length (snd (cons_lines ?b))"
    using assms(6) cons_okD(3) [OF assms(3)] by (simp add: word_less_nat_alt)
  let ?stop = "c' = 10 \<or> c' = 4 \<or> c_e ?b1 - c_r ?b1 = 128"
  have body: "consoleintr_char c (acq KCons s) =
     (if ?stop then seq (modify (upd_cons (\<lambda>b. b\<lparr>c_w := c_e b\<rparr>))) (wakeup (Some ChCons)) (acq KCons ?s1)
      else Ret ((), acq KCons ?s1))"
    using assms(2,4,6,7) ok c'(3)
    by (simp add: consoleintr_char_def kM_simps INPUT_BUF_SIZE_def c'_def [symmetric] consputc_eq x_def [symmetric] upd_cons_def)
  have edit: "line_edit c (cons_lines ?b) =
     (if ?stop then (fst (cons_lines ?b) @ snd (cons_lines ?b) @ [x], []) else (fst (cons_lines ?b), snd (cons_lines ?b) @ [x]))"
    using assms(4,7) room x10 x4 full
    by (auto simp: line_edit_def split_beta Let_def x_def c'_def split: if_splits)
  show ?thesis
  proof (cases ?stop)
    case True
    let ?ps = "wake_all (Some ChCons) (cproc (mycpu s)) (proc s)"
    have "consoleintr_char c (acq KCons s) = Ret ((), acq KCons (emit [x] (s\<lparr>cons := ?b2, proc := ?ps\<rparr>)))"
      unfolding body if_P [OF True] using assms(1) ok
      by (simp add: kM_simps upd_cons_def wakeup_eq procs_ready_acq)
    moreover have "cons_ok ?b2 \<and> cons_lines ?b2 = line_edit c (cons_lines ?b)"
      unfolding edit if_P [OF True] by (rule cons_commit [OF assms(3,6)]) simp
    ultimately show ?thesis by blast
  next
    case False
    have "consoleintr_char c (acq KCons s) = Ret ((), acq KCons (emit [x] (s\<lparr>cons := ?b1, proc := proc s\<rparr>)))"
      unfolding body if_not_P [OF False] by simp
    moreover have "cons_ok ?b1 \<and> cons_lines ?b1 = line_edit c (cons_lines ?b)"
      unfolding edit if_not_P [OF False] using False x10 by (intro cons_append [OF assms(3,6)]) simp_all
    ultimately show ?thesis by blast
  qed
qed

lemma consoleintr_char_eq:
  assumes "procs_ready s" "uart_ready s" "cons_ok (cons s)" "0 \<le> c" "c < 256" "c \<noteq> 0x10"
  shows "\<exists>bs ps b. consoleintr_char c (acq KCons s) = Ret ((), acq KCons (emit bs (s\<lparr>cons := b, proc := ps\<rparr>)))
    \<and> cons_ok b \<and> cons_lines b = line_edit c (cons_lines (cons s))"
proof -
  have ok: "hart_ok s" using assms(1) by (rule procs_readyD)
  have keep: "s = emit [] (s\<lparr>cons := cons s, proc := proc s\<rparr>)" by simp
  consider "c = 0x15" | "c \<in> {0x08, 0x7f}" | "c \<notin> {0x15, 0x08, 0x7f}" "c = 0 \<or> \<not> c_e (cons s) - c_r (cons s) < 128"
    | "0 < c" "c_e (cons s) - c_r (cons s) < 128" "c \<notin> {0x10, 0x15, 0x08, 0x7f}"
    using assms(4,6) by force
  then show ?thesis
  proof cases
    case 1
    obtain bs b where "cons_killline (unat (c_e (cons s) - c_w (cons s))) (acq KCons s)
        = Ret ((), acq KCons (emit bs (s\<lparr>cons := b\<rparr>)))"
      and "cons_ok b" "cons_lines b = (fst (cons_lines (cons s)), [])"
      using cons_killline_eq [OF ok assms(2,3) refl, of KCons] by blast
    with 1 show ?thesis
      by (intro exI [of _ bs] exI [of _ "proc s"] exI [of _ b])
         (simp add: consoleintr_char_def kM_simps line_edit_def split_beta)
  next
    case 2
    show ?thesis
    proof (cases "c_e (cons s) = c_w (cons s)")
      case True
      then have "snd (cons_lines (cons s)) = []" by (simp add: cons_lines_def)
      then show ?thesis
        using 2 True assms(3) keep
        by (intro exI [of _ "[]"] exI [of _ "proc s"] exI [of _ "cons s"])
           (auto simp: consoleintr_char_def kM_simps line_edit_def split_beta prod_eq_iff)
    next
      case False
      then show ?thesis
        using 2 cons_erase [OF assms(3) False] ok assms(2)
        by (intro exI [of _ "[8, 32, 8]"] exI [of _ "proc s"] exI [of _ "(cons s)\<lparr>c_e := c_e (cons s) - 1\<rparr>"])
           (auto simp: consoleintr_char_def kM_simps line_edit_def split_beta upd_cons_def consputc_backspace)
    qed
  next
    case 3
    then have "c = 0 \<or> 128 \<le> length (fst (cons_lines (cons s))) + length (snd (cons_lines (cons s)))"
      using cons_okD(3) [OF assms(3)] by (auto simp: word_less_nat_alt)
    then show ?thesis
      using 3 assms(3,6)
      by (intro exI [of _ "[]"] exI [of _ "proc s"] exI [of _ "cons s"])
         (auto simp: consoleintr_char_def kM_simps line_edit_def split_beta INPUT_BUF_SIZE_def)
  next
    case 4
    then show ?thesis using consoleintr_store [OF assms(1-3)] assms(5) by blast
  qed
qed

text \<open>C37. The console is a line editor. With the buffer's positions in order and at most 128 bytes
  in it, a character other than control-P leaves them so and changes the bytes that are ready for
  readers and the line being edited as \<open>line_edit\<close> says: control-U drops the whole line,
  backspace its last byte; any other byte is appended, a carriage return as a newline, unless 128
  bytes are in the buffer; and a newline, control-D or the 128th byte makes the line ready.
  The handler returns with the locks and the interrupt state as they were.\<close>

theorem consoleintr_edits_line:
  assumes "procs_ready s" "lock_free KCons s" "uart_ready s" "cons_ok (cons s)"
    and "0 \<le> c" "c < 256" "c \<noteq> 0x10"
  shows "\<exists>bs ps b. consoleintr c s = Ret ((), settle (emit bs (s\<lparr>cons := b, proc := ps\<rparr>)))
    \<and> cons_ok b \<and> cons_lines b = line_edit c (cons_lines (cons s))"
proof -
  have ok: "hart_ok s" using assms(1) by (rule procs_readyD)
  obtain bs ps b where
    "consoleintr_char c (acq KCons s) = Ret ((), acq KCons (emit bs (s\<lparr>cons := b, proc := ps\<rparr>)))"
    "cons_ok b" "cons_lines b = line_edit c (cons_lines (cons s))"
    using consoleintr_char_eq [OF assms(1,3-7)] by blast
  then show ?thesis using ok assms(2) by (auto simp: consoleintr_def crit)
qed

theorem consoleintr_edits_line_witness:
  "\<exists>bs ps b. consoleintr 13 (quiet_ustate (\<lambda>_. blank_proc) None)
      = Ret ((), settle (emit bs ((quiet_ustate (\<lambda>_. blank_proc) None)\<lparr>cons := b, proc := ps\<rparr>)))
    \<and> cons_lines b = ([10], [])"
proof -
  let ?s = "quiet_ustate (\<lambda>_. blank_proc) None"
  have c: "cons ?s = \<lparr>c_buf = (\<lambda>_. 0), c_r = 0, c_w = 0, c_e = 0\<rparr>"
    by (simp add: quiet_ustate_def pstate.defs)
  have l: "cons_lines (cons ?s) = ([], [])" by (simp add: c cons_lines_def)
  then have "cons_ok (cons ?s)" by (simp add: cons_ok_def) (simp add: c)
  then obtain bs ps b where "consoleintr 13 ?s = Ret ((), settle (emit bs (?s\<lparr>cons := b, proc := ps\<rparr>)))"
    "cons_lines b = line_edit 13 (cons_lines (cons ?s))"
    using consoleintr_edits_line [of ?s 13] by auto
  then show ?thesis unfolding l by (auto simp: line_edit_def)
qed

end
