(* ===== verification/Bio.thy ===== *)
theory Bio
  imports Console
begin

text \<open>
  Sleep locks (\<^verbatim>\<open>kernel/sleeplock.c\<close>) and the buffer cache (\<^verbatim>\<open>kernel/bio.c\<close>).

  A \<^verbatim>\<open>struct sleeplock *\<close> is a value of \<open>slk\<close>, the lock of a buffer or of an
  inode; the spin lock inside it is \<open>inner lk\<close> and its address as a sleep channel is
  \<open>slk_chan lk\<close>. A \<^verbatim>\<open>struct buf *\<close> is an index into the array of buffers, with
  \<^verbatim>\<open>NBUF\<close> for the list head \<^verbatim>\<open>bcache.head\<close>.
\<close>

section \<open>Sleep locks\<close>

datatype slk = SBuf nat | SInode nat

primrec inner :: "slk \<Rightarrow> lockid" where
  "inner (SBuf b) = KBuf b"
| "inner (SInode i) = KInode i"

primrec slk_chan :: "slk \<Rightarrow> chan" where
  "slk_chan (SBuf b) = ChBuf b"
| "slk_chan (SInode i) = ChInode i"

record sleeplock =
  sl_locked :: bool
  sl_name :: string
  sl_pid :: int

record sstate = ustate +
  slks :: "slk \<Rightarrow> sleeplock"

definition upd_slk :: "slk \<Rightarrow> (sleeplock \<Rightarrow> sleeplock) \<Rightarrow> 'z sstate_scheme \<Rightarrow> 'z sstate_scheme" where
  "upd_slk lk f s = s\<lparr>slks := (slks s)(lk := f (slks s lk))\<rparr>"

definition initsleeplock :: "slk \<Rightarrow> string \<Rightarrow> ('z sstate_scheme, unit) kM" where
  "initsleeplock lk nm =
    seq (modify (initlock (inner lk) ''sleep lock''))
    (modify (upd_slk lk (\<lambda>l. \<lparr>sl_locked = False, sl_name = nm, sl_pid = 0\<rparr>)))"

text \<open>The pid of the running process: \<^verbatim>\<open>myproc()->pid\<close>.\<close>

definition my_pid :: "('z sstate_scheme, int) kM" where
  "my_pid = bind myproc (\<lambda>p. with_ptr p (\<lambda>p. gets (\<lambda>s. p_pid (proc s p))))"

definition acquiresleep :: "'z sstate_scheme env \<Rightarrow> slk \<Rightarrow> ('z sstate_scheme, unit) kM" where
  "acquiresleep E lk =
    seq (acquire (inner lk))
    (seq (while_fuel (e_fuel E) (\<lambda>s. sl_locked (slks s lk))
           (sleep (e_sw E) (Some (slk_chan lk)) (inner lk)))
    (seq (modify (upd_slk lk (\<lambda>l. l\<lparr>sl_locked := True\<rparr>)))
    (bind my_pid (\<lambda>pid.
    seq (modify (upd_slk lk (\<lambda>l. l\<lparr>sl_pid := pid\<rparr>)))
    (release (inner lk))))))"

definition releasesleep :: "slk \<Rightarrow> ('z sstate_scheme, unit) kM" where
  "releasesleep lk =
    seq (acquire (inner lk))
    (seq (modify (upd_slk lk (\<lambda>l. l\<lparr>sl_locked := False\<rparr>)))
    (seq (modify (upd_slk lk (\<lambda>l. l\<lparr>sl_pid := 0\<rparr>)))
    (seq (wakeup (Some (slk_chan lk)))
    (release (inner lk)))))"

definition holdingsleep :: "slk \<Rightarrow> ('z sstate_scheme, bool) kM" where
  "holdingsleep lk =
    seq (acquire (inner lk))
    (bind (gets (\<lambda>s. sl_locked (slks s lk))) (\<lambda>l.
    bind (if l then bind (gets (\<lambda>s. sl_pid (slks s lk))) (\<lambda>own. bind my_pid (\<lambda>pid. return (own = pid)))
          else return False) (\<lambda>r.
    seq (release (inner lk)) (return r))))"

section \<open>The buffer cache\<close>

definition NBUF :: nat where "NBUF = 30"
definition BSIZE :: nat where "BSIZE = 1024"

record buf =
  b_valid :: bool
  b_disk :: bool
  b_dev :: u32
  b_blockno :: u32
  b_refcnt :: u32
  b_prev :: nat
  b_next :: nat
  b_data :: "u8 list"

record bstate = sstate +
  bufs :: "nat \<Rightarrow> buf"

definition upd_buf :: "nat \<Rightarrow> (buf \<Rightarrow> buf) \<Rightarrow> 'z bstate_scheme \<Rightarrow> 'z bstate_scheme" where
  "upd_buf b f s = s\<lparr>bufs := (bufs s)(b := f (bufs s b))\<rparr>"

text \<open>\<^verbatim>\<open>&bcache.head\<close>.\<close>

abbreviation bhead :: nat where "bhead \<equiv> NBUF"

text \<open>Moving \<open>b\<close> to the front of the list: the four assignments that
  \<^verbatim>\<open>binit\<close> and \<^verbatim>\<open>brelse\<close> share.\<close>

definition link_front :: "nat \<Rightarrow> 'z bstate_scheme \<Rightarrow> 'z bstate_scheme" where
  "link_front b s =
    (let s1 = upd_buf b (\<lambda>r. r\<lparr>b_next := b_next (bufs s bhead)\<rparr>) s;
         s2 = upd_buf b (\<lambda>r. r\<lparr>b_prev := bhead\<rparr>) s1;
         s3 = upd_buf (b_next (bufs s2 bhead)) (\<lambda>r. r\<lparr>b_prev := b\<rparr>) s2
     in upd_buf bhead (\<lambda>r. r\<lparr>b_next := b\<rparr>) s3)"

definition unlink_buf :: "nat \<Rightarrow> 'z bstate_scheme \<Rightarrow> 'z bstate_scheme" where
  "unlink_buf b s =
    (let s1 = upd_buf (b_next (bufs s b)) (\<lambda>r. r\<lparr>b_prev := b_prev (bufs s b)\<rparr>) s
     in upd_buf (b_prev (bufs s1 b)) (\<lambda>r. r\<lparr>b_next := b_next (bufs s1 b)\<rparr>) s1)"

definition binit :: "('z bstate_scheme, unit) kM" where
  "binit =
    seq (modify (initlock KBcache ''bcache''))
    (seq (modify (upd_buf bhead (\<lambda>r. r\<lparr>b_prev := bhead, b_next := bhead\<rparr>)))
    (for_each [0..<NBUF] (\<lambda>b.
      seq (initsleeplock (SBuf b) ''buffer'')
      (modify (link_front b)))))"

text \<open>The two scans of \<open>bget\<close> along the list, forward for the block and backward for an
  unused buffer. A list of \<^verbatim>\<open>NBUF\<close> buffers reaches the head again within
  \<^verbatim>\<open>NBUF\<close> steps.\<close>

primrec bget_find :: "nat \<Rightarrow> u32 \<Rightarrow> u32 \<Rightarrow> nat \<Rightarrow> ('z bstate_scheme, nat option) kM" where
  "bget_find 0 dev blockno b = (if b = bhead then return None else hang)"
| "bget_find (Suc n) dev blockno b =
    (if b = bhead then return None else
     bind (gets (\<lambda>s. bufs s b)) (\<lambda>r.
     if b_dev r = dev \<and> b_blockno r = blockno then return (Some b)
     else bget_find n dev blockno (b_next r)))"

primrec bget_unused :: "nat \<Rightarrow> nat \<Rightarrow> ('z bstate_scheme, nat option) kM" where
  "bget_unused 0 b = (if b = bhead then return None else hang)"
| "bget_unused (Suc n) b =
    (if b = bhead then return None else
     bind (gets (\<lambda>s. bufs s b)) (\<lambda>r.
     if b_refcnt r = 0 then return (Some b) else bget_unused n (b_prev r)))"

definition bget :: "'z bstate_scheme env \<Rightarrow> u32 \<Rightarrow> u32 \<Rightarrow> ('z bstate_scheme, nat) kM" where
  "bget E dev blockno =
    seq (acquire KBcache)
    (bind (gets (\<lambda>s. b_next (bufs s bhead))) (\<lambda>first.
    bind (bget_find NBUF dev blockno first) (\<lambda>r. case r of
      Some b \<Rightarrow>
        seq (modify (upd_buf b (\<lambda>r. r\<lparr>b_refcnt := b_refcnt r + 1\<rparr>)))
        (seq (release KBcache)
        (seq (acquiresleep E (SBuf b)) (return b)))
    | None \<Rightarrow>
        bind (gets (\<lambda>s. b_prev (bufs s bhead))) (\<lambda>lst.
        bind (bget_unused NBUF lst) (\<lambda>r. case r of
          Some b \<Rightarrow>
            seq (modify (upd_buf b (\<lambda>r. r\<lparr>b_dev := dev, b_blockno := blockno, b_valid := False, b_refcnt := 1\<rparr>)))
            (seq (release KBcache)
            (seq (acquiresleep E (SBuf b)) (return b)))
        | None \<Rightarrow> panic ''bget: no buffers'')))))"

definition bread :: "'z bstate_scheme env \<Rightarrow> u32 \<Rightarrow> u32 \<Rightarrow> ('z bstate_scheme, nat) kM" where
  "bread E dev blockno =
    bind (bget E dev blockno) (\<lambda>b.
    bind (gets (\<lambda>s. b_valid (bufs s b))) (\<lambda>v.
    seq (whenM (\<not> v)
      (seq (e_rw E b False) (modify (upd_buf b (\<lambda>r. r\<lparr>b_valid := True\<rparr>)))))
    (return b)))"

definition bwrite :: "'z bstate_scheme env \<Rightarrow> nat \<Rightarrow> ('z bstate_scheme, unit) kM" where
  "bwrite E b =
    bind (holdingsleep (SBuf b)) (\<lambda>h.
    if \<not> h then panic ''bwrite'' else e_rw E b True)"

definition brelse :: "nat \<Rightarrow> ('z bstate_scheme, unit) kM" where
  "brelse b =
    bind (holdingsleep (SBuf b)) (\<lambda>h.
    if \<not> h then panic ''brelse'' else
    seq (releasesleep (SBuf b))
    (seq (acquire KBcache)
    (seq (modify (upd_buf b (\<lambda>r. r\<lparr>b_refcnt := b_refcnt r - 1\<rparr>)))
    (seq (modify (\<lambda>s. if b_refcnt (bufs s b) = 0 then link_front b (unlink_buf b s) else s))
    (release KBcache)))))"

definition bpin :: "nat \<Rightarrow> ('z bstate_scheme, unit) kM" where
  "bpin b =
    seq (acquire KBcache)
    (seq (modify (upd_buf b (\<lambda>r. r\<lparr>b_refcnt := b_refcnt r + 1\<rparr>)))
    (release KBcache))"

definition bunpin :: "nat \<Rightarrow> ('z bstate_scheme, unit) kM" where
  "bunpin b =
    seq (acquire KBcache)
    (seq (modify (upd_buf b (\<lambda>r. r\<lparr>b_refcnt := b_refcnt r - 1\<rparr>)))
    (release KBcache))"

end
