(* ===== verification/Log.thy ===== *)
theory Log
  imports Bio
begin

text \<open>
  The redo log of the file system: \<^verbatim>\<open>kernel/log.c\<close>. Block contents are lists of
  \<^verbatim>\<open>BSIZE\<close> bytes; the on-disk header is decoded with \<open>get32\<close> and encoded with
  \<open>put32\<close>.
\<close>

section \<open>Words inside a block\<close>

definition get32 :: "u8 list \<Rightarrow> nat \<Rightarrow> u32" where
  "get32 bs off = le_word (take 4 (drop off bs))"

definition put_bytes :: "u8 list \<Rightarrow> nat \<Rightarrow> u8 list \<Rightarrow> u8 list" where
  "put_bytes bs off v = take off bs @ v @ drop (off + length v) bs"

definition put32 :: "u8 list \<Rightarrow> nat \<Rightarrow> u32 \<Rightarrow> u8 list" where
  "put32 bs off v = put_bytes bs off (le_bytes 4 v)"

definition get16 :: "u8 list \<Rightarrow> nat \<Rightarrow> u16" where
  "get16 bs off = le_word (take 2 (drop off bs))"

definition put16 :: "u8 list \<Rightarrow> nat \<Rightarrow> u16 \<Rightarrow> u8 list" where
  "put16 bs off v = put_bytes bs off (le_bytes 2 v)"

section \<open>State and operations\<close>

definition MAXOPBLOCKS :: int where "MAXOPBLOCKS = 10"
definition LOGSIZE :: int where "LOGSIZE = MAXOPBLOCKS * 3"

record logheader =
  lh_n :: int
  lh_block :: "nat \<Rightarrow> u32"

record logrec =
  lg_start :: u32
  lg_size :: int
  lg_outstanding :: int
  lg_committing :: bool
  lg_dev :: u32
  lg_lh :: logheader

record superblock =
  sb_magic :: u32
  sb_size :: u32
  sb_nblocks :: u32
  sb_ninodes :: u32
  sb_nlog :: u32
  sb_logstart :: u32
  sb_inodestart :: u32
  sb_bmapstart :: u32

record lstate = bstate +
  log :: logrec

definition upd_log :: "(logrec \<Rightarrow> logrec) \<Rightarrow> 'z lstate_scheme \<Rightarrow> 'z lstate_scheme" where
  "upd_log f s = s\<lparr>log := f (log s)\<rparr>"

definition set_data :: "nat \<Rightarrow> (u8 list \<Rightarrow> u8 list) \<Rightarrow> 'z bstate_scheme \<Rightarrow> 'z bstate_scheme" where
  "set_data b f = upd_buf b (\<lambda>r. r\<lparr>b_data := f (b_data r)\<rparr>)"

text \<open>The loops over the entries of the header: \<^verbatim>\<open>tail\<close> runs from 0 to
  \<^verbatim>\<open>log.lh.n\<close>, which their bodies do not change.\<close>

definition log_entries :: "'z lstate_scheme \<Rightarrow> nat list" where
  "log_entries s = [0..<nat (lh_n (lg_lh (log s)))]"

definition install_one :: "'z lstate_scheme env \<Rightarrow> bool \<Rightarrow> nat \<Rightarrow> ('z lstate_scheme, unit) kM" where
  "install_one E recovering tail =
    bind (gets log) (\<lambda>l.
    bind (bread E (lg_dev l) (lg_start l + of_nat tail + 1)) (\<lambda>lbuf.
    bind (bread E (lg_dev l) (lh_block (lg_lh l) tail)) (\<lambda>dbuf.
    seq (modify (\<lambda>s. set_data dbuf (\<lambda>_. b_data (bufs s lbuf)) s))
    (seq (bwrite E dbuf)
    (seq (whenM (\<not> recovering) (bunpin dbuf))
    (seq (brelse lbuf)
    (brelse dbuf)))))))"

definition install_trans :: "'z lstate_scheme env \<Rightarrow> bool \<Rightarrow> ('z lstate_scheme, unit) kM" where
  "install_trans E recovering =
    bind (gets log_entries) (\<lambda>ts. for_each ts (install_one E recovering))"

definition decode_header :: "u8 list \<Rightarrow> logheader \<Rightarrow> logheader" where
  "decode_header bs lh =
    (let n = sint (get32 bs 0) in
     \<lparr>lh_n = n, lh_block = (\<lambda>i. if int i < n then get32 bs (4 + 4 * i) else lh_block lh i)\<rparr>)"

definition read_head :: "'z lstate_scheme env \<Rightarrow> ('z lstate_scheme, unit) kM" where
  "read_head E =
    bind (gets log) (\<lambda>l.
    bind (bread E (lg_dev l) (lg_start l)) (\<lambda>b.
    seq (modify (\<lambda>s. upd_log (\<lambda>l. l\<lparr>lg_lh := decode_header (b_data (bufs s b)) (lg_lh l)\<rparr>) s))
    (brelse b)))"

definition encode_header :: "logheader \<Rightarrow> u8 list \<Rightarrow> u8 list" where
  "encode_header lh bs =
    fold (\<lambda>i bs. put32 bs (4 + 4 * i) (lh_block lh i)) [0..<nat (lh_n lh)]
      (put32 bs 0 (of_int (lh_n lh)))"

definition write_head :: "'z lstate_scheme env \<Rightarrow> ('z lstate_scheme, unit) kM" where
  "write_head E =
    bind (gets log) (\<lambda>l.
    bind (bread E (lg_dev l) (lg_start l)) (\<lambda>b.
    seq (modify (set_data b (encode_header (lg_lh l))))
    (seq (bwrite E b)
    (brelse b))))"

definition recover_from_log :: "'z lstate_scheme env \<Rightarrow> ('z lstate_scheme, unit) kM" where
  "recover_from_log E =
    seq (read_head E)
    (seq (install_trans E True)
    (seq (modify (upd_log (\<lambda>l. l\<lparr>lg_lh := (lg_lh l)\<lparr>lh_n := 0\<rparr>\<rparr>)))
    (write_head E)))"

text \<open>\<^verbatim>\<open>sizeof(struct logheader)\<close> is \<open>4 + 4 * LOGSIZE\<close>.\<close>

definition initlog :: "'z lstate_scheme env \<Rightarrow> u32 \<Rightarrow> superblock \<Rightarrow> ('z lstate_scheme, unit) kM" where
  "initlog E dev sb =
    (if 4 + 4 * LOGSIZE \<ge> int BSIZE then panic ''initlog: too big logheader'' else
     seq (modify (initlock KLog ''log''))
     (seq (modify (upd_log (\<lambda>l. l\<lparr>lg_start := sb_logstart sb, lg_size := sint (sb_nlog sb), lg_dev := dev\<rparr>)))
     (recover_from_log E)))"

primrec begin_op_loop :: "nat \<Rightarrow> 'z lstate_scheme env \<Rightarrow> ('z lstate_scheme, unit) kM" where
  "begin_op_loop 0 E = hang"
| "begin_op_loop (Suc n) E =
    bind (gets log) (\<lambda>l.
    if lg_committing l then seq (sleep (e_sw E) (Some ChLog) KLog) (begin_op_loop n E)
    else if lh_n (lg_lh l) + (lg_outstanding l + 1) * MAXOPBLOCKS > LOGSIZE
    then seq (sleep (e_sw E) (Some ChLog) KLog) (begin_op_loop n E)
    else seq (modify (upd_log (\<lambda>l. l\<lparr>lg_outstanding := lg_outstanding l + 1\<rparr>)))
      (release KLog))"

definition begin_op :: "'z lstate_scheme env \<Rightarrow> ('z lstate_scheme, unit) kM" where
  "begin_op E = seq (acquire KLog) (begin_op_loop (Suc (e_fuel E)) E)"

definition write_log_one :: "'z lstate_scheme env \<Rightarrow> nat \<Rightarrow> ('z lstate_scheme, unit) kM" where
  "write_log_one E tail =
    bind (gets log) (\<lambda>l.
    bind (bread E (lg_dev l) (lg_start l + of_nat tail + 1)) (\<lambda>tob.
    bind (bread E (lg_dev l) (lh_block (lg_lh l) tail)) (\<lambda>fromb.
    seq (modify (\<lambda>s. set_data tob (\<lambda>_. b_data (bufs s fromb)) s))
    (seq (bwrite E tob)
    (seq (brelse fromb)
    (brelse tob))))))"

definition write_log :: "'z lstate_scheme env \<Rightarrow> ('z lstate_scheme, unit) kM" where
  "write_log E = bind (gets log_entries) (\<lambda>ts. for_each ts (write_log_one E))"

definition commit :: "'z lstate_scheme env \<Rightarrow> ('z lstate_scheme, unit) kM" where
  "commit E =
    bind (gets (\<lambda>s. lh_n (lg_lh (log s)))) (\<lambda>n.
    whenM (n > 0)
      (seq (write_log E)
      (seq (write_head E)
      (seq (install_trans E False)
      (seq (modify (upd_log (\<lambda>l. l\<lparr>lg_lh := (lg_lh l)\<lparr>lh_n := 0\<rparr>\<rparr>)))
      (write_head E))))))"

definition end_op :: "'z lstate_scheme env \<Rightarrow> ('z lstate_scheme, unit) kM" where
  "end_op E =
    seq (acquire KLog)
    (seq (modify (upd_log (\<lambda>l. l\<lparr>lg_outstanding := lg_outstanding l - 1\<rparr>)))
    (bind (gets (\<lambda>s. lg_committing (log s))) (\<lambda>c.
    if c then panic ''log.committing'' else
    bind (gets (\<lambda>s. lg_outstanding (log s) = 0)) (\<lambda>do_commit.
    seq (if do_commit then modify (upd_log (\<lambda>l. l\<lparr>lg_committing := True\<rparr>)) else wakeup (Some ChLog))
    (seq (release KLog)
    (whenM do_commit
      (seq (commit E)
      (seq (acquire KLog)
      (seq (modify (upd_log (\<lambda>l. l\<lparr>lg_committing := False\<rparr>)))
      (seq (wakeup (Some ChLog))
      (release KLog)))))))))))"

text \<open>The search of \<open>log_write\<close> for the block: the first entry that has it, or
  \<^verbatim>\<open>lh.n\<close>.\<close>

definition log_find :: "u32 \<Rightarrow> logheader \<Rightarrow> nat" where
  "log_find bno lh =
    (case find (\<lambda>i. lh_block lh i = bno) [0..<nat (lh_n lh)] of Some i \<Rightarrow> i | None \<Rightarrow> nat (lh_n lh))"

definition log_write :: "nat \<Rightarrow> ('z lstate_scheme, unit) kM" where
  "log_write b =
    seq (acquire KLog)
    (bind (gets log) (\<lambda>l.
    if lh_n (lg_lh l) \<ge> LOGSIZE \<or> lh_n (lg_lh l) \<ge> lg_size l - 1 then panic ''too big a transaction'' else
    if lg_outstanding l < 1 then panic ''log_write outside of trans'' else
    bind (gets (\<lambda>s. b_blockno (bufs s b))) (\<lambda>bno.
    let i = log_find bno (lg_lh l) in
    seq (modify (upd_log (\<lambda>l. l\<lparr>lg_lh := (lg_lh l)\<lparr>lh_block := (lh_block (lg_lh l))(i := bno)\<rparr>\<rparr>)))
    (seq (whenM (int i = lh_n (lg_lh l))
      (seq (bpin b)
      (modify (upd_log (\<lambda>l. l\<lparr>lg_lh := (lg_lh l)\<lparr>lh_n := lh_n (lg_lh l) + 1\<rparr>\<rparr>)))))
    (release KLog)))))"

end
