(* ===== verification/Fs.thy ===== *)
theory Fs
  imports Log
begin

text \<open>
  The file system: \<^verbatim>\<open>kernel/fs.c\<close>, \<^verbatim>\<open>kernel/fs.h\<close> and the
  \<^verbatim>\<open>struct inode\<close> of \<^verbatim>\<open>kernel/file.h\<close>. A \<^verbatim>\<open>struct inode *\<close> is an
  index into the inode table. A disk inode and a directory entry are decoded from and encoded into
  the bytes of a block.

  \<open>readi\<close> and \<open>writei\<close> work on user memory, on kernel memory or on a local variable of
  their caller; \<open>kptr\<close> says which, and \<open>readi\<close> returns with its result the bytes it
  has delivered.
\<close>

section \<open>On-disk and in-memory structures\<close>

definition ROOTINO :: u32 where "ROOTINO = 1"
abbreviation ROOTDEV :: u32 where "ROOTDEV \<equiv> 1"
abbreviation FSMAGIC :: u32 where "FSMAGIC \<equiv> 0x10203040"
definition NDIRECT :: nat where "NDIRECT = 12"
definition NINDIRECT :: nat where "NINDIRECT = BSIZE div 4"
definition MAXFILE :: nat where "MAXFILE = NDIRECT + NINDIRECT"
definition NINODE :: nat where "NINODE = 50"
definition DIRSIZ :: nat where "DIRSIZ = 14"
definition IPB :: nat where "IPB = BSIZE div 64"
definition BPB :: nat where "BPB = BSIZE * 8"
abbreviation T_DIR :: u16 where "T_DIR \<equiv> 1"
abbreviation T_FILE :: u16 where "T_FILE \<equiv> 2"
abbreviation T_DEVICE :: u16 where "T_DEVICE \<equiv> 3"

record dinode =
  d_type :: u16
  d_major :: u16
  d_minor :: u16
  d_nlink :: u16
  d_size :: u32
  d_addrs :: "u32 list"

record inode =
  i_dev :: u32
  i_inum :: u32
  i_ref :: int
  i_valid :: bool
  i_type :: u16
  i_major :: u16
  i_minor :: u16
  i_nlink :: u16
  i_size :: u32
  i_addrs :: "u32 list"

record dirent =
  de_inum :: u16
  de_name :: "u8 list"

record stat =
  st_dev :: int
  st_ino :: u32
  st_type :: u16
  st_nlink :: u16
  st_size :: u64

record fstate = lstate +
  sb :: superblock
  itable :: "nat \<Rightarrow> inode"

definition upd_inode :: "nat \<Rightarrow> (inode \<Rightarrow> inode) \<Rightarrow> 'z fstate_scheme \<Rightarrow> 'z fstate_scheme" where
  "upd_inode i f s = s\<lparr>itable := (itable s)(i := f (itable s i))\<rparr>"

definition decode_superblock :: "u8 list \<Rightarrow> superblock" where
  "decode_superblock bs =
    \<lparr>sb_magic = get32 bs 0, sb_size = get32 bs 4, sb_nblocks = get32 bs 8, sb_ninodes = get32 bs 12,
     sb_nlog = get32 bs 16, sb_logstart = get32 bs 20, sb_inodestart = get32 bs 24, sb_bmapstart = get32 bs 28\<rparr>"

definition IBLOCK :: "u32 \<Rightarrow> superblock \<Rightarrow> u32" where
  "IBLOCK i b = i div of_nat IPB + sb_inodestart b"

definition BBLOCK :: "u32 \<Rightarrow> superblock \<Rightarrow> u32" where
  "BBLOCK i b = i div of_nat BPB + sb_bmapstart b"

text \<open>The byte offset of a disk inode inside its block, and its codec: four halfwords, the size and
  the \<^verbatim>\<open>NDIRECT + 1\<close> block addresses.\<close>

definition inode_off :: "u32 \<Rightarrow> nat" where
  "inode_off inum = 64 * (unat inum mod IPB)"

definition decode_dinode :: "u8 list \<Rightarrow> nat \<Rightarrow> dinode" where
  "decode_dinode bs off =
    \<lparr>d_type = get16 bs off, d_major = get16 bs (off + 2), d_minor = get16 bs (off + 4),
     d_nlink = get16 bs (off + 6), d_size = get32 bs (off + 8),
     d_addrs = map (\<lambda>i. get32 bs (off + 12 + 4 * i)) [0..<NDIRECT + 1]\<rparr>"

definition dinode_bytes :: "dinode \<Rightarrow> u8 list" where
  "dinode_bytes d =
    le_bytes 2 (d_type d) @ le_bytes 2 (d_major d) @ le_bytes 2 (d_minor d) @ le_bytes 2 (d_nlink d) @
    le_bytes 4 (d_size d) @ concat (map (le_bytes 4) (d_addrs d))"

definition encode_dinode :: "u8 list \<Rightarrow> nat \<Rightarrow> dinode \<Rightarrow> u8 list" where
  "encode_dinode bs off d = put_bytes bs off (dinode_bytes d)"

definition decode_dirent :: "u8 list \<Rightarrow> dirent" where
  "decode_dirent bs = \<lparr>de_inum = get16 bs 0, de_name = take DIRSIZ (drop 2 bs)\<rparr>"

definition encode_dirent :: "dirent \<Rightarrow> u8 list" where
  "encode_dirent de = le_bytes 2 (de_inum de) @ de_name de"

section \<open>Super block and block allocator\<close>

definition readsb :: "'z fstate_scheme env \<Rightarrow> u32 \<Rightarrow> ('z fstate_scheme, unit) kM" where
  "readsb E dev =
    bind (bread E dev 1) (\<lambda>bp.
    seq (modify (\<lambda>s. s\<lparr>sb := decode_superblock (b_data (bufs s bp))\<rparr>))
    (brelse bp))"

definition fsinit :: "'z fstate_scheme env \<Rightarrow> u32 \<Rightarrow> ('z fstate_scheme, unit) kM" where
  "fsinit E dev =
    seq (readsb E dev)
    (bind (gets sb) (\<lambda>b.
    if sb_magic b \<noteq> FSMAGIC then panic ''invalid file system''
    else initlog E dev b))"

definition bzero :: "'z fstate_scheme env \<Rightarrow> u32 \<Rightarrow> u32 \<Rightarrow> ('z fstate_scheme, unit) kM" where
  "bzero E dev bno =
    bind (bread E dev bno) (\<lambda>bp.
    seq (modify (set_data bp (\<lambda>_. replicate BSIZE 0)))
    (seq (log_write bp)
    (brelse bp)))"

text \<open>Bit \<open>bi\<close> of a bitmap block.\<close>

definition bmap_bit :: "u8 list \<Rightarrow> nat \<Rightarrow> bool" where
  "bmap_bit bs bi \<longleftrightarrow> bs ! (bi div 8) AND push_bit (bi mod 8) 1 \<noteq> 0"

definition bmap_set :: "nat \<Rightarrow> u8 list \<Rightarrow> u8 list" where
  "bmap_set bi bs = bs[bi div 8 := bs ! (bi div 8) OR push_bit (bi mod 8) 1]"

definition bmap_clear :: "nat \<Rightarrow> u8 list \<Rightarrow> u8 list" where
  "bmap_clear bi bs = bs[bi div 8 := bs ! (bi div 8) AND NOT (push_bit (bi mod 8) 1)]"

text \<open>One bitmap block of \<open>balloc\<close>, the one for the blocks from \<open>b\<close> on.\<close>

definition balloc_block :: "'z fstate_scheme env \<Rightarrow> u32 \<Rightarrow> nat \<Rightarrow> ('z fstate_scheme, u32 option) kM" where
  "balloc_block E dev b =
    bind (gets sb) (\<lambda>sb.
    bind (bread E dev (BBLOCK (of_nat b) sb)) (\<lambda>bp.
    bind (gets (\<lambda>s. b_data (bufs s bp))) (\<lambda>bs.
    case find (\<lambda>bi. \<not> bmap_bit bs bi) [0..<min BPB (unat (sb_size sb) - b)] of
      Some bi \<Rightarrow>
        seq (modify (set_data bp (bmap_set bi)))
        (seq (log_write bp)
        (seq (brelse bp)
        (seq (bzero E dev (of_nat (b + bi)))
        (return (Some (of_nat (b + bi)))))))
    | None \<Rightarrow> seq (brelse bp) (return None))))"

definition balloc :: "'z fstate_scheme env \<Rightarrow> u32 \<Rightarrow> ('z fstate_scheme, u32) kM" where
  "balloc E dev =
    bind (gets sb) (\<lambda>sb.
    bind (for_until (map (\<lambda>k. BPB * k) [0..<(unat (sb_size sb) + BPB - 1) div BPB]) (balloc_block E dev)) (\<lambda>r.
    case r of
      Some b \<Rightarrow> return b
    | None \<Rightarrow> seq (printf ''balloc: out of blocks\<newline>'' []) (return 0)))"

definition bfree :: "'z fstate_scheme env \<Rightarrow> u32 \<Rightarrow> u32 \<Rightarrow> ('z fstate_scheme, unit) kM" where
  "bfree E dev b =
    bind (gets sb) (\<lambda>sb.
    bind (bread E dev (BBLOCK b sb)) (\<lambda>bp.
    bind (gets (\<lambda>s. b_data (bufs s bp))) (\<lambda>bs.
    let bi = unat b mod BPB in
    if \<not> bmap_bit bs bi then panic ''freeing free block'' else
    seq (modify (set_data bp (bmap_clear bi)))
    (seq (log_write bp)
    (brelse bp)))))"

section \<open>Inodes\<close>

definition iinit :: "('z fstate_scheme, unit) kM" where
  "iinit =
    seq (modify (initlock KItable ''itable''))
    (for_each [0..<NINODE] (\<lambda>i. initsleeplock (SInode i) ''inode''))"

text \<open>The scan of \<open>iget\<close>: the entry that holds the inode, and the first empty slot before it.\<close>

definition iget_one :: "u32 \<Rightarrow> u32 \<Rightarrow> nat \<Rightarrow> nat option \<Rightarrow> ('z fstate_scheme, nat option + nat) kM" where
  "iget_one dev inum ip slot =
    bind (gets (\<lambda>s. itable s ip)) (\<lambda>r.
    if i_ref r > 0 \<and> i_dev r = dev \<and> i_inum r = inum then
      seq (modify (upd_inode ip (\<lambda>r. r\<lparr>i_ref := i_ref r + 1\<rparr>)))
      (seq (release KItable)
      (return (Inr ip)))
    else return (Inl (if slot = None \<and> i_ref r = 0 then Some ip else slot)))"

definition iget :: "u32 \<Rightarrow> u32 \<Rightarrow> ('z fstate_scheme, nat) kM" where
  "iget dev inum =
    seq (acquire KItable)
    (bind (for_fold [0..<NINODE] (iget_one dev inum) None) (\<lambda>r. case r of
      Inr ip \<Rightarrow> return ip
    | Inl None \<Rightarrow> panic ''iget: no inodes''
    | Inl (Some ip) \<Rightarrow>
        seq (modify (upd_inode ip (\<lambda>r. r\<lparr>i_dev := dev, i_inum := inum, i_ref := 1, i_valid := False\<rparr>)))
        (seq (release KItable)
        (return ip))))"

definition ialloc_one :: "'z fstate_scheme env \<Rightarrow> u32 \<Rightarrow> u16 \<Rightarrow> nat \<Rightarrow> ('z fstate_scheme, nat option) kM" where
  "ialloc_one E dev type inum =
    bind (gets sb) (\<lambda>sb.
    bind (bread E dev (IBLOCK (of_nat inum) sb)) (\<lambda>bp.
    bind (gets (\<lambda>s. b_data (bufs s bp))) (\<lambda>bs.
    let off = inode_off (of_nat inum) in
    if get16 bs off = 0 then
      seq (modify (set_data bp (\<lambda>bs. put16 (put_bytes bs off (replicate 64 0)) off type)))
      (seq (log_write bp)
      (seq (brelse bp)
      (bind (iget dev (of_nat inum)) (\<lambda>ip. return (Some ip)))))
    else seq (brelse bp) (return None))))"

definition ialloc :: "'z fstate_scheme env \<Rightarrow> u32 \<Rightarrow> u16 \<Rightarrow> ('z fstate_scheme, nat option) kM" where
  "ialloc E dev type =
    bind (gets sb) (\<lambda>sb.
    bind (for_until [1..<unat (sb_ninodes sb)] (ialloc_one E dev type)) (\<lambda>r. case r of
      Some ip \<Rightarrow> return (Some ip)
    | None \<Rightarrow> seq (printf ''ialloc: no inodes\<newline>'' []) (return None)))"

definition dinode_of :: "inode \<Rightarrow> dinode" where
  "dinode_of r = \<lparr>d_type = i_type r, d_major = i_major r, d_minor = i_minor r, d_nlink = i_nlink r,
     d_size = i_size r, d_addrs = i_addrs r\<rparr>"

definition iupdate :: "'z fstate_scheme env \<Rightarrow> nat \<Rightarrow> ('z fstate_scheme, unit) kM" where
  "iupdate E ip =
    bind (gets sb) (\<lambda>sb.
    bind (gets (\<lambda>s. itable s ip)) (\<lambda>r.
    bind (bread E (i_dev r) (IBLOCK (i_inum r) sb)) (\<lambda>bp.
    seq (modify (\<lambda>s. set_data bp (\<lambda>bs. encode_dinode bs (inode_off (i_inum r)) (dinode_of (itable s ip))) s))
    (seq (log_write bp)
    (brelse bp)))))"

definition idup :: "nat \<Rightarrow> ('z fstate_scheme, nat) kM" where
  "idup ip =
    seq (acquire KItable)
    (seq (modify (upd_inode ip (\<lambda>r. r\<lparr>i_ref := i_ref r + 1\<rparr>)))
    (seq (release KItable)
    (return ip)))"

definition load_dinode :: "dinode \<Rightarrow> inode \<Rightarrow> inode" where
  "load_dinode d r = r\<lparr>i_type := d_type d, i_major := d_major d, i_minor := d_minor d,
     i_nlink := d_nlink d, i_size := d_size d, i_addrs := d_addrs d\<rparr>"

definition ilock :: "'z fstate_scheme env \<Rightarrow> nat option \<Rightarrow> ('z fstate_scheme, unit) kM" where
  "ilock E p = (case p of None \<Rightarrow> panic ''ilock'' | Some ip \<Rightarrow>
    bind (gets (\<lambda>s. i_ref (itable s ip))) (\<lambda>ref.
    if ref < 1 then panic ''ilock'' else
    seq (acquiresleep E (SInode ip))
    (bind (gets (\<lambda>s. itable s ip)) (\<lambda>r.
    if i_valid r then return () else
    bind (gets sb) (\<lambda>sb.
    bind (bread E (i_dev r) (IBLOCK (i_inum r) sb)) (\<lambda>bp.
    seq (modify (\<lambda>s. upd_inode ip (load_dinode (decode_dinode (b_data (bufs s bp)) (inode_off (i_inum r)))) s))
    (seq (brelse bp)
    (seq (modify (upd_inode ip (\<lambda>r. r\<lparr>i_valid := True\<rparr>)))
    (bind (gets (\<lambda>s. i_type (itable s ip))) (\<lambda>t.
    if t = 0 then panic ''ilock: no type'' else return ()))))))))))"

definition iunlock :: "nat option \<Rightarrow> ('z fstate_scheme, unit) kM" where
  "iunlock p = (case p of None \<Rightarrow> panic ''iunlock'' | Some ip \<Rightarrow>
    bind (holdingsleep (SInode ip)) (\<lambda>h.
    if \<not> h then panic ''iunlock'' else
    bind (gets (\<lambda>s. i_ref (itable s ip))) (\<lambda>ref.
    if ref < 1 then panic ''iunlock'' else
    releasesleep (SInode ip))))"

section \<open>Inode content\<close>

text \<open>The slot \<open>k\<close> of \<^verbatim>\<open>ip->addrs\<close>, allocated when it is zero; 0 when the disk is
  full.\<close>

definition bmap_slot :: "'z fstate_scheme env \<Rightarrow> nat \<Rightarrow> nat \<Rightarrow> ('z fstate_scheme, u32) kM" where
  "bmap_slot E ip k =
    bind (gets (\<lambda>s. itable s ip)) (\<lambda>r.
    if i_addrs r ! k \<noteq> 0 then return (i_addrs r ! k) else
    bind (balloc E (i_dev r)) (\<lambda>addr.
    if addr = 0 then return 0 else
    seq (modify (upd_inode ip (\<lambda>r. r\<lparr>i_addrs := (i_addrs r)[k := addr]\<rparr>)))
    (return addr)))"

definition bmap :: "'z fstate_scheme env \<Rightarrow> nat \<Rightarrow> nat \<Rightarrow> ('z fstate_scheme, u32) kM" where
  "bmap E ip bn =
    (if bn < NDIRECT then bmap_slot E ip bn
     else let bn = bn - NDIRECT in
     if bn < NINDIRECT then
       bind (bmap_slot E ip NDIRECT) (\<lambda>addr.
       if addr = 0 then return 0 else
       bind (gets (\<lambda>s. i_dev (itable s ip))) (\<lambda>dev.
       bind (bread E dev addr) (\<lambda>bp.
       bind (gets (\<lambda>s. get32 (b_data (bufs s bp)) (4 * bn))) (\<lambda>addr.
       bind (if addr \<noteq> 0 then return addr else
             bind (balloc E dev) (\<lambda>addr.
             if addr \<noteq> 0 then
               seq (modify (set_data bp (\<lambda>bs. put32 bs (4 * bn) addr)))
               (seq (log_write bp) (return addr))
             else return addr)) (\<lambda>addr.
       seq (brelse bp) (return addr))))))
     else panic ''bmap: out of range'')"

definition itrunc_direct :: "'z fstate_scheme env \<Rightarrow> nat \<Rightarrow> nat \<Rightarrow> ('z fstate_scheme, unit) kM" where
  "itrunc_direct E ip i =
    bind (gets (\<lambda>s. itable s ip)) (\<lambda>r.
    whenM (i_addrs r ! i \<noteq> 0)
      (seq (bfree E (i_dev r) (i_addrs r ! i))
      (modify (upd_inode ip (\<lambda>r. r\<lparr>i_addrs := (i_addrs r)[i := 0]\<rparr>)))))"

definition itrunc_entry :: "'z fstate_scheme env \<Rightarrow> u32 \<Rightarrow> nat \<Rightarrow> nat \<Rightarrow> ('z fstate_scheme, unit) kM" where
  "itrunc_entry E dev bp j =
    bind (gets (\<lambda>s. get32 (b_data (bufs s bp)) (4 * j))) (\<lambda>a.
    whenM (a \<noteq> 0) (bfree E dev a))"

definition itrunc :: "'z fstate_scheme env \<Rightarrow> nat \<Rightarrow> ('z fstate_scheme, unit) kM" where
  "itrunc E ip =
    seq (for_each [0..<NDIRECT] (itrunc_direct E ip))
    (bind (gets (\<lambda>s. itable s ip)) (\<lambda>r.
    seq (whenM (i_addrs r ! NDIRECT \<noteq> 0)
      (bind (bread E (i_dev r) (i_addrs r ! NDIRECT)) (\<lambda>bp.
      seq (for_each [0..<NINDIRECT] (itrunc_entry E (i_dev r) bp))
      (seq (brelse bp)
      (seq (bfree E (i_dev r) (i_addrs r ! NDIRECT))
      (modify (upd_inode ip (\<lambda>r. r\<lparr>i_addrs := (i_addrs r)[NDIRECT := 0]\<rparr>))))))))
    (seq (modify (upd_inode ip (\<lambda>r. r\<lparr>i_size := 0\<rparr>)))
    (iupdate E ip))))"

definition iput :: "'z fstate_scheme env \<Rightarrow> nat \<Rightarrow> ('z fstate_scheme, unit) kM" where
  "iput E ip =
    seq (acquire KItable)
    (bind (gets (\<lambda>s. itable s ip)) (\<lambda>r.
    seq (whenM (i_ref r = 1 \<and> i_valid r \<and> i_nlink r = 0)
      (seq (acquiresleep E (SInode ip))
      (seq (release KItable)
      (seq (itrunc E ip)
      (seq (modify (upd_inode ip (\<lambda>r. r\<lparr>i_type := 0\<rparr>)))
      (seq (iupdate E ip)
      (seq (modify (upd_inode ip (\<lambda>r. r\<lparr>i_valid := False\<rparr>)))
      (seq (releasesleep (SInode ip))
      (acquire KItable)))))))))
    (seq (modify (upd_inode ip (\<lambda>r. r\<lparr>i_ref := i_ref r - 1\<rparr>)))
    (release KItable))))"

definition iunlockput :: "'z fstate_scheme env \<Rightarrow> nat \<Rightarrow> ('z fstate_scheme, unit) kM" where
  "iunlockput E ip = seq (iunlock (Some ip)) (iput E ip)"

definition stati :: "nat \<Rightarrow> ('z fstate_scheme, stat) kM" where
  "stati ip =
    gets (\<lambda>s. let r = itable s ip in
      \<lparr>st_dev = sint (i_dev r), st_ino = i_inum r, st_type = i_type r, st_nlink = i_nlink r,
       st_size = ucast (i_size r)\<rparr>)"

datatype kptr = UserPtr u64 | KernPtr u64 | LocalPtr

primrec copy_to :: "kptr \<Rightarrow> u32 \<Rightarrow> u8 list \<Rightarrow> ('z pstate_scheme, int) kM" where
  "copy_to (UserPtr dst) tot bs = either_copyout True (dst + ucast tot) bs"
| "copy_to (KernPtr dst) tot bs = either_copyout False (dst + ucast tot) bs"
| "copy_to LocalPtr tot bs = return 0"

definition block_part :: "u8 list \<Rightarrow> nat \<Rightarrow> nat \<Rightarrow> u8 list" where
  "block_part bs off m = take m (drop off bs)"

text \<open>The loop of \<open>readi\<close>: \<open>tot\<close> bytes are done, \<open>out\<close> are the bytes delivered.
  Each round moves at least one byte, so \<open>n\<close> rounds are enough.\<close>

primrec readi_loop :: "nat \<Rightarrow> 'z fstate_scheme env \<Rightarrow> nat \<Rightarrow> kptr \<Rightarrow> u32 \<Rightarrow> u32 \<Rightarrow> u32 \<Rightarrow> u8 list
    \<Rightarrow> ('z fstate_scheme, int \<times> u8 list) kM" where
  "readi_loop 0 E ip dst off n tot out = (if tot < n then hang else return (uint tot, out))"
| "readi_loop (Suc k) E ip dst off n tot out =
    (if \<not> tot < n then return (uint tot, out) else
     bind (bmap E ip (unat off div BSIZE)) (\<lambda>addr.
     if addr = 0 then return (uint tot, out) else
     bind (gets (\<lambda>s. i_dev (itable s ip))) (\<lambda>dev.
     bind (bread E dev addr) (\<lambda>bp.
     let m = min (n - tot) (of_nat (BSIZE - unat off mod BSIZE)) in
     bind (gets (\<lambda>s. block_part (b_data (bufs s bp)) (unat off mod BSIZE) (unat m))) (\<lambda>bs.
     bind (copy_to dst tot bs) (\<lambda>r.
     if r = -1 then seq (brelse bp) (return (-1, out)) else
     seq (brelse bp)
     (readi_loop k E ip dst (off + m) n (tot + m) (out @ bs))))))))"

definition readi :: "'z fstate_scheme env \<Rightarrow> nat \<Rightarrow> kptr \<Rightarrow> u32 \<Rightarrow> u32 \<Rightarrow> ('z fstate_scheme, int \<times> u8 list) kM" where
  "readi E ip dst off n =
    bind (gets (\<lambda>s. i_size (itable s ip))) (\<lambda>size.
    if off > size \<or> off + n < off then return (0, []) else
    let n = (if off + n > size then size - off else n) in
    readi_loop (unat n) E ip dst off n 0 [])"

datatype ksrc = UserSrc u64 | KernSrc u64 | LocalSrc "u8 list"

primrec copy_from :: "ksrc \<Rightarrow> u32 \<Rightarrow> nat \<Rightarrow> ('z pstate_scheme, int \<times> u8 list) kM" where
  "copy_from (UserSrc src) tot m = either_copyin True (src + ucast tot) m"
| "copy_from (KernSrc src) tot m = either_copyin False (src + ucast tot) m"
| "copy_from (LocalSrc bs) tot m = return (0, take m (drop (unat tot) bs))"

text \<open>The loop of \<open>writei\<close> returns \<open>tot\<close> and \<open>off\<close>. A failed copy may have changed
  the first bytes of the buffer, which is then released without being logged.\<close>

primrec writei_loop :: "nat \<Rightarrow> 'z fstate_scheme env \<Rightarrow> nat \<Rightarrow> ksrc \<Rightarrow> u32 \<Rightarrow> u32 \<Rightarrow> u32
    \<Rightarrow> ('z fstate_scheme, u32 \<times> u32) kM" where
  "writei_loop 0 E ip src off n tot = (if tot < n then hang else return (tot, off))"
| "writei_loop (Suc k) E ip src off n tot =
    (if \<not> tot < n then return (tot, off) else
     bind (bmap E ip (unat off div BSIZE)) (\<lambda>addr.
     if addr = 0 then return (tot, off) else
     bind (gets (\<lambda>s. i_dev (itable s ip))) (\<lambda>dev.
     bind (bread E dev addr) (\<lambda>bp.
     let m = min (n - tot) (of_nat (BSIZE - unat off mod BSIZE)) in
     bind (copy_from src tot (unat m)) (\<lambda>(r, bs).
     seq (modify (set_data bp (\<lambda>d. put_bytes d (unat off mod BSIZE) bs)))
     (if r = -1 then seq (brelse bp) (return (tot, off)) else
      seq (log_write bp)
      (seq (brelse bp)
      (writei_loop k E ip src (off + m) n (tot + m)))))))))"

definition writei :: "'z fstate_scheme env \<Rightarrow> nat \<Rightarrow> ksrc \<Rightarrow> u32 \<Rightarrow> u32 \<Rightarrow> ('z fstate_scheme, int) kM" where
  "writei E ip src off n =
    bind (gets (\<lambda>s. i_size (itable s ip))) (\<lambda>size.
    if off > size \<or> off + n < off then return (-1) else
    if unat (off + n) > MAXFILE * BSIZE then return (-1) else
    bind (writei_loop (unat n) E ip src off n 0) (\<lambda>(tot, off).
    seq (modify (upd_inode ip (\<lambda>r. if off > i_size r then r\<lparr>i_size := off\<rparr> else r)))
    (seq (iupdate E ip)
    (return (uint tot)))))"

section \<open>Directories\<close>

text \<open>Names are fixed arrays of \<^verbatim>\<open>DIRSIZ\<close> bytes, padded with nul bytes.\<close>

definition namecmp :: "u8 list \<Rightarrow> u8 list \<Rightarrow> int" where
  "namecmp s t = strncmp (bytes_of s) (bytes_of t) DIRSIZ"

definition read_dirent :: "'z fstate_scheme env \<Rightarrow> string \<Rightarrow> nat \<Rightarrow> nat \<Rightarrow> ('z fstate_scheme, dirent) kM" where
  "read_dirent E msg dp off =
    bind (readi E dp LocalPtr (of_nat off) 16) (\<lambda>(r, bs).
    if r \<noteq> 16 then panic msg else return (decode_dirent bs))"

text \<open>The offsets \<open>0, 16, \<dots>\<close> below the size of the directory.\<close>

definition dirent_offs :: "u32 \<Rightarrow> nat list" where
  "dirent_offs sz = map (\<lambda>k. 16 * k) [0..<(unat sz + 15) div 16]"

definition dirlookup_one :: "'z fstate_scheme env \<Rightarrow> nat \<Rightarrow> u8 list \<Rightarrow> nat \<Rightarrow> ('z fstate_scheme, (nat \<times> nat) option) kM" where
  "dirlookup_one E dp name off =
    bind (read_dirent E ''dirlookup read'' dp off) (\<lambda>de.
    if de_inum de = 0 then return None else
    if namecmp name (de_name de) = 0 then
      bind (gets (\<lambda>s. i_dev (itable s dp))) (\<lambda>dev.
      bind (iget dev (ucast (de_inum de))) (\<lambda>ip. return (Some (ip, off))))
    else return None)"

text \<open>The inode and the offset that \<open>dirlookup\<close> stores at \<^verbatim>\<open>*poff\<close>.\<close>

definition dirlookup :: "'z fstate_scheme env \<Rightarrow> nat \<Rightarrow> u8 list \<Rightarrow> ('z fstate_scheme, (nat \<times> nat) option) kM" where
  "dirlookup E dp name =
    bind (gets (\<lambda>s. itable s dp)) (\<lambda>r.
    if i_type r \<noteq> T_DIR then panic ''dirlookup not DIR''
    else for_until (dirent_offs (i_size r)) (dirlookup_one E dp name))"

definition dirlink_free :: "'z fstate_scheme env \<Rightarrow> nat \<Rightarrow> nat \<Rightarrow> ('z fstate_scheme, nat option) kM" where
  "dirlink_free E dp off =
    bind (read_dirent E ''dirlink read'' dp off) (\<lambda>de.
    return (if de_inum de = 0 then Some off else None))"

definition dirlink :: "'z fstate_scheme env \<Rightarrow> nat \<Rightarrow> u8 list \<Rightarrow> u32 \<Rightarrow> ('z fstate_scheme, int) kM" where
  "dirlink E dp name inum =
    bind (dirlookup E dp name) (\<lambda>r. case r of
      Some (ip, _) \<Rightarrow> seq (iput E ip) (return (-1))
    | None \<Rightarrow>
      bind (gets (\<lambda>s. i_size (itable s dp))) (\<lambda>size.
      bind (for_until (dirent_offs size) (dirlink_free E dp)) (\<lambda>f.
      let off = (case f of Some off \<Rightarrow> off | None \<Rightarrow> 16 * ((unat size + 15) div 16));
          de = \<lparr>de_inum = ucast inum, de_name = strncpy (replicate DIRSIZ 0) (bytes_of name) (int DIRSIZ)\<rparr> in
      bind (writei E dp (LocalSrc (encode_dirent de)) (of_nat off) 16) (\<lambda>r.
      return (if r \<noteq> 16 then -1 else 0)))))"

section \<open>Paths\<close>

text \<open>Paths are byte lists without their terminating nul. \<open>skipelem\<close> returns the rest of the
  path and the new contents of \<^verbatim>\<open>name\<close>, whose bytes after the terminating nul keep the values
  they had.\<close>

abbreviation slash :: u8 where "slash \<equiv> 0x2f"

definition skipelem :: "u8 list \<Rightarrow> u8 list \<Rightarrow> (u8 list \<times> u8 list) option" where
  "skipelem path name =
    (let path = dropWhile (\<lambda>c. c = slash) path in
     if path = [] then None else
     let s = takeWhile (\<lambda>c. c \<noteq> slash) path;
         path = dropWhile (\<lambda>c. c \<noteq> slash) path;
         name = (if length s \<ge> DIRSIZ then put_bytes name 0 (take DIRSIZ s)
                 else put_bytes name 0 (s @ [0]))
     in Some (dropWhile (\<lambda>c. c = slash) path, name))"

lemma skipelem_shorter: "skipelem path name = Some (rest, nm) \<Longrightarrow> length rest < length path"
proof -
  assume a: "skipelem path name = Some (rest, nm)"
  define q where "q = dropWhile (\<lambda>c. c = slash) path"
  have q: "q \<noteq> []" "rest = dropWhile (\<lambda>c. c = slash) (dropWhile (\<lambda>c. c \<noteq> slash) q)"
    using a by (auto simp: skipelem_def Let_def q_def split: if_splits)
  have "hd q \<noteq> slash" 
    using hd_dropWhile [of "\<lambda>c. c = slash" path] q(1) unfolding q_def by blast
  then have "length (dropWhile (\<lambda>c. c \<noteq> slash) q) < length q"
    using q(1) by (cases q) (auto simp: le_imp_less_Suc length_dropWhile_le)
  moreover have "length q \<le> length path" unfolding q_def by (rule length_dropWhile_le)
  moreover have "length rest \<le> length (dropWhile (\<lambda>c. c \<noteq> slash) q)"
    unfolding q(2) by (rule length_dropWhile_le)
  ultimately show "length rest < length path" by linarith
qed

text \<open>One round of the loop of \<open>namex\<close> with the inode \<open>ip\<close> and the next element of the
  path: \<open>Inr\<close> leaves the function, \<open>Inl\<close> continues with the next inode.\<close>

definition namex_step :: "'z fstate_scheme env \<Rightarrow> bool \<Rightarrow> nat \<Rightarrow> u8 list \<Rightarrow> u8 list \<Rightarrow> ('z fstate_scheme, nat + nat option) kM" where
  "namex_step E parent ip rest name =
    seq (ilock E (Some ip))
    (bind (gets (\<lambda>s. i_type (itable s ip))) (\<lambda>t.
    if t \<noteq> T_DIR then seq (iunlockput E ip) (return (Inr None)) else
    if parent \<and> rest = [] then seq (iunlock (Some ip)) (return (Inr (Some ip))) else
    bind (dirlookup E ip name) (\<lambda>r. case r of
      None \<Rightarrow> seq (iunlockput E ip) (return (Inr None))
    | Some (nxt, _) \<Rightarrow> seq (iunlockput E ip) (return (Inl nxt)))))"

function namex_loop :: "'z fstate_scheme env \<Rightarrow> bool \<Rightarrow> nat \<Rightarrow> u8 list \<Rightarrow> u8 list
    \<Rightarrow> ('z fstate_scheme, nat option \<times> u8 list) kM" where
  "namex_loop E parent ip path name =
    (case skipelem path name of
       None \<Rightarrow> if parent then seq (iput E ip) (return (None, name)) else return (Some ip, name)
     | Some (rest, nm) \<Rightarrow>
       bind (namex_step E parent ip rest nm) (\<lambda>r. case r of
         Inr res \<Rightarrow> return (res, nm)
       | Inl nxt \<Rightarrow> namex_loop E parent nxt rest nm))"
  by pat_completeness auto
termination
  by (relation "measure (\<lambda>(E, parent, ip, path, name). length path)") (auto dest: skipelem_shorter)

declare namex_loop.simps [simp del]

definition namex :: "'z fstate_scheme env \<Rightarrow> u8 list \<Rightarrow> bool \<Rightarrow> u8 list \<Rightarrow> ('z fstate_scheme, nat option \<times> u8 list) kM" where
  "namex E path parent name =
    bind (if path \<noteq> [] \<and> hd path = slash then iget ROOTDEV ROOTINO
          else bind myproc (\<lambda>p. with_ptr p (\<lambda>p.
               bind (gets (\<lambda>s. p_cwd (proc s p))) (\<lambda>cwd. with_ptr cwd idup)))) (\<lambda>ip.
    namex_loop E parent ip path name)"

definition namei :: "'z fstate_scheme env \<Rightarrow> u8 list \<Rightarrow> ('z fstate_scheme, nat option) kM" where
  "namei E path = bind (namex E path False (replicate DIRSIZ 0)) (\<lambda>r. return (fst r))"

definition nameiparent :: "'z fstate_scheme env \<Rightarrow> u8 list \<Rightarrow> u8 list \<Rightarrow> ('z fstate_scheme, nat option \<times> u8 list) kM" where
  "nameiparent E path name = namex E path True name"

end
