(* ===== verification/File.thy ===== *)
theory File
  imports Fs
begin

text \<open>
  Open files and pipes: \<^verbatim>\<open>kernel/file.c\<close>, \<^verbatim>\<open>kernel/file.h\<close> and
  \<^verbatim>\<open>kernel/pipe.c\<close>, and the process operations that use them:
  \<^verbatim>\<open>userinit\<close>, \<^verbatim>\<open>fork\<close> and \<^verbatim>\<open>exit\<close> of \<^verbatim>\<open>kernel/proc.c\<close>.

  A \<^verbatim>\<open>struct file *\<close> is an index into \<^verbatim>\<open>ftable\<close>. A pipe is found by the address
  of the page it was allocated on. The only connected device is the console.
\<close>

section \<open>State\<close>

definition NFILE :: nat where "NFILE = 100"
definition NDEV :: int where "NDEV = 10"
abbreviation CONSOLE :: int where "CONSOLE \<equiv> 1"
definition NOFILE :: nat where "NOFILE = 16"
definition PIPESIZE :: u32 where "PIPESIZE = 512"

datatype fdtype = FD_NONE | FD_PIPE | FD_INODE | FD_DEVICE

record file_t =
  f_type :: fdtype
  f_ref :: int
  f_readable :: bool
  f_writable :: bool
  f_pipe :: u64
  f_ip :: "nat option"
  f_off :: u32
  f_major :: u16

record pipe =
  pi_data :: "nat \<Rightarrow> u8"
  pi_nread :: u32
  pi_nwrite :: u32
  pi_readopen :: bool
  pi_writeopen :: bool

record filestate = fstate +
  ftable :: "nat \<Rightarrow> file_t"
  pipes :: "u64 \<Rightarrow> pipe"

definition upd_file :: "nat \<Rightarrow> (file_t \<Rightarrow> file_t) \<Rightarrow> 'z filestate_scheme \<Rightarrow> 'z filestate_scheme" where
  "upd_file i f s = s\<lparr>ftable := (ftable s)(i := f (ftable s i))\<rparr>"

definition upd_pipe :: "u64 \<Rightarrow> (pipe \<Rightarrow> pipe) \<Rightarrow> 'z filestate_scheme \<Rightarrow> 'z filestate_scheme" where
  "upd_pipe pi f s = s\<lparr>pipes := (pipes s)(pi := f (pipes s pi))\<rparr>"

section \<open>Pipes\<close>

definition pipeclose :: "u64 \<Rightarrow> bool \<Rightarrow> ('z filestate_scheme, unit) kM" where
  "pipeclose pi writable =
    seq (acquire (KPipe pi))
    (seq (if writable then
       seq (modify (upd_pipe pi (\<lambda>r. r\<lparr>pi_writeopen := False\<rparr>))) (wakeup (Some (ChPipeRead pi)))
     else
       seq (modify (upd_pipe pi (\<lambda>r. r\<lparr>pi_readopen := False\<rparr>))) (wakeup (Some (ChPipeWrite pi))))
    (bind (gets (\<lambda>s. pipes s pi)) (\<lambda>r.
    if \<not> pi_readopen r \<and> \<not> pi_writeopen r then seq (release (KPipe pi)) (kfree pi)
    else release (KPipe pi))))"

text \<open>The loop of \<open>pipewrite\<close> with \<open>i\<close> of \<open>n\<close> bytes written; \<open>None\<close> is the
  return of \<open>-1\<close>. Every round writes a byte or sleeps, and \<open>fuel\<close> bounds the rounds.\<close>

primrec pipewrite_loop :: "nat \<Rightarrow> 'z filestate_scheme env \<Rightarrow> nat \<Rightarrow> u64 \<Rightarrow> u64 \<Rightarrow> int \<Rightarrow> int
    \<Rightarrow> ('z filestate_scheme, int option) kM" where
  "pipewrite_loop 0 E pr pi addr n i = (if i < n then hang else return (Some i))"
| "pipewrite_loop (Suc k) E pr pi addr n i =
    (if \<not> i < n then return (Some i) else
     bind (gets (\<lambda>s. pi_readopen (pipes s pi))) (\<lambda>ro.
     bind (if ro then bind (killed pr) (\<lambda>kl. return (kl \<noteq> 0)) else return True) (\<lambda>stop.
     if stop then seq (release (KPipe pi)) (return None) else
     bind (gets (\<lambda>s. pipes s pi)) (\<lambda>r.
     if pi_nwrite r = pi_nread r + PIPESIZE then
       seq (wakeup (Some (ChPipeRead pi)))
       (seq (sleep (e_sw E) (Some (ChPipeWrite pi)) (KPipe pi))
       (pipewrite_loop k E pr pi addr n i))
     else
       bind (gets (\<lambda>s. p_pagetable (proc s pr))) (\<lambda>pt.
       bind (copyin pt (addr + of_int i) 1) (\<lambda>(rc, bs).
       if rc = -1 then return (Some i) else
       seq (modify (upd_pipe pi (\<lambda>r. r\<lparr>pi_data := (pi_data r)(unat (pi_nwrite r mod PIPESIZE) := hd bs),
                                        pi_nwrite := pi_nwrite r + 1\<rparr>)))
       (pipewrite_loop k E pr pi addr n (i + 1))))))))"

definition pipewrite :: "'z filestate_scheme env \<Rightarrow> u64 \<Rightarrow> u64 \<Rightarrow> int \<Rightarrow> ('z filestate_scheme, int) kM" where
  "pipewrite E pi addr n =
    bind myproc (\<lambda>p. with_ptr p (\<lambda>pr.
    seq (acquire (KPipe pi))
    (bind (pipewrite_loop (nat n + e_fuel E) E pr pi addr n 0) (\<lambda>r. case r of
      None \<Rightarrow> return (-1)
    | Some i \<Rightarrow> seq (wakeup (Some (ChPipeRead pi))) (seq (release (KPipe pi)) (return i))))))"

primrec piperead_wait :: "nat \<Rightarrow> 'z filestate_scheme env \<Rightarrow> nat \<Rightarrow> u64 \<Rightarrow> ('z filestate_scheme, bool) kM" where
  "piperead_wait 0 E pr pi = hang"
| "piperead_wait (Suc k) E pr pi =
    bind (gets (\<lambda>s. pipes s pi)) (\<lambda>r.
    if \<not> (pi_nread r = pi_nwrite r \<and> pi_writeopen r) then return True else
    bind (killed pr) (\<lambda>kl.
    if kl \<noteq> 0 then seq (release (KPipe pi)) (return False) else
    seq (sleep (e_sw E) (Some (ChPipeRead pi)) (KPipe pi))
    (piperead_wait k E pr pi)))"

primrec piperead_loop :: "nat \<Rightarrow> nat \<Rightarrow> u64 \<Rightarrow> u64 \<Rightarrow> int \<Rightarrow> ('z filestate_scheme, int) kM" where
  "piperead_loop 0 pr pi addr i = return i"
| "piperead_loop (Suc k) pr pi addr i =
    bind (gets (\<lambda>s. pipes s pi)) (\<lambda>r.
    if pi_nread r = pi_nwrite r then return i else
    let ch = pi_data r (unat (pi_nread r mod PIPESIZE)) in
    seq (modify (upd_pipe pi (\<lambda>r. r\<lparr>pi_nread := pi_nread r + 1\<rparr>)))
    (bind (gets (\<lambda>s. p_pagetable (proc s pr))) (\<lambda>pt.
    bind (copyout pt (addr + of_int i) [ch]) (\<lambda>rc.
    if rc = -1 then return i else piperead_loop k pr pi addr (i + 1)))))"

definition piperead :: "'z filestate_scheme env \<Rightarrow> u64 \<Rightarrow> u64 \<Rightarrow> int \<Rightarrow> ('z filestate_scheme, int) kM" where
  "piperead E pi addr n =
    bind myproc (\<lambda>p. with_ptr p (\<lambda>pr.
    seq (acquire (KPipe pi))
    (bind (piperead_wait (Suc (e_fuel E)) E pr pi) (\<lambda>go.
    if \<not> go then return (-1) else
    bind (piperead_loop (nat n) pr pi addr 0) (\<lambda>i.
    seq (wakeup (Some (ChPipeWrite pi)))
    (seq (release (KPipe pi)) (return i)))))))"

section \<open>Files\<close>

definition fileinit :: "('z filestate_scheme, unit) kM" where
  "fileinit = modify (initlock KFtable ''ftable'')"

definition filealloc_one :: "nat \<Rightarrow> ('z filestate_scheme, nat option) kM" where
  "filealloc_one f =
    bind (gets (\<lambda>s. f_ref (ftable s f))) (\<lambda>ref.
    if ref = 0 then
      seq (modify (upd_file f (\<lambda>r. r\<lparr>f_ref := 1\<rparr>)))
      (seq (release KFtable) (return (Some f)))
    else return None)"

definition filealloc :: "('z filestate_scheme, nat option) kM" where
  "filealloc =
    seq (acquire KFtable)
    (bind (for_until [0..<NFILE] filealloc_one) (\<lambda>r. case r of
      Some f \<Rightarrow> return (Some f)
    | None \<Rightarrow> seq (release KFtable) (return None)))"

definition filedup :: "nat \<Rightarrow> ('z filestate_scheme, nat) kM" where
  "filedup f =
    seq (acquire KFtable)
    (bind (gets (\<lambda>s. f_ref (ftable s f))) (\<lambda>ref.
    if ref < 1 then panic ''filedup'' else
    seq (modify (upd_file f (\<lambda>r. r\<lparr>f_ref := f_ref r + 1\<rparr>)))
    (seq (release KFtable) (return f))))"

definition fileclose :: "'z filestate_scheme env \<Rightarrow> nat \<Rightarrow> ('z filestate_scheme, unit) kM" where
  "fileclose E f =
    seq (acquire KFtable)
    (bind (gets (\<lambda>s. f_ref (ftable s f))) (\<lambda>ref.
    if ref < 1 then panic ''fileclose'' else
    seq (modify (upd_file f (\<lambda>r. r\<lparr>f_ref := f_ref r - 1\<rparr>)))
    (bind (gets (\<lambda>s. ftable s f)) (\<lambda>ff.
    if f_ref ff > 0 then release KFtable else
    seq (modify (upd_file f (\<lambda>r. r\<lparr>f_ref := 0, f_type := FD_NONE\<rparr>)))
    (seq (release KFtable)
    (case f_type ff of
       FD_PIPE \<Rightarrow> pipeclose (f_pipe ff) (f_writable ff)
     | FD_NONE \<Rightarrow> return ()
     | _ \<Rightarrow> seq (begin_op E) (seq (with_ptr (f_ip ff) (iput E)) (end_op E))))))))"

definition stat_bytes :: "stat \<Rightarrow> u8 list" where
  "stat_bytes st = le_bytes 4 (of_int (st_dev st) :: u32) @ le_bytes 4 (st_ino st) @ le_bytes 2 (st_type st) @
     le_bytes 2 (st_nlink st) @ replicate 4 0 @ le_bytes 8 (st_size st)"

definition filestat :: "'z filestate_scheme env \<Rightarrow> nat \<Rightarrow> u64 \<Rightarrow> ('z filestate_scheme, int) kM" where
  "filestat E f addr =
    bind myproc (\<lambda>p.
    bind (gets (\<lambda>s. ftable s f)) (\<lambda>r.
    if f_type r = FD_INODE \<or> f_type r = FD_DEVICE then
      seq (ilock E (f_ip r))
      (bind (with_ptr (f_ip r) stati) (\<lambda>st.
      seq (iunlock (f_ip r))
      (with_ptr p (\<lambda>p.
      bind (gets (\<lambda>s. p_pagetable (proc s p))) (\<lambda>pt.
      bind (copyout pt addr (stat_bytes st)) (\<lambda>rc.
      return (if rc < 0 then -1 else 0)))))))
    else return (-1)))"

text \<open>\<^verbatim>\<open>devsw[major].read\<close> and \<^verbatim>\<open>.write\<close>: \<open>None\<close> for a device that is
  not connected.\<close>

definition devsw_read :: "int \<Rightarrow> ('z filestate_scheme env \<Rightarrow> bool \<Rightarrow> u64 \<Rightarrow> int \<Rightarrow> ('z filestate_scheme, int) kM) option" where
  "devsw_read major = (if major = CONSOLE then Some consoleread else None)"

definition devsw_write :: "int \<Rightarrow> ('z filestate_scheme env \<Rightarrow> bool \<Rightarrow> u64 \<Rightarrow> int \<Rightarrow> ('z filestate_scheme, int) kM) option" where
  "devsw_write major = (if major = CONSOLE then Some consolewrite else None)"

definition fileread :: "'z filestate_scheme env \<Rightarrow> nat \<Rightarrow> u64 \<Rightarrow> int \<Rightarrow> ('z filestate_scheme, int) kM" where
  "fileread E f addr n =
    bind (gets (\<lambda>s. ftable s f)) (\<lambda>r.
    if \<not> f_readable r then return (-1) else
    case f_type r of
      FD_PIPE \<Rightarrow> piperead E (f_pipe r) addr n
    | FD_DEVICE \<Rightarrow>
        (let major = sint (f_major r) in
         if major < 0 \<or> major \<ge> NDEV then return (-1) else
         (case devsw_read major of None \<Rightarrow> return (-1) | Some rd \<Rightarrow> rd E True addr n))
    | FD_INODE \<Rightarrow>
        seq (ilock E (f_ip r))
        (bind (with_ptr (f_ip r) (\<lambda>ip. readi E ip (UserPtr addr) (f_off r) (of_int n))) (\<lambda>(rc, _).
        seq (whenM (rc > 0) (modify (upd_file f (\<lambda>r. r\<lparr>f_off := f_off r + of_int rc\<rparr>))))
        (seq (iunlock (f_ip r))
        (return rc))))
    | FD_NONE \<Rightarrow> panic ''fileread'')"

text \<open>The largest write that fits into one transaction, and the loop of \<open>filewrite\<close> over the
  pieces of at most that size; \<open>n\<close> rounds are enough.\<close>

definition filewrite_max :: int where
  "filewrite_max = ((MAXOPBLOCKS - 1 - 1 - 2) div 2) * int BSIZE"

primrec filewrite_loop :: "nat \<Rightarrow> 'z filestate_scheme env \<Rightarrow> nat \<Rightarrow> u64 \<Rightarrow> int \<Rightarrow> int \<Rightarrow> ('z filestate_scheme, int) kM" where
  "filewrite_loop 0 E f addr n i = (if i < n then hang else return i)"
| "filewrite_loop (Suc k) E f addr n i =
    (if \<not> i < n then return i else
     let n1 = (if n - i > filewrite_max then filewrite_max else n - i) in
     seq (begin_op E)
     (bind (gets (\<lambda>s. f_ip (ftable s f))) (\<lambda>ip.
     seq (ilock E ip)
     (bind (gets (\<lambda>s. f_off (ftable s f))) (\<lambda>off.
     bind (with_ptr ip (\<lambda>ip. writei E ip (UserSrc (addr + of_int i)) off (of_int n1))) (\<lambda>r.
     seq (whenM (r > 0) (modify (upd_file f (\<lambda>x. x\<lparr>f_off := f_off x + of_int r\<rparr>))))
     (seq (iunlock ip)
     (seq (end_op E)
     (if r \<noteq> n1 then return i
      else filewrite_loop k E f addr n (i + r))))))))))"

definition filewrite :: "'z filestate_scheme env \<Rightarrow> nat \<Rightarrow> u64 \<Rightarrow> int \<Rightarrow> ('z filestate_scheme, int) kM" where
  "filewrite E f addr n =
    bind (gets (\<lambda>s. ftable s f)) (\<lambda>r.
    if \<not> f_writable r then return (-1) else
    case f_type r of
      FD_PIPE \<Rightarrow> pipewrite E (f_pipe r) addr n
    | FD_DEVICE \<Rightarrow>
        (let major = sint (f_major r) in
         if major < 0 \<or> major \<ge> NDEV then return (-1) else
         (case devsw_write major of None \<Rightarrow> return (-1) | Some wr \<Rightarrow> wr E True addr n))
    | FD_INODE \<Rightarrow>
        bind (filewrite_loop (nat n) E f addr n 0) (\<lambda>i. return (if i = n then n else -1))
    | FD_NONE \<Rightarrow> panic ''filewrite'')"

text \<open>The two files of a new pipe, and the exits of \<open>pipealloc\<close> through the label
  \<^verbatim>\<open>bad\<close>.\<close>

definition pipealloc_bad :: "'z filestate_scheme env \<Rightarrow> nat option \<Rightarrow> nat option
    \<Rightarrow> ('z filestate_scheme, (nat \<times> nat) option) kM" where
  "pipealloc_bad E f0 f1 =
    seq (case f0 of Some f \<Rightarrow> fileclose E f | None \<Rightarrow> return ())
    (seq (case f1 of Some f \<Rightarrow> fileclose E f | None \<Rightarrow> return ())
    (return None))"

definition pipealloc :: "'z filestate_scheme env \<Rightarrow> ('z filestate_scheme, (nat \<times> nat) option) kM" where
  "pipealloc E =
    bind filealloc (\<lambda>f0. case f0 of None \<Rightarrow> pipealloc_bad E None None | Some a \<Rightarrow>
    bind filealloc (\<lambda>f1. case f1 of None \<Rightarrow> pipealloc_bad E (Some a) None | Some b \<Rightarrow>
    bind kalloc (\<lambda>pi.
    if pi = 0 then pipealloc_bad E (Some a) (Some b) else
    seq (modify (upd_pipe pi (\<lambda>r. r\<lparr>pi_readopen := True, pi_writeopen := True, pi_nwrite := 0, pi_nread := 0\<rparr>)))
    (seq (modify (initlock (KPipe pi) ''pipe''))
    (seq (modify (upd_file a (\<lambda>r. r\<lparr>f_type := FD_PIPE, f_readable := True, f_writable := False, f_pipe := pi\<rparr>)))
    (seq (modify (upd_file b (\<lambda>r. r\<lparr>f_type := FD_PIPE, f_readable := False, f_writable := True, f_pipe := pi\<rparr>)))
    (return (Some (a, b)))))))))"

section \<open>Processes with files\<close>

text \<open>Words of the trap frame, by their offset in \<^verbatim>\<open>struct trapframe\<close>.\<close>

definition TF_SIZE :: nat where "TF_SIZE = 288"

abbreviation tf_kernel_satp :: u64 where "tf_kernel_satp \<equiv> 0"
abbreviation tf_kernel_sp :: u64 where "tf_kernel_sp \<equiv> 8"
abbreviation tf_kernel_trap :: u64 where "tf_kernel_trap \<equiv> 16"
abbreviation tf_epc :: u64 where "tf_epc \<equiv> 24"
abbreviation tf_kernel_hartid :: u64 where "tf_kernel_hartid \<equiv> 32"
abbreviation tf_sp :: u64 where "tf_sp \<equiv> 48"
abbreviation tf_a0 :: u64 where "tf_a0 \<equiv> 112"
abbreviation tf_a7 :: u64 where "tf_a7 \<equiv> 168"

definition tf_get :: "nat \<Rightarrow> u64 \<Rightarrow> ('z pstate_scheme, u64) kM" where
  "tf_get p off = gets (\<lambda>s. load64 (mem s) (p_trapframe (proc s p) + off))"

definition tf_set :: "nat \<Rightarrow> u64 \<Rightarrow> u64 \<Rightarrow> ('z pstate_scheme, unit) kM" where
  "tf_set p off v = modify (\<lambda>s. s\<lparr>mem := store64 (p_trapframe (proc s p) + off) v (mem s)\<rparr>)"

definition cname :: "string \<Rightarrow> bytes_at" where
  "cname nm = bytes_of (map of_char nm)"

text \<open>\<open>initcode\<close> is the binary of the first user program.\<close>

definition userinit :: "'z filestate_scheme env \<Rightarrow> u8 list \<Rightarrow> ('z filestate_scheme, unit) kM" where
  "userinit E initcode =
    bind allocproc (\<lambda>r.
    seq (modify (\<lambda>s. s\<lparr>initproc := r\<rparr>))
    (with_ptr r (\<lambda>p.
    bind (gets (\<lambda>s. p_pagetable (proc s p))) (\<lambda>pt.
    seq (uvmfirst pt initcode)
    (seq (modify (upd_proc p (\<lambda>r. r\<lparr>p_sz := PGSIZE\<rparr>)))
    (seq (tf_set p tf_epc 0)
    (seq (tf_set p tf_sp PGSIZE)
    (seq (modify (upd_proc p (\<lambda>r. r\<lparr>p_name := safestrcpy (p_name r) (cname ''initcode'') 16\<rparr>)))
    (bind (namei E [slash]) (\<lambda>cwd.
    seq (modify (upd_proc p (\<lambda>r. r\<lparr>p_cwd := cwd\<rparr>)))
    (seq (modify (upd_proc p (\<lambda>r. r\<lparr>p_state := RUNNABLE\<rparr>)))
    (release (KProc p)))))))))))))"

definition fork_file :: "nat \<Rightarrow> nat \<Rightarrow> nat \<Rightarrow> ('z filestate_scheme, unit) kM" where
  "fork_file p np i =
    bind (gets (\<lambda>s. p_ofile (proc s p) ! i)) (\<lambda>f. case f of
      None \<Rightarrow> return ()
    | Some f \<Rightarrow> bind (filedup f) (\<lambda>f. modify (upd_proc np (\<lambda>r. r\<lparr>p_ofile := (p_ofile r)[i := Some f]\<rparr>))))"

text \<open>\<^verbatim>\<open>*(np->trapframe) = *(p->trapframe)\<close>.\<close>

definition copy_trapframe :: "u64 \<Rightarrow> u64 \<Rightarrow> ('z pstate_scheme, unit) kM" where
  "copy_trapframe dst src = modify (\<lambda>s. s\<lparr>mem := write_bytes dst (read_bytes (mem s) src TF_SIZE) (mem s)\<rparr>)"

definition fork :: "('z filestate_scheme, int) kM" where
  "fork =
    bind myproc (\<lambda>me. with_ptr me (\<lambda>p.
    bind allocproc (\<lambda>r. case r of None \<Rightarrow> return (-1) | Some np \<Rightarrow>
    bind (gets (\<lambda>s. (p_pagetable (proc s p), p_pagetable (proc s np), p_sz (proc s p)))) (\<lambda>(pt, npt, sz).
    bind (uvmcopy pt npt sz) (\<lambda>rc.
    if rc < 0 then seq (freeproc np) (seq (release (KProc np)) (return (-1))) else
    seq (modify (\<lambda>s. upd_proc np (\<lambda>r. r\<lparr>p_sz := p_sz (proc s p)\<rparr>) s))
    (bind (gets (\<lambda>s. (p_trapframe (proc s np), p_trapframe (proc s p)))) (\<lambda>(dst, src).
    seq (copy_trapframe dst src)
    (seq (modify (\<lambda>s. upd_proc np (\<lambda>r. r\<lparr>p_trace_flag := p_trace_flag (proc s p)\<rparr>) s))
    (seq (tf_set np tf_a0 0)
    (seq (for_each [0..<NOFILE] (fork_file p np))
    (bind (gets (\<lambda>s. p_cwd (proc s p))) (\<lambda>cwd.
    bind (with_ptr cwd idup) (\<lambda>cwd.
    seq (modify (upd_proc np (\<lambda>r. r\<lparr>p_cwd := Some cwd\<rparr>)))
    (seq (modify (\<lambda>s. upd_proc np (\<lambda>r. r\<lparr>p_name := safestrcpy (p_name r) (bytes_of (p_name (proc s p))) 16\<rparr>) s))
    (bind (gets (\<lambda>s. p_pid (proc s np))) (\<lambda>pid.
    seq (release (KProc np))
    (seq (acquire KWait)
    (seq (modify (upd_proc np (\<lambda>r. r\<lparr>p_parent := Some p\<rparr>)))
    (seq (release KWait)
    (seq (acquire (KProc np))
    (seq (modify (upd_proc np (\<lambda>r. r\<lparr>p_state := RUNNABLE\<rparr>)))
    (seq (release (KProc np))
    (return pid)))))))))))))))))))))))"

definition exit_file :: "'z filestate_scheme env \<Rightarrow> nat \<Rightarrow> nat \<Rightarrow> ('z filestate_scheme, unit) kM" where
  "exit_file E p fd =
    bind (gets (\<lambda>s. p_ofile (proc s p) ! fd)) (\<lambda>f. case f of
      None \<Rightarrow> return ()
    | Some f \<Rightarrow> seq (fileclose E f) (modify (upd_proc p (\<lambda>r. r\<lparr>p_ofile := (p_ofile r)[fd := None]\<rparr>))))"

definition exit :: "'z filestate_scheme env \<Rightarrow> int \<Rightarrow> ('z filestate_scheme, unit) kM" where
  "exit E status =
    bind myproc (\<lambda>me.
    bind (gets (\<lambda>s. initproc s = me)) (\<lambda>is_init.
    if is_init then panic ''init exiting'' else
    with_ptr me (\<lambda>p.
    seq (for_each [0..<NOFILE] (exit_file E p))
    (seq (begin_op E)
    (bind (gets (\<lambda>s. p_cwd (proc s p))) (\<lambda>cwd.
    seq (with_ptr cwd (iput E))
    (seq (end_op E)
    (seq (modify (upd_proc p (\<lambda>r. r\<lparr>p_cwd := None\<rparr>)))
    (seq (acquire KWait)
    (seq (reparent p)
    (bind (gets (\<lambda>s. p_parent (proc s p))) (\<lambda>pp.
    seq (wakeup (map_option ChProc pp))
    (seq (acquire (KProc p))
    (seq (modify (\<lambda>s. upd_proc p (\<lambda>r. r\<lparr>p_xstate := status, p_state := ZOMBIE, p_etime := ticks s\<rparr>) s))
    (seq (release KWait)
    (seq (sched (e_sw E))
    (panic ''zombie exit'')))))))))))))))))"

end
