(* ===== verification/Virtio.thy ===== *)
theory Virtio
  imports File
begin

text \<open>
  The disk driver: \<^verbatim>\<open>kernel/virtio_disk.c\<close> and \<^verbatim>\<open>kernel/virtio.h\<close>.

  The device is not part of the program. Its registers answer as \<open>vio_in\<close> says, an arbitrary
  function of the number of the read and the register, and the writes are recorded in
  \<open>vio_out\<close>. What the device does to the rings, the buffers and the status bytes happens while
  the driver sleeps. The descriptor table and the two rings live in pages shared with the device;
  they are kept here as typed arrays, and the DMA address of a descriptor names the object it
  points to.
\<close>

section \<open>State\<close>

definition NUM :: nat where "NUM = 8"

abbreviation VRING_DESC_F_NEXT :: u16 where "VRING_DESC_F_NEXT \<equiv> 1"
abbreviation VRING_DESC_F_WRITE :: u16 where "VRING_DESC_F_WRITE \<equiv> 2"
abbreviation VIRTIO_BLK_T_IN :: u32 where "VIRTIO_BLK_T_IN \<equiv> 0"
abbreviation VIRTIO_BLK_T_OUT :: u32 where "VIRTIO_BLK_T_OUT \<equiv> 1"

abbreviation VIRTIO_MMIO_MAGIC_VALUE :: u64 where "VIRTIO_MMIO_MAGIC_VALUE \<equiv> 0x000"
abbreviation VIRTIO_MMIO_VERSION :: u64 where "VIRTIO_MMIO_VERSION \<equiv> 0x004"
abbreviation VIRTIO_MMIO_DEVICE_ID :: u64 where "VIRTIO_MMIO_DEVICE_ID \<equiv> 0x008"
abbreviation VIRTIO_MMIO_VENDOR_ID :: u64 where "VIRTIO_MMIO_VENDOR_ID \<equiv> 0x00c"
abbreviation VIRTIO_MMIO_DEVICE_FEATURES :: u64 where "VIRTIO_MMIO_DEVICE_FEATURES \<equiv> 0x010"
abbreviation VIRTIO_MMIO_DRIVER_FEATURES :: u64 where "VIRTIO_MMIO_DRIVER_FEATURES \<equiv> 0x020"
abbreviation VIRTIO_MMIO_QUEUE_SEL :: u64 where "VIRTIO_MMIO_QUEUE_SEL \<equiv> 0x030"
abbreviation VIRTIO_MMIO_QUEUE_NUM_MAX :: u64 where "VIRTIO_MMIO_QUEUE_NUM_MAX \<equiv> 0x034"
abbreviation VIRTIO_MMIO_QUEUE_NUM :: u64 where "VIRTIO_MMIO_QUEUE_NUM \<equiv> 0x038"
abbreviation VIRTIO_MMIO_QUEUE_READY :: u64 where "VIRTIO_MMIO_QUEUE_READY \<equiv> 0x044"
abbreviation VIRTIO_MMIO_QUEUE_NOTIFY :: u64 where "VIRTIO_MMIO_QUEUE_NOTIFY \<equiv> 0x050"
abbreviation VIRTIO_MMIO_INTERRUPT_STATUS :: u64 where "VIRTIO_MMIO_INTERRUPT_STATUS \<equiv> 0x060"
abbreviation VIRTIO_MMIO_INTERRUPT_ACK :: u64 where "VIRTIO_MMIO_INTERRUPT_ACK \<equiv> 0x064"
abbreviation VIRTIO_MMIO_STATUS :: u64 where "VIRTIO_MMIO_STATUS \<equiv> 0x070"
abbreviation VIRTIO_MMIO_QUEUE_DESC_LOW :: u64 where "VIRTIO_MMIO_QUEUE_DESC_LOW \<equiv> 0x080"
abbreviation VIRTIO_MMIO_QUEUE_DESC_HIGH :: u64 where "VIRTIO_MMIO_QUEUE_DESC_HIGH \<equiv> 0x084"
abbreviation VIRTIO_MMIO_DRIVER_DESC_LOW :: u64 where "VIRTIO_MMIO_DRIVER_DESC_LOW \<equiv> 0x090"
abbreviation VIRTIO_MMIO_DRIVER_DESC_HIGH :: u64 where "VIRTIO_MMIO_DRIVER_DESC_HIGH \<equiv> 0x094"
abbreviation VIRTIO_MMIO_DEVICE_DESC_LOW :: u64 where "VIRTIO_MMIO_DEVICE_DESC_LOW \<equiv> 0x0a0"
abbreviation VIRTIO_MMIO_DEVICE_DESC_HIGH :: u64 where "VIRTIO_MMIO_DEVICE_DESC_HIGH \<equiv> 0x0a4"

datatype dma = DmaNull | DmaOps nat | DmaBuf nat | DmaStatus nat

record virtq_desc =
  vd_addr :: dma
  vd_len :: u32
  vd_flags :: u16
  vd_next :: u16

record virtio_blk_req =
  rq_type :: u32
  rq_reserved :: u32
  rq_sector :: u64

record vdisk =
  vk_desc_page :: u64
  vk_avail_page :: u64
  vk_used_page :: u64
  vk_desc :: "nat \<Rightarrow> virtq_desc"
  vk_avail_idx :: u16
  vk_avail_ring :: "nat \<Rightarrow> u16"
  vk_used_ring_idx :: u16
  vk_used_ring :: "nat \<Rightarrow> u32"
  vk_free :: "nat \<Rightarrow> bool"
  vk_used_idx :: u16
  vk_info_b :: "nat \<Rightarrow> nat option"
  vk_info_status :: "nat \<Rightarrow> u8"
  vk_ops :: "nat \<Rightarrow> virtio_blk_req"

record vdstate = filestate +
  vio_in :: "nat \<Rightarrow> u64 \<Rightarrow> u32"
  vio_nreads :: nat
  vio_out :: "(u64 \<times> u32) list"
  disk :: vdisk

definition upd_disk :: "(vdisk \<Rightarrow> vdisk) \<Rightarrow> 'z vdstate_scheme \<Rightarrow> 'z vdstate_scheme" where
  "upd_disk f s = s\<lparr>disk := f (disk s)\<rparr>"

definition vio_read :: "u64 \<Rightarrow> ('z vdstate_scheme, u32) kM" where
  "vio_read r =
    bind (gets (\<lambda>s. vio_in s (vio_nreads s) r)) (\<lambda>v.
    seq (modify (\<lambda>s. s\<lparr>vio_nreads := vio_nreads s + 1\<rparr>)) (return v))"

definition vio_write :: "u64 \<Rightarrow> u32 \<Rightarrow> ('z vdstate_scheme, unit) kM" where
  "vio_write r v = modify (\<lambda>s. s\<lparr>vio_out := vio_out s @ [(r, v)]\<rparr>)"

section \<open>Initialisation\<close>

abbreviation VIRTIO_CONFIG_S_ACKNOWLEDGE :: u32 where "VIRTIO_CONFIG_S_ACKNOWLEDGE \<equiv> 1"
abbreviation VIRTIO_CONFIG_S_DRIVER :: u32 where "VIRTIO_CONFIG_S_DRIVER \<equiv> 2"
abbreviation VIRTIO_CONFIG_S_DRIVER_OK :: u32 where "VIRTIO_CONFIG_S_DRIVER_OK \<equiv> 4"
abbreviation VIRTIO_CONFIG_S_FEATURES_OK :: u32 where "VIRTIO_CONFIG_S_FEATURES_OK \<equiv> 8"

text \<open>The feature bits the driver turns down: \<^verbatim>\<open>RO\<close>, \<^verbatim>\<open>SCSI\<close>,
  \<^verbatim>\<open>CONFIG_WCE\<close>, \<^verbatim>\<open>MQ\<close>, \<^verbatim>\<open>ANY_LAYOUT\<close>,
  \<^verbatim>\<open>EVENT_IDX\<close>, \<^verbatim>\<open>INDIRECT_DESC\<close>.\<close>

definition refused_features :: "nat list" where
  "refused_features = [5, 7, 11, 12, 27, 29, 28]"

definition negotiate :: "u32 \<Rightarrow> u32" where
  "negotiate features = fold (\<lambda>b f. f AND NOT (push_bit b 1)) refused_features features"

definition vio_identify :: "('z vdstate_scheme, bool) kM" where
  "vio_identify =
    bind (vio_read VIRTIO_MMIO_MAGIC_VALUE) (\<lambda>m. if m \<noteq> 0x74726976 then return False else
    bind (vio_read VIRTIO_MMIO_VERSION) (\<lambda>v. if v \<noteq> 2 then return False else
    bind (vio_read VIRTIO_MMIO_DEVICE_ID) (\<lambda>d. if d \<noteq> 2 then return False else
    bind (vio_read VIRTIO_MMIO_VENDOR_ID) (\<lambda>v. return (v = 0x554d4551)))))"

text \<open>Allocating the queue memory and telling the device about it.\<close>

definition vio_setup_queue :: "('z vdstate_scheme, unit) kM" where
  "vio_setup_queue =
    bind kalloc (\<lambda>d. bind kalloc (\<lambda>a. bind kalloc (\<lambda>u.
    seq (modify (upd_disk (\<lambda>k. k\<lparr>vk_desc_page := d, vk_avail_page := a, vk_used_page := u\<rparr>)))
    (if d = 0 \<or> a = 0 \<or> u = 0 then panic ''virtio disk kalloc'' else
    seq (modify (\<lambda>s. s\<lparr>mem := memset u 0 4096 (memset a 0 4096 (memset d 0 4096 (mem s)))\<rparr>))
    (seq (modify (upd_disk (\<lambda>k. k\<lparr>
       vk_desc := (\<lambda>_. \<lparr>vd_addr = DmaNull, vd_len = 0, vd_flags = 0, vd_next = 0\<rparr>),
       vk_avail_idx := 0, vk_avail_ring := (\<lambda>_. 0), vk_used_ring_idx := 0, vk_used_ring := (\<lambda>_. 0)\<rparr>)))
    (seq (vio_write VIRTIO_MMIO_QUEUE_NUM (of_nat NUM))
    (seq (vio_write VIRTIO_MMIO_QUEUE_DESC_LOW (ucast d))
    (seq (vio_write VIRTIO_MMIO_QUEUE_DESC_HIGH (ucast (drop_bit 32 d)))
    (seq (vio_write VIRTIO_MMIO_DRIVER_DESC_LOW (ucast a))
    (seq (vio_write VIRTIO_MMIO_DRIVER_DESC_HIGH (ucast (drop_bit 32 a)))
    (seq (vio_write VIRTIO_MMIO_DEVICE_DESC_LOW (ucast u))
    (vio_write VIRTIO_MMIO_DEVICE_DESC_HIGH (ucast (drop_bit 32 u))))))))))))))"

definition virtio_disk_init :: "('z vdstate_scheme, unit) kM" where
  "virtio_disk_init =
    seq (modify (initlock KVdisk ''virtio_disk''))
    (bind vio_identify (\<lambda>found.
    if \<not> found then panic ''could not find virtio disk'' else
    seq (vio_write VIRTIO_MMIO_STATUS 0)
    (let status = VIRTIO_CONFIG_S_ACKNOWLEDGE in
    seq (vio_write VIRTIO_MMIO_STATUS status)
    (let status = status OR VIRTIO_CONFIG_S_DRIVER in
    seq (vio_write VIRTIO_MMIO_STATUS status)
    (bind (vio_read VIRTIO_MMIO_DEVICE_FEATURES) (\<lambda>features.
    seq (vio_write VIRTIO_MMIO_DRIVER_FEATURES (negotiate features))
    (let status = status OR VIRTIO_CONFIG_S_FEATURES_OK in
    seq (vio_write VIRTIO_MMIO_STATUS status)
    (bind (vio_read VIRTIO_MMIO_STATUS) (\<lambda>status.
    if status AND VIRTIO_CONFIG_S_FEATURES_OK = 0 then panic ''virtio disk FEATURES_OK unset'' else
    seq (vio_write VIRTIO_MMIO_QUEUE_SEL 0)
    (bind (vio_read VIRTIO_MMIO_QUEUE_READY) (\<lambda>ready.
    if ready \<noteq> 0 then panic ''virtio disk should not be ready'' else
    bind (vio_read VIRTIO_MMIO_QUEUE_NUM_MAX) (\<lambda>qmax.
    if qmax = 0 then panic ''virtio disk has no queue 0'' else
    if qmax < of_nat NUM then panic ''virtio disk max queue too short'' else
    seq vio_setup_queue
    (seq (vio_write VIRTIO_MMIO_QUEUE_READY 1)
    (seq (modify (upd_disk (\<lambda>k. k\<lparr>vk_free := (\<lambda>i. i < NUM)\<rparr>)))
    (vio_write VIRTIO_MMIO_STATUS (status OR VIRTIO_CONFIG_S_DRIVER_OK))))))))))))))))"

section \<open>Descriptors\<close>

definition alloc_desc :: "('z vdstate_scheme, nat option) kM" where
  "alloc_desc =
    bind (gets (\<lambda>s. find (vk_free (disk s)) [0..<NUM])) (\<lambda>r. case r of
      None \<Rightarrow> return None
    | Some i \<Rightarrow> seq (modify (upd_disk (\<lambda>k. k\<lparr>vk_free := (vk_free k)(i := False)\<rparr>))) (return (Some i)))"

definition free_desc :: "nat \<Rightarrow> ('z vdstate_scheme, unit) kM" where
  "free_desc i =
    (if i \<ge> NUM then panic ''free_desc 1'' else
     bind (gets (\<lambda>s. vk_free (disk s) i)) (\<lambda>fr.
     if fr then panic ''free_desc 2'' else
     seq (modify (upd_disk (\<lambda>k. k\<lparr>
       vk_desc := (vk_desc k)(i := \<lparr>vd_addr = DmaNull, vd_len = 0, vd_flags = 0, vd_next = 0\<rparr>),
       vk_free := (vk_free k)(i := True)\<rparr>)))
     (wakeup (Some ChDiskDesc))))"

text \<open>Every round of \<open>free_chain\<close> frees a descriptor that was in use or panics, so
  \<^verbatim>\<open>NUM + 1\<close> rounds are enough.\<close>

primrec free_chain_loop :: "nat \<Rightarrow> nat \<Rightarrow> ('z vdstate_scheme, unit) kM" where
  "free_chain_loop 0 i = hang"
| "free_chain_loop (Suc n) i =
    bind (gets (\<lambda>s. vk_desc (disk s) i)) (\<lambda>d.
    seq (free_desc i)
    (if vd_flags d AND VRING_DESC_F_NEXT \<noteq> 0 then free_chain_loop n (unat (vd_next d)) else return ()))"

definition free_chain :: "nat \<Rightarrow> ('z vdstate_scheme, unit) kM" where
  "free_chain i = free_chain_loop (Suc NUM) i"

text \<open>The descriptors allocated so far are \<open>idx\<close>; a failure frees them again.\<close>

primrec alloc3_loop :: "nat \<Rightarrow> nat list \<Rightarrow> ('z vdstate_scheme, nat list option) kM" where
  "alloc3_loop 0 idx = return (Some idx)"
| "alloc3_loop (Suc n) idx =
    bind alloc_desc (\<lambda>r. case r of
      Some i \<Rightarrow> alloc3_loop n (idx @ [i])
    | None \<Rightarrow> seq (for_each idx free_desc) (return None))"

definition alloc3_desc :: "('z vdstate_scheme, nat list option) kM" where
  "alloc3_desc = alloc3_loop 3 []"

section \<open>Requests\<close>

primrec vio_get_desc :: "nat \<Rightarrow> 'z vdstate_scheme env \<Rightarrow> ('z vdstate_scheme, nat list) kM" where
  "vio_get_desc 0 E = hang"
| "vio_get_desc (Suc n) E =
    bind alloc3_desc (\<lambda>r. case r of
      Some idx \<Rightarrow> return idx
    | None \<Rightarrow> seq (sleep (e_sw E) (Some ChDiskDesc) KVdisk) (vio_get_desc n E))"

text \<open>Formatting the three descriptors of a request for buffer \<open>b\<close>.\<close>

definition format_request :: "nat \<Rightarrow> bool \<Rightarrow> u64 \<Rightarrow> nat \<Rightarrow> nat \<Rightarrow> nat \<Rightarrow> vdisk \<Rightarrow> vdisk" where
  "format_request b write sector i0 i1 i2 k =
    k\<lparr>vk_ops := (vk_ops k)(i0 := \<lparr>rq_type = (if write then VIRTIO_BLK_T_OUT else VIRTIO_BLK_T_IN),
                               rq_reserved = 0, rq_sector = sector\<rparr>),
      vk_desc := (vk_desc k)
        (i0 := \<lparr>vd_addr = DmaOps i0, vd_len = 16, vd_flags = VRING_DESC_F_NEXT, vd_next = of_nat i1\<rparr>,
         i1 := \<lparr>vd_addr = DmaBuf b, vd_len = of_nat BSIZE,
                vd_flags = (if write then 0 else VRING_DESC_F_WRITE) OR VRING_DESC_F_NEXT, vd_next = of_nat i2\<rparr>,
         i2 := \<lparr>vd_addr = DmaStatus i0, vd_len = 1, vd_flags = VRING_DESC_F_WRITE, vd_next = 0\<rparr>),
      vk_info_status := (vk_info_status k)(i0 := 0xff),
      vk_info_b := (vk_info_b k)(i0 := Some b)\<rparr>"

definition post_request :: "nat \<Rightarrow> vdisk \<Rightarrow> vdisk" where
  "post_request i0 k =
    k\<lparr>vk_avail_ring := (vk_avail_ring k)(unat (vk_avail_idx k) mod NUM := of_nat i0),
      vk_avail_idx := vk_avail_idx k + 1\<rparr>"

definition virtio_disk_rw :: "'z vdstate_scheme env \<Rightarrow> nat \<Rightarrow> bool \<Rightarrow> ('z vdstate_scheme, unit) kM" where
  "virtio_disk_rw E b write =
    bind (gets (\<lambda>s. ucast (b_blockno (bufs s b) * (of_nat BSIZE div 512)))) (\<lambda>sector.
    seq (acquire KVdisk)
    (bind (vio_get_desc (Suc (e_fuel E)) E) (\<lambda>idx.
    let i0 = idx ! 0; i1 = idx ! 1; i2 = idx ! 2 in
    seq (modify (upd_disk (format_request b write sector i0 i1 i2)))
    (seq (modify (upd_buf b (\<lambda>r. r\<lparr>b_disk := True\<rparr>)))
    (seq (modify (upd_disk (post_request i0)))
    (seq (vio_write VIRTIO_MMIO_QUEUE_NOTIFY 0)
    (seq (while_fuel (e_fuel E) (\<lambda>s. b_disk (bufs s b)) (sleep (e_sw E) (Some (ChDiskBuf b)) KVdisk))
    (seq (modify (upd_disk (\<lambda>k. k\<lparr>vk_info_b := (vk_info_b k)(i0 := None)\<rparr>)))
    (seq (free_chain i0)
    (release KVdisk))))))))))"

text \<open>The completions between \<^verbatim>\<open>disk.used_idx\<close> and \<^verbatim>\<open>disk.used->idx\<close>, both of
  16 bits.\<close>

definition intr_one :: "('z vdstate_scheme, unit) kM" where
  "intr_one =
    bind (gets (\<lambda>s. unat (vk_used_ring (disk s) (unat (vk_used_idx (disk s)) mod NUM)))) (\<lambda>id.
    bind (gets (\<lambda>s. vk_info_status (disk s) id)) (\<lambda>st.
    if st \<noteq> 0 then panic ''virtio_disk_intr status'' else
    bind (gets (\<lambda>s. vk_info_b (disk s) id)) (\<lambda>b.
    with_ptr b (\<lambda>b.
    seq (modify (upd_buf b (\<lambda>r. r\<lparr>b_disk := False\<rparr>)))
    (seq (wakeup (Some (ChDiskBuf b)))
    (modify (upd_disk (\<lambda>k. k\<lparr>vk_used_idx := vk_used_idx k + 1\<rparr>))))))))"

primrec intr_loop :: "nat \<Rightarrow> ('z vdstate_scheme, unit) kM" where
  "intr_loop 0 = return ()"
| "intr_loop (Suc n) =
    bind (gets (\<lambda>s. vk_used_idx (disk s) = vk_used_ring_idx (disk s))) (\<lambda>fin.
    if fin then return () else seq intr_one (intr_loop n))"

definition virtio_disk_intr :: "('z vdstate_scheme, unit) kM" where
  "virtio_disk_intr =
    seq (acquire KVdisk)
    (seq (bind (vio_read VIRTIO_MMIO_INTERRUPT_STATUS) (\<lambda>v. vio_write VIRTIO_MMIO_INTERRUPT_ACK (v AND 3)))
    (seq (bind (gets (\<lambda>s. unat (vk_used_ring_idx (disk s) - vk_used_idx (disk s)))) intr_loop)
    (release KVdisk)))"

text \<open>An environment whose block operations go through this driver.\<close>

definition with_disk :: "'z vdstate_scheme env \<Rightarrow> 'z vdstate_scheme env" where
  "with_disk E = E\<lparr>e_rw := virtio_disk_rw E\<rparr>"

end
