(* ===== verification/Sysfile.thy ===== *)
theory Sysfile
  imports File
begin

text \<open>
  System call arguments (\<^verbatim>\<open>kernel/syscall.c\<close>), the file system calls
  (\<^verbatim>\<open>kernel/sysfile.c\<close>) and program loading (\<^verbatim>\<open>kernel/exec.c\<close>,
  \<^verbatim>\<open>kernel/elf.h\<close>). A system call returns the 64-bit value that goes into
  \<^verbatim>\<open>a0\<close>; an \<^verbatim>\<open>int\<close> result is sign-extended. Strings fetched from user memory
  are byte lists without their nul.
\<close>

section \<open>Arguments\<close>

definition MAXPATH :: nat where "MAXPATH = 128"
definition MAXARG :: nat where "MAXARG = 32"

text \<open>\<^verbatim>\<open>-1\<close> as the result of a system call.\<close>

abbreviation ERR :: u64 where "ERR \<equiv> -1"

definition ret_int :: "('s, int) kM \<Rightarrow> ('s, u64) kM" where
  "ret_int m = bind m (\<lambda>r. return (of_int r))"

text \<open>An operation on the current process.\<close>

definition on_me :: "(nat \<Rightarrow> ('z pstate_scheme, 'a) kM) \<Rightarrow> ('z pstate_scheme, 'a) kM" where
  "on_me f = bind myproc (\<lambda>p. with_ptr p f)"

definition fetchaddr :: "u64 \<Rightarrow> ('z pstate_scheme, u64 option) kM" where
  "fetchaddr addr =
    on_me (\<lambda>p.
    bind (gets (\<lambda>s. p_sz (proc s p))) (\<lambda>sz.
    if addr \<ge> sz \<or> addr + 8 > sz then return None else
    bind (gets (\<lambda>s. p_pagetable (proc s p))) (\<lambda>pt.
    bind (copyin pt addr 8) (\<lambda>(rc, bs).
    return (if rc \<noteq> 0 then None else Some (le_word bs))))))"

definition fetchstr :: "u64 \<Rightarrow> nat \<Rightarrow> ('z pstate_scheme, u8 list option) kM" where
  "fetchstr addr mx =
    on_me (\<lambda>p.
    bind (gets (\<lambda>s. p_pagetable (proc s p))) (\<lambda>pt.
    bind (copyinstr pt addr mx) (\<lambda>r.
    return (map_option (takeWhile (\<lambda>b. b \<noteq> 0)) r))))"

definition argraw :: "nat \<Rightarrow> ('z pstate_scheme, u64) kM" where
  "argraw n =
    on_me (\<lambda>p. if n < 6 then tf_get p (tf_a0 + 8 * of_nat n) else panic ''argraw'')"

definition argint :: "nat \<Rightarrow> ('z pstate_scheme, int) kM" where
  "argint n = bind (argraw n) (\<lambda>v. return (sint (ucast v :: u32)))"

definition argaddr :: "nat \<Rightarrow> ('z pstate_scheme, u64) kM" where
  "argaddr n = argraw n"

definition argstr :: "nat \<Rightarrow> nat \<Rightarrow> ('z pstate_scheme, u8 list option) kM" where
  "argstr n mx = bind (argaddr n) (\<lambda>addr. fetchstr addr mx)"

section \<open>Descriptors\<close>

definition argfd :: "nat \<Rightarrow> ('z filestate_scheme, (nat \<times> nat) option) kM" where
  "argfd n =
    bind (argint n) (\<lambda>fd.
    if fd < 0 \<or> fd \<ge> int NOFILE then return None else
    on_me (\<lambda>p.
    bind (gets (\<lambda>s. p_ofile (proc s p) ! nat fd)) (\<lambda>f.
    return (map_option (\<lambda>f. (nat fd, f)) f))))"

definition fdalloc :: "nat \<Rightarrow> ('z filestate_scheme, int) kM" where
  "fdalloc f =
    on_me (\<lambda>p.
    bind (gets (\<lambda>s. find (\<lambda>fd. p_ofile (proc s p) ! fd = None) [0..<NOFILE])) (\<lambda>r. case r of
      None \<Rightarrow> return (-1)
    | Some fd \<Rightarrow>
        seq (modify (upd_proc p (\<lambda>r. r\<lparr>p_ofile := (p_ofile r)[fd := Some f]\<rparr>)))
        (return (int fd))))"

definition clear_fd :: "nat \<Rightarrow> ('z filestate_scheme, unit) kM" where
  "clear_fd fd = on_me (\<lambda>p. modify (upd_proc p (\<lambda>r. r\<lparr>p_ofile := (p_ofile r)[fd := None]\<rparr>)))"

definition sys_dup :: "('z filestate_scheme, u64) kM" where
  "sys_dup =
    bind (argfd 0) (\<lambda>r. case r of None \<Rightarrow> return ERR | Some (_, f) \<Rightarrow>
    bind (fdalloc f) (\<lambda>fd.
    if fd < 0 then return ERR else
    seq (filedup f) (return (of_int fd))))"

definition sys_read :: "'z filestate_scheme env \<Rightarrow> ('z filestate_scheme, u64) kM" where
  "sys_read E =
    bind (argaddr 1) (\<lambda>p.
    bind (argint 2) (\<lambda>n.
    bind (argfd 0) (\<lambda>r. case r of None \<Rightarrow> return ERR | Some (_, f) \<Rightarrow> ret_int (fileread E f p n))))"

definition sys_write :: "'z filestate_scheme env \<Rightarrow> ('z filestate_scheme, u64) kM" where
  "sys_write E =
    bind (argaddr 1) (\<lambda>p.
    bind (argint 2) (\<lambda>n.
    bind (argfd 0) (\<lambda>r. case r of None \<Rightarrow> return ERR | Some (_, f) \<Rightarrow> ret_int (filewrite E f p n))))"

definition sys_close :: "'z filestate_scheme env \<Rightarrow> ('z filestate_scheme, u64) kM" where
  "sys_close E =
    bind (argfd 0) (\<lambda>r. case r of None \<Rightarrow> return ERR | Some (fd, f) \<Rightarrow>
    seq (clear_fd fd)
    (seq (fileclose E f)
    (return 0)))"

definition sys_fstat :: "'z filestate_scheme env \<Rightarrow> ('z filestate_scheme, u64) kM" where
  "sys_fstat E =
    bind (argaddr 1) (\<lambda>st.
    bind (argfd 0) (\<lambda>r. case r of None \<Rightarrow> return ERR | Some (_, f) \<Rightarrow> ret_int (filestat E f st)))"

section \<open>Links\<close>

definition fail_op :: "'z filestate_scheme env \<Rightarrow> ('z filestate_scheme, u64) kM" where
  "fail_op E = seq (end_op E) (return ERR)"

definition add_nlink :: "nat \<Rightarrow> u16 \<Rightarrow> 'z fstate_scheme \<Rightarrow> 'z fstate_scheme" where
  "add_nlink ip d = upd_inode ip (\<lambda>r. r\<lparr>i_nlink := i_nlink r + d\<rparr>)"

text \<open>The label \<^verbatim>\<open>bad\<close> of \<open>sys_link\<close>.\<close>

definition link_bad :: "'z filestate_scheme env \<Rightarrow> nat \<Rightarrow> ('z filestate_scheme, u64) kM" where
  "link_bad E ip =
    seq (ilock E (Some ip))
    (seq (modify (add_nlink ip (-1)))
    (seq (iupdate E ip)
    (seq (iunlockput E ip)
    (fail_op E))))"

definition link_to :: "'z filestate_scheme env \<Rightarrow> nat \<Rightarrow> u8 list \<Rightarrow> ('z filestate_scheme, u64) kM" where
  "link_to E ip new =
    bind (nameiparent E new (replicate DIRSIZ 0)) (\<lambda>(dp, name). case dp of
      None \<Rightarrow> link_bad E ip
    | Some dp \<Rightarrow>
      seq (ilock E (Some dp))
      (bind (gets (\<lambda>s. (i_dev (itable s dp) = i_dev (itable s ip), i_inum (itable s ip)))) (\<lambda>(same, inum).
      bind (if same then bind (dirlink E dp name inum) (\<lambda>rc. return (rc < 0)) else return True) (\<lambda>bad.
      if bad then seq (iunlockput E dp) (link_bad E ip) else
      seq (iunlockput E dp)
      (seq (iput E ip)
      (seq (end_op E)
      (return 0)))))))"

definition sys_link :: "'z filestate_scheme env \<Rightarrow> ('z filestate_scheme, u64) kM" where
  "sys_link E =
    bind (argstr 0 MAXPATH) (\<lambda>r. case r of None \<Rightarrow> return ERR | Some old \<Rightarrow>
    bind (argstr 1 MAXPATH) (\<lambda>r. case r of None \<Rightarrow> return ERR | Some new \<Rightarrow>
    seq (begin_op E)
    (bind (namei E old) (\<lambda>r. case r of None \<Rightarrow> fail_op E | Some ip \<Rightarrow>
    seq (ilock E (Some ip))
    (bind (gets (\<lambda>s. i_type (itable s ip))) (\<lambda>t.
    if t = T_DIR then seq (iunlockput E ip) (fail_op E) else
    seq (modify (add_nlink ip 1))
    (seq (iupdate E ip)
    (seq (iunlock (Some ip))
    (link_to E ip new)))))))))"

definition isdirempty_one :: "'z fstate_scheme env \<Rightarrow> nat \<Rightarrow> nat \<Rightarrow> ('z fstate_scheme, unit option) kM" where
  "isdirempty_one E dp off =
    bind (read_dirent E ''isdirempty: readi'' dp off) (\<lambda>de.
    return (if de_inum de \<noteq> 0 then Some () else None))"

definition isdirempty :: "'z fstate_scheme env \<Rightarrow> nat \<Rightarrow> ('z fstate_scheme, bool) kM" where
  "isdirempty E dp =
    bind (gets (\<lambda>s. i_size (itable s dp))) (\<lambda>sz.
    bind (for_until (drop 2 (dirent_offs sz)) (isdirempty_one E dp)) (\<lambda>r.
    return (r = None)))"

definition unlink_bad :: "'z filestate_scheme env \<Rightarrow> nat \<Rightarrow> ('z filestate_scheme, u64) kM" where
  "unlink_bad E dp = seq (iunlockput E dp) (fail_op E)"

definition unlink_entry :: "'z filestate_scheme env \<Rightarrow> nat \<Rightarrow> nat \<Rightarrow> nat \<Rightarrow> ('z filestate_scheme, u64) kM" where
  "unlink_entry E dp ip off =
    bind (writei E dp (LocalSrc (replicate 16 0)) (of_nat off) 16) (\<lambda>w.
    if w \<noteq> 16 then panic ''unlink: writei'' else
    bind (gets (\<lambda>s. i_type (itable s ip))) (\<lambda>t.
    seq (whenM (t = T_DIR) (seq (modify (add_nlink dp (-1))) (iupdate E dp)))
    (seq (iunlockput E dp)
    (seq (modify (add_nlink ip (-1)))
    (seq (iupdate E ip)
    (seq (iunlockput E ip)
    (seq (end_op E)
    (return 0))))))))"

definition sys_unlink :: "'z filestate_scheme env \<Rightarrow> ('z filestate_scheme, u64) kM" where
  "sys_unlink E =
    bind (argstr 0 MAXPATH) (\<lambda>r. case r of None \<Rightarrow> return ERR | Some path \<Rightarrow>
    seq (begin_op E)
    (bind (nameiparent E path (replicate DIRSIZ 0)) (\<lambda>(dp, name). case dp of
      None \<Rightarrow> fail_op E
    | Some dp \<Rightarrow>
      seq (ilock E (Some dp))
      (if namecmp name (map of_char ''.'') = 0 \<or> namecmp name (map of_char ''..'') = 0 then unlink_bad E dp else
       bind (dirlookup E dp name) (\<lambda>r. case r of
         None \<Rightarrow> unlink_bad E dp
       | Some (ip, off) \<Rightarrow>
         seq (ilock E (Some ip))
         (bind (gets (\<lambda>s. itable s ip)) (\<lambda>i.
         if sint (i_nlink i) < 1 then panic ''unlink: nlink < 1'' else
         bind (if i_type i = T_DIR then isdirempty E ip else return True) (\<lambda>ok.
         if \<not> ok then seq (iunlockput E ip) (unlink_bad E dp)
         else unlink_entry E dp ip off))))))))"

section \<open>Creating and opening\<close>

definition create_fail :: "'z fstate_scheme env \<Rightarrow> nat \<Rightarrow> nat \<Rightarrow> ('z fstate_scheme, nat option) kM" where
  "create_fail E dp ip =
    seq (modify (upd_inode ip (\<lambda>r. r\<lparr>i_nlink := 0\<rparr>)))
    (seq (iupdate E ip)
    (seq (iunlockput E ip)
    (seq (iunlockput E dp)
    (return None))))"

text \<open>The new inode gets its \<^verbatim>\<open>.\<close> and \<^verbatim>\<open>..\<close> entries: \<open>False\<close> when one fails.\<close>

definition create_dots :: "'z fstate_scheme env \<Rightarrow> nat \<Rightarrow> nat \<Rightarrow> ('z fstate_scheme, bool) kM" where
  "create_dots E dp ip =
    bind (gets (\<lambda>s. i_inum (itable s ip))) (\<lambda>inum.
    bind (dirlink E ip (map of_char ''.'') inum) (\<lambda>rc.
    if rc < 0 then return False else
    bind (gets (\<lambda>s. i_inum (itable s dp))) (\<lambda>dnum.
    bind (dirlink E ip (map of_char ''..'') dnum) (\<lambda>rc.
    return (\<not> rc < 0)))))"

definition create_new :: "'z fstate_scheme env \<Rightarrow> nat \<Rightarrow> u8 list \<Rightarrow> u16 \<Rightarrow> u16 \<Rightarrow> u16 \<Rightarrow> ('z fstate_scheme, nat option) kM" where
  "create_new E dp name type major minor =
    bind (gets (\<lambda>s. i_dev (itable s dp))) (\<lambda>dev.
    bind (ialloc E dev type) (\<lambda>r. case r of
      None \<Rightarrow> seq (iunlockput E dp) (return None)
    | Some ip \<Rightarrow>
      seq (ilock E (Some ip))
      (seq (modify (upd_inode ip (\<lambda>r. r\<lparr>i_major := major, i_minor := minor, i_nlink := 1\<rparr>)))
      (seq (iupdate E ip)
      (bind (if type = T_DIR then create_dots E dp ip else return True) (\<lambda>ok.
      if \<not> ok then create_fail E dp ip else
      bind (gets (\<lambda>s. i_inum (itable s ip))) (\<lambda>inum.
      bind (dirlink E dp name inum) (\<lambda>rc.
      if rc < 0 then create_fail E dp ip else
      seq (whenM (type = T_DIR) (seq (modify (add_nlink dp 1)) (iupdate E dp)))
      (seq (iunlockput E dp)
      (return (Some ip)))))))))))"

definition create :: "'z fstate_scheme env \<Rightarrow> u8 list \<Rightarrow> u16 \<Rightarrow> u16 \<Rightarrow> u16 \<Rightarrow> ('z fstate_scheme, nat option) kM" where
  "create E path type major minor =
    bind (nameiparent E path (replicate DIRSIZ 0)) (\<lambda>(dp, name). case dp of
      None \<Rightarrow> return None
    | Some dp \<Rightarrow>
      seq (ilock E (Some dp))
      (bind (dirlookup E dp name) (\<lambda>r. case r of
        Some (ip, _) \<Rightarrow>
          seq (iunlockput E dp)
          (seq (ilock E (Some ip))
          (bind (gets (\<lambda>s. i_type (itable s ip))) (\<lambda>t.
          if type = T_FILE \<and> (t = T_FILE \<or> t = T_DEVICE) then return (Some ip)
          else seq (iunlockput E ip) (return None))))
      | None \<Rightarrow> create_new E dp name type major minor)))"

abbreviation O_RDONLY :: u32 where "O_RDONLY \<equiv> 0"
abbreviation O_WRONLY :: u32 where "O_WRONLY \<equiv> 1"
abbreviation O_RDWR :: u32 where "O_RDWR \<equiv> 2"
abbreviation O_CREATE :: u32 where "O_CREATE \<equiv> 0x200"
abbreviation O_TRUNC :: u32 where "O_TRUNC \<equiv> 0x400"

text \<open>The inode that \<open>sys_open\<close> opens, locked, or \<open>None\<close>.\<close>

definition open_inode :: "'z fstate_scheme env \<Rightarrow> u8 list \<Rightarrow> u32 \<Rightarrow> ('z fstate_scheme, nat option) kM" where
  "open_inode E path omode =
    (if omode AND O_CREATE \<noteq> 0 then create E path T_FILE 0 0 else
     bind (namei E path) (\<lambda>r. case r of None \<Rightarrow> return None | Some ip \<Rightarrow>
     seq (ilock E (Some ip))
     (bind (gets (\<lambda>s. i_type (itable s ip))) (\<lambda>t.
     if t = T_DIR \<and> omode \<noteq> O_RDONLY then seq (iunlockput E ip) (return None)
     else return (Some ip)))))"

definition open_file :: "inode \<Rightarrow> nat \<Rightarrow> u32 \<Rightarrow> file_t \<Rightarrow> file_t" where
  "open_file i ip omode f =
    (if i_type i = T_DEVICE then f\<lparr>f_type := FD_DEVICE, f_major := i_major i\<rparr> else f\<lparr>f_type := FD_INODE, f_off := 0\<rparr>)
      \<lparr>f_ip := Some ip, f_readable := (omode AND O_WRONLY = 0),
       f_writable := (omode AND O_WRONLY \<noteq> 0 \<or> omode AND O_RDWR \<noteq> 0)\<rparr>"

text \<open>A file structure and a descriptor for it; a structure without a descriptor is closed again.\<close>

definition open_fd :: "'z filestate_scheme env \<Rightarrow> ('z filestate_scheme, (nat \<times> int) option) kM" where
  "open_fd E =
    bind filealloc (\<lambda>r. case r of None \<Rightarrow> return None | Some f \<Rightarrow>
    bind (fdalloc f) (\<lambda>fd.
    if fd < 0 then seq (fileclose E f) (return None) else return (Some (f, fd))))"

definition sys_open :: "'z filestate_scheme env \<Rightarrow> ('z filestate_scheme, u64) kM" where
  "sys_open E =
    bind (argint 1) (\<lambda>om.
    let omode = of_int om in
    bind (argstr 0 MAXPATH) (\<lambda>r. case r of None \<Rightarrow> return ERR | Some path \<Rightarrow>
    seq (begin_op E)
    (bind (open_inode E path omode) (\<lambda>r. case r of None \<Rightarrow> fail_op E | Some ip \<Rightarrow>
    bind (gets (\<lambda>s. itable s ip)) (\<lambda>i.
    if i_type i = T_DEVICE \<and> (sint (i_major i) < 0 \<or> sint (i_major i) \<ge> NDEV) then
      seq (iunlockput E ip) (fail_op E)
    else
      bind (open_fd E) (\<lambda>r. case r of
        None \<Rightarrow> seq (iunlockput E ip) (fail_op E)
      | Some (f, fd) \<Rightarrow>
        seq (modify (upd_file f (open_file i ip omode)))
        (seq (whenM (omode AND O_TRUNC \<noteq> 0 \<and> i_type i = T_FILE) (itrunc E ip))
        (seq (iunlock (Some ip))
        (seq (end_op E)
        (return (of_int fd)))))))))))"

definition sys_mkdir :: "'z filestate_scheme env \<Rightarrow> ('z filestate_scheme, u64) kM" where
  "sys_mkdir E =
    seq (begin_op E)
    (bind (argstr 0 MAXPATH) (\<lambda>r. case r of None \<Rightarrow> fail_op E | Some path \<Rightarrow>
    bind (create E path T_DIR 0 0) (\<lambda>r. case r of None \<Rightarrow> fail_op E | Some ip \<Rightarrow>
    seq (iunlockput E ip)
    (seq (end_op E)
    (return 0)))))"

definition sys_mknod :: "'z filestate_scheme env \<Rightarrow> ('z filestate_scheme, u64) kM" where
  "sys_mknod E =
    seq (begin_op E)
    (bind (argint 1) (\<lambda>major.
    bind (argint 2) (\<lambda>minor.
    bind (argstr 0 MAXPATH) (\<lambda>r. case r of None \<Rightarrow> fail_op E | Some path \<Rightarrow>
    bind (create E path T_DEVICE (of_int major) (of_int minor)) (\<lambda>r. case r of None \<Rightarrow> fail_op E | Some ip \<Rightarrow>
    seq (iunlockput E ip)
    (seq (end_op E)
    (return 0)))))))"

definition sys_chdir :: "'z filestate_scheme env \<Rightarrow> ('z filestate_scheme, u64) kM" where
  "sys_chdir E =
    on_me (\<lambda>p.
    seq (begin_op E)
    (bind (argstr 0 MAXPATH) (\<lambda>r. case r of None \<Rightarrow> fail_op E | Some path \<Rightarrow>
    bind (namei E path) (\<lambda>r. case r of None \<Rightarrow> fail_op E | Some ip \<Rightarrow>
    seq (ilock E (Some ip))
    (bind (gets (\<lambda>s. i_type (itable s ip))) (\<lambda>t.
    if t \<noteq> T_DIR then seq (iunlockput E ip) (fail_op E) else
    seq (iunlock (Some ip))
    (bind (gets (\<lambda>s. p_cwd (proc s p))) (\<lambda>cwd.
    seq (with_ptr cwd (iput E))
    (seq (end_op E)
    (seq (modify (upd_proc p (\<lambda>r. r\<lparr>p_cwd := Some ip\<rparr>)))
    (return 0)))))))))))"

definition sys_pipe :: "'z filestate_scheme env \<Rightarrow> ('z filestate_scheme, u64) kM" where
  "sys_pipe E =
    on_me (\<lambda>p.
    bind (argaddr 0) (\<lambda>fdarray.
    bind (pipealloc E) (\<lambda>r. case r of None \<Rightarrow> return ERR | Some (rfile, wfile) \<Rightarrow>
    bind (fdalloc rfile) (\<lambda>fd0.
    bind (if fd0 < 0 then return (-1) else fdalloc wfile) (\<lambda>fd1.
    if fd1 < 0 then
      seq (whenM (fd0 \<ge> 0) (clear_fd (nat fd0)))
      (seq (fileclose E rfile) (seq (fileclose E wfile) (return ERR)))
    else
      bind (gets (\<lambda>s. p_pagetable (proc s p))) (\<lambda>pt.
      bind (copyout pt fdarray (int_bytes fd0)) (\<lambda>r0.
      bind (if r0 < 0 then return r0 else copyout pt (fdarray + 4) (int_bytes fd1)) (\<lambda>r1.
      if r1 < 0 then
        seq (clear_fd (nat fd0))
        (seq (clear_fd (nat fd1))
        (seq (fileclose E rfile) (seq (fileclose E wfile) (return ERR))))
      else return 0))))))))"

section \<open>Loading a program\<close>

abbreviation ELF_MAGIC :: u32 where "ELF_MAGIC \<equiv> 0x464C457F"
abbreviation ELF_PROG_LOAD :: u32 where "ELF_PROG_LOAD \<equiv> 1"

definition get64 :: "u8 list \<Rightarrow> nat \<Rightarrow> u64" where
  "get64 bs off = le_word (take 8 (drop off bs))"

record elfhdr =
  elf_magic :: u32
  elf_entry :: u64
  elf_phoff :: u64
  elf_phnum :: u16

record proghdr =
  ph_type :: u32
  ph_flags :: u32
  ph_off :: u64
  ph_vaddr :: u64
  ph_filesz :: u64
  ph_memsz :: u64

text \<open>The fields of the 64-byte ELF header and of a 56-byte program header that
  \<open>exec\<close> uses.\<close>

definition decode_elf :: "u8 list \<Rightarrow> elfhdr" where
  "decode_elf bs = \<lparr>elf_magic = get32 bs 0, elf_entry = get64 bs 24, elf_phoff = get64 bs 32, elf_phnum = get16 bs 56\<rparr>"

definition decode_ph :: "u8 list \<Rightarrow> proghdr" where
  "decode_ph bs = \<lparr>ph_type = get32 bs 0, ph_flags = get32 bs 4, ph_off = get64 bs 8, ph_vaddr = get64 bs 16,
     ph_filesz = get64 bs 32, ph_memsz = get64 bs 40\<rparr>"

definition flags2perm :: "u32 \<Rightarrow> u64" where
  "flags2perm flags = (if flags AND 1 \<noteq> 0 then PTE_X else 0) OR (if flags AND 2 \<noteq> 0 then PTE_W else 0)"

definition loadseg_page :: "'z fstate_scheme env \<Rightarrow> u64 \<Rightarrow> u64 \<Rightarrow> nat \<Rightarrow> u32 \<Rightarrow> u32 \<Rightarrow> nat \<Rightarrow> ('z fstate_scheme, unit option) kM" where
  "loadseg_page E pagetable va ip offset sz i =
    bind (walkaddr pagetable (va + of_nat i)) (\<lambda>pa.
    if pa = 0 then panic ''loadseg: address should exist'' else
    let n = min (unat sz - i) 4096 in
    bind (readi E ip (KernPtr pa) (offset + of_nat i) (of_nat n)) (\<lambda>(r, _).
    return (if r \<noteq> int n then Some () else None)))"

definition loadseg :: "'z fstate_scheme env \<Rightarrow> u64 \<Rightarrow> u64 \<Rightarrow> nat \<Rightarrow> u32 \<Rightarrow> u32 \<Rightarrow> ('z fstate_scheme, int) kM" where
  "loadseg E pagetable va ip offset sz =
    bind (for_until (map (\<lambda>k. 4096 * k) [0..<(unat sz + 4095) div 4096]) (loadseg_page E pagetable va ip offset sz)) (\<lambda>r.
    return (if r = None then 0 else -1))"

text \<open>One program header: \<open>Inl\<close> the new size of the image, \<open>Inr\<close> the size at a jump to
  \<^verbatim>\<open>bad\<close>.\<close>

definition exec_segment :: "'z fstate_scheme env \<Rightarrow> nat \<Rightarrow> u64 \<Rightarrow> elfhdr \<Rightarrow> nat \<Rightarrow> u64 \<Rightarrow> ('z fstate_scheme, u64 + u64) kM" where
  "exec_segment E ip pagetable elf i sz =
    bind (readi E ip LocalPtr (ucast (elf_phoff elf) + 56 * of_nat i) 56) (\<lambda>(r, bs).
    let ph = decode_ph bs in
    if r \<noteq> 56 then return (Inr sz) else
    if ph_type ph \<noteq> ELF_PROG_LOAD then return (Inl sz) else
    if ph_memsz ph < ph_filesz ph then return (Inr sz) else
    if ph_vaddr ph + ph_memsz ph < ph_vaddr ph then return (Inr sz) else
    if ph_vaddr ph mod PGSIZE \<noteq> 0 then return (Inr sz) else
    bind (uvmalloc pagetable sz (ph_vaddr ph + ph_memsz ph) (flags2perm (ph_flags ph))) (\<lambda>sz1.
    if sz1 = 0 then return (Inr sz) else
    bind (loadseg E pagetable (ph_vaddr ph) ip (ucast (ph_off ph)) (ucast (ph_filesz ph))) (\<lambda>rc.
    return (if rc < 0 then Inr sz1 else Inl sz1))))"

text \<open>Reading the program of \<open>ip\<close> into a new page table: \<open>Inr\<close> the page table and size
  at a jump to \<^verbatim>\<open>bad\<close>.\<close>

definition exec_load :: "'z fstate_scheme env \<Rightarrow> nat \<Rightarrow> nat \<Rightarrow> ('z fstate_scheme, elfhdr \<times> u64 \<times> u64 + u64 \<times> u64) kM" where
  "exec_load E p ip =
    bind (readi E ip LocalPtr 0 64) (\<lambda>(r, bs).
    let elf = decode_elf bs in
    if r \<noteq> 64 then return (Inr (0, 0)) else
    if elf_magic elf \<noteq> ELF_MAGIC then return (Inr (0, 0)) else
    bind (proc_pagetable p) (\<lambda>pagetable.
    if pagetable = 0 then return (Inr (0, 0)) else
    bind (for_fold [0..<unat (elf_phnum elf)] (exec_segment E ip pagetable elf) 0) (\<lambda>r. case r of
      Inr sz \<Rightarrow> return (Inr (pagetable, sz))
    | Inl sz \<Rightarrow> return (Inl (elf, pagetable, sz)))))"

text \<open>The string at a kernel address, inside one page.\<close>

definition kstr :: "mem \<Rightarrow> u64 \<Rightarrow> u8 list" where
  "kstr m a = takeWhile (\<lambda>b. b \<noteq> 0) (read_bytes m a 4096)"

text \<open>Pushing one argument string: the new stack pointer and the addresses of the strings.\<close>

definition exec_arg :: "u64 \<Rightarrow> u64 \<Rightarrow> u64 \<Rightarrow> u64 \<times> u64 list \<Rightarrow> ('z pstate_scheme, u64 \<times> u64 list + unit) kM" where
  "exec_arg pagetable stackbase a st =
    (let (sp, ustack) = st in
     if length ustack \<ge> MAXARG then return (Inr ()) else
     bind (gets (\<lambda>s. kstr (mem s) a)) (\<lambda>str.
     let sp = sp - of_nat (length str + 1); sp = sp - sp mod 16 in
     if sp < stackbase then return (Inr ()) else
     bind (copyout pagetable sp (str @ [0])) (\<lambda>rc.
     return (if rc < 0 then Inr () else Inl (sp, ustack @ [sp])))))"

text \<open>The user stack: the guard page, the argument strings and the array of pointers to them.
  \<open>Inr sz\<close> is a jump to \<^verbatim>\<open>bad\<close>; \<open>Inl (sz, sp, argc)\<close> the result.\<close>

definition exec_stack :: "u64 \<Rightarrow> u64 \<Rightarrow> u64 list \<Rightarrow> ('z pstate_scheme, u64 \<times> u64 \<times> nat + u64) kM" where
  "exec_stack pagetable sz argv =
    (let sz = PGROUNDUP sz in
     bind (uvmalloc pagetable sz (sz + 2 * PGSIZE) PTE_W) (\<lambda>sz1.
     if sz1 = 0 then return (Inr sz) else
     let sz = sz1; stackbase = sz - PGSIZE in
     seq (uvmclear pagetable (sz - 2 * PGSIZE))
     (bind (for_fold argv (exec_arg pagetable stackbase) (sz, [])) (\<lambda>r. case r of
        Inr _ \<Rightarrow> return (Inr sz)
      | Inl (sp, ustack) \<Rightarrow>
        let argc = length ustack;
            sp = sp - of_nat (argc + 1) * 8; sp = sp - sp mod 16 in
        if sp < stackbase then return (Inr sz) else
        bind (copyout pagetable sp (concat (map (le_bytes 8) (ustack @ [0])))) (\<lambda>rc.
        return (if rc < 0 then Inr sz else Inl (sz, sp, argc)))))))"

text \<open>The part of the path after its last slash.\<close>

definition last_elem :: "u8 list \<Rightarrow> u8 list" where
  "last_elem path = rev (takeWhile (\<lambda>c. c \<noteq> slash) (rev path))"

definition exec :: "'z filestate_scheme env \<Rightarrow> u8 list \<Rightarrow> u64 list \<Rightarrow> ('z filestate_scheme, int) kM" where
  "exec E path argv =
    on_me (\<lambda>p.
    seq (begin_op E)
    (bind (namei E path) (\<lambda>r. case r of None \<Rightarrow> seq (end_op E) (return (-1)) | Some ip \<Rightarrow>
    seq (ilock E (Some ip))
    (bind (exec_load E p ip) (\<lambda>r. case r of
      Inr (pagetable, sz) \<Rightarrow>
        seq (whenM (pagetable \<noteq> 0) (proc_freepagetable pagetable sz))
        (seq (iunlockput E ip)
        (seq (end_op E)
        (return (-1))))
    | Inl (elf, pagetable, sz) \<Rightarrow>
        seq (iunlockput E ip)
        (seq (end_op E)
        (bind (gets (\<lambda>s. p_sz (proc s p))) (\<lambda>oldsz.
        bind (exec_stack pagetable sz argv) (\<lambda>r. case r of
          Inr sz \<Rightarrow> seq (proc_freepagetable pagetable sz) (return (-1))
        | Inl (sz, sp, argc) \<Rightarrow>
          seq (tf_set p 120 sp)
          (seq (modify (upd_proc p (\<lambda>r. r\<lparr>p_name := safestrcpy (p_name r) (bytes_of (last_elem path)) 16\<rparr>)))
          (bind (gets (\<lambda>s. p_pagetable (proc s p))) (\<lambda>oldpt.
          seq (modify (upd_proc p (\<lambda>r. r\<lparr>p_pagetable := pagetable, p_sz := sz\<rparr>)))
          (seq (tf_set p tf_epc (elf_entry elf))
          (seq (tf_set p tf_sp sp)
          (seq (proc_freepagetable oldpt oldsz)
          (return (int argc)))))))))))))))))"

text \<open>Fetching the argument strings into pages: \<open>Inr\<close> is a jump to \<^verbatim>\<open>bad\<close> with the
  pages to free.\<close>

primrec exec_args :: "nat \<Rightarrow> u64 \<Rightarrow> nat \<Rightarrow> u64 list \<Rightarrow> ('z pstate_scheme, u64 list + u64 list) kM" where
  "exec_args 0 uargv i argv = return (Inr argv)"
| "exec_args (Suc k) uargv i argv =
    bind (fetchaddr (uargv + 8 * of_nat i)) (\<lambda>r. case r of None \<Rightarrow> return (Inr argv) | Some uarg \<Rightarrow>
    if uarg = 0 then return (Inl argv) else
    bind kalloc (\<lambda>pg.
    if pg = 0 then return (Inr argv) else
    bind (fetchstr uarg 4096) (\<lambda>r. case r of
      None \<Rightarrow> return (Inr (argv @ [pg]))
    | Some str \<Rightarrow>
      seq (modify (\<lambda>s. s\<lparr>mem := write_bytes pg (str @ [0]) (mem s)\<rparr>))
      (exec_args k uargv (Suc i) (argv @ [pg])))))"

definition sys_exec :: "'z filestate_scheme env \<Rightarrow> ('z filestate_scheme, u64) kM" where
  "sys_exec E =
    bind (argaddr 1) (\<lambda>uargv.
    bind (argstr 0 MAXPATH) (\<lambda>r. case r of None \<Rightarrow> return ERR | Some path \<Rightarrow>
    bind (exec_args MAXARG uargv 0 []) (\<lambda>r. case r of
      Inr argv \<Rightarrow> seq (for_each argv kfree) (return ERR)
    | Inl argv \<Rightarrow>
      bind (exec E path argv) (\<lambda>ret.
      seq (for_each argv kfree)
      (return (of_int ret))))))"

end
