(* ===== verification/Sched.thy ===== *)
theory Sched
  imports Proc Fifo
begin

text \<open>
  The five schedulers of \<^verbatim>\<open>kernel/proc.c\<close>: round robin, first come first served, lottery,
  priority and multi-level feedback queues, with \<^verbatim>\<open>update_time()\<close>, which the clock interrupt
  calls. \<open>scheduler_round\<close> is one iteration of the endless loop of
  \<^verbatim>\<open>scheduler()\<close>.
\<close>

section \<open>The queues of the multi-level feedback scheduler\<close>

definition enqueue :: "nat \<Rightarrow> ('z pstate_scheme, unit) kM" where
  "enqueue p =
    bind (gets (\<lambda>s. nat (p_priority (proc s p)))) (\<lambda>idx.
    bind (gets (\<lambda>s. q_length (queues s idx))) (\<lambda>len.
    if len = int NPROC then panic ''Full queue'' else
    seq (modify (upd_queue idx (\<lambda>q. q\<lparr>q_procs := (q_procs q)(nat (q_back q) := Some p)\<rparr>)))
    (seq (modify (upd_queue idx (\<lambda>q. q\<lparr>q_back := q_back q + 1\<rparr>)))
    (seq (modify (upd_queue idx (\<lambda>q. if q_back q = int NPROC + 1 then q\<lparr>q_back := 0\<rparr> else q)))
    (seq (modify (upd_queue idx (\<lambda>q. q\<lparr>q_length := q_length q + 1\<rparr>)))
    (modify (upd_proc p (\<lambda>r. r\<lparr>p_curr_rtime := 0, p_curr_wtime := 0, p_in_queue := 1\<rparr>))))))))"

definition dequeue :: "nat \<Rightarrow> ('z pstate_scheme, unit) kM" where
  "dequeue p =
    bind (gets (\<lambda>s. nat (p_priority (proc s p)))) (\<lambda>idx.
    bind (gets (\<lambda>s. q_length (queues s idx))) (\<lambda>len.
    if len = 0 then panic ''Empty queue'' else
    seq (modify (upd_queue idx (\<lambda>q. q\<lparr>q_front := q_front q + 1\<rparr>)))
    (seq (modify (upd_queue idx (\<lambda>q. if q_front q = int NPROC + 1 then q\<lparr>q_front := 0\<rparr> else q)))
    (seq (modify (upd_queue idx (\<lambda>q. q\<lparr>q_length := q_length q - 1\<rparr>)))
    (modify (upd_proc p (\<lambda>r. r\<lparr>p_in_queue := 0\<rparr>)))))))"

text \<open>The loop of \<open>delqueue\<close> runs round the array from \<open>front\<close> to \<open>back\<close>, at most
  \<^verbatim>\<open>NPROC\<close> steps when \<open>back\<close> is an index of the array.\<close>

primrec delqueue_loop :: "nat \<Rightarrow> nat \<Rightarrow> nat \<Rightarrow> int \<Rightarrow> bool \<Rightarrow> ('z pstate_scheme, unit) kM" where
  "delqueue_loop 0 idx p cur init_flag =
    bind (gets (\<lambda>s. q_back (queues s idx))) (\<lambda>b. if cur \<noteq> b then hang else return ())"
| "delqueue_loop (Suc n) idx p cur init_flag =
    bind (gets (\<lambda>s. q_back (queues s idx))) (\<lambda>b.
    if cur = b then return () else
    bind (gets (\<lambda>s. q_procs (queues s idx) (nat cur))) (\<lambda>c. with_ptr c (\<lambda>c.
    bind (gets (\<lambda>s. p_pid (proc s c) = p_pid (proc s p))) (\<lambda>same.
    let flag = (init_flag \<or> same) in
    seq (whenM flag (modify (upd_queue idx (\<lambda>q.
      q\<lparr>q_procs := (q_procs q)(nat cur := q_procs q (nat ((cur + 1) mod (int NPROC + 1))))\<rparr>))))
    (delqueue_loop n idx p ((cur + 1) mod (int NPROC + 1)) flag)))))"

definition delqueue :: "nat \<Rightarrow> ('z pstate_scheme, unit) kM" where
  "delqueue p =
    bind (gets (\<lambda>s. nat (p_priority (proc s p)))) (\<lambda>idx.
    bind (gets (\<lambda>s. q_front (queues s idx))) (\<lambda>cur.
    seq (delqueue_loop (NPROC + 1) idx p cur False)
    (seq (modify (upd_proc p (\<lambda>r. r\<lparr>p_curr_wtime := 0\<rparr>)))
    (seq (modify (upd_queue idx (\<lambda>q. q\<lparr>q_back := q_back q - 1\<rparr>)))
    (seq (modify (upd_queue idx (\<lambda>q. q\<lparr>q_length := q_length q - 1\<rparr>)))
    (modify (upd_queue idx (\<lambda>q. if q_back q < 0 then q\<lparr>q_back := int NPROC\<rparr> else q))))))))"

section \<open>Scheduling\<close>

definition INT_MAX :: int where "INT_MAX = 2147483647"

text \<open>The division of C truncates towards zero. C leaves a zero divisor undefined; the RISC-V
  division instruction gives \<open>-1\<close> for it.\<close>

definition int_div :: "int \<Rightarrow> int \<Rightarrow> int" where
  "int_div a b = (if b = 0 then -1 else a sdiv b)"

definition dynamic_priority :: "proc \<Rightarrow> int" where
  "dynamic_priority r =
    (if p_number_times r = 0 then p_priority_pbs r else
     let numerator = p_last_sleep_time r;
         denominator = p_last_run_time r + p_last_sleep_time r;
         noiceness = int_div numerator denominator * 10;
         m = (if p_priority_pbs r + noiceness - 5 \<le> 100 then p_priority_pbs r + noiceness - 5 else 100)
     in if m > 0 then m else 0)"

definition switch_to :: "(nat \<Rightarrow> ('z pstate_scheme, unit) kM) \<Rightarrow> nat \<Rightarrow> ('z pstate_scheme, unit) kM" where
  "switch_to run p =
    seq (modify (upd_proc p (\<lambda>r. r\<lparr>p_state := RUNNING\<rparr>)))
    (seq (modify (set_mycpu (\<lambda>c. c\<lparr>cproc := Some p\<rparr>)))
    (seq (run p)
    (modify (set_mycpu (\<lambda>c. c\<lparr>cproc := None\<rparr>)))))"

definition rr_one :: "(nat \<Rightarrow> ('z pstate_scheme, unit) kM) \<Rightarrow> nat \<Rightarrow> ('z pstate_scheme, unit) kM" where
  "rr_one run p =
    seq (acquire (KProc p))
    (bind (gets (\<lambda>s. p_state (proc s p))) (\<lambda>st.
    seq (whenM (st = RUNNABLE) (switch_to run p))
    (release (KProc p))))"

definition sched_rr :: "(nat \<Rightarrow> ('z pstate_scheme, unit) kM) \<Rightarrow> ('z pstate_scheme, unit) kM" where
  "sched_rr run = for_each [0..<NPROC] (rr_one run)"

definition fcfs_one :: "nat \<Rightarrow> nat option \<Rightarrow> ('z pstate_scheme, nat option) kM" where
  "fcfs_one p proc_to_run =
    seq (acquire (KProc p))
    (bind (gets (\<lambda>s. p_state (proc s p))) (\<lambda>st.
    if st \<noteq> RUNNABLE then seq (release (KProc p)) (return proc_to_run) else
    case proc_to_run of
      None \<Rightarrow> return (Some p)
    | Some b \<Rightarrow>
        bind (gets (\<lambda>s. p_tick_creation_time (proc s b) > p_tick_creation_time (proc s p))) (\<lambda>older.
        if older then seq (release (KProc b)) (return (Some p))
        else seq (release (KProc p)) (return proc_to_run))))"

definition fcfs_scan :: "('z pstate_scheme, nat option) kM" where
  "fcfs_scan = for_acc [0..<NPROC] fcfs_one None"

definition sched_fcfs :: "(nat \<Rightarrow> ('z pstate_scheme, unit) kM) \<Rightarrow> ('z pstate_scheme, unit) kM" where
  "sched_fcfs run =
    bind fcfs_scan (\<lambda>proc_to_run. case proc_to_run of
      None \<Rightarrow> return ()
    | Some b \<Rightarrow> seq (switch_to run b) (release (KProc b)))"

text \<open>\<^verbatim>\<open>max_tickets\<close> and \<^verbatim>\<open>counter\<close> are C ints of 32 bits. Their overflow is
  undefined in C; the \<^verbatim>\<open>addw\<close> instruction of RISC-V wraps around.\<close>

definition int_add :: "int \<Rightarrow> int \<Rightarrow> int" where
  "int_add a b = signed_take_bit 31 (a + b)"

definition lbs_total :: "'z pstate_scheme \<Rightarrow> int" where
  "lbs_total s =
    fold (\<lambda>p n. if p_state (proc s p) = RUNNABLE then int_add n (p_tickets (proc s p)) else n) [0..<NPROC] 0"

definition lbs_random :: "int \<Rightarrow> ('z pstate_scheme, int) kM" where
  "lbs_random m =
    bind (gets (\<lambda>s. random m (mtst s))) (\<lambda>r.
    seq (modify (\<lambda>s. s\<lparr>mtst := snd r\<rparr>)) (return (fst r)))"

definition lbs_one :: "(nat \<Rightarrow> ('z pstate_scheme, unit) kM) \<Rightarrow> int \<Rightarrow> nat \<Rightarrow> int
    \<Rightarrow> ('z pstate_scheme, int + unit) kM" where
  "lbs_one run rand_num p counter =
    seq (acquire (KProc p))
    (bind (gets (\<lambda>s. proc s p)) (\<lambda>r.
    if p_state r = RUNNABLE then
      let counter' = int_add counter (p_tickets r) in
      if counter' \<ge> rand_num then
        seq (switch_to run p) (seq (release (KProc p)) (return (Inr ())))
      else seq (release (KProc p)) (return (Inl counter'))
    else seq (release (KProc p)) (return (Inl counter))))"

definition sched_lbs :: "(nat \<Rightarrow> ('z pstate_scheme, unit) kM) \<Rightarrow> ('z pstate_scheme, unit) kM" where
  "sched_lbs run =
    bind (gets lbs_total) (\<lambda>max_tickets.
    bind (lbs_random max_tickets) (\<lambda>rand_num.
    bind (for_fold [0..<NPROC] (lbs_one run rand_num) 0) (\<lambda>_.
    return ())))"

text \<open>One process of the scan of the priority scheduler; the accumulator is
  \<^verbatim>\<open>pbs_proc_to_run\<close> with \<^verbatim>\<open>min_priority\<close>. Every path through the comparison of
  equal priorities ends in the \<^verbatim>\<open>release(&p->lock)\<close> after the branches.\<close>

definition pbs_step :: "nat \<Rightarrow> nat option \<times> int \<Rightarrow> ('z pstate_scheme, nat option \<times> int) kM" where
  "pbs_step p acc =
    seq (acquire (KProc p))
    (bind (gets (\<lambda>s. p_state (proc s p))) (\<lambda>st.
    if st \<noteq> RUNNABLE then seq (release (KProc p)) (return acc) else
    bind (gets (\<lambda>s. dynamic_priority (proc s p))) (\<lambda>temp_dp.
    case fst acc of
      None \<Rightarrow> return (Some p, temp_dp)
    | Some b \<Rightarrow>
        if temp_dp < snd acc then seq (release (KProc b)) (return (Some p, temp_dp))
        else if temp_dp = snd acc then
          bind (gets (\<lambda>s. (proc s b, proc s p))) (\<lambda>(rb, rp).
          if p_number_times rb > p_number_times rp then
            seq (release (KProc b)) (seq (release (KProc p)) (return (Some p, temp_dp)))
          else if p_number_times rb = p_number_times rp
              \<and> p_tick_creation_time rb > p_tick_creation_time rp then
            seq (release (KProc b)) (seq (release (KProc p)) (return (Some p, temp_dp)))
          else seq (release (KProc p)) (return acc))
        else seq (release (KProc p)) (return acc))))"

definition pbs_scan :: "('z pstate_scheme, nat option \<times> int) kM" where
  "pbs_scan = for_acc [0..<NPROC] pbs_step (None, INT_MAX)"

definition sched_pbs :: "(nat \<Rightarrow> ('z pstate_scheme, unit) kM) \<Rightarrow> ('z pstate_scheme, unit) kM" where
  "sched_pbs run =
    bind pbs_scan (\<lambda>r. case fst r of
      None \<Rightarrow> return ()
    | Some b \<Rightarrow>
        seq (modify (upd_proc b (\<lambda>r. r\<lparr>p_state := RUNNING, p_last_run_time := 0, p_last_sleep_time := 0\<rparr>)))
        (seq (modify (set_mycpu (\<lambda>c. c\<lparr>cproc := Some b\<rparr>)))
        (seq (run b)
        (seq (modify (set_mycpu (\<lambda>c. c\<lparr>cproc := None\<rparr>)))
        (release (KProc b))))))"

definition mlfq_enqueue_all :: "('z pstate_scheme, unit) kM" where
  "mlfq_enqueue_all =
    for_each [0..<NPROC] (\<lambda>p.
      seq (acquire (KProc p))
      (bind (gets (\<lambda>s. p_state (proc s p) = RUNNABLE \<and> p_in_queue (proc s p) = 0)) (\<lambda>ready.
      seq (whenM ready (enqueue p))
      (release (KProc p)))))"

text \<open>The inner loop compares \<open>j\<close> with the current length of the queue, which the loop
  body shrinks.\<close>

primrec mlfq_level :: "nat \<Rightarrow> nat \<Rightarrow> int \<Rightarrow> ('z pstate_scheme, nat option) kM" where
  "mlfq_level 0 i j =
    bind (gets (\<lambda>s. q_length (queues s i))) (\<lambda>len. if j < len then hang else return None)"
| "mlfq_level (Suc n) i j =
    bind (gets (\<lambda>s. q_length (queues s i))) (\<lambda>len.
    if \<not> j < len then return None else
    bind (gets (\<lambda>s. q_procs (queues s i) (nat (q_front (queues s i))))) (\<lambda>p. with_ptr p (\<lambda>p.
    seq (acquire (KProc p))
    (seq (dequeue p)
    (seq (modify (upd_proc p (\<lambda>r. r\<lparr>p_in_queue := 0\<rparr>)))
    (bind (gets (\<lambda>s. p_state (proc s p))) (\<lambda>st.
    if st = RUNNABLE then return (Some p)
    else seq (release (KProc p)) (mlfq_level n i (j + 1)))))))))"

definition sched_mlfq :: "(nat \<Rightarrow> ('z pstate_scheme, unit) kM) \<Rightarrow> ('z pstate_scheme, unit) kM" where
  "sched_mlfq run =
    seq mlfq_enqueue_all
    (bind (for_until [0..<5] (\<lambda>i. mlfq_level (NPROC + 1) i 0)) (\<lambda>proc_to_run. case proc_to_run of
      None \<Rightarrow> return ()
    | Some b \<Rightarrow> seq (switch_to run b) (release (KProc b))))"

text \<open>One iteration of the endless loop of \<open>scheduler\<close>, and \<open>n\<close> of them.\<close>

definition scheduler_round :: "policy \<Rightarrow> (nat \<Rightarrow> ('z pstate_scheme, unit) kM) \<Rightarrow> ('z pstate_scheme, unit) kM"
  where
  "scheduler_round pol run =
    seq (modify intr_on)
    (case pol of RR \<Rightarrow> sched_rr run | FCFS \<Rightarrow> sched_fcfs run | LBS \<Rightarrow> sched_lbs run
     | PBS \<Rightarrow> sched_pbs run | MLFQ \<Rightarrow> sched_mlfq run)"

definition scheduler :: "nat \<Rightarrow> policy \<Rightarrow> (nat \<Rightarrow> ('z pstate_scheme, unit) kM) \<Rightarrow> ('z pstate_scheme, unit) kM"
  where
  "scheduler n pol run =
    seq (modify (set_mycpu (\<lambda>c. c\<lparr>cproc := None\<rparr>)))
    (for_each [0..<n] (\<lambda>_. scheduler_round pol run))"

definition update_time_one :: "policy \<Rightarrow> nat \<Rightarrow> ('z pstate_scheme, unit) kM" where
  "update_time_one pol p =
    seq (acquire (KProc p))
    (seq (modify (\<lambda>s.
      if p_state (proc s p) = RUNNING then
        upd_proc p (\<lambda>r. let r1 = r\<lparr>p_curr_rtime := p_curr_rtime r + 1, p_rtime := p_rtime r + 1\<rparr> in
          if pol = PBS then r1\<lparr>p_last_run_time := p_last_run_time r + 1,
                               p_total_run_time := p_total_run_time r + 1\<rparr> else r1) s
      else if pol = MLFQ \<and> p_state (proc s p) = RUNNABLE then
        upd_proc p (\<lambda>r. r\<lparr>p_curr_wtime := p_curr_wtime r + 1\<rparr>) s
      else s))
    (seq (modify (\<lambda>s.
      if pol = PBS \<and> p_state (proc s p) = SLEEPING
      then upd_proc p (\<lambda>r. r\<lparr>p_last_sleep_time := p_last_sleep_time r + 1\<rparr>) s else s))
    (seq (bind (gets (\<lambda>s. proc s p)) (\<lambda>r.
      whenM (pol = MLFQ \<and> p_curr_wtime r \<ge> 30 \<and> p_state r = RUNNABLE)
        (seq (whenM (p_in_queue r \<noteq> 0)
          (seq (delqueue p) (modify (upd_proc p (\<lambda>r. r\<lparr>p_in_queue := 0\<rparr>)))))
        (modify (\<lambda>s. if p_priority (proc s p) \<noteq> 0
                  then upd_proc p (\<lambda>r. r\<lparr>p_priority := p_priority r - 1\<rparr>) s else s)))))
    (release (KProc p)))))"

definition update_time :: "policy \<Rightarrow> ('z pstate_scheme, unit) kM" where
  "update_time pol = for_each [0..<NPROC] (update_time_one pol)"


section \<open>The queues refine lists\<close>

definition enq_q :: "nat \<Rightarrow> priority_queue \<Rightarrow> priority_queue" where
  "enq_q p q = q\<lparr>q_procs := (q_procs q)(nat (q_back q) := Some p),
     q_back := (if q_back q + 1 = int NPROC + 1 then 0 else q_back q + 1),
     q_length := q_length q + 1\<rparr>"

definition deq_q :: "priority_queue \<Rightarrow> priority_queue" where
  "deq_q q = q\<lparr>q_front := (if q_front q + 1 = int NPROC + 1 then 0 else q_front q + 1),
     q_length := q_length q - 1\<rparr>"

lemma upd_queue_sel [simp]:
  "queues (upd_queue i f s) = (queues s)(i := f (queues s i))" "proc (upd_queue i f s) = proc s"
  "queues (upd_proc p g s) = queues s"
  by (simp_all add: upd_queue_def upd_proc_def)

lemma enqueue_eq:
  "enqueue p s = (let idx = nat (p_priority (proc s p)) in
    if q_length (queues s idx) = int NPROC then Panic ''Full queue''
    else Ret ((), upd_proc p (\<lambda>r. r\<lparr>p_curr_rtime := 0, p_curr_wtime := 0, p_in_queue := 1\<rparr>)
      (upd_queue idx (enq_q p) s)))"
  by (simp add: enqueue_def kM_simps Let_def upd_queue_def enq_q_def upd_proc_def)

lemma dequeue_eq:
  "dequeue p s = (let idx = nat (p_priority (proc s p)) in
    if q_length (queues s idx) = 0 then Panic ''Empty queue''
    else Ret ((), upd_proc p (\<lambda>r. r\<lparr>p_in_queue := 0\<rparr>) (upd_queue idx deq_q s)))"
  by (simp add: dequeue_def kM_simps Let_def upd_queue_def deq_q_def upd_proc_def)

definition q_ok :: "priority_queue \<Rightarrow> bool" where
  "q_ok q \<longleftrightarrow> 0 \<le> q_front q \<and> q_front q \<le> int NPROC \<and> 0 \<le> q_length q \<and> q_length q \<le> int NPROC
    \<and> q_back q = (q_front q + q_length q) mod (int NPROC + 1)
    \<and> None \<notin> set (slots (NPROC + 1) (q_procs q) (nat (q_front q)) (nat (q_length q)))"

definition q_list :: "priority_queue \<Rightarrow> nat list" where
  "q_list q = map the (slots (NPROC + 1) (q_procs q) (nat (q_front q)) (nat (q_length q)))"

lemma length_q_list [simp]: "length (q_list q) = nat (q_length q)"
  by (simp add: q_list_def)

lemma q_back_nat:
  assumes "q_ok q"
  shows "nat (q_back q) = (nat (q_front q) + nat (q_length q)) mod (NPROC + 1)"
proof -
  have "q_back q = int ((nat (q_front q) + nat (q_length q)) mod (NPROC + 1))"
    using assms by (simp add: q_ok_def zmod_int add.commute)
  then show ?thesis by simp
qed

lemma ring_succ: "0 \<le> x \<Longrightarrow> x \<le> int n \<Longrightarrow> (if x + 1 = int n + 1 then 0 else x + 1) = (x + 1) mod (int n + 1)"
  by auto

lemma enq_q_ok:
  assumes "q_ok q" "length (q_list q) < NPROC"
  shows "q_ok (enq_q p q) \<and> q_list (enq_q p q) = q_list q @ [p]"
proof -
  let ?n = "NPROC + 1" let ?f = "nat (q_front q)" let ?m = "nat (q_length q)"
  have b: "0 \<le> q_front q" "q_front q \<le> int NPROC" "0 \<le> q_length q" using assms(1) by (simp_all add: q_ok_def)
  have bk: "0 \<le> q_back q" "q_back q \<le> int NPROC"
    using assms(1) pos_mod_bound [of "int NPROC + 1" "q_front q + q_length q"] by (simp_all add: q_ok_def)
  let ?a = "(q_procs q)((?f + ?m) mod ?n := Some p)"
  have a: "q_procs (enq_q p q) = ?a" using q_back_nat [OF assms(1)] by (simp add: enq_q_def)
  have sl: "slots ?n ?a ?f (Suc ?m) = slots ?n (q_procs q) ?f ?m @ [Some p]"
    using assms(2) b by (simp add: slots_Suc_last slots_upd_end)
  have len: "nat (q_length (enq_q p q)) = Suc ?m" "q_front (enq_q p q) = q_front q"
    using b by (simp_all add: enq_q_def nat_add_distrib)
  have "q_back (enq_q p q) = (q_back q + 1) mod (int NPROC + 1)"
    using bk by (simp add: enq_q_def ring_succ)
  also have "\<dots> = (q_front q + (q_length q + 1)) mod (int NPROC + 1)"
    using assms(1) by (simp add: q_ok_def mod_add_left_eq add.assoc)
  finally have "q_ok (enq_q p q)"
    using assms a sl len b by (simp add: q_ok_def enq_q_def)
  moreover have "q_list (enq_q p q) = q_list q @ [p]"
    unfolding q_list_def a len sl by simp
  ultimately show ?thesis ..
qed

lemma deq_q_ok:
  assumes "q_ok q" "q_list q \<noteq> []"
  shows "q_ok (deq_q q) \<and> q_list (deq_q q) = tl (q_list q)
    \<and> the (q_procs q (nat (q_front q))) = hd (q_list q) \<and> q_procs q (nat (q_front q)) \<noteq> None"
proof -
  let ?n = "NPROC + 1" let ?f = "nat (q_front q)"
  have "0 < nat (q_length q)" using assms(2) by (metis length_greater_0_conv length_q_list)
  then have b: "0 \<le> q_front q" "q_front q \<le> int NPROC" "0 < q_length q"
    using assms(1) by (simp_all add: q_ok_def)
  then obtain m where m: "nat (q_length q) = Suc m" by (cases "nat (q_length q)") auto
  have sl: "slots ?n (q_procs q) ?f (Suc m) = q_procs q ?f # slots ?n (q_procs q) (Suc ?f mod ?n) m"
    using b by (intro slots_Suc) simp
  have fr: "q_front (deq_q q) = (q_front q + 1) mod (int NPROC + 1)"
    using b by (simp add: deq_q_def ring_succ)
  then have frn: "nat (q_front (deq_q q)) = Suc ?f mod ?n"
    using b by (simp add: nat_mod_distrib nat_add_distrib)
  have len: "nat (q_length (deq_q q)) = m" "q_procs (deq_q q) = q_procs q"
    using m by (simp_all add: deq_q_def nat_diff_distrib)
  have "q_ok (deq_q q)" unfolding q_ok_def frn len
    using assms(1) b sl m fr pos_mod_bound [of "int NPROC + 1" "q_front q + 1"]
    by (auto simp: q_ok_def deq_q_def mod_add_left_eq)
  moreover have "q_list (deq_q q) = tl (q_list q)" "the (q_procs q ?f) = hd (q_list q)"
    unfolding q_list_def frn len m sl by simp_all
  moreover have "q_procs q ?f \<noteq> None" using assms(1) sl m by (cases "q_procs q ?f") (auto simp: q_ok_def)
  ultimately show ?thesis by simp
qed

interpretation mlfq: bounded_queue q_ok q_list NPROC enq_q "\<lambda>q. the (q_procs q (nat (q_front q)))" deq_q
  by unfold_locales (simp_all add: enq_q_ok deq_q_ok)


text \<open>The array after the loop of \<open>delqueue\<close> over the \<open>m\<close> slots from \<open>cur\<close> on;
  \<open>hit\<close> says which entries have the pid sought.\<close>

fun del_arr :: "nat \<Rightarrow> (nat option \<Rightarrow> bool) \<Rightarrow> nat \<Rightarrow> nat \<Rightarrow> bool \<Rightarrow> (nat \<Rightarrow> nat option) \<Rightarrow> nat \<Rightarrow> nat option"
  where
  "del_arr n hit 0 cur flag a = a"
| "del_arr n hit (Suc m) cur flag a =
    (let flag' = (flag \<or> hit (a cur)); nxt = Suc cur mod n
     in del_arr n hit m nxt flag' (if flag' then a(cur := a nxt) else a))"

lemma slots_shift: "slots n a (Suc cur mod n) m = map (\<lambda>k. a ((cur + Suc k) mod n)) [0..<m]"
  by (simp add: slots_def mod_add_left_eq)

lemma del_arr_outside:
  assumes "cur < n" "m < n" "\<And>k. k < m \<Longrightarrow> x \<noteq> (cur + k) mod n"
  shows "del_arr n hit m cur flag a x = a x"
  using assms
proof (induction m arbitrary: cur flag a)
  case (Suc m)
  have "x \<noteq> cur" using Suc.prems(3) [of 0] Suc.prems(1) by simp
  moreover have "x \<noteq> (Suc cur mod n + k) mod n" if "k < m" for k
    using Suc.prems(3) [of "Suc k"] that by (simp add: mod_add_left_eq)
  moreover have "Suc cur mod n < n" using Suc.prems(1) by simp
  ultimately show ?case using Suc.IH [of "Suc cur mod n"] Suc.prems(2) by (simp add: Let_def)
qed simp

lemma del_arr_head:
  assumes "cur < n" "Suc m < n"
  shows "del_arr n hit m (Suc cur mod n) flag a cur = a cur"
proof (rule del_arr_outside)
  fix k assume "k < m"
  then have "(cur + Suc k) mod n \<noteq> cur" using assms by (intro ring_index_neq) simp_all
  then show "cur \<noteq> (Suc cur mod n + k) mod n" by (simp add: mod_add_left_eq)
qed (use assms in simp_all)

text \<open>Once the entry has been found, every later slot takes the entry of its successor.\<close>

lemma del_arr_shift:
  assumes "cur < n" "m < n"
  shows "slots n (del_arr n hit m cur True a) cur m = slots n a (Suc cur mod n) m"
  using assms
proof (induction m arbitrary: cur a)
  case (Suc m)
  let ?nxt = "Suc cur mod n" let ?a = "a(cur := a ?nxt)"
  have n: "?nxt < n" using Suc.prems by simp
  have "slots n (del_arr n hit m ?nxt True ?a) ?nxt m = slots n ?a (Suc ?nxt mod n) m"
    using Suc.IH [OF n] Suc.prems by simp
  also have "\<dots> = slots n a (Suc ?nxt mod n) m"
  proof (rule slots_cong)
    fix k assume k: "k < m"
    have "(Suc ?nxt mod n + k) mod n = (cur + Suc (Suc k)) mod n"
      by (metis add_Suc add_Suc_right mod_Suc_eq mod_add_left_eq)
    moreover have "(cur + Suc (Suc k)) mod n \<noteq> cur"
      using k Suc.prems by (intro ring_index_neq) simp_all
    ultimately show "?a ((Suc ?nxt mod n + k) mod n) = a ((Suc ?nxt mod n + k) mod n)" by simp
  qed
  finally have "slots n (del_arr n hit m ?nxt True ?a) ?nxt m = slots n a (Suc ?nxt mod n) m" .
  moreover have "del_arr n hit m ?nxt True ?a cur = a ?nxt"
    using del_arr_head [of cur n m hit True ?a] Suc.prems by simp
  ultimately show ?case using Suc.prems n by (simp add: slots_Suc Let_def)
qed simp

lemma del_arr_list:
  assumes "cur < n" "Suc m < n"
  shows "slots n (del_arr n hit (Suc m) cur False a) cur m =
    (let xs = slots n a cur (Suc m) in
     case find hit xs of None \<Rightarrow> butlast xs | Some x \<Rightarrow> remove1 x xs)"
  using assms
proof (induction m arbitrary: cur a)
  case 0
  then show ?case by (auto simp: Let_def slots_Suc)
next
  case (Suc m)
  let ?nxt = "Suc cur mod n"
  have n: "?nxt < n" using Suc.prems by simp
  show ?case
  proof (cases "hit (a cur)")
    case True
    let ?a = "a(cur := a ?nxt)"
    have "slots n (del_arr n hit (Suc m) ?nxt True ?a) cur (Suc m)
        = del_arr n hit (Suc m) ?nxt True ?a cur # slots n (del_arr n hit (Suc m) ?nxt True ?a) ?nxt m"
      using Suc.prems(1) by (rule slots_Suc)
    moreover have "del_arr n hit (Suc m) ?nxt True ?a cur = a ?nxt"
      using del_arr_head [of cur n "Suc m" hit True ?a] Suc.prems by simp
    moreover have "slots n (del_arr n hit (Suc m) ?nxt True ?a) ?nxt (Suc m)
        = slots n ?a (Suc ?nxt mod n) (Suc m)"
      using Suc.prems(2) by (intro del_arr_shift [OF n]) simp
    then have "slots n (del_arr n hit (Suc m) ?nxt True ?a) ?nxt m = slots n ?a (Suc ?nxt mod n) m"
      by (simp add: slots_Suc_last)
    moreover have "slots n ?a (Suc ?nxt mod n) m = slots n a (Suc ?nxt mod n) m"
    proof (rule slots_cong)
      fix k assume k: "k < m"
      have "(Suc ?nxt mod n + k) mod n = (cur + Suc (Suc k)) mod n"
        by (metis add_Suc add_Suc_right mod_Suc_eq mod_add_left_eq)
      moreover have "(cur + Suc (Suc k)) mod n \<noteq> cur"
        using k Suc.prems by (intro ring_index_neq) simp_all
      ultimately show "?a ((Suc ?nxt mod n + k) mod n) = a ((Suc ?nxt mod n + k) mod n)" by simp
    qed
    moreover have "del_arr n hit (Suc (Suc m)) cur False a = del_arr n hit (Suc m) ?nxt True ?a"
      by (subst del_arr.simps(2)) (simp add: True Let_def del: del_arr.simps)
    ultimately have "slots n (del_arr n hit (Suc (Suc m)) cur False a) cur (Suc m) = slots n a ?nxt (Suc m)"
      by (simp only: slots_Suc [OF n])
    then show ?thesis using True Suc.prems(1) by (simp add: slots_Suc [OF Suc.prems(1)] Let_def)
  next
    case False
    have "slots n (del_arr n hit (Suc m) ?nxt False a) cur (Suc m)
        = a cur # slots n (del_arr n hit (Suc m) ?nxt False a) ?nxt m"
      using del_arr_head [of cur n "Suc m" hit False a] Suc.prems
      by (simp only: slots_Suc [OF Suc.prems(1)] simp_thms)
    moreover have "del_arr n hit (Suc (Suc m)) cur False a = del_arr n hit (Suc m) ?nxt False a"
      by (subst del_arr.simps(2)) (simp add: False Let_def del: del_arr.simps)
    moreover have "Suc m < n" using Suc.prems(2) by simp
    note Suc.IH [OF n this, of a]
    ultimately show ?thesis using False
      by (auto simp del: del_arr.simps simp: slots_Suc [OF Suc.prems(1)] slots_Suc [OF n] Let_def split: option.split dest: find_Some_iff [THEN iffD1])
  qed
qed


definition same_pid :: "'z pstate_scheme \<Rightarrow> nat \<Rightarrow> nat option \<Rightarrow> bool" where
  "same_pid s p x = (case x of None \<Rightarrow> False | Some c \<Rightarrow> p_pid (proc s c) = p_pid (proc s p))"

lemma same_pid_Some: "same_pid s p (Some x) \<longleftrightarrow> p_pid (proc s x) = p_pid (proc s p)"
  by (simp add: same_pid_def)

lemma ring_next: "(int c + 1) mod (int NPROC + 1) = int (Suc c mod (NPROC + 1))"
  by (simp add: zmod_int add.commute)

lemma delqueue_loop_eq:
  assumes "c < NPROC + 1" "m < NPROC + 1" "m \<le> fuel"
    and "q_back (queues s idx) = int ((c + m) mod (NPROC + 1))"
    and "None \<notin> set (slots (NPROC + 1) (q_procs (queues s idx)) c m)"
  shows "delqueue_loop fuel idx p (int c) flag s = Ret ((), upd_queue idx (\<lambda>q.
    q\<lparr>q_procs := del_arr (NPROC + 1) (same_pid s p) m c flag (q_procs q)\<rparr>) s)"
  using assms
proof (induction m arbitrary: fuel c flag s)
  case 0
  then show ?case by (cases fuel) (simp_all add: kM_simps upd_queue_def)
next
  case (Suc m)
  let ?n = "NPROC + 1" let ?a = "q_procs (queues s idx)" let ?nxt = "Suc c mod ?n"
  obtain fuel' where f: "fuel = Suc fuel'" "m \<le> fuel'" using Suc.prems(3) by (cases fuel) auto
  have sl: "slots ?n ?a c (Suc m) = ?a c # slots ?n ?a ?nxt m" by (rule slots_Suc) (rule Suc.prems(1))
  with Suc.prems(5) obtain x where x: "?a c = Some x" by (cases "?a c") auto
  have ne: "(c + Suc m) mod ?n \<noteq> c" using Suc.prems(1,2) by (intro ring_index_neq) simp_all
  define flag' where "flag' = (flag \<or> p_pid (proc s x) = p_pid (proc s p))"
  define s' where "s' = (if flag' then upd_queue idx (\<lambda>q. q\<lparr>q_procs := (q_procs q)(c := q_procs q ?nxt)\<rparr>) s else s)"
  have a': "q_procs (queues s' idx) = (if flag' then ?a(c := ?a ?nxt) else ?a)"
    by (simp add: s'_def)
  have "slots ?n (q_procs (queues s' idx)) ?nxt m = slots ?n ?a ?nxt m"
    unfolding a' using Suc.prems(1,2) slots_upd_before [of c ?n m ?a "?a ?nxt"] by simp
  then have "None \<notin> set (slots ?n (q_procs (queues s' idx)) ?nxt m)" using Suc.prems(5) sl by simp
  moreover have "q_back (queues s' idx) = int ((?nxt + m) mod ?n)"
    using Suc.prems(4) by (simp add: s'_def mod_add_left_eq)
  ultimately have IH: "delqueue_loop fuel' idx p (int ?nxt) flag' s' = Ret ((), upd_queue idx (\<lambda>q.
      q\<lparr>q_procs := del_arr ?n (same_pid s' p) m ?nxt flag' (q_procs q)\<rparr>) s')"
    using Suc.prems f by (intro Suc.IH) simp_all
  have "proc s' = proc s" by (simp add: s'_def)
  then have sp: "same_pid s' p = same_pid s p" by (intro ext) (simp add: same_pid_def split: option.split)
  have "delqueue_loop fuel idx p (int c) flag s = delqueue_loop fuel' idx p (int ?nxt) flag' s'"
    using Suc.prems(4) ne x unfolding f(1)
    by (simp add: kM_simps with_ptr_def Let_def ring_next flag'_def s'_def)
  then show ?case
    unfolding IH sp using x
    by (cases "flag \<or> p_pid (proc s x) = p_pid (proc s p)")
      (simp_all add: s'_def same_pid_Some flag'_def Let_def upd_queue_def)
qed

lemma find_map_Some: "find P (map Some xs) = map_option Some (find (\<lambda>x. P (Some x)) xs)"
  by (induction xs) auto

lemma remove1_map_Some: "remove1 (Some x) (map Some xs) = map Some (remove1 x xs)"
  by (induction xs) auto

lemma all_Some: "None \<notin> set xs \<Longrightarrow> map Some (map the xs) = xs"
  by (induction xs) auto

lemma delqueue_eq:
  assumes "q_ok (queues s (nat (p_priority (proc s p))))"
    and "q_length (queues s (nat (p_priority (proc s p)))) > 0"
  shows "\<exists>q'. delqueue p s = Ret ((), upd_queue (nat (p_priority (proc s p))) (\<lambda>_. q')
      (upd_proc p (\<lambda>r. r\<lparr>p_curr_wtime := 0\<rparr>) s)) \<and> q_ok q'
    \<and> q_list q' = (let xs = q_list (queues s (nat (p_priority (proc s p)))) in
        case find (\<lambda>c. p_pid (proc s c) = p_pid (proc s p)) xs of
          None \<Rightarrow> butlast xs | Some c \<Rightarrow> remove1 c xs)"
proof -
  define idx where "idx = nat (p_priority (proc s p))"
  define q where "q = queues s idx"
  let ?n = "NPROC + 1" let ?f = "nat (q_front q)"
  have ok: "q_ok q" "0 < q_length q" using assms by (simp_all add: idx_def q_def)
  then obtain m where m: "nat (q_length q) = Suc m" by (cases "nat (q_length q)") auto
  have b: "0 \<le> q_front q" "q_front q \<le> int NPROC" "q_length q \<le> int NPROC" using ok by (simp_all add: q_ok_def)
  have mn: "Suc m < ?n" using b(3) m by simp
  have "0 \<le> q_back q" using ok(1) by (simp add: q_ok_def)
  then have "q_back q = int (nat (q_back q))" by simp
  then have bk: "q_back q = int ((?f + Suc m) mod ?n)" unfolding q_back_nat [OF ok(1)] m .
  let ?a = "del_arr ?n (same_pid s p) (Suc m) ?f False (q_procs q)"
  have "delqueue_loop (NPROC + 1) idx p (int ?f) False s =
      Ret ((), upd_queue idx (\<lambda>q. q\<lparr>q_procs := del_arr ?n (same_pid s p) (Suc m) ?f False (q_procs q)\<rparr>) s)"
  proof (rule delqueue_loop_eq)
    show "q_back (queues s idx) = int ((?f + Suc m) mod ?n)" using bk by (simp only: q_def)
    show "None \<notin> set (slots ?n (q_procs (queues s idx)) ?f (Suc m))"
      using ok(1) m by (simp add: q_ok_def q_def)
  qed (use b mn in simp_all)
  then have loop: "delqueue_loop (NPROC + 1) idx p (q_front q) False s =
      Ret ((), upd_queue idx (\<lambda>q. q\<lparr>q_procs := del_arr ?n (same_pid s p) (Suc m) ?f False (q_procs q)\<rparr>) s)"
    using b(1) by (simp only: nat_0_le)
  define q' where "q' = q\<lparr>q_procs := ?a, q_back := (if q_back q - 1 < 0 then int NPROC else q_back q - 1),
    q_length := q_length q - 1\<rparr>"
  have q'_alt: "q' = (if q_back q - 1 < 0
      then q\<lparr>q_procs := ?a, q_length := q_length q - 1, q_back := int NPROC\<rparr>
      else q\<lparr>q_procs := ?a, q_back := q_back q - 1, q_length := q_length q - 1\<rparr>)"
    by (simp add: q'_def del: del_arr.simps)
  have "delqueue p s = Ret ((), upd_queue idx (\<lambda>_. q') (upd_proc p (\<lambda>r. r\<lparr>p_curr_wtime := 0\<rparr>) s))"
    unfolding delqueue_def using loop
    by (simp add: kM_simps idx_def [symmetric] q_def [symmetric] upd_queue_def upd_proc_def q'_alt
        del: delqueue_loop.simps del_arr.simps)
  moreover have sl: "map the (slots ?n ?a ?f m) = (let xs = q_list q in
      case find (\<lambda>c. p_pid (proc s c) = p_pid (proc s p)) xs of
        None \<Rightarrow> butlast xs | Some c \<Rightarrow> remove1 c xs)
      \<and> None \<notin> set (slots ?n ?a ?f m)"
  proof -
    have "None \<notin> set (slots ?n (q_procs q) ?f (Suc m))" using ok(1) m by (simp add: q_ok_def)
    then have xs: "slots ?n (q_procs q) ?f (Suc m) = map Some (q_list q)"
      unfolding q_list_def m by (rule all_Some [symmetric])
    have "slots ?n ?a ?f m = (let xs = slots ?n (q_procs q) ?f (Suc m) in
        case find (same_pid s p) xs of None \<Rightarrow> butlast xs | Some x \<Rightarrow> remove1 x xs)"
      using b mn by (intro del_arr_list) simp_all
    also have "\<dots> = map Some (let xs = q_list q in
        case find (\<lambda>c. p_pid (proc s c) = p_pid (proc s p)) xs of
          None \<Rightarrow> butlast xs | Some c \<Rightarrow> remove1 c xs)"
      unfolding xs Let_def
      by (simp add: find_map_Some same_pid_def remove1_map_Some map_butlast split: option.split)
    finally show ?thesis by (auto simp: comp_def)
  qed
  moreover have "q_list q' = map the (slots ?n ?a ?f m)"
    using m by (simp add: q_list_def q'_def nat_diff_distrib)
  moreover have "q_ok q'"
  proof -
    have "q_back q' = (q_back q - 1) mod (int NPROC + 1)"
    proof (cases "q_back q = 0")
      case True
      have "(-1) mod (int NPROC + 1) = int NPROC" by (simp add: zmod_minus1)
      with True show ?thesis by (simp add: q'_def)
    next
      case False
      have "0 \<le> q_back q" "q_back q \<le> int NPROC" unfolding bk
        using mod_less_divisor [of ?n "?f + Suc m"] by (simp_all add: less_Suc_eq_le)
      with False show ?thesis by (simp add: q'_def)
    qed
    also have "\<dots> = (q_front q + (q_length q - 1)) mod (int NPROC + 1)"
      using ok(1) by (simp add: q_ok_def mod_diff_left_eq algebra_simps)
    finally show ?thesis
      using ok b m conjunct2 [OF sl] by (simp add: q_ok_def q'_def nat_diff_distrib)
  qed
  ultimately show ?thesis unfolding idx_def [symmetric] q_def [symmetric] by auto
qed


lemma for_until_append:
  "for_until (xs @ ys) body s = (case for_until xs body s of
      Ret r \<Rightarrow> (case fst r of None \<Rightarrow> for_until ys body (snd r) | Some v \<Rightarrow> Ret (Some v, snd r))
    | Panic e \<Rightarrow> Panic e | Hang \<Rightarrow> Hang)"
  by (induction xs arbitrary: s) (auto simp: kM_simps split: outcome.split option.split)

section \<open>First come first served\<close>

lemma for_acc_append: "for_acc (xs @ ys) body a s = bind (for_acc xs body a) (for_acc ys body) s"
  by (induction xs arbitrary: a s) (auto simp: kM_simps split: outcome.split)

fun fcfs_best :: "(nat \<Rightarrow> proc) \<Rightarrow> nat \<Rightarrow> nat option" where
  "fcfs_best f 0 = None"
| "fcfs_best f (Suc k) =
    (if p_state (f k) \<noteq> RUNNABLE then fcfs_best f k else
     case fcfs_best f k of None \<Rightarrow> Some k
     | Some b \<Rightarrow> if p_tick_creation_time (f b) > p_tick_creation_time (f k) then Some k else Some b)"

lemma fcfs_best_None: "fcfs_best f k = None \<longleftrightarrow> (\<forall>q<k. p_state (f q) \<noteq> RUNNABLE)"
  by (induction k) (auto simp: less_Suc_eq split: option.split)

lemma fcfs_best_Some:
  "fcfs_best f k = Some b \<Longrightarrow> b < k \<and> p_state (f b) = RUNNABLE \<and> (\<forall>q<k. p_state (f q) = RUNNABLE \<longrightarrow>
    p_tick_creation_time (f b) < p_tick_creation_time (f q)
    \<or> p_tick_creation_time (f b) = p_tick_creation_time (f q) \<and> b \<le> q)"
proof (induction k arbitrary: b)
  case (Suc k)
  show ?case
  proof (cases "fcfs_best f k")
    case None
    then show ?thesis using Suc.prems fcfs_best_None [of f k] by (auto simp: less_Suc_eq split: if_splits)
  next
    case (Some c)
    from Suc.IH [OF this] Suc.prems Some show ?thesis by (fastforce simp: less_Suc_eq split: if_splits)
  qed
qed simp

definition hold_candidate :: "nat option \<Rightarrow> 'z pstate_scheme \<Rightarrow> 'z pstate_scheme" where
  "hold_candidate c s = (case c of None \<Rightarrow> settle s | Some b \<Rightarrow> acq (KProc b) s)"

lemma release_other:
  assumes "hart_ok s" "lock_free (KProc b) s" "b \<noteq> k"
  shows "release (KProc b) (acq (KProc k) (acq (KProc b) s)) = Ret ((), acq (KProc k) s)"
  using assms release_acq [of "acq (KProc k) s" "KProc b"] by (simp add: acq_commute)

lemma fcfs_step:
  assumes "procs_ready s" "k < NPROC" "\<And>b. c = Some b \<Longrightarrow> b < k"
    and t: "t = hold_candidate c s \<or> (c = None \<and> t = s)"
  shows "fcfs_one k c t
    = (let c' = (if p_state (proc s k) \<noteq> RUNNABLE then c else
        case c of None \<Rightarrow> Some k
        | Some b \<Rightarrow> if p_tick_creation_time (proc s b) > p_tick_creation_time (proc s k) then Some k else Some b)
       in Ret (c', hold_candidate c' s))"
proof (cases c)
  case None
  then have "acq (KProc k) t = acq (KProc k) s" "lock_free (KProc k) t" "proc t = proc s"
    using t assms(1,2) by (auto simp: hold_candidate_def procs_readyD)
  then show ?thesis using None assms(1,2)
    by (simp add: fcfs_one_def crit procs_readyD hold_candidate_def Let_def)
next
  case (Some b)
  then have b: "b < k" "t = acq (KProc b) s" using assms(3) t by (auto simp: hold_candidate_def)
  then have ok: "hart_ok s" "lock_free (KProc b) s" "lock_free (KProc k) s"
    using assms(1,2) by (simp_all add: procs_readyD)
  have "release (KProc k) (acq (KProc k) (acq (KProc b) s)) = Ret ((), acq (KProc b) s)"
    using ok b(1) release_acq [of "acq (KProc b) s" "KProc k"] by simp
  moreover have "release (KProc b) (acq (KProc k) (acq (KProc b) s)) = Ret ((), acq (KProc k) s)"
    using ok b(1) by (intro release_other) simp_all
  moreover have "acquire (KProc k) t = Ret ((), acq (KProc k) (acq (KProc b) s))"
    using ok b by (simp add: acquire_free lock_free_unlocked)
  ultimately show ?thesis using Some by (simp add: fcfs_one_def kM_simps hold_candidate_def Let_def)
qed

lemma fcfs_scan_eq:
  assumes "procs_ready s"
  shows "fcfs_scan s = Ret (fcfs_best (proc s) NPROC, hold_candidate (fcfs_best (proc s) NPROC) s)"
proof -
  have "\<exists>t. for_acc [0..<k] fcfs_one None s = Ret (fcfs_best (proc s) k, t)
      \<and> (t = hold_candidate (fcfs_best (proc s) k) s \<or> k = 0 \<and> t = s)" if "k \<le> NPROC" for k
    using that
  proof (induction k)
    case (Suc k)
    then obtain t where t: "for_acc [0..<k] fcfs_one None s = Ret (fcfs_best (proc s) k, t)"
      "t = hold_candidate (fcfs_best (proc s) k) s \<or> k = 0 \<and> t = s" by auto
    have "fcfs_one k (fcfs_best (proc s) k) t
        = Ret (fcfs_best (proc s) (Suc k), hold_candidate (fcfs_best (proc s) (Suc k)) s)"
      using fcfs_step [OF assms, of k "fcfs_best (proc s) k" t] Suc.prems t(2) fcfs_best_Some
      by (auto simp: Let_def)
    then show ?case using t(1) by (simp add: for_acc_append kM_simps del: fcfs_best.simps)
  qed (simp add: kM_simps)
  from this [of NPROC] show ?thesis by (auto simp: fcfs_scan_def NPROC_def)
qed

section \<open>Lottery\<close>

fun lbs_sum :: "(nat \<Rightarrow> proc) \<Rightarrow> nat \<Rightarrow> int" where
  "lbs_sum f 0 = 0"
| "lbs_sum f (Suc k) = lbs_sum f k + (if p_state (f k) = RUNNABLE then p_tickets (f k) else 0)"

lemma lbs_sum_mono:
  assumes "\<And>q. p_state (f q) = RUNNABLE \<Longrightarrow> 0 \<le> p_tickets (f q)" "j \<le> k"
  shows "lbs_sum f j \<le> lbs_sum f k"
  using assms(2) by (induction k) (auto simp: le_Suc_eq assms(1) intro: add_increasing2)

text \<open>The sums that the two loops reach are ints.\<close>

definition lbs_fits :: "(nat \<Rightarrow> proc) \<Rightarrow> bool" where
  "lbs_fits f \<longleftrightarrow> (\<forall>k\<le>NPROC. - INT_MAX - 1 \<le> lbs_sum f k \<and> lbs_sum f k \<le> INT_MAX)"

lemma lbs_fitsI:
  assumes "\<And>q. p_state (f q) = RUNNABLE \<Longrightarrow> 0 \<le> p_tickets (f q)" "lbs_sum f NPROC \<le> INT_MAX"
  shows "lbs_fits f"
  unfolding lbs_fits_def
proof (intro allI impI conjI)
  fix k assume k: "k \<le> NPROC"
  show "- INT_MAX - 1 \<le> lbs_sum f k" using lbs_sum_mono [of f 0 k] assms(1) by (simp add: INT_MAX_def)
  show "lbs_sum f k \<le> INT_MAX" using lbs_sum_mono [of f k NPROC] assms k by (simp add: order_trans)
qed

lemma int_add_sum:
  assumes "lbs_fits f" "k < NPROC" "p_state (f k) = RUNNABLE"
  shows "int_add (lbs_sum f k) (p_tickets (f k)) = lbs_sum f (Suc k)"
proof -
  have "- INT_MAX - 1 \<le> lbs_sum f (Suc k)" "lbs_sum f (Suc k) \<le> INT_MAX"
    using assms(1,2) unfolding lbs_fits_def by (metis Suc_leI)+
  then have "signed_take_bit 31 (lbs_sum f (Suc k)) = lbs_sum f (Suc k)"
    unfolding INT_MAX_def by (intro signed_take_bit_int_eq_self) simp_all
  then show ?thesis using assms(3) by (simp add: int_add_def)
qed

lemma lbs_total_sum:
  assumes "lbs_fits (proc s)"
  shows "lbs_total s = lbs_sum (proc s) NPROC"
proof -
  have "fold (\<lambda>p n. if p_state (proc s p) = RUNNABLE then int_add n (p_tickets (proc s p)) else n) [0..<k] 0
    = lbs_sum (proc s) k" if "k \<le> NPROC" for k
    using that
  proof (induction k)
    case (Suc k)
    then show ?case using int_add_sum [OF assms, of k] by (cases "p_state (proc s k) = RUNNABLE") simp_all
  qed simp
  then show ?thesis by (simp add: lbs_total_def)
qed

text \<open>With a draw of at most the total, some runnable process is reached.\<close>

lemma lbs_winner:
  assumes "p_state (f q) = RUNNABLE" "q < n" "r \<le> lbs_sum f n"
  shows "\<exists>b<n. p_state (f b) = RUNNABLE \<and> r \<le> lbs_sum f (Suc b)
    \<and> (\<forall>c<b. p_state (f c) = RUNNABLE \<longrightarrow> lbs_sum f (Suc c) < r)"
proof -
  have "\<exists>b<n. p_state (f b) = RUNNABLE \<and> r \<le> lbs_sum f (Suc b)"
    using assms
  proof (induction n)
    case (Suc n)
    show ?case
    proof (cases "p_state (f n) = RUNNABLE")
      case True then show ?thesis using Suc.prems(3) by (auto intro: exI [of _ n])
    next
      case False
      then have "q < n" "r \<le> lbs_sum f n" using Suc.prems by (auto simp: less_Suc_eq)
      with Suc.IH Suc.prems(1) show ?thesis by (auto simp: less_Suc_eq)
    qed
  qed simp
  then obtain b where b: "b < n" "p_state (f b) = RUNNABLE" "r \<le> lbs_sum f (Suc b)" by blast
  let ?P = "\<lambda>b. b < n \<and> p_state (f b) = RUNNABLE \<and> r \<le> lbs_sum f (Suc b)"
  have L: "?P (LEAST b. ?P b)" using b by (intro LeastI [of ?P b]) simp
  moreover have "\<forall>c<(LEAST b. ?P b). p_state (f c) = RUNNABLE \<longrightarrow> lbs_sum f (Suc c) < r"
  proof (intro allI impI)
    fix c assume c: "c < (LEAST b. ?P b)" "p_state (f c) = RUNNABLE"
    then have "\<not> ?P c" using not_less_Least by blast
    with c L show "lbs_sum f (Suc c) < r" by auto
  qed
  ultimately show ?thesis by blast
qed


lemma pstate_mtst [simp]:
  "acq l s\<lparr>mtst := x\<rparr> = acq l (s\<lparr>mtst := x\<rparr>)" "settle s\<lparr>mtst := x\<rparr> = settle (s\<lparr>mtst := x\<rparr>)"
  "procs_ready (s\<lparr>mtst := x\<rparr>) = procs_ready s"
  by (simp_all add: acq_def push_off_def settle_def hart_defs Let_def procs_ready_def hart_ok_def
      lock_free_def)

lemma lbs_pass:
  assumes "procs_ready s" "lbs_fits (proc s)" "k < NPROC" "p_state (proc s k) = RUNNABLE \<Longrightarrow> lbs_sum (proc s) (Suc k) < r"
  shows "lbs_one run r k (lbs_sum (proc s) k) s = Ret (Inl (lbs_sum (proc s) (Suc k)), settle s)"
proof (cases "p_state (proc s k) = RUNNABLE")
  case True
  then show ?thesis
    using assms(1,3,4) int_add_sum [OF assms(2,3) True] by (auto simp: lbs_one_def crit procs_readyD Let_def simp del: lbs_sum.simps)
next
  case False
  then show ?thesis using assms(1,3) by (simp add: lbs_one_def crit procs_readyD)
qed

lemma lbs_scan:
  assumes "procs_ready s" "lbs_fits (proc s)" "k \<le> NPROC"
    "\<And>c. c < k \<Longrightarrow> p_state (proc s c) = RUNNABLE \<Longrightarrow> lbs_sum (proc s) (Suc c) < r"
  shows "for_fold [0..<k] (lbs_one run r) 0 s = Ret (Inl (lbs_sum (proc s) k), if k = 0 then s else settle s)"
  using assms(3,4)
proof (induction k)
  case (Suc k)
  then have IH: "for_fold [0..<k] (lbs_one run r) 0 s
      = Ret (Inl (lbs_sum (proc s) k), if k = 0 then s else settle s)" by simp
  have "lbs_one run r k (lbs_sum (proc s) k) (if k = 0 then s else settle s)
      = Ret (Inl (lbs_sum (proc s) (Suc k)), settle s)"
    using lbs_pass [of s k r run] lbs_pass [of "settle s" k r run] Suc.prems assms(1,2)
    by (auto simp del: lbs_sum.simps)
  then show ?case using IH by (simp add: for_fold_append kM_simps del: lbs_sum.simps)
qed (simp add: kM_simps)

lemma lbs_hit:
  assumes "procs_ready s" "lbs_fits (proc s)" "b < NPROC" "p_state (proc s b) = RUNNABLE" "r \<le> lbs_sum (proc s) (Suc b)"
  shows "lbs_one run r b (lbs_sum (proc s) b) s
    = seq (switch_to run b) (seq (release (KProc b)) (return (Inr ()))) (acq (KProc b) s)"
  using assms int_add_sum [OF assms(2-4)] by (simp add: lbs_one_def crit procs_readyD Let_def del: lbs_sum.simps)

section \<open>A round of the scheduler returns\<close>

lemma set_cproc_acq [simp]:
  "set_mycpu (\<lambda>c. c\<lparr>cproc := x\<rparr>) (acq l s) = acq l (set_mycpu (\<lambda>c. c\<lparr>cproc := x\<rparr>) s)"
  by (rule harts.equality) (auto simp: acq_def push_off_def hart_defs Let_def fun_eq_iff)

lemma set_cproc_ready [simp]:
  "procs_ready (set_mycpu (\<lambda>c. c\<lparr>cproc := x\<rparr>) s) = procs_ready s"
  "hart_ok (set_mycpu (\<lambda>c. c\<lparr>cproc := x\<rparr>) s) = hart_ok s"
  "lock_free l (set_mycpu (\<lambda>c. c\<lparr>cproc := x\<rparr>) s) = lock_free l s"
  "cproc (mycpu (set_mycpu (\<lambda>c. c\<lparr>cproc := x\<rparr>) s)) = x"
  by (simp_all add: procs_ready_def hart_ok_def lock_free_def hart_defs)

text \<open>What the scheduler relies on: a process it switches to comes back holding its own lock, with
  all other locks of the table free; \<open>g p\<close> is what happened in the meantime.\<close>

definition comes_back :: "(nat \<Rightarrow> ('z pstate_scheme, unit) kM) \<Rightarrow> (nat \<Rightarrow> 'z pstate_scheme \<Rightarrow> 'z pstate_scheme) \<Rightarrow> bool" where
  "comes_back run g \<longleftrightarrow> (\<forall>p t. p < NPROC \<and> procs_ready t \<and> cproc (mycpu t) = Some p \<and> p_state (proc t p) = RUNNING \<longrightarrow>
    run p (acq (KProc p) t) = Ret ((), acq (KProc p) (g p t)) \<and> procs_ready (g p t))"

text \<open>The turn of a process, without the locks: it is made the running process of the hart, runs, and the hart has no
  process again.\<close>

definition turn :: "(nat \<Rightarrow> 'z pstate_scheme \<Rightarrow> 'z pstate_scheme) \<Rightarrow> nat \<Rightarrow> 'z pstate_scheme \<Rightarrow> 'z pstate_scheme" where
  "turn g p s = set_mycpu (\<lambda>c. c\<lparr>cproc := None\<rparr>)
    (g p (set_mycpu (\<lambda>c. c\<lparr>cproc := Some p\<rparr>) (upd_proc p (\<lambda>r. r\<lparr>p_state := RUNNING\<rparr>) s)))"

lemma switch_turn:
  assumes "comes_back run g" "procs_ready s" "p < NPROC"
  shows "procs_ready (turn g p s)" "seq (switch_to run p) (release (KProc p)) (acq (KProc p) s) = Ret ((), settle (turn g p s))"
proof -
  let ?s = "set_mycpu (\<lambda>c. c\<lparr>cproc := Some p\<rparr>) (s\<lparr>proc := (proc s)(p := (proc s p)\<lparr>p_state := RUNNING\<rparr>)\<rparr>)"
  have "procs_ready ?s" "cproc (mycpu ?s) = Some p" "p_state (proc ?s p) = RUNNING"
    using assms(2) by simp_all
  with assms(1,3) have t': "run p (acq (KProc p) ?s) = Ret ((), acq (KProc p) (g p ?s))" "procs_ready (g p ?s)"
    unfolding comes_back_def by blast+
  have u: "turn g p s = set_mycpu (\<lambda>c. c\<lparr>cproc := None\<rparr>) (g p ?s)" by (simp add: turn_def upd_proc_def)
  show r: "procs_ready (turn g p s)" using t'(2) unfolding u by simp
  have "release (KProc p) (acq (KProc p) (turn g p s)) = Ret ((), settle (turn g p s))"
    using r assms(3) by (intro release_acq) (simp_all add: procs_readyD)
  then show "seq (switch_to run p) (release (KProc p)) (acq (KProc p) s) = Ret ((), settle (turn g p s))"
    using t'(1) unfolding u by (simp add: switch_to_def kM_simps upd_proc_def)
qed

text \<open>A round over the processes \<open>ps\<close>: the ones that get a turn, in order, and the final state.\<close>

fun rr_turns :: "(nat \<Rightarrow> 'z pstate_scheme \<Rightarrow> 'z pstate_scheme) \<Rightarrow> nat list \<Rightarrow> 'z pstate_scheme \<Rightarrow> nat list \<times> 'z pstate_scheme" where
  "rr_turns g [] s = ([], s)"
| "rr_turns g (p # ps) s =
    (if p_state (proc s p) = RUNNABLE then
       let (qs, t) = rr_turns g ps (settle (turn g p s)) in (p # qs, t)
     else rr_turns g ps (settle s))"

lemma rr_one_turn:
  assumes "comes_back run g" "procs_ready s" "p < NPROC"
  shows "rr_one run p s = Ret ((), settle (if p_state (proc s p) = RUNNABLE then turn g p s else s))"
proof -
  have "rr_one run p s = (if p_state (proc s p) = RUNNABLE
      then seq (switch_to run p) (release (KProc p)) (acq (KProc p) s) else Ret ((), settle s))"
    using assms(2,3) by (simp add: rr_one_def crit procs_readyD)
  then show ?thesis using switch_turn(2) [OF assms] by simp
qed

lemma rr_round:
  assumes "comes_back run g"
  shows "procs_ready s \<Longrightarrow> \<forall>p\<in>set ps. p < NPROC \<Longrightarrow> for_each ps (rr_one run) s = Ret ((), snd (rr_turns g ps s)) \<and> procs_ready (snd (rr_turns g ps s))"
proof (induction ps arbitrary: s)
  case Nil
  then show ?case by (simp add: kM_simps)
next
  case (Cons p ps)
  have p: "p < NPROC" "\<forall>p\<in>set ps. p < NPROC" using Cons.prems(2) by simp_all
  let ?t = "settle (if p_state (proc s p) = RUNNABLE then turn g p s else s)"
  have "procs_ready ?t" using switch_turn(1) [OF assms Cons.prems(1) p(1)] Cons.prems(1) by simp
  from Cons.IH [OF this p(2)] show ?case
    using rr_one_turn [OF assms Cons.prems(1) p(1)] by (auto simp: kM_simps split_beta Let_def)
qed

lemma turn_state:
  assumes "q \<noteq> p" "\<And>t. p_state (proc (g p t) q) = p_state (proc t q)"
  shows "p_state (proc (turn g p s) q) = p_state (proc s q)"
  using assms by (simp add: turn_def upd_proc_def set_mycpu_def)

lemma rr_turns_order:
  assumes "\<And>p t q. q \<noteq> p \<Longrightarrow> p_state (proc (g p t) q) = p_state (proc t q)"
  shows "distinct ps \<Longrightarrow> fst (rr_turns g ps s) = filter (\<lambda>p. p_state (proc s p) = RUNNABLE) ps"
proof (induction ps arbitrary: s)
  case (Cons p ps)
  have "p_state (proc (turn g p s) q) = p_state (proc s q)" if "q \<in> set ps" for q
    using Cons.prems that by (intro turn_state assms) auto
  then have "filter (\<lambda>q. p_state (proc (turn g p s) q) = RUNNABLE) ps = filter (\<lambda>q. p_state (proc s q) = RUNNABLE) ps"
    by (intro filter_cong) auto
  then show ?case using Cons by (simp add: split_beta Let_def)
qed simp


section \<open>Priorities\<close>

lemma pbs_pass:
  assumes "hart_ok t" "lock_free (KProc k) t" "p_state (proc t k) \<noteq> RUNNABLE"
  shows "pbs_step k acc t = Ret (acc, settle t)"
  using assms by (simp add: pbs_step_def crit)

lemma pbs_pass_range:
  assumes "hart_ok t" "\<forall>k\<in>set ks. lock_free (KProc k) t \<and> p_state (proc t k) \<noteq> RUNNABLE"
  shows "for_acc ks pbs_step acc t = Ret (acc, if ks = [] then t else settle t)"
  using assms by (induction ks arbitrary: t) (auto simp: kM_simps pbs_pass)

lemma pbs_first:
  assumes "hart_ok t" "lock_free (KProc k) t" "p_state (proc t k) = RUNNABLE"
  shows "pbs_step k (None, m) t = Ret ((Some k, dynamic_priority (proc t k)), acq (KProc k) t)"
  using assms by (simp add: pbs_step_def crit)

lemma upt_split: "i \<le> j \<Longrightarrow> j \<le> k \<Longrightarrow> [i..<k] = [i..<j] @ [j..<k]"
  using upt_add_eq_append [of i j "k - j"] by simp

text \<open>On a tie the scan releases the lock of the process it has just chosen.\<close>

lemma pbs_tie:
  assumes "hart_ok s" "lock_free (KProc b) s" "lock_free (KProc p) s" "b \<noteq> p"
    "p_state (proc s p) = RUNNABLE" "dynamic_priority (proc s p) = m"
    "p_number_times (proc s b) = p_number_times (proc s p)"
    "p_tick_creation_time (proc s b) > p_tick_creation_time (proc s p)"
  shows "pbs_step p (Some b, m) (acq (KProc b) s) = Ret ((Some p, m), settle s)"
proof -
  have "release (KProc b) (acq (KProc p) (acq (KProc b) s)) = Ret ((), acq (KProc p) s)"
    using assms(1-4) by (intro release_other) simp_all
  moreover have "release (KProc p) (acq (KProc p) s) = Ret ((), settle s)"
    using assms(1,3) by (rule release_acq)
  ultimately show ?thesis
    using assms by (simp add: pbs_step_def kM_simps acquire_free lock_free_unlocked)
qed

lemma pbs_scan_tie:
  assumes "procs_ready s" "b < p" "p < NPROC" "\<forall>q<NPROC. p_state (proc s q) = RUNNABLE \<longleftrightarrow> q = b \<or> q = p"
    "dynamic_priority (proc s b) = dynamic_priority (proc s p)"
    "p_number_times (proc s b) = p_number_times (proc s p)"
    "p_tick_creation_time (proc s b) > p_tick_creation_time (proc s p)"
  shows "pbs_scan s = Ret ((Some p, dynamic_priority (proc s p)), settle s)"
proof -
  have ok: "hart_ok s" "\<And>q. q < NPROC \<Longrightarrow> lock_free (KProc q) s" using assms(1) by (simp_all add: procs_readyD)
  have st: "p_state (proc s b) = RUNNABLE" "p_state (proc s p) = RUNNABLE" using assms(2-4) by auto
  let ?m = "dynamic_priority (proc s p)"
  let ?s0 = "if b = 0 then s else settle s"
  have 1: "for_acc [0..<b] pbs_step (None, INT_MAX) s = Ret ((None, INT_MAX), ?s0)"
    using pbs_pass_range [of s "[0..<b]"] ok assms(2-4) by auto
  have 2: "pbs_step b (None, INT_MAX) ?s0 = Ret ((Some b, ?m), acq (KProc b) s)"
    using pbs_first [of s b] pbs_first [of "settle s" b] ok st(1) assms(2,3,5) by auto
  have 3: "for_acc [Suc b..<p] pbs_step (Some b, ?m) (acq (KProc b) s) = Ret ((Some b, ?m), acq (KProc b) s)"
    using pbs_pass_range [of "acq (KProc b) s" "[Suc b..<p]"] ok assms(3,4) by auto
  have 4: "pbs_step p (Some b, ?m) (acq (KProc b) s) = Ret ((Some p, ?m), settle s)"
    using pbs_tie [of s b p ?m] ok st assms(2,3,5-7) by simp
  have 5: "for_acc [Suc p..<NPROC] pbs_step (Some p, ?m) (settle s) = Ret ((Some p, ?m), settle s)"
    using pbs_pass_range [of "settle s" "[Suc p..<NPROC]"] ok assms(2-4) by auto
  have "[0..<NPROC] = [0..<b] @ b # [Suc b..<p] @ p # [Suc p..<NPROC]"
    using assms(2,3) upt_split [of 0 b NPROC] upt_split [of "Suc b" p NPROC] by (simp add: upt_conv_Cons)
  with 1 2 3 4 5 show ?thesis by (simp add: pbs_scan_def for_acc_append kM_simps)
qed

section \<open>Clock ticks\<close>

definition tick_proc :: "policy \<Rightarrow> proc \<Rightarrow> proc" where
  "tick_proc pol r =
    (if p_state r = RUNNING then
       let r1 = r\<lparr>p_curr_rtime := p_curr_rtime r + 1, p_rtime := p_rtime r + 1\<rparr> in
       if pol = PBS then r1\<lparr>p_last_run_time := p_last_run_time r + 1,
                            p_total_run_time := p_total_run_time r + 1\<rparr> else r1
     else if pol = PBS \<and> p_state r = SLEEPING then r\<lparr>p_last_sleep_time := p_last_sleep_time r + 1\<rparr>
     else r)"

lemma update_time_eq:
  assumes "procs_ready s" "pol \<noteq> MLFQ"
  shows "update_time pol s = Ret ((), settle (s\<lparr>proc :=
    (\<lambda>p. if p < NPROC then tick_proc pol (proc s p) else proc s p)\<rparr>))"
  unfolding update_time_def
proof (rule procs_loop_upto [where R = "\<lambda>_. True"])
  fix p and t :: "'a pstate_scheme" assume "p < NPROC" "procs_ready t"
  then show "update_time_one pol p t = Ret ((), settle (t\<lparr>proc := (proc t)(p := tick_proc pol (proc t p))\<rparr>))"
    using assms(2) by (auto simp: update_time_one_def crit procs_readyD tick_proc_def Let_def)
qed (use assms in \<open>simp_all add: NPROC_def\<close>)

section \<open>A round of the feedback scheduler\<close>

text \<open>The queues hold each process at most once, in the queue of its priority and marked as queued.\<close>

definition mlfq_ok :: "'z pstate_scheme \<Rightarrow> bool" where
  "mlfq_ok s \<longleftrightarrow> (\<forall>p<NPROC. 0 \<le> p_priority (proc s p) \<and> p_priority (proc s p) < 5) \<and>
    (\<forall>i<5. q_ok (queues s i) \<and> distinct (q_list (queues s i)) \<and>
      (\<forall>p\<in>set (q_list (queues s i)). p < NPROC \<and> p_priority (proc s p) = int i \<and> p_in_queue (proc s p) \<noteq> 0))"

definition joins :: "'z pstate_scheme \<Rightarrow> nat \<Rightarrow> nat \<Rightarrow> bool" where
  "joins s i p \<longleftrightarrow> p_state (proc s p) = RUNNABLE \<and> p_in_queue (proc s p) = 0 \<and> p_priority (proc s p) = int i"

text \<open>Queue \<open>i\<close> once the runnable processes that are in no queue have joined.\<close>

definition joined :: "'z pstate_scheme \<Rightarrow> nat \<Rightarrow> nat list" where
  "joined s i = q_list (queues s i) @ filter (joins s i) [0..<NPROC]"

text \<open>What the scheduler leaves alone until it switches.\<close>

definition same_procs :: "'z pstate_scheme \<Rightarrow> 'z pstate_scheme \<Rightarrow> bool" where
  "same_procs s t \<longleftrightarrow> procs_ready t \<and> (\<forall>p. p_state (proc t p) = p_state (proc s p) \<and> p_priority (proc t p) = p_priority (proc s p))"

lemma length_below: "distinct xs \<Longrightarrow> \<forall>p\<in>set xs. p < n \<Longrightarrow> length xs \<le> n"
  using card_mono [of "{..<n}" "set xs"] by (auto simp: distinct_card)

lemma mlfq_okD:
  assumes "mlfq_ok s"
  shows "p < NPROC \<Longrightarrow> 0 \<le> p_priority (proc s p) \<and> p_priority (proc s p) < 5" "i < 5 \<Longrightarrow> q_ok (queues s i)"
    "i < 5 \<Longrightarrow> distinct (q_list (queues s i))"
    "i < 5 \<Longrightarrow> p \<in> set (q_list (queues s i)) \<Longrightarrow> p < NPROC \<and> p_priority (proc s p) = int i \<and> p_in_queue (proc s p) \<noteq> 0"
  using assms unfolding mlfq_ok_def by blast+

abbreviation enqueue_one :: "nat \<Rightarrow> ('z pstate_scheme, unit) kM" where
  "enqueue_one p \<equiv> seq (acquire (KProc p))
      (bind (gets (\<lambda>s. p_state (proc s p) = RUNNABLE \<and> p_in_queue (proc s p) = 0)) (\<lambda>ready.
      seq (whenM ready (enqueue p))
      (release (KProc p))))"

lemma enqueue_one_ok:
  assumes r: "procs_ready s" and ok: "mlfq_ok s" and p: "p < NPROC"
  shows "\<exists>t. enqueue_one p s = Ret ((), t) \<and> same_procs s t \<and> mlfq_ok t \<and>
    (\<forall>i<5. q_list (queues t i) = q_list (queues s i) @ (if joins s i p then [p] else [])) \<and> (\<forall>q. q \<noteq> p \<longrightarrow> proc t q = proc s q)"
proof (cases "p_state (proc s p) = RUNNABLE \<and> p_in_queue (proc s p) = 0")
  case False
  then have "enqueue_one p s = Ret ((), settle s)" using r p by (auto simp: crit procs_readyD)
  then show ?thesis using False r ok by (intro exI [of _ "settle s"]) (auto simp: same_procs_def mlfq_ok_def joins_def)
next
  case True
  define i where "i = nat (p_priority (proc s p))"
  have i: "i < 5" "p_priority (proc s p) = int i" using mlfq_okD(1) [OF ok p] by (auto simp: i_def)
  let ?q = "queues s i"
  let ?t = "upd_proc p (\<lambda>r. r\<lparr>p_curr_rtime := 0, p_curr_wtime := 0, p_in_queue := 1\<rparr>) (upd_queue i (enq_q p) s)"
  have no: "p \<notin> set (q_list (queues s k))" if "k < 5" for k using mlfq_okD(4) [OF ok that] True by blast
  have "length (p # q_list ?q) \<le> NPROC"
    using no [OF i(1)] mlfq_okD(3,4) [OF ok i(1)] p by (intro length_below) auto
  then have len: "length (q_list ?q) < NPROC" by simp
  then have "q_length ?q \<noteq> int NPROC" using mlfq_okD(2) [OF ok i(1)] by (auto simp: q_ok_def)
  then have "enqueue p (acq (KProc p) s) = Ret ((), acq (KProc p) ?t)"
    by (simp add: enqueue_eq Let_def i_def [symmetric] upd_proc_def upd_queue_def)
  then have run: "enqueue_one p s = Ret ((), settle ?t)"
    using True r p by (simp add: kM_simps acquire_free lock_free_unlocked procs_readyD release_acq upd_proc_def upd_queue_def)
  note e = enq_q_ok [OF mlfq_okD(2) [OF ok i(1)] len, of p]
  have q: "q_list (queues ?t k) = q_list (queues s k) @ (if joins s k p then [p] else [])" if "k < 5" for k
    using e True i(2) by (auto simp: joins_def)
  have "mlfq_ok ?t"
    using ok e no i p unfolding mlfq_ok_def by (auto simp: upd_proc_def)
  moreover have "procs_ready ?t" using r by (simp add: upd_proc_def upd_queue_def)
  ultimately show ?thesis using run q by (intro exI [of _ "settle ?t"]) (auto simp: same_procs_def upd_proc_def mlfq_ok_def)
qed

lemma enqueue_all_ok:
  assumes "procs_ready s" "mlfq_ok s"
  shows "\<exists>t. mlfq_enqueue_all s = Ret ((), t) \<and> same_procs s t \<and> mlfq_ok t \<and> (\<forall>i<5. q_list (queues t i) = joined s i)"
proof -
  have "\<exists>t. for_each [0..<k] enqueue_one s = Ret ((), t) \<and> same_procs s t \<and> mlfq_ok t \<and>
      (\<forall>i<5. q_list (queues t i) = q_list (queues s i) @ filter (joins s i) [0..<k]) \<and> (\<forall>q\<ge>k. proc t q = proc s q)" if "k \<le> NPROC" for k
    using that
  proof (induction k)
    case 0
    then show ?case using assms by (intro exI [of _ s]) (simp add: kM_simps same_procs_def)
  next
    case (Suc k)
    then obtain t where t: "for_each [0..<k] enqueue_one s = Ret ((), t)" "same_procs s t" "mlfq_ok t"
        "\<forall>i<5. q_list (queues t i) = q_list (queues s i) @ filter (joins s i) [0..<k]" "\<forall>q\<ge>k. proc t q = proc s q" by auto
    obtain u where u: "enqueue_one k t = Ret ((), u)" "same_procs t u" "mlfq_ok u"
        "\<forall>i<5. q_list (queues u i) = q_list (queues t i) @ (if joins t i k then [k] else [])" "\<forall>q. q \<noteq> k \<longrightarrow> proc u q = proc t q"
      using enqueue_one_ok [of t k] t(2,3) Suc.prems by (auto simp: same_procs_def)
    have "joins t i k = joins s i k" for i using t(5) by (simp add: joins_def)
    then have "\<forall>i<5. q_list (queues u i) = q_list (queues s i) @ filter (joins s i) [0..<Suc k]" using t(4) u(4) by simp
    moreover have "for_each [0..<Suc k] enqueue_one s = Ret ((), u)" using t(1) u(1) by (simp add: for_each_append kM_simps)
    ultimately show ?case using t(2,5) u(2,3,5) by (intro exI [of _ u]) (auto simp: same_procs_def)
  qed
  from this [of NPROC] show ?thesis unfolding mlfq_enqueue_all_def joined_def by auto
qed

text \<open>The inner loop of the search counts up while the queue gets shorter: of the \<open>n\<close> entries it looks at no more
  than half, rounded up.\<close>

definition looks :: "nat \<Rightarrow> nat list \<Rightarrow> nat" where
  "looks j xs = (length xs - j + 1) div 2"

lemma looks_Cons: "j \<le> length xs \<Longrightarrow> looks j (x # xs) = Suc (looks (Suc j) xs)"
  by (cases "j = length xs") (auto simp: looks_def Suc_diff_le)

lemma looks_0: "length xs \<le> j \<Longrightarrow> looks j xs = 0"
  by (simp add: looks_def)

abbreviation runnable :: "'z pstate_scheme \<Rightarrow> nat \<Rightarrow> bool" where
  "runnable s p \<equiv> p_state (proc s p) = RUNNABLE"

text \<open>The first runnable process among the first \<open>k\<close> entries, and what is left in the queue.\<close>

definition found :: "'z pstate_scheme \<Rightarrow> nat \<Rightarrow> nat list \<Rightarrow> nat option" where
  "found s k xs = find (runnable s) (take k xs)"

definition left :: "'z pstate_scheme \<Rightarrow> nat \<Rightarrow> nat list \<Rightarrow> nat list" where
  "left s k xs = (if found s k xs = None then drop k xs else tl (dropWhile (\<lambda>p. \<not> runnable s p) xs))"

definition level_step :: "nat \<Rightarrow> 'z pstate_scheme \<Rightarrow> 'z pstate_scheme \<Rightarrow> bool" where
  "level_step i s t \<longleftrightarrow> same_procs s t \<and> mlfq_ok t \<and> (\<forall>j. j \<noteq> i \<longrightarrow> queues t j = queues s j)"

lemma level_step_trans: "level_step i s t \<Longrightarrow> level_step i t u \<Longrightarrow> level_step i s u"
  by (simp add: level_step_def same_procs_def)

lemma found_cong: "same_procs s t \<Longrightarrow> found t k xs = found s k xs" "same_procs s t \<Longrightarrow> left t k xs = left s k xs"
  by (simp_all add: same_procs_def found_def left_def)

text \<open>One entry: the process at the front leaves its queue.\<close>

lemma take_front:
  assumes r: "procs_ready s" and ok: "mlfq_ok s" and i: "i < 5" and q: "q_list (queues s i) = p # ps"
  defines "t \<equiv> upd_proc p (\<lambda>r. r\<lparr>p_in_queue := 0\<rparr>) (upd_queue i deq_q s)"
  shows "level_step i s t" "q_list (queues t i) = ps" "p < NPROC" "q_procs (queues s i) (nat (q_front (queues s i))) = Some p"
    "acquire (KProc p) s = Ret ((), acq (KProc p) s)" "dequeue p (acq (KProc p) s) = Ret ((), acq (KProc p) t)"
proof -
  have p: "p < NPROC" "p_priority (proc s p) = int i" using mlfq_okD(4) [OF ok i] q by simp_all
  have d: "q_ok (deq_q (queues s i))" "q_list (deq_q (queues s i)) = ps" "q_procs (queues s i) (nat (q_front (queues s i))) = Some p"
    using deq_q_ok [OF mlfq_okD(2) [OF ok i]] q by auto
  have "0 < q_length (queues s i)" using length_q_list [of "queues s i"] q by simp
  then show "acquire (KProc p) s = Ret ((), acq (KProc p) s)" "dequeue p (acq (KProc p) s) = Ret ((), acq (KProc p) t)"
    using r p by (simp_all add: t_def acquire_free lock_free_unlocked procs_readyD dequeue_eq Let_def upd_proc_def upd_queue_def)
  show "q_list (queues t i) = ps" "p < NPROC" "q_procs (queues s i) (nat (q_front (queues s i))) = Some p" using d p by (simp_all add: t_def)
  have "p \<notin> set (q_list (queues s k))" if "k < 5" "k \<noteq> i" for k using mlfq_okD(4) [OF ok that(1)] p(2) that(2) by fastforce
  moreover have "p \<notin> set ps" "distinct ps" using mlfq_okD(3) [OF ok i] q by simp_all
  ultimately have "mlfq_ok t" using ok d(1,2) q i unfolding mlfq_ok_def t_def by (auto simp: upd_proc_def)
  moreover have "procs_ready t" using r by (simp add: t_def upd_proc_def upd_queue_def)
  ultimately show "level_step i s t" by (simp add: level_step_def same_procs_def t_def upd_proc_def)
qed

lemma q_length_list: "q_ok q \<Longrightarrow> q_length q = int (length (q_list q))"
  by (simp add: q_ok_def)

lemma level_step_refl: "procs_ready s \<Longrightarrow> mlfq_ok s \<Longrightarrow> level_step i s s"
  by (simp add: level_step_def same_procs_def)

lemma mlfq_ok_settle [simp]: "mlfq_ok (settle s) = mlfq_ok s"
  by (simp add: mlfq_ok_def)

lemma mlfq_level_end:
  assumes "procs_ready s" "mlfq_ok s" "i < 5" "\<not> int j < q_length (queues s i)"
  shows "mlfq_level n i (int j) s = Ret (None, s)" "looks j (q_list (queues s i)) = 0"
proof -
  have "q_length (queues s i) = int (length (q_list (queues s i)))" using mlfq_okD(2) [OF assms(2,3)] by (rule q_length_list)
  then show "looks j (q_list (queues s i)) = 0" using assms(4) by (intro looks_0) simp
  show "mlfq_level n i (int j) s = Ret (None, s)" using assms(4) by (cases n) (simp_all add: kM_simps)
qed

lemma mlfq_level_ok:
  "procs_ready s \<Longrightarrow> mlfq_ok s \<Longrightarrow> i < 5 \<Longrightarrow> looks j (q_list (queues s i)) \<le> n \<Longrightarrow>
    \<exists>t. mlfq_level n i (int j) s = Ret (found s (looks j (q_list (queues s i))) (q_list (queues s i)),
        case found s (looks j (q_list (queues s i))) (q_list (queues s i)) of None \<Rightarrow> t | Some p \<Rightarrow> acq (KProc p) t) \<and>
      level_step i s t \<and> q_list (queues t i) = left s (looks j (q_list (queues s i))) (q_list (queues s i)) \<and>
      (\<forall>p. found s (looks j (q_list (queues s i))) (q_list (queues s i)) = Some p \<longrightarrow> p < NPROC \<and> p_in_queue (proc t p) = 0)"
proof (induction n arbitrary: s j)
  case (0 s j)
  have "looks j (q_list (queues s i)) = 0" using 0 by simp
  then have "\<not> int j < q_length (queues s i)"
    using mlfq_okD(2) [OF 0(2,3)] by (auto simp: looks_def q_length_list simp del: length_q_list)
  from mlfq_level_end [OF 0(1-3) this] show ?case
    using level_step_refl [OF 0(1,2), of i] by (intro exI [of _ s]) (simp add: found_def left_def del: mlfq_level.simps)
next
  case (Suc n s j)
  show ?case
  proof (cases "int j < q_length (queues s i)")
    case False
    from mlfq_level_end [OF Suc.prems(1-3) this] show ?thesis
      using level_step_refl [OF Suc.prems(1,2), of i] by (intro exI [of _ s]) (simp add: found_def left_def del: mlfq_level.simps)
  next
    case True
    then obtain p ps where q: "q_list (queues s i) = p # ps" and j: "j \<le> length ps"
      using q_length_list [OF mlfq_okD(2) [OF Suc.prems(2,3)]] by (cases "q_list (queues s i)") (auto simp del: length_q_list)
    note f = take_front [OF Suc.prems(1-3) q]
    let ?t = "upd_proc p (\<lambda>r. r\<lparr>p_in_queue := 0\<rparr>) (upd_queue i deq_q s)"
    have st: "p_state (proc ?t p) = p_state (proc s p)" "p_in_queue (proc ?t p) = 0" by (simp_all add: upd_proc_def)
    have step: "mlfq_level (Suc n) i (int j) s = (if runnable s p then Ret (Some p, acq (KProc p) ?t) else seq (release (KProc p)) (mlfq_level n i (int (Suc j))) (acq (KProc p) ?t))"
      using True f(4-6) by (simp add: kM_simps with_ptr_def add.commute upd_proc_def)
    note lk = looks_Cons [OF j, of p]
    show ?thesis
    proof (cases "runnable s p")
      case True
      then have "found s (looks j (p # ps)) (p # ps) = Some p" "left s (looks j (p # ps)) (p # ps) = ps" unfolding lk by (simp_all add: found_def left_def)
      then show ?thesis using step True f(1-3) st unfolding q by (intro exI [of _ ?t]) (simp del: mlfq_level.simps)
    next
      case False
      have fl: "found s (looks j (p # ps)) (p # ps) = found s (looks (Suc j) ps) ps" "left s (looks j (p # ps)) (p # ps) = left s (looks (Suc j) ps) ps"
        using False unfolding lk by (simp_all add: found_def left_def)
      let ?u = "settle ?t"
      have u: "procs_ready ?t" "procs_ready ?u" "mlfq_ok ?u" "q_list (queues ?u i) = ps" "same_procs s ?u" "level_step i s ?u"
        using f(1,2) by (simp_all add: level_step_def same_procs_def)
      have "looks (Suc j) (q_list (queues ?u i)) \<le> n" using Suc.prems(4) unfolding u(4) q lk by simp
      from Suc.IH [OF u(2,3) Suc.prems(3) this] obtain v where v: "mlfq_level n i (int (Suc j)) ?u = Ret (found s (looks (Suc j) ps) ps,
            case found s (looks (Suc j) ps) ps of None \<Rightarrow> v | Some p \<Rightarrow> acq (KProc p) v)"
          "level_step i ?u v" "q_list (queues v i) = left s (looks (Suc j) ps) ps"
          "\<forall>p. found s (looks (Suc j) ps) ps = Some p \<longrightarrow> p < NPROC \<and> p_in_queue (proc v p) = 0"
        unfolding u(4) found_cong [OF u(5)] by blast
      have "release (KProc p) (acq (KProc p) ?t) = Ret ((), ?u)" using u(1) f(3) by (intro release_acq) (simp_all add: procs_readyD)
      then have "mlfq_level (Suc n) i (int j) s = mlfq_level n i (int (Suc j)) ?u" using step False by (simp add: kM_simps del: mlfq_level.simps)
      then show ?thesis using v level_step_trans [OF u(6) v(2)] unfolding q fl by (intro exI [of _ v]) (simp del: mlfq_level.simps)
    qed
  qed
qed

lemma level_fuel: "mlfq_ok s \<Longrightarrow> i < 5 \<Longrightarrow> looks 0 (q_list (queues s i)) \<le> NPROC + 1"
  using mlfq_okD(2) [of s i] by (auto simp: looks_def q_ok_def)

lemma levels_none:
  assumes "procs_ready s" "mlfq_ok s" "k \<le> 5" "\<forall>j<k. found s (looks 0 (q_list (queues s j))) (q_list (queues s j)) = None"
  shows "\<exists>t. for_until [0..<k] (\<lambda>i. mlfq_level (NPROC + 1) i 0) s = Ret (None, t) \<and> same_procs s t \<and> mlfq_ok t \<and>
    (\<forall>j. q_list (queues t j) = (if j < k then left s (looks 0 (q_list (queues s j))) (q_list (queues s j)) else q_list (queues s j)))"
  using assms(3,4)
proof (induction k)
  case 0
  then show ?case using assms(1,2) by (intro exI [of _ s]) (simp add: kM_simps same_procs_def)
next
  case (Suc k)
  then obtain t where t: "for_until [0..<k] (\<lambda>i. mlfq_level (NPROC + 1) i 0) s = Ret (None, t)" "same_procs s t" "mlfq_ok t"
      "\<forall>j. q_list (queues t j) = (if j < k then left s (looks 0 (q_list (queues s j))) (q_list (queues s j)) else q_list (queues s j))" by auto
  have qk: "q_list (queues t k) = q_list (queues s k)" using t(4) by simp
  have k: "k < 5" "procs_ready t" "found s (looks 0 (q_list (queues s k))) (q_list (queues s k)) = None" using Suc.prems t(2) by (simp_all add: same_procs_def)
  obtain u where u: "mlfq_level (NPROC + 1) k 0 t = Ret (None, u)" "level_step k t u"
      "q_list (queues u k) = left s (looks 0 (q_list (queues s k))) (q_list (queues s k))"
    using mlfq_level_ok [OF k(2) t(3) k(1) level_fuel [OF t(3) k(1)]] k(3) unfolding found_cong [OF t(2)] qk by auto
  have "for_until [0..<Suc k] (\<lambda>i. mlfq_level (NPROC + 1) i 0) s = Ret (None, u)"
    using t(1) u(1) by (simp add: for_until_append kM_simps del: mlfq_level.simps)
  moreover have "q_list (queues u j) = (if j < Suc k then left s (looks 0 (q_list (queues s j))) (q_list (queues s j)) else q_list (queues s j))" for j
    using t(4) u(2,3) by (cases "j = k") (auto simp: level_step_def)
  ultimately show ?case using t(2) u(2) by (intro exI [of _ u]) (auto simp: same_procs_def level_step_def)
qed

section \<open>Properties\<close>

text \<open>C4. The array queues of the feedback scheduler refine lists: \<^verbatim>\<open>enqueue\<close> appends the
  process to the queue of its priority (and panics only on a queue of \<^verbatim>\<open>NPROC\<close>
  entries), \<^verbatim>\<open>dequeue\<close> removes the oldest entry, and \<^verbatim>\<open>delqueue\<close> removes the
  first entry with the pid of the process, all of them keeping the ring well formed.
  \<^verbatim>\<open>delqueue\<close> of a process that is not in the queue drops the last entry.\<close>

theorem mlfq_queues_refine_lists:
  assumes "idx = nat (p_priority (proc s p))" and "q_ok (queues s idx)"
  shows "(length (q_list (queues s idx)) < NPROC \<longrightarrow> (\<exists>s'. enqueue p s = Ret ((), s')
      \<and> q_ok (queues s' idx) \<and> q_list (queues s' idx) = q_list (queues s idx) @ [p]))
    \<and> (length (q_list (queues s idx)) = NPROC \<longrightarrow> enqueue p s = Panic ''Full queue'')
    \<and> (q_list (queues s idx) \<noteq> [] \<longrightarrow> (\<exists>s'. dequeue p s = Ret ((), s')
      \<and> q_ok (queues s' idx) \<and> q_list (queues s' idx) = tl (q_list (queues s idx))))
    \<and> (q_list (queues s idx) \<noteq> [] \<longrightarrow> (\<exists>s'. delqueue p s = Ret ((), s')
      \<and> q_ok (queues s' idx) \<and> q_list (queues s' idx) =
        (let xs = q_list (queues s idx) in
         case find (\<lambda>c. p_pid (proc s c) = p_pid (proc s p)) xs of
           None \<Rightarrow> butlast xs | Some c \<Rightarrow> remove1 c xs)))"
proof -
  let ?q = "queues s idx"
  have len: "0 \<le> q_length ?q" using assms(2) by (simp add: q_ok_def)
  have 1: "length (q_list ?q) < NPROC \<Longrightarrow> \<exists>s'. enqueue p s = Ret ((), s')
      \<and> q_ok (queues s' idx) \<and> q_list (queues s' idx) = q_list ?q @ [p]"
    using enq_q_ok [OF assms(2), of p] len by (auto simp: enqueue_eq Let_def assms(1) [symmetric])
  have 2: "length (q_list ?q) = NPROC \<Longrightarrow> enqueue p s = Panic ''Full queue''"
    using len by (simp add: enqueue_eq Let_def assms(1) [symmetric])
  have ne: "q_list ?q \<noteq> [] \<Longrightarrow> 0 < q_length ?q"
    using len length_q_list [of ?q] by (metis length_0_conv nat_0_iff not_le)
  have 3: "q_list ?q \<noteq> [] \<Longrightarrow> \<exists>s'. dequeue p s = Ret ((), s')
      \<and> q_ok (queues s' idx) \<and> q_list (queues s' idx) = tl (q_list ?q)"
    using deq_q_ok [OF assms(2)] ne by (auto simp: dequeue_eq Let_def assms(1) [symmetric])
  have 4: "q_list ?q \<noteq> [] \<Longrightarrow> \<exists>s'. delqueue p s = Ret ((), s')
      \<and> q_ok (queues s' idx) \<and> q_list (queues s' idx) =
        (let xs = q_list ?q in
         case find (\<lambda>c. p_pid (proc s c) = p_pid (proc s p)) xs of
           None \<Rightarrow> butlast xs | Some c \<Rightarrow> remove1 c xs)"
    using delqueue_eq [of s p] assms(2) ne unfolding assms(1) [symmetric] by auto
  from 1 2 3 4 show ?thesis by blast
qed

definition one_queued :: pstate where
  "one_queued = (quiet_pstate (\<lambda>p. blank_proc\<lparr>p_pid := int p\<rparr>) None)
     \<lparr>queues := (\<lambda>_. blank_queue)(0 := \<lparr>q_front = 64, q_back = 0, q_length = 1,
        q_procs = (\<lambda>_. None)(64 := Some 5)\<rparr>)\<rparr>"

theorem mlfq_queues_refine_lists_witness:
  "\<exists>s'. enqueue 9 one_queued = Ret ((), s') \<and> q_list (queues s' 0) = [5, 9]"
proof -
  have q: "q_ok (queues one_queued 0)" "q_list (queues one_queued 0) = [5]"
    by (simp_all add: one_queued_def q_ok_def q_list_def slots_def NPROC_def)
  have "0 = nat (p_priority (proc one_queued 9))" by (simp add: one_queued_def blank_proc_def)
  from mlfq_queues_refine_lists [OF this q(1)] q(2) show ?thesis by (auto simp: NPROC_def)
qed

text \<open>C13. First come first served: a round switches to the runnable process with the least creation
  time, the first of the table among equals, holding its lock and no other; when nothing is
  runnable it switches to no process.\<close>

theorem fcfs_runs_oldest:
  assumes "procs_ready s"
  shows "((\<forall>q<NPROC. p_state (proc s q) \<noteq> RUNNABLE) \<longrightarrow> sched_fcfs run s = Ret ((), settle s))
    \<and> ((\<exists>q<NPROC. p_state (proc s q) = RUNNABLE) \<longrightarrow>
      (\<exists>b<NPROC. p_state (proc s b) = RUNNABLE
        \<and> (\<forall>q<NPROC. p_state (proc s q) = RUNNABLE \<longrightarrow>
            p_tick_creation_time (proc s b) < p_tick_creation_time (proc s q)
            \<or> p_tick_creation_time (proc s b) = p_tick_creation_time (proc s q) \<and> b \<le> q)
        \<and> sched_fcfs run s = seq (switch_to run b) (release (KProc b)) (acq (KProc b) s)))"
proof (cases "fcfs_best (proc s) NPROC")
  case None
  then have "sched_fcfs run s = Ret ((), settle s)"
    by (simp add: sched_fcfs_def kM_simps fcfs_scan_eq [OF assms] hold_candidate_def)
  with None fcfs_best_None [of "proc s" NPROC] show ?thesis by auto
next
  case (Some b)
  then have "sched_fcfs run s = seq (switch_to run b) (release (KProc b)) (acq (KProc b) s)"
    by (simp add: sched_fcfs_def bind_apply fcfs_scan_eq [OF assms] hold_candidate_def)
  with fcfs_best_Some [OF Some] show ?thesis by blast
qed

definition two_runnable :: "nat \<Rightarrow> proc" where
  "two_runnable = (\<lambda>_. blank_proc)
     (1 := blank_proc\<lparr>p_state := RUNNABLE, p_pid := 2, p_tick_creation_time := 9\<rparr>,
      2 := blank_proc\<lparr>p_state := RUNNABLE, p_pid := 3, p_tick_creation_time := 4\<rparr>)"

lemma two_runnable_iff: "p_state (two_runnable q) = RUNNABLE \<longleftrightarrow> q = 1 \<or> q = 2"
  by (auto simp: two_runnable_def blank_proc_def)

theorem fcfs_runs_oldest_witness:
  "sched_fcfs (\<lambda>_. return ()) (quiet_pstate two_runnable None)
    = seq (switch_to (\<lambda>_. return ()) 2) (release (KProc 2)) (acq (KProc 2) (quiet_pstate two_runnable None))"
proof -
  have "\<exists>q<NPROC. p_state (two_runnable q) = RUNNABLE"
    by (rule exI [of _ 1]) (simp add: two_runnable_iff NPROC_def)
  then obtain b where b: "b = 1 \<or> b = 2"
    "\<forall>q<NPROC. p_state (two_runnable q) = RUNNABLE \<longrightarrow>
      p_tick_creation_time (two_runnable b) < p_tick_creation_time (two_runnable q)
      \<or> p_tick_creation_time (two_runnable b) = p_tick_creation_time (two_runnable q) \<and> b \<le> q"
    "sched_fcfs (\<lambda>_. return ()) (quiet_pstate two_runnable None)
      = seq (switch_to (\<lambda>_. return ()) b) (release (KProc b)) (acq (KProc b) (quiet_pstate two_runnable None))"
    using fcfs_runs_oldest [of "quiet_pstate two_runnable None" "\<lambda>_. return ()"]
    by (auto simp: two_runnable_iff)
  from spec [OF b(2), of 2] have "b \<noteq> 1"
    by (auto simp: two_runnable_iff NPROC_def) (simp_all add: two_runnable_def)
  with b show ?thesis by simp
qed


text \<open>C14. Lottery: with a runnable process, no negative ticket counts and a total of the tickets of the
  runnable processes that is an int, a round draws a number from 0 to that total and switches to exactly one
  process: the first runnable one whose tickets, added to those of the runnable ones before it, reach the
  number. Past the largest int the sums of the code wrap around.\<close>

theorem lbs_runs_winner:
  assumes "procs_ready s" and "mt_ok (mtst s)" and "q < NPROC" and "p_state (proc s q) = RUNNABLE"
    and "\<And>c. p_state (proc s c) = RUNNABLE \<Longrightarrow> 0 \<le> p_tickets (proc s c)"
    and "lbs_sum (proc s) NPROC \<le> INT_MAX"
    and "random (lbs_total s) (mtst s) = (r, m)"
  shows "lbs_total s = lbs_sum (proc s) NPROC \<and> 0 \<le> r \<and> r \<le> lbs_total s \<and> (\<exists>b<NPROC. p_state (proc s b) = RUNNABLE
    \<and> r \<le> lbs_sum (proc s) (Suc b)
    \<and> (\<forall>c<b. p_state (proc s c) = RUNNABLE \<longrightarrow> lbs_sum (proc s) (Suc c) < r)
    \<and> sched_lbs run s =
        seq (switch_to run b) (release (KProc b)) (acq (KProc b) (s\<lparr>mtst := m\<rparr>)))"
proof -
  have fits: "lbs_fits (proc s)" using assms(5,6) by (rule lbs_fitsI)
  note total = lbs_total_sum [OF fits]
  have "0 \<le> lbs_total s" using lbs_sum_mono [of "proc s" 0 NPROC] assms(5) by (simp add: total)
  then have r: "0 \<le> r" "r \<le> lbs_total s"
    using random_range [OF assms(2), of "lbs_total s"] assms(7) by auto
  obtain b where b: "b < NPROC" "p_state (proc s b) = RUNNABLE" "r \<le> lbs_sum (proc s) (Suc b)"
    "\<And>c. c < b \<Longrightarrow> p_state (proc s c) = RUNNABLE \<Longrightarrow> lbs_sum (proc s) (Suc c) < r"
    using lbs_winner [of "proc s" q NPROC r] assms(3,4) r(2) unfolding total by auto
  let ?s = "s\<lparr>mtst := m\<rparr>"
  have scan: "for_fold [0..<b] (lbs_one run r) 0 ?s
      = Ret (Inl (lbs_sum (proc ?s) b), if b = 0 then ?s else settle ?s)"
    using assms(1) fits b by (intro lbs_scan) auto
  have hit: "lbs_one run r b (lbs_sum (proc ?s) b) (if b = 0 then ?s else settle ?s)
      = seq (switch_to run b) (seq (release (KProc b)) (return (Inr ()))) (acq (KProc b) ?s)"
    using lbs_hit [of ?s b r run] lbs_hit [of "settle ?s" b r run] assms(1) fits b(1-3)
    by (auto simp del: lbs_sum.simps)
  have "sched_lbs run s = seq (switch_to run b) (release (KProc b)) (acq (KProc b) ?s)"
    unfolding sched_lbs_def lbs_random_def upt_split3 [OF b(1)]
    using scan hit by (auto simp: assms(7) kM_simps for_fold_append simp del: lbs_sum.simps
        split: outcome.split)
  with b r total show ?thesis by blast
qed

lemma lbs_sum_two: "lbs_sum two_runnable NPROC = 2"
proof -
  have "lbs_sum two_runnable (3 + k) = 2" for k
    by (induction k) (simp_all add: two_runnable_def blank_proc_def numeral_eq_Suc)
  from this [of 61] show ?thesis by (simp add: NPROC_def)
qed

theorem lbs_runs_winner_witness:
  "\<exists>b. sched_lbs (\<lambda>_. return ()) (quiet_pstate two_runnable None) =
      seq (switch_to (\<lambda>_. return ()) b) (release (KProc b))
        (acq (KProc b) ((quiet_pstate two_runnable None)\<lparr>mtst :=
          snd (random (lbs_total (quiet_pstate two_runnable None)) mt_init)\<rparr>))
    \<and> (b = 1 \<or> b = 2)"
proof -
  let ?s = "quiet_pstate two_runnable None"
  have "mtst ?s = mt_init" by (simp add: quiet_pstate_def)
  then have m: "mt_ok (mtst ?s)" using mt_init_ok by simp
  have "1 < NPROC" "p_state (proc ?s 1) = RUNNABLE" by (simp_all add: NPROC_def two_runnable_iff)
  moreover have "0 \<le> p_tickets (proc ?s c)" for c by (simp add: two_runnable_def blank_proc_def)
  moreover have "lbs_sum (proc ?s) NPROC \<le> INT_MAX" by (simp add: lbs_sum_two INT_MAX_def)
  ultimately have "\<exists>b<NPROC. p_state (proc ?s b) = RUNNABLE \<and> sched_lbs (\<lambda>_. return ()) ?s =
      seq (switch_to (\<lambda>_. return ()) b) (release (KProc b))
        (acq (KProc b) (?s\<lparr>mtst := snd (random (lbs_total ?s) (mtst ?s))\<rparr>))"
    using lbs_runs_winner [of ?s 1 "fst (random (lbs_total ?s) (mtst ?s))"
        "snd (random (lbs_total ?s) (mtst ?s))" "\<lambda>_. return ()"] m by auto
  then show ?thesis by (auto simp: two_runnable_iff \<open>mtst ?s = mt_init\<close>)
qed

text \<open>C16. Round robin: provided each process that is switched to comes back holding its own lock, a round is the
  round without locks. It goes once through the whole table in order; a process that is runnable when the scan
  reaches it is made the running process of the hart, runs, and the hart has no process again; every other process is
  passed over; in the end every lock of the table is free. Where the processes do not change the states of each other,
  the ones that get a turn are exactly those that were runnable at the start, each once and in table order.\<close>

theorem rr_round_returns:
  assumes "comes_back run g" and "procs_ready s"
  shows "sched_rr run s = Ret ((), snd (rr_turns g [0..<NPROC] s)) \<and> procs_ready (snd (rr_turns g [0..<NPROC] s))
    \<and> ((\<forall>p t q. q \<noteq> p \<longrightarrow> p_state (proc (g p t) q) = p_state (proc t q)) \<longrightarrow>
        fst (rr_turns g [0..<NPROC] s) = filter (\<lambda>p. p_state (proc s p) = RUNNABLE) [0..<NPROC])"
  using rr_round [OF assms, of "[0..<NPROC]"] rr_turns_order [of g "[0..<NPROC]" s] unfolding sched_rr_def by simp

definition yielded :: "nat \<Rightarrow> pstate \<Rightarrow> pstate" where
  "yielded p = upd_proc p (\<lambda>r. r\<lparr>p_state := RUNNABLE\<rparr>)"

theorem rr_round_returns_witness:
  "sched_rr (\<lambda>p. modify (yielded p)) (quiet_pstate two_runnable None)
      = Ret ((), snd (rr_turns yielded [0..<NPROC] (quiet_pstate two_runnable None)))
    \<and> fst (rr_turns yielded [0..<NPROC] (quiet_pstate two_runnable None)) = [1, 2]"
proof -
  have b: "comes_back (\<lambda>p. modify (yielded p)) yielded"
    unfolding comes_back_def yielded_def by (auto simp: kM_simps upd_proc_def)
  have "filter (\<lambda>p. p_state (two_runnable p) = RUNNABLE) [0..<NPROC] = [1, 2]"
    by (simp add: two_runnable_iff NPROC_def upt_rec)
  then show ?thesis
    using rr_round_returns [OF b, of "quiet_pstate two_runnable None"] by (simp add: yielded_def upd_proc_def)
qed


text \<open>C17. Priority scheduling on a tie: when the two runnable processes have the same dynamic
  priority and the later one in the table is older, the scan chooses that one but releases its lock
  with the others; the process then runs without holding its lock, and the release it begins with
  panics.\<close>

theorem pbs_tie_runs_unlocked:
  assumes "procs_ready s" and "b < p" and "p < NPROC"
    and "\<forall>q<NPROC. p_state (proc s q) = RUNNABLE \<longleftrightarrow> q = b \<or> q = p"
    and "dynamic_priority (proc s b) = dynamic_priority (proc s p)"
    and "p_number_times (proc s b) = p_number_times (proc s p)"
    and "p_tick_creation_time (proc s b) > p_tick_creation_time (proc s p)"
  shows "(\<exists>d t. pbs_scan s = Ret ((Some p, d), t) \<and> lock_free (KProc p) t)
    \<and> sched_pbs (\<lambda>q. release (KProc q)) s = Panic ''release''"
proof -
  have free: "lock_free (KProc p) s" using assms(1,3) by (simp add: procs_readyD)
  then have "\<not> holding (KProc p) u" if "lks u = lks s" for u :: "'a pstate_scheme"
    using that by (simp add: holding_def lock_free_def)
  then have "sched_pbs (\<lambda>q. release (KProc q)) s = Panic ''release''"
    unfolding sched_pbs_def
    by (simp add: kM_simps pbs_scan_tie [OF assms] upd_proc_def release_free set_mycpu_def)
  with pbs_scan_tie [OF assms] free show ?thesis by auto
qed

theorem pbs_tie_runs_unlocked_witness:
  "sched_pbs (\<lambda>q. release (KProc q)) (quiet_pstate two_runnable None) = Panic ''release''"
proof -
  let ?s = "quiet_pstate two_runnable None"
  have t: "dynamic_priority (proc ?s 1) = dynamic_priority (proc ?s 2)"
    "p_number_times (proc ?s 1) = p_number_times (proc ?s 2)"
    "p_tick_creation_time (proc ?s 1) > p_tick_creation_time (proc ?s 2)"
    by (simp_all add: two_runnable_def blank_proc_def dynamic_priority_def)
  have "\<forall>q<NPROC. p_state (proc ?s q) = RUNNABLE \<longleftrightarrow> q = 1 \<or> q = 2" by (simp add: two_runnable_iff)
  moreover have "(1::nat) < 2" "2 < NPROC" by (simp_all add: NPROC_def)
  ultimately show ?thesis using pbs_tie_runs_unlocked [of ?s 1 2] t by simp
qed

text \<open>The dynamic priority of a process that has been scheduled before lies between 0 and 100; a
  process that has not been scheduled has its static priority.\<close>

theorem dynamic_priority_bounds:
  "(p_number_times r \<noteq> 0 \<longrightarrow> 0 \<le> dynamic_priority r \<and> dynamic_priority r \<le> 100)
    \<and> (p_number_times r = 0 \<longrightarrow> dynamic_priority r = p_priority_pbs r)"
  by (simp add: dynamic_priority_def Let_def)

theorem dynamic_priority_bounds_witness:
  "dynamic_priority (blank_proc\<lparr>p_number_times := 3, p_last_sleep_time := 4, p_last_run_time := 1\<rparr>) \<le> 100
    \<and> dynamic_priority blank_proc = 60"
  using dynamic_priority_bounds [of "blank_proc\<lparr>p_number_times := 3, p_last_sleep_time := 4, p_last_run_time := 1\<rparr>"]
    dynamic_priority_bounds [of blank_proc] by (simp add: blank_proc_def)

text \<open>C15. Multi-level feedback. Every runnable process that is in no queue first joins the queue of its priority, in
  table order. Then the levels are searched from 0 to 4: in a queue of \<open>n\<close> processes the search looks at the first
  \<open>(n + 1) div 2\<close> ones, takes them off the queue and stops at the first one that is runnable. With nothing found the
  round returns. Otherwise it switches to the process found, with the lock of that process and no other held; the entries
  looked at are gone, the later entries and the lower levels are as they were, and no process has changed its state. The
  queues keep each process at most once, in the queue of its priority.\<close>

theorem mlfq_picks_highest_priority:
  assumes "procs_ready s" and "mlfq_ok s"
  defines "pick \<equiv> \<lambda>i. found s (looks 0 (joined s i)) (joined s i)" and "rest \<equiv> \<lambda>i. left s (looks 0 (joined s i)) (joined s i)"
  shows "((\<forall>i<5. pick i = None) \<longrightarrow> (\<exists>t. sched_mlfq run s = Ret ((), t) \<and> same_procs s t \<and> mlfq_ok t \<and> (\<forall>i<5. q_list (queues t i) = rest i)))
    \<and> (\<forall>i<5. \<forall>p. (\<forall>j<i. pick j = None) \<and> pick i = Some p \<longrightarrow> p < NPROC \<and> runnable s p \<and>
        (\<exists>t. sched_mlfq run s = seq (switch_to run p) (release (KProc p)) (acq (KProc p) t) \<and> same_procs s t \<and> mlfq_ok t \<and>
          p_in_queue (proc t p) = 0 \<and> (\<forall>j<5. q_list (queues t j) = (if j \<le> i then rest j else joined s j))))"
proof -
  obtain t where t: "mlfq_enqueue_all s = Ret ((), t)" "same_procs s t" "mlfq_ok t" "\<forall>i<5. q_list (queues t i) = joined s i"
    using enqueue_all_ok [OF assms(1,2)] by blast
  have r: "procs_ready t" using t(2) by (simp add: same_procs_def)
  have pk: "found t (looks 0 (q_list (queues t i))) (q_list (queues t i)) = pick i" "left t (looks 0 (q_list (queues t i))) (q_list (queues t i)) = rest i" if "i < 5" for i
    using t(4) that by (simp_all add: pick_def rest_def found_cong [OF t(2)])
  have none: "\<exists>u. for_until [0..<k] (\<lambda>i. mlfq_level (NPROC + 1) i 0) t = Ret (None, u) \<and> same_procs s u \<and> mlfq_ok u \<and>
      (\<forall>j<5. q_list (queues u j) = (if j < k then rest j else joined s j))" if "k \<le> 5" "\<forall>j<k. pick j = None" for k
  proof -
    have "\<forall>j<k. found t (looks 0 (q_list (queues t j))) (q_list (queues t j)) = None" using that pk(1) by simp
    from levels_none [OF r t(3) that(1) this] obtain u where u: "for_until [0..<k] (\<lambda>i. mlfq_level (NPROC + 1) i 0) t = Ret (None, u)" "same_procs t u" "mlfq_ok u"
        "\<forall>j. q_list (queues u j) = (if j < k then left t (looks 0 (q_list (queues t j))) (q_list (queues t j)) else q_list (queues t j))" by blast
    then show ?thesis using pk(2) t(2,4) that(1) by (intro exI [of _ u]) (auto simp: same_procs_def)
  qed
  have "\<exists>u. sched_mlfq run s = Ret ((), u) \<and> same_procs s u \<and> mlfq_ok u \<and> (\<forall>i<5. q_list (queues u i) = rest i)" if "\<forall>i<5. pick i = None"
    using none [OF order_refl that] t(1) by (auto simp: sched_mlfq_def kM_simps simp del: mlfq_level.simps)
  moreover have "p < NPROC \<and> runnable s p \<and> (\<exists>u. sched_mlfq run s = seq (switch_to run p) (release (KProc p)) (acq (KProc p) u) \<and> same_procs s u \<and> mlfq_ok u \<and>
      p_in_queue (proc u p) = 0 \<and> (\<forall>j<5. q_list (queues u j) = (if j \<le> i then rest j else joined s j)))"
    if i: "i < 5" "\<forall>j<i. pick j = None" "pick i = Some p" for i p
  proof -
    obtain u where u: "for_until [0..<i] (\<lambda>i. mlfq_level (NPROC + 1) i 0) t = Ret (None, u)" "same_procs s u" "mlfq_ok u"
        "\<forall>j<5. q_list (queues u j) = (if j < i then rest j else joined s j)" using none [OF less_imp_le i(2)] i(1) by blast
    have ru: "procs_ready u" "q_list (queues u i) = joined s i" using u(2,4) i(1) by (simp_all add: same_procs_def)
    obtain v where v: "mlfq_level (NPROC + 1) i 0 u = Ret (Some p, acq (KProc p) v)" "level_step i u v" "q_list (queues v i) = rest i"
        "p < NPROC" "p_in_queue (proc v p) = 0"
      using mlfq_level_ok [OF ru(1) u(3) i(1) level_fuel [OF u(3) i(1)]] i(3) unfolding found_cong [OF u(2)] ru(2) pick_def rest_def by auto
    have "for_until [0..<5] (\<lambda>i. mlfq_level (NPROC + 1) i 0) t = Ret (Some p, acq (KProc p) v)"
      unfolding upt_split3 [OF i(1)] for_until_append using u(1) v(1) by (simp add: kM_simps del: mlfq_level.simps)
    then have "sched_mlfq run s = seq (switch_to run p) (release (KProc p)) (acq (KProc p) v)"
      using t(1) by (simp add: sched_mlfq_def kM_simps del: mlfq_level.simps)
    moreover have "q_list (queues v j) = (if j \<le> i then rest j else joined s j)" if "j < 5" for j
      using u(4) v(2,3) that by (cases j i rule: linorder_cases) (simp_all add: level_step_def)
    moreover have "runnable s p" using i(3) by (auto simp: pick_def found_def find_Some_iff)
    ultimately show ?thesis using v(2,4,5) u(2) by (intro conjI exI [of _ v]) (auto simp: level_step_def same_procs_def)
  qed
  ultimately show ?thesis by blast
qed

text \<open>Process 5 waits in queue 0, and processes 1 and 2 join it.\<close>

definition queued_five :: pstate where
  "queued_five = one_queued\<lparr>proc := two_runnable(5 := blank_proc\<lparr>p_state := RUNNABLE, p_pid := 6, p_in_queue := 1\<rparr>)\<rparr>"

theorem mlfq_picks_highest_priority_witness:
  "\<exists>t. sched_mlfq (\<lambda>_. return ()) queued_five = seq (switch_to (\<lambda>_. return ()) 5) (release (KProc 5)) (acq (KProc 5) t)
    \<and> q_list (queues t 0) = [1, 2]"
proof -
  have q: "q_ok (queues queued_five 0)" "q_list (queues queued_five 0) = [5]" "\<And>i. 0 < i \<Longrightarrow> q_ok (queues queued_five i) \<and> q_list (queues queued_five i) = []"
    by (simp_all add: queued_five_def one_queued_def blank_queue_def q_ok_def q_list_def slots_def NPROC_def)
  have ready: "procs_ready queued_five" by (simp add: queued_five_def one_queued_def)
  have pr: "p_priority (proc queued_five p) = 0" "p_in_queue (proc queued_five 5) = 1" for p
    by (simp_all add: queued_five_def two_runnable_def blank_proc_def)
  have ok: "mlfq_ok queued_five"
    unfolding mlfq_ok_def
  proof (intro conjI allI impI)
    fix i
    show "q_ok (queues queued_five i)" "distinct (q_list (queues queued_five i))"
        "\<forall>p\<in>set (q_list (queues queued_five i)). p < NPROC \<and> p_priority (proc queued_five p) = int i \<and> p_in_queue (proc queued_five p) \<noteq> 0"
      using q pr by (cases "i = 0"; simp add: NPROC_def)+
  qed (simp_all add: pr)
  have j: "joined queued_five 0 = [5, 1, 2]"
  proof -
    have "joins queued_five 0 p \<longleftrightarrow> p = 1 \<or> p = 2" for p by (auto simp: joins_def queued_five_def two_runnable_def blank_proc_def)
    then have "filter (joins queued_five 0) [0..<NPROC] = [1, 2]" by (simp add: NPROC_def upt_rec)
    then show ?thesis using q(2) by (simp add: joined_def)
  qed
  have "runnable queued_five 5" by (simp add: queued_five_def)
  then have f: "found queued_five (looks 0 [5, 1, 2]) [5, 1, 2] = Some 5" "left queued_five (looks 0 [5, 1, 2]) [5, 1, 2] = [1, 2]"
    by (simp_all add: found_def left_def looks_def)
  note m = conjunct2 [OF mlfq_picks_highest_priority [OF ready ok, of "\<lambda>_. return ()"], THEN spec, of 0, THEN mp, THEN spec, of 5, THEN mp, unfolded j f]
  have "\<exists>t. sched_mlfq (\<lambda>_. return ()) queued_five = seq (switch_to (\<lambda>_. return ()) 5) (release (KProc 5)) (acq (KProc 5) t)
      \<and> (\<forall>j<5. q_list (queues t j) = (if j \<le> 0 then left queued_five (looks 0 (joined queued_five j)) (joined queued_five j) else joined queued_five j))"
    using m [OF zero_less_numeral] not_less_zero by blast
  then show ?thesis using j f(2) by auto
qed

text \<open>The clock tick accounts time: under every scheduler but the feedback one,
  \<^verbatim>\<open>update_time\<close> adds one tick to the running time of exactly the running processes, and
  under the priority scheduler one tick to the sleeping time of exactly the sleeping ones; no
  process changes state.\<close>

theorem update_time_accounts:
  assumes "procs_ready s" and "pol \<noteq> MLFQ"
  shows "\<exists>s'. update_time pol s = Ret ((), s') \<and> procs_ready s' \<and> (\<forall>p<NPROC.
      p_state (proc s' p) = p_state (proc s p)
    \<and> p_rtime (proc s' p) = p_rtime (proc s p) + (if p_state (proc s p) = RUNNING then 1 else 0)
    \<and> p_last_sleep_time (proc s' p) = p_last_sleep_time (proc s p)
        + (if pol = PBS \<and> p_state (proc s p) = SLEEPING then 1 else 0))"
  using assms by (auto simp: update_time_eq tick_proc_def Let_def)

theorem update_time_accounts_witness:
  "\<exists>s'. update_time RR (quiet_pstate family (Some 1)) = Ret ((), s') \<and> p_rtime (proc s' 1) = 1
    \<and> p_rtime (proc s' 2) = 0"
proof -
  have "(1::nat) < NPROC" "2 < NPROC" by (simp_all add: NPROC_def)
  with update_time_accounts [of "quiet_pstate family (Some 1)" RR] show ?thesis
    by (force simp: family_def blank_proc_def)
qed

end
