(* ===== verification/Trap.thy ===== *)
theory Trap
  imports Virtio Sysfile Sched
begin

text \<open>
  Process system calls, the system call table and its tracing (\<^verbatim>\<open>kernel/sysproc.c\<close>,
  \<^verbatim>\<open>kernel/syscall.c\<close>), traps and interrupts (\<^verbatim>\<open>kernel/trap.c\<close>,
  \<^verbatim>\<open>kernel/plic.c\<close>), \<^verbatim>\<open>forkret()\<close>, and the start of the machine
  (\<^verbatim>\<open>kernel/start.c\<close>, \<^verbatim>\<open>kernel/main.c\<close>).

  The control and status registers of a hart are the record \<open>csrs\<close>. Addresses that the linker
  assigns are fields of the state, and so is \<open>stack_junk\<close>, what two uninitialised words on the
  kernel stack happen to hold. The interrupt controller's answers to a claim are
  \<open>plic_in\<close>, an arbitrary sequence; the writes to it are recorded in \<open>plic_out\<close>.
  A kernel access to address 0, which the kernel page table does not map, faults, and the fault
  panics in \<^verbatim>\<open>kerneltrap()\<close>.
\<close>

section \<open>State\<close>

record csrs =
  csr_mhartid :: u64
  csr_mstatus :: u64
  csr_mepc :: u64
  csr_medeleg :: u64
  csr_mideleg :: u64
  csr_mie :: u64
  csr_mtvec :: u64
  csr_mscratch :: u64
  csr_pmpaddr0 :: u64
  csr_pmpcfg0 :: u64
  csr_sie :: u64
  csr_sip :: u64
  csr_stvec :: u64
  csr_sepc :: u64
  csr_scause :: u64
  csr_stval :: u64

record kstate = vdstate +
  csr :: "nat \<Rightarrow> csrs"
  kernelvec_addr :: u64
  uservec_addr :: u64
  userret_addr :: u64
  usertrap_addr :: u64
  main_addr :: u64
  timervec_addr :: u64
  timer_scratch_addr :: u64
  stack_junk :: "u32 \<times> u32"
  plic_in :: "nat \<Rightarrow> u32"
  plic_nreads :: nat
  plic_out :: "(u64 \<times> u32) list"
  fork_first :: bool
  started :: bool

definition upd_csr :: "nat \<Rightarrow> (csrs \<Rightarrow> csrs) \<Rightarrow> 'z kstate_scheme \<Rightarrow> 'z kstate_scheme" where
  "upd_csr h f s = s\<lparr>csr := (csr s)(h := f (csr s h))\<rparr>"

definition r_scause :: "'z kstate_scheme \<Rightarrow> u64" where
  "r_scause s = csr_scause (csr s (tp s))"

definition r_stval :: "'z kstate_scheme \<Rightarrow> u64" where
  "r_stval s = csr_stval (csr s (tp s))"

definition r_sepc :: "'z kstate_scheme \<Rightarrow> u64" where
  "r_sepc s = csr_sepc (csr s (tp s))"

definition w_sepc :: "u64 \<Rightarrow> 'z kstate_scheme \<Rightarrow> 'z kstate_scheme" where
  "w_sepc x s = upd_csr (tp s) (\<lambda>c. c\<lparr>csr_sepc := x\<rparr>) s"

definition w_stvec :: "u64 \<Rightarrow> 'z kstate_scheme \<Rightarrow> 'z kstate_scheme" where
  "w_stvec x s = upd_csr (tp s) (\<lambda>c. c\<lparr>csr_stvec := x\<rparr>) s"

definition r_sip :: "'z kstate_scheme \<Rightarrow> u64" where
  "r_sip s = csr_sip (csr s (tp s))"

definition w_sip :: "u64 \<Rightarrow> 'z kstate_scheme \<Rightarrow> 'z kstate_scheme" where
  "w_sip x s = upd_csr (tp s) (\<lambda>c. c\<lparr>csr_sip := x\<rparr>) s"

definition r_satp :: "'z kstate_scheme \<Rightarrow> u64" where
  "r_satp s = satp s (tp s)"

section \<open>Process system calls\<close>

definition sys_exit :: "'z filestate_scheme env \<Rightarrow> ('z filestate_scheme, u64) kM" where
  "sys_exit E = bind (argint 0) (\<lambda>n. seq (exit E n) (return 0))"

definition sys_getpid :: "('z pstate_scheme, u64) kM" where
  "sys_getpid = on_me (\<lambda>p. gets (\<lambda>s. of_int (p_pid (proc s p))))"

definition sys_fork :: "('z filestate_scheme, u64) kM" where
  "sys_fork = ret_int fork"

definition sys_wait :: "'z pstate_scheme env \<Rightarrow> ('z pstate_scheme, u64) kM" where
  "sys_wait E = bind (argaddr 0) (\<lambda>p. ret_int (wait (Suc (e_fuel E)) (e_sw E) p))"

definition sys_sbrk :: "('z pstate_scheme, u64) kM" where
  "sys_sbrk =
    bind (argint 0) (\<lambda>n.
    bind (on_me (\<lambda>p. gets (\<lambda>s. p_sz (proc s p)))) (\<lambda>addr.
    bind (growproc n) (\<lambda>rc.
    return (if rc < 0 then ERR else addr))))"

text \<open>The comparison \<^verbatim>\<open>ticks - ticks0 < n\<close> is unsigned.\<close>

primrec sleep_loop :: "nat \<Rightarrow> 'z pstate_scheme env \<Rightarrow> u32 \<Rightarrow> u32 \<Rightarrow> ('z pstate_scheme, u64) kM" where
  "sleep_loop 0 E ticks0 n = hang"
| "sleep_loop (Suc k) E ticks0 n =
    bind (gets ticks) (\<lambda>t.
    if \<not> t - ticks0 < n then seq (release KTicks) (return 0) else
    bind (on_me killed) (\<lambda>kl.
    if kl \<noteq> 0 then seq (release KTicks) (return ERR) else
    seq (sleep (e_sw E) (Some ChTicks) KTicks)
    (sleep_loop k E ticks0 n)))"

definition sys_sleep :: "'z pstate_scheme env \<Rightarrow> ('z pstate_scheme, u64) kM" where
  "sys_sleep E =
    bind (argint 0) (\<lambda>n.
    seq (acquire KTicks)
    (bind (gets ticks) (\<lambda>ticks0.
    sleep_loop (Suc (e_fuel E)) E ticks0 (of_int n))))"

definition sys_kill :: "('z pstate_scheme, u64) kM" where
  "sys_kill = bind (argint 0) (\<lambda>pid. ret_int (kill pid))"

definition sys_uptime :: "('z pstate_scheme, u64) kM" where
  "sys_uptime =
    seq (acquire KTicks)
    (bind (gets ticks) (\<lambda>xticks.
    seq (release KTicks)
    (return (ucast xticks))))"

definition sys_trace :: "('z pstate_scheme, u64) kM" where
  "sys_trace =
    on_me (\<lambda>p. bind (argint 0) (\<lambda>v.
    seq (modify (upd_proc p (\<lambda>r. r\<lparr>p_trace_flag := v\<rparr>))) (return 0)))"

definition sys_sigalarm :: "('z pstate_scheme, u64) kM" where
  "sys_sigalarm =
    on_me (\<lambda>p.
    bind (argint 0) (\<lambda>n.
    seq (modify (upd_proc p (\<lambda>r. r\<lparr>p_interval := n\<rparr>)))
    (bind (argaddr 1) (\<lambda>h.
    seq (modify (upd_proc p (\<lambda>r. r\<lparr>p_sig_handler := h\<rparr>)))
    (seq (modify (upd_proc p (\<lambda>r. r\<lparr>p_ticks_left := p_interval r\<rparr>)))
    (return 0))))))"

definition sys_sigreturn :: "('z pstate_scheme, u64) kM" where
  "sys_sigreturn =
    on_me (\<lambda>p.
    bind (gets (\<lambda>s. (p_trapframe (proc s p), p_sigalarm_tf (proc s p)))) (\<lambda>(tf, saved).
    if saved = 0 then panic ''kerneltrap'' else
    seq (modify (\<lambda>s. s\<lparr>mem := memmove tf saved 4096 (mem s)\<rparr>))
    (seq (kfree saved)
    (seq (modify (upd_proc p (\<lambda>r. r\<lparr>p_ticks_left := p_interval r\<rparr>)))
    (tf_get p tf_a0)))))"

definition sys_settickets :: "('z pstate_scheme, u64) kM" where
  "sys_settickets =
    on_me (\<lambda>p. bind (argint 0) (\<lambda>n.
    seq (modify (upd_proc p (\<lambda>r. r\<lparr>p_tickets := n\<rparr>)))
    (gets (\<lambda>s. of_int (p_tickets (proc s p))))))"

definition sys_waitx :: "'z kstate_scheme env \<Rightarrow> ('z kstate_scheme, u64) kM" where
  "sys_waitx E =
    bind (argaddr 0) (\<lambda>addr.
    bind (argaddr 1) (\<lambda>addr1.
    bind (argaddr 2) (\<lambda>addr2.
    bind (waitx (Suc (e_fuel E)) (e_sw E) addr) (\<lambda>(ret, times).
    bind (gets (\<lambda>s. case times of Some t \<Rightarrow> t | None \<Rightarrow> stack_junk s)) (\<lambda>(wtime, rtime).
    on_me (\<lambda>p.
    bind (gets (\<lambda>s. p_pagetable (proc s p))) (\<lambda>pt.
    bind (copyout pt addr1 (le_bytes 4 wtime)) (\<lambda>r1.
    if r1 < 0 then return ERR else
    bind (copyout pt addr2 (le_bytes 4 rtime)) (\<lambda>r2.
    return (if r2 < 0 then ERR else of_int ret))))))))))"

definition sys_setpriority :: "('z pstate_scheme, u64) kM" where
  "sys_setpriority =
    bind (argint 0) (\<lambda>new_priority.
    bind (argint 1) (\<lambda>proc_pid.
    ret_int (setpriority new_priority proc_pid)))"

section \<open>The system call table\<close>

definition syscalls :: "'z kstate_scheme env \<Rightarrow> int \<Rightarrow> ('z kstate_scheme, u64) kM option" where
  "syscalls E num =
    (if num = 1 then Some sys_fork else if num = 2 then Some (sys_exit E)
     else if num = 3 then Some (sys_wait E) else if num = 4 then Some (sys_pipe E)
     else if num = 5 then Some (sys_read E) else if num = 6 then Some sys_kill
     else if num = 7 then Some (sys_exec E) else if num = 8 then Some (sys_fstat E)
     else if num = 9 then Some (sys_chdir E) else if num = 10 then Some sys_dup
     else if num = 11 then Some sys_getpid else if num = 12 then Some sys_sbrk
     else if num = 13 then Some (sys_sleep E) else if num = 14 then Some sys_uptime
     else if num = 15 then Some (sys_open E) else if num = 16 then Some (sys_write E)
     else if num = 17 then Some (sys_mknod E) else if num = 18 then Some (sys_unlink E)
     else if num = 19 then Some (sys_link E) else if num = 20 then Some (sys_mkdir E)
     else if num = 21 then Some (sys_close E) else if num = 22 then Some sys_trace
     else if num = 23 then Some sys_sigalarm else if num = 24 then Some sys_sigreturn
     else if num = 25 then Some sys_settickets else if num = 26 then Some (sys_waitx E)
     else if num = 27 then Some sys_setpriority else None)"

definition syscall_names :: "string list" where
  "syscall_names = ['''', ''fork'', ''exit'', ''wait'', ''pipe'', ''read'', ''kill'', ''exec'', ''fstat'',
    ''chdir'', ''dup'', ''getpid'', ''sbrk'', ''sleep'', ''uptime'', ''open'', ''write'', ''mknod'', ''unlink'',
    ''link'', ''mkdir'', ''close'', ''trace'', ''sigalarm'', ''sigreturn '', ''sys_settickets'', ''sys_waitx'',
    ''sys_setpriority'']"

text \<open>The registers that the trace line of a call shows: 0 stands for the first argument as it was
  on entry, \<open>k\<close> for the register \<^verbatim>\<open>ak\<close> after the call.\<close>

definition trace_regs :: "int \<Rightarrow> nat list" where
  "trace_regs num =
    (if num \<in> {1, 11, 14, 24} then []
     else if num \<in> {5, 26} then [0, 1, 2]
     else if num \<in> {16, 17} then [0, 2, 3]
     else if num \<in> {7, 8, 27} then [0, 1]
     else if num \<in> {15, 19, 23} then [0, 2]
     else [0])"

definition trace_format :: "nat \<Rightarrow> string" where
  "trace_format n =
    (if n = 0 then ''%d: syscall %s -> %d\<newline>''
     else if n = 1 then ''%d: syscall %s (%d) -> %d\<newline>''
     else if n = 2 then ''%d: syscall %s (%d %d) -> %d\<newline>''
     else ''%d: syscall %s (%d %d %d) -> %d\<newline>'')"

definition trace_print :: "nat \<Rightarrow> int \<Rightarrow> u32 \<Rightarrow> ('z kstate_scheme, unit) kM" where
  "trace_print p num tmp =
    bind (gets (\<lambda>s. map (\<lambda>k. if k = 0 then AInt (sint tmp)
        else APtr (load64 (mem s) (p_trapframe (proc s p) + tf_a0 + 8 * of_nat k))) (trace_regs num))) (\<lambda>args.
    bind (tf_get p tf_a0) (\<lambda>a0.
    bind (gets (\<lambda>s. p_pid (proc s p))) (\<lambda>pid.
    printf (trace_format (length args))
      ([AInt pid, AStr (Some (map of_char (syscall_names ! nat num)))] @ args @ [APtr a0]))))"

definition syscall :: "'z kstate_scheme env \<Rightarrow> ('z kstate_scheme, unit) kM" where
  "syscall E =
    on_me (\<lambda>p.
    bind (tf_get p tf_a7) (\<lambda>a7.
    bind (tf_get p tf_a0) (\<lambda>a0.
    let num = sint (ucast a7 :: u32); tmp = (ucast a0 :: u32) in
    (case (if num > 0 then syscalls E num else None) of
       Some f \<Rightarrow>
         bind f (\<lambda>r.
         seq (tf_set p tf_a0 r)
         (bind (gets (\<lambda>s. p_trace_flag (proc s p))) (\<lambda>flag.
         whenM (drop_bit (nat num) flag \<noteq> 0) (trace_print p num tmp))))
     | None \<Rightarrow>
         bind (gets (\<lambda>s. proc s p)) (\<lambda>r.
         seq (printf ''%d %s: unknown sys call %d\<newline>''
               [AInt (p_pid r), AStr (Some (takeWhile (\<lambda>b. b \<noteq> 0) (p_name r))), AInt num])
         (tf_set p tf_a0 ERR))))))"

section \<open>The interrupt controller\<close>

abbreviation UART0_IRQ :: u32 where "UART0_IRQ \<equiv> 10"
abbreviation VIRTIO0_IRQ :: u32 where "VIRTIO0_IRQ \<equiv> 1"

definition PLIC_SENABLE :: "nat \<Rightarrow> u64" where "PLIC_SENABLE hart = PLIC + 0x2080 + of_nat hart * 0x100"
definition PLIC_SPRIORITY :: "nat \<Rightarrow> u64" where "PLIC_SPRIORITY hart = PLIC + 0x201000 + of_nat hart * 0x2000"
definition PLIC_SCLAIM :: "nat \<Rightarrow> u64" where "PLIC_SCLAIM hart = PLIC + 0x201004 + of_nat hart * 0x2000"

definition plic_write :: "u64 \<Rightarrow> u32 \<Rightarrow> ('z kstate_scheme, unit) kM" where
  "plic_write a v = modify (\<lambda>s. s\<lparr>plic_out := plic_out s @ [(a, v)]\<rparr>)"

definition plicinit :: "('z kstate_scheme, unit) kM" where
  "plicinit =
    seq (plic_write (PLIC + ucast UART0_IRQ * 4) 1)
    (plic_write (PLIC + ucast VIRTIO0_IRQ * 4) 1)"

definition plicinithart :: "('z kstate_scheme, unit) kM" where
  "plicinithart =
    bind (gets cpuid) (\<lambda>hart.
    seq (plic_write (PLIC_SENABLE hart) (push_bit (unat UART0_IRQ) 1 OR push_bit (unat VIRTIO0_IRQ) 1))
    (plic_write (PLIC_SPRIORITY hart) 0))"

definition plic_claim :: "('z kstate_scheme, u32) kM" where
  "plic_claim =
    bind (gets (\<lambda>s. plic_in s (plic_nreads s))) (\<lambda>irq.
    seq (modify (\<lambda>s. s\<lparr>plic_nreads := plic_nreads s + 1\<rparr>)) (return irq))"

definition plic_complete :: "u32 \<Rightarrow> ('z kstate_scheme, unit) kM" where
  "plic_complete irq = bind (gets cpuid) (\<lambda>hart. plic_write (PLIC_SCLAIM hart) irq)"

section \<open>Traps\<close>

definition trapinit :: "('z kstate_scheme, unit) kM" where
  "trapinit = modify (initlock KTicks ''time'')"

definition trapinithart :: "('z kstate_scheme, unit) kM" where
  "trapinithart = modify (\<lambda>s. w_stvec (kernelvec_addr s) s)"

definition clockintr :: "policy \<Rightarrow> ('z pstate_scheme, unit) kM" where
  "clockintr pol =
    seq (acquire KTicks)
    (seq (modify (\<lambda>s. s\<lparr>ticks := ticks s + 1\<rparr>))
    (seq (update_time pol)
    (seq (wakeup (Some ChTicks))
    (release KTicks))))"

definition devintr :: "policy \<Rightarrow> ('z kstate_scheme, int) kM" where
  "devintr pol =
    bind (gets r_scause) (\<lambda>scause.
    if scause AND 0x8000000000000000 \<noteq> 0 \<and> scause AND 0xff = 9 then
      bind plic_claim (\<lambda>irq.
      seq (if irq = UART0_IRQ then uartintr
           else if irq = VIRTIO0_IRQ then virtio_disk_intr
           else whenM (irq \<noteq> 0) (printf ''unexpected interrupt irq=%d\<newline>'' [AInt (sint irq)]))
      (seq (whenM (irq \<noteq> 0) (plic_complete irq))
      (return 1)))
    else if scause = 0x8000000000000001 then
      bind (gets cpuid) (\<lambda>id.
      seq (whenM (id = 0) (clockintr pol))
      (seq (modify (\<lambda>s. w_sip (r_sip s AND NOT 2) s))
      (return 2)))
    else return 0)"

text \<open>The time slices of the five queues.\<close>

definition priority_levels :: "int list" where
  "priority_levels = [1, 2, 4, 8, 16]"

text \<open>The preemption of a running process under MLFQ: it has used up its slice and moves down, or a
  queue above its own is not empty. \<open>reset\<close> says whether the counters start again, as they do in
  \<open>usertrap\<close> but not in \<open>kerneltrap\<close>.\<close>

definition mlfq_preempt :: "bool \<Rightarrow> 'z pstate_scheme env \<Rightarrow> nat \<Rightarrow> ('z pstate_scheme, unit) kM" where
  "mlfq_preempt reset E p =
    bind (gets (\<lambda>s. proc s p)) (\<lambda>r.
    if p_curr_rtime r \<ge> priority_levels ! nat (p_priority r) then
      seq (whenM (p_priority r \<noteq> 4) (modify (upd_proc p (\<lambda>r. r\<lparr>p_priority := p_priority r + 1\<rparr>))))
      (seq (whenM reset (modify (upd_proc p (\<lambda>r. r\<lparr>p_curr_rtime := 0, p_curr_wtime := 0\<rparr>))))
      (yield (e_sw E)))
    else
      bind (for_until [0..<5] (\<lambda>i.
        bind (gets (\<lambda>s. (q_length (queues s i), p_priority (proc s p)))) (\<lambda>(len, pri).
        if \<not> int i < pri then return (Some ())
        else seq (whenM (len > 0) (yield (e_sw E))) (return None)))) (\<lambda>_. return ()))"

text \<open>The current process is running: \<^verbatim>\<open>myproc()->state == RUNNING\<close>, which faults when there is
  no current process.\<close>

definition me_running :: "('z pstate_scheme, bool) kM" where
  "me_running = on_me (\<lambda>p. gets (\<lambda>s. p_state (proc s p) = RUNNING))"

definition usertrap_yield :: "policy \<Rightarrow> 'z pstate_scheme env \<Rightarrow> nat \<Rightarrow> int \<Rightarrow> ('z pstate_scheme, unit) kM" where
  "usertrap_yield pol E p which_dev =
    (case pol of
       RR \<Rightarrow> whenM (which_dev = 2) (yield (e_sw E))
     | LBS \<Rightarrow> whenM (which_dev = 2) (bind me_running (\<lambda>r. whenM r (yield (e_sw E))))
     | MLFQ \<Rightarrow> whenM (which_dev = 2) (bind me_running (\<lambda>r. whenM r (mlfq_preempt True E p)))
     | _ \<Rightarrow> return ())"

text \<open>The alarm of a process: the count goes down at every tick, and at zero the trap frame is saved
  and the handler entered.\<close>

definition alarm_tick :: "nat \<Rightarrow> ('z pstate_scheme, unit) kM" where
  "alarm_tick p =
    on_me (\<lambda>me.
    bind (gets (\<lambda>s. p_interval (proc s me))) (\<lambda>iv.
    whenM (iv \<noteq> 0)
      (seq (modify (upd_proc me (\<lambda>r. r\<lparr>p_ticks_left := p_ticks_left r - 1\<rparr>)))
      (bind (gets (\<lambda>s. p_ticks_left (proc s me))) (\<lambda>left.
      whenM (left = 0)
        (bind kalloc (\<lambda>pg.
        seq (modify (upd_proc p (\<lambda>r. r\<lparr>p_sigalarm_tf := pg\<rparr>)))
        (if pg = 0 then panic ''kerneltrap'' else
         seq (modify (\<lambda>s. s\<lparr>mem := memmove pg (p_trapframe (proc s p)) 4096 (mem s)\<rparr>))
         (bind (gets (\<lambda>s. p_sig_handler (proc s p))) (\<lambda>h. tf_set p tf_epc h))))))))))"

text \<open>\<open>usertrapret\<close> returns the \<^verbatim>\<open>satp\<close> value that it passes to \<^verbatim>\<open>userret\<close>
  in the trampoline.\<close>

definition usertrapret :: "('z kstate_scheme, u64) kM" where
  "usertrapret =
    on_me (\<lambda>p.
    seq (modify intr_off)
    (seq (modify (\<lambda>s. w_stvec (TRAMPOLINE + (uservec_addr s - trampoline s)) s))
    (seq (bind (gets r_satp) (tf_set p tf_kernel_satp))
    (seq (bind (gets (\<lambda>s. p_kstack (proc s p) + PGSIZE)) (tf_set p tf_kernel_sp))
    (seq (bind (gets usertrap_addr) (tf_set p tf_kernel_trap))
    (seq (bind (gets (\<lambda>s. of_nat (tp s))) (tf_set p tf_kernel_hartid))
    (seq (modify (\<lambda>s. w_sstatus ((r_sstatus s AND NOT SSTATUS_SPP) OR SSTATUS_SPIE) s))
    (seq (bind (tf_get p tf_epc) (\<lambda>epc. modify (w_sepc epc)))
    (gets (\<lambda>s. MAKE_SATP (p_pagetable (proc s p))))))))))))"

definition usertrap :: "policy \<Rightarrow> 'z kstate_scheme env \<Rightarrow> ('z kstate_scheme, u64) kM" where
  "usertrap pol E =
    bind (gets (\<lambda>s. r_sstatus s AND SSTATUS_SPP)) (\<lambda>spp.
    if spp \<noteq> 0 then panic ''usertrap: not from user mode'' else
    seq (modify (\<lambda>s. w_stvec (kernelvec_addr s) s))
    (on_me (\<lambda>p.
    seq (bind (gets r_sepc) (tf_set p tf_epc))
    (bind (gets r_scause) (\<lambda>cause.
    bind
      (if cause = 8 then
         seq (bind (killed p) (\<lambda>kl. whenM (kl \<noteq> 0) (exit E (-1))))
         (seq (bind (tf_get p tf_epc) (\<lambda>epc. tf_set p tf_epc (epc + 4)))
         (seq (modify intr_on)
         (seq (syscall E)
         (return 0))))
       else
         bind (devintr pol) (\<lambda>which_dev.
         seq (if which_dev \<noteq> 0 then whenM (which_dev = 2) (alarm_tick p)
              else
                seq (bind (gets (\<lambda>s. (r_scause s, p_pid (proc s p)))) (\<lambda>(c, pid).
                     printf ''usertrap(): unexpected scause %p pid=%d\<newline>'' [APtr c, AInt pid]))
                (seq (bind (gets (\<lambda>s. (r_sepc s, r_stval s))) (\<lambda>(pc, v).
                     printf ''            sepc=%p stval=%p\<newline>'' [APtr pc, APtr v]))
                (setkilled p)))
         (return which_dev))) (\<lambda>which_dev.
    seq (bind (killed p) (\<lambda>kl. whenM (kl \<noteq> 0) (exit E (-1))))
    (seq (usertrap_yield pol E p which_dev)
    usertrapret)))))))"

definition kerneltrap_yield :: "policy \<Rightarrow> 'z pstate_scheme env \<Rightarrow> int \<Rightarrow> ('z pstate_scheme, unit) kM" where
  "kerneltrap_yield pol E which_dev =
    (if which_dev \<noteq> 2 \<or> pol \<in> {FCFS, PBS} then return () else
     bind myproc (\<lambda>me. case me of None \<Rightarrow> return () | Some _ \<Rightarrow>
     bind me_running (\<lambda>r.
     whenM r (if pol = MLFQ then on_me (mlfq_preempt False E) else yield (e_sw E)))))"

definition kerneltrap :: "policy \<Rightarrow> 'z kstate_scheme env \<Rightarrow> ('z kstate_scheme, unit) kM" where
  "kerneltrap pol E =
    bind (gets (\<lambda>s. (r_sepc s, r_sstatus s, r_scause s))) (\<lambda>(sepc, status, scause).
    if status AND SSTATUS_SPP = 0 then panic ''kerneltrap: not from supervisor mode'' else
    bind (gets intr_get) (\<lambda>on.
    if on then panic ''kerneltrap: interrupts enabled'' else
    bind (devintr pol) (\<lambda>which_dev.
    if which_dev = 0 then
      seq (printf ''scause %p\<newline>'' [APtr scause])
      (seq (bind (gets (\<lambda>s. (r_sepc s, r_stval s))) (\<lambda>(pc, v).
        printf ''sepc=%p stval=%p\<newline>'' [APtr pc, APtr v]))
      (panic ''kerneltrap''))
    else
      seq (kerneltrap_yield pol E which_dev)
      (seq (modify (w_sepc sepc))
      (modify (w_sstatus status))))))"

definition forkret :: "'z kstate_scheme env \<Rightarrow> ('z kstate_scheme, u64) kM" where
  "forkret E =
    seq (on_me (\<lambda>p. release (KProc p)))
    (bind (gets fork_first) (\<lambda>first.
    seq (whenM first
      (seq (modify (\<lambda>s. s\<lparr>fork_first := False\<rparr>)) (fsinit E ROOTDEV)))
    usertrapret))"

section \<open>Starting the machine\<close>

abbreviation MSTATUS_MPP_MASK :: u64 where "MSTATUS_MPP_MASK \<equiv> push_bit 11 3"
abbreviation MSTATUS_MPP_S :: u64 where "MSTATUS_MPP_S \<equiv> push_bit 11 1"
abbreviation MSTATUS_MIE :: u64 where "MSTATUS_MIE \<equiv> push_bit 3 1"
abbreviation SIE_SEIE :: u64 where "SIE_SEIE \<equiv> push_bit 9 1"
abbreviation SIE_STIE :: u64 where "SIE_STIE \<equiv> push_bit 5 1"
abbreviation SIE_SSIE :: u64 where "SIE_SSIE \<equiv> push_bit 1 1"
abbreviation MIE_MTIE :: u64 where "MIE_MTIE \<equiv> push_bit 7 1"
abbreviation CLINT :: u64 where "CLINT \<equiv> 0x2000000"
definition CLINT_MTIMECMP :: "nat \<Rightarrow> u64" where "CLINT_MTIMECMP hart = CLINT + 0x4000 + 8 * of_nat hart"
abbreviation CLINT_MTIME :: u64 where "CLINT_MTIME \<equiv> CLINT + 0xBFF8"

text \<open>\<open>start\<close> and \<open>timerinit\<close> run on hart \<open>hart\<close> in machine mode, where the memory-mapped
  timer registers are ordinary words of memory; \<open>timer_scratch_addr\<close> is the address of
  \<^verbatim>\<open>timer_scratch\<close>, five words for each hart.\<close>

definition timerinit :: "nat \<Rightarrow> 'z kstate_scheme \<Rightarrow> 'z kstate_scheme" where
  "timerinit hart s =
    (let interval = 1000000;
         scratch = timer_scratch_addr s + 40 * of_nat hart;
         s1 = s\<lparr>mem := store64 (CLINT_MTIMECMP hart) (load64 (mem s) CLINT_MTIME + interval) (mem s)\<rparr>;
         s2 = s1\<lparr>mem := store64 (scratch + 32) interval (store64 (scratch + 24) (CLINT_MTIMECMP hart) (mem s1))\<rparr>
     in upd_csr hart (\<lambda>c. c\<lparr>csr_mscratch := scratch, csr_mtvec := timervec_addr s,
          csr_mstatus := csr_mstatus c OR MSTATUS_MIE, csr_mie := csr_mie c OR MIE_MTIE\<rparr>) s2)"

definition start :: "nat \<Rightarrow> 'z kstate_scheme \<Rightarrow> 'z kstate_scheme" where
  "start hart s =
    (let s1 = upd_csr hart (\<lambda>c. c\<lparr>
           csr_mstatus := (csr_mstatus c AND NOT MSTATUS_MPP_MASK) OR MSTATUS_MPP_S,
           csr_mepc := main_addr s,
           csr_medeleg := 0xffff, csr_mideleg := 0xffff,
           csr_sie := csr_sie c OR SIE_SEIE OR SIE_STIE OR SIE_SSIE,
           csr_pmpaddr0 := 0x3fffffffffffff, csr_pmpcfg0 := 0xf\<rparr>)
           (s\<lparr>satp := (satp s)(hart := 0)\<rparr>);
         s2 = timerinit hart s1
     in s2\<lparr>tp := hart\<rparr>)"

text \<open>\<open>main\<close> up to the call of \<open>scheduler\<close>. A hart other than hart 0 waits until
  \<^verbatim>\<open>started\<close> is set.\<close>

definition main_boot :: "'z kstate_scheme env \<Rightarrow> u8 list \<Rightarrow> ('z kstate_scheme, unit) kM" where
  "main_boot E initcode =
    seq consoleinit
    (seq printfinit
    (seq (printf ''\<newline>'' [])
    (seq (printf ''xv6 kernel is booting\<newline>'' [])
    (seq (printf ''\<newline>'' [])
    (seq kinit
    (seq kvminit
    (seq kvminithart
    (seq procinit
    (seq trapinit
    (seq trapinithart
    (seq plicinit
    (seq plicinithart
    (seq binit
    (seq iinit
    (seq fileinit
    (seq virtio_disk_init
    (seq (userinit E initcode)
    (modify (\<lambda>s. s\<lparr>started := True\<rparr>)))))))))))))))))))"

definition main_other :: "('z kstate_scheme, unit) kM" where
  "main_other =
    bind (gets started) (\<lambda>st.
    if \<not> st then hang else
    bind (gets cpuid) (\<lambda>id.
    seq (printf ''hart %d starting\<newline>'' [AInt (int id)])
    (seq kvminithart
    (seq trapinithart
    plicinithart))))"

definition main :: "nat \<Rightarrow> policy \<Rightarrow> (nat \<Rightarrow> ('z kstate_scheme, unit) kM) \<Rightarrow> 'z kstate_scheme env \<Rightarrow> u8 list
    \<Rightarrow> ('z kstate_scheme, unit) kM" where
  "main n pol run E initcode =
    bind (gets cpuid) (\<lambda>id.
    seq (if id = 0 then main_boot E initcode else main_other)
    (scheduler n pol run))"

end
