(* ===== verification/Pagetable.thy ===== *)
theory Pagetable
  imports Vm
begin

text \<open>
  What the routines of \<^verbatim>\<open>kernel/vm.c\<close> (theory \<open>Vm\<close>) do to a page table. The tables in memory form
  a tree of distinct pages (\<open>tree_ok\<close>, \<open>pt_ok\<close>); \<open>pte_at\<close> is the entry of a virtual address, \<open>upage\<close> and
  \<open>umem\<close> are the translation and the memory that a user program sees. The lemmas follow \<open>walk\<close> through the three
  levels, with and without allocation, \<open>mappages\<close> through its range, and \<open>copyout\<close> and \<open>copyin\<close> page by page.
\<close>

section \<open>Page tables as trees of tables\<close>

text \<open>The words of the pages of memory: \<open>w t i\<close> is entry \<open>i\<close> of the table at page
  \<open>t\<close>.\<close>

type_synonym words = "u64 \<Rightarrow> nat \<Rightarrow> u64"

definition vld :: "words \<Rightarrow> u64 \<Rightarrow> nat \<Rightarrow> bool" where
  "vld w t i \<longleftrightarrow> bit (w t i) 0"

definition next_tbl :: "words \<Rightarrow> u64 \<Rightarrow> nat \<Rightarrow> u64" where
  "next_tbl w t i = PTE2PA (w t i)"

text \<open>The table at level 0 for the two upper indices, if the path to it is valid, and the entry for
  three indices, 0 where there is no table.\<close>

definition path_ok :: "words \<Rightarrow> u64 \<Rightarrow> nat \<Rightarrow> nat \<Rightarrow> bool" where
  "path_ok w r a b \<longleftrightarrow> vld w r a \<and> vld w (next_tbl w r a) b"

definition leaf_table :: "words \<Rightarrow> u64 \<Rightarrow> nat \<Rightarrow> nat \<Rightarrow> u64" where
  "leaf_table w r a b = next_tbl w (next_tbl w r a) b"

definition pt_word :: "words \<Rightarrow> u64 \<Rightarrow> nat \<Rightarrow> nat \<Rightarrow> nat \<Rightarrow> u64" where
  "pt_word w r a b c = (if path_ok w r a b then w (leaf_table w r a b) c else 0)"

text \<open>The tables of a page table are all different.\<close>

definition tree_ok :: "words \<Rightarrow> u64 \<Rightarrow> bool" where
  "tree_ok w r \<longleftrightarrow>
    (\<forall>a. vld w r a \<longrightarrow> next_tbl w r a \<noteq> r) \<and>
    (\<forall>a a'. vld w r a \<longrightarrow> vld w r a' \<longrightarrow> next_tbl w r a = next_tbl w r a' \<longrightarrow> a = a') \<and>
    (\<forall>a b. path_ok w r a b \<longrightarrow> leaf_table w r a b \<noteq> r) \<and>
    (\<forall>a b a'. path_ok w r a b \<longrightarrow> vld w r a' \<longrightarrow> leaf_table w r a b \<noteq> next_tbl w r a') \<and>
    (\<forall>a b a' b'. path_ok w r a b \<longrightarrow> path_ok w r a' b' \<longrightarrow> leaf_table w r a b = leaf_table w r a' b'
       \<longrightarrow> a = a' \<and> b = b')"

definition tables :: "words \<Rightarrow> u64 \<Rightarrow> u64 set" where
  "tables w r = {r} \<union> {next_tbl w r a |a. vld w r a} \<union> {leaf_table w r a b |a b. path_ok w r a b}"

lemma tree_okD:
  assumes "tree_ok w r"
  shows "vld w r a \<Longrightarrow> next_tbl w r a \<noteq> r"
    "vld w r a \<Longrightarrow> vld w r a' \<Longrightarrow> next_tbl w r a = next_tbl w r a' \<Longrightarrow> a = a'"
    "path_ok w r a b \<Longrightarrow> leaf_table w r a b \<noteq> r"
    "path_ok w r a b \<Longrightarrow> vld w r a' \<Longrightarrow> leaf_table w r a b \<noteq> next_tbl w r a'"
    "path_ok w r a b \<Longrightarrow> path_ok w r a' b' \<Longrightarrow> leaf_table w r a b = leaf_table w r a' b' \<Longrightarrow> a = a' \<and> b = b'"
  using assms unfolding tree_ok_def by blast+

lemma tablesD:
  assumes "n \<notin> tables w r"
  shows "n \<noteq> r" "vld w r a \<Longrightarrow> n \<noteq> next_tbl w r a" "path_ok w r a b \<Longrightarrow> n \<noteq> leaf_table w r a b"
  using assms unfolding tables_def by blast+

lemma path_okD: "path_ok w r a b \<Longrightarrow> vld w r a" "path_ok w r a b \<Longrightarrow> vld w (next_tbl w r a) b"
  by (simp_all add: path_ok_def)

text \<open>Two page tables with the same valid tables at the same places.\<close>

lemma tree_cong:
  assumes "\<And>x. vld w' r x = V x" "\<And>x. V x \<Longrightarrow> next_tbl w' r x = N x"
    "\<And>x y. path_ok w' r x y = P x y" "\<And>x y. P x y \<Longrightarrow> leaf_table w' r x y = L x y"
  shows "tables w' r = {r} \<union> {N a |a. V a} \<union> {L a b |a b. P a b}"
    "tree_ok w' r \<longleftrightarrow> (\<forall>a. V a \<longrightarrow> N a \<noteq> r) \<and> (\<forall>a a'. V a \<longrightarrow> V a' \<longrightarrow> N a = N a' \<longrightarrow> a = a') \<and>
      (\<forall>a b. P a b \<longrightarrow> L a b \<noteq> r) \<and> (\<forall>a b a'. P a b \<longrightarrow> V a' \<longrightarrow> L a b \<noteq> N a') \<and>
      (\<forall>a b a' b'. P a b \<longrightarrow> P a' b' \<longrightarrow> L a b = L a' b' \<longrightarrow> a = a' \<and> b = b')"
proof -
  have "{next_tbl w' r a |a. vld w' r a} = {N a |a. V a}" using assms(1,2) by force
  moreover have "{leaf_table w' r a b |a b. path_ok w' r a b} = {L a b |a b. P a b}" using assms(3,4) by force
  ultimately show "tables w' r = {r} \<union> {N a |a. V a} \<union> {L a b |a b. P a b}" by (simp add: tables_def)
  show "tree_ok w' r \<longleftrightarrow> (\<forall>a. V a \<longrightarrow> N a \<noteq> r) \<and> (\<forall>a a'. V a \<longrightarrow> V a' \<longrightarrow> N a = N a' \<longrightarrow> a = a') \<and>
      (\<forall>a b. P a b \<longrightarrow> L a b \<noteq> r) \<and> (\<forall>a b a'. P a b \<longrightarrow> V a' \<longrightarrow> L a b \<noteq> N a') \<and>
      (\<forall>a b a' b'. P a b \<longrightarrow> P a' b' \<longrightarrow> L a b = L a' b' \<longrightarrow> a = a' \<and> b = b')"
    by (simp add: tree_ok_def assms)
qed

text \<open>A change outside of the two upper levels changes only entries.\<close>

lemma upper_same:
  assumes "w' r = w r" "\<And>a. vld w r a \<Longrightarrow> w' (next_tbl w r a) = w (next_tbl w r a)"
  shows "vld w' r a = vld w r a" "next_tbl w' r a = next_tbl w r a" "path_ok w' r a b = path_ok w r a b"
    "path_ok w r a b \<Longrightarrow> leaf_table w' r a b = leaf_table w r a b"
  using assms by (auto simp: vld_def next_tbl_def path_ok_def leaf_table_def)

lemma tree_ok_same:
  assumes "w' r = w r" "\<And>a. vld w r a \<Longrightarrow> w' (next_tbl w r a) = w (next_tbl w r a)"
  shows "tree_ok w' r = tree_ok w r" "tables w' r = tables w r"
proof -
  note u = upper_same [of w' r w, OF assms]
  note c = tree_cong [of w' r "vld w r" "next_tbl w r" "path_ok w r" "leaf_table w r", OF u]
  show "tree_ok w' r = tree_ok w r" using c(2) unfolding tree_ok_def by simp
  show "tables w' r = tables w r" using c(1) unfolding tables_def by simp
qed

lemma store_leaf:
  assumes "tree_ok w r" "path_ok w r a b"
    and t_def: "t = leaf_table w r a b" and w'_def: "w' = w(t := (w t)(c := v))"
  shows "tree_ok w' r" "tables w' r = tables w r" "path_ok w' r a' b' = path_ok w r a' b'"
    "pt_word w' r a' b' c' = (if a' = a \<and> b' = b \<and> c' = c then v else pt_word w r a' b' c')"
proof -
  note D = tree_okD [OF assms(1)]
  have r: "w' r = w r" using D(3) [OF assms(2)] by (simp add: w'_def t_def)
  have t1: "w' (next_tbl w r x) = w (next_tbl w r x)" if "vld w r x" for x
    using D(4) [OF assms(2) that] by (simp add: w'_def t_def)
  note u = upper_same [of w' r w, OF r t1]
  show "tree_ok w' r" "tables w' r = tables w r" using tree_ok_same [of w' r w, OF r t1] assms(1) by auto
  show "path_ok w' r a' b' = path_ok w r a' b'" by (rule u(3))
  have "leaf_table w r a' b' = t \<longleftrightarrow> a' = a \<and> b' = b" if "path_ok w r a' b'"
    using D(5) [OF that assms(2)] by (auto simp: t_def)
  then show "pt_word w' r a' b' c' = (if a' = a \<and> b' = b \<and> c' = c then v else pt_word w r a' b' c')"
    using u(3,4) assms(2) by (auto simp: pt_word_def w'_def t_def)
qed

lemma insert_among: "{r} \<union> insert n A \<union> B = insert n ({r} \<union> A \<union> B)" "{r} \<union> A \<union> insert n B = insert n ({r} \<union> A \<union> B)"
  by auto

lemma add_table1:
  assumes "tree_ok w r" "\<not> vld w r a" "n \<notin> tables w r" "w n = (\<lambda>_. 0)" "bit v 0" "PTE2PA v = n"
    and w'_def: "w' = w(r := (w r)(a := v))"
  shows "tree_ok w' r" "tables w' r = insert n (tables w r)" "pt_word w' r x y z = pt_word w r x y z"
    "vld w' r a" "next_tbl w' r a = n" "w' n = (\<lambda>_. 0)"
proof -
  note D = tree_okD [OF assms(1)] and T = tablesD [OF assms(3)]
  have v': "vld w' r x \<longleftrightarrow> x = a \<or> vld w r x" for x using assms(5) by (simp add: w'_def vld_def)
  have n': "next_tbl w' r x = (if x = a then n else next_tbl w r x)" for x using assms(6) by (simp add: w'_def next_tbl_def)
  have t1: "w' (next_tbl w r x) = w (next_tbl w r x)" if "vld w r x" for x
    using D(1) [OF that] by (simp add: w'_def)
  have nv: "\<not> vld w' n b" for b using assms(4) T(1) by (simp add: w'_def vld_def)
  have t1': "vld w' (next_tbl w r x) b = vld w (next_tbl w r x) b" "next_tbl w' (next_tbl w r x) b = next_tbl w (next_tbl w r x) b" if "vld w r x" for x b
    using t1 [OF that] by (simp_all add: vld_def next_tbl_def)
  have p': "path_ok w' r x b \<longleftrightarrow> path_ok w r x b" for x b
    using nv t1' assms(2) by (auto simp: path_ok_def v' n')
  have l': "leaf_table w' r x b = leaf_table w r x b" if "path_ok w r x b" for x b
    using t1'(2) assms(2) path_okD(1) [OF that] by (auto simp: leaf_table_def n')
  show "vld w' r a" "next_tbl w' r a = n" by (simp_all add: v' n')
  show "w' n = (\<lambda>_. 0)" using assms(4) T(1) by (simp add: w'_def)
  show "pt_word w' r x y z = pt_word w r x y z"
    using D(3) by (simp add: pt_word_def p' l') (simp add: w'_def)
  note c = tree_cong [of w' r "\<lambda>x. x = a \<or> vld w r x" "\<lambda>x. if x = a then n else next_tbl w r x" "path_ok w r" "leaf_table w r",
    OF v' n' p' l']
  have e: "{if x = a then n else next_tbl w r x |x. x = a \<or> vld w r x} = insert n {next_tbl w r x |x. vld w r x}"
    using assms(2) by force
  show "tables w' r = insert n (tables w r)"
    by (rule trans [OF c(1)], assumption, unfold e tables_def) (rule insert_among)
  let ?N = "\<lambda>x. if x = a then n else next_tbl w r x"
  have q1: "\<forall>x. x = a \<or> vld w r x \<longrightarrow> ?N x \<noteq> r" using D(1) T(1) by auto
  have q2: "\<forall>x x'. x = a \<or> vld w r x \<longrightarrow> x' = a \<or> vld w r x' \<longrightarrow> ?N x = ?N x' \<longrightarrow> x = x'"
    using D(2) T(2) by metis
  have q3: "\<forall>x b x'. path_ok w r x b \<longrightarrow> x' = a \<or> vld w r x' \<longrightarrow> leaf_table w r x b \<noteq> ?N x'"
    using D(4) T(3) by metis
  show "tree_ok w' r"
    by (rule iffD2 [OF c(2)], assumption, intro conjI)
      (rule q1, rule q2, use D(3) in blast, rule q3, use D(5) in blast)
qed

lemma add_table0:
  assumes "tree_ok w r" "vld w r a" "\<not> vld w (next_tbl w r a) b" "n \<notin> tables w r" "w n = (\<lambda>_. 0)" "bit v 0" "PTE2PA v = n"
    and t_def: "t = next_tbl w r a" and w'_def: "w' = w(t := (w t)(b := v))"
  shows "tree_ok w' r" "tables w' r = insert n (tables w r)" "pt_word w' r x y z = pt_word w r x y z"
    "path_ok w' r a b" "leaf_table w' r a b = n"
proof -
  note D = tree_okD [OF assms(1)] and T = tablesD [OF assms(4)]
  have tr: "t \<noteq> r" using D(1) [OF assms(2)] by (simp add: t_def)
  have nt: "n \<noteq> t" using T(2) [OF assms(2)] by (simp add: t_def)
  have v': "vld w' r x = vld w r x" and n': "next_tbl w' r x = next_tbl w r x" for x
    using tr by (auto simp: w'_def vld_def next_tbl_def)
  have other: "next_tbl w r x = t \<longleftrightarrow> x = a" if "vld w r x" for x
    using D(2) [OF that assms(2)] by (auto simp: t_def)
  have vw: "vld w' (next_tbl w r x) y \<longleftrightarrow> (x = a \<and> y = b) \<or> vld w (next_tbl w r x) y" if "vld w r x" for x y
    using other [OF that] assms(6) by (auto simp: vld_def w'_def t_def)
  have nw: "next_tbl w' (next_tbl w r x) y = (if x = a \<and> y = b then n else next_tbl w (next_tbl w r x) y)" if "vld w r x" for x y
    using other [OF that] assms(7) by (auto simp: next_tbl_def w'_def t_def)
  have pab: "\<not> path_ok w r a b" using assms(3) by (simp add: path_ok_def)
  have p': "path_ok w' r x y \<longleftrightarrow> (x = a \<and> y = b) \<or> path_ok w r x y" for x y
    using vw assms(2) by (auto simp: path_ok_def v' n')
  have l': "leaf_table w' r x y = (if x = a \<and> y = b then n else leaf_table w r x y)"
    if "(x = a \<and> y = b) \<or> path_ok w r x y" for x y
    using nw [of x y] that assms(2) path_okD(1) [of w r x y] by (auto simp: leaf_table_def n')
  show "path_ok w' r a b" "leaf_table w' r a b = n" by (simp_all add: p' l')
  have lt: "leaf_table w r x y \<noteq> t" if "path_ok w r x y" for x y using D(4) [OF that assms(2)] by (simp add: t_def)
  show "pt_word w' r x y z = pt_word w r x y z"
    using lt pab assms(5) nt by (auto simp: pt_word_def p' l') (simp_all add: w'_def)
  note c = tree_cong [of w' r "vld w r" "next_tbl w r" "\<lambda>x y. (x = a \<and> y = b) \<or> path_ok w r x y"
    "\<lambda>x y. if x = a \<and> y = b then n else leaf_table w r x y", OF v' n' p' l']
  have e: "{if x = a \<and> y = b then n else leaf_table w r x y |x y. (x = a \<and> y = b) \<or> path_ok w r x y}
      = insert n {leaf_table w r x y |x y. path_ok w r x y}"
    using pab by force
  show "tables w' r = insert n (tables w r)"
    by (rule trans [OF c(1)], assumption, unfold e tables_def) (rule insert_among)
  let ?P = "\<lambda>x y. (x = a \<and> y = b) \<or> path_ok w r x y"
  let ?L = "\<lambda>x y. if x = a \<and> y = b then n else leaf_table w r x y"
  have q1: "\<forall>x y. ?P x y \<longrightarrow> ?L x y \<noteq> r" using D(3) T(1) by auto
  have q2: "\<forall>x y x'. ?P x y \<longrightarrow> vld w r x' \<longrightarrow> ?L x y \<noteq> next_tbl w r x'" using D(4) T(2) by auto
  have q3: "\<forall>x y x' y'. ?P x y \<longrightarrow> ?P x' y' \<longrightarrow> ?L x y = ?L x' y' \<longrightarrow> x = x' \<and> y = y'"
    using D(5) T(3) by metis
  show "tree_ok w' r"
    by (rule iffD2 [OF c(2)], assumption, intro conjI)
      (use D(1) in blast, use D(2) in blast, rule q1, rule q2, rule q3)
qed

section \<open>The tables in memory\<close>

definition pt_words :: "mem \<Rightarrow> words" where
  "pt_words m t i = (if t mod PGSIZE = 0 \<and> i < 512 then load64 m (t + 8 * of_nat i) else 0)"

lemma slot_in_page:
  assumes "i < 512" "in_range (t + 8 * of_nat i) 8 x"
  shows "in_range t 4096 x"
proof -
  from assms(2) obtain j where "j < 8" "x = t + 8 * of_nat i + of_nat j" unfolding in_range_def by blast
  then have "8 * i + j < 4096" "x = t + of_nat (8 * i + j)" using assms(1) by simp_all
  then show ?thesis unfolding in_range_def by blast
qed

lemma slot_apart:
  assumes "t mod PGSIZE = 0" "i < 512" "j < 512" "i \<noteq> j" "in_range (t + 8 * of_nat i) 8 x"
  shows "\<not> in_range (t + 8 * of_nat j) 8 x"
proof
  assume "in_range (t + 8 * of_nat j) 8 x"
  then obtain k where k: "k < 8" "x = t + 8 * of_nat j + of_nat k" unfolding in_range_def by blast
  from assms(5) obtain l where l: "l < 8" "x = t + 8 * of_nat i + of_nat l" unfolding in_range_def by blast
  have "x = t + of_nat (8 * j + k)" "x = t + of_nat (8 * i + l)" using k l by simp_all
  then have "unat t + (8 * j + k) = unat t + (8 * i + l)"
    using page_unat [OF assms(1), of "8 * j + k"] page_unat [OF assms(1), of "8 * i + l"] k(1) l(1) assms(2,3) by simp
  then have "(8 * j + k) div 8 = (8 * i + l) div 8" by simp
  then show False using k(1) l(1) assms(4) by simp
qed

lemma pt_words_store:
  assumes "t mod PGSIZE = 0" "i < 512"
  shows "pt_words (store64 (t + 8 * of_nat i) v m) = (pt_words m)(t := (pt_words m t)(i := v))"
proof (intro ext)
  fix t' j
  let ?m = "store64 (t + 8 * of_nat i) v m"
  consider "t' = t" "j = i" | "\<not> (t' mod PGSIZE = 0 \<and> j < 512)" "\<not> (t' = t \<and> j = i)"
    | "t' mod PGSIZE = 0" "j < 512" "t' = t" "j \<noteq> i" | "t' mod PGSIZE = 0" "j < 512" "t' \<noteq> t" by argo
  then show "pt_words ?m t' j = ((pt_words m)(t := (pt_words m t)(i := v))) t' j"
  proof cases
    case 1 then show ?thesis using assms by (simp add: pt_words_def)
  next
    case 2
    have "pt_words m' t' j = 0" for m' by (simp only: pt_words_def 2 if_False)
    then show ?thesis using 2(2) by auto
  next
    case 3
    then have "load64 ?m (t' + 8 * of_nat j) = load64 m (t' + 8 * of_nat j)"
      using slot_apart [of t j i] assms(2) by (intro load64_cong store64_out) auto
    then show ?thesis using 3 by (simp add: pt_words_def)
  next
    case 4
    have "load64 ?m (t' + 8 * of_nat j) = load64 m (t' + 8 * of_nat j)"
      using page_disjoint [OF 4(1) assms(1)] 4(2,3) slot_in_page assms(2)
      by (intro load64_cong store64_out) blast
    then show ?thesis using 4 by (simp add: pt_words_def)
  qed
qed

lemma pt_words_frame:
  assumes "\<And>x. in_range t 4096 x \<Longrightarrow> m' x = m x"
  shows "pt_words m' t = pt_words m t"
proof
  fix i
  have "load64 m' (t + 8 * of_nat i) = load64 m (t + 8 * of_nat i)" if "i < 512"
    using slot_in_page [OF that] assms by (intro load64_cong) blast
  then show "pt_words m' t i = pt_words m t i" by (simp add: pt_words_def)
qed

lemma load64_zeros: "(\<And>x. in_range a 8 x \<Longrightarrow> m x = 0) \<Longrightarrow> load64 m a = 0"
  using load64_cong [of a m "\<lambda>_. 0"] load64_zero by simp

lemma pt_words_zero:
  assumes "n mod PGSIZE = 0" "\<And>x. m' x = (if in_range n 4096 x then 0 else m x)"
  shows "pt_words m' = (pt_words m)(n := (\<lambda>_. 0))"
proof
  fix t
  show "pt_words m' t = ((pt_words m)(n := (\<lambda>_. 0))) t"
  proof (cases "t = n")
    case True
    have "pt_words m' n i = 0" for i
      using slot_in_page [of i n] assms(2) load64_zeros [of "n + 8 * of_nat i" m'] by (auto simp: pt_words_def)
    then show ?thesis using True by (simp add: fun_eq_iff)
  next
    case False
    then show ?thesis
    proof (cases "t mod PGSIZE = 0")
      case True
      then have "pt_words m' t = pt_words m t"
        using page_disjoint [OF True assms(1)] False assms(2) by (intro pt_words_frame) auto
      then show ?thesis using False by simp
    next
      case t: False
      then show ?thesis using False by (simp add: pt_words_def fun_eq_iff)
    qed
  qed
qed

text \<open>Entries point to aligned pages, and a page survives the way into an entry and back.\<close>

lemma PTE2PA_aligned: "PTE2PA e mod PGSIZE = 0"
proof -
  have "take_bit 12 (PTE2PA e) = 0" by (simp add: PTE2PA_def take_bit_push_bit)
  then show ?thesis by (simp add: PGSIZE_def take_bit_eq_mod)
qed

lemma next_aligned: "next_tbl w t i mod PGSIZE = 0"
  by (simp only: next_tbl_def PTE2PA_aligned)

lemma PTE2PA_entry:
  assumes "p mod PGSIZE = 0" "p < 2 ^ 56" "f < 2 ^ 10"
  shows "PTE2PA (PA2PTE p OR f) = p"
proof -
  have lo: "\<not> bit p i" if "i < 12" for i
  proof -
    have "take_bit 12 p = 0" using assms(1) by (simp add: PGSIZE_def take_bit_eq_mod)
    then have "\<not> bit (take_bit 12 p) i" by simp
    then show ?thesis using that by (simp add: bit_take_bit_iff)
  qed
  have hi: "\<not> bit p i" if "i \<ge> 56" for i
  proof -
    have "take_bit 56 p = p"
      using assms(2) by (simp add: word_unat_eq_iff unsigned_take_bit_eq take_bit_nat_eq_self word_less_nat_alt)
    then have "bit p i = bit (take_bit 56 p) i" by simp
    then show ?thesis using that by (simp add: bit_take_bit_iff)
  qed
  have f: "\<not> bit f i" if "i \<ge> 10" for i
  proof -
    have "take_bit 10 f = f"
      using assms(3) by (simp add: word_unat_eq_iff unsigned_take_bit_eq take_bit_nat_eq_self word_less_nat_alt)
    then have "bit f i = bit (take_bit 10 f) i" by simp
    then show ?thesis using that by (simp add: bit_take_bit_iff)
  qed
  show ?thesis
  proof (rule bit_word_eqI)
    fix i assume "i < LENGTH(64)"
    then have i: "i < 64" by simp
    show "bit (PTE2PA (PA2PTE p OR f)) i = bit p i"
    proof (cases "i < 12")
      case True
      then show ?thesis using lo [of i] by (simp add: PTE2PA_def bit_push_bit_iff bit_or_iff)
    next
      case False
      then obtain j where "i = j + 12" by (metis not_less le_add_diff_inverse2)
      then show ?thesis
        using hi [of i] f [of "j + 10"] i
        by (auto simp: PTE2PA_def PA2PTE_def bit_push_bit_iff bit_drop_bit_eq bit_or_iff not_less add.commute)
    qed
  qed
qed

text \<open>The indices of a virtual address.\<close>

definition pt_index :: "nat \<Rightarrow> u64 \<Rightarrow> nat" where
  "pt_index l a = unat (PX l a)"

lemma pt_index_eq: "pt_index l a = unat a div 2 ^ (12 + 9 * l) mod 512"
proof -
  have "drop_bit (PXSHIFT l) a AND 0x1FF = take_bit 9 (drop_bit (PXSHIFT l) a)"
    using take_bit_eq_mask [of 9 "drop_bit (PXSHIFT l) a"] by (simp add: mask_eq_decr_exp)
  then have "pt_index l a = take_bit 9 (unat (drop_bit (PXSHIFT l) a))"
    by (simp only: pt_index_def PX_def unsigned_take_bit_eq)
  then have "pt_index l a = take_bit 9 (drop_bit (PXSHIFT l) (unat a))"
    by (simp only: unat_drop_bit_eq)
  then show ?thesis by (simp add: take_bit_eq_mod drop_bit_eq_div PXSHIFT_def)
qed

lemma pt_index_less: "pt_index l a < 512"
  by (simp add: pt_index_eq)

lemma pt_entry_index: "pt_entry t l a = t + 8 * of_nat (pt_index l a)"
  by (simp add: pt_entry_def pt_index_def)

lemma unat_MAXVA [simp]: "unat MAXVA = 2 ^ 38"
  by (simp add: MAXVA_def)

lemma pt_index_inj:
  assumes "a < MAXVA" "b < MAXVA" "\<And>l. l < 3 \<Longrightarrow> pt_index l a = pt_index l b"
  shows "PGROUNDDOWN a = PGROUNDDOWN b"
proof -
  have lt: "unat a < 2 ^ 38" "unat b < 2 ^ 38" using assms(1,2) by (simp_all add: word_less_nat_alt)
  have split: "x div 4096 = (x div 2 ^ 30 mod 512 * 512 + x div 2 ^ 21 mod 512) * 512 + x div 2 ^ 12 mod 512"
    if "x < 2 ^ 38" for x :: nat
  proof -
    have "x div 2 ^ 30 < 512" using that by simp
    moreover have "x div 2 ^ 30 = x div 4096 div 512 div 512" "x div 2 ^ 21 = x div 4096 div 512" "x div 2 ^ 12 = x div 4096"
      by (simp_all add: div_mult2_eq [symmetric])
    ultimately show ?thesis using div_mult_mod_eq [of "x div 4096" 512] div_mult_mod_eq [of "x div 4096 div 512" 512] by simp
  qed
  have e: "unat a div 2 ^ 30 mod 512 = unat b div 2 ^ 30 mod 512" "unat a div 2 ^ 21 mod 512 = unat b div 2 ^ 21 mod 512"
    "unat a div 2 ^ 12 mod 512 = unat b div 2 ^ 12 mod 512"
    by (use assms(3) [of 2] in \<open>simp add: pt_index_eq\<close>, use assms(3) [of 1] in \<open>simp add: pt_index_eq\<close>,
      use assms(3) [of 0] in \<open>simp add: pt_index_eq\<close>)
  have "unat a div 4096 = unat b div 4096" by (simp only: split [OF lt(1)] split [OF lt(2)] e)
  then show ?thesis by (simp add: word_unat_eq_iff unat_PGROUNDDOWN)
qed

lemma pt_index_round: "pt_index l (PGROUNDDOWN a) = pt_index l a"
proof -
  have "unat a div 4096 * 4096 div 4096 div 2 ^ (9 * l) = unat a div 4096 div 2 ^ (9 * l)" by simp
  then show ?thesis by (simp add: pt_index_eq unat_PGROUNDDOWN power_add div_mult2_eq)
qed


section \<open>Walking\<close>

text \<open>The entry of a virtual address in the page table at \<open>r\<close>.\<close>

definition pte_at :: "mem \<Rightarrow> u64 \<Rightarrow> u64 \<Rightarrow> u64" where
  "pte_at m r a = pt_word (pt_words m) r (pt_index 2 a) (pt_index 1 a) (pt_index 0 a)"

text \<open>A page table whose tables are distinct pages, none of them at address 0.\<close>

definition pt_ok :: "mem \<Rightarrow> u64 \<Rightarrow> bool" where
  "pt_ok m r \<longleftrightarrow> r mod PGSIZE = 0 \<and> tree_ok (pt_words m) r \<and> 0 \<notin> tables (pt_words m) r"

lemma load_slot: "t mod PGSIZE = 0 \<Longrightarrow> load64 m (t + 8 * of_nat (pt_index l a)) = pt_words m t (pt_index l a)"
  using pt_index_less [of l a] by (simp add: pt_words_def)

lemma bit_PTE_V: "e AND PTE_V = 0 \<longleftrightarrow> \<not> bit e 0"
  by (simp add: PTE_V_def and_one_eq bit_0 odd_iff_mod_2_eq_one flip: even_iff_mod_2_eq_zero)

lemma tables_aligned: "pt_ok m r \<Longrightarrow> t \<in> tables (pt_words m) r \<Longrightarrow> t mod PGSIZE = 0"
  unfolding pt_ok_def tables_def leaf_table_def
  by (elim conjE UnE CollectE exE singletonE) (simp_all only: next_aligned)

definition leaf_slot :: "mem \<Rightarrow> u64 \<Rightarrow> u64 \<Rightarrow> u64" where
  "leaf_slot m r a = leaf_table (pt_words m) r (pt_index 2 a) (pt_index 1 a) + 8 * of_nat (pt_index 0 a)"

definition has_slot :: "mem \<Rightarrow> u64 \<Rightarrow> u64 \<Rightarrow> bool" where
  "has_slot m r a = path_ok (pt_words m) r (pt_index 2 a) (pt_index 1 a)"

lemma leaf_slot_nz:
  assumes "pt_ok m r" "has_slot m r a"
  shows "leaf_slot m r a \<noteq> 0"
proof
  let ?t = "leaf_table (pt_words m) r (pt_index 2 a) (pt_index 1 a)"
  assume "leaf_slot m r a = 0"
  then have z: "unat (?t + of_nat (8 * pt_index 0 a)) = 0" by (simp add: leaf_slot_def)
  have t: "?t \<in> tables (pt_words m) r" using assms(2) unfolding has_slot_def tables_def by blast
  then have "unat (?t + of_nat (8 * pt_index 0 a)) = unat ?t + 8 * pt_index 0 a"
    using tables_aligned [OF assms(1)] pt_index_less [of 0 a] by (intro page_unat) simp_all
  with z have "unat ?t = 0" by simp
  then have "?t = 0" by (simp add: word_unat_eq_iff)
  with t assms(1) show False by (simp add: pt_ok_def)
qed

lemma load_leaf_slot: "has_slot m r a \<Longrightarrow> load64 m (leaf_slot m r a) = pte_at m r a"
  unfolding leaf_slot_def pte_at_def has_slot_def pt_word_def leaf_table_def
  by (simp add: load_slot next_aligned)

lemma no_slot: "\<not> has_slot m r a \<Longrightarrow> pte_at m r a = 0"
  by (simp add: pte_at_def has_slot_def pt_word_def)

lemma walk_False:
  assumes "pt_ok (mem s) r" "a < MAXVA"
  shows "walk r a False s = Ret (if has_slot (mem s) r a then leaf_slot (mem s) r a else 0, s)"
proof -
  have r: "r mod PGSIZE = 0" using assms(1) by (simp add: pt_ok_def)
  show ?thesis
    using assms(2) load_slot [OF r]
    by (simp add: walk_def not_le kM_simps numeral_2_eq_2 Let_def load_pte_def pt_entry_index bit_PTE_V
        has_slot_def path_ok_def vld_def leaf_slot_def leaf_table_def load_slot next_tbl_def PTE2PA_aligned)
qed


section \<open>Growing a page table\<close>

definition vm_inv :: "'z vmstate_scheme \<Rightarrow> u64 \<Rightarrow> u64 list \<Rightarrow> bool" where
  "vm_inv s r ps \<longleftrightarrow> kmem_ready s \<and> kmem_inv s ps \<and> pt_ok (mem s) r \<and> set ps \<inter> tables (pt_words (mem s)) r = {}"

text \<open>Only memory and the free list change.\<close>

definition mem_step :: "'z vmstate_scheme \<Rightarrow> 'z vmstate_scheme \<Rightarrow> bool" where
  "mem_step s s' \<longleftrightarrow> (\<exists>f m. s' = s\<lparr>freelist := f, mem := m\<rparr> \<or> s' = settle (s\<lparr>freelist := f, mem := m\<rparr>))"

text \<open>The table takes \<open>k\<close> pages of the free list as new tables, and memory changes only
  in the tables; with \<open>pt_grow\<close> the entries stay.\<close>

definition pt_more :: "u64 \<Rightarrow> nat \<Rightarrow> 'z vmstate_scheme \<Rightarrow> u64 list \<Rightarrow> 'z vmstate_scheme \<Rightarrow> u64 list \<Rightarrow> bool" where
  "pt_more r k s ps s' ps' \<longleftrightarrow> mem_step s s' \<and> vm_inv s' r ps' \<and>
    (\<exists>new. ps = new @ ps' \<and> length new = k \<and>
      tables (pt_words (mem s')) r = set new \<union> tables (pt_words (mem s)) r) \<and>
    (\<forall>x. (\<forall>t \<in> tables (pt_words (mem s')) r. \<not> in_range t 4096 x) \<longrightarrow> mem s' x = mem s x)"

definition pt_grow :: "u64 \<Rightarrow> nat \<Rightarrow> 'z vmstate_scheme \<Rightarrow> u64 list \<Rightarrow> 'z vmstate_scheme \<Rightarrow> u64 list \<Rightarrow> bool" where
  "pt_grow r k s ps s' ps' \<longleftrightarrow> pt_more r k s ps s' ps' \<and>
    (\<forall>a b c. pt_word (pt_words (mem s')) r a b c = pt_word (pt_words (mem s)) r a b c)"

lemma mem_step_refl: "mem_step s s"
  unfolding mem_step_def by (rule exI [of _ "freelist s"], rule exI [of _ "mem s"]) simp

lemma mem_step_trans:
  assumes "mem_step s s'" "mem_step s' s''" shows "mem_step s s''"
proof -
  obtain f m f' m' where e: "s' = s\<lparr>freelist := f, mem := m\<rparr> \<or> s' = settle (s\<lparr>freelist := f, mem := m\<rparr>)"
    "s'' = s'\<lparr>freelist := f', mem := m'\<rparr> \<or> s'' = settle (s'\<lparr>freelist := f', mem := m'\<rparr>)"
    using assms unfolding mem_step_def by blast
  show ?thesis
    unfolding mem_step_def
    by (rule exI [of _ f'], rule exI [of _ m']) (use e in auto)
qed

lemma pt_grow_refl: "vm_inv s r ps \<Longrightarrow> pt_grow r 0 s ps s ps"
  by (simp add: pt_grow_def pt_more_def mem_step_refl)

lemma pt_more_trans:
  assumes "pt_more r k s ps s' ps'" "pt_more r k' s' ps' s'' ps''"
  shows "pt_more r (k + k') s ps s'' ps''"
proof -
  from assms obtain new new' where n: "ps = new @ ps'" "length new = k" "ps' = new' @ ps''" "length new' = k'"
      "tables (pt_words (mem s')) r = set new \<union> tables (pt_words (mem s)) r"
      "tables (pt_words (mem s'')) r = set new' \<union> tables (pt_words (mem s')) r"
    unfolding pt_more_def by blast
  have "\<exists>n. ps = n @ ps'' \<and> length n = k + k' \<and> tables (pt_words (mem s'')) r = set n \<union> tables (pt_words (mem s)) r"
    by (rule exI [of _ "new @ new'"]) (use n in auto)
  moreover have "mem s'' x = mem s x" if "\<forall>t \<in> tables (pt_words (mem s'')) r. \<not> in_range t 4096 x" for x
  proof -
    have "mem s'' x = mem s' x" using assms(2) that unfolding pt_more_def by blast
    also have "\<dots> = mem s x" using assms(1) that unfolding pt_more_def n(6) by blast
    finally show ?thesis .
  qed
  moreover have "mem_step s s''" "vm_inv s'' r ps''" using assms mem_step_trans unfolding pt_more_def by auto
  ultimately show ?thesis unfolding pt_more_def by simp
qed

lemma pt_grow_trans:
  assumes "pt_grow r k s ps s' ps'" "pt_grow r k' s' ps' s'' ps''"
  shows "pt_grow r (k + k') s ps s'' ps''"
  using assms by (auto simp: pt_grow_def intro: pt_more_trans)

text \<open>A free page becomes a table of zeros, linked at slot \<open>i\<close> of table \<open>t\<close>.\<close>

lemma fresh_zero:
  assumes "tree_ok w r" "n \<notin> tables w r" and w1: "w1 = w(n := (\<lambda>_. 0))"
  shows "tree_ok w1 r" "tables w1 r = tables w r" "pt_word w1 r a b c = pt_word w r a b c"
    "vld w1 r a = vld w r a" "next_tbl w1 r a = next_tbl w r a" "path_ok w1 r a b = path_ok w r a b"
proof -
  note T = tablesD [OF assms(2)]
  have e: "w1 r = w r" "\<And>x. vld w r x \<Longrightarrow> w1 (next_tbl w r x) = w (next_tbl w r x)"
    using T(1,2) by (auto simp: w1)
  note u = upper_same [of w1 r w, OF e]
  show "tree_ok w1 r" "tables w1 r = tables w r" using tree_ok_same [of w1 r w, OF e] assms(1) by auto
  show "vld w1 r a = vld w r a" "next_tbl w1 r a = next_tbl w r a" "path_ok w1 r a b = path_ok w r a b" by (simp_all add: u)
  show "pt_word w1 r a b c = pt_word w r a b c" using T(3) u(3,4) by (auto simp: pt_word_def w1)
qed

lemma link_table:
  assumes "vm_inv s r (n # ps)" "t \<in> tables (pt_words (mem s)) r" "i < 512"
    and w': "w' = ((pt_words (mem s))(n := (\<lambda>_. 0)))(t := (pt_words (mem s) t)(i := PA2PTE n OR PTE_V))"
    and ok: "tree_ok w' r" "tables w' r = insert n (tables (pt_words (mem s)) r)"
      "\<And>a b c. pt_word w' r a b c = pt_word (pt_words (mem s)) r a b c"
  obtains s' where
    "\<And>K :: u64 \<Rightarrow> (_, u64) kM. bind kalloc (\<lambda>pg. if pg = 0 then return 0
        else seq (modify (\<lambda>s. s\<lparr>mem := memset pg 0 4096 (mem s)\<rparr>))
          (seq (store_pte (t + 8 * of_nat i) (PA2PTE pg OR PTE_V)) (K pg))) s = K n s'"
    "pt_words (mem s') = w'" "pt_grow r 1 s (n # ps) s' ps"
proof -
  have inv: "kmem_ready s" "kmem_inv s (n # ps)" "pt_ok (mem s) r" "n \<notin> tables (pt_words (mem s)) r"
    "set ps \<inter> tables (pt_words (mem s)) r = {}"
    using assms(1) by (auto simp: vm_inv_def)
  have n: "n \<noteq> 0" "n mod PGSIZE = 0" "n \<notin> set ps" "\<And>p. p \<in> set ps \<Longrightarrow> p mod PGSIZE = 0"
    using kmem_inv_page [OF inv(2)] inv(2) by (auto simp: page_ok_def kmem_inv_def)
  have t: "t mod PGSIZE = 0" "t \<noteq> n" "t \<notin> set ps"
    using tables_aligned [OF inv(3) assms(2)] assms(2) inv(4,5) by auto
  obtain m where m: "kalloc s = Ret (n, settle (s\<lparr>freelist := load64 (mem s) n, mem := m\<rparr>))"
    "kmem_inv (s\<lparr>freelist := load64 (mem s) n, mem := m\<rparr>) ps" "\<And>x. m x = (if in_range n 4096 x then 5 else mem s x)"
    by (rule kalloc_cons [OF inv(1,2)]) blast
  define m1 where "m1 = memset n 0 4096 m"
  define m2 where "m2 = store64 (t + 8 * of_nat i) (PA2PTE n OR PTE_V) m1"
  define s' where "s' = settle (s\<lparr>freelist := load64 (mem s) n, mem := m2\<rparr>)"
  have m1: "m1 x = (if in_range n 4096 x then 0 else mem s x)" for x
    by (simp add: m1_def memset_page m(3))
  have m2: "m2 x = mem s x" if "\<not> in_range n 4096 x" "\<not> in_range t 4096 x" for x
    using that slot_in_page [OF assms(3)] by (auto simp: m2_def m1 intro: trans [OF store64_out])
  have W: "pt_words (mem s') = w'"
    using t(2) by (simp add: s'_def m2_def w' pt_words_store [OF t(1) assms(3)] pt_words_zero [OF n(2) m1])
  have "kmem_inv s' ps"
  proof (rule kmem_inv_frame [OF m(2)])
    fix p x assume p: "p \<in> set ps" "in_range p 4096 x"
    then have "\<not> in_range n 4096 x" "\<not> in_range t 4096 x"
      using page_disjoint [OF n(4) [OF p(1)] n(2) p(2)] page_disjoint [OF n(4) [OF p(1)] t(1) p(2)] n(3) t(3) p(1) by auto
    then show "mem s' x = mem (s\<lparr>freelist := load64 (mem s) n, mem := m\<rparr>) x" by (simp add: s'_def m2 m(3))
  qed (simp_all add: s'_def)
  moreover have "pt_ok (mem s') r" using inv(3) n(1) ok unfolding pt_ok_def W by auto
  moreover have "mem s' x = mem s x" if "\<forall>q \<in> tables w' r. \<not> in_range q 4096 x" for x
    using that ok(2) assms(2) by (simp add: s'_def m2)
  moreover have "mem_step s s'" unfolding mem_step_def s'_def by blast
  ultimately have "pt_grow r 1 s (n # ps) s' ps"
    using inv ok n(3) unfolding pt_grow_def pt_more_def vm_inv_def W
    by (intro conjI) (auto simp: s'_def intro!: exI [of _ "[n]"])
  then show ?thesis
    using n(1) W by (intro that [of s']) (simp_all add: kM_simps m(1) store_pte_def s'_def m2_def m1_def)
qed


lemma pt_grow_settle: "vm_inv s r ps \<Longrightarrow> pt_grow r 0 s ps (settle s) ps"
  unfolding pt_grow_def pt_more_def vm_inv_def mem_step_def
  by (auto intro!: exI [of _ "freelist s"] exI [of _ "mem s"])

lemma new_entry:
  assumes "vm_inv s r (n # ps)"
  shows "bit (PA2PTE n OR PTE_V) 0" "PTE2PA (PA2PTE n OR PTE_V) = n"
proof -
  have n: "n mod PGSIZE = 0" "n < PHYSTOP"
    using assms kmem_inv_page [of s "n # ps" n] by (auto simp: vm_inv_def page_ok_def)
  have "n < 2 ^ 56" using n(2) by (simp add: word_less_nat_alt)
  then show "PTE2PA (PA2PTE n OR PTE_V) = n" by (intro PTE2PA_entry) (simp_all add: n(1) PTE_V_def)
  show "bit (PA2PTE n OR PTE_V) 0" by (simp add: PTE_V_def bit_or_iff)
qed

definition walked :: "u64 \<Rightarrow> u64 \<Rightarrow> nat \<Rightarrow> 'z vmstate_scheme \<Rightarrow> u64 list \<Rightarrow> (u64 \<times> 'z vmstate_scheme) outcome \<Rightarrow> bool" where
  "walked r a d s ps out \<longleftrightarrow> (\<exists>pte s' ps' k. out = Ret (pte, s') \<and> pt_grow r k s ps s' ps' \<and> k \<le> d \<and>
    (if pte = 0 then ps' = [] \<and> k < d else has_slot (mem s') r a \<and> pte = leaf_slot (mem s') r a))"

lemma walked_grow:
  assumes "pt_grow r k s ps s' ps'" "walked r a d s' ps' out" "k + d \<le> e"
  shows "walked r a e s ps out"
proof -
  from assms(2) obtain pte s2 ps2 k2 where w: "out = Ret (pte, s2)" "pt_grow r k2 s' ps' s2 ps2" "k2 \<le> d"
    "if pte = 0 then ps2 = [] \<and> k2 < d else has_slot (mem s2) r a \<and> pte = leaf_slot (mem s2) r a"
    unfolding walked_def by blast
  show ?thesis
    unfolding walked_def
    by (rule exI [of _ pte], rule exI [of _ s2], rule exI [of _ ps2], rule exI [of _ "k + k2"])
      (use w assms(3) pt_grow_trans [OF assms(1) w(2)] in \<open>auto split: if_splits\<close>)
qed

lemma walked_slot:
  assumes "vm_inv s r ps" "has_slot (mem s) r a"
  shows "walked r a 0 s ps (Ret (leaf_slot (mem s) r a, s))"
  unfolding walked_def using assms leaf_slot_nz [of "mem s" r a] pt_grow_refl [OF assms(1)]
  by (auto simp: vm_inv_def)

lemma walked_none:
  assumes "vm_inv s r []" "0 < d"
  shows "walked r a d s [] (Ret (0, settle s))"
  unfolding walked_def using assms pt_grow_settle [OF assms(1)] by fastforce

lemma walk_level1:
  assumes "vm_inv s r ps" "vld (pt_words (mem s)) r (pt_index 2 a)"
  shows "walked r a 1 s ps (walk_levels 1 (next_tbl (pt_words (mem s)) r (pt_index 2 a)) a True s)"
proof -
  let ?w = "pt_words (mem s)" and ?a = "pt_index 2 a" and ?b = "pt_index 1 a"
  define t where "t = next_tbl ?w r ?a"
  have inv: "pt_ok (mem s) r" "tree_ok ?w r" using assms(1) by (simp_all add: vm_inv_def pt_ok_def)
  have t: "t \<in> tables ?w r" "t mod PGSIZE = 0"
    using assms(2) next_aligned unfolding t_def tables_def by blast+
  show ?thesis
  proof (cases "vld ?w t ?b")
    case True
    then have p: "has_slot (mem s) r a" using assms(2) by (simp add: has_slot_def path_ok_def t_def)
    have "walk_levels 1 t a True s = Ret (leaf_slot (mem s) r a, s)"
      using True by (simp add: kM_simps Let_def load_pte_def pt_entry_index load_slot t(2) bit_PTE_V vld_def
          leaf_slot_def leaf_table_def t_def next_tbl_def PTE2PA_aligned)
    then show ?thesis
      using walked_grow [OF pt_grow_refl [OF assms(1)] walked_slot [OF assms(1) p], of 1]
      by (simp add: t_def del: One_nat_def walk_levels.simps)
  next
    case False
    have run: "walk_levels 1 t a True s =
        bind kalloc (\<lambda>pg. if pg = 0 then return 0
          else seq (modify (\<lambda>s. s\<lparr>mem := memset pg 0 4096 (mem s)\<rparr>))
            (seq (store_pte (t + 8 * of_nat ?b) (PA2PTE pg OR PTE_V)) (walk_levels 0 pg a True))) s"
      using False unfolding One_nat_def
      by (simp add: kM_simps Let_def load_pte_def pt_entry_index load_slot t(2) bit_PTE_V vld_def)
    show ?thesis
    proof (cases ps)
      case Nil
      then have "walk_levels 1 t a True s = Ret (0, settle s)"
        unfolding run using kalloc_nil [of s] assms(1) by (simp add: kM_simps vm_inv_def)
      then show ?thesis using walked_none [of s r 1] assms(1) Nil by (simp add: t_def)
    next
      case (Cons n ps')
      then have vm: "vm_inv s r (n # ps')" using assms(1) by simp
      then have n: "n \<notin> tables ?w r" "t \<noteq> n" using t(1) by (auto simp: vm_inv_def)
      define w1 where "w1 = ?w(n := (\<lambda>_. 0))"
      note z = fresh_zero [OF inv(2) n(1) w1_def]
      have w1t: "w1 t = ?w t" using n(2) by (simp add: w1_def)
      define w' where "w' = w1(t := (w1 t)(?b := PA2PTE n OR PTE_V))"
      have "vld w1 r ?a" "\<not> vld w1 (next_tbl w1 r ?a) ?b" "n \<notin> tables w1 r" "w1 n = (\<lambda>_. 0)" "t = next_tbl w1 r ?a"
        using z assms(2) False n(1) w1t by (simp_all add: t_def vld_def w1_def)
      note add = add_table0 [OF z(1) this(1-4) new_entry [OF vm] this(5) w'_def]
      have h: "w' = (?w(n := (\<lambda>_. 0)))(t := (?w t)(?b := PA2PTE n OR PTE_V))" "tree_ok w' r"
        "tables w' r = insert n (tables ?w r)" "pt_word w' r x y c = pt_word ?w r x y c" for x y c
        using add(1-3) z(2,3) w1t by (simp_all only: w'_def w1_def)
      obtain s' where s': "\<And>K :: u64 \<Rightarrow> (_, u64) kM. bind kalloc (\<lambda>pg. if pg = 0 then return 0
          else seq (modify (\<lambda>s. s\<lparr>mem := memset pg 0 4096 (mem s)\<rparr>))
            (seq (store_pte (t + 8 * of_nat ?b) (PA2PTE pg OR PTE_V)) (K pg))) s = K n s'"
        "pt_words (mem s') = w'" "pt_grow r 1 s (n # ps') s' ps'"
        by (rule link_table [OF vm t(1) pt_index_less h]) (rule that)
      have "has_slot (mem s') r a" "leaf_slot (mem s') r a = pt_entry n 0 a"
        using add(4,5) s'(2) by (simp_all add: has_slot_def leaf_slot_def pt_entry_index)
      moreover have "vm_inv s' r ps'" using s'(3) by (simp add: pt_grow_def pt_more_def)
      ultimately have "walked r a 0 s' ps' (walk_levels 1 t a True s)"
        unfolding trans [OF run s'(1)] using walked_slot [of s' r ps' a] by (simp add: kM_simps)
      then show ?thesis using walked_grow [OF s'(3)] Cons by (simp add: t_def)
    qed
  qed
qed


lemma walk_True:
  assumes "vm_inv s r ps" "a < MAXVA"
  shows "walked r a 2 s ps (walk r a True s)"
proof -
  let ?w = "pt_words (mem s)" and ?a = "pt_index 2 a"
  have inv: "pt_ok (mem s) r" "tree_ok ?w r" "r mod PGSIZE = 0" "r \<in> tables ?w r"
    using assms(1) by (simp_all add: vm_inv_def pt_ok_def tables_def)
  have run: "walk r a True s =
    (if vld ?w r ?a then walk_levels 1 (next_tbl ?w r ?a) a True s
     else bind kalloc (\<lambda>pg. if pg = 0 then return 0
          else seq (modify (\<lambda>s. s\<lparr>mem := memset pg 0 4096 (mem s)\<rparr>))
            (seq (store_pte (r + 8 * of_nat ?a) (PA2PTE pg OR PTE_V)) (walk_levels 1 pg a True))) s)"
    using assms(2) [folded not_le]
    by (simp add: walk_def walk_levels.simps(2) [of 1 r a True, unfolded Suc_1] kM_simps Let_def load_pte_def
        pt_entry_index load_slot [OF inv(3)] bit_PTE_V vld_def next_tbl_def del: walk_levels.simps One_nat_def)
  show ?thesis
  proof (cases "vld ?w r ?a")
    case True
    then show ?thesis
      using walked_grow [OF pt_grow_refl [OF assms(1)] walk_level1 [OF assms(1) True]] by (simp add: run)
  next
    case False
    show ?thesis
    proof (cases ps)
      case Nil
      then have "walk r a True s = Ret (0, settle s)"
        unfolding run using False kalloc_nil [of s] assms(1) by (simp add: kM_simps vm_inv_def)
      then show ?thesis using walked_none [of s r 2] assms(1) Nil by simp
    next
      case (Cons n ps')
      then have vm: "vm_inv s r (n # ps')" using assms(1) by simp
      then have n: "n \<notin> tables ?w r" "r \<noteq> n" using inv(4) by (auto simp: vm_inv_def)
      define w1 where "w1 = ?w(n := (\<lambda>_. 0))"
      note z = fresh_zero [OF inv(2) n(1) w1_def]
      have w1r: "w1 r = ?w r" using n(2) by (simp add: w1_def)
      define w' where "w' = w1(r := (w1 r)(?a := PA2PTE n OR PTE_V))"
      have "\<not> vld w1 r ?a" "n \<notin> tables w1 r" "w1 n = (\<lambda>_. 0)"
        using z False n(1) by (simp_all add: w1_def)
      note add = add_table1 [OF z(1) this new_entry [OF vm] w'_def]
      have h: "w' = (?w(n := (\<lambda>_. 0)))(r := (?w r)(?a := PA2PTE n OR PTE_V))" "tree_ok w' r"
        "tables w' r = insert n (tables ?w r)" "pt_word w' r x y c = pt_word ?w r x y c" for x y c
        using add(1-3) z(2,3) w1r by (simp_all only: w'_def w1_def)
      obtain s' where s': "\<And>K :: u64 \<Rightarrow> (_, u64) kM. bind kalloc (\<lambda>pg. if pg = 0 then return 0
          else seq (modify (\<lambda>s. s\<lparr>mem := memset pg 0 4096 (mem s)\<rparr>))
            (seq (store_pte (r + 8 * of_nat ?a) (PA2PTE pg OR PTE_V)) (K pg))) s = K n s'"
        "pt_words (mem s') = w'" "pt_grow r 1 s (n # ps') s' ps'"
        by (rule link_table [OF vm inv(4) pt_index_less h]) (rule that)
      have "vm_inv s' r ps'" using s'(3) by (simp add: pt_grow_def pt_more_def)
      from walk_level1 [OF this, of a] have "walked r a 1 s' ps' (walk_levels 1 n a True s')"
        unfolding s'(2) add(5) using add(4) by blast
      then have "walked r a 2 s (n # ps') (walk_levels 1 n a True s')" by (rule walked_grow [OF s'(3)]) simp
      then show ?thesis unfolding run using False s'(1) [of "\<lambda>pg. walk_levels 1 pg a True"] Cons by (simp only: if_False)
    qed
  qed
qed


section \<open>Mapping a range of pages\<close>

definition pgno :: "u64 \<Rightarrow> nat" where
  "pgno a = unat a div 4096"

lemma pt_index_pgno:
  assumes "a < MAXVA" "b < MAXVA"
  shows "pt_index 2 a = pt_index 2 b \<and> pt_index 1 a = pt_index 1 b \<and> pt_index 0 a = pt_index 0 b \<longleftrightarrow> pgno a = pgno b"
proof
  assume "pt_index 2 a = pt_index 2 b \<and> pt_index 1 a = pt_index 1 b \<and> pt_index 0 a = pt_index 0 b"
  then have "pt_index l a = pt_index l b" if "l < 3" for l
    using that by (auto simp: less_Suc_eq numeral_3_eq_3 numeral_2_eq_2)
  then have "unat (PGROUNDDOWN a) = unat (PGROUNDDOWN b)" using pt_index_inj [OF assms] by simp
  then show "pgno a = pgno b" by (simp add: unat_PGROUNDDOWN pgno_def)
next
  assume "pgno a = pgno b"
  then have "PGROUNDDOWN a = PGROUNDDOWN b" by (simp add: word_unat_eq_iff unat_PGROUNDDOWN pgno_def)
  then show "pt_index 2 a = pt_index 2 b \<and> pt_index 1 a = pt_index 1 b \<and> pt_index 0 a = pt_index 0 b"
    by (metis pt_index_round)
qed

lemma pte_at_grow: "pt_grow r k s ps s' ps' \<Longrightarrow> pte_at (mem s') r a = pte_at (mem s) r a"
  by (simp add: pt_grow_def pte_at_def)

lemma store_slot:
  assumes "vm_inv s r ps" "has_slot (mem s) r a" "a < MAXVA"
    and m: "m = store64 (leaf_slot (mem s) r a) v (mem s)"
  shows "pt_more r 0 s ps (s\<lparr>mem := m\<rparr>) ps"
    "b < MAXVA \<Longrightarrow> pte_at m r b = (if pgno b = pgno a then v else pte_at (mem s) r b)"
proof -
  let ?w = "pt_words (mem s)"
  define t where "t = leaf_table ?w r (pt_index 2 a) (pt_index 1 a)"
  have inv: "kmem_inv s ps" "pt_ok (mem s) r" "tree_ok ?w r" "set ps \<inter> tables ?w r = {}" "kmem_ready s"
    using assms(1) by (simp_all add: vm_inv_def pt_ok_def)
  have p: "path_ok ?w r (pt_index 2 a) (pt_index 1 a)" using assms(2) by (simp add: has_slot_def)
  have t: "t \<in> tables ?w r" using p unfolding t_def tables_def by blast
  have ta: "t mod PGSIZE = 0" by (rule tables_aligned [OF inv(2) t])
  have W: "pt_words m = ?w(t := (?w t)(pt_index 0 a := v))"
    unfolding m leaf_slot_def t_def [symmetric] by (rule pt_words_store [OF ta pt_index_less])
  note st = store_leaf [OF inv(3) p t_def W]
  have out: "m x = mem s x" if "\<not> in_range t 4096 x" for x
    using that slot_in_page [OF pt_index_less] unfolding m leaf_slot_def t_def [symmetric] by (intro store64_out) blast
  have "kmem_inv (s\<lparr>mem := m\<rparr>) ps"
  proof (rule kmem_inv_frame [OF inv(1)])
    fix q x assume q: "q \<in> set ps" "in_range q 4096 x"
    have "q mod PGSIZE = 0" "q \<noteq> t" using kmem_inv_page [OF inv(1) q(1)] inv(4) q(1) t by (auto simp: page_ok_def)
    then show "mem (s\<lparr>mem := m\<rparr>) x = mem s x" using out page_disjoint [OF _ ta q(2)] by auto
  qed simp_all
  moreover have "pt_ok m r" using inv(2) st(1,2) by (simp add: pt_ok_def)
  ultimately have vm: "vm_inv (s\<lparr>mem := m\<rparr>) r ps" using inv(4,5) st(2) by (simp add: vm_inv_def)
  have step: "mem_step s (s\<lparr>mem := m\<rparr>)"
    unfolding mem_step_def by (rule exI [of _ "freelist s"], rule exI [of _ m]) simp
  show "pt_more r 0 s ps (s\<lparr>mem := m\<rparr>) ps"
    using vm step out t st(2) by (simp add: pt_more_def)
  show "pte_at m r b = (if pgno b = pgno a then v else pte_at (mem s) r b)" if "b < MAXVA"
    using st(4) pt_index_pgno [OF that assms(3)] by (simp add: pte_at_def)
qed


text \<open>The first \<open>j\<close> pages from \<open>a\<close> on map to the pages from \<open>pa\<close> on; all other
  addresses keep their entries.\<close>

definition maps_pages :: "mem \<Rightarrow> u64 \<Rightarrow> u64 \<Rightarrow> nat \<Rightarrow> u64 \<Rightarrow> u64 \<Rightarrow> mem \<Rightarrow> bool" where
  "maps_pages m r a j pa perm m' \<longleftrightarrow> (\<forall>va < MAXVA. pte_at m' r va =
    (if pgno a \<le> pgno va \<and> pgno va < pgno a + j
     then PA2PTE (pa + of_nat (4096 * (pgno va - pgno a))) OR perm OR PTE_V
     else pte_at m r va))"

lemma maps_pages_0: "(\<And>va. pte_at m' r va = pte_at m r va) \<Longrightarrow> maps_pages m r a 0 pa perm m'"
  by (auto simp: maps_pages_def)

lemma page_step:
  assumes "a mod PGSIZE = 0" "unat a + 4096 < 2 ^ 64"
  shows "pgno (a + PGSIZE) = Suc (pgno a)" "(a + PGSIZE) mod PGSIZE = 0" "unat (a + PGSIZE) = unat a + 4096"
proof -
  show u: "unat (a + PGSIZE) = unat a + 4096"
    using unat_add_of_nat [of a 4096] assms(2) by (simp add: PGSIZE_def)
  obtain k where "unat a = 4096 * k"
    using assms(1) by (meson aligned_unat dvd_def dvd_eq_mod_eq_0)
  then show "pgno (a + PGSIZE) = Suc (pgno a)" "(a + PGSIZE) mod PGSIZE = 0"
    unfolding aligned_unat by (simp_all add: pgno_def u)
qed

lemma maps_pages_Suc:
  assumes "\<And>va. va < MAXVA \<Longrightarrow> pte_at m1 r va = (if pgno va = pgno a then PA2PTE pa OR perm OR PTE_V else pte_at m r va)"
    "maps_pages m1 r a' j (pa + PGSIZE) perm m'" "pgno a' = Suc (pgno a)"
  shows "maps_pages m r a (Suc j) pa perm m'"
  unfolding maps_pages_def
proof (intro allI impI)
  fix va assume va: "va < MAXVA"
  note e = assms(2) [unfolded maps_pages_def, rule_format, OF va, unfolded assms(3)]
  show "pte_at m' r va = (if pgno a \<le> pgno va \<and> pgno va < pgno a + Suc j
     then PA2PTE (pa + of_nat (4096 * (pgno va - pgno a))) OR perm OR PTE_V else pte_at m r va)"
  proof (cases "Suc (pgno a) \<le> pgno va")
    case True
    then obtain d where d: "pgno va = Suc (pgno a) + d" using nat_le_iff_add by blast
    show ?thesis unfolding e using assms(1) [OF va] by (simp add: d PGSIZE_def algebra_simps)
  next
    case False
    then show ?thesis unfolding e using assms(1) [OF va] by (auto simp: le_less_Suc_eq)
  qed
qed

lemma mappages_step:
  assumes "vm_inv s r ps" "a < MAXVA" "\<not> bit (pte_at (mem s) r a) 0"
  obtains (full) s' k where "mappages_loop (Suc n) r a lastva pa perm s = Ret (-1, s')" "pt_grow r k s ps s' []" "k < 2"
  | (step) s' ps' k where
    "mappages_loop (Suc n) r a lastva pa perm s =
      (if a = lastva then return 0 else mappages_loop n r (a + PGSIZE) lastva (pa + PGSIZE) perm) s'"
    "pt_more r k s ps s' ps'" "k \<le> 2"
    "\<And>va. va < MAXVA \<Longrightarrow>
      pte_at (mem s') r va = (if pgno va = pgno a then PA2PTE pa OR perm OR PTE_V else pte_at (mem s) r va)"
proof -
  obtain pte s1 ps1 k where w: "walk r a True s = Ret (pte, s1)" "pt_grow r k s ps s1 ps1" "k \<le> 2"
    "if pte = 0 then ps1 = [] \<and> k < 2 else has_slot (mem s1) r a \<and> pte = leaf_slot (mem s1) r a"
    using walk_True [OF assms(1,2)] unfolding walked_def by blast
  have vm: "vm_inv s1 r ps1" and more: "pt_more r k s ps s1 ps1" using w(2) by (simp_all add: pt_grow_def pt_more_def)
  show ?thesis
  proof (cases "pte = 0")
    case True
    then show ?thesis using w by (intro full [of s1 k]) (simp_all add: kM_simps)
  next
    case False
    then have sl: "has_slot (mem s1) r a" "pte = leaf_slot (mem s1) r a" using w(4) by simp_all
    define m where "m = store64 (leaf_slot (mem s1) r a) (PA2PTE pa OR perm OR PTE_V) (mem s1)"
    note st = store_slot [OF vm sl(1) assms(2) m_def]
    have nb: "\<not> bit (load64 (mem s1) pte) 0"
      using assms(3) pte_at_grow [OF w(2)] by (simp add: sl load_leaf_slot)
    show ?thesis
    proof (rule step [of "s1\<lparr>mem := m\<rparr>" k ps1])
      show "mappages_loop (Suc n) r a lastva pa perm s =
          (if a = lastva then return 0 else mappages_loop n r (a + PGSIZE) lastva (pa + PGSIZE) perm) (s1\<lparr>mem := m\<rparr>)"
        using False nb w(1) by (simp add: kM_simps load_pte_def store_pte_def bit_PTE_V m_def sl(2))
      show "pt_more r k s ps (s1\<lparr>mem := m\<rparr>) ps1" using pt_more_trans [OF more st(1)] by simp
      show "pte_at (mem (s1\<lparr>mem := m\<rparr>)) r va = (if pgno va = pgno a then PA2PTE pa OR perm OR PTE_V else pte_at (mem s) r va)"
        if "va < MAXVA" for va using st(2) [OF that] pte_at_grow [OF w(2)] by simp
    qed (rule w(3))
  qed
qed

lemma mappages_loop_ok:
  assumes "vm_inv s r ps" "a mod PGSIZE = 0" "unat a + 4096 * n < 2 ^ 38" "lastva = a + of_nat (4096 * n)"
    "\<And>va. va < MAXVA \<Longrightarrow> pgno a \<le> pgno va \<Longrightarrow> pgno va \<le> pgno a + n \<Longrightarrow> \<not> bit (pte_at (mem s) r va) 0"
  shows "\<exists>j s' ps' k. mappages_loop (Suc n) r a lastva pa perm s = Ret (if j = Suc n then 0 else -1, s') \<and>
    pt_more r k s ps s' ps' \<and> maps_pages (mem s) r a j pa perm (mem s') \<and>
    (if j = Suc n then k \<le> 2 * Suc n else j < Suc n \<and> ps' = [] \<and> k < 2 * Suc n)"
  using assms
proof (induction n arbitrary: s ps a pa)
  case (0 s ps a pa)
  have a: "a < MAXVA" using "0.prems"(3) by (simp add: word_less_nat_alt)
  have nb: "\<not> bit (pte_at (mem s) r a) 0" using "0.prems"(5) [OF a] by simp
  from "0.prems"(1) a nb show ?case
  proof (cases rule: mappages_step [where n = 0 and lastva = lastva and pa = pa and perm = perm])
    case (full s' k)
    then have "pt_more r k s ps s' []" "maps_pages (mem s) r a 0 pa perm (mem s')"
      using pte_at_grow [OF full(2)] by (simp_all add: pt_grow_def maps_pages_0)
    then show ?thesis using full(1,3)
      by (intro exI [of _ 0] exI [of _ s'] exI [of _ "[]"] exI [of _ k]) simp
  next
    case (step s' ps' k)
    have "maps_pages (mem s) r a (Suc 0) pa perm (mem s')"
      using step(4) by (auto simp: maps_pages_def)
    then show ?thesis using step(1-3) "0.prems"(4)
      by (intro exI [of _ "Suc 0"] exI [of _ s'] exI [of _ ps'] exI [of _ k]) (simp add: kM_simps)
  qed
next
  case (Suc n s ps a pa)
  have a: "a < MAXVA" using Suc.prems(3) by (simp add: word_less_nat_alt)
  note nx = page_step [OF Suc.prems(2)]
  have a': "unat a + 4096 < 2 ^ 64" using Suc.prems(3) by simp
  have nb: "\<not> bit (pte_at (mem s) r a) 0" using Suc.prems(5) [OF a] by simp
  from Suc.prems(1) a nb show ?case
  proof (cases rule: mappages_step [where n = "Suc n" and lastva = lastva and pa = pa and perm = perm])
    case (full s' k)
    then have "pt_more r k s ps s' []" "maps_pages (mem s) r a 0 pa perm (mem s')"
      using pte_at_grow [OF full(2)] by (simp_all add: pt_grow_def maps_pages_0)
    then show ?thesis using full(1,3)
      by (intro exI [of _ 0] exI [of _ s'] exI [of _ "[]"] exI [of _ k]) (simp del: mappages_loop.simps)
  next
    case (step s' ps' k)
    have "a \<noteq> lastva"
    proof
      assume "a = lastva"
      then have "unat a = unat (a + of_nat (4096 * Suc n))" using Suc.prems(4) by simp
      also have "\<dots> = unat a + 4096 * Suc n" using Suc.prems(3) by (intro unat_add_of_nat) simp
      finally show False by simp
    qed
    with step(1) have run: "mappages_loop (Suc (Suc n)) r a lastva pa perm s
        = mappages_loop (Suc n) r (a + PGSIZE) lastva (pa + PGSIZE) perm s'" by (simp only: if_False)
    have vm: "vm_inv s' r ps'" using step(2) by (simp add: pt_more_def)
    have "\<exists>j s2 ps2 k. mappages_loop (Suc n) r (a + PGSIZE) lastva (pa + PGSIZE) perm s' = Ret (if j = Suc n then 0 else -1, s2) \<and>
        pt_more r k s' ps' s2 ps2 \<and> maps_pages (mem s') r (a + PGSIZE) j (pa + PGSIZE) perm (mem s2) \<and>
        (if j = Suc n then k \<le> 2 * Suc n else j < Suc n \<and> ps2 = [] \<and> k < 2 * Suc n)"
    proof (rule Suc.IH [OF vm nx(2) [OF a']])
      show "unat (a + PGSIZE) + 4096 * n < 2 ^ 38" using Suc.prems(3) nx(3) [OF a'] by simp
      show "lastva = a + PGSIZE + of_nat (4096 * n)" using Suc.prems(4) by (simp add: PGSIZE_def)
      show "\<not> bit (pte_at (mem s') r va) 0"
        if "va < MAXVA" "pgno (a + PGSIZE) \<le> pgno va" "pgno va \<le> pgno (a + PGSIZE) + n" for va
        using that step(4) [OF that(1)] Suc.prems(5) [OF that(1)] nx(1) [OF a'] by simp
    qed
    then obtain j s2 ps2 k2 where
        ih: "mappages_loop (Suc n) r (a + PGSIZE) lastva (pa + PGSIZE) perm s' = Ret (if j = Suc n then 0 else -1, s2)"
        "pt_more r k2 s' ps' s2 ps2" "maps_pages (mem s') r (a + PGSIZE) j (pa + PGSIZE) perm (mem s2)"
        "if j = Suc n then k2 \<le> 2 * Suc n else j < Suc n \<and> ps2 = [] \<and> k2 < 2 * Suc n"
      by blast
    show ?thesis
      using ih(1,4) run step(3) pt_more_trans [OF step(2) ih(2)] maps_pages_Suc [OF step(4) ih(3) nx(1) [OF a']]
      by (intro exI [of _ "Suc j"] exI [of _ s2] exI [of _ ps2] exI [of _ "k + k2"]) (auto split: if_splits)
  qed
qed

section \<open>User memory\<close>

text \<open>The physical address of a user address, and the memory that a user page table shows. Different user
  pages lie on different physical pages, none of them a table.\<close>

definition upage :: "mem \<Rightarrow> u64 \<Rightarrow> u64 \<Rightarrow> u64 option" where
  "upage m r a = (let e = pte_at m r a in
    if a < MAXVA \<and> bit e 0 \<and> bit e 4 \<and> PTE2PA e \<noteq> 0 then Some (PTE2PA e) else None)"

definition umem :: "mem \<Rightarrow> u64 \<Rightarrow> u64 \<Rightarrow> u8 option" where
  "umem m r a = (case upage m r a of None \<Rightarrow> None | Some p \<Rightarrow> Some (m (p + of_nat (unat a mod 4096))))"

definition user_ok :: "mem \<Rightarrow> u64 \<Rightarrow> bool" where
  "user_ok m r \<longleftrightarrow> pt_ok m r \<and>
    (\<forall>a p. upage m r a = Some p \<longrightarrow> p \<notin> tables (pt_words m) r) \<and>
    (\<forall>a b p. upage m r a = Some p \<longrightarrow> upage m r b = Some p \<longrightarrow> pgno a = pgno b)"

definition overlay :: "u64 \<Rightarrow> u8 list \<Rightarrow> (u64 \<Rightarrow> u8 option) \<Rightarrow> u64 \<Rightarrow> u8 option" where
  "overlay d bs f a = (if unat d \<le> unat a \<and> unat a < unat d + length bs then Some (bs ! (unat a - unat d)) else f a)"

lemma bit_PTE_U: "e AND PTE_U = 0 \<longleftrightarrow> \<not> bit e 4"
proof -
  have "PTE_U = push_bit 4 1" by (simp add: PTE_U_def)
  then show ?thesis using and_exp_eq_0_iff_not_bit [of e 4] by (simp add: push_bit_eq_mult)
qed

lemma walkaddr_eq:
  assumes "pt_ok (mem s) r"
  shows "walkaddr r a s = Ret (case upage (mem s) r a of None \<Rightarrow> 0 | Some p \<Rightarrow> p, s)"
proof (cases "a < MAXVA")
  case True
  show ?thesis
  proof (cases "has_slot (mem s) r a")
    case h: True
    show ?thesis
      using True leaf_slot_nz [OF assms h]
      by (simp add: walkaddr_def not_le [symmetric] kM_simps walk_False [OF assms True] h load_pte_def load_leaf_slot
          bit_PTE_V bit_PTE_U upage_def Let_def)
  next
    case h: False
    show ?thesis
      using True by (simp add: walkaddr_def not_le [symmetric] kM_simps walk_False [OF assms True] h no_slot upage_def Let_def)
  qed
qed (simp add: walkaddr_def kM_simps upage_def Let_def not_less)

lemma pgno_MAXVA: "a < MAXVA \<longleftrightarrow> pgno a < 2 ^ 26"
  by (simp add: pgno_def word_less_nat_alt div_less_iff_less_mult)

lemma upage_pgno:
  assumes "pgno a = pgno b" "a < MAXVA" "b < MAXVA"
  shows "upage m r a = upage m r b"
proof -
  have "pt_index 2 a = pt_index 2 b \<and> pt_index 1 a = pt_index 1 b \<and> pt_index 0 a = pt_index 0 b"
    using pt_index_pgno [OF assms(2,3)] assms(1) by blast
  then show ?thesis using assms(2,3) by (simp add: upage_def pte_at_def)
qed

lemma same_tables:
  assumes "pt_ok m r" "\<And>t x. t \<in> tables (pt_words m) r \<Longrightarrow> in_range t 4096 x \<Longrightarrow> m' x = m x"
  shows "pt_ok m' r" "tables (pt_words m') r = tables (pt_words m) r" "pte_at m' r a = pte_at m r a"
    "upage m' r a = upage m r a"
proof -
  let ?w = "pt_words m" and ?w' = "pt_words m'"
  have f: "?w' t = ?w t" if "t \<in> tables ?w r" for t using assms(2) [OF that] by (rule pt_words_frame)
  have e: "?w' r = ?w r" "\<And>x. vld ?w r x \<Longrightarrow> ?w' (next_tbl ?w r x) = ?w (next_tbl ?w r x)"
    using f unfolding tables_def by blast+
  note u = upper_same [of ?w' r ?w, OF e] and t = tree_ok_same [of ?w' r ?w, OF e]
  show tb: "tables ?w' r = tables ?w r" by (rule t(2))
  show "pt_ok m' r" using assms(1) t by (simp add: pt_ok_def)
  have "?w' (leaf_table ?w r x y) = ?w (leaf_table ?w r x y)" if "path_ok ?w r x y" for x y
    using f that unfolding tables_def by blast
  then show p: "pte_at m' r a = pte_at m r a" using u(3,4) by (simp add: pte_at_def pt_word_def)
  show "upage m' r a = upage m r a" by (simp add: upage_def p)
qed

lemma upage_aligned: "upage m r a = Some p \<Longrightarrow> p mod PGSIZE = 0"
  using PTE2PA_aligned [of "pte_at m r a"] by (auto simp only: upage_def Let_def option.inject split: if_splits)


text \<open>Writing inside of one user page.\<close>

lemma write_bytes_page:
  assumes "p mod PGSIZE = 0" "off + length bs \<le> 4096"
  shows "j < 4096 \<Longrightarrow> write_bytes (p + of_nat off) bs m (p + of_nat j)
      = (if off \<le> j \<and> j < off + length bs then bs ! (j - off) else m (p + of_nat j))"
    "\<not> in_range p 4096 x \<Longrightarrow> write_bytes (p + of_nat off) bs m x = m x"
proof -
  show "write_bytes (p + of_nat off) bs m (p + of_nat j)
      = (if off \<le> j \<and> j < off + length bs then bs ! (j - off) else m (p + of_nat j))" if "j < 4096"
  proof (cases "off \<le> j")
    case True
    then have "p + of_nat j - (p + of_nat off) = (of_nat (j - off) :: u64)" by simp
    moreover have "unat (of_nat (j - off) :: u64) = j - off" using that by (simp only: unat_of_nat) simp
    ultimately show ?thesis using True by (auto simp: write_bytes_def)
  next
    case False
    have "length bs \<le> 4096" using assms(2) by simp
    moreover have "\<not> unat (p + of_nat j - (p + of_nat off)) < 4096"
    proof
      let ?d = "p + of_nat j - (p + of_nat off)"
      assume lt: "unat ?d < 4096"
      have "p + of_nat j = p + of_nat (off + unat ?d)" by simp
      moreover have "off + unat ?d < 2 ^ 64" using lt assms(2) by simp
      ultimately have "j = off + unat ?d" using of_nat_inj_u64 [of j "off + unat ?d"] that by simp
      then show False using False by simp
    qed
    ultimately show ?thesis using False by (simp add: write_bytes_def)
  qed
  show "write_bytes (p + of_nat off) bs m x = m x" if "\<not> in_range p 4096 x"
  proof -
    let ?d = "unat (x - (p + of_nat off))"
    have "\<not> ?d < length bs"
    proof
      assume "?d < length bs"
      then have "off + ?d < 4096" "x = p + of_nat (off + ?d)" using assms(2) by simp_all
      then show False using that unfolding in_range_def by blast
    qed
    then show ?thesis by (simp add: write_bytes_def)
  qed
qed

lemma same_pgno:
  assumes "unat d mod 4096 + n \<le> 4096" "unat d \<le> unat a \<and> unat a < unat d + n"
  shows "pgno a = pgno d"
proof -
  have "4096 * (unat d div 4096) + unat d mod 4096 = unat d" by simp
  then have "4096 * (unat d div 4096) \<le> unat a" "unat a < 4096 * Suc (unat d div 4096)"
    using assms unfolding mult_Suc_right by linarith+
  then show ?thesis unfolding pgno_def by (intro div_nat_eqI) simp_all
qed

lemma copy_page:
  assumes "user_ok m r" "upage m r d = Some p" "unat d mod 4096 + length bs \<le> 4096"
    and m': "m' = write_bytes (p + of_nat (unat d mod 4096)) bs m"
  shows "user_ok m' r" "upage m' r a = upage m r a" "umem m' r = overlay d bs (umem m r)"
    "tables (pt_words m') r = tables (pt_words m) r" "\<not> in_range p 4096 x \<Longrightarrow> m' x = m x"
proof -
  have ok: "pt_ok m r" "\<And>a p. upage m r a = Some p \<Longrightarrow> p \<notin> tables (pt_words m) r"
      "\<And>a b p. upage m r a = Some p \<Longrightarrow> upage m r b = Some p \<Longrightarrow> pgno a = pgno b"
    using assms(1) unfolding user_ok_def by blast+
  have p: "p mod PGSIZE = 0" using assms(2) by (rule upage_aligned)
  note wb = write_bytes_page [OF p assms(3), where m = m, folded m']
  have "m' x = m x" if "t \<in> tables (pt_words m) r" "in_range t 4096 x" for t x
    using page_disjoint [OF tables_aligned [OF ok(1) that(1)] p that(2)] ok(2) [OF assms(2)] that(1)
    by (intro wb(2)) blast
  note same = same_tables [OF ok(1) this]
  show "m' x = m x" if "\<not> in_range p 4096 x" using that by (rule wb(2))
  show "upage m' r a = upage m r a" by (rule same(4))
  show "tables (pt_words m') r = tables (pt_words m) r" by (rule same(2))
  show "user_ok m' r" using ok(2,3) same unfolding user_ok_def by (simp only:) blast
  show "umem m' r = overlay d bs (umem m r)"
  proof
    fix a
    show "umem m' r a = overlay d bs (umem m r) a"
    proof (cases "upage m r a")
      case None
      have "\<not> (unat d \<le> unat a \<and> unat a < unat d + length bs)"
      proof
        assume "unat d \<le> unat a \<and> unat a < unat d + length bs"
        then have "pgno a = pgno d" using assms(3) same_pgno by blast
        moreover have "d < MAXVA" using assms(2) by (auto simp: upage_def Let_def split: if_splits)
        moreover from calculation have "a < MAXVA" by (simp add: pgno_MAXVA)
        ultimately have "upage m r a = upage m r d" by (intro upage_pgno)
        then show False using None assms(2) by simp
      qed
      then show ?thesis using None by (simp add: umem_def same(4) overlay_def)
    next
      case (Some q)
      show ?thesis
      proof (cases "q = p")
        case True
        then have "pgno a = pgno d" using ok(3) Some assms(2) by blast
        then have "(unat d \<le> unat a \<and> unat a < unat d + length bs) =
            (unat d mod 4096 \<le> unat a mod 4096 \<and> unat a mod 4096 < unat d mod 4096 + length bs)"
          "unat a - unat d = unat a mod 4096 - unat d mod 4096"
          unfolding pgno_def using div_mult_mod_eq [of "unat a" 4096] div_mult_mod_eq [of "unat d" 4096] by linarith+
        then show ?thesis using Some True wb(1) [of "unat a mod 4096"] by (simp add: umem_def same(4) overlay_def)
      next
        case False
        have q: "\<not> in_range p 4096 (q + of_nat (unat a mod 4096))"
          using page_disjoint [OF upage_aligned [OF Some] p] False by (meson in_rangeI mod_less_divisor zero_less_numeral)
        have "pgno a \<noteq> pgno d"
        proof
          assume "pgno a = pgno d"
          then have "upage m r a = upage m r d"
            using Some assms(2) by (intro upage_pgno) (auto simp: upage_def Let_def split: if_splits)
          then show False using False Some assms(2) by simp
        qed
        then have "\<not> (unat d \<le> unat a \<and> unat a < unat d + length bs)"
          using assms(3) same_pgno by blast
        then show ?thesis using Some wb(2) [OF q] by (auto simp: umem_def same(4) overlay_def)
      qed
    qed
  qed
qed


lemma page_arith:
  assumes "unat d < 2 ^ 38"
  shows "d - PGROUNDDOWN d = of_nat (unat d mod 4096)" "unat (PGSIZE - of_nat (unat d mod 4096)) = 4096 - unat d mod 4096"
    "unat (PGROUNDDOWN d + PGSIZE) = unat d + (4096 - unat d mod 4096)" "unat (PGROUNDDOWN d + PGSIZE) \<le> 2 ^ 38"
    "upage m r (PGROUNDDOWN d) = upage m r d"
proof -
  let ?o = "unat d mod 4096"
  have o: "?o < 4096" by simp
  have rd: "unat (PGROUNDDOWN d) = unat d - ?o" by (simp add: unat_PGROUNDDOWN minus_mod_eq_div_mult)
  have "?o \<le> unat d" by simp
  have "PGROUNDDOWN d = of_nat (unat d - ?o)" unfolding rd [symmetric] by simp
  also have "\<dots> = d - of_nat ?o" using \<open>?o \<le> unat d\<close> by simp
  finally show e: "d - PGROUNDDOWN d = of_nat ?o" by simp
  have "PGSIZE - of_nat ?o = (of_nat (4096 - ?o) :: u64)" using o by (simp add: PGSIZE_def)
  then show "unat (PGSIZE - of_nat ?o) = 4096 - ?o" by (simp only: unat_of_nat) simp
  have "unat (PGROUNDDOWN d + of_nat 4096) = unat (PGROUNDDOWN d) + 4096"
    using assms by (intro unat_add_of_nat) (simp add: rd)
  then have u: "unat (PGROUNDDOWN d + PGSIZE) = unat d - ?o + 4096" by (simp add: PGSIZE_def rd)
  then show "unat (PGROUNDDOWN d + PGSIZE) = unat d + (4096 - ?o)" using o \<open>?o \<le> unat d\<close> by linarith
  have "unat d div 4096 < 2 ^ 26" using assms by (simp add: div_less_iff_less_mult)
  then have "4096 * Suc (unat d div 4096) \<le> 4096 * 2 ^ 26" by (intro mult_le_mono) simp_all
  then show "unat (PGROUNDDOWN d + PGSIZE) \<le> 2 ^ 38" unfolding u by (simp add: minus_mod_eq_mult_div)
  have "pgno (PGROUNDDOWN d) = pgno d" by (simp add: pgno_def unat_PGROUNDDOWN)
  moreover have "d < MAXVA" using assms by (simp add: word_less_nat_alt)
  moreover from calculation have "PGROUNDDOWN d < MAXVA" by (simp add: pgno_MAXVA)
  ultimately show "upage m r (PGROUNDDOWN d) = upage m r d" by (intro upage_pgno)
qed

lemma overlay_append:
  "unat d' = unat d + length bs \<Longrightarrow> overlay d' bs' (overlay d bs f) = overlay d (bs @ bs') f"
  by (auto simp: overlay_def nth_append fun_eq_iff)

lemma overlay_Nil [simp]: "overlay d [] f = f"
  by (auto simp: overlay_def fun_eq_iff)

text \<open>The first \<open>n\<close> bytes from \<open>d\<close> on are mapped, and the next one is not unless all
  \<open>len\<close> are.\<close>

definition mapped_upto :: "mem \<Rightarrow> u64 \<Rightarrow> u64 \<Rightarrow> nat \<Rightarrow> nat \<Rightarrow> bool" where
  "mapped_upto m r d len n \<longleftrightarrow> n \<le> len \<and> (\<forall>i<n. upage m r (d + of_nat i) \<noteq> None) \<and>
    (n < len \<longrightarrow> upage m r (d + of_nat n) = None)"

lemma mapped_page:
  assumes "upage m r d = Some p" "unat d + len \<le> 2 ^ 38" "n0 = min (4096 - unat d mod 4096) len" "0 < len"
    and d': "d' = PGROUNDDOWN d + PGSIZE"
  shows "mapped_upto m r d' (len - n0) n \<Longrightarrow> mapped_upto m r d len (n0 + n)"
    "n0 < len \<Longrightarrow> unat d' = unat d + n0" "unat d' + (len - n0) \<le> 2 ^ 38" "unat d mod 4096 + n0 \<le> 4096" "0 < n0" "n0 \<le> len"
proof -
  let ?o = "unat d mod 4096"
  have o: "?o < 4096" by simp
  have lt: "unat d < 2 ^ 38" using assms(2,4) by simp
  note pa = page_arith [OF lt, folded d']
  show le: "unat d mod 4096 + n0 \<le> 4096" "0 < n0" "n0 \<le> len" using assms(3,4) o by auto
  show nx: "unat d' = unat d + n0" if "n0 < len" using pa(3) that assms(3) by simp
  show "unat d' + (len - n0) \<le> 2 ^ 38"
    using nx pa(4) assms(2) le(3) by (cases "n0 < len") simp_all
  have here: "upage m r (d + of_nat i) \<noteq> None" if "i < n0" for i
  proof -
    have u: "unat (d + of_nat i) = unat d + i" using that le(3) assms(2) by (intro unat_add_of_nat) simp
    then have "pgno (d + of_nat i) = pgno d" using that by (intro same_pgno [OF le(1)]) simp
    moreover have "d + of_nat i < MAXVA" "d < MAXVA"
      using u that le(3) assms(2) lt by (simp_all add: word_less_nat_alt)
    ultimately have "upage m r (d + of_nat i) = upage m r d" by (rule upage_pgno)
    then show ?thesis using assms(1) by simp
  qed
  show "mapped_upto m r d len (n0 + n)" if m: "mapped_upto m r d' (len - n0) n"
  proof -
    have n: "n0 + n \<le> len" using m le(3) by (auto simp: mapped_upto_def)
    have sh: "d' + of_nat i = d + of_nat (n0 + i)" if "n0 < len" for i
    proof -
      have "d' = d + of_nat n0"
        using nx [OF that] unat_add_of_nat [of d n0] lt that assms(2) by (simp add: word_unat_eq_iff)
      then show ?thesis by simp
    qed
    have "upage m r (d + of_nat i) \<noteq> None" if "i < n0 + n" for i
    proof (cases "i < n0")
      case False
      then obtain j where "i = n0 + j" using nat_le_iff_add [of n0 i] by auto
      moreover from this have "j < n" using that by simp
      moreover from this have "upage m r (d' + of_nat j) \<noteq> None" using m by (simp add: mapped_upto_def)
      ultimately show ?thesis using sh [of j] n by simp
    qed (rule here)
    moreover have "upage m r (d + of_nat (n0 + n)) = None" if "n0 + n < len"
    proof -
      have "upage m r (d' + of_nat n) = None" using m that by (simp add: mapped_upto_def)
      then show ?thesis using sh [of n] that by simp
    qed
    ultimately show ?thesis using n by (simp add: mapped_upto_def)
  qed
qed


text \<open>The bytes that are in no page of the user.\<close>

definition not_user :: "mem \<Rightarrow> u64 \<Rightarrow> u64 \<Rightarrow> bool" where
  "not_user m r x \<longleftrightarrow> (\<forall>a p. upage m r a = Some p \<longrightarrow> \<not> in_range p 4096 x)"

lemma copyout_loop_ok:
  assumes "user_ok (mem s) r" "unat d + length src \<le> 2 ^ 38" "length src \<le> k"
  shows "\<exists>n m'. copyout_loop k r d src s = Ret (if n = length src then 0 else -1, s\<lparr>mem := m'\<rparr>) \<and>
    mapped_upto (mem s) r d (length src) n \<and> user_ok m' r \<and> (\<forall>a. upage m' r a = upage (mem s) r a) \<and>
    umem m' r = overlay d (take n src) (umem (mem s) r) \<and> (\<forall>x. not_user (mem s) r x \<longrightarrow> m' x = mem s x)"
  using assms
proof (induction k arbitrary: s d src)
  case 0
  then show ?case
    by (intro exI [of _ 0] exI [of _ "mem s"]) (simp add: kM_simps mapped_upto_def)
next
  case (Suc k)
  show ?case
  proof (cases "src = []")
    case True
    then show ?thesis using Suc.prems
      by (intro exI [of _ 0] exI [of _ "mem s"]) (simp add: kM_simps mapped_upto_def)
  next
    case False
    have ok: "pt_ok (mem s) r" using Suc.prems(1) by (simp add: user_ok_def)
    have len: "0 < length src" using False by simp
    have lt: "unat d < 2 ^ 38" using Suc.prems(2) len by linarith
    note pa = page_arith [OF lt]
    show ?thesis
    proof (cases "upage (mem s) r d")
      case None
      then have "copyout_loop (Suc k) r d src s = Ret (-1, s)"
        using False by (simp add: kM_simps Let_def walkaddr_eq [OF ok] pa(5))
      then show ?thesis using None False Suc.prems(1)
        by (intro exI [of _ 0] exI [of _ "mem s"]) (simp add: mapped_upto_def)
    next
      case (Some p)
      define n0 where "n0 = min (4096 - unat d mod 4096) (length src)"
      define d' where "d' = PGROUNDDOWN d + PGSIZE"
      define m1 where "m1 = write_bytes (p + of_nat (unat d mod 4096)) (take n0 src) (mem s)"
      note mp = mapped_page [OF Some Suc.prems(2) n0_def len d'_def]
      have p0: "p \<noteq> 0" using Some by (auto simp: upage_def Let_def split: if_splits)
      have "unat d mod 4096 + length (take n0 src) \<le> 4096" using mp(4,6) by simp
      note cp = copy_page [OF Suc.prems(1) Some this m1_def]
      have run: "copyout_loop (Suc k) r d src s = copyout_loop k r d' (drop n0 src) (s\<lparr>mem := m1\<rparr>)"
        using False p0 by (simp add: kM_simps Let_def walkaddr_eq [OF ok] pa Some n0_def [symmetric] d'_def m1_def)
      have "\<exists>n m'. copyout_loop k r d' (drop n0 src) (s\<lparr>mem := m1\<rparr>)
          = Ret (if n = length (drop n0 src) then 0 else -1, (s\<lparr>mem := m1\<rparr>)\<lparr>mem := m'\<rparr>) \<and>
        mapped_upto (mem (s\<lparr>mem := m1\<rparr>)) r d' (length (drop n0 src)) n \<and> user_ok m' r \<and>
        (\<forall>a. upage m' r a = upage (mem (s\<lparr>mem := m1\<rparr>)) r a) \<and>
        umem m' r = overlay d' (take n (drop n0 src)) (umem (mem (s\<lparr>mem := m1\<rparr>)) r) \<and>
        (\<forall>x. not_user (mem (s\<lparr>mem := m1\<rparr>)) r x \<longrightarrow> m' x = mem (s\<lparr>mem := m1\<rparr>) x)"
        using mp(3,5) Suc.prems(3) by (intro Suc.IH) (simp_all add: cp(1))
      then obtain n m' where ih: "copyout_loop k r d' (drop n0 src) (s\<lparr>mem := m1\<rparr>)
          = Ret (if n = length src - n0 then 0 else -1, s\<lparr>mem := m'\<rparr>)"
        "mapped_upto m1 r d' (length src - n0) n" "user_ok m' r" "\<And>a. upage m' r a = upage m1 r a"
        "umem m' r = overlay d' (take n (drop n0 src)) (umem m1 r)" "\<And>x. not_user m1 r x \<Longrightarrow> m' x = m1 x"
        by auto
      have "m' x = mem s x" if "not_user (mem s) r x" for x
        using that ih(6) [of x] cp(5) [of x] Some by (auto simp: not_user_def cp(2))
      note frame = this
      have "mapped_upto (mem s) r d' (length src - n0) n" using ih(2) by (simp add: mapped_upto_def cp(2))
      then have mu: "mapped_upto (mem s) r d (length src) (n0 + n)" by (rule mp(1))
      have "umem m' r = overlay d (take (n0 + n) src) (umem (mem s) r)"
      proof (cases "n0 < length src")
        case True
        then show ?thesis using mp(2) ih(5) cp(3) overlay_append [of d' d "take n0 src"] by (simp add: take_add)
      next
        case full: False
        then show ?thesis using ih(5) cp(3) mp(6) by simp
      qed
      moreover have "(n = length src - n0) = (n0 + n = length src)" using mp(6) by auto
      ultimately show ?thesis using ih(1,3,4) mu cp(2) frame
        by (intro exI [of _ "n0 + n"] exI [of _ m']) (simp add: run del: copyout_loop.simps)
    qed
  qed
qed


lemma read_user:
  assumes "upage m r d = Some p" "unat d mod 4096 + n \<le> 4096" "unat d + n \<le> 2 ^ 38"
  shows "map Some (read_bytes m (p + of_nat (unat d mod 4096)) n) = map (\<lambda>i. umem m r (d + of_nat i)) [0..<n]"
proof -
  have "umem m r (d + of_nat i) = Some (m (p + of_nat (unat d mod 4096) + of_nat i))" if "i < n" for i
  proof -
    have u: "unat (d + of_nat i) = unat d + i" using that assms(3) by (intro unat_add_of_nat) simp
    have "pgno (d + of_nat i) = pgno d" using that u by (intro same_pgno [OF assms(2)]) simp
    moreover have "d + of_nat i < MAXVA" "d < MAXVA" using u that assms(3) by (simp_all add: word_less_nat_alt)
    ultimately have "upage m r (d + of_nat i) = upage m r d" by (rule upage_pgno)
    moreover have "unat (d + of_nat i) mod 4096 = unat d mod 4096 + i"
    proof -
      have "(unat d + i) mod 4096 = (unat d mod 4096 + i) mod 4096" by (simp add: mod_simps)
      also have "\<dots> = unat d mod 4096 + i" using that assms(2) by (intro mod_less) linarith
      finally show ?thesis unfolding u .
    qed
    ultimately show ?thesis using assms(1) by (simp add: umem_def add.assoc)
  qed
  then show ?thesis by (simp add: read_bytes_def)
qed

lemma user_bytes_append:
  assumes "n0 < len \<Longrightarrow> unat d' = unat d + n0" "n0 + n \<le> len"
  shows "map (\<lambda>i. umem m r (d + of_nat i)) [0..<n0] @ map (\<lambda>i. umem m r (d' + of_nat i)) [0..<n]
    = map (\<lambda>i. umem m r (d + of_nat i)) [0..<n0 + n]"
proof (cases "n = 0")
  case False
  then have "of_nat (unat d') = (of_nat (unat d + n0) :: u64)" using assms by simp
  then have "d' = d + of_nat n0" by simp
  then show ?thesis by (intro nth_equalityI) (auto simp: nth_append add.assoc simp flip: of_nat_add)
qed simp

lemma copyin_loop_ok:
  assumes "pt_ok (mem s) r" "unat d + len \<le> 2 ^ 38" "len \<le> k"
  shows "\<exists>n bs. copyin_loop k r d len s = Ret ((if n = len then 0 else -1, bs), s) \<and>
    mapped_upto (mem s) r d len n \<and> map Some bs = map (\<lambda>i. umem (mem s) r (d + of_nat i)) [0..<n]"
  using assms(2,3)
proof (induction k arbitrary: d len)
  case 0
  then show ?case by (intro exI [of _ 0] exI [of _ "[]"]) (simp add: kM_simps mapped_upto_def)
next
  case (Suc k)
  show ?case
  proof (cases "len = 0")
    case True
    then show ?thesis by (intro exI [of _ 0] exI [of _ "[]"]) (simp add: kM_simps mapped_upto_def)
  next
    case False
    have lt: "unat d < 2 ^ 38" using Suc.prems(1) False by linarith
    note pa = page_arith [OF lt]
    show ?thesis
    proof (cases "upage (mem s) r d")
      case None
      then have "copyin_loop (Suc k) r d len s = Ret ((-1, []), s)"
        using False by (simp add: kM_simps Let_def walkaddr_eq [OF assms(1)] pa(5))
      then show ?thesis using None False
        by (intro exI [of _ 0] exI [of _ "[]"]) (simp add: mapped_upto_def del: copyin_loop.simps)
    next
      case (Some p)
      define n0 where "n0 = min (4096 - unat d mod 4096) len"
      define d' where "d' = PGROUNDDOWN d + PGSIZE"
      define bs0 where "bs0 = read_bytes (mem s) (p + of_nat (unat d mod 4096)) n0"
      have len: "0 < len" using False by simp
      note mp = mapped_page [OF Some Suc.prems(1) n0_def len d'_def]
      have p0: "p \<noteq> 0" using Some by (auto simp: upage_def Let_def split: if_splits)
      have run: "copyin_loop (Suc k) r d len s
          = bind (copyin_loop k r d' (len - n0)) (\<lambda>q. return (fst q, bs0 @ snd q)) s"
        using False p0 by (simp add: kM_simps Let_def walkaddr_eq [OF assms(1)] pa Some n0_def d'_def bs0_def)
      have "len - n0 \<le> k" using mp(5) Suc.prems(2) by simp
      from Suc.IH [OF mp(3) this] obtain n bs where ih:
        "copyin_loop k r d' (len - n0) s = Ret ((if n = len - n0 then 0 else -1, bs), s)"
        "mapped_upto (mem s) r d' (len - n0) n" "map Some bs = map (\<lambda>i. umem (mem s) r (d' + of_nat i)) [0..<n]"
        by blast
      have mu: "mapped_upto (mem s) r d len (n0 + n)" by (rule mp(1) [OF ih(2)])
      have "unat d + n0 \<le> 2 ^ 38" using Suc.prems(1) mp(6) by simp
      from read_user [OF Some mp(4) this] have "map Some (bs0 @ bs) = map (\<lambda>i. umem (mem s) r (d + of_nat i)) [0..<n0 + n]"
        using ih(3) user_bytes_append [of n0 len d' d n "mem s" r] mp(2) mu by (simp add: bs0_def mapped_upto_def)
      moreover have "(n = len - n0) = (n0 + n = len)" using mp(6) by auto
      ultimately show ?thesis using ih(1) mu
        by (intro exI [of _ "n0 + n"] exI [of _ "bs0 @ bs"]) (simp add: run kM_simps del: copyin_loop.simps)
    qed
  qed
qed


section \<open>Properties\<close>

lemma round_last:
  assumes "sz \<noteq> 0" "unat va + unat sz \<le> 2 ^ 38"
  defines "n \<equiv> pgno (va + sz - 1) - pgno va"
  shows "PGROUNDDOWN (va + sz - 1) = PGROUNDDOWN va + of_nat (4096 * n)" "pgno (va + sz - 1) = pgno va + n"
    "unat (PGROUNDDOWN va) + 4096 * n < 2 ^ 38"
    "unat (PGROUNDDOWN (va + sz - 1) - PGROUNDDOWN va) div 4096 = n"
proof -
  have sz: "0 < unat sz" using assms(1) by (simp add: unat_gt_0)
  have "unat (va + of_nat (unat sz - 1)) = unat va + (unat sz - 1)"
    using assms(2) sz by (intro unat_add_of_nat) simp
  moreover have "va + of_nat (unat sz - 1) = va + sz - 1" using sz by (simp add: Suc_le_eq)
  ultimately have u: "unat (va + sz - 1) = unat va + (unat sz - 1)" by (simp only:)
  then have "pgno va \<le> pgno (va + sz - 1)" by (simp add: pgno_def div_le_mono)
  then show p: "pgno (va + sz - 1) = pgno va + n" by (simp add: n_def)
  have r: "unat (PGROUNDDOWN (va + sz - 1)) = unat (PGROUNDDOWN va) + 4096 * n"
    using p by (simp add: unat_PGROUNDDOWN pgno_def)
  then have "of_nat (unat (PGROUNDDOWN (va + sz - 1))) = (of_nat (unat (PGROUNDDOWN va) + 4096 * n) :: u64)" by simp
  then show e: "PGROUNDDOWN (va + sz - 1) = PGROUNDDOWN va + of_nat (4096 * n)" by simp
  have "unat (PGROUNDDOWN (va + sz - 1)) \<le> unat (va + sz - 1)" by (simp add: unat_PGROUNDDOWN)
  then show lt: "unat (PGROUNDDOWN va) + 4096 * n < 2 ^ 38" using r u assms(2) sz by linarith
  have "unat (of_nat (4096 * n) :: u64) = 4096 * n" using lt by (simp only: unat_of_nat) simp
  then show "unat (PGROUNDDOWN (va + sz - 1) - PGROUNDDOWN va) div 4096 = n" by (simp add: e)
qed

text \<open>C19. \<open>mappages\<close> maps exactly the pages of a range. Let the page table and the free list be
  well-formed and the \<open>n\<close> pages that contain \<open>va .. va + sz - 1\<close> be below \<open>MAXVA\<close> and
  not mapped yet. Then the call returns, keeps both well-formed, maps the first \<open>j\<close> pages of the range to
  the physical pages from \<open>pa\<close> on with the permissions and the valid bit, and changes no other entry
  and no byte outside of the tables. The result is 0 exactly when \<open>j\<close> is \<open>n\<close>; otherwise it is -1 and the free
  list is empty.\<close>

theorem mappages_maps_range:
  assumes "vm_inv s r ps" "sz \<noteq> 0" "unat va + unat sz \<le> 2 ^ 38" "n = pgno (va + sz - 1) - pgno va + 1"
    "\<And>a. a < MAXVA \<Longrightarrow> pgno va \<le> pgno a \<Longrightarrow> pgno a < pgno va + n \<Longrightarrow> pte_at (mem s) r a AND PTE_V = 0"
  shows "\<exists>j s' ps'. mappages r va sz pa perm s = Ret (if j = n then 0 else -1, s') \<and> j \<le> n \<and> vm_inv s' r ps' \<and>
    (\<forall>a < MAXVA. pte_at (mem s') r a =
      (if pgno va \<le> pgno a \<and> pgno a < pgno va + j
       then PA2PTE (pa + of_nat (4096 * (pgno a - pgno va))) OR perm OR PTE_V else pte_at (mem s) r a)) \<and>
    (\<forall>x. (\<forall>t \<in> tables (pt_words (mem s')) r. \<not> in_range t 4096 x) \<longrightarrow> mem s' x = mem s x) \<and>
    (if j = n then length ps \<le> length ps' + 2 * n else ps' = [] \<and> length ps < 2 * n)"
proof -
  define k where "k = pgno (va + sz - 1) - pgno va"
  have n: "n = Suc k" using assms(4) by (simp add: k_def)
  note rl = round_last [OF assms(2,3), folded k_def]
  have pg: "pgno (PGROUNDDOWN va) = pgno va" by (simp add: pgno_def unat_PGROUNDDOWN)
  have al: "PGROUNDDOWN va mod PGSIZE = 0" unfolding aligned_unat by (simp add: unat_PGROUNDDOWN)
  have un: "\<not> bit (pte_at (mem s) r a) 0"
    if "a < MAXVA" "pgno (PGROUNDDOWN va) \<le> pgno a" "pgno a \<le> pgno (PGROUNDDOWN va) + k" for a
    using assms(5) [OF that(1)] that(2,3) by (simp add: pg n bit_PTE_V)
  from mappages_loop_ok [OF assms(1) al rl(3,1) un, of pa perm] obtain j s' ps' q where ok:
    "mappages_loop (Suc k) r (PGROUNDDOWN va) (PGROUNDDOWN (va + sz - 1)) pa perm s = Ret (if j = Suc k then 0 else -1, s')"
    "pt_more r q s ps s' ps'" "maps_pages (mem s) r (PGROUNDDOWN va) j pa perm (mem s')"
    "if j = Suc k then q \<le> 2 * Suc k else j < Suc k \<and> ps' = [] \<and> q < 2 * Suc k"
    by blast
  have run: "mappages r va sz pa perm s = Ret (if j = n then 0 else -1, s')"
    using assms(2) ok(1) by (simp add: mappages_def Let_def rl(4) n del: mappages_loop.simps)
  have len: "length ps = q + length ps'" using ok(2) by (auto simp: pt_more_def)
  show ?thesis
    using run ok(2-4) len
    by (intro exI [of _ j] exI [of _ s'] exI [of _ ps']) (auto simp: n maps_pages_def pg pt_more_def split: if_splits)
qed


text \<open>States to evaluate the property in: one hart, no lock held, a page table at \<open>0x87FF1000\<close>.\<close>

definition quiet_vm :: "mem \<Rightarrow> u64 \<Rightarrow> vmstate" where
  "quiet_vm m fl = \<lparr>tp = 0, sstatus = (\<lambda>_. 0), cpus = (\<lambda>_. \<lparr>cproc = None, noff = 0, intena = False\<rparr>),
     lks = (\<lambda>_. \<lparr>locked = False, lname = [], lcpu = None\<rparr>), mem = m, freelist = fl, kend = 0x87FF0000,
     kernel_pagetable = 0, satp = (\<lambda>_. 0), etext = 0, trampoline = 0\<rparr>"

lemma quiet_vm_ok [simp]: "kmem_ready (quiet_vm m fl)" "mem (quiet_vm m fl) = m" "freelist (quiet_vm m fl) = fl"
  "kend (quiet_vm m fl) = 0x87FF0000"
  by (simp_all add: quiet_vm_def kmem_ready_def hart_ok_def lock_free_def hart_defs)

definition two_pages :: mem where
  "two_pages = store64 0x87FFF000 0x87FFE000 (\<lambda>_. 0)"

lemma pt_words_zeros: "pt_words (\<lambda>_. 0) t = (\<lambda>_. 0)"
  by (rule ext) (simp add: pt_words_def load64_zero)

lemma pt_words_two: "pt_words two_pages = (\<lambda>_ _. 0)(0x87FFF000 := (\<lambda>_. 0)(0 := 0x87FFE000))"
  using pt_words_store [where t = "0x87FFF000" and i = 0 and v = "0x87FFE000" and m = "\<lambda>_. 0"]
  by (simp add: two_pages_def PGSIZE_def pt_words_zeros fun_eq_iff)

lemma two_pages_ok: "vm_inv (quiet_vm two_pages 0x87FFF000) 0x87FF1000 [0x87FFF000, 0x87FFE000]"
    "pte_at two_pages 0x87FF1000 a = 0"
proof -
  have l: "load64 two_pages 0x87FFF000 = 0x87FFE000" "load64 two_pages 0x87FFE000 = 0"
    using arg_cong [OF pt_words_two, of "\<lambda>w. w 0x87FFF000 0"] arg_cong [OF pt_words_two, of "\<lambda>w. w 0x87FFE000 0"]
    by (simp_all add: pt_words_def PGSIZE_def)
  have v: "\<not> vld (pt_words two_pages) 0x87FF1000 i" for i by (simp add: vld_def pt_words_two)
  then have t: "tables (pt_words two_pages) 0x87FF1000 = {0x87FF1000}" "tree_ok (pt_words two_pages) 0x87FF1000"
    by (simp_all add: tables_def tree_ok_def path_ok_def)
  show "vm_inv (quiet_vm two_pages 0x87FFF000) 0x87FF1000 [0x87FFF000, 0x87FFE000]"
    using t by (simp add: vm_inv_def pt_ok_def kmem_inv_def page_ok_def l PGSIZE_def PHYSTOP_def KERNBASE_def)
  show "pte_at two_pages 0x87FF1000 a = 0" using v by (simp add: pte_at_def pt_word_def path_ok_def)
qed

theorem mappages_maps_range_witness:
  "\<exists>s'. mappages 0x87FF1000 0x3000 1 0x87FFD000 PTE_R (quiet_vm two_pages 0x87FFF000) = Ret (0, s') \<and>
    pte_at (mem s') 0x87FF1000 0x3008 = PA2PTE 0x87FFD000 OR PTE_R OR PTE_V \<and> pte_at (mem s') 0x87FF1000 0x4000 = 0"
proof -
  have n: "Suc 0 = pgno ((0x3000::u64) + 1 - 1) - pgno 0x3000 + 1" by simp
  have "\<exists>j s' ps'. mappages 0x87FF1000 0x3000 1 0x87FFD000 PTE_R (quiet_vm two_pages 0x87FFF000) = Ret (if j = Suc 0 then 0 else -1, s')
    \<and> j \<le> Suc 0 \<and> vm_inv s' 0x87FF1000 ps' \<and>
    (\<forall>a < MAXVA. pte_at (mem s') 0x87FF1000 a =
      (if pgno 0x3000 \<le> pgno a \<and> pgno a < pgno 0x3000 + j
       then PA2PTE (0x87FFD000 + of_nat (4096 * (pgno a - pgno 0x3000))) OR PTE_R OR PTE_V
       else pte_at (mem (quiet_vm two_pages 0x87FFF000)) 0x87FF1000 a)) \<and>
    (\<forall>x. (\<forall>t \<in> tables (pt_words (mem s')) 0x87FF1000. \<not> in_range t 4096 x) \<longrightarrow> mem s' x = mem (quiet_vm two_pages 0x87FFF000) x) \<and>
    (if j = Suc 0 then length [0x87FFF000::u64, 0x87FFE000] \<le> length ps' + 2 * Suc 0
     else ps' = [] \<and> length [0x87FFF000::u64, 0x87FFE000] < 2 * Suc 0)"
    by (rule mappages_maps_range [OF two_pages_ok(1) _ _ n]) (simp_all add: two_pages_ok(2))
  then obtain j s' where j: "mappages 0x87FF1000 0x3000 1 0x87FFD000 PTE_R (quiet_vm two_pages 0x87FFF000)
      = Ret (if j = Suc 0 then 0 else -1, s')" "j = Suc 0"
    "\<forall>a < MAXVA. pte_at (mem s') 0x87FF1000 a =
      (if pgno 0x3000 \<le> pgno a \<and> pgno a < pgno 0x3000 + j
       then PA2PTE (0x87FFD000 + of_nat (4096 * (pgno a - pgno 0x3000))) OR PTE_R OR PTE_V
       else pte_at (mem (quiet_vm two_pages 0x87FFF000)) 0x87FF1000 a)"
    by (elim exE conjE) (simp split: if_splits)
  then show ?thesis by (simp add: pgno_def MAXVA_def two_pages_ok(2))
qed


text \<open>C20. \<open>copyout\<close> writes user memory and nothing else of it. For a page table whose user pages are
  apart from each other and from the tables, and a range below \<open>MAXVA\<close>, the call returns; with \<open>n\<close>
  the number of bytes of the range up to the first unmapped page, the user memory afterwards is the one before with the
  first \<open>n\<close> bytes of \<open>src\<close> at \<open>dstva\<close>, the translation of every address and every byte outside of the user's pages are
  unchanged, and the result is 0 exactly when the whole range is mapped and -1 otherwise.\<close>

theorem copyout_writes_user_memory:
  assumes "user_ok (mem s) r" "unat dstva + length src \<le> 2 ^ 38"
  shows "\<exists>n m'. copyout r dstva src s = Ret (if n = length src then 0 else -1, s\<lparr>mem := m'\<rparr>) \<and>
    mapped_upto (mem s) r dstva (length src) n \<and> user_ok m' r \<and> (\<forall>a. upage m' r a = upage (mem s) r a) \<and>
    umem m' r = overlay dstva (take n src) (umem (mem s) r) \<and> (\<forall>x. not_user (mem s) r x \<longrightarrow> m' x = mem s x)"
  unfolding copyout_def by (rule copyout_loop_ok [OF assms order_refl])

text \<open>A user page table with the page \<open>0x1000\<close> mapped at the physical page \<open>0x87FF4000\<close>.\<close>

definition user_mem :: mem where
  "user_mem = store64 0x87FF1000 (PA2PTE 0x87FF2000 OR PTE_V) (store64 0x87FF2000 (PA2PTE 0x87FF3000 OR PTE_V)
     (store64 0x87FF3008 (PA2PTE 0x87FF4000 OR (PTE_R OR PTE_W OR PTE_U OR PTE_V)) (\<lambda>_. 0)))"

lemma user_mem_words: "pt_words user_mem =
    (\<lambda>_ _. 0)(0x87FF3000 := (\<lambda>_. 0)(1 := PA2PTE 0x87FF4000 OR (PTE_R OR PTE_W OR PTE_U OR PTE_V)),
      0x87FF2000 := (\<lambda>_. 0)(0 := PA2PTE 0x87FF3000 OR PTE_V), 0x87FF1000 := (\<lambda>_. 0)(0 := PA2PTE 0x87FF2000 OR PTE_V))"
proof -
  have st: "pt_words (store64 0x87FF1000 v m) = (pt_words m)(0x87FF1000 := (pt_words m 0x87FF1000)(0 := v))"
    "pt_words (store64 0x87FF2000 v m) = (pt_words m)(0x87FF2000 := (pt_words m 0x87FF2000)(0 := v))"
    "pt_words (store64 0x87FF3008 v m) = (pt_words m)(0x87FF3000 := (pt_words m 0x87FF3000)(1 := v))" for v m
    using pt_words_store [where t = "0x87FF1000" and i = 0 and v = v and m = m]
      pt_words_store [where t = "0x87FF2000" and i = 0 and v = v and m = m]
      pt_words_store [where t = "0x87FF3000" and i = 1 and v = v and m = m]
    by (simp_all add: PGSIZE_def)
  show ?thesis unfolding user_mem_def st by (simp add: pt_words_zeros fun_eq_iff)
qed

lemma user_mem_ok:
  "user_ok user_mem 0x87FF1000" "upage user_mem 0x87FF1000 a = (if pgno a = 1 then Some 0x87FF4000 else None)"
  "tables (pt_words user_mem) 0x87FF1000 = {0x87FF1000, 0x87FF2000, 0x87FF3000}"
proof -
  let ?w = "pt_words user_mem" and ?r = "0x87FF1000 :: u64"
  have e: "PTE2PA (PA2PTE 0x87FF2000 OR PTE_V) = 0x87FF2000" "PTE2PA (PA2PTE 0x87FF3000 OR PTE_V) = 0x87FF3000"
    "PTE2PA (PA2PTE 0x87FF4000 OR (PTE_R OR PTE_W OR PTE_U OR PTE_V)) = 0x87FF4000"
    by (simp_all add: PTE2PA_def PA2PTE_def PTE_V_def PTE_R_def PTE_W_def PTE_U_def)
  have b: "bit (PA2PTE p OR PTE_V) 0" for p by (simp add: PTE_V_def bit_or_iff)
  have v: "vld ?w ?r a \<longleftrightarrow> a = 0" for a using b by (auto simp: vld_def user_mem_words)
  have n: "next_tbl ?w ?r 0 = 0x87FF2000" by (simp add: next_tbl_def user_mem_words e)
  have v2: "vld ?w 0x87FF2000 a \<longleftrightarrow> a = 0" for a using b by (auto simp: vld_def user_mem_words)
  have p: "path_ok ?w ?r a b \<longleftrightarrow> a = 0 \<and> b = 0" for a b by (auto simp: path_ok_def v n v2)
  have l: "leaf_table ?w ?r 0 0 = 0x87FF3000" by (simp add: leaf_table_def n) (simp add: next_tbl_def user_mem_words e)
  show t: "tables ?w ?r = {0x87FF1000, 0x87FF2000, 0x87FF3000}" unfolding tables_def by (auto simp: v n p l)
  have ok: "pt_ok user_mem ?r" unfolding pt_ok_def tree_ok_def by (simp add: t v n p l PGSIZE_def)
  let ?e = "PA2PTE 0x87FF4000 OR (PTE_R OR PTE_W OR PTE_U OR PTE_V)"
  have pte: "pte_at user_mem ?r a = (if pgno a = 1 then ?e else 0)" if "a < MAXVA" for a
  proof -
    have i: "pt_index 2 0x1000 = 0" "pt_index 1 0x1000 = 0" "pt_index 0 0x1000 = 1" "pgno 0x1000 = 1" "(0x1000::u64) < MAXVA"
      by (simp_all add: pt_index_eq pgno_def MAXVA_def)
    have "pt_index 2 a = 0 \<and> pt_index 1 a = 0 \<and> pt_index 0 a = 1 \<longleftrightarrow> pgno a = 1"
      using pt_index_pgno [OF that i(5)] i by simp
    then show ?thesis by (auto simp: pte_at_def pt_word_def p l) (simp_all add: user_mem_words)
  qed
  have be: "bit ?e 0" "bit ?e 4" by (simp_all add: PTE_V_def PTE_U_def bit_or_iff bit_simps)
  show up: "upage user_mem ?r a = (if pgno a = 1 then Some 0x87FF4000 else None)" for a
    using pte [of a] be by (cases "pgno a = 1") (simp_all add: upage_def Let_def e pgno_MAXVA PTE2PA_def [of 0])
  show "user_ok user_mem ?r" using ok by (simp add: user_ok_def up t)
qed

theorem copyout_writes_user_memory_witness:
  "\<exists>m'. copyout 0x87FF1000 0x1010 [1, 2] (quiet_vm user_mem 0) = Ret (0, quiet_vm user_mem 0\<lparr>mem := m'\<rparr>) \<and>
    umem m' 0x87FF1000 0x1011 = Some 2"
proof -
  have ok: "user_ok (mem (quiet_vm user_mem 0)) 0x87FF1000" by (simp add: user_mem_ok)
  have le: "unat (0x1010::u64) + length [1, 2 :: u8] \<le> 2 ^ 38" by simp
  from copyout_writes_user_memory [OF ok le] obtain n m' where n:
    "copyout 0x87FF1000 0x1010 [1, 2] (quiet_vm user_mem 0) = Ret (if n = length [1, 2 :: u8] then 0 else -1, quiet_vm user_mem 0\<lparr>mem := m'\<rparr>)"
    "mapped_upto user_mem 0x87FF1000 0x1010 (length [1, 2 :: u8]) n" "umem m' 0x87FF1000 = overlay 0x1010 (take n [1, 2]) (umem user_mem 0x87FF1000)"
    by (elim exE conjE) (rule that; simp)
  have "n = 2"
  proof (rule ccontr)
    assume "n \<noteq> 2"
    then have "n = 0 \<or> n = 1" "upage user_mem 0x87FF1000 (0x1010 + of_nat n) = None" using n(2) by (auto simp: mapped_upto_def)
    then show False by (auto simp: user_mem_ok pgno_def)
  qed
  then show ?thesis using n by (intro exI [of _ m']) (simp add: overlay_def)
qed

text \<open>C21. What \<open>copyout\<close> has written, \<open>copyin\<close> reads back. \<open>copyin\<close> never changes the state; it returns
  the bytes that the user page table shows from \<open>srcva\<close> on, up to the first unmapped page, with the result 0
  exactly when the whole range is mapped; and after a \<open>copyout\<close> of \<open>src\<close> that returned 0, \<open>copyin\<close> of the same
  range returns \<open>src\<close>.\<close>

theorem copyin_copyout:
  assumes "user_ok (mem s) r" "unat a + len \<le> 2 ^ 38"
  shows "(\<exists>n bs. copyin r a len s = Ret ((if n = len then 0 else -1, bs), s) \<and>
      mapped_upto (mem s) r a len n \<and> map Some bs = map (\<lambda>i. umem (mem s) r (a + of_nat i)) [0..<n]) \<and>
    (\<forall>src s'. length src = len \<longrightarrow> copyout r a src s = Ret (0, s') \<longrightarrow> copyin r a len s' = Ret ((0, src), s'))"
proof -
  have rd: "\<exists>n bs. copyin r a len s = Ret ((if n = len then 0 else -1, bs), s) \<and>
      mapped_upto (mem s) r a len n \<and> map Some bs = map (\<lambda>i. umem (mem s) r (a + of_nat i)) [0..<n]"
    if "user_ok (mem s) r" for s :: "'a vmstate_scheme"
    unfolding copyin_def using that by (intro copyin_loop_ok [OF _ assms(2) order_refl]) (simp add: user_ok_def)
  have "copyin r a len s' = Ret ((0, src), s')" if src: "length src = len" "copyout r a src s = Ret (0, s')" for src s'
  proof -
    have "unat a + length src \<le> 2 ^ 38" "length src \<le> length src" using assms(2) src(1) by simp_all
    from copyout_loop_ok [OF assms(1) this] src(2) obtain m' where m:
        "s' = s\<lparr>mem := m'\<rparr>" "mapped_upto (mem s) r a len len" "user_ok m' r" "\<And>a. upage m' r a = upage (mem s) r a"
        "umem m' r = overlay a src (umem (mem s) r)"
      unfolding copyout_def src(1) [symmetric] by (auto split: if_splits)
    have "user_ok (mem s') r" using m(1,3) by simp
    from rd [OF this] obtain n bs where n: "copyin r a len s' = Ret ((if n = len then 0 else -1, bs), s')"
      "mapped_upto m' r a len n" "map Some bs = map (\<lambda>i. umem m' r (a + of_nat i)) [0..<n]" using m(1) by auto
    have "n = len" using n(2) m(2) unfolding mapped_upto_def m(4) by (metis le_neq_implies_less)
    moreover have "umem m' r (a + of_nat i) = Some (src ! i)" if "i < len" for i
    proof -
      have "unat (a + of_nat i) = unat a + i" using that assms(2) by (intro unat_add_of_nat) simp
      then show ?thesis using that src(1) by (simp add: m(5) overlay_def)
    qed
    ultimately have "map Some bs = map Some src" using n(3) src(1) by (auto intro!: nth_equalityI)
    then have "bs = src" by (simp add: inj_map_eq_map)
    then show ?thesis using n(1) \<open>n = len\<close> by simp
  qed
  then show ?thesis using rd [OF assms(1)] by blast
qed

theorem copyin_copyout_witness:
  "copyin 0x87FF1000 0x1FFE 1 (quiet_vm user_mem 0) = Ret ((0, [0]), quiet_vm user_mem 0)"
proof -
  have ok: "user_ok (mem (quiet_vm user_mem 0)) 0x87FF1000" by (simp add: user_mem_ok)
  have le: "unat (0x1FFE::u64) + 1 \<le> 2 ^ 38" by simp
  from copyin_copyout [OF ok le] obtain n bs where n:
    "copyin 0x87FF1000 0x1FFE 1 (quiet_vm user_mem 0) = Ret ((if n = 1 then 0 else -1, bs), quiet_vm user_mem 0)"
    "mapped_upto user_mem 0x87FF1000 0x1FFE 1 n" "map Some bs = map (\<lambda>i. umem user_mem 0x87FF1000 (0x1FFE + of_nat i)) [0..<n]"
    by auto
  have "n = 1"
  proof (rule ccontr)
    assume "n \<noteq> 1"
    then have "upage user_mem 0x87FF1000 0x1FFE = None" using n(2) by (auto simp: mapped_upto_def)
    then show False by (simp add: user_mem_ok pgno_def)
  qed
  moreover have "user_mem 0x87FF4FFE = 0" by (simp add: user_mem_def store64_def upt_conv_Cons)
  ultimately show ?thesis using n by (auto simp: umem_def user_mem_ok pgno_def map_eq_Cons_conv)
qed


end
