(* ===== verification/Alarm.thy ===== *)
theory Alarm
  imports Trap Pagetable
begin

text \<open>
  The alarm of a process: \<^verbatim>\<open>sigalarm()\<close>, the tick that enters the handler
  (\<^verbatim>\<open>usertrap()\<close> in \<^verbatim>\<open>kernel/trap.c\<close>) and \<^verbatim>\<open>sigreturn()\<close>
  (\<^verbatim>\<open>kernel/sysproc.c\<close>).
\<close>

section \<open>The state in which the running process calls the allocator\<close>

definition running :: "nat \<Rightarrow> 'z pstate_scheme \<Rightarrow> bool" where
  "running p s \<longleftrightarrow> kmem_ready s \<and> cproc (mycpu s) = Some p"

lemma running_upd [simp]:
  "running p (settle s) = running p s" "running p (s\<lparr>mem := m\<rparr>) = running p s"
  "running p (s\<lparr>freelist := a\<rparr>) = running p s" "running p (upd_proc q f s) = running p s"
  "running p (s\<lparr>proc := f'\<rparr>) = running p s"
  by (simp add: running_def, simp_all add: running_def kmem_ready_def upd_proc_def hart_defs)

lemma running_on_me: "running p s \<Longrightarrow> on_me f s = f p (settle s)"
  by (simp add: running_def kmem_ready_def on_me_def bind_def myproc_eq with_ptr_def)

lemma running_ready: "running p s \<Longrightarrow> kmem_ready s" "running p s \<Longrightarrow> hart_ok s"
  "running p s \<Longrightarrow> lock_free KMem s"
  by (simp_all add: running_def kmem_ready_def)

section \<open>Moving a page\<close>

lemma unat_4096 [simp]: "unat (4096 :: u32) = 4096"
  by simp


lemma page_ok_upd [simp]:
  "page_ok (settle s) a = page_ok s a" "page_ok (s\<lparr>mem := m\<rparr>) a = page_ok s a"
  "page_ok (s\<lparr>freelist := b\<rparr>) a = page_ok s a" "page_ok (upd_proc q f s) a = page_ok s a"
  by (simp_all add: page_ok_def upd_proc_def)




section \<open>The tick and the return\<close>

lemma upd_proc_kmem [simp]:
  "mem (upd_proc p f s) = mem s" "freelist (upd_proc p f s) = freelist s" "kend (upd_proc p f s) = kend s"
  "kmem_inv (upd_proc p f s) ps = kmem_inv s ps" "kmem_inv (s\<lparr>proc := f'\<rparr>) ps = kmem_inv s ps"
  by (simp_all add: upd_proc_def kmem_inv_def page_ok_def)


lemma sys_sigreturn_eq:
  assumes "running p s" "page_ok s pg" "p_sigalarm_tf (proc s p) = pg" "pg \<noteq> 0"
  shows "sys_sigreturn s =
    (let m = store64 pg (freelist s) (memset pg 1 4096 (memmove (p_trapframe (proc s p)) pg 4096 (mem s)))
     in Ret (load64 m (p_trapframe (proc s p) + tf_a0),
       settle (upd_proc p (\<lambda>r. r\<lparr>p_ticks_left := p_interval r\<rparr>) (s\<lparr>mem := m, freelist := pg\<rparr>))))"
proof -
  have "\<not> pg < kend s" "\<not> PHYSTOP \<le> pg" "pg mod PGSIZE = 0"
    using assms(2) by (auto simp: page_ok_def)
  with assms show ?thesis
    by (simp add: sys_sigreturn_def running_on_me kM_simps kfree_eq running_ready tf_get_def Let_def upd_proc_def)
qed


section \<open>The handler runs in between\<close>









text \<open>A process whose alarm is due, with one page on the free list.\<close>

definition alarm_due :: pstate where
  "alarm_due = (quiet_pstate ((\<lambda>_. blank_proc)(1 := blank_proc\<lparr>p_interval := 2, p_ticks_left := 1,
      p_sig_handler := 0x40, p_trapframe := 0x87FFE000, p_sigalarm_tf := 0x87FFD000\<rparr>)) (Some 1))
    \<lparr>freelist := 0x87FFF000\<rparr>"

lemma alarm_due_ok:
  "running 1 alarm_due" "kmem_inv alarm_due [0x87FFF000]" "page_ok alarm_due 0x87FFE000"
  "page_ok alarm_due 0x87FFD000" "p_trapframe (proc alarm_due 1) = 0x87FFE000"
  "p_interval (proc alarm_due 1) = 2" "p_ticks_left (proc alarm_due 1) = 1"
  "p_sig_handler (proc alarm_due 1) = 0x40" "p_sigalarm_tf (proc alarm_due 1) = 0x87FFD000"
  by (simp_all add: alarm_due_def running_def kmem_ready_def kmem_inv_def page_ok_def quiet_pstate_def
      hart_ok_def lock_free_def hart_defs load64_zero PGSIZE_def PHYSTOP_def KERNBASE_def)


text \<open>C23. A second \<^verbatim>\<open>sigreturn()\<close> without an alarm in between frees the saved page again:
  \<^verbatim>\<open>sigalarm_tf\<close> still points to it. The free list then runs in a circle, and the next two
  calls of \<^verbatim>\<open>kalloc()\<close> hand out the same page twice.\<close>

theorem sigreturn_twice_double_allocates:
  assumes "running p s" and "page_ok s pg" and "p_sigalarm_tf (proc s p) = pg" and "pg \<noteq> 0"
  shows "\<exists>s'. seq sys_sigreturn (seq sys_sigreturn
      (bind kalloc (\<lambda>a. bind kalloc (\<lambda>b. return (a, b))))) s = Ret ((pg, pg), s')"
  using assms
  by (simp add: seq_apply bind_apply sys_sigreturn_eq kalloc_eq running_ready Let_def return_apply)

theorem sigreturn_twice_double_allocates_witness:
  "\<exists>s'. seq sys_sigreturn (seq sys_sigreturn
      (bind kalloc (\<lambda>a. bind kalloc (\<lambda>b. return (a, b))))) alarm_due = Ret ((0x87FFD000, 0x87FFD000), s')"
  by (rule sigreturn_twice_double_allocates [OF alarm_due_ok(1,4,9)]) simp

end
