(* ===== verification/Asm.thy ===== *)
theory Asm
  imports Vm
begin

text \<open>
  The assembly routines of the kernel: \<^verbatim>\<open>trampoline.S\<close>, \<^verbatim>\<open>kernelvec.S\<close>,
  \<^verbatim>\<open>swtch.S\<close> and \<^verbatim>\<open>entry.S\<close>, as lists of the RISC-V instructions they use and
  a machine that runs them. All their memory accesses are to aligned doublewords, so the memory
  is kept by doubleword address. Control leaves a routine at its last instruction, which sets
  \<open>pc\<close>. The accesses of the trampoline go through the page table: \<open>amem\<close> is the memory at
  the virtual addresses that the routine uses, and both page tables map the trap frame there.
\<close>

section \<open>The machine\<close>

datatype reg = RA | SP | GP | TP | T0 | T1 | T2 | S0 | S1 | A0 | A1 | A2 | A3 | A4 | A5 | A6 | A7
  | S2 | S3 | S4 | S5 | S6 | S7 | S8 | S9 | S10 | S11 | T3 | T4 | T5 | T6

datatype csreg = SSCRATCH | SATP | SIP | SEPC | MSCRATCH | MEPC | MHARTID

datatype instr = SD reg u64 reg | LD reg u64 reg | ADDI reg reg u64 | ADD reg reg reg | MUL reg reg reg
  | LI reg u64 | CSRW csreg reg | CSRR reg csreg | CSRRW reg csreg reg | SFENCE | JR reg | SRET | MRET

record machine =
  regs :: "reg \<Rightarrow> u64"
  csregs :: "csreg \<Rightarrow> u64"
  amem :: "u64 \<Rightarrow> u64"
  pc :: u64

primrec instr_step :: "instr \<Rightarrow> machine \<Rightarrow> machine" where
  "instr_step (SD r off b) m = m\<lparr>amem := (amem m)(regs m b + off := regs m r)\<rparr>"
| "instr_step (LD r off b) m = m\<lparr>regs := (regs m)(r := amem m (regs m b + off))\<rparr>"
| "instr_step (ADDI d r i) m = m\<lparr>regs := (regs m)(d := regs m r + i)\<rparr>"
| "instr_step (ADD d r q) m = m\<lparr>regs := (regs m)(d := regs m r + regs m q)\<rparr>"
| "instr_step (MUL d r q) m = m\<lparr>regs := (regs m)(d := regs m r * regs m q)\<rparr>"
| "instr_step (LI d i) m = m\<lparr>regs := (regs m)(d := i)\<rparr>"
| "instr_step (CSRW c r) m = m\<lparr>csregs := (csregs m)(c := regs m r)\<rparr>"
| "instr_step (CSRR d c) m = m\<lparr>regs := (regs m)(d := csregs m c)\<rparr>"
| "instr_step (CSRRW d c r) m = m\<lparr>regs := (regs m)(d := csregs m c), csregs := (csregs m)(c := regs m r)\<rparr>"
| "instr_step SFENCE m = m"
| "instr_step (JR r) m = m\<lparr>pc := regs m r\<rparr>"
| "instr_step SRET m = m\<lparr>pc := csregs m SEPC\<rparr>"
| "instr_step MRET m = m\<lparr>pc := csregs m MEPC\<rparr>"

definition run_code :: "instr list \<Rightarrow> machine \<Rightarrow> machine" where
  "run_code is m = fold instr_step is m"

section \<open>The routines\<close>

definition kernelvec_save :: "instr list" where
  "kernelvec_save = [
    ADDI SP SP (-256), SD RA 0 SP, SD SP 8 SP, SD GP 16 SP, SD TP 24 SP, SD T0 32 SP,
    SD T1 40 SP, SD T2 48 SP, SD S0 56 SP, SD S1 64 SP, SD A0 72 SP, SD A1 80 SP, SD A2 88 SP,
    SD A3 96 SP, SD A4 104 SP, SD A5 112 SP, SD A6 120 SP, SD A7 128 SP, SD S2 136 SP,
    SD S3 144 SP, SD S4 152 SP, SD S5 160 SP, SD S6 168 SP, SD S7 176 SP, SD S8 184 SP,
    SD S9 192 SP, SD S10 200 SP, SD S11 208 SP, SD T3 216 SP, SD T4 224 SP, SD T5 232 SP,
    SD T6 240 SP]"

definition kernelvec_restore :: "instr list" where
  "kernelvec_restore = [
    LD RA 0 SP, LD SP 8 SP, LD GP 16 SP, LD T0 32 SP, LD T1 40 SP, LD T2 48 SP, LD S0 56 SP,
    LD S1 64 SP, LD A0 72 SP, LD A1 80 SP, LD A2 88 SP, LD A3 96 SP, LD A4 104 SP,
    LD A5 112 SP, LD A6 120 SP, LD A7 128 SP, LD S2 136 SP, LD S3 144 SP, LD S4 152 SP,
    LD S5 160 SP, LD S6 168 SP, LD S7 176 SP, LD S8 184 SP, LD S9 192 SP, LD S10 200 SP,
    LD S11 208 SP, LD T3 216 SP, LD T4 224 SP, LD T5 232 SP, LD T6 240 SP, ADDI SP SP 256, SRET]"

definition timervec :: "instr list" where
  "timervec = [
    CSRRW A0 MSCRATCH A0, SD A1 0 A0, SD A2 8 A0, SD A3 16 A0, LD A1 24 A0, LD A2 32 A0,
    LD A3 0 A1, ADD A3 A3 A2, SD A3 0 A1, LI A1 2, CSRW SIP A1, LD A3 16 A0, LD A2 8 A0,
    LD A1 0 A0, CSRRW A0 MSCRATCH A0, MRET]"

definition uservec :: "instr list" where
  "uservec = [
    CSRW SSCRATCH A0, LI A0 TRAPFRAME, SD RA 40 A0, SD SP 48 A0, SD GP 56 A0, SD TP 64 A0,
    SD T0 72 A0, SD T1 80 A0, SD T2 88 A0, SD S0 96 A0, SD S1 104 A0, SD A1 120 A0,
    SD A2 128 A0, SD A3 136 A0, SD A4 144 A0, SD A5 152 A0, SD A6 160 A0, SD A7 168 A0,
    SD S2 176 A0, SD S3 184 A0, SD S4 192 A0, SD S5 200 A0, SD S6 208 A0, SD S7 216 A0,
    SD S8 224 A0, SD S9 232 A0, SD S10 240 A0, SD S11 248 A0, SD T3 256 A0, SD T4 264 A0,
    SD T5 272 A0, SD T6 280 A0, CSRR T0 SSCRATCH, SD T0 112 A0, LD SP 8 A0, LD TP 32 A0,
    LD T0 16 A0, LD T1 0 A0, SFENCE, CSRW SATP T1, SFENCE, JR T0]"

definition userret :: "instr list" where
  "userret = [
    SFENCE, CSRW SATP A0, SFENCE, LI A0 TRAPFRAME, LD RA 40 A0, LD SP 48 A0, LD GP 56 A0,
    LD TP 64 A0, LD T0 72 A0, LD T1 80 A0, LD T2 88 A0, LD S0 96 A0, LD S1 104 A0,
    LD A1 120 A0, LD A2 128 A0, LD A3 136 A0, LD A4 144 A0, LD A5 152 A0, LD A6 160 A0,
    LD A7 168 A0, LD S2 176 A0, LD S3 184 A0, LD S4 192 A0, LD S5 200 A0, LD S6 208 A0,
    LD S7 216 A0, LD S8 224 A0, LD S9 232 A0, LD S10 240 A0, LD S11 248 A0, LD T3 256 A0,
    LD T4 264 A0, LD T5 272 A0, LD T6 280 A0, LD A0 112 A0, SRET]"

definition swtch :: "instr list" where
  "swtch = [
    SD RA 0 A0, SD SP 8 A0, SD S0 16 A0, SD S1 24 A0, SD S2 32 A0, SD S3 40 A0, SD S4 48 A0,
    SD S5 56 A0, SD S6 64 A0, SD S7 72 A0, SD S8 80 A0, SD S9 88 A0, SD S10 96 A0,
    SD S11 104 A0, LD RA 0 A1, LD SP 8 A1, LD S0 16 A1, LD S1 24 A1, LD S2 32 A1, LD S3 40 A1,
    LD S4 48 A1, LD S5 56 A1, LD S6 64 A1, LD S7 72 A1, LD S8 80 A1, LD S9 88 A1, LD S10 96 A1,
    LD S11 104 A1, JR RA]"

definition entry :: "u64 \<Rightarrow> instr list" where
  "entry stack0 = [
    LI SP stack0, LI A0 (1024 * 4), CSRR A1 MHARTID, ADDI A1 A1 1, MUL A0 A0 A1, ADD SP SP A0]"

section \<open>Saving and restoring\<close>

lemma run_code_simps [simp]:
  "run_code [] m = m" "run_code (i # is) m = run_code is (instr_step i m)"
  by (simp_all add: run_code_def)

text \<open>The offsets of the user registers in the trap frame.\<close>

definition saved_offsets :: "u64 list" where
  "saved_offsets = map (\<lambda>i. 8 * of_nat i) [5..<36]"

lemma saved_offsets_eq: "saved_offsets = [40, 48, 56, 64, 72, 80, 88, 96, 104, 112, 120, 128, 136, 144,
   152, 160, 168, 176, 184, 192, 200, 208, 216, 224, 232, 240, 248, 256, 264, 272, 280]"
  by (simp add: saved_offsets_def upt_rec)

definition uservec_saves :: "machine \<Rightarrow> u64 \<Rightarrow> u64" where
  "uservec_saves m off = amem (run_code uservec m) (TRAPFRAME + off)"

lemma uservec_saves_eq:
  "uservec_saves m 40 = regs m RA" "uservec_saves m 48 = regs m SP" "uservec_saves m 56 = regs m GP" "uservec_saves m 64 = regs m TP"
   "uservec_saves m 72 = regs m T0" "uservec_saves m 80 = regs m T1" "uservec_saves m 88 = regs m T2" "uservec_saves m 96 = regs m S0"
   "uservec_saves m 104 = regs m S1" "uservec_saves m 112 = regs m A0" "uservec_saves m 120 = regs m A1" "uservec_saves m 128 = regs m A2"
   "uservec_saves m 136 = regs m A3" "uservec_saves m 144 = regs m A4" "uservec_saves m 152 = regs m A5" "uservec_saves m 160 = regs m A6"
   "uservec_saves m 168 = regs m A7" "uservec_saves m 176 = regs m S2" "uservec_saves m 184 = regs m S3" "uservec_saves m 192 = regs m S4"
   "uservec_saves m 200 = regs m S5" "uservec_saves m 208 = regs m S6" "uservec_saves m 216 = regs m S7" "uservec_saves m 224 = regs m S8"
   "uservec_saves m 232 = regs m S9" "uservec_saves m 240 = regs m S10" "uservec_saves m 248 = regs m S11" "uservec_saves m 256 = regs m T3"
   "uservec_saves m 264 = regs m T4" "uservec_saves m 272 = regs m T5" "uservec_saves m 280 = regs m T6"
  by (simp_all add: uservec_saves_def uservec_def)

lemma saved_values:
  assumes "\<forall>off \<in> set saved_offsets. amem m' (TRAPFRAME + off) = uservec_saves m off"
  shows "map (\<lambda>off. amem m' (TRAPFRAME + off)) saved_offsets = map (uservec_saves m) saved_offsets"
  using assms by simp

lemma userret_restores:
  assumes "map (\<lambda>off. amem m' (TRAPFRAME + off)) saved_offsets = map (uservec_saves m) saved_offsets"
  shows "regs (run_code userret m') r = regs m r"
  using assms by (cases r) (simp_all add: saved_offsets_eq uservec_saves_eq userret_def)

text \<open>C24. A trap from user space and the return to it keep all of the program's registers. If the
  kernel leaves the 31 doublewords of the trap frame that \<open>uservec\<close> has written as they are, then
  \<open>userret\<close> restores every register, whatever the registers held in between; it continues at
  the address in \<^verbatim>\<open>sepc\<close>, with the page table it was given. \<open>uservec\<close> itself enters
  the kernel at the address, with the stack, the hart number and the page table that the trap frame
  holds for it.\<close>

theorem trap_keeps_registers:
  assumes "\<forall>off \<in> set saved_offsets. amem m' (TRAPFRAME + off) = uservec_saves m off"
  shows "regs (run_code userret m') = regs m
    \<and> pc (run_code userret m') = csregs m' SEPC
    \<and> csregs (run_code userret m') SATP = regs m' A0
    \<and> pc (run_code uservec m) = amem m (TRAPFRAME + 16)
    \<and> regs (run_code uservec m) SP = amem m (TRAPFRAME + 8)
    \<and> regs (run_code uservec m) TP = amem m (TRAPFRAME + 32)
    \<and> csregs (run_code uservec m) SATP = amem m TRAPFRAME"
proof -
  have "regs (run_code userret m') = regs m"
    by (rule ext) (rule userret_restores [OF saved_values [OF assms]])
  then show ?thesis by (simp add: userret_def uservec_def)
qed

text \<open>A trap from a program with the value 7 in every register; the kernel then runs with other
  values in them.\<close>

definition busy_machine :: machine where
  "busy_machine = \<lparr>regs = (\<lambda>_. 7), csregs = (\<lambda>_. 0), amem = (\<lambda>_. 0), pc = 0\<rparr>"

theorem trap_keeps_registers_witness:
  "regs (run_code userret ((run_code uservec busy_machine)\<lparr>regs := (\<lambda>_. 9)\<rparr>)) = (\<lambda>_. 7)"
  using trap_keeps_registers [of "(run_code uservec busy_machine)\<lparr>regs := (\<lambda>_. 9)\<rparr>" busy_machine]
  by (simp add: uservec_saves_def busy_machine_def)

section \<open>Switching stacks\<close>

text \<open>The callee-saved registers in the order of \<^verbatim>\<open>struct context\<close>.\<close>

definition callee_saved :: "reg list" where
  "callee_saved = [RA, SP, S0, S1, S2, S3, S4, S5, S6, S7, S8, S9, S10, S11]"

definition ctx_offsets :: "u64 list" where
  "ctx_offsets = [0, 8, 16, 24, 32, 40, 48, 56, 64, 72, 80, 88, 96, 104]"

definition ctx_apart :: "u64 \<Rightarrow> u64 \<Rightarrow> bool" where
  "ctx_apart a b \<longleftrightarrow> (\<forall>i \<in> set ctx_offsets. \<forall>j \<in> set ctx_offsets. a + i \<noteq> b + j)"

lemma run_code_append: "run_code (xs @ ys) m = run_code ys (run_code xs m)"
  by (simp add: run_code_def)

lemma stores_frame:
  assumes "\<forall>i \<in> set is. a \<noteq> regs m b + i" "length rs = length is"
  shows "amem (run_code (map2 (\<lambda>r i. SD r i b) rs is) m) a = amem m a
    \<and> regs (run_code (map2 (\<lambda>r i. SD r i b) rs is) m) = regs m"
  using assms(2,1) by (induction rs "is" arbitrary: m rule: list_induct2) auto

lemma swtch_split:
  "swtch = map2 (\<lambda>r i. SD r i A0) callee_saved ctx_offsets
    @ map2 (\<lambda>r i. LD r i A1) callee_saved ctx_offsets @ [JR RA]"
  by (simp add: swtch_def ctx_offsets_def callee_saved_def)

lemma loads_from_context:
  "map (regs (run_code (map2 (\<lambda>r i. LD r i A1) callee_saved ctx_offsets @ [JR RA]) m)) callee_saved
    = map (\<lambda>i. amem m (regs m A1 + i)) ctx_offsets"
  by (simp add: ctx_offsets_def callee_saved_def)

lemma swtch_saves:
  "map (\<lambda>i. amem (run_code swtch m) (regs m A0 + i)) ctx_offsets = map (regs m) callee_saved"
  by (simp add: swtch_def ctx_offsets_def callee_saved_def)

lemma swtch_loads:
  assumes "ctx_apart (regs m A0) (regs m A1)"
  shows "map (regs (run_code swtch m)) callee_saved = map (\<lambda>i. amem m (regs m A1 + i)) ctx_offsets"
proof -
  define m1 where "m1 = run_code (map2 (\<lambda>r i. SD r i A0) callee_saved ctx_offsets) m"
  have len: "length callee_saved = length ctx_offsets" by (simp add: callee_saved_def ctx_offsets_def)
  have m1: "regs m1 = regs m" "amem m1 (regs m A1 + i) = amem m (regs m A1 + i)" if "i \<in> set ctx_offsets" for i
    using stores_frame [of ctx_offsets "regs m A1 + i" m A0 callee_saved] that assms len
    unfolding m1_def ctx_apart_def by metis+
  have "regs m1 = regs m" using m1(1) [of 0] by (simp add: ctx_offsets_def)
  then show ?thesis
    unfolding swtch_split run_code_append [of "map2 (\<lambda>r i. SD r i A0) callee_saved ctx_offsets"]
      m1_def [symmetric] loads_from_context
    using m1(2) by simp
qed

lemma swtch_pc: "pc (run_code swtch m) = regs (run_code swtch m) RA"
  by (simp add: swtch_def)

text \<open>C25. A thread that gives up the processor continues where it was. After \<open>swtch(old, new)\<close>
  the context \<open>old\<close> holds the callee-saved registers of the thread that called it and the machine
  runs with those of \<open>new\<close>; and when a later \<open>swtch\<close> loads the context \<open>old\<close>,
  which nothing has changed in between, the thread has its callee-saved registers again and
  returns to its caller.\<close>

theorem swtch_resumes_thread:
  assumes "ctx_apart (regs m A0) (regs m A1)"
    and "regs m' A1 = regs m A0" "ctx_apart (regs m' A0) (regs m' A1)"
    and "\<forall>i \<in> set ctx_offsets. amem m' (regs m A0 + i) = amem (run_code swtch m) (regs m A0 + i)"
  shows "map (regs (run_code swtch m)) callee_saved = map (\<lambda>i. amem m (regs m A1 + i)) ctx_offsets
    \<and> map (regs (run_code swtch m')) callee_saved = map (regs m) callee_saved
    \<and> pc (run_code swtch m') = regs m RA"
proof -
  have "map (regs (run_code swtch m')) callee_saved = map (\<lambda>i. amem m' (regs m A0 + i)) ctx_offsets"
    using swtch_loads [OF assms(3)] assms(2) by simp
  also have "\<dots> = map (regs m) callee_saved"
    using assms(4) swtch_saves [of m] by (metis (mono_tags, lifting) map_cong)
  finally have r: "map (regs (run_code swtch m')) callee_saved = map (regs m) callee_saved" .
  then have "regs (run_code swtch m') RA = regs m RA" by (simp add: callee_saved_def)
  then show ?thesis using r swtch_loads [OF assms(1)] swtch_pc by simp
qed

text \<open>A thread with context at address 4096 switches to the scheduler, whose context is at 8192, and
  the scheduler switches back.\<close>

definition thread_machine :: machine where
  "thread_machine = \<lparr>regs = (\<lambda>r. if r = A0 then 4096 else if r = A1 then 8192 else 7), csregs = (\<lambda>_. 0),
     amem = (\<lambda>_. 0), pc = 0\<rparr>"

definition back_machine :: machine where
  "back_machine = (run_code swtch thread_machine)\<lparr>regs := (\<lambda>r. if r = A0 then 8192 else if r = A1 then 4096 else 1)\<rparr>"

theorem swtch_resumes_thread_witness:
  "pc (run_code swtch back_machine) = 7"
proof -
  have "ctx_apart (regs thread_machine A0) (regs thread_machine A1)"
    by (simp add: ctx_apart_def ctx_offsets_def thread_machine_def)
  moreover have "regs back_machine A1 = regs thread_machine A0"
    by (simp add: back_machine_def thread_machine_def)
  moreover have "ctx_apart (regs back_machine A0) (regs back_machine A1)"
    by (simp add: ctx_apart_def ctx_offsets_def back_machine_def)
  moreover have "\<forall>i \<in> set ctx_offsets. amem back_machine (regs thread_machine A0 + i)
      = amem (run_code swtch thread_machine) (regs thread_machine A0 + i)"
    by (simp add: back_machine_def)
  ultimately have "pc (run_code swtch back_machine) = regs thread_machine RA"
    using swtch_resumes_thread by blast
  then show ?thesis by (simp add: thread_machine_def)
qed

section \<open>Traps in the kernel and timer interrupts\<close>

text \<open>The registers that \<open>kernelvec\<close> saves, and their offsets from the new stack pointer.\<close>

definition kernelvec_offsets :: "u64 list" where
  "kernelvec_offsets = [0, 8, 16, 32, 40, 48, 56, 64, 72, 80, 88, 96, 104, 112, 120, 128, 136, 144, 152, 160,
     168, 176, 184, 192, 200, 208, 216, 224, 232, 240]"

definition kernelvec_saves :: "machine \<Rightarrow> u64 \<Rightarrow> u64" where
  "kernelvec_saves m off = amem (run_code kernelvec_save m) (regs m SP - 256 + off)"

lemma kernelvec_saves_eq:
  "kernelvec_saves m 0 = regs m RA" "kernelvec_saves m 8 = regs m SP - 256" "kernelvec_saves m 16 = regs m GP" "kernelvec_saves m 32 = regs m T0"
  "kernelvec_saves m 40 = regs m T1" "kernelvec_saves m 48 = regs m T2" "kernelvec_saves m 56 = regs m S0" "kernelvec_saves m 64 = regs m S1"
  "kernelvec_saves m 72 = regs m A0" "kernelvec_saves m 80 = regs m A1" "kernelvec_saves m 88 = regs m A2" "kernelvec_saves m 96 = regs m A3"
  "kernelvec_saves m 104 = regs m A4" "kernelvec_saves m 112 = regs m A5" "kernelvec_saves m 120 = regs m A6" "kernelvec_saves m 128 = regs m A7"
  "kernelvec_saves m 136 = regs m S2" "kernelvec_saves m 144 = regs m S3" "kernelvec_saves m 152 = regs m S4" "kernelvec_saves m 160 = regs m S5"
  "kernelvec_saves m 168 = regs m S6" "kernelvec_saves m 176 = regs m S7" "kernelvec_saves m 184 = regs m S8" "kernelvec_saves m 192 = regs m S9"
  "kernelvec_saves m 200 = regs m S10" "kernelvec_saves m 208 = regs m S11" "kernelvec_saves m 216 = regs m T3" "kernelvec_saves m 224 = regs m T4"
  "kernelvec_saves m 232 = regs m T5" "kernelvec_saves m 240 = regs m T6"
  by (simp_all add: kernelvec_saves_def kernelvec_save_def)

lemma kernelvec_sp: "regs (run_code kernelvec_save m) SP = regs m SP - 256"
  by (simp add: kernelvec_save_def)

lemma kernelvec_restores:
  assumes "regs m' SP = regs m SP - 256"
    and "map (\<lambda>off. amem m' (regs m' SP + off)) kernelvec_offsets = map (kernelvec_saves m) kernelvec_offsets"
    and "r \<noteq> TP"
  shows "regs (run_code kernelvec_restore m') r = regs m r"
  using assms by (cases r) (simp_all add: kernelvec_offsets_def kernelvec_saves_eq kernelvec_restore_def)

text \<open>C26. An interrupt in the kernel is invisible to the code it interrupts: when the handler leaves
  the stack frame of \<open>kernelvec\<close> alone and returns with the stack pointer it was called with,
  every register but \<^verbatim>\<open>tp\<close> is restored, and \<^verbatim>\<open>tp\<close> is the number of the hart the thread then
  runs on, as the handler returned it. The timer handler \<open>timervec\<close>, in machine mode, leaves all registers and
  \<^verbatim>\<open>mscratch\<close> as they were, moves the next timer interrupt by the interval and raises a
  supervisor software interrupt.\<close>

theorem interrupts_keep_registers:
  assumes "regs m' SP = regs (run_code kernelvec_save m) SP"
    and "\<forall>off \<in> set kernelvec_offsets. amem m' (regs m' SP + off) = kernelvec_saves m off"
    and "cmp = amem t (csregs t MSCRATCH + 24)"
    and "\<forall>off \<in> {0, 8, 16}. cmp \<noteq> csregs t MSCRATCH + off"
  shows "(regs (run_code kernelvec_restore m')) = (regs m)(TP := regs m' TP)
    \<and> regs (run_code timervec t) = regs t
    \<and> csregs (run_code timervec t) MSCRATCH = csregs t MSCRATCH
    \<and> csregs (run_code timervec t) SIP = 2
    \<and> amem (run_code timervec t) cmp = amem t cmp + amem t (csregs t MSCRATCH + 32)"
proof -
  have sp: "regs m' SP = regs m SP - 256" using assms(1) by (simp add: kernelvec_sp)
  have vals: "map (\<lambda>off. amem m' (regs m' SP + off)) kernelvec_offsets = map (kernelvec_saves m) kernelvec_offsets"
    using assms(2) by simp
  have "regs (run_code kernelvec_restore m') r = ((regs m)(TP := regs m' TP)) r" for r
  proof (cases "r = TP")
    case True
    then show ?thesis by (simp add: kernelvec_restore_def)
  next
    case False
    then show ?thesis using kernelvec_restores [OF sp vals] by simp
  qed
  moreover have "regs (run_code timervec t) = regs t"
    using assms(4) by (auto simp: timervec_def assms(3) fun_eq_iff)
  moreover have "csregs (run_code timervec t) MSCRATCH = csregs t MSCRATCH"
    and "csregs (run_code timervec t) SIP = 2"
    and "amem (run_code timervec t) cmp = amem t cmp + amem t (csregs t MSCRATCH + 32)"
    using assms(4) by (simp_all add: timervec_def assms(3))
  ultimately show ?thesis by (simp add: fun_eq_iff)
qed

definition timer_machine :: machine where
  "timer_machine = \<lparr>regs = (\<lambda>_. 7), csregs = (\<lambda>c. if c = MSCRATCH then 4096 else 0),
     amem = (\<lambda>_. 0)(4096 + 24 := 0x2004000, 4096 + 32 := 1000000), pc = 0\<rparr>"

theorem interrupts_keep_registers_witness:
  "regs (run_code kernelvec_restore ((run_code kernelvec_save busy_machine)\<lparr>regs := (\<lambda>_. 9)(SP := 7 - 256)\<rparr>))
     = (\<lambda>_. 7)(TP := 9)
   \<and> amem (run_code timervec timer_machine) 0x2004000 = 1000000"
proof -
  let ?m = "(run_code kernelvec_save busy_machine)\<lparr>regs := (\<lambda>_. 9)(SP := 7 - 256)\<rparr>"
  have "regs ?m SP = regs (run_code kernelvec_save busy_machine) SP"
    by (simp add: kernelvec_sp) (simp add: busy_machine_def)
  moreover have "\<forall>off \<in> set kernelvec_offsets. amem ?m (regs ?m SP + off) = kernelvec_saves busy_machine off"
    by (simp add: kernelvec_saves_def busy_machine_def)
  moreover have "0x2004000 = amem timer_machine (csregs timer_machine MSCRATCH + 24)"
    "\<forall>off \<in> {0, 8, 16}. 0x2004000 \<noteq> csregs timer_machine MSCRATCH + off"
    by (simp_all add: timer_machine_def)
  ultimately show ?thesis
    using interrupts_keep_registers [of ?m busy_machine "0x2004000" timer_machine]
    by (simp add: busy_machine_def timer_machine_def)
qed

lemma entry_stack:
  "regs (run_code (entry stack0) m) SP = stack0 + 4096 * (csregs m MHARTID + 1)"
  by (simp add: entry_def)

end
