(* ===== verification/Reap.thy ===== *)
theory Reap
  imports Pagetable Proc
begin

text \<open>
  Giving back the memory of a process. \<open>uvmunmap\<close>, \<open>freewalk\<close> and \<open>proc_freepagetable\<close> (theories \<open>Vm\<close> and
  \<open>Proc\<close>) return every page of an address space to the free list, the pages of the user first and then the tables;
  \<open>freeproc\<close> returns the trap frame too and resets the slot. \<open>wait\<close> and \<open>waitx\<close> do this for the first zombie
  child, after they have stored its exit status in the memory of the parent.
\<close>

section \<open>Freeing pages\<close>

text \<open>From \<open>s\<close> to \<open>s'\<close> only the free list and the memory of the pages in \<open>T\<close> change; the
  free list is then \<open>ps'\<close>.\<close>

definition frees :: "'z vmstate_scheme \<Rightarrow> u64 set \<Rightarrow> 'z vmstate_scheme \<Rightarrow> u64 list \<Rightarrow> bool" where
  "frees s T s' ps' \<longleftrightarrow> mem_step s s' \<and> kmem_ready s' \<and> kmem_inv s' ps' \<and>
    (\<forall>x. (\<forall>t \<in> T. \<not> in_range t 4096 x) \<longrightarrow> mem s' x = mem s x)"

lemma freesD:
  assumes "frees s T s' ps'"
  shows "mem_step s s'" "kmem_ready s'" "kmem_inv s' ps'" "(\<And>t. t \<in> T \<Longrightarrow> \<not> in_range t 4096 x) \<Longrightarrow> mem s' x = mem s x"
  using assms unfolding frees_def by blast+

lemma frees_mono: "frees s T s' ps' \<Longrightarrow> T \<subseteq> T' \<Longrightarrow> frees s T' s' ps'"
  unfolding frees_def by blast

lemma frees_trans:
  assumes "frees s T s' ps'" "frees s' T s'' ps''"
  shows "frees s T s'' ps''"
  using assms mem_step_trans unfolding frees_def by metis

lemma frees_refl: "kmem_ready s \<Longrightarrow> kmem_inv s ps \<Longrightarrow> frees s T s ps"
  by (simp add: frees_def mem_step_refl)

lemma mem_step_kend: "mem_step s s' \<Longrightarrow> kend s' = kend s"
  unfolding mem_step_def by auto

lemma mem_step_page_ok: "mem_step s s' \<Longrightarrow> page_ok s' a = page_ok s a"
  using mem_step_kend [of s s'] by (simp add: page_ok_def)

lemma frees_kfree:
  fixes s :: "'z vmstate_scheme"
  assumes "kmem_ready s" "kmem_inv s ps" "page_ok s p" "p \<notin> set ps"
  obtains s' where "kfree p s = Ret ((), s')" "frees s {p} s' (p # ps)"
proof -
  obtain m where m: "kfree p s = Ret ((), settle (s\<lparr>freelist := p, mem := m\<rparr>))"
    "kmem_inv (s\<lparr>freelist := p, mem := m\<rparr>) (p # ps)" "\<And>x. \<not> in_range p 4096 x \<Longrightarrow> m x = mem s x"
    using kfree_ok [OF assms] by blast
  moreover have "mem_step s (settle (s\<lparr>freelist := p, mem := m\<rparr>))" unfolding mem_step_def by blast
  moreover have "kmem_ready (settle (s\<lparr>freelist := p, mem := m\<rparr>))" using assms(1) by simp
  ultimately have "frees s {p} (settle (s\<lparr>freelist := p, mem := m\<rparr>)) (p # ps)" by (simp add: frees_def)
  then show ?thesis using m(1) by (rule that [rotated])
qed

text \<open>A store into an aligned page that is not free.\<close>

lemma frees_store:
  fixes s :: "'z vmstate_scheme"
  assumes "kmem_ready s" "kmem_inv s ps" "t mod PGSIZE = 0" "t \<notin> set ps" "i < 512"
  shows "frees s {t} (s\<lparr>mem := store64 (t + 8 * of_nat i) v (mem s)\<rparr>) ps"
proof -
  let ?m = "store64 (t + 8 * of_nat i) v (mem s)"
  have out: "?m x = mem s x" if "\<not> in_range t 4096 x" for x
    using that slot_in_page [OF assms(5)] by (intro store64_out) blast
  have "kmem_inv (s\<lparr>mem := ?m\<rparr>) ps"
  proof (rule kmem_inv_frame [OF assms(2)])
    fix q x assume q: "q \<in> set ps" "in_range q 4096 x"
    have "q mod PGSIZE = 0" "q \<noteq> t" using kmem_inv_page [OF assms(2) q(1)] assms(4) q(1) by (auto simp: page_ok_def)
    then show "mem (s\<lparr>mem := ?m\<rparr>) x = mem s x" using out page_disjoint [OF _ assms(3) q(2)] by auto
  qed simp_all
  moreover have "mem_step s (s\<lparr>mem := ?m\<rparr>)"
    unfolding mem_step_def by (rule exI [of _ "freelist s"], rule exI [of _ ?m]) simp
  ultimately show ?thesis using assms(1) out by (simp add: frees_def)
qed

lemma frees_words:
  assumes "frees s T s' ps'" "t mod PGSIZE = 0" "\<And>q. q \<in> T \<Longrightarrow> q mod PGSIZE = 0" "t \<notin> T"
  shows "pt_words (mem s') t = pt_words (mem s) t"
proof (rule pt_words_frame)
  fix x assume x: "in_range t 4096 x"
  have "\<not> in_range q 4096 x" if "q \<in> T" for q
    using page_disjoint [OF assms(2) assms(3) [OF that] x] that assms(4) by blast
  then show "mem s' x = mem s x" by (rule freesD(4) [OF assms(1)])
qed


section \<open>Freeing the tables\<close>

text \<open>The tables below table \<open>t\<close> of level \<open>d - 1\<close>, in the order \<open>freewalk\<close> frees them.\<close>

primrec subtables :: "nat \<Rightarrow> words \<Rightarrow> u64 \<Rightarrow> u64 list" where
  "subtables 0 w t = []"
| "subtables (Suc d) w t =
    concat (map (\<lambda>i. if vld w t i then subtables d w (next_tbl w t i) else []) [0..<512]) @ [t]"

text \<open>Every valid entry is a pointer to a table, and the tables of level 0 have no valid entry.\<close>

definition points :: "u64 \<Rightarrow> bool" where
  "points e \<longleftrightarrow> e AND (PTE_R OR PTE_W OR PTE_X) = 0"

primrec emptied :: "nat \<Rightarrow> words \<Rightarrow> u64 \<Rightarrow> bool" where
  "emptied 0 w t = False"
| "emptied (Suc d) w t = (\<forall>i<512. vld w t i \<longrightarrow> points (w t i) \<and> emptied d w (next_tbl w t i))"

lemma subtables_self: "0 < d \<Longrightarrow> t \<in> set (subtables d w t)"
  by (cases d) simp_all

lemma emptied_pos: "emptied d w t \<Longrightarrow> 0 < d"
  by (cases d) simp_all

lemma subtables_aligned: "q \<in> set (subtables d w t) \<Longrightarrow> t mod PGSIZE = 0 \<Longrightarrow> q mod PGSIZE = 0"
proof (induction d arbitrary: t)
  case (Suc d)
  from Suc.prems(1) consider "q = t" | i where "q \<in> set (subtables d w (next_tbl w t i))" by (auto split: if_splits)
  then show ?case using Suc.IH [of "next_tbl w t _"] Suc.prems(2) by cases (simp_all only: next_aligned)
qed simp

lemma subtables_below:
  "i < 512 \<Longrightarrow> vld w t i \<Longrightarrow> q \<in> set (subtables d w (next_tbl w t i)) \<Longrightarrow> q \<in> set (subtables (Suc d) w t)"
  by auto

lemma subtables_cong:
  assumes "\<And>q. q \<in> set (subtables d w t) \<Longrightarrow> w' q = w q"
  shows "subtables d w' t = subtables d w t \<and> emptied d w' t = emptied d w t"
  using assms
proof (induction d arbitrary: t)
  case (Suc d)
  have e: "w' t = w t" using Suc.prems by simp
  then have v: "vld w' t i = vld w t i" "next_tbl w' t i = next_tbl w t i" for i
    by (simp_all add: vld_def next_tbl_def)
  have "subtables d w' (next_tbl w t i) = subtables d w (next_tbl w t i) \<and>
      emptied d w' (next_tbl w t i) = emptied d w (next_tbl w t i)" if "i < 512" "vld w t i" for i
    using Suc.prems [OF subtables_below [OF that]] by (rule Suc.IH)
  then show ?case using e v by (auto intro!: arg_cong [where f = concat])
qed simp

text \<open>The loop of \<open>freewalk\<close> over the entries of one table.\<close>

abbreviation free_entry :: "nat \<Rightarrow> u64 \<Rightarrow> nat \<Rightarrow> ('z vmstate_scheme, unit) kM" where
  "free_entry d t i \<equiv> (let slot = t + 8 * of_nat i in
      bind (load_pte slot) (\<lambda>pte.
      if pte AND PTE_V \<noteq> 0 \<and> pte AND (PTE_R OR PTE_W OR PTE_X) = 0 then
        seq (freewalk d (PTE2PA pte)) (store_pte slot 0)
      else whenM (pte AND PTE_V \<noteq> 0) (panic ''freewalk: leaf'')))"

text \<open>What freeing the tables below \<open>t\<close> means.\<close>

definition frees_tables :: "nat \<Rightarrow> u64 \<Rightarrow> 'z vmstate_scheme \<Rightarrow> u64 list \<Rightarrow> bool" where
  "frees_tables d t s ps \<longleftrightarrow> (\<exists>s'. freewalk d t s = Ret ((), s') \<and>
    frees s (set (subtables d (pt_words (mem s)) t)) s' (rev (subtables d (pt_words (mem s)) t) @ ps))"

definition tables_ready :: "nat \<Rightarrow> u64 \<Rightarrow> 'z vmstate_scheme \<Rightarrow> u64 list \<Rightarrow> bool" where
  "tables_ready d t s ps \<longleftrightarrow> kmem_ready s \<and> kmem_inv s ps \<and> t mod PGSIZE = 0 \<and> emptied d (pt_words (mem s)) t \<and>
    distinct (subtables d (pt_words (mem s)) t @ ps) \<and> (\<forall>q \<in> set (subtables d (pt_words (mem s)) t). page_ok s q)"


lemma tables_readyD:
  assumes "tables_ready d t s ps"
  shows "kmem_ready s" "kmem_inv s ps" "t mod PGSIZE = 0" "emptied d (pt_words (mem s)) t"
    "distinct (subtables d (pt_words (mem s)) t)" "set (subtables d (pt_words (mem s)) t) \<inter> set ps = {}"
    "q \<in> set (subtables d (pt_words (mem s)) t) \<Longrightarrow> page_ok s q"
  using assms by (simp_all add: tables_ready_def)

text \<open>The tables below entry \<open>i\<close> of \<open>t\<close>, and those below the first \<open>j\<close> entries.\<close>

definition below :: "nat \<Rightarrow> words \<Rightarrow> u64 \<Rightarrow> nat \<Rightarrow> u64 list" where
  "below d w t i = (if vld w t i then subtables d w (next_tbl w t i) else [])"

definition below_upto :: "nat \<Rightarrow> words \<Rightarrow> u64 \<Rightarrow> nat \<Rightarrow> u64 list" where
  "below_upto d w t j = concat (map (below d w t) [0..<j])"

lemma below_upto_Suc: "below_upto d w t (Suc j) = below_upto d w t j @ below d w t j"
  by (simp add: below_upto_def)

lemma subtables_Suc: "subtables (Suc d) w t = below_upto d w t 512 @ [t]"
  by (simp add: below_upto_def below_def [abs_def])

declare subtables.simps(2) [simp del]

lemma below_upto_split:
  assumes "j < 512"
  shows "\<exists>rest. subtables (Suc d) w t = below_upto d w t j @ below d w t j @ rest @ [t]"
proof -
  have "[0..<512] = [0..<j] @ [j] @ [Suc j..<512]"
    using assms upt_add_eq_append [of 0 j "512 - j"] upt_conv_Cons [of j 512] by simp
  then show ?thesis unfolding subtables_Suc below_upto_def by simp
qed

lemma free_entry_ok:
  fixes s s1 :: "'z vmstate_scheme" and d :: nat
  assumes IH: "\<And>c (s :: 'z vmstate_scheme) ps. tables_ready d c s ps \<Longrightarrow> frees_tables d c s ps"
    and w: "w = pt_words (mem s)" and R: "tables_ready (Suc d) t s ps" and j: "j < 512"
    and L: "L = below_upto d w t j"
    and s1: "frees s (insert t (set L)) s1 (rev L @ ps)" "\<And>i. j \<le> i \<Longrightarrow> pt_words (mem s1) t i = w t i"
  shows "\<exists>s'. free_entry d t j s1 = Ret ((), s') \<and>
    frees s (insert t (set (L @ below d w t j))) s' (rev (L @ below d w t j) @ ps) \<and>
    (\<forall>i\<ge>Suc j. pt_words (mem s') t i = w t i)"
proof -
  note R = tables_readyD [OF R, folded w]
  from below_upto_split [OF j, of d w t] obtain rest where split: "subtables (Suc d) w t = L @ below d w t j @ rest @ [t]"
    unfolding L by blast
  have load: "load64 (mem s1) (t + 8 * of_nat j) = w t j"
    using s1(2) [of j] R(3) j by (simp add: pt_words_def)
  show ?thesis
  proof (cases "vld w t j")
    case False
    then have "free_entry d t j s1 = Ret ((), s1)" by (simp add: Let_def kM_simps load_pte_def load bit_PTE_V vld_def)
    then show ?thesis using False s1 by (simp add: below_def)
  next
    case True
    define c where "c = next_tbl w t j"
    define B where "B = subtables d w c"
    have B: "below d w t j = B" using True by (simp add: below_def B_def c_def)
    have e: "points (w t j)" "emptied d w c" using R(4) True j by (auto simp: c_def)
    have ca: "c mod PGSIZE = 0" unfolding c_def by (rule next_aligned)
    have al: "q mod PGSIZE = 0" if "q \<in> insert t (set L)" for q
      using that R(3) R(7) [of q] split by (simp add: page_ok_def) blast
    have "q \<notin> insert t (set L)" if "q \<in> set B" for q using that R(5) split B by auto
    then have "pt_words (mem s1) q = w q" if "q \<in> set B" for q
      using that frees_words [OF s1(1) subtables_aligned [OF _ ca] al] unfolding B_def w by blast
    then have cong: "subtables d (pt_words (mem s1)) c = B" "emptied d (pt_words (mem s1)) c = emptied d w c"
      using subtables_cong [of d w c] unfolding B_def by blast+
    have "distinct ps" using R(2) by (simp add: kmem_inv_def)
    then have "tables_ready d c s1 (rev L @ ps)"
      unfolding tables_ready_def cong
      using freesD(2,3) [OF s1(1)] ca e(2) R(5-7) split B mem_step_page_ok [OF freesD(1) [OF s1(1)]] by auto
    from IH [OF this] obtain s2 where s2: "freewalk d c s1 = Ret ((), s2)"
      "frees s1 (set B) s2 (rev B @ rev L @ ps)" unfolding frees_tables_def cong by blast
    have tB: "t \<notin> set B" "t \<notin> set (rev B @ rev L @ ps)" using R(5,6) split B by auto
    define s3 where "s3 = s2\<lparr>mem := store64 (t + 8 * of_nat j) 0 (mem s2)\<rparr>"
    have s3: "frees s2 {t} s3 (rev B @ rev L @ ps)"
      unfolding s3_def by (rule frees_store [OF freesD(2,3) [OF s2(2)] R(3) tB(2) j])
    have "free_entry d t j s1 = Ret ((), s3)"
      using e(1) True s2(1)
      by (simp add: Let_def kM_simps load_pte_def load bit_PTE_V vld_def points_def c_def next_tbl_def store_pte_def s3_def)
    moreover have "frees s (insert t (set (L @ B))) s3 (rev (L @ B) @ ps)"
      using frees_trans [OF frees_trans [OF frees_mono [OF s1(1)] frees_mono [OF s2(2)]] frees_mono [OF s3]]
      by (auto simp: subset_iff)
    moreover have "pt_words (mem s3) t i = w t i" if "Suc j \<le> i" for i
    proof -
      have "pt_words (mem s2) t = pt_words (mem s1) t"
        using frees_words [OF s2(2) R(3) subtables_aligned [of _ d w c] tB(1)] ca unfolding B_def by blast
      then show ?thesis using s1(2) [of i] that pt_words_store [OF R(3) j] by (simp add: s3_def)
    qed
    ultimately show ?thesis unfolding B by blast
  qed
qed


lemma freewalk_entries:
  fixes s :: "'z vmstate_scheme" and d :: nat
  assumes IH: "\<And>c (s :: 'z vmstate_scheme) ps. tables_ready d c s ps \<Longrightarrow> frees_tables d c s ps"
    and w: "w = pt_words (mem s)" and R: "tables_ready (Suc d) t s ps"
  shows "j \<le> 512 \<Longrightarrow> \<exists>s'. for_each [0..<j] (free_entry d t) s = Ret ((), s') \<and>
      frees s (insert t (set (below_upto d w t j))) s' (rev (below_upto d w t j) @ ps) \<and>
      (\<forall>i\<ge>j. pt_words (mem s') t i = w t i)"
proof (induction j)
  case 0
  then show ?case using tables_readyD(1,2) [OF R] by (simp add: kM_simps below_upto_def frees_refl w)
next
  case (Suc j)
  from Suc.IH Suc.prems obtain s1 where s1: "for_each [0..<j] (free_entry d t) s = Ret ((), s1)"
    "frees s (insert t (set (below_upto d w t j))) s1 (rev (below_upto d w t j) @ ps)"
    "\<And>i. j \<le> i \<Longrightarrow> pt_words (mem s1) t i = w t i" by auto
  from Suc.prems have "j < 512" by simp
  from free_entry_ok [OF IH w R this refl s1(2,3)] obtain s2 where s2: "free_entry d t j s1 = Ret ((), s2)"
    "frees s (insert t (set (below_upto d w t (Suc j)))) s2 (rev (below_upto d w t (Suc j)) @ ps)"
    "\<forall>i\<ge>Suc j. pt_words (mem s2) t i = w t i" unfolding below_upto_Suc by blast
  have "for_each [0..<Suc j] (free_entry d t) s = Ret ((), s2)"
    using s1(1) s2(1) by (simp add: for_each_append kM_simps)
  then show ?case using s2(2,3) by blast
qed

lemma freewalk_ok:
  fixes s :: "'z vmstate_scheme"
  shows "tables_ready d t s ps \<Longrightarrow> frees_tables d t s ps"
proof (induction d arbitrary: t s ps)
  case 0
  then show ?case by (simp add: tables_ready_def)
next
  case (Suc d)
  define w where "w = pt_words (mem s)"
  define L where "L = below_upto d w t 512"
  note R = tables_readyD [OF Suc.prems, folded w_def]
  have sub: "subtables (Suc d) w t = L @ [t]" unfolding L_def by (rule subtables_Suc)
  from freewalk_entries [OF Suc.IH w_def Suc.prems order_refl] obtain s1 where s1:
    "for_each [0..<512] (free_entry d t) s = Ret ((), s1)" "frees s (insert t (set L)) s1 (rev L @ ps)"
    unfolding L_def by blast
  have "page_ok s1 t" "t \<notin> set (rev L @ ps)"
    using R(5,6) R(7) [of t] mem_step_page_ok [OF freesD(1) [OF s1(2)]] sub by auto
  then obtain s2 where s2: "kfree t s1 = Ret ((), s2)" "frees s1 {t} s2 (t # rev L @ ps)"
    using frees_kfree [OF freesD(2,3) [OF s1(2)]] by blast
  have "freewalk (Suc d) t s = Ret ((), s2)" using s1(1) s2(1) by (simp add: kM_simps)
  moreover have "frees s (insert t (set L)) s2 (t # rev L @ ps)"
    using frees_trans [OF s1(2) frees_mono [OF s2(2)]] by simp
  ultimately show ?case unfolding frees_tables_def w_def [symmetric] sub by auto
qed


section \<open>The tables of a page table as a list\<close>

text \<open>A table has 512 entries.\<close>

definition table_words :: "words \<Rightarrow> bool" where
  "table_words w \<longleftrightarrow> (\<forall>t i. vld w t i \<longrightarrow> i < 512)"

lemma table_words_pt: "table_words (pt_words m)"
  by (auto simp: table_words_def vld_def pt_words_def split: if_splits)

lemma set_below_upto: "set (below_upto d w t j) = (\<Union>i<j. set (below d w t i))"
  by (auto simp: below_upto_def)

lemma distinct_below_upto:
  assumes "\<And>i. distinct (below d w t i)" "\<And>i i' q. q \<in> set (below d w t i) \<Longrightarrow> q \<in> set (below d w t i') \<Longrightarrow> i = i'"
  shows "distinct (below_upto d w t j)"
proof (induction j)
  case (Suc j)
  have "set (below_upto d w t j) \<inter> set (below d w t j) = {}"
    using assms(2) [of _ j] by (auto simp: set_below_upto)
  then show ?case using Suc assms(1) by (simp add: below_upto_Suc)
qed (simp add: below_upto_def)

lemma set_subtables_Suc:
  "table_words w \<Longrightarrow> set (subtables (Suc d) w t) = insert t (\<Union>i. set (below d w t i))"
  by (auto simp: subtables_Suc set_below_upto below_def table_words_def split: if_splits)

lemma below_upto_0: "below_upto 0 w t j = []"
  by (induction j) (simp add: below_upto_def, simp add: below_upto_Suc below_def)

lemma below_1: "below (Suc 0) w t i = (if vld w t i then [next_tbl w t i] else [])"
  by (simp only: below_def [of "Suc 0"] subtables_Suc below_upto_0 append_Nil)

lemma below_2:
  assumes "table_words w"
  shows "q \<in> set (below 2 w r a) \<longleftrightarrow> vld w r a \<and> (q = next_tbl w r a \<or> (\<exists>b. path_ok w r a b \<and> q = leaf_table w r a b))"
  using assms by (auto simp: numeral_2_eq_2 below_def [of "Suc (Suc 0)"] set_subtables_Suc below_1 path_ok_def leaf_table_def
      split: if_splits)

lemma set_subtables:
  assumes "table_words w"
  shows "set (subtables 3 w r) = tables w r"
proof -
  have "set (subtables (Suc 2) w r) = tables w r"
    unfolding set_subtables_Suc [OF assms] tables_def using below_2 [OF assms] path_okD(1) [of w r] by blast
  then show ?thesis by simp
qed

lemma distinct_subtables:
  assumes "table_words w" "tree_ok w r"
  shows "distinct (subtables 3 w r)"
proof -
  note D = tree_okD [OF assms(2)]
  have "distinct (below 2 w r a)" for a
  proof (cases "vld w r a")
    case True
    let ?n = "next_tbl w r a"
    have "distinct (below_upto (Suc 0) w ?n 512)"
    proof (rule distinct_below_upto)
      fix i i' q assume "q \<in> set (below (Suc 0) w ?n i)" "q \<in> set (below (Suc 0) w ?n i')"
      then show "i = i'"
        using D(5) [of a i a i'] True by (auto simp: below_1 path_ok_def leaf_table_def split: if_splits)
    qed (simp add: below_1)
    moreover have "?n \<notin> set (below_upto (Suc 0) w ?n 512)"
      using D(4) [of a _ a] True by (fastforce simp: set_below_upto below_1 path_ok_def leaf_table_def)
    ultimately show ?thesis using True by (simp add: numeral_2_eq_2 below_def [of "Suc (Suc 0)"] subtables_Suc)
  qed (simp add: below_def)
  moreover have "i = i'" if "q \<in> set (below 2 w r i)" "q \<in> set (below 2 w r i')" for i i' q
    using that D(2) [of i i'] D(4) [of i _ i'] D(4) [of i' _ i] D(5) [of i _ i'] unfolding below_2 [OF assms(1)] by metis
  ultimately have "distinct (below_upto 2 w r 512)" by (rule distinct_below_upto)
  moreover have "r \<notin> set (below_upto 2 w r 512)"
    using D(1,3) unfolding set_below_upto UN_iff below_2 [OF assms(1)] by metis
  ultimately show ?thesis by (simp add: eval_nat_numeral(3) subtables_Suc numeral_2_eq_2)
qed

text \<open>The entries of the upper levels are pointers.\<close>

definition upper_points :: "words \<Rightarrow> u64 \<Rightarrow> bool" where
  "upper_points w r \<longleftrightarrow> (\<forall>a. vld w r a \<longrightarrow> points (w r a)) \<and> (\<forall>a b. path_ok w r a b \<longrightarrow> points (w (next_tbl w r a) b))"

lemma emptied_tables:
  assumes "upper_points w r" "\<And>a b c. \<not> bit (pt_word w r a b c) 0"
  shows "emptied 3 w r"
proof -
  have "\<not> vld w (leaf_table w r a b) c" if "path_ok w r a b" for a b c
    using assms(2) [of a b c] that by (simp add: pt_word_def vld_def)
  then have "emptied (Suc 0) w (leaf_table w r a b)" if "path_ok w r a b" for a b using that by simp
  then have "emptied 2 w (next_tbl w r a)" if "vld w r a" for a
    using assms(1) that by (auto simp: numeral_2_eq_2 upper_points_def path_ok_def leaf_table_def simp del: emptied.simps(1))
  then have "emptied (Suc 2) w r" using assms(1) unfolding emptied.simps(2) upper_points_def by blast
  then show ?thesis by simp
qed


section \<open>Unmapping\<close>

text \<open>The entries of the addresses in \<open>V\<close> become 0; all other words of the page table stay.\<close>

abbreviation pt_path :: "u64 \<Rightarrow> nat \<times> nat \<times> nat" where
  "pt_path v \<equiv> (pt_index 2 v, pt_index 1 v, pt_index 0 v)"

definition unmapped :: "u64 \<Rightarrow> u64 set \<Rightarrow> words \<Rightarrow> words \<Rightarrow> bool" where
  "unmapped r V w w' \<longleftrightarrow> w' r = w r \<and> (\<forall>x. vld w r x \<longrightarrow> w' (next_tbl w r x) = w (next_tbl w r x)) \<and>
    (\<forall>a b c. pt_word w' r a b c = (if (a, b, c) \<in> pt_path ` V then 0 else pt_word w r a b c))"

lemma unmapped_same:
  assumes "unmapped r V w w'"
  shows "tree_ok w' r = tree_ok w r" "tables w' r = tables w r" "upper_points w' r = upper_points w r"
    "path_ok w' r a b = path_ok w r a b"
proof -
  have e: "w' r = w r" "\<And>x. vld w r x \<Longrightarrow> w' (next_tbl w r x) = w (next_tbl w r x)"
    using assms unfolding unmapped_def by blast+
  note u = upper_same [of w' r w, OF e]
  show "tree_ok w' r = tree_ok w r" "tables w' r = tables w r" using tree_ok_same [of w' r w, OF e] by simp_all
  show "path_ok w' r a b = path_ok w r a b" by (rule u(3))
  show "upper_points w' r = upper_points w r" using e u path_okD(1) [of w r] by (simp add: upper_points_def)
qed

lemma unmapped_words:
  assumes "\<And>t. t \<in> tables w r \<Longrightarrow> w' t = w t"
  shows "unmapped r {} w w'"
proof -
  have e: "w' r = w r" "\<And>x. vld w r x \<Longrightarrow> w' (next_tbl w r x) = w (next_tbl w r x)"
    using assms unfolding tables_def by blast+
  have "w' (leaf_table w r x y) = w (leaf_table w r x y)" if "path_ok w r x y" for x y
    using assms that unfolding tables_def by blast
  then show ?thesis using e upper_same(3,4) [of w' r w, OF e] by (simp add: unmapped_def pt_word_def)
qed

lemma unmapped_trans:
  assumes "unmapped r V w w'" "unmapped r V' w' w''"
  shows "unmapped r (V \<union> V') w w''"
proof -
  have e: "w' r = w r" "\<And>x. vld w r x \<Longrightarrow> w' (next_tbl w r x) = w (next_tbl w r x)"
    using assms(1) unfolding unmapped_def by blast+
  have "vld w' r x = vld w r x" "next_tbl w' r x = next_tbl w r x" for x using e(1) by (simp_all add: vld_def next_tbl_def)
  then show ?thesis using assms by (auto simp: unmapped_def)
qed

lemma unmapped_pte:
  assumes "unmapped r V (pt_words m) (pt_words m')" "b < MAXVA" "\<And>v. v \<in> V \<Longrightarrow> v < MAXVA"
  shows "pte_at m' r b = (if pgno b \<in> pgno ` V then 0 else pte_at m r b)"
proof -
  have "pt_path b \<in> pt_path ` V \<longleftrightarrow> pgno b \<in> pgno ` V"
    using pt_index_pgno [OF assms(2,3)] by (auto simp: image_iff)
  then show ?thesis using assms(1) by (simp add: unmapped_def pte_at_def)
qed


lemma unmapped_store:
  assumes "pt_ok m r" "has_slot m r a" and m': "m' = store64 (leaf_slot m r a) v m" "v = 0"
  shows "unmapped r {a} (pt_words m) (pt_words m')"
proof -
  let ?w = "pt_words m"
  define t where "t = leaf_table ?w r (pt_index 2 a) (pt_index 1 a)"
  have p: "path_ok ?w r (pt_index 2 a) (pt_index 1 a)" using assms(2) by (simp add: has_slot_def)
  have tree: "tree_ok ?w r" using assms(1) by (simp add: pt_ok_def)
  have t: "t \<in> tables ?w r" using p unfolding t_def tables_def by blast
  have W: "pt_words m' = ?w(t := (?w t)(pt_index 0 a := v))"
    unfolding m' leaf_slot_def t_def [symmetric] by (rule pt_words_store [OF tables_aligned [OF assms(1) t] pt_index_less])
  note st = store_leaf [OF tree p t_def W] and D = tree_okD [OF tree]
  have "t \<noteq> r" "\<And>x. vld ?w r x \<Longrightarrow> t \<noteq> next_tbl ?w r x" unfolding t_def using D(3,4) [OF p] by blast+
  then have "pt_words m' r = ?w r" "\<And>x. vld ?w r x \<Longrightarrow> pt_words m' (next_tbl ?w r x) = ?w (next_tbl ?w r x)"
    unfolding W by (metis fun_upd_other)+
  then show ?thesis using st(4) m'(2) by (auto simp: unmapped_def)
qed

text \<open>One round of \<open>uvmunmap\<close>: the page goes to the free list when it is to be freed, and its
  entry is cleared.\<close>

lemma unmap_one:
  fixes s :: "'z vmstate_scheme"
  assumes vm: "vm_inv s r ps" and e: "e = pte_at (mem s) r a" "bit e 0"
    and fr: "fr \<Longrightarrow> page_ok s (PTE2PA e) \<and> PTE2PA e \<notin> set ps \<union> tables (pt_words (mem s)) r"
    and F: "F = (if fr then [PTE2PA e] else [])"
  obtains s' where "seq (whenM fr (kfree (PTE2PA e))) (store_pte (leaf_slot (mem s) r a) 0) s = Ret ((), s')"
    "frees s (set F \<union> tables (pt_words (mem s)) r) s' (F @ ps)" "vm_inv s' r (F @ ps)"
    "unmapped r {a} (pt_words (mem s)) (pt_words (mem s'))"
proof -
  let ?w = "pt_words (mem s)"
  have inv: "kmem_ready s" "kmem_inv s ps" "pt_ok (mem s) r" "set ps \<inter> tables ?w r = {}"
    using vm by (simp_all add: vm_inv_def)
  have "\<exists>s1. whenM fr (kfree (PTE2PA e)) s = Ret ((), s1) \<and> frees s (set F) s1 (F @ ps)"
  proof (cases fr)
    case True
    obtain s1 where "kfree (PTE2PA e) s = Ret ((), s1)" "frees s {PTE2PA e} s1 (PTE2PA e # ps)"
      using frees_kfree [OF inv(1,2), of "PTE2PA e"] fr [OF True] by blast
    then show ?thesis using True F by (auto simp: whenM_def)
  next
    case False
    then show ?thesis using F frees_refl [OF inv(1,2)] by (auto simp: whenM_def return_apply)
  qed
  then obtain s1 where s1: "whenM fr (kfree (PTE2PA e)) s = Ret ((), s1)" "frees s (set F) s1 (F @ ps)" by blast
  have disj: "set F \<inter> tables ?w r = {}" "set (F @ ps) \<inter> tables ?w r = {}" using fr F inv(4) by auto
  have same: "pt_words (mem s1) t = ?w t" if "t \<in> tables ?w r" for t
    using that disj(1) fr F by (intro frees_words [OF s1(2) tables_aligned [OF inv(3)]]) (auto simp: page_ok_def split: if_splits)
  note u1 = unmapped_words [of ?w r "pt_words (mem s1)", OF same]
  have ok1: "pt_ok (mem s1) r" using inv(3) unmapped_same [OF u1] by (simp add: pt_ok_def)
  have slot: "has_slot (mem s) r a" using no_slot [of "mem s" r a] e by (cases "has_slot (mem s) r a") simp_all
  then have slot1: "has_slot (mem s1) r a" using unmapped_same(4) [OF u1] by (simp add: has_slot_def)
  define t where "t = leaf_table ?w r (pt_index 2 a) (pt_index 1 a)"
  have t: "t \<in> tables ?w r" using slot unfolding t_def tables_def has_slot_def by blast
  have vn: "vld ?w r (pt_index 2 a)" using slot unfolding has_slot_def by (rule path_okD(1))
  have ls: "leaf_slot (mem s1) r a = leaf_slot (mem s) r a"
    using u1 vn unfolding unmapped_def leaf_slot_def leaf_table_def by (simp add: next_tbl_def [of _ r] next_tbl_def)
  define s2 where "s2 = s1\<lparr>mem := store64 (leaf_slot (mem s1) r a) 0 (mem s1)\<rparr>"
  have u2: "unmapped r {a} (pt_words (mem s1)) (pt_words (mem s2))"
    unfolding s2_def by (rule unmapped_store [OF ok1 slot1 _ refl]) simp
  have u: "unmapped r {a} ?w (pt_words (mem s2))" using unmapped_trans [OF u1 u2] by simp
  have "t \<notin> set (F @ ps)" using t disj(2) by blast
  from frees_store [OF freesD(2,3) [OF s1(2)] tables_aligned [OF inv(3) t] this pt_index_less, of 0 a 0]
  have f2: "frees s1 {t} s2 (F @ ps)" unfolding s2_def ls unfolding leaf_slot_def t_def .
  have fs: "frees s (set F \<union> tables ?w r) s2 (F @ ps)"
    by (rule frees_trans [OF frees_mono [OF s1(2)] frees_mono [OF f2]]) (use t in auto)
  have "vm_inv s2 r (F @ ps)"
    using freesD(2,3) [OF fs] unmapped_same(1,2) [OF u] inv(3) disj(2) by (simp add: vm_inv_def pt_ok_def)
  moreover have "seq (whenM fr (kfree (PTE2PA e))) (store_pte (leaf_slot (mem s) r a) 0) s = Ret ((), s2)"
    using s1(1) by (simp add: kM_simps store_pte_def s2_def ls)
  ultimately show ?thesis using fs u that by blast
qed


text \<open>The pages that \<open>k\<close> virtual pages from \<open>a\<close> on map to, and that they are mapped.\<close>

abbreviation vpage :: "u64 \<Rightarrow> nat \<Rightarrow> u64" where
  "vpage a i \<equiv> a + of_nat (4096 * i)"

definition mapped_pages :: "mem \<Rightarrow> u64 \<Rightarrow> u64 \<Rightarrow> nat \<Rightarrow> u64 list" where
  "mapped_pages m r a k = map (\<lambda>i. PTE2PA (pte_at m r (vpage a i))) [0..<k]"

definition leaf_entry :: "u64 \<Rightarrow> bool" where
  "leaf_entry e \<longleftrightarrow> bit e 0 \<and> PTE_FLAGS e \<noteq> PTE_V"

lemma vpage_arith:
  assumes "unat a + 4096 * k \<le> 2 ^ 38" "i < k"
  shows "unat (vpage a i) = unat a + 4096 * i" "vpage a i < MAXVA" "pgno (vpage a i) = pgno a + i"
proof -
  have "4096 * i < 4096 * k" using assms(2) by simp
  then show u: "unat (vpage a i) = unat a + 4096 * i" using assms(1) by (intro unat_add_of_nat) simp
  show "vpage a i < MAXVA" using u assms by (simp add: word_less_nat_alt)
  show "pgno (vpage a i) = pgno a + i" unfolding pgno_def u by simp
qed

lemma vpage_Suc: "vpage a (Suc i) = vpage (a + PGSIZE) i"
  by (simp add: PGSIZE_def)

lemma mapped_pages_Suc:
  "mapped_pages m r a (Suc k) = PTE2PA (pte_at m r a) # mapped_pages m r (a + PGSIZE) k"
proof -
  have "[0..<Suc k] = 0 # map Suc [0..<k]" by (simp add: map_Suc_upt upt_conv_Cons)
  then show ?thesis unfolding mapped_pages_def by (simp del: upt_Suc of_nat_mult of_nat_Suc mult_Suc_right add: vpage_Suc o_def)
qed

lemma uvmunmap_round:
  fixes s :: "'z vmstate_scheme"
  assumes "pt_ok (mem s) r" "a < MAXVA" "e = pte_at (mem s) r a" "leaf_entry e" "a < en"
    and "seq (whenM fr (kfree (PTE2PA e))) (store_pte (leaf_slot (mem s) r a) 0) s = Ret ((), s')"
  shows "uvmunmap_loop (Suc k) r a en fr s = uvmunmap_loop k r (a + PGSIZE) en fr s'"
proof -
  have h: "has_slot (mem s) r a"
    using no_slot [of "mem s" r a] assms(3,4) by (cases "has_slot (mem s) r a") (simp_all add: leaf_entry_def)
  have "seq (whenM fr (kfree (PTE2PA e))) (seq (store_pte (leaf_slot (mem s) r a) 0) M) s = M s'"
    for M :: "('z vmstate_scheme, unit) kM"
    using assms(6) by (auto simp: seq_apply split: outcome.splits)
  then show ?thesis
    using assms(2,3,4,5) leaf_slot_nz [OF assms(1) h] h
    by (simp add: bind_apply walk_False [OF assms(1,2)] load_pte_def gets_apply load_leaf_slot bit_PTE_V leaf_entry_def)
qed


lemma uvmunmap_loop_ok:
  fixes s :: "'z vmstate_scheme"
  assumes "vm_inv s r ps" "unat a + 4096 * k \<le> 2 ^ 38" "en = vpage a k"
    "\<And>i. i < k \<Longrightarrow> leaf_entry (pte_at (mem s) r (vpage a i))"
    "Q = (if fr then mapped_pages (mem s) r a k else [])" "distinct Q"
    "\<And>q. q \<in> set Q \<Longrightarrow> page_ok s q \<and> q \<notin> set ps \<union> tables (pt_words (mem s)) r"
  shows "\<exists>s'. uvmunmap_loop k r a en fr s = Ret ((), s') \<and>
    frees s (set Q \<union> tables (pt_words (mem s)) r) s' (rev Q @ ps) \<and> vm_inv s' r (rev Q @ ps) \<and>
    unmapped r (vpage a ` {..<k}) (pt_words (mem s)) (pt_words (mem s'))"
  using assms
proof (induction k arbitrary: s a ps Q)
  case 0
  then have "kmem_ready s" "kmem_inv s ps" by (simp_all add: vm_inv_def)
  then show ?case using 0 unmapped_words [of "pt_words (mem s)" r] by (simp add: kM_simps mapped_pages_def frees_refl)
next
  case (Suc k)
  let ?w = "pt_words (mem s)"
  define e where "e = pte_at (mem s) r a"
  define F where "F = (if fr then [PTE2PA e] else [])"
  define Q' where "Q' = (if fr then mapped_pages (mem s) r (a + PGSIZE) k else [])"
  have Q: "Q = F @ Q'" using Suc.prems(5) by (simp add: F_def Q'_def e_def mapped_pages_Suc)
  note va = vpage_arith [OF Suc.prems(2)]
  have a: "a < MAXVA" "leaf_entry e" using va(2) [of 0] Suc.prems(4) [of 0] by (simp_all add: e_def)
  have ok: "pt_ok (mem s) r" using Suc.prems(1) by (simp add: vm_inv_def)
  have "unat (vpage a (Suc k)) = unat a + 4096 * Suc k" using Suc.prems(2) by (intro unat_add_of_nat) simp
  then have lt: "a < en" unfolding Suc.prems(3) word_less_nat_alt by simp
  obtain s1 where s1: "seq (whenM fr (kfree (PTE2PA e))) (store_pte (leaf_slot (mem s) r a) 0) s = Ret ((), s1)"
    "frees s (set F \<union> tables ?w r) s1 (F @ ps)" "vm_inv s1 r (F @ ps)" "unmapped r {a} ?w (pt_words (mem s1))"
    using Suc.prems(7) a(2) unmap_one [OF Suc.prems(1) e_def _ _ F_def] by (auto simp: leaf_entry_def Q F_def)
  note run = uvmunmap_round [OF ok a(1) e_def a(2) lt s1(1)]
  have up: "unat (a + PGSIZE) = unat a + 4096" "unat (a + PGSIZE) + 4096 * k \<le> 2 ^ 38"
    using Suc.prems(2) unat_add_of_nat [of a 4096] by (simp_all add: PGSIZE_def)
  note va' = vpage_arith [OF up(2)]
  have pg: "pgno (a + PGSIZE) = Suc (pgno a)" unfolding pgno_def up(1) by simp
  have keep: "pte_at (mem s1) r (vpage (a + PGSIZE) i) = pte_at (mem s) r (vpage (a + PGSIZE) i)" if "i < k" for i
    using unmapped_pte [OF s1(4) va'(2) [OF that]] a(1) va'(3) [OF that] pg by simp
  have Q'1: "Q' = (if fr then mapped_pages (mem s1) r (a + PGSIZE) k else [])" using keep by (simp add: Q'_def mapped_pages_def)
  note tb = unmapped_same(2) [OF s1(4)] and pk = mem_step_page_ok [OF freesD(1) [OF s1(2)]]
  have "\<exists>s'. uvmunmap_loop k r (a + PGSIZE) en fr s1 = Ret ((), s') \<and>
    frees s1 (set Q' \<union> tables (pt_words (mem s1)) r) s' (rev Q' @ F @ ps) \<and> vm_inv s' r (rev Q' @ F @ ps) \<and>
    unmapped r (vpage (a + PGSIZE) ` {..<k}) (pt_words (mem s1)) (pt_words (mem s'))"
  proof (rule Suc.IH [OF s1(3) up(2) _ _ Q'1])
    show "en = vpage (a + PGSIZE) k" unfolding Suc.prems(3) by (rule vpage_Suc)
    show "leaf_entry (pte_at (mem s1) r (vpage (a + PGSIZE) i))" if "i < k" for i
      using keep [OF that] Suc.prems(4) [of "Suc i"] that unfolding vpage_Suc by simp
    show "distinct Q'" using Suc.prems(6) Q by simp
    show "page_ok s1 q \<and> q \<notin> set (F @ ps) \<union> tables (pt_words (mem s1)) r" if "q \<in> set Q'" for q
      using Suc.prems(6) Suc.prems(7) [of q] that Q by (auto simp: tb pk)
  qed
  then obtain s2 where s2: "uvmunmap_loop k r (a + PGSIZE) en fr s1 = Ret ((), s2)"
    "frees s1 (set Q' \<union> tables ?w r) s2 (rev Q' @ F @ ps)" "vm_inv s2 r (rev Q' @ F @ ps)"
    "unmapped r (vpage (a + PGSIZE) ` {..<k}) (pt_words (mem s1)) (pt_words (mem s2))" unfolding tb by blast
  have "rev F = F" by (simp add: F_def)
  moreover have "frees s (set Q \<union> tables ?w r) s2 (rev Q' @ F @ ps)"
    by (rule frees_trans [OF frees_mono [OF s1(2)] frees_mono [OF s2(2)]]) (auto simp: Q)
  moreover have "vpage a ` {..<Suc k} = {a} \<union> vpage (a + PGSIZE) ` {..<k}"
    unfolding lessThan_Suc_eq_insert_0 image_insert image_image vpage_Suc by simp
  ultimately show ?case using s2 unmapped_trans [OF s1(4) s2(4)] by (simp add: run Q del: uvmunmap_loop.simps)
qed


lemma uvmunmap_ok:
  fixes s :: "'z vmstate_scheme"
  assumes "vm_inv s r ps" "a mod PGSIZE = 0" "unat a + 4096 * unat n \<le> 2 ^ 38"
    "\<And>i. i < unat n \<Longrightarrow> leaf_entry (pte_at (mem s) r (vpage a i))"
    "Q = (if fr then mapped_pages (mem s) r a (unat n) else [])" "distinct Q"
    "\<And>q. q \<in> set Q \<Longrightarrow> page_ok s q \<and> q \<notin> set ps \<union> tables (pt_words (mem s)) r"
  obtains s' where "uvmunmap r a n fr s = Ret ((), s')"
    "frees s (set Q \<union> tables (pt_words (mem s)) r) s' (rev Q @ ps)" "vm_inv s' r (rev Q @ ps)"
    "unmapped r (vpage a ` {..<unat n}) (pt_words (mem s)) (pt_words (mem s'))"
proof -
  have "a + n * PGSIZE = vpage a (unat n)" by (simp add: PGSIZE_def mult.commute)
  then have "uvmunmap r a n fr s = uvmunmap_loop (unat n) r a (vpage a (unat n)) fr s"
    using assms(2) by (simp only: uvmunmap_def if_False not_True_eq_False refl)
  then show ?thesis using uvmunmap_loop_ok [OF assms(1,3) refl assms(4-7)] that by auto
qed

text \<open>Unmapping leaves the tables where they are.\<close>

lemma subtables_unmapped:
  assumes "unmapped r V w w'"
  shows "subtables 3 w' r = subtables 3 w r"
proof -
  have e: "w' r = w r" "\<And>x. vld w r x \<Longrightarrow> w' (next_tbl w r x) = w (next_tbl w r x)"
    using assms unfolding unmapped_def by blast+
  have two: "subtables 2 w' n = subtables 2 w n" if "w' n = w n" for n
    unfolding numeral_2_eq_2 subtables_Suc below_upto_def using that by (simp add: below_1 [abs_def] vld_def next_tbl_def cong: if_cong)
  have "below 2 w' r = below 2 w r"
    using e two by (simp add: below_def fun_eq_iff vld_def next_tbl_def)
  then have "subtables (Suc 2) w' r = subtables (Suc 2) w r" unfolding subtables_Suc below_upto_def by simp
  then show ?thesis by simp
qed


section \<open>Address spaces\<close>

text \<open>The pages of a user of size \<open>sz\<close>, and the virtual addresses that are mapped: those pages, the
  trap frame and the trampoline. An address space maps exactly those, each by a leaf.\<close>

definition npages :: "u64 \<Rightarrow> nat" where
  "npages sz = unat (PGROUNDUP sz) div 4096"

definition user_vas :: "u64 \<Rightarrow> u64 set" where
  "user_vas sz = {TRAMPOLINE, TRAPFRAME} \<union> vpage 0 ` {..<npages sz}"

definition uspace :: "mem \<Rightarrow> u64 \<Rightarrow> u64 \<Rightarrow> bool" where
  "uspace m r sz \<longleftrightarrow> pt_ok m r \<and> upper_points (pt_words m) r \<and> npages sz \<le> pgno TRAPFRAME \<and>
    (\<forall>a b c. bit (pt_word (pt_words m) r a b c) 0 \<longrightarrow> (a, b, c) \<in> pt_path ` user_vas sz) \<and>
    (\<forall>v \<in> user_vas sz. leaf_entry (pte_at m r v))"

text \<open>All pages of the address space: those of the user, then the tables.\<close>

definition space_pages :: "mem \<Rightarrow> u64 \<Rightarrow> u64 \<Rightarrow> u64 list" where
  "space_pages m r sz = mapped_pages m r 0 (npages sz) @ subtables 3 (pt_words m) r"

lemma vm_consts: "unat TRAMPOLINE = 2 ^ 38 - 4096" "unat TRAPFRAME = 2 ^ 38 - 8192"
  "TRAMPOLINE mod PGSIZE = 0" "TRAPFRAME mod PGSIZE = 0" "pgno TRAMPOLINE = 2 ^ 26 - 1" "pgno TRAPFRAME = 2 ^ 26 - 2"
  "TRAMPOLINE < MAXVA" "TRAPFRAME < MAXVA"
  by (simp_all add: TRAMPOLINE_def TRAPFRAME_def MAXVA_def PGSIZE_def pgno_def push_bit_eq_mult)

lemma uspaceD:
  assumes "uspace m r sz"
  shows "pt_ok m r" "upper_points (pt_words m) r" "npages sz \<le> pgno TRAPFRAME"
    "bit (pt_word (pt_words m) r a b c) 0 \<Longrightarrow> (a, b, c) \<in> pt_path ` user_vas sz"
    "leaf_entry (pte_at m r TRAMPOLINE)" "leaf_entry (pte_at m r TRAPFRAME)"
    "i < npages sz \<Longrightarrow> leaf_entry (pte_at m r (vpage 0 i))"
  using assms unfolding uspace_def user_vas_def by blast+



text \<open>Clearing one entry that is not freed.\<close>

lemma uvmunmap_1:
  fixes s :: "'z vmstate_scheme"
  assumes "vm_inv s r ps" "a mod PGSIZE = 0" "unat a + 4096 \<le> 2 ^ 38" "leaf_entry (pte_at (mem s) r a)"
  obtains s' where "uvmunmap r a 1 False s = Ret ((), s')"
    "frees s (tables (pt_words (mem s)) r) s' ps" "vm_inv s' r ps"
    "unmapped r {a} (pt_words (mem s)) (pt_words (mem s'))"
proof (rule uvmunmap_ok [OF assms(1,2), of 1 "[]" False])
qed (use assms that in \<open>auto simp: lessThan_Suc\<close>)

text \<open>Freeing the pages of the user.\<close>

lemma uvmunmap_user:
  fixes s :: "'z vmstate_scheme"
  assumes "vm_inv s r ps" "npages sz \<le> pgno TRAPFRAME" "\<And>i. i < npages sz \<Longrightarrow> leaf_entry (pte_at (mem s) r (vpage 0 i))"
    and Q: "Q = mapped_pages (mem s) r 0 (npages sz)" "distinct Q"
    "\<And>q. q \<in> set Q \<Longrightarrow> page_ok s q \<and> q \<notin> set ps \<union> tables (pt_words (mem s)) r"
  obtains s' where "whenM (sz > 0) (uvmunmap r 0 (PGROUNDUP sz div PGSIZE) True) s = Ret ((), s')"
    "frees s (set Q \<union> tables (pt_words (mem s)) r) s' (rev Q @ ps)" "vm_inv s' r (rev Q @ ps)"
    "unmapped r (vpage 0 ` {..<npages sz}) (pt_words (mem s)) (pt_words (mem s'))"
proof (cases "sz > 0")
  case True
  have n: "unat (PGROUNDUP sz div PGSIZE) = npages sz" by (simp add: npages_def unat_div PGSIZE_def)
  have "unat (0 :: u64) + 4096 * unat (PGROUNDUP sz div PGSIZE) \<le> 2 ^ 38"
    using assms(2) unfolding n by (simp add: vm_consts)
  from uvmunmap_ok [OF assms(1) _ this, of Q True, unfolded n] show ?thesis
    using assms(3) Q True that by (auto simp: whenM_def)
next
  case False
  then have "sz = 0" by (simp add: word_gt_0)
  then have z: "npages sz = 0" by (simp add: npages_def PGROUNDUP_def PGSIZE_def)
  then have "Q = []" using Q(1) by (simp add: mapped_pages_def)
  moreover have "kmem_ready s" "kmem_inv s ps" using assms(1) by (simp_all add: vm_inv_def)
  ultimately show ?thesis
    using that [of s] False assms(1) z unmapped_words [of "pt_words (mem s)" r] by (simp add: whenM_apply frees_refl)
qed

lemma proc_freepagetable_ok:
  fixes s :: "'z vmstate_scheme"
  assumes "kmem_ready s" "kmem_inv s ps" and U: "uspace (mem s) r sz" and P: "P = space_pages (mem s) r sz"
    and "distinct (P @ ps)" and page: "\<And>q. q \<in> set P \<Longrightarrow> page_ok s q"
  shows "\<exists>s'. proc_freepagetable r sz s = Ret ((), s') \<and> frees s (set P) s' (rev P @ ps)"
proof -
  define w where "w = pt_words (mem s)"
  define Q where "Q = mapped_pages (mem s) r 0 (npages sz)"
  define S where "S = subtables 3 w r"
  note U = uspaceD [OF U]
  have PQ: "P = Q @ S" unfolding P space_pages_def Q_def S_def w_def by simp
  have S: "set S = tables w r" unfolding S_def w_def by (rule set_subtables [OF table_words_pt])
  have vm: "vm_inv s r ps" using assms(1,2,5) U(1) S by (auto simp: vm_inv_def PQ w_def)
  obtain s1 where s1: "uvmunmap r TRAMPOLINE 1 False s = Ret ((), s1)" "frees s (tables w r) s1 ps" "vm_inv s1 r ps"
    "unmapped r {TRAMPOLINE} w (pt_words (mem s1))"
    using uvmunmap_1 [OF vm vm_consts(3) _ U(5)] unfolding w_def by (auto simp: vm_consts)
  have e1: "pte_at (mem s1) r b = pte_at (mem s) r b" if "b < MAXVA" "pgno b < pgno TRAMPOLINE" for b
    using unmapped_pte [OF s1(4) [unfolded w_def] that(1)] that(2) vm_consts(7) by auto
  note t1 = unmapped_same(2) [OF s1(4)]
  have "leaf_entry (pte_at (mem s1) r TRAPFRAME)" using e1 [of TRAPFRAME] U(6) by (simp add: vm_consts)
  then obtain s2 where s2: "uvmunmap r TRAPFRAME 1 False s1 = Ret ((), s2)" "frees s1 (tables w r) s2 ps" "vm_inv s2 r ps"
    "unmapped r {TRAPFRAME} (pt_words (mem s1)) (pt_words (mem s2))"
    using uvmunmap_1 [OF s1(3) vm_consts(4)] unfolding t1 by (auto simp: vm_consts)
  have e2: "pte_at (mem s2) r b = pte_at (mem s) r b" if "b < MAXVA" "pgno b < pgno TRAPFRAME" for b
    using unmapped_pte [OF s2(4) that(1)] that e1 [OF that(1)] by (auto simp: vm_consts)
  have u2: "unmapped r {TRAMPOLINE, TRAPFRAME} w (pt_words (mem s2))"
    using unmapped_trans [OF s1(4) s2(4)] by (simp add: insert_commute)
  have f2: "frees s (tables w r) s2 ps" by (rule frees_trans [OF s1(2) s2(2)])
  have "unat (0 :: u64) + 4096 * npages sz \<le> 2 ^ 38" using U(3) by (simp add: vm_consts)
  note va = vpage_arith [OF this]
  have v2: "pte_at (mem s2) r (vpage 0 i) = pte_at (mem s) r (vpage 0 i)" if "i < npages sz" for i
    using e2 [OF va(2) [OF that]] va(3) [OF that] that U(3) by (simp add: pgno_def [of 0])
  have q2: "mapped_pages (mem s2) r 0 (npages sz) = Q" "\<And>i. i < npages sz \<Longrightarrow> leaf_entry (pte_at (mem s2) r (vpage 0 i))"
    using v2 U(7) by (simp_all add: mapped_pages_def Q_def)
  note t2 = unmapped_same(2) [OF u2] and pk2 = mem_step_page_ok [OF freesD(1) [OF f2]]
  have d: "distinct Q" "\<And>q. q \<in> set Q \<Longrightarrow> page_ok s q \<and> q \<notin> set ps \<union> tables w r"
    using page assms(5) S by (auto simp: PQ)
  obtain s3 where s3: "whenM (sz > 0) (uvmunmap r 0 (PGROUNDUP sz div PGSIZE) True) s2 = Ret ((), s3)"
    "frees s2 (set Q \<union> tables w r) s3 (rev Q @ ps)" "vm_inv s3 r (rev Q @ ps)"
    "unmapped r (vpage 0 ` {..<npages sz}) (pt_words (mem s2)) (pt_words (mem s3))"
    using uvmunmap_user [OF s2(3) U(3) q2(2) q2(1) [symmetric] d(1), unfolded t2 pk2, OF _ d(2)] by blast
  have u3: "unmapped r (user_vas sz) w (pt_words (mem s3))"
    using unmapped_trans [OF u2 s3(4)] by (simp add: user_vas_def)
  have f3: "frees s (set P) s3 (rev Q @ ps)"
    by (rule frees_trans [OF frees_mono [OF f2] frees_mono [OF s3(2)]]) (auto simp: PQ S)
  have "upper_points (pt_words (mem s3)) r" using unmapped_same(3) [OF u3] U(2) by (simp add: w_def)
  moreover have "\<not> bit (pt_word (pt_words (mem s3)) r a b c) 0" for a b c
    using u3 U(4) [of a b c] unfolding unmapped_def w_def by (cases "(a, b, c) \<in> pt_path ` user_vas sz") auto
  ultimately have "emptied 3 (pt_words (mem s3)) r" by (rule emptied_tables)
  moreover have sub: "subtables 3 (pt_words (mem s3)) r = S" unfolding S_def by (rule subtables_unmapped [OF u3])
  ultimately have "tables_ready 3 r s3 (rev Q @ ps)"
    unfolding tables_ready_def
    using freesD(2,3) [OF f3] U(1) assms(5) page mem_step_page_ok [OF freesD(1) [OF f3]] by (auto simp: PQ pt_ok_def)
  from freewalk_ok [OF this] obtain s4 where s4: "freewalk 3 r s3 = Ret ((), s4)" "frees s3 (set S) s4 (rev S @ rev Q @ ps)"
    unfolding frees_tables_def sub by blast
  have "frees s (set P) s4 (rev P @ ps)"
    using frees_trans [OF f3 frees_mono [OF s4(2)]] by (simp add: PQ)
  moreover have "proc_freepagetable r sz s = Ret ((), s4)"
    using s1(1) s2(1) s3(1) s4(1) by (simp add: proc_freepagetable_def uvmfree_def del: freewalk.simps)
  ultimately show ?thesis by blast
qed


section \<open>Freeing a process\<close>

text \<open>Memory outside of the tables does not matter to the address space.\<close>

lemma space_frame:
  assumes "uspace m r sz" "\<And>t. t \<in> tables (pt_words m) r \<Longrightarrow> pt_words m' t = pt_words m t"
  shows "uspace m' r sz" "space_pages m' r sz = space_pages m r sz"
proof -
  note u = unmapped_words [of "pt_words m" r "pt_words m'", OF assms(2)]
  have e: "pt_word (pt_words m') r a b c = pt_word (pt_words m) r a b c" for a b c using u by (simp add: unmapped_def)
  then have p: "pte_at m' r v = pte_at m r v" for v by (simp add: pte_at_def)
  show "uspace m' r sz" using assms(1) unmapped_same [OF u] e p by (simp add: uspace_def pt_ok_def)
  show "space_pages m' r sz = space_pages m r sz"
    using subtables_unmapped [OF u] p by (simp add: space_pages_def mapped_pages_def)
qed

text \<open>The pages of process \<open>z\<close>, and its slot after \<open>freeproc\<close>.\<close>

definition proc_pages :: "'z pstate_scheme \<Rightarrow> nat \<Rightarrow> u64 list" where
  "proc_pages s z = p_trapframe (proc s z) # space_pages (mem s) (p_pagetable (proc s z)) (p_sz (proc s z))"

definition freed_slot :: "proc \<Rightarrow> proc" where
  "freed_slot r = r\<lparr>p_trapframe := 0, p_pagetable := 0, p_sz := 0, p_pid := 0, p_parent := None,
     p_name := (p_name r)[0 := 0], p_chan := None, p_killed := 0, p_xstate := 0, p_state := UNUSED,
     p_etime := 0, p_rtime := 0, p_ctime := 0\<rparr>"

text \<open>A process whose memory is in order: its address space, and pages of its own that are neither
  free nor twice in it.\<close>

definition proc_mem_ok :: "'z pstate_scheme \<Rightarrow> nat \<Rightarrow> u64 list \<Rightarrow> bool" where
  "proc_mem_ok s z ps \<longleftrightarrow> kmem_ready s \<and> kmem_inv s ps \<and> uspace (mem s) (p_pagetable (proc s z)) (p_sz (proc s z)) \<and>
    distinct (proc_pages s z @ ps) \<and> (\<forall>q \<in> set (proc_pages s z). page_ok s q)"

lemma frees_nested:
  assumes "frees s T s' ps'" "noff (mycpu s) \<noteq> 0"
  shows "\<exists>f m. s' = s\<lparr>freelist := f, mem := m\<rparr>"
proof -
  from freesD(1) [OF assms(1)] obtain f m where "s' = s\<lparr>freelist := f, mem := m\<rparr> \<or> s' = settle (s\<lparr>freelist := f, mem := m\<rparr>)"
    unfolding mem_step_def by blast
  moreover have "noff (mycpu (s\<lparr>freelist := f, mem := m\<rparr>)) \<noteq> 0" using assms(2) by (simp add: mycpu_def cpuid_def)
  ultimately show ?thesis using settle_nested by metis
qed

lemma freeproc_ok:
  fixes s :: "'z pstate_scheme"
  assumes "proc_mem_ok s z ps" "noff (mycpu s) \<noteq> 0"
  shows "\<exists>f m. freeproc z s = Ret ((), s\<lparr>freelist := f, mem := m, proc := (proc s)(z := freed_slot (proc s z))\<rparr>) \<and>
    kmem_inv (s\<lparr>freelist := f, mem := m\<rparr>) (rev (proc_pages s z) @ ps) \<and>
    (\<forall>x. (\<forall>q \<in> set (proc_pages s z). \<not> in_range q 4096 x) \<longrightarrow> m x = mem s x)"
proof -
  define tf r sz where d: "tf = p_trapframe (proc s z)" "r = p_pagetable (proc s z)" "sz = p_sz (proc s z)"
  define P where "P = space_pages (mem s) r sz"
  have pp: "proc_pages s z = tf # P" by (simp add: proc_pages_def d P_def)
  have ok: "kmem_ready s" "kmem_inv s ps" "uspace (mem s) r sz" "distinct (P @ ps)" "tf \<notin> set ps" "tf \<notin> set P"
    "page_ok s tf" "\<And>q. q \<in> set P \<Longrightarrow> page_ok s q"
    using assms(1) by (auto simp: proc_mem_ok_def pp d [symmetric])
  have sub: "tables (pt_words (mem s)) r \<subseteq> set P" "r \<in> set P"
    using set_subtables [OF table_words_pt, of "mem s" r] by (auto simp: P_def space_pages_def tables_def)
  have nz: "tf \<noteq> 0" "r \<noteq> 0" using ok(2,7) ok(8) [OF sub(2)] by (auto simp: kmem_inv_def page_ok_def)
  obtain s1 where s1: "kfree tf s = Ret ((), s1)" "frees s {tf} s1 (tf # ps)" using frees_kfree [OF ok(1,2,7,5)] .
  from frees_nested [OF s1(2) assms(2)] obtain f m where fm: "s1 = s\<lparr>freelist := f, mem := m\<rparr>" by blast
  define s2 where "s2 = upd_proc z (\<lambda>r. r\<lparr>p_trapframe := 0\<rparr>) s1"
  have "pt_words (mem s1) t = pt_words (mem s) t" if "t \<in> tables (pt_words (mem s)) r" for t
    using that sub(1) ok(6-8) by (intro frees_words [OF s1(2)]) (auto simp: page_ok_def)
  note sp = space_frame [OF ok(3) this, folded P_def]
  have r2: "kmem_ready s2" "kmem_inv s2 (tf # ps)" "mem s2 = mem s1" "\<And>q. page_ok s2 q = page_ok s q" "noff (mycpu s2) \<noteq> 0"
    using freesD(2,3) [OF s1(2)] mem_step_page_ok [OF freesD(1) [OF s1(2)]] assms(2)
    by (simp_all add: s2_def upd_proc_def kmem_ready_def kmem_inv_def page_ok_def fm mycpu_def cpuid_def)
  have "\<exists>s3. proc_freepagetable r sz s2 = Ret ((), s3) \<and> frees s2 (set P) s3 (rev P @ tf # ps)"
    using ok(4-6,8) sp(2) r2(3,4) by (intro proc_freepagetable_ok [OF r2(1,2)]) (simp_all add: sp(1))
  then obtain s3 where s3: "proc_freepagetable r sz s2 = Ret ((), s3)" "frees s2 (set P) s3 (rev P @ tf # ps)" by blast
  from frees_nested [OF s3(2) r2(5)] obtain f' m' where fm': "s3 = s2\<lparr>freelist := f', mem := m'\<rparr>" by blast
  have "freeproc z s = Ret ((), s\<lparr>freelist := f', mem := m', proc := (proc s)(z := freed_slot (proc s z))\<rparr>)"
    using nz s1(1) s3(1)
    by (simp add: freeproc_def kM_simps d [symmetric] s2_def fm fm' upd_proc_def freed_slot_def)
  moreover have "kmem_inv (s\<lparr>freelist := f', mem := m'\<rparr>) (rev (proc_pages s z) @ ps)"
    using freesD(3) [OF s3(2)] by (simp add: fm' s2_def upd_proc_def fm pp kmem_inv_def page_ok_def)
  moreover have "m' x = mem s x" if "\<forall>q \<in> set (proc_pages s z). \<not> in_range q 4096 x" for x
    using that freesD(4) [OF s1(2), of x] freesD(4) [OF s3(2), of x] r2(3) by (simp add: fm' pp)
  ultimately show ?thesis by blast
qed


section \<open>Waiting for a child\<close>

text \<open>\<open>wait\<close> and \<open>waitx\<close> at a zombie child, from what the copy of the exit status and \<open>freeproc\<close> do.\<close>

lemma wait_one_ends:
  assumes fin: "if c < 0 then v = u else freeproc z (acq (KProc z) (acq KWait u)) = Ret ((), acq (KProc z) (acq KWait v))"
    and v: "hart_ok v" "lock_free KWait v" "lock_free (KProc z) v"
  shows "(if c < 0 then seq (release (KProc z)) (seq (release KWait) (return x))
      else seq (freeproc z) (seq (release (KProc z)) (seq (release KWait) (return y)))) (acq (KProc z) (acq KWait u))
    = Ret (if c < 0 then x else y, settle v)"
proof -
  have "release (KProc z) (acq (KProc z) (acq KWait v)) = Ret ((), acq KWait v)"
    using release_acq [of "acq KWait v" "KProc z"] v by simp
  moreover have "release KWait (acq KWait v) = Ret ((), settle v)" using v(1,2) by (rule release_acq)
  ultimately show ?thesis using fin by (cases "c < 0") (simp_all add: seq_apply return_apply)
qed

lemma wait_one_reaps:
  assumes "procs_ready s" "z < NPROC" "p_parent (proc s z) = Some p" "p_state (proc s z) = ZOMBIE"
    and copy: "(if addr \<noteq> 0 then copyout (p_pagetable (proc s p)) addr (int_bytes (p_xstate (proc s z))) else return 0)
      (acq (KProc z) s) = Ret (c, acq (KProc z) (acq KWait u))"
    and fin: "if c < 0 then v = u else freeproc z (acq (KProc z) (acq KWait u)) = Ret ((), acq (KProc z) (acq KWait v))"
    and v: "hart_ok v" "lock_free KWait v" "lock_free (KProc z) v"
  shows "wait_one p addr z hk s = Ret (Inr (if c < 0 then -1 else p_pid (proc s z)), settle v)"
    and "waitx_one p addr z hk s = Ret (Inr (if c < 0 then -1 else p_pid (proc s z),
      Some (p_etime (proc s z) - p_ctime (proc s z) - p_rtime (proc s z), p_rtime (proc s z))), settle v)"
proof -
  have "lock_free (KProc z) s" using procs_readyD [OF assms(1)] assms(2) by simp
  note simps = bind_apply seq_apply [of "acquire _"] gets_apply acquire_free lock_free_unlocked this assms(3,4) copy
    wait_one_ends [OF fin v] Let_def
  show "wait_one p addr z hk s = Ret (Inr (if c < 0 then -1 else p_pid (proc s z)), settle v)"
    by (simp add: wait_one_def simps split del: if_split) (simp split: if_split)
  show "waitx_one p addr z hk s = Ret (Inr (if c < 0 then -1 else p_pid (proc s z),
      Some (p_etime (proc s z) - p_ctime (proc s z) - p_rtime (proc s z), p_rtime (proc s z))), settle v)"
    by (simp add: waitx_one_def simps split del: if_split cong: if_cong) (simp split: if_split)
qed

text \<open>The exit status fits: no address was given, or the four bytes at it are mapped.\<close>

definition status_fits :: "mem \<Rightarrow> u64 \<Rightarrow> u64 \<Rightarrow> bool" where
  "status_fits m q addr \<longleftrightarrow> addr = 0 \<or> (\<forall>i<4. upage m q (addr + of_nat i) \<noteq> None)"

text \<open>The user memory after \<open>n\<close> bytes of the exit status have been stored.\<close>

definition with_status :: "u64 \<Rightarrow> u8 list \<Rightarrow> (u64 \<Rightarrow> u8 option) \<Rightarrow> u64 \<Rightarrow> u8 option" where
  "with_status addr bs f = (if addr = 0 then f else overlay addr bs f)"

lemma status_copy:
  fixes s :: "'z vmstate_scheme"
  assumes "user_ok (mem s) q" "unat addr + 4 \<le> 2 ^ 38" "length bs = 4"
  obtains n m where "(if addr \<noteq> 0 then copyout q addr bs else return 0) s
      = Ret (if status_fits (mem s) q addr then 0 else -1, s\<lparr>mem := m\<rparr>)"
    "n < 4 \<longleftrightarrow> \<not> status_fits (mem s) q addr" "user_ok m q" "\<And>a. upage m q a = upage (mem s) q a"
    "umem m q = with_status addr (take n bs) (umem (mem s) q)" "\<And>x. not_user (mem s) q x \<Longrightarrow> m x = mem s x"
proof (cases "addr = 0")
  case True
  then show ?thesis using that [of "mem s" 4] assms(1) by (simp add: status_fits_def return_apply with_status_def)
next
  case False
  have "unat addr + length bs \<le> 2 ^ 38" using assms(2,3) by simp
  from copyout_loop_ok [OF assms(1) this order_refl] obtain n m where n:
    "copyout q addr bs s = Ret (if n = 4 then 0 else -1, s\<lparr>mem := m\<rparr>)" "mapped_upto (mem s) q addr 4 n" "user_ok m q"
    "\<And>a. upage m q a = upage (mem s) q a" "umem m q = overlay addr (take n bs) (umem (mem s) q)"
    "\<And>x. not_user (mem s) q x \<Longrightarrow> m x = mem s x" unfolding copyout_def assms(3) by blast
  have "n = 4 \<longleftrightarrow> status_fits (mem s) q addr" "n < 4 \<longleftrightarrow> \<not> status_fits (mem s) q addr"
    using n(2) False unfolding mapped_upto_def status_fits_def by (metis order_le_less)+
  then show ?thesis using that [of m n] n False by (simp add: with_status_def)
qed


text \<open>The tables and pages of the user with page table \<open>q\<close> are not in \<open>A\<close>.\<close>

definition apart :: "mem \<Rightarrow> u64 \<Rightarrow> u64 set \<Rightarrow> bool" where
  "apart m q A \<longleftrightarrow> tables (pt_words m) q \<inter> A = {} \<and> (\<forall>a p. upage m q a = Some p \<longrightarrow> p \<notin> A)"

lemma other_page_not_user:
  assumes "\<And>a p. upage m q a = Some p \<Longrightarrow> p \<noteq> b" "b mod PGSIZE = 0" "in_range b 4096 x"
  shows "not_user m q x"
  unfolding not_user_def
proof (intro allI impI notI)
  fix a p assume p: "upage m q a = Some p" "in_range p 4096 x"
  then have "p = b" using page_disjoint [OF upage_aligned [OF p(1)] assms(2) p(2)] assms(3) by blast
  then show False using assms(1) p(1) by blast
qed

lemma apart_not_user: "apart m q A \<Longrightarrow> b \<in> A \<Longrightarrow> b mod PGSIZE = 0 \<Longrightarrow> in_range b 4096 x \<Longrightarrow> not_user m q x"
  by (rule other_page_not_user) (auto simp: apart_def)

lemma table_not_user:
  assumes "user_ok m q" "b \<in> tables (pt_words m) q" "in_range b 4096 x"
  shows "not_user m q x"
proof (rule other_page_not_user [OF _ tables_aligned [OF _ assms(2)] assms(3)])
qed (use assms in \<open>auto simp: user_ok_def\<close>)

lemma umem_frame:
  assumes "user_ok m q" "apart m q A" "\<And>b. b \<in> A \<Longrightarrow> b mod PGSIZE = 0"
    "\<And>x. (\<forall>b \<in> A. \<not> in_range b 4096 x) \<Longrightarrow> m' x = m x"
  shows "umem m' q = umem m q"
proof
  fix a
  have ok: "pt_ok m q" using assms(1) by (simp add: user_ok_def)
  have out: "m' x = m x" if "t \<notin> A" "t mod PGSIZE = 0" "in_range t 4096 x" for t x
    using page_disjoint [OF that(2) assms(3) that(3)] that(1) by (intro assms(4)) blast
  have "m' x = m x" if "t \<in> tables (pt_words m) q" "in_range t 4096 x" for t x
    using out [OF _ tables_aligned [OF ok that(1)] that(2)] that(1) assms(2) unfolding apart_def by blast
  note same = same_tables(4) [OF ok this]
  have "m' (p + of_nat (unat a mod 4096)) = m (p + of_nat (unat a mod 4096))" if "upage m q a = Some p" for p
    using out [OF _ upage_aligned [OF that], of "p + of_nat (unat a mod 4096)"] assms(2) that unfolding apart_def
    by (meson in_rangeI mod_less_divisor zero_less_numeral)
  then show "umem m' q a = umem m q a" by (simp add: umem_def same split: option.split)
qed

lemma proc_mem_frame:
  fixes t :: "'z pstate_scheme"
  assumes ok: "proc_mem_ok t z ps" and m: "\<And>b x. b \<in> set (proc_pages t z @ ps) \<Longrightarrow> in_range b 4096 x \<Longrightarrow> m x = mem t x"
  shows "proc_mem_ok (t\<lparr>mem := m\<rparr>) z ps" "proc_pages (t\<lparr>mem := m\<rparr>) z = proc_pages t z"
proof -
  let ?r = "p_pagetable (proc t z)" and ?sz = "p_sz (proc t z)"
  have u: "uspace (mem t) ?r ?sz" "kmem_ready t" "kmem_inv t ps" using ok by (simp_all add: proc_mem_ok_def)
  have "pt_words m b = pt_words (mem t) b" if "b \<in> tables (pt_words (mem t)) ?r" for b
    using that set_subtables [OF table_words_pt, of "mem t" ?r]
    by (intro pt_words_frame m [of b]) (auto simp: proc_pages_def space_pages_def)
  note sp = space_frame [OF u(1) this]
  show e: "proc_pages (t\<lparr>mem := m\<rparr>) z = proc_pages t z" using sp(2) by (simp add: proc_pages_def)
  have "kmem_inv (t\<lparr>mem := m\<rparr>) ps" by (rule kmem_inv_frame [OF u(3)]) (use m in auto)
  then show "proc_mem_ok (t\<lparr>mem := m\<rparr>) z ps" using ok sp(1) u(2) e by (simp add: proc_mem_ok_def page_ok_def)
qed

lemma proc_mem_acq:
  assumes "proc_mem_ok t z ps" "l \<noteq> KMem"
  shows "proc_mem_ok (acq l t) z ps" "proc_pages (acq l t) z = proc_pages t z"
  using assms by (auto simp: proc_mem_ok_def proc_pages_def kmem_ready_def kmem_inv_def page_ok_def)


text \<open>The state after the zombie \<open>z\<close> has been reaped: its slot is free, its pages are on the free list,
  and the user memory of the parent, whose page table is \<open>q\<close>, has the exit status at \<open>addr\<close>; nothing
  else of the kernel and no other byte of memory has changed. When the copy fails, only its first bytes are there.\<close>

definition reaped :: "'z pstate_scheme \<Rightarrow> nat \<Rightarrow> u64 \<Rightarrow> u64 \<Rightarrow> u64 list \<Rightarrow> 'z pstate_scheme \<Rightarrow> bool" where
  "reaped t z q addr ps v \<longleftrightarrow> (\<exists>f m. v = t\<lparr>freelist := f, mem := m, proc := (proc t)(z := freed_slot (proc t z))\<rparr> \<and>
    kmem_inv v (rev (proc_pages t z) @ ps) \<and>
    umem m q = with_status addr (int_bytes (p_xstate (proc t z))) (umem (mem t) q) \<and>
    (\<forall>x. not_user (mem t) q x \<and> (\<forall>b \<in> set (proc_pages t z). \<not> in_range b 4096 x) \<longrightarrow> m x = mem t x))"

definition not_reaped :: "'z pstate_scheme \<Rightarrow> nat \<Rightarrow> u64 \<Rightarrow> u64 \<Rightarrow> 'z pstate_scheme \<Rightarrow> bool" where
  "not_reaped t z q addr v \<longleftrightarrow> (\<exists>n m. n < 4 \<and> v = t\<lparr>mem := m\<rparr> \<and>
    umem m q = with_status addr (take n (int_bytes (p_xstate (proc t z)))) (umem (mem t) q) \<and>
    (\<forall>x. not_user (mem t) q x \<longrightarrow> m x = mem t x))"

lemma status_copied:
  fixes t :: "'z pstate_scheme"
  assumes "user_ok (mem t) q" "unat addr + 4 \<le> 2 ^ 38" and bs: "bs = int_bytes (p_xstate (proc t z))"
  obtains n m where "(if addr \<noteq> 0 then copyout q addr bs else return 0) (acq (KProc z) (acq KWait t))
      = Ret (if status_fits (mem t) q addr then 0 else -1, acq (KProc z) (acq KWait (t\<lparr>mem := m\<rparr>)))"
    "n < 4 \<longleftrightarrow> \<not> status_fits (mem t) q addr" "user_ok m q" "\<And>a. upage m q a = upage (mem t) q a"
    "umem m q = with_status addr (take n bs) (umem (mem t) q)" "\<And>x. not_user (mem t) q x \<Longrightarrow> m x = mem t x"
proof -
  have "length bs = 4" using bs by (simp add: int_bytes_def)
  then show thesis by (rule status_copy [of "acq (KProc z) (acq KWait t)" q addr bs, rotated 2]) (use assms(1,2) that in simp_all)
qed

lemma reap_zombie:
  fixes t :: "'z pstate_scheme"
  assumes M: "proc_mem_ok t z ps" "user_ok (mem t) q" "apart (mem t) q (set (proc_pages t z @ ps))" "unat addr + 4 \<le> 2 ^ 38"
    and t: "hart_ok t"
  obtains c u v where "(if addr \<noteq> 0 then copyout q addr (int_bytes (p_xstate (proc t z))) else return 0)
      (acq (KProc z) (acq KWait t)) = Ret (c, acq (KProc z) (acq KWait u))"
    "if c < 0 then v = u else freeproc z (acq (KProc z) (acq KWait u)) = Ret ((), acq (KProc z) (acq KWait v))"
    "(c < 0) = (\<not> status_fits (mem t) q addr)" "if c < 0 then not_reaped t z q addr v else reaped t z q addr ps v"
proof -
  let ?bs = "int_bytes (p_xstate (proc t z))" and ?P = "proc_pages t z"
  obtain n m where c: "(if addr \<noteq> 0 then copyout q addr ?bs else return 0) (acq (KProc z) (acq KWait t))
      = Ret (if status_fits (mem t) q addr then 0 else -1, acq (KProc z) (acq KWait (t\<lparr>mem := m\<rparr>)))"
    "n < 4 \<longleftrightarrow> \<not> status_fits (mem t) q addr" "user_ok m q" "\<And>a. upage m q a = upage (mem t) q a"
    "umem m q = with_status addr (take n ?bs) (umem (mem t) q)" "\<And>x. not_user (mem t) q x \<Longrightarrow> m x = mem t x"
    by (rule status_copied [OF M(2,4) refl]) (rule that)
  show ?thesis
  proof (cases "status_fits (mem t) q addr")
    case False
    then show ?thesis using c that [of "-1" "t\<lparr>mem := m\<rparr>" "t\<lparr>mem := m\<rparr>"] by (auto simp: not_reaped_def)
  next
    case True
    have al: "b mod PGSIZE = 0" if "b \<in> set (?P @ ps)" for b
      using that M(1) by (auto simp: proc_mem_ok_def page_ok_def kmem_inv_def)
    have "m x = mem t x" if "b \<in> set (?P @ ps)" "in_range b 4096 x" for b x
      using apart_not_user [OF M(3) that(1) al [OF that(1)] that(2)] by (rule c(6))
    note fr = proc_mem_frame [OF M(1) this]
    let ?u = "acq (KProc z) (acq KWait (t\<lparr>mem := m\<rparr>))"
    note a1 = proc_mem_acq [OF fr(1), where l = KWait, simplified]
    note a2 = proc_mem_acq [OF a1(1), where l = "KProc z", simplified]
    have "mycpu (t\<lparr>mem := m\<rparr>) = mycpu t" by (simp add: mycpu_def cpuid_def)
    then have "noff (mycpu ?u) \<noteq> 0" using t by (simp add: hart_ok_def)
    then have "\<exists>f m'. freeproc z ?u = Ret ((), ?u\<lparr>freelist := f, mem := m', proc := (proc ?u)(z := freed_slot (proc ?u z))\<rparr>) \<and>
      kmem_inv (?u\<lparr>freelist := f, mem := m'\<rparr>) (rev ?P @ ps) \<and>
      (\<forall>x. (\<forall>b \<in> set ?P. \<not> in_range b 4096 x) \<longrightarrow> m' x = mem ?u x)"
      using freeproc_ok [OF a2(1)] a1(2) a2(2) fr(2) by simp
    then obtain f m' where f: "freeproc z ?u = Ret ((), acq (KProc z) (acq KWait
          (t\<lparr>freelist := f, mem := m', proc := (proc t)(z := freed_slot (proc t z))\<rparr>)))"
      "kmem_inv (t\<lparr>freelist := f, mem := m'\<rparr>) (rev ?P @ ps)"
      "\<And>x. (\<forall>b \<in> set ?P. \<not> in_range b 4096 x) \<Longrightarrow> m' x = m x"
      by (auto simp: kmem_inv_def page_ok_def)
    have "pt_ok (mem t) q" using M(2) by (simp add: user_ok_def)
    from same_tables(2) [OF this] have "tables (pt_words m) q = tables (pt_words (mem t)) q"
      using c(6) table_not_user [OF M(2)] by blast
    then have "apart m q (set ?P)" using M(3) c(4) by (auto simp: apart_def)
    then have "umem m' q = umem m q" using al f(3) by (intro umem_frame [OF c(3)]) auto
    then have "reaped t z q addr ps (t\<lparr>freelist := f, mem := m', proc := (proc t)(z := freed_slot (proc t z))\<rparr>)"
      unfolding reaped_def using f(2,3) c(2,5,6) True by (intro exI conjI) (auto simp: kmem_inv_def page_ok_def int_bytes_def)
    then show ?thesis using that [of 0 "t\<lparr>mem := m\<rparr>"] c(1) f(1) True by auto
  qed
qed


definition first_zombie :: "'z pstate_scheme \<Rightarrow> nat \<Rightarrow> nat \<Rightarrow> bool" where
  "first_zombie t p z \<longleftrightarrow> z < NPROC \<and> p_parent (proc t z) = Some p \<and> p_state (proc t z) = ZOMBIE \<and>
    (\<forall>k<z. p_parent (proc t k) = Some p \<longrightarrow> p_state (proc t k) \<noteq> ZOMBIE)"

lemma reaped_locks:
  assumes "if b then not_reaped t z q addr v else reaped t z q addr ps v"
  shows "hart_ok v = hart_ok t" "lock_free l v = lock_free l t"
  using assms by (auto simp: not_reaped_def reaped_def split: if_splits)

text \<open>Without a zombie child the scan only finds out whether there are children.\<close>

lemma wait_scans_none:
  assumes "procs_ready s" "noff (mycpu s) \<noteq> 0"
    and "\<forall>k<NPROC. p_parent (proc s k) = Some p \<longrightarrow> p_state (proc s k) \<noteq> ZOMBIE"
  shows "wait_scan p addr s = Ret (Inl (\<exists>k<NPROC. p_parent (proc s k) = Some p), s)"
    "waitx_scan p addr s = Ret (Inl (\<exists>k<NPROC. p_parent (proc s k) = Some p), s)"
proof -
  have "wait_scan p addr s = Ret (Inl (False \<or> (\<exists>k<NPROC. p_parent (proc s k) = Some p)), s)"
    unfolding wait_scan_def using assms(3) by (intro for_fold_scan wait_one_pass [OF assms(1,2)]) simp_all
  then show "wait_scan p addr s = Ret (Inl (\<exists>k<NPROC. p_parent (proc s k) = Some p), s)" by simp
  have "waitx_scan p addr s = Ret (Inl (False \<or> (\<exists>k<NPROC. p_parent (proc s k) = Some p)), s)"
    unfolding waitx_scan_def using assms(3) by (intro for_fold_scan wait_one_pass [OF assms(1,2)]) simp_all
  then show "waitx_scan p addr s = Ret (Inl (\<exists>k<NPROC. p_parent (proc s k) = Some p), s)" by simp
qed

lemma wait_scans_zombie:
  assumes "procs_ready s" "noff (mycpu s) \<noteq> 0" "first_zombie s p z"
  shows "(\<And>hk. wait_one p addr z hk s = Ret (Inr r, v)) \<Longrightarrow> wait_scan p addr s = Ret (Inr r, v)"
    "(\<And>hk. waitx_one p addr z hk s = Ret (Inr r', v)) \<Longrightarrow> waitx_scan p addr s = Ret (Inr r', v)"
proof -
  have z: "z < NPROC" using assms(3) by (simp add: first_zombie_def)
  have pre: "for_fold [0..<z] (wait_one p addr) False s = Ret (Inl (False \<or> (\<exists>k<z. p_parent (proc s k) = Some p)), s)"
      "for_fold [0..<z] (waitx_one p addr) False s = Ret (Inl (False \<or> (\<exists>k<z. p_parent (proc s k) = Some p)), s)"
    using assms(3) by (intro for_fold_scan wait_one_pass [OF assms(1,2)]; simp add: first_zombie_def)+
  show "wait_scan p addr s = Ret (Inr r, v)" if "\<And>hk. wait_one p addr z hk s = Ret (Inr r, v)"
    unfolding wait_scan_def upt_split3 [OF z] using pre(1) that by (simp add: for_fold_append kM_simps)
  show "waitx_scan p addr s = Ret (Inr r', v)" if "\<And>hk. waitx_one p addr z hk s = Ret (Inr r', v)"
    unfolding waitx_scan_def upt_split3 [OF z] using pre(2) that by (simp add: for_fold_append kM_simps)
qed

lemma wait_reap:
  fixes t :: "'z pstate_scheme"
  assumes t: "procs_ready t" "noff (mycpu t) = 0" "cproc (mycpu t) = Some p" "lock_free KWait t"
    and z: "first_zombie t p z"
    and M: "proc_mem_ok t z ps" "user_ok (mem t) q" "apart (mem t) q (set (proc_pages t z @ ps))"
      "unat addr + 4 \<le> 2 ^ 38" "q = p_pagetable (proc t p)"
    and wr: "wr = (p_etime (proc t z) - p_ctime (proc t z) - p_rtime (proc t z), p_rtime (proc t z))"
  obtains c v where "(c < 0) = (\<not> status_fits (mem t) q addr)"
    "if c < 0 then not_reaped t z q addr v else reaped t z q addr ps v"
    "wait (Suc n) sw addr t = Ret (if c < (0::int) then -1 else p_pid (proc t z), settle v)"
    "waitx (Suc n) sw addr t = Ret ((if c < 0 then -1 else p_pid (proc t z), Some wr), settle v)"
proof -
  let ?s = "acq KWait t"
  have ok: "hart_ok t" using t(1) by (rule procs_readyD)
  have s: "procs_ready ?s" "noff (mycpu ?s) \<noteq> 0" "first_zombie ?s p z"
    using t(1,2) z by (simp_all add: procs_ready_def first_zombie_def)
  obtain c u v where c: "(if addr \<noteq> 0 then copyout q addr (int_bytes (p_xstate (proc t z))) else return 0)
      (acq (KProc z) ?s) = Ret (c, acq (KProc z) (acq KWait u))"
    "if c < 0 then v = u else freeproc z (acq (KProc z) (acq KWait u)) = Ret ((), acq (KProc z) (acq KWait v))"
    "(c < 0) = (\<not> status_fits (mem t) q addr)" "if c < 0 then not_reaped t z q addr v else reaped t z q addr ps v"
    by (rule reap_zombie [OF M(1-4) ok]) (rule that)
  have zp: "z < NPROC" "p_parent (proc ?s z) = Some p" "p_state (proc ?s z) = ZOMBIE" using z by (simp_all add: first_zombie_def)
  have "hart_ok v" "lock_free KWait v" "lock_free (KProc z) v"
    using reaped_locks [OF c(4)] ok t(4) procs_readyD(2) [OF t(1) zp(1)] by simp_all
  moreover have "(if addr \<noteq> 0 then copyout (p_pagetable (proc ?s p)) addr (int_bytes (p_xstate (proc ?s z))) else return 0)
      (acq (KProc z) ?s) = Ret (c, acq (KProc z) (acq KWait u))" using c(1) unfolding M(5) by (simp only: pstate_acq)
  ultimately have one: "wait_one p addr z hk ?s = Ret (Inr (if c < 0 then -1 else p_pid (proc t z)), settle v)"
      "waitx_one p addr z hk ?s = Ret (Inr (if c < 0 then -1 else p_pid (proc t z), Some wr), settle v)" for hk
    using wait_one_reaps [OF s(1) zp _ c(2)] unfolding wr by (simp_all only: pstate_acq)
  have "wait_scan p addr ?s = Ret (Inr (if c < 0 then -1 else p_pid (proc t z)), settle v)"
    by (rule wait_scans_zombie(1) [OF s one(1)])
  moreover have "waitx_scan p addr ?s = Ret (Inr (if c < 0 then -1 else p_pid (proc t z), Some wr), settle v)"
    by (rule wait_scans_zombie(2) [OF s one(2)])
  ultimately show ?thesis
    using that [OF c(3,4)] ok t(3,4) by (simp add: kM_simps myproc_eq with_ptr_def acquire_free lock_free_unlocked wait_def waitx_def)
qed


text \<open>C10. \<^verbatim>\<open>wait(addr)\<close> and \<^verbatim>\<open>waitx\<close> of process \<open>p\<close>. Without a zombie child they return -1
  when there are no children or the process has been killed. Otherwise they take the first zombie child \<open>z\<close> in the
  order of the table. If the four bytes at \<open>addr\<close> are mapped in the page table of \<open>p\<close>, or \<open>addr\<close> is 0, they return the
  pid of \<open>z\<close>, and \<^verbatim>\<open>waitx\<close> the time it ran and the time it waited: the exit status is in the memory of \<open>p\<close>, the
  slot of \<open>z\<close> is free, and its trap frame, the pages of its memory and all of its page tables are on the free list, no
  other byte of memory changed. If the bytes are not mapped they return -1 and \<open>z\<close> is still a zombie. The
  memory of \<open>z\<close> is an address space with pages of its own (\<open>proc_mem_ok\<close>), apart from that of \<open>p\<close>. The locks are
  as before the call.\<close>

theorem wait_reaps_first_zombie:
  fixes t :: "'z pstate_scheme"
  assumes "procs_ready t" "noff (mycpu t) = 0" "cproc (mycpu t) = Some p" "p < NPROC" "lock_free KWait t"
    and "q = p_pagetable (proc t p)" "unat addr + 4 \<le> 2 ^ 38"
  shows "((\<forall>k<NPROC. p_parent (proc t k) = Some p \<longrightarrow> p_state (proc t k) \<noteq> ZOMBIE) \<and>
      ((\<forall>k<NPROC. p_parent (proc t k) \<noteq> Some p) \<or> p_killed (proc t p) \<noteq> 0) \<longrightarrow>
      wait (Suc n) sw addr t = Ret (-1, settle t) \<and> waitx (Suc n) sw addr t = Ret ((-1, None), settle t))
    \<and> (\<forall>z ps wr. first_zombie t p z \<and> proc_mem_ok t z ps \<and> user_ok (mem t) q \<and> apart (mem t) q (set (proc_pages t z @ ps))
        \<and> wr = (p_etime (proc t z) - p_ctime (proc t z) - p_rtime (proc t z), p_rtime (proc t z)) \<longrightarrow>
      (\<exists>v. if status_fits (mem t) q addr
        then reaped t z q addr ps v \<and> wait (Suc n) sw addr t = Ret (p_pid (proc t z), settle v)
          \<and> waitx (Suc n) sw addr t = Ret ((p_pid (proc t z), Some wr), settle v)
        else not_reaped t z q addr v \<and> wait (Suc n) sw addr t = Ret (-1, settle v)
          \<and> waitx (Suc n) sw addr t = Ret ((-1, Some wr), settle v)))"
proof (intro conjI impI allI; (elim conjE)?)
  let ?s = "acq KWait t"
  have ok: "hart_ok t" "lock_free (KProc p) t" using procs_readyD [OF assms(1)] assms(4) by simp_all
  have s: "procs_ready ?s" "noff (mycpu ?s) \<noteq> 0" using assms(1,2) by (simp_all add: procs_ready_def)
  {
    assume "\<forall>k<NPROC. p_parent (proc t k) = Some p \<longrightarrow> p_state (proc t k) \<noteq> ZOMBIE"
      and kid: "(\<forall>k<NPROC. p_parent (proc t k) \<noteq> Some p) \<or> p_killed (proc t p) \<noteq> 0"
    then have "\<forall>k<NPROC. p_parent (proc ?s k) = Some p \<longrightarrow> p_state (proc ?s k) \<noteq> ZOMBIE" by simp
    note scan = wait_scans_none [OF s this, of addr]
    have "killed p ?s = Ret (p_killed (proc t p), ?s)"
      using ok by (simp add: killed_def crit settle_nested)
    note start = kM_simps myproc_eq ok with_ptr_def acquire_free lock_free_unlocked assms(3,5) wait_def waitx_def scan release_acq this
    show "wait (Suc n) sw addr t = Ret (-1, settle t)" using kid by (auto simp: start)
    show "waitx (Suc n) sw addr t = Ret ((-1, None), settle t)" using kid by (auto simp: start)
  }
  fix z ps wr
  assume "first_zombie t p z" "proc_mem_ok t z ps" "user_ok (mem t) q" "apart (mem t) q (set (proc_pages t z @ ps))"
    "wr = (p_etime (proc t z) - p_ctime (proc t z) - p_rtime (proc t z), p_rtime (proc t z))"
  from wait_reap [OF assms(1-3,5) this(1-4) assms(7,6) this(5), of n sw]
  obtain c :: int and v where "(c < 0) = (\<not> status_fits (mem t) q addr)"
    "if c < 0 then not_reaped t z q addr v else reaped t z q addr ps v"
    "wait (Suc n) sw addr t = Ret (if c < 0 then -1 else p_pid (proc t z), settle v)"
    "waitx (Suc n) sw addr t = Ret ((if c < 0 then -1 else p_pid (proc t z), Some wr), settle v)" by blast
  then show "\<exists>v. if status_fits (mem t) q addr
        then reaped t z q addr ps v \<and> wait (Suc n) sw addr t = Ret (p_pid (proc t z), settle v)
          \<and> waitx (Suc n) sw addr t = Ret ((p_pid (proc t z), Some wr), settle v)
        else not_reaped t z q addr v \<and> wait (Suc n) sw addr t = Ret (-1, settle v)
          \<and> waitx (Suc n) sw addr t = Ret ((-1, Some wr), settle v)" by (intro exI [of _ v]) auto
qed


text \<open>A zombie with one page of user memory at \<open>0x87F07000\<close>, its trap frame at \<open>0x87F04000\<close>, and five tables;
  its parent has the page table of \<open>user_mem\<close>.\<close>

definition set_pte :: "u64 \<Rightarrow> nat \<Rightarrow> u64 \<Rightarrow> mem \<Rightarrow> mem" where
  "set_pte t i e m = store64 (t + 8 * of_nat i) e m"

definition zombie_mem :: mem where
  "zombie_mem =
    set_pte 0x87F01000 255 (PA2PTE 0x87F02000 OR PTE_V) (set_pte 0x87F02000 511 (PA2PTE 0x87F03000 OR PTE_V)
    (set_pte 0x87F03000 511 (PA2PTE 0x80007000 OR (PTE_R OR PTE_X OR PTE_V))
    (set_pte 0x87F03000 510 (PA2PTE 0x87F04000 OR (PTE_R OR PTE_W OR PTE_V))
    (set_pte 0x87F01000 0 (PA2PTE 0x87F05000 OR PTE_V) (set_pte 0x87F05000 0 (PA2PTE 0x87F06000 OR PTE_V)
    (set_pte 0x87F06000 0 (PA2PTE 0x87F07000 OR (PTE_R OR PTE_W OR PTE_X OR PTE_U OR PTE_V)) user_mem))))))"

lemma zombie_words: "pt_words zombie_mem = (pt_words user_mem)
    (0x87F06000 := (\<lambda>_. 0)(0 := PA2PTE 0x87F07000 OR (PTE_R OR PTE_W OR PTE_X OR PTE_U OR PTE_V)),
     0x87F05000 := (\<lambda>_. 0)(0 := PA2PTE 0x87F06000 OR PTE_V),
     0x87F01000 := (\<lambda>_. 0)(0 := PA2PTE 0x87F05000 OR PTE_V, 255 := PA2PTE 0x87F02000 OR PTE_V),
     0x87F03000 := (\<lambda>_. 0)(510 := PA2PTE 0x87F04000 OR (PTE_R OR PTE_W OR PTE_V),
       511 := PA2PTE 0x80007000 OR (PTE_R OR PTE_X OR PTE_V)),
     0x87F02000 := (\<lambda>_. 0)(511 := PA2PTE 0x87F03000 OR PTE_V))"
proof -
  have st: "pt_words (set_pte t i e m) = (pt_words m)(t := (pt_words m t)(i := e))" if "t mod PGSIZE = 0" "i < 512" for t i e m
    unfolding set_pte_def by (rule pt_words_store [OF that])
  have z: "pt_words user_mem t = (\<lambda>_. 0)" if "t \<notin> {0x87FF3000, 0x87FF2000, 0x87FF1000}" for t
    using that by (auto simp: user_mem_words)
  show ?thesis unfolding zombie_mem_def by (simp add: st PGSIZE_def z fun_upd_twist)
qed

lemma zombie_entries:
  "PTE2PA (PA2PTE 0x87F02000 OR PTE_V) = 0x87F02000" "PTE2PA (PA2PTE 0x87F03000 OR PTE_V) = 0x87F03000"
  "PTE2PA (PA2PTE 0x87F05000 OR PTE_V) = 0x87F05000" "PTE2PA (PA2PTE 0x87F06000 OR PTE_V) = 0x87F06000"
  "PTE2PA (PA2PTE 0x87F07000 OR (PTE_R OR PTE_W OR PTE_X OR PTE_U OR PTE_V)) = 0x87F07000"
  "points (PA2PTE 0x87F02000 OR PTE_V)" "points (PA2PTE 0x87F03000 OR PTE_V)"
  "points (PA2PTE 0x87F05000 OR PTE_V)" "points (PA2PTE 0x87F06000 OR PTE_V)"
  "leaf_entry (PA2PTE 0x87F04000 OR (PTE_R OR PTE_W OR PTE_V))" "leaf_entry (PA2PTE 0x80007000 OR (PTE_R OR PTE_X OR PTE_V))"
  "leaf_entry (PA2PTE 0x87F07000 OR (PTE_R OR PTE_W OR PTE_X OR PTE_U OR PTE_V))"
  by (simp_all add: PTE2PA_def PA2PTE_def PTE_V_def PTE_R_def PTE_W_def PTE_U_def PTE_X_def points_def leaf_entry_def PTE_FLAGS_def
      bit_simps)


lemma zombie_tree:
  shows "tables (pt_words zombie_mem) 0x87F01000 = {0x87F01000, 0x87F02000, 0x87F03000, 0x87F05000, 0x87F06000}"
    "pt_ok zombie_mem 0x87F01000" "upper_points (pt_words zombie_mem) 0x87F01000"
    "pt_word (pt_words zombie_mem) 0x87F01000 a b c =
      (if a = 0 \<and> b = 0 \<and> c = 0 then PA2PTE 0x87F07000 OR (PTE_R OR PTE_W OR PTE_X OR PTE_U OR PTE_V)
       else if a = 255 \<and> b = 511 \<and> c = 510 then PA2PTE 0x87F04000 OR (PTE_R OR PTE_W OR PTE_V)
       else if a = 255 \<and> b = 511 \<and> c = 511 then PA2PTE 0x80007000 OR (PTE_R OR PTE_X OR PTE_V) else 0)"
proof -
  let ?w = "pt_words zombie_mem" and ?r = "0x87F01000 :: u64"
  note e = zombie_entries
  have b: "bit (PA2PTE p OR PTE_V) 0" for p by (simp add: PTE_V_def bit_or_iff)
  have v: "vld ?w ?r a \<longleftrightarrow> a = 0 \<or> a = 255" for a using b by (auto simp: vld_def zombie_words)
  have n: "next_tbl ?w ?r 0 = 0x87F05000" "next_tbl ?w ?r 255 = 0x87F02000" by (simp_all add: next_tbl_def zombie_words e)
  have v2: "vld ?w 0x87F05000 a \<longleftrightarrow> a = 0" "vld ?w 0x87F02000 a \<longleftrightarrow> a = 511" for a
    using b by (auto simp: vld_def zombie_words)
  have p: "path_ok ?w ?r a b \<longleftrightarrow> a = 0 \<and> b = 0 \<or> a = 255 \<and> b = 511" for a b by (auto simp: path_ok_def v n v2)
  have l: "leaf_table ?w ?r 0 0 = 0x87F06000" "leaf_table ?w ?r 255 511 = 0x87F03000"
    unfolding leaf_table_def n by (simp_all add: next_tbl_def zombie_words e)
  have "{next_tbl ?w ?r a |a. vld ?w ?r a} = {next_tbl ?w ?r 0, next_tbl ?w ?r 255}"
    "{leaf_table ?w ?r a b |a b. path_ok ?w ?r a b} = {leaf_table ?w ?r 0 0, leaf_table ?w ?r 255 511}"
    unfolding v p by blast+
  then show t: "tables ?w ?r = {0x87F01000, 0x87F02000, 0x87F03000, 0x87F05000, 0x87F06000}"
    unfolding tables_def n l by auto
  show "pt_ok zombie_mem ?r" unfolding pt_ok_def tree_ok_def by (auto simp add: t v n p l PGSIZE_def)
  have "?w ?r 0 = PA2PTE 0x87F05000 OR PTE_V" "?w ?r 255 = PA2PTE 0x87F02000 OR PTE_V"
    "?w 0x87F05000 0 = PA2PTE 0x87F06000 OR PTE_V" "?w 0x87F02000 511 = PA2PTE 0x87F03000 OR PTE_V" by (simp_all add: zombie_words)
  then show "upper_points ?w ?r" unfolding upper_points_def by (auto simp: v p n e(6-9))
  have "?w 0x87F06000 c = (if c = 0 then PA2PTE 0x87F07000 OR (PTE_R OR PTE_W OR PTE_X OR PTE_U OR PTE_V) else 0)"
    "?w 0x87F03000 c = (if c = 510 then PA2PTE 0x87F04000 OR (PTE_R OR PTE_W OR PTE_V)
      else if c = 511 then PA2PTE 0x80007000 OR (PTE_R OR PTE_X OR PTE_V) else 0)" by (simp_all add: zombie_words)
  then show "pt_word ?w ?r a b c =
      (if a = 0 \<and> b = 0 \<and> c = 0 then PA2PTE 0x87F07000 OR (PTE_R OR PTE_W OR PTE_X OR PTE_U OR PTE_V)
       else if a = 255 \<and> b = 511 \<and> c = 510 then PA2PTE 0x87F04000 OR (PTE_R OR PTE_W OR PTE_V)
       else if a = 255 \<and> b = 511 \<and> c = 511 then PA2PTE 0x80007000 OR (PTE_R OR PTE_X OR PTE_V) else 0)"
    unfolding pt_word_def p by (auto simp: l)
qed

lemma zombie_space:
  "uspace zombie_mem 0x87F01000 4096" "mapped_pages zombie_mem 0x87F01000 0 (npages 4096) = [0x87F07000]"
proof -
  let ?w = "pt_words zombie_mem" and ?r = "0x87F01000 :: u64"
  have i: "pt_path TRAMPOLINE = (255, 511, 511)" "pt_path TRAPFRAME = (255, 511, 510)" "pt_path (vpage 0 0) = (0, 0, 0)"
    by (simp_all add: pt_index_eq vm_consts)
  have n: "npages 4096 = 1" by (simp add: npages_def PGROUNDUP_def PGSIZE_def)
  have V: "user_vas 4096 = {TRAMPOLINE, TRAPFRAME, vpage 0 0}" by (auto simp: user_vas_def n lessThan_Suc)
  have le: "leaf_entry (pte_at zombie_mem ?r v)" if "pt_path v \<in> {(255, 511, 511), (255, 511, 510), (0, 0, 0)}" for v
    using that zombie_entries(10-12) by (auto simp: pte_at_def zombie_tree(4))
  have "(a, b, c) \<in> pt_path ` user_vas 4096" if "bit (pt_word ?w ?r a b c) 0" for a b c
    using that unfolding V image_insert i zombie_tree(4) by (auto split: if_splits)
  moreover have "leaf_entry (pte_at zombie_mem ?r v)" if "v \<in> user_vas 4096" for v
    using that le i unfolding V by blast
  ultimately show "uspace zombie_mem ?r 4096"
    using zombie_tree(2,3) by (simp add: uspace_def n vm_consts)
  show "mapped_pages zombie_mem ?r 0 (npages 4096) = [0x87F07000]"
    using i(3) by (simp add: n mapped_pages_def pte_at_def zombie_tree(4) zombie_entries(5))
qed


lemma zombie_parent:
  "user_ok zombie_mem 0x87FF1000" "upage zombie_mem 0x87FF1000 a = (if pgno a = 1 then Some 0x87FF4000 else None)"
  "tables (pt_words zombie_mem) 0x87FF1000 = {0x87FF1000, 0x87FF2000, 0x87FF3000}"
proof -
  let ?r = "0x87FF1000 :: u64"
  have t: "tables (pt_words user_mem) ?r = {0x87FF1000, 0x87FF2000, 0x87FF3000}" by (rule user_mem_ok(3))
  have u: "unmapped ?r {} (pt_words user_mem) (pt_words zombie_mem)"
    by (rule unmapped_words) (auto simp: t zombie_words)
  have p: "pte_at zombie_mem ?r v = pte_at user_mem ?r v" for v using u by (simp add: unmapped_def pte_at_def)
  then have up: "upage zombie_mem ?r v = upage user_mem ?r v" for v by (simp add: upage_def)
  show tb: "tables (pt_words zombie_mem) ?r = {0x87FF1000, 0x87FF2000, 0x87FF3000}" using unmapped_same(2) [OF u] t by simp
  show "upage zombie_mem ?r a = (if pgno a = 1 then Some 0x87FF4000 else None)" using up by (simp add: user_mem_ok(2))
  show "user_ok zombie_mem ?r"
    using user_mem_ok(1) unfolding user_ok_def pt_ok_def up unmapped_same(1,2) [OF u] .
qed

definition dead_child :: "nat \<Rightarrow> proc" where
  "dead_child = (\<lambda>_. blank_proc)
     (1 := blank_proc\<lparr>p_pid := 2, p_state := RUNNING, p_pagetable := 0x87FF1000\<rparr>,
      2 := blank_proc\<lparr>p_pid := 3, p_state := RUNNABLE, p_parent := Some 1\<rparr>,
      3 := blank_proc\<lparr>p_pid := 4, p_state := ZOMBIE, p_parent := Some 1, p_xstate := 7, p_sz := 4096,
        p_pagetable := 0x87F01000, p_trapframe := 0x87F04000, p_ctime := 5, p_rtime := 7, p_etime := 20\<rparr>)"

abbreviation zombie_state :: pstate where
  "zombie_state \<equiv> quiet_pstate dead_child (Some 1)\<lparr>mem := zombie_mem\<rparr>"

lemma zombie_proc_mem:
  "proc_mem_ok zombie_state 3 []" "apart zombie_mem 0x87FF1000 (set (proc_pages zombie_state 3))"
  "0x87F07000 \<in> set (proc_pages zombie_state 3)"
proof -
  let ?r = "0x87F01000 :: u64"
  define S where "S = subtables 3 (pt_words zombie_mem) ?r"
  have S: "set S = {0x87F01000, 0x87F02000, 0x87F03000, 0x87F05000, 0x87F06000}" "distinct S"
    using set_subtables [OF table_words_pt, of zombie_mem ?r] distinct_subtables [OF table_words_pt] zombie_tree(1,2)
    by (simp_all add: S_def pt_ok_def)
  have P: "proc_pages zombie_state 3 = [0x87F04000, 0x87F07000] @ S"
    by (simp add: proc_pages_def space_pages_def dead_child_def S_def zombie_space(2))
  have "kmem_ready zombie_state" by (simp add: kmem_ready_def)
  moreover have "kmem_inv zombie_state []" by (simp add: kmem_inv_nil quiet_pstate_def)
  moreover have "page_ok zombie_state q" if "q \<in> set (proc_pages zombie_state 3)" for q
    using that unfolding P by (auto simp: S(1) page_ok_def quiet_pstate_def PGSIZE_def PHYSTOP_def KERNBASE_def)
  moreover have "uspace (mem zombie_state) (p_pagetable (proc zombie_state 3)) (p_sz (proc zombie_state 3))"
    using zombie_space(1) by (simp add: dead_child_def)
  moreover have "distinct (proc_pages zombie_state 3 @ [])" unfolding P using S by simp
  ultimately show "proc_mem_ok zombie_state 3 []" unfolding proc_mem_ok_def by blast
  show "apart zombie_mem 0x87FF1000 (set (proc_pages zombie_state 3))"
    unfolding apart_def P by (auto simp: S(1) zombie_parent(2,3) split: if_splits)
  show "0x87F07000 \<in> set (proc_pages zombie_state 3)" unfolding P by simp
qed

theorem wait_reaps_first_zombie_witness:
  "\<exists>v ps. wait 1 (return ()) 0x1010 zombie_state = Ret (4, settle v) \<and> p_state (proc v 3) = UNUSED \<and>
    umem (mem v) 0x87FF1000 0x1010 = Some 7 \<and> kmem_inv v ps \<and> 0x87F07000 \<in> set ps"
proof -
  let ?t = zombie_state and ?q = "0x87FF1000 :: u64" and ?a = "0x1010 :: u64"
  have t: "procs_ready ?t" "noff (mycpu ?t) = 0" "cproc (mycpu ?t) = Some 1" "1 < NPROC" "lock_free KWait ?t"
    "?q = p_pagetable (proc ?t 1)" "unat ?a + 4 \<le> 2 ^ 38"
    by (simp_all add: quiet_pstate_def procs_ready_def hart_ok_def lock_free_def hart_defs NPROC_def dead_child_def)
  have z: "first_zombie ?t 1 3" by (auto simp: first_zombie_def NPROC_def dead_child_def blank_proc_def)
  have "pgno (?a + of_nat i) = 1" if "i < 4" for i
    using that unat_add_of_nat [of ?a i] by (simp add: pgno_def)
  then have fits: "status_fits (mem ?t) ?q ?a" by (simp add: status_fits_def zombie_parent(2))
  have "apart (mem ?t) ?q (set (proc_pages ?t 3 @ []))" "user_ok (mem ?t) ?q" using zombie_proc_mem(2) zombie_parent(1) by simp_all
  with z zombie_proc_mem(1) conjunct2 [OF wait_reaps_first_zombie [OF t, of 0 "return ()"], unfolded if_P [OF fits]]
  obtain v where v: "reaped ?t 3 ?q ?a [] v" "wait (Suc 0) (return ()) ?a ?t = Ret (p_pid (proc ?t 3), settle v)"
    by blast
  have "p_pid (proc ?t 3) = 4" "p_xstate (proc ?t 3) = 7" by (simp_all add: dead_child_def)
  with v(2) have w: "wait 1 (return ()) ?a ?t = Ret (4, settle v)" by (simp only: One_nat_def)
  from v(1) have k: "p_state (proc v 3) = UNUSED" "kmem_inv v (rev (proc_pages ?t 3) @ [])"
      "umem (mem v) ?q = with_status ?a (int_bytes 7) (umem (mem ?t) ?q)"
    unfolding reaped_def \<open>p_xstate (proc ?t 3) = 7\<close> by (auto simp: freed_slot_def)
  have "int_bytes 7 ! 0 = 7" by (simp add: int_bytes_def le_bytes_def)
  then have "umem (mem v) ?q ?a = Some 7" using k(3) by (simp add: with_status_def overlay_def int_bytes_def)
  then show ?thesis using w k(1,2) zombie_proc_mem(3) by (intro exI [of _ v] exI [of _ "rev (proc_pages ?t 3)"]) simp
qed

end
