(* ===== verification/Bcache.thy ===== *)
theory Bcache
  imports Bio
begin

text \<open>The buffer cache as a ring. The equations of the sleep locks and of the operations of \<^verbatim>\<open>bio.c\<close> when no
  other process interferes (\<open>calm\<close>), and the doubly linked list of the buffers as a list: \<open>ring\<close> relates the
  links of the buffers to the list of their numbers, front first, and linking, unlinking and moving to the front are cons, removal
  and both on it.\<close>

section \<open>Critical sections\<close>

lemma slks_acq [simp]:
  "slks (acq l s) = slks s"
  "(acq l s)\<lparr>slks := x0\<rparr> = acq l (s\<lparr>slks := x0\<rparr>)"
  by (simp_all add: acq_def push_off_def hart_defs Let_def)

lemma slks_settle [simp]:
  "slks (settle s) = slks s"
  "(settle s)\<lparr>slks := x0\<rparr> = settle (s\<lparr>slks := x0\<rparr>)"
  by (simp_all add: settle_def hart_defs)

lemma slks_ok [simp]:
  "hart_ok (s\<lparr>slks := x0\<rparr>) = hart_ok s" "lock_free l (s\<lparr>slks := x0\<rparr>) = lock_free l s" "mycpu (s\<lparr>slks := x0\<rparr>) = mycpu s"
  "intr_get (s\<lparr>slks := x0\<rparr>) = intr_get s"
  by (simp_all add: hart_ok_def lock_free_def hart_defs)

lemma slks_ready [simp]:
  "procs_ready (s\<lparr>slks := x0\<rparr>) = procs_ready s"
  by (simp_all add: procs_ready_def)


lemma bufs_acq [simp]:
  "bufs (acq l s) = bufs s"
  "(acq l s)\<lparr>bufs := x0\<rparr> = acq l (s\<lparr>bufs := x0\<rparr>)"
  by (simp_all add: acq_def push_off_def hart_defs Let_def)

lemma bufs_settle [simp]:
  "bufs (settle s) = bufs s"
  "(settle s)\<lparr>bufs := x0\<rparr> = settle (s\<lparr>bufs := x0\<rparr>)"
  by (simp_all add: settle_def hart_defs)

lemma bufs_ok [simp]:
  "hart_ok (s\<lparr>bufs := x0\<rparr>) = hart_ok s" "lock_free l (s\<lparr>bufs := x0\<rparr>) = lock_free l s" "mycpu (s\<lparr>bufs := x0\<rparr>) = mycpu s"
  "intr_get (s\<lparr>bufs := x0\<rparr>) = intr_get s"
  by (simp_all add: hart_ok_def lock_free_def hart_defs)

lemma bufs_ready [simp]:
  "procs_ready (s\<lparr>bufs := x0\<rparr>) = procs_ready s"
  by (simp_all add: procs_ready_def)


lemma procs_acq [simp]: "procs_ready s \<Longrightarrow> procs_ready (acq (inner lk) s)" "procs_ready s \<Longrightarrow> procs_ready (acq KBcache s)"
  by (cases lk; simp add: procs_ready_acq)+

lemmas sl_simps = crit with_ptr_def upd_slk_def my_pid_def myproc_eq wakeup_eq procs_readyD(1)

text \<open>The state of the process that runs: it may take every spin lock.\<close>

definition calm :: "nat \<Rightarrow> int \<Rightarrow> 'z sstate_scheme \<Rightarrow> bool" where
  "calm p pid s \<longleftrightarrow> procs_ready s \<and> (\<forall>l. lock_free l s) \<and> cproc (mycpu s) = Some p \<and> p_pid (proc s p) = pid"

lemma calmD: "calm p pid s \<Longrightarrow> procs_ready s" "calm p pid s \<Longrightarrow> hart_ok s" "calm p pid s \<Longrightarrow> lock_free l s"
  "calm p pid s \<Longrightarrow> cproc (mycpu s) = Some p" "calm p pid s \<Longrightarrow> p_pid (proc s p) = pid"
  by (auto simp: calm_def procs_readyD)

lemma calm_upd [simp]: "calm p pid (settle s) = calm p pid s" "calm p pid (s\<lparr>slks := x\<rparr>) = calm p pid s"
  by (simp_all add: calm_def)

lemma calm_bufs [simp]: "calm p pid (s\<lparr>bufs := y\<rparr>) = calm p pid s"
  by (simp add: calm_def)

lemma calm_wake [simp]: "calm p pid (s\<lparr>proc := wake_all ch (Some p) f\<rparr>) = calm p pid (s\<lparr>proc := f\<rparr>)"
  by (simp add: calm_def wake_all_def)

lemma calm_self [simp]: "s\<lparr>proc := proc s\<rparr> = s"
  by simp

lemma acquiresleep_eq:
  assumes "calm p pid s" "\<not> sl_locked (slks s lk)"
  shows "acquiresleep E lk s = Ret ((), settle (upd_slk lk (\<lambda>l. l\<lparr>sl_locked := True, sl_pid := pid\<rparr>) s))"
proof -
  note c = calmD [OF assms(1)]
  have w: "while_fuel n (\<lambda>s. sl_locked (slks s lk)) m t = Ret ((), t)" if "\<not> sl_locked (slks t lk)" for n m and t :: "'a sstate_scheme"
    using that by (cases n) simp_all
  show ?thesis
    using c assms(2) by (simp add: acquiresleep_def sl_simps w)
qed

lemma releasesleep_eq:
  assumes "calm p pid s"
  shows "releasesleep lk s = Ret ((), settle ((upd_slk lk (\<lambda>l. l\<lparr>sl_locked := False, sl_pid := 0\<rparr>) s)
    \<lparr>proc := wake_all (Some (slk_chan lk)) (Some p) (proc s)\<rparr>))"
  using calmD [OF assms] by (simp add: releasesleep_def sl_simps)

lemma holdingsleep_eq:
  assumes "calm p pid s"
  shows "holdingsleep lk s = Ret (sl_locked (slks s lk) \<and> sl_pid (slks s lk) = pid, settle s)"
  using calmD [OF assms] by (simp add: holdingsleep_def sl_simps)

section \<open>The list of buffers\<close>

text \<open>\<open>chain nx pv zs\<close>: the links of neighbours in \<open>zs\<close> point to each other. \<open>ring B xs\<close>: the buffers
  form a circular list through the head, in the order \<open>xs\<close>.\<close>

fun chain :: "(nat \<Rightarrow> nat) \<Rightarrow> (nat \<Rightarrow> nat) \<Rightarrow> nat list \<Rightarrow> bool" where
  "chain nx pv (a # b # zs) \<longleftrightarrow> nx a = b \<and> pv b = a \<and> chain nx pv (b # zs)"
| "chain nx pv _ \<longleftrightarrow> True"

definition linked :: "(nat \<Rightarrow> buf) \<Rightarrow> nat list \<Rightarrow> bool" where
  "linked B xs \<longleftrightarrow> distinct xs \<and> bhead \<notin> set xs \<and>
    chain (\<lambda>b. b_next (B b)) (\<lambda>b. b_prev (B b)) (bhead # xs @ [bhead])"

definition ring :: "(nat \<Rightarrow> buf) \<Rightarrow> nat list \<Rightarrow> bool" where
  "ring B xs \<longleftrightarrow> linked B xs \<and> set xs = {..<NBUF}"

lemma chain_append: "chain nx pv (xs @ a # ys) \<longleftrightarrow> chain nx pv (xs @ [a]) \<and> chain nx pv (a # ys)"
proof (induction xs)
  case (Cons x xs)
  then show ?case by (cases xs) auto
qed simp

lemma chain_snoc:
  assumes "zs \<noteq> []"
  shows "chain nx pv (zs @ [z]) \<longleftrightarrow> chain nx pv zs \<and> nx (last zs) = z \<and> pv z = last zs"
proof -
  have z: "zs = butlast zs @ [last zs]" using assms by simp
  have "chain nx pv (zs @ [z]) = chain nx pv (butlast zs @ last zs # [z])" using z by (metis append_Cons append_Nil append_assoc)
  also have "\<dots> \<longleftrightarrow> chain nx pv zs \<and> nx (last zs) = z \<and> pv z = last zs"
    by (subst chain_append) (simp flip: z)
  finally show ?thesis .
qed

lemma chain_cong:
  assumes "\<And>a. a \<in> set (butlast zs) \<Longrightarrow> nx' a = nx a" "\<And>a. a \<in> set (tl zs) \<Longrightarrow> pv' a = pv a"
  shows "chain nx' pv' zs = chain nx pv zs"
  using assms
proof (induction nx pv zs rule: chain.induct)
  case (1 nx pv a b zs)
  have "chain nx' pv' (b # zs) = chain nx pv (b # zs)"
    using "1.prems" by (intro "1.IH") auto
  then show ?case using "1.prems"(1) [of a] "1.prems"(2) [of b] by simp
qed simp_all

text \<open>A node taken out of a chain, and one put in after the head.\<close>

lemma chain_remove:
  assumes "chain nx pv (h # xs @ b # ys @ [h])" "distinct (xs @ b # ys)" "h \<notin> set (xs @ b # ys)"
  shows "chain (nx(pv b := nx b)) (pv(nx b := pv b)) (h # xs @ ys @ [h])"
proof -
  define x where "x = last (h # xs)"
  define y where "y = hd (ys @ [h])"
  define as where "as = butlast (h # xs)"
  have hx: "h # xs = as @ [x]" by (simp add: as_def x_def)
  obtain zs where y: "ys @ [h] = y # zs" unfolding y_def by (metis append_is_Nil_conv list.exhaust_sel not_Cons_self2)
  have "chain nx pv ((as @ [x]) @ b # y # zs)" using assms(1) unfolding hx [symmetric] y [symmetric] by simp
  then have c: "chain nx pv (as @ [x])" "nx x = b" "pv b = x" "nx b = y" "pv y = b" "chain nx pv (y # zs)"
    using chain_append [of nx pv as x "b # y # zs"] by (simp_all)
  have xs: "x \<notin> set ys" "y \<notin> set xs"
  proof -
    have "x \<in> set (h # xs)" unfolding x_def by (rule last_in_set) simp
    moreover have "y \<in> set (ys @ [h])" unfolding y_def by (rule hd_in_set) simp
    ultimately show "x \<notin> set ys" "y \<notin> set xs" using assms(2,3) by auto
  qed
  have "chain (nx(x := y)) (pv(y := x)) (as @ [x]) = chain nx pv (as @ [x])"
  proof (rule chain_cong)
    fix a assume "a \<in> set (butlast (as @ [x]))"
    moreover have "distinct (h # xs)" using assms(2,3) by simp
    ultimately show "(nx(x := y)) a = nx a" unfolding hx by auto
  next
    fix a assume "a \<in> set (tl (as @ [x]))"
    then have "a \<in> set xs" unfolding hx [symmetric] by simp
    then show "(pv(y := x)) a = pv a" using xs(2) by auto
  qed
  moreover have "chain (nx(x := y)) (pv(y := x)) (y # zs) = chain nx pv (y # zs)"
  proof (rule chain_cong)
    fix a assume "a \<in> set (butlast (y # zs))"
    then have "a \<in> set ys" unfolding y [symmetric] by simp
    then show "(nx(x := y)) a = nx a" using xs(1) by auto
  next
    fix a assume "a \<in> set (tl (y # zs))"
    moreover have "distinct (ys @ [h])" using assms(2,3) by simp
    ultimately show "(pv(y := x)) a = pv a" unfolding y by auto
  qed
  ultimately have "chain (nx(x := y)) (pv(y := x)) (as @ x # y # zs)"
    using c(1,6) by (subst chain_append) simp
  then show ?thesis using c hx y by (metis append.assoc append_Cons append_Nil)
qed

lemma chain_insert:
  assumes "chain nx pv (h # zs @ [h])" "b \<notin> set zs" "b \<noteq> h" "h \<notin> set zs" "distinct zs"
  shows "chain (nx(b := nx h, h := b)) (pv(b := h, nx h := b)) (h # b # zs @ [h])"
proof -
  obtain y ws where y: "zs @ [h] = y # ws" by (metis append_is_Nil_conv list.exhaust_sel not_Cons_self2)
  have c: "nx h = y" "chain nx pv (y # ws)" using assms(1) unfolding y by simp_all
  have "y \<noteq> b" using y assms(2,3) by (cases zs) auto
  have "chain (nx(b := y, h := b)) (pv(b := h, y := b)) (y # ws) = chain nx pv (y # ws)"
  proof (rule chain_cong)
    fix a assume "a \<in> set (butlast (y # ws))"
    then have "a \<in> set zs" unfolding y [symmetric] by simp
    then show "(nx(b := y, h := b)) a = nx a" using assms(2,4) by auto
  next
    fix a assume a: "a \<in> set (tl (y # ws))"
    moreover have "distinct (zs @ [h])" using assms(4,5) by simp
    ultimately have "a \<noteq> y" unfolding y by auto
    moreover have "a \<in> set (zs @ [h])" using a unfolding y by simp
    ultimately show "(pv(b := h, y := b)) a = pv a" using assms(2,3) by auto
  qed
  then show ?thesis using c \<open>y \<noteq> b\<close> assms(3) unfolding c(1) by (simp add: y)
qed


text \<open>Two arrays of buffers that differ in the links only.\<close>

definition relinked :: "(nat \<Rightarrow> buf) \<Rightarrow> (nat \<Rightarrow> buf) \<Rightarrow> bool" where
  "relinked B B' \<longleftrightarrow> (\<forall>c. (B' c)\<lparr>b_prev := 0, b_next := 0\<rparr> = (B c)\<lparr>b_prev := 0, b_next := 0\<rparr>)"

lemma relinkedD:
  assumes "relinked B B'"
  shows "b_valid (B' c) = b_valid (B c)" "b_disk (B' c) = b_disk (B c)" "b_dev (B' c) = b_dev (B c)"
    "b_blockno (B' c) = b_blockno (B c)" "b_refcnt (B' c) = b_refcnt (B c)" "b_data (B' c) = b_data (B c)"
proof -
  have e: "(B' c)\<lparr>b_prev := 0, b_next := 0\<rparr> = (B c)\<lparr>b_prev := 0, b_next := 0\<rparr>" using assms by (simp add: relinked_def)
  show "b_valid (B' c) = b_valid (B c)" using arg_cong [OF e, of b_valid] by simp
  show "b_disk (B' c) = b_disk (B c)" using arg_cong [OF e, of b_disk] by simp
  show "b_dev (B' c) = b_dev (B c)" using arg_cong [OF e, of b_dev] by simp
  show "b_blockno (B' c) = b_blockno (B c)" using arg_cong [OF e, of b_blockno] by simp
  show "b_refcnt (B' c) = b_refcnt (B c)" using arg_cong [OF e, of b_refcnt] by simp
  show "b_data (B' c) = b_data (B c)" using arg_cong [OF e, of b_data] by simp
qed

lemma relinked_trans: "relinked B B' \<Longrightarrow> relinked B' B'' \<Longrightarrow> relinked B B''"
  by (simp add: relinked_def)

lemma relinked_prev: "relinked B (B(b := (B b)\<lparr>b_prev := p\<rparr>))"
  by (simp add: relinked_def)

lemma relinked_next: "relinked B (B(b := (B b)\<lparr>b_next := p\<rparr>))"
  by (simp add: relinked_def)

lemma link_front_ok:
  assumes "linked (bufs s) xs" "b \<notin> set xs" "b \<noteq> bhead"
  obtains B where "link_front b s = s\<lparr>bufs := B\<rparr>" "linked B (b # xs)" "relinked (bufs s) B"
proof
  let ?B = "bufs s"
  let ?B1 = "?B(b := (?B b)\<lparr>b_next := b_next (?B bhead)\<rparr>)"
  let ?B2 = "?B1(b := (?B1 b)\<lparr>b_prev := bhead\<rparr>)"
  let ?y = "b_next (?B bhead)"
  let ?B3 = "?B2(?y := (?B2 ?y)\<lparr>b_prev := b\<rparr>)"
  let ?B4 = "?B3(bhead := (?B3 bhead)\<lparr>b_next := b\<rparr>)"
  show "link_front b s = s\<lparr>bufs := ?B4\<rparr>" using assms(3) by (simp add: link_front_def upd_buf_def Let_def)
  show "relinked ?B ?B4"
    by (rule relinked_trans [OF relinked_trans [OF relinked_trans [OF relinked_next relinked_prev] relinked_prev] relinked_next])
  have "(\<lambda>c. b_next (?B4 c)) = (\<lambda>c. b_next (?B c))(b := b_next (?B bhead), bhead := b)"
    "(\<lambda>c. b_prev (?B4 c)) = (\<lambda>c. b_prev (?B c))(b := bhead, b_next (?B bhead) := b)"
    using assms(3) by (auto simp: fun_eq_iff)
  then show "linked ?B4 (b # xs)"
    using chain_insert [of "\<lambda>c. b_next (?B c)" "\<lambda>c. b_prev (?B c)" bhead xs b] assms
    by (simp only: linked_def append_Cons) (simp add: assms(3) [symmetric])
qed

lemma unlink_buf_ok:
  assumes "linked (bufs s) (xs @ b # ys)"
  obtains B where "unlink_buf b s = s\<lparr>bufs := B\<rparr>" "linked B (xs @ ys)" "relinked (bufs s) B"
proof
  let ?B = "bufs s"
  let ?n = "b_next (?B b)" and ?p = "b_prev (?B b)"
  let ?B1 = "?B(?n := (?B ?n)\<lparr>b_prev := ?p\<rparr>)"
  let ?B2 = "?B1(?p := (?B1 ?p)\<lparr>b_next := ?n\<rparr>)"
  have c: "chain (\<lambda>b. b_next (?B b)) (\<lambda>b. b_prev (?B b)) (bhead # xs @ b # ys @ [bhead])"
    "distinct (xs @ b # ys)" "bhead \<notin> set (xs @ b # ys)"
    using assms by (simp_all add: linked_def)
  have "chain (\<lambda>b. b_next (?B b)) (\<lambda>b. b_prev (?B b)) (b # ys @ [bhead])"
    using c(1) chain_append [of _ _ "bhead # xs" b "ys @ [bhead]"] by simp
  then have "?n \<in> set (ys @ [bhead])" by (cases ys) simp_all
  then have nb: "?n \<noteq> b" using c(2,3) by auto
  then show "unlink_buf b s = s\<lparr>bufs := ?B2\<rparr>" by (simp add: unlink_buf_def upd_buf_def Let_def)
  show "relinked ?B ?B2" by (rule relinked_trans [OF relinked_prev relinked_next])
  have "(\<lambda>c. b_next (?B2 c)) = (\<lambda>c. b_next (?B c))(?p := ?n)" "(\<lambda>c. b_prev (?B2 c)) = (\<lambda>c. b_prev (?B c))(?n := ?p)"
    by (auto simp: fun_eq_iff)
  then show "linked ?B2 (xs @ ys)"
    using chain_remove [OF c] c(2,3) by (simp only: linked_def) simp
qed

lemma move_front_ok:
  assumes "ring (bufs s) xs" "b < NBUF"
  obtains B where "link_front b (unlink_buf b s) = s\<lparr>bufs := B\<rparr>" "ring B (b # remove1 b xs)" "relinked (bufs s) B"
proof -
  have "b \<in> set xs" using assms by (simp add: ring_def)
  then obtain us vs where xs: "xs = us @ b # vs" "b \<notin> set us" by (meson split_list_first)
  have l: "linked (bufs s) (us @ b # vs)" using assms(1) xs(1) by (simp add: ring_def)
  obtain B1 where B1: "unlink_buf b s = s\<lparr>bufs := B1\<rparr>" "linked B1 (us @ vs)" "relinked (bufs s) B1"
    by (rule unlink_buf_ok [OF l])
  have d: "b \<notin> set (us @ vs)" "b \<noteq> bhead" using l by (auto simp: linked_def)
  have "linked (bufs (s\<lparr>bufs := B1\<rparr>)) (us @ vs)" using B1(2) by simp
  then obtain B where B: "link_front b (s\<lparr>bufs := B1\<rparr>) = (s\<lparr>bufs := B1\<rparr>)\<lparr>bufs := B\<rparr>" "linked B (b # us @ vs)"
      "relinked (bufs (s\<lparr>bufs := B1\<rparr>)) B" by (rule link_front_ok [OF _ d])
  have r: "remove1 b xs = us @ vs" using xs by (simp add: remove1_append)
  show ?thesis
  proof (rule that)
    show "link_front b (unlink_buf b s) = s\<lparr>bufs := B\<rparr>" using B(1) B1(1) by simp
    show "ring B (b # remove1 b xs)" using B(2) assms(1) xs(1) unfolding r by (auto simp: ring_def)
    show "relinked (bufs s) B" using relinked_trans [OF B1(3)] B(3) by simp
  qed
qed


section \<open>Scans\<close>

lemma bget_find_eq:
  assumes "chain (\<lambda>b. b_next (bufs s b)) pv (zs @ [bhead])" "bhead \<notin> set zs" "length zs \<le> n"
  shows "bget_find n dev bno (hd (zs @ [bhead])) s
    = Ret (find (\<lambda>b. b_dev (bufs s b) = dev \<and> b_blockno (bufs s b) = bno) zs, s)"
  using assms
proof (induction zs arbitrary: n)
  case Nil
  then show ?case by (cases n) (simp_all add: kM_simps)
next
  case (Cons z zs)
  then obtain k where n: "n = Suc k" by (cases n) auto
  have "b_next (bufs s z) = hd (zs @ [bhead])" "chain (\<lambda>b. b_next (bufs s b)) pv (zs @ [bhead])"
    using Cons.prems(1) by (cases zs; simp)+
  then show ?case using Cons.IH [of k] Cons.prems(2,3) by (auto simp: n kM_simps)
qed

lemma bget_unused_eq:
  assumes "chain nx (\<lambda>b. b_prev (bufs s b)) (bhead # zs)" "bhead \<notin> set zs" "length zs \<le> n"
  shows "bget_unused n (last (bhead # zs)) s = Ret (find (\<lambda>b. b_refcnt (bufs s b) = 0) (rev zs), s)"
  using assms
proof (induction zs arbitrary: n rule: rev_induct)
  case Nil
  then show ?case by (cases n) (simp_all add: kM_simps)
next
  case (snoc z zs)
  then obtain k where n: "n = Suc k" by (cases n) auto
  have "b_prev (bufs s z) = last (bhead # zs)" "chain nx (\<lambda>b. b_prev (bufs s b)) (bhead # zs)"
    using snoc.prems(1) chain_snoc [of "bhead # zs" nx _ z] by simp_all
  then show ?case using snoc.IH [of k] snoc.prems(2,3) by (auto simp: n kM_simps)
qed

lemma ring_length: "ring B xs \<Longrightarrow> length xs = NBUF"
  unfolding ring_def linked_def by (metis card_lessThan distinct_card)

lemma ring_scan:
  assumes "ring (bufs s) xs"
  shows "bget_find NBUF dev bno (b_next (bufs s bhead)) s
      = Ret (find (\<lambda>b. b_dev (bufs s b) = dev \<and> b_blockno (bufs s b) = bno) xs, s)"
    "bget_unused NBUF (b_prev (bufs s bhead)) s = Ret (find (\<lambda>b. b_refcnt (bufs s b) = 0) (rev xs), s)"
proof -
  let ?nx = "\<lambda>b. b_next (bufs s b)" and ?pv = "\<lambda>b. b_prev (bufs s b)"
  have c: "chain ?nx ?pv (bhead # xs @ [bhead])" "bhead \<notin> set xs" using assms by (auto simp: ring_def linked_def)
  note len = ring_length [OF assms]
  have f: "?nx bhead = hd (xs @ [bhead])" "chain ?nx ?pv (xs @ [bhead])" using c(1) by (cases xs; simp)+
  show "bget_find NBUF dev bno (b_next (bufs s bhead)) s
      = Ret (find (\<lambda>b. b_dev (bufs s b) = dev \<and> b_blockno (bufs s b) = bno) xs, s)"
    using bget_find_eq [OF f(2) c(2), of NBUF] f(1) len by simp
  have b: "?pv bhead = last (bhead # xs)" "chain ?nx ?pv (bhead # xs)"
    using c(1) chain_snoc [of "bhead # xs" ?nx ?pv bhead] by simp_all
  show "bget_unused NBUF (b_prev (bufs s bhead)) s = Ret (find (\<lambda>b. b_refcnt (bufs s b) = 0) (rev xs), s)"
    using bget_unused_eq [OF b(2) c(2), of NBUF] b(1) len by simp
qed

section \<open>The operations\<close>

definition sl_lock :: "int \<Rightarrow> sleeplock \<Rightarrow> sleeplock" where
  "sl_lock pid l = l\<lparr>sl_locked := True, sl_pid := pid\<rparr>"

definition sl_unlock :: "sleeplock \<Rightarrow> sleeplock" where
  "sl_unlock l = l\<lparr>sl_locked := False, sl_pid := 0\<rparr>"

lemma bget_eq:
  assumes "calm p pid s" "ring (bufs s) xs"
    and hit_def: "hit = find (\<lambda>b. b_dev (bufs s b) = dev \<and> b_blockno (bufs s b) = bno) xs"
    and old_def: "old = find (\<lambda>b. b_refcnt (bufs s b) = 0) (rev xs)"
  shows "hit = Some b \<Longrightarrow> \<not> sl_locked (slks s (SBuf b)) \<Longrightarrow>
      bget E dev bno s = Ret (b, settle (upd_slk (SBuf b) (sl_lock pid) (upd_buf b (\<lambda>r. r\<lparr>b_refcnt := b_refcnt r + 1\<rparr>) s)))"
    "hit = None \<Longrightarrow> old = Some b \<Longrightarrow> \<not> sl_locked (slks s (SBuf b)) \<Longrightarrow>
      bget E dev bno s = Ret (b, settle (upd_slk (SBuf b) (sl_lock pid)
        (upd_buf b (\<lambda>r. r\<lparr>b_dev := dev, b_blockno := bno, b_valid := False, b_refcnt := 1\<rparr>) s)))"
    "hit = None \<Longrightarrow> old = None \<Longrightarrow> bget E dev bno s = Panic ''bget: no buffers''"
proof -
  note c = calmD [OF assms(1)]
  have r: "ring (bufs (acq KBcache s)) xs" using assms(2) by simp
  note sc = ring_scan [OF r, simplified]
  show "bget E dev bno s = Ret (b, settle (upd_slk (SBuf b) (sl_lock pid) (upd_buf b (\<lambda>r. r\<lparr>b_refcnt := b_refcnt r + 1\<rparr>) s)))"
    if "hit = Some b" "\<not> sl_locked (slks s (SBuf b))"
    using that assms(1) c by (simp add: bget_def crit sc hit_def upd_buf_def acquiresleep_eq [of p pid] upd_slk_def sl_lock_def)
  show "bget E dev bno s = Ret (b, settle (upd_slk (SBuf b) (sl_lock pid)
        (upd_buf b (\<lambda>r. r\<lparr>b_dev := dev, b_blockno := bno, b_valid := False, b_refcnt := 1\<rparr>) s)))"
    if "hit = None" "old = Some b" "\<not> sl_locked (slks s (SBuf b))"
    using that assms(1) c
    by (simp add: bget_def crit sc hit_def old_def upd_buf_def acquiresleep_eq [of p pid] upd_slk_def sl_lock_def)
  show "bget E dev bno s = Panic ''bget: no buffers''" if "hit = None" "old = None"
    using that c by (simp add: bget_def crit sc hit_def old_def)
qed

lemma link_acq [simp]:
  "link_front b (acq l s) = acq l (link_front b s)" "unlink_buf b (acq l s) = acq l (unlink_buf b s)"
  "hart_ok (link_front b s) = hart_ok s" "hart_ok (unlink_buf b s) = hart_ok s"
  "lock_free l (link_front b s) = lock_free l s" "lock_free l (unlink_buf b s) = lock_free l s"
  by (simp_all add: link_front_def unlink_buf_def upd_buf_def Let_def)

lemma brelse_eq:
  assumes "calm p pid s" "sl_locked (slks s (SBuf b))" "sl_pid (slks s (SBuf b)) = pid"
  shows "brelse b s = Ret ((), settle ((\<lambda>t. if b_refcnt (bufs t b) = 0 then link_front b (unlink_buf b t) else t)
    (upd_buf b (\<lambda>r. r\<lparr>b_refcnt := b_refcnt r - 1\<rparr>)
      ((upd_slk (SBuf b) sl_unlock s)\<lparr>proc := wake_all (Some (ChBuf b)) (Some p) (proc s)\<rparr>))))"
  using calmD [OF assms(1)] assms
  by (simp add: brelse_def holdingsleep_eq [of p pid] releasesleep_eq [of p pid] crit upd_slk_def sl_unlock_def upd_buf_def)

end
