(* ===== verification/Crash.thy ===== *)
theory Crash
  imports Fs Bcache
begin

text \<open>The crash safety of the log. The disk is idealised as a sequence of whole block writes, over which the buffer
  cache of \<open>Bio\<close> is a store of blocks: \<open>store\<close> is its invariant, kept by every operation of
  \<^verbatim>\<open>bio.c\<close>. On it stand the operations of \<^verbatim>\<open>log.c\<close> one by one, the whole
  \<^verbatim>\<open>commit\<close> with the writes it issues, \<^verbatim>\<open>recover_from_log\<close>, and from the two the atomicity
  of a transaction under a crash after any number of writes.\<close>

section \<open>An ideal disk\<close>

text \<open>The disk as the blocks it held at first and the writes since then, in order. \<open>disk_rw\<close> is what the kernel
  expects of \<^verbatim>\<open>virtio_disk_rw\<close>: it returns when the transfer is done, and a block is written as a whole.\<close>

record dstate = fstate +
  disk0 :: "u32 \<Rightarrow> u8 list"
  writes :: "(u32 \<times> u8 list) list"

definition apply_writes :: "(u32 \<times> u8 list) list \<Rightarrow> (u32 \<Rightarrow> u8 list) \<Rightarrow> u32 \<Rightarrow> u8 list" where
  "apply_writes ws d = fold (\<lambda>(b, x) d. d(b := x)) ws d"

definition content :: "'z dstate_scheme \<Rightarrow> u32 \<Rightarrow> u8 list" where
  "content s = apply_writes (writes s) (disk0 s)"

definition disk_rw :: "nat \<Rightarrow> bool \<Rightarrow> ('z dstate_scheme, unit) kM" where
  "disk_rw b wr =
    (if wr then modify (\<lambda>s. s\<lparr>writes := writes s @ [(b_blockno (bufs s b), b_data (bufs s b))]\<rparr>)
     else modify (\<lambda>s. upd_buf b (\<lambda>r. r\<lparr>b_data := content s (b_blockno r)\<rparr>) s))"

lemma logf_acq [simp]:
  "log (acq l s) = log s"
  "(acq l s)\<lparr>log := x0\<rparr> = acq l (s\<lparr>log := x0\<rparr>)"
  by (simp_all add: acq_def push_off_def hart_defs Let_def)

lemma logf_settle [simp]:
  "log (settle s) = log s"
  "(settle s)\<lparr>log := x0\<rparr> = settle (s\<lparr>log := x0\<rparr>)"
  by (simp_all add: settle_def hart_defs)

lemma logf_ok [simp]:
  "hart_ok (s\<lparr>log := x0\<rparr>) = hart_ok s" "lock_free l (s\<lparr>log := x0\<rparr>) = lock_free l s" "mycpu (s\<lparr>log := x0\<rparr>) = mycpu s"
  "intr_get (s\<lparr>log := x0\<rparr>) = intr_get s"
  by (simp_all add: hart_ok_def lock_free_def hart_defs)

lemma logf_ready [simp]:
  "procs_ready (s\<lparr>log := x0\<rparr>) = procs_ready s"
  by (simp_all add: procs_ready_def)

lemma fsf_acq [simp]:
  "sb (acq l s) = sb s" "(acq l s)\<lparr>sb := x0\<rparr> = acq l (s\<lparr>sb := x0\<rparr>)"
  "itable (acq l s) = itable s" "(acq l s)\<lparr>itable := x1\<rparr> = acq l (s\<lparr>itable := x1\<rparr>)"
  by (simp_all add: acq_def push_off_def hart_defs Let_def)

lemma fsf_settle [simp]:
  "sb (settle s) = sb s" "(settle s)\<lparr>sb := x0\<rparr> = settle (s\<lparr>sb := x0\<rparr>)"
  "itable (settle s) = itable s" "(settle s)\<lparr>itable := x1\<rparr> = settle (s\<lparr>itable := x1\<rparr>)"
  by (simp_all add: settle_def hart_defs)

lemma fsf_ok [simp]:
  "hart_ok (s\<lparr>sb := x0\<rparr>) = hart_ok s" "lock_free l (s\<lparr>sb := x0\<rparr>) = lock_free l s" "mycpu (s\<lparr>sb := x0\<rparr>) = mycpu s"
  "intr_get (s\<lparr>sb := x0\<rparr>) = intr_get s" "procs_ready (s\<lparr>sb := x0\<rparr>) = procs_ready s"
  "hart_ok (s\<lparr>itable := x1\<rparr>) = hart_ok s" "lock_free l (s\<lparr>itable := x1\<rparr>) = lock_free l s" "mycpu (s\<lparr>itable := x1\<rparr>) = mycpu s"
  "intr_get (s\<lparr>itable := x1\<rparr>) = intr_get s" "procs_ready (s\<lparr>itable := x1\<rparr>) = procs_ready s"
  by (simp_all add: hart_ok_def lock_free_def hart_defs procs_ready_def)

lemma diskf_acq [simp]:
  "disk0 (acq l s) = disk0 s"
  "(acq l s)\<lparr>disk0 := x0\<rparr> = acq l (s\<lparr>disk0 := x0\<rparr>)"
  "writes (acq l s) = writes s"
  "(acq l s)\<lparr>writes := x1\<rparr> = acq l (s\<lparr>writes := x1\<rparr>)"
  by (simp_all add: acq_def push_off_def hart_defs Let_def)

lemma diskf_settle [simp]:
  "disk0 (settle s) = disk0 s"
  "(settle s)\<lparr>disk0 := x0\<rparr> = settle (s\<lparr>disk0 := x0\<rparr>)"
  "writes (settle s) = writes s"
  "(settle s)\<lparr>writes := x1\<rparr> = settle (s\<lparr>writes := x1\<rparr>)"
  by (simp_all add: settle_def hart_defs)

lemma diskf_ok [simp]:
  "hart_ok (s\<lparr>disk0 := x0\<rparr>) = hart_ok s" "lock_free l (s\<lparr>disk0 := x0\<rparr>) = lock_free l s" "mycpu (s\<lparr>disk0 := x0\<rparr>) = mycpu s"
  "intr_get (s\<lparr>disk0 := x0\<rparr>) = intr_get s"
  "hart_ok (s\<lparr>writes := x1\<rparr>) = hart_ok s" "lock_free l (s\<lparr>writes := x1\<rparr>) = lock_free l s" "mycpu (s\<lparr>writes := x1\<rparr>) = mycpu s"
  "intr_get (s\<lparr>writes := x1\<rparr>) = intr_get s"
  by (simp_all add: hart_ok_def lock_free_def hart_defs)

lemma diskf_ready [simp]:
  "procs_ready (s\<lparr>disk0 := x0\<rparr>) = procs_ready s"
  "procs_ready (s\<lparr>writes := x1\<rparr>) = procs_ready s"
  by (simp_all add: procs_ready_def)


lemma calm_log [simp]: "calm p pid (s\<lparr>log := x\<rparr>) = calm p pid s"
  by (simp add: calm_def)

lemma calm_fs [simp]: "calm p pid (s\<lparr>sb := x\<rparr>) = calm p pid s" "calm p pid (s\<lparr>itable := y\<rparr>) = calm p pid s"
  by (simp_all add: calm_def)

lemma calm_disk [simp]: "calm p pid (s\<lparr>disk0 := y\<rparr>) = calm p pid s" "calm p pid (s\<lparr>writes := z\<rparr>) = calm p pid s"
  by (simp_all add: calm_def)

lemma content_upd [simp]: "content (settle s) = content s" "content (s\<lparr>bufs := x\<rparr>) = content s"
  "content (s\<lparr>slks := y\<rparr>) = content s" "content (s\<lparr>proc := z\<rparr>) = content s" "content (s\<lparr>log := u\<rparr>) = content s"
  "content (s\<lparr>sb := v\<rparr>) = content s" "content (s\<lparr>itable := w\<rparr>) = content s"
  by (simp_all add: content_def)

section \<open>The cache as a block store\<close>

text \<open>\<open>cache_rep\<close>: the buffers and their locks represent a store \<open>L\<close> of blocks of device \<open>dv\<close> over the disk
  contents \<open>C\<close>; \<open>P\<close> are the reference counts of the blocks and \<open>H\<close> the blocks whose buffers process \<open>pid\<close> has
  locked. A block that nobody refers to has its contents on disk.\<close>

definition cache_rep :: "u32 \<Rightarrow> int \<Rightarrow> (nat \<Rightarrow> buf) \<Rightarrow> (slk \<Rightarrow> sleeplock) \<Rightarrow> (u32 \<Rightarrow> u8 list) \<Rightarrow>
    (u32 \<Rightarrow> nat) \<Rightarrow> u32 set \<Rightarrow> (u32 \<Rightarrow> u8 list) \<Rightarrow> bool" where
  "cache_rep dv pid B S C P H L \<longleftrightarrow>
    (\<exists>xs. ring B xs) \<and> (\<forall>bno. length (L bno) = BSIZE) \<and>
    (\<forall>b<NBUF. b_dev (B b) \<noteq> dv \<longrightarrow> b_refcnt (B b) = 0) \<and>
    (\<forall>b<NBUF. \<forall>b'<NBUF. b_dev (B b) = dv \<longrightarrow> b_dev (B b') = dv \<longrightarrow> b_blockno (B b) = b_blockno (B b') \<longrightarrow> b = b') \<and>
    (\<forall>b<NBUF. b_dev (B b) = dv \<longrightarrow>
      b_valid (B b) \<and> b_data (B b) = L (b_blockno (B b)) \<and> unat (b_refcnt (B b)) = P (b_blockno (B b))) \<and>
    (\<forall>bno. 0 < P bno \<longrightarrow> (\<exists>b<NBUF. b_dev (B b) = dv \<and> b_blockno (B b) = bno)) \<and>
    (\<forall>b<NBUF. sl_locked (S (SBuf b)) = (b_dev (B b) = dv \<and> b_blockno (B b) \<in> H)) \<and>
    (\<forall>b<NBUF. sl_locked (S (SBuf b)) \<longrightarrow> sl_pid (S (SBuf b)) = pid) \<and>
    (\<forall>bno\<in>H. 0 < P bno) \<and> (\<forall>bno. P bno = 0 \<longrightarrow> L bno = C bno)"

definition holds_block :: "u32 \<Rightarrow> 'z dstate_scheme \<Rightarrow> nat \<Rightarrow> u32 \<Rightarrow> bool" where
  "holds_block dv s b bno \<longleftrightarrow> b < NBUF \<and> b_dev (bufs s b) = dv \<and> b_blockno (bufs s b) = bno"

definition store :: "nat \<Rightarrow> int \<Rightarrow> u32 \<Rightarrow> 'z dstate_scheme \<Rightarrow> (u32 \<Rightarrow> nat) \<Rightarrow> u32 set \<Rightarrow> (u32 \<Rightarrow> u8 list) \<Rightarrow> bool" where
  "store p pid dv s P H L \<longleftrightarrow> calm p pid s \<and> cache_rep dv pid (bufs s) (slks s) (content s) P H L"

lemma cache_repD:
  assumes "cache_rep dv pid B S C P H L"
  shows "\<exists>xs. ring B xs" "length (L bno) = BSIZE"
    "b < NBUF \<Longrightarrow> b_dev (B b) \<noteq> dv \<Longrightarrow> b_refcnt (B b) = 0"
    "b < NBUF \<Longrightarrow> b' < NBUF \<Longrightarrow> b_dev (B b) = dv \<Longrightarrow> b_dev (B b') = dv \<Longrightarrow> b_blockno (B b) = b_blockno (B b') \<Longrightarrow> b = b'"
    "b < NBUF \<Longrightarrow> b_dev (B b) = dv \<Longrightarrow> b_valid (B b)"
    "b < NBUF \<Longrightarrow> b_dev (B b) = dv \<Longrightarrow> b_data (B b) = L (b_blockno (B b))"
    "b < NBUF \<Longrightarrow> b_dev (B b) = dv \<Longrightarrow> unat (b_refcnt (B b)) = P (b_blockno (B b))"
    "0 < P bno \<Longrightarrow> \<exists>b<NBUF. b_dev (B b) = dv \<and> b_blockno (B b) = bno"
    "b < NBUF \<Longrightarrow> sl_locked (S (SBuf b)) = (b_dev (B b) = dv \<and> b_blockno (B b) \<in> H)"
    "b < NBUF \<Longrightarrow> sl_locked (S (SBuf b)) \<Longrightarrow> sl_pid (S (SBuf b)) = pid"
    "bno \<in> H \<Longrightarrow> 0 < P bno" "P bno = 0 \<Longrightarrow> L bno = C bno"
  using assms unfolding cache_rep_def by blast+

lemma cache_repI:
  assumes "\<exists>xs. ring B xs" "\<And>bno. length (L bno) = BSIZE"
    "\<And>b. b < NBUF \<Longrightarrow> b_dev (B b) \<noteq> dv \<Longrightarrow> b_refcnt (B b) = 0"
    "\<And>b b'. b < NBUF \<Longrightarrow> b' < NBUF \<Longrightarrow> b_dev (B b) = dv \<Longrightarrow> b_dev (B b') = dv \<Longrightarrow> b_blockno (B b) = b_blockno (B b') \<Longrightarrow> b = b'"
    "\<And>b. b < NBUF \<Longrightarrow> b_dev (B b) = dv \<Longrightarrow> b_valid (B b)"
    "\<And>b. b < NBUF \<Longrightarrow> b_dev (B b) = dv \<Longrightarrow> b_data (B b) = L (b_blockno (B b))"
    "\<And>b. b < NBUF \<Longrightarrow> b_dev (B b) = dv \<Longrightarrow> unat (b_refcnt (B b)) = P (b_blockno (B b))"
    "\<And>bno. 0 < P bno \<Longrightarrow> \<exists>b<NBUF. b_dev (B b) = dv \<and> b_blockno (B b) = bno"
    "\<And>b. b < NBUF \<Longrightarrow> sl_locked (S (SBuf b)) = (b_dev (B b) = dv \<and> b_blockno (B b) \<in> H)"
    "\<And>b. b < NBUF \<Longrightarrow> sl_locked (S (SBuf b)) \<Longrightarrow> sl_pid (S (SBuf b)) = pid"
    "\<And>bno. bno \<in> H \<Longrightarrow> 0 < P bno" "\<And>bno. P bno = 0 \<Longrightarrow> L bno = C bno"
  shows "cache_rep dv pid B S C P H L"
  unfolding cache_rep_def by (intro conjI allI impI ballI; rule assms; assumption)

lemma ring_links:
  assumes "ring B xs" "\<And>b. b_next (B' b) = b_next (B b)" "\<And>b. b_prev (B' b) = b_prev (B b)"
  shows "ring B' xs"
  using assms by (simp add: ring_def linked_def)

text \<open>An unused buffer is left when fewer blocks than buffers are referred to.\<close>

lemma unused_buffer:
  assumes "cache_rep dv pid B S C P H L" "finite {bno. 0 < P bno}" "card {bno. 0 < P bno} < NBUF"
  shows "\<exists>b<NBUF. b_refcnt (B b) = 0"
proof (rule ccontr)
  note D = cache_repD [OF assms(1)]
  assume "\<not> ?thesis"
  then have nz: "b_refcnt (B b) \<noteq> 0" if "b < NBUF" for b using that by blast
  have dev: "b_dev (B b) = dv" if "b < NBUF" for b using D(3) [OF that] nz [OF that] by blast
  have "inj_on (\<lambda>b. b_blockno (B b)) {..<NBUF}" using D(4) dev by (intro inj_onI) auto
  moreover have "(\<lambda>b. b_blockno (B b)) ` {..<NBUF} \<subseteq> {bno. 0 < P bno}"
  proof
    fix x assume "x \<in> (\<lambda>b. b_blockno (B b)) ` {..<NBUF}"
    then obtain b where b: "b < NBUF" "x = b_blockno (B b)" by auto
    have "unat (b_refcnt (B b)) \<noteq> 0" using nz [OF b(1)] by (simp add: unat_eq_0)
    then show "x \<in> {bno. 0 < P bno}" using D(7) [OF b(1) dev [OF b(1)]] b(2) by simp
  qed
  ultimately have "NBUF \<le> card {bno. 0 < P bno}"
    using card_inj_on_le [OF _ _ assms(2)] by fastforce
  then show False using assms(3) by simp
qed

lemma rep_hit:
  assumes "cache_rep dv pid B S C P H L" "b < NBUF" "b_dev (B b) = dv" "b_blockno (B b) = bno" "P bno < 2 ^ 32 - 1"
  shows "cache_rep dv pid (B(b := (B b)\<lparr>b_refcnt := b_refcnt (B b) + 1\<rparr>)) (S(SBuf b := sl_lock pid (S (SBuf b)))) C
    (P(bno := Suc (P bno))) (insert bno H) L"
proof -
  note D = cache_repD [OF assms(1)]
  let ?B = "B(b := (B b)\<lparr>b_refcnt := b_refcnt (B b) + 1\<rparr>)"
  have same: "b_next (?B c) = b_next (B c)" "b_prev (?B c) = b_prev (B c)" "b_dev (?B c) = b_dev (B c)"
    "b_blockno (?B c) = b_blockno (B c)" "b_valid (?B c) = b_valid (B c)" "b_data (?B c) = b_data (B c)" for c by simp_all
  have ub: "unat (b_refcnt (B b)) = P bno" using D(7) [OF assms(2,3)] assms(4) by simp
  have us: "unat (b_refcnt (B b) + 1) = Suc (P bno)"
    using ub assms(5) by (simp add: unat_word_ariths)
  have only: "b_blockno (B c) = bno \<longleftrightarrow> c = b" if "c < NBUF" "b_dev (B c) = dv" for c
    using D(4) [OF that(1) assms(2) that(2) assms(3)] assms(4) by auto
  show ?thesis
  proof (rule cache_repI)
    show "\<exists>xs. ring ?B xs" using D(1) ring_links [of B _ ?B] same(1,2) by blast
    show "length (L bno') = BSIZE" for bno' by (rule D(2))
    show "b_refcnt (?B c) = 0" if "c < NBUF" "b_dev (?B c) \<noteq> dv" for c
      using D(3) [OF that(1)] that(2) assms(3) by (cases "c = b") auto
    show "c = c'" if "c < NBUF" "c' < NBUF" "b_dev (?B c) = dv" "b_dev (?B c') = dv" "b_blockno (?B c) = b_blockno (?B c')" for c c'
      using D(4) that unfolding same by blast
    show "b_valid (?B c)" "b_data (?B c) = L (b_blockno (?B c))" if "c < NBUF" "b_dev (?B c) = dv" for c
      using D(5,6) that unfolding same by blast+
    show "unat (b_refcnt (?B c)) = (P(bno := Suc (P bno))) (b_blockno (?B c))" if "c < NBUF" "b_dev (?B c) = dv" for c
      using D(7) [OF that(1)] that(2) only [OF that(1)] us unfolding same by (cases "c = b") auto
    show "\<exists>c<NBUF. b_dev (?B c) = dv \<and> b_blockno (?B c) = bno'" if "0 < (P(bno := Suc (P bno))) bno'" for bno'
      using D(8) [of bno'] that assms(2-4) unfolding same by (cases "bno' = bno") auto
    show "sl_locked ((S(SBuf b := sl_lock pid (S (SBuf b)))) (SBuf c)) = (b_dev (?B c) = dv \<and> b_blockno (?B c) \<in> insert bno H)"
      if "c < NBUF" for c
      using D(9) [OF that] only [OF that] assms(3,4) unfolding same by (auto simp: sl_lock_def)
    show "sl_pid ((S(SBuf b := sl_lock pid (S (SBuf b)))) (SBuf c)) = pid"
      if "c < NBUF" "sl_locked ((S(SBuf b := sl_lock pid (S (SBuf b)))) (SBuf c))" for c
      using D(10) [OF that(1)] that(2) by (auto simp: sl_lock_def split: if_splits)
    show "0 < (P(bno := Suc (P bno))) bno'" if "bno' \<in> insert bno H" for bno' using D(11) that by auto
    show "L bno' = C bno'" if "(P(bno := Suc (P bno))) bno' = 0" for bno' using D(12) that by (auto split: if_splits)
  qed
qed

lemma rep_miss:
  assumes "cache_rep dv pid B S C P H L" "b < NBUF" "b_refcnt (B b) = 0"
    "\<And>c. c < NBUF \<Longrightarrow> b_dev (B c) = dv \<Longrightarrow> b_blockno (B c) \<noteq> bno"
  shows "cache_rep dv pid (B(b := (B b)\<lparr>b_dev := dv, b_blockno := bno, b_valid := True, b_refcnt := 1, b_data := C bno\<rparr>))
    (S(SBuf b := sl_lock pid (S (SBuf b)))) C (P(bno := Suc (P bno))) (insert bno H) L"
proof -
  note D = cache_repD [OF assms(1)]
  let ?B = "B(b := (B b)\<lparr>b_dev := dv, b_blockno := bno, b_valid := True, b_refcnt := 1, b_data := C bno\<rparr>)"
  have P0: "P bno = 0" using D(8) [of bno] assms(4) by (meson gr0I)
  have old: "P (b_blockno (B b)) = 0" if "b_dev (B b) = dv" using D(7) [OF assms(2) that] assms(3) by simp
  have links: "b_next (?B c) = b_next (B c)" "b_prev (?B c) = b_prev (B c)" for c by simp_all
  have same: "?B c = B c" if "c \<noteq> b" for c using that by simp
  show ?thesis
  proof (rule cache_repI)
    show "\<exists>xs. ring ?B xs" using D(1) ring_links [of B _ ?B] links by blast
    show "length (L bno') = BSIZE" for bno' by (rule D(2))
    show "b_refcnt (?B c) = 0" if "c < NBUF" "b_dev (?B c) \<noteq> dv" for c
      using D(3) [OF that(1)] that(2) by (cases "c = b") auto
    show "c = c'" if "c < NBUF" "c' < NBUF" "b_dev (?B c) = dv" "b_dev (?B c') = dv" "b_blockno (?B c) = b_blockno (?B c')" for c c'
      using D(4) [OF that(1,2)] assms(4) [OF that(1)] assms(4) [OF that(2)] that(3-5) by (auto split: if_splits)
    show "b_valid (?B c)" "b_data (?B c) = L (b_blockno (?B c))"
      "unat (b_refcnt (?B c)) = (P(bno := Suc (P bno))) (b_blockno (?B c))" if "c < NBUF" "b_dev (?B c) = dv" for c
      using D(5-7) [OF that(1)] D(12) [OF P0] assms(4) [OF that(1)] P0 that(2) by (cases "c = b"; simp)+
    show "\<exists>c<NBUF. b_dev (?B c) = dv \<and> b_blockno (?B c) = bno'" if pos: "0 < (P(bno := Suc (P bno))) bno'" for bno'
    proof (cases "bno' = bno")
      case True then show ?thesis using assms(2) by (intro exI [of _ b]) simp
    next
      case False
      then obtain c where c: "c < NBUF" "b_dev (B c) = dv" "b_blockno (B c) = bno'" using D(8) [of bno'] pos by auto
      have "c \<noteq> b" using old c pos False by auto
      then show ?thesis using c by (intro exI [of _ c]) simp
    qed
    show "sl_locked ((S(SBuf b := sl_lock pid (S (SBuf b)))) (SBuf c)) = (b_dev (?B c) = dv \<and> b_blockno (?B c) \<in> insert bno H)"
      if "c < NBUF" for c
      using D(9) [OF that] assms(4) [OF that] by (auto simp: sl_lock_def)
    show "sl_pid ((S(SBuf b := sl_lock pid (S (SBuf b)))) (SBuf c)) = pid"
      if "c < NBUF" "sl_locked ((S(SBuf b := sl_lock pid (S (SBuf b)))) (SBuf c))" for c
      using D(10) [OF that(1)] that(2) by (auto simp: sl_lock_def split: if_splits)
    show "0 < (P(bno := Suc (P bno))) bno'" if "bno' \<in> insert bno H" for bno' using D(11) that by auto
    show "L bno' = C bno'" if "(P(bno := Suc (P bno))) bno' = 0" for bno' using D(12) that by (auto split: if_splits)
  qed
qed


section \<open>The cache operations on the store\<close>

abbreviation used :: "(u32 \<Rightarrow> nat) \<Rightarrow> u32 set" where
  "used P \<equiv> {bno. 0 < P bno}"

text \<open>What the operations leave alone: the log, the disk, the super block and the inode table.\<close>

definition disk_same :: "'z dstate_scheme \<Rightarrow> 'z dstate_scheme \<Rightarrow> bool" where
  "disk_same s s' \<longleftrightarrow> log s' = log s \<and> disk0 s' = disk0 s \<and> writes s' = writes s \<and> sb s' = sb s \<and> itable s' = itable s \<and>
    (\<forall>i. slks s' (SInode i) = slks s (SInode i))"

abbreviation kept :: "'z dstate_scheme \<Rightarrow> 'z dstate_scheme \<Rightarrow> bool" where
  "kept s s' \<equiv> sb s' = sb s \<and> itable s' = itable s \<and> (\<forall>i. slks s' (SInode i) = slks s (SInode i))"

lemma find_in_ring:
  assumes "ring B xs"
  shows "find Q xs = Some b \<Longrightarrow> b < NBUF \<and> Q b" "find Q xs = None \<Longrightarrow> b < NBUF \<Longrightarrow> \<not> Q b"
    "find Q (rev xs) = Some b \<Longrightarrow> b < NBUF \<and> Q b" "find Q (rev xs) = None \<Longrightarrow> b < NBUF \<Longrightarrow> \<not> Q b"
  using assms unfolding ring_def
  by (auto simp: find_None_iff find_Some_iff dest: nth_mem) (metis lessThan_iff nth_mem set_rev length_rev)+

lemma buf_fill: "(r::buf)\<lparr>b_dev := d, b_blockno := n, b_refcnt := k, b_data := x, b_valid := v\<rparr>
    = r\<lparr>b_dev := d, b_blockno := n, b_valid := v, b_refcnt := k, b_data := x\<rparr>"
  by simp

lemma bread_store:
  assumes "store p pid dv s P H L" "bno \<notin> H" "0 < P bno \<or> (finite (used P) \<and> card (used P) < NBUF)" "P bno < 2 ^ 32 - 1"
    and rw: "\<And>b wr. e_rw E b wr = disk_rw b wr"
  shows "\<exists>b s'. bread E dv bno s = Ret (b, s') \<and> store p pid dv s' (P(bno := Suc (P bno))) (insert bno H) L \<and>
    disk_same s s' \<and> holds_block dv s' b bno \<and>
    (\<forall>c d. 0 < P d \<longrightarrow> holds_block dv s c d \<longrightarrow> holds_block dv s' c d)"
proof -
  have calm: "calm p pid s" and rep: "cache_rep dv pid (bufs s) (slks s) (content s) P H L"
    using assms(1) by (simp_all add: store_def)
  note D = cache_repD [OF rep]
  obtain xs where r: "ring (bufs s) xs" using D(1) by blast
  define hit where "hit = find (\<lambda>b. b_dev (bufs s b) = dv \<and> b_blockno (bufs s b) = bno) xs"
  define old where "old = find (\<lambda>b. b_refcnt (bufs s b) = 0) (rev xs)"
  note bg = bget_eq [OF calm r hit_def old_def]
  show ?thesis
  proof (cases hit)
    case (Some b)
    have b: "b < NBUF" "b_dev (bufs s b) = dv" "b_blockno (bufs s b) = bno"
      using find_in_ring(1) [OF r] Some by (auto simp: hit_def)
    have nl: "\<not> sl_locked (slks s (SBuf b))" using D(9) [OF b(1)] b(3) assms(2) by simp
    define s' where "s' = settle (upd_slk (SBuf b) (sl_lock pid) (upd_buf b (\<lambda>r. r\<lparr>b_refcnt := b_refcnt r + 1\<rparr>) s))"
    have "bread E dv bno s = Ret (b, s')"
      using bg(1) [OF Some nl] D(5) [OF b(1,2)] by (simp add: bread_def kM_simps s'_def upd_slk_def upd_buf_def)
    moreover have "store p pid dv s' (P(bno := Suc (P bno))) (insert bno H) L"
      using calm rep_hit [OF rep b assms(4)] by (simp add: store_def s'_def upd_slk_def upd_buf_def)
    moreover have "disk_same s s'" by (simp add: disk_same_def s'_def upd_slk_def upd_buf_def)
    moreover have "holds_block dv s' b bno" "\<forall>c d. 0 < P d \<longrightarrow> holds_block dv s c d \<longrightarrow> holds_block dv s' c d"
      using b by (auto simp: holds_block_def s'_def upd_slk_def upd_buf_def)
    ultimately show ?thesis by blast
  next
    case None
    have nob: "b_blockno (bufs s c) \<noteq> bno" if "c < NBUF" "b_dev (bufs s c) = dv" for c
      using find_in_ring(2) [OF r None [unfolded hit_def] that(1)] that(2) by simp
    have "P bno = 0" using D(8) [of bno] nob by (meson gr0I)
    then obtain b0 where "b0 < NBUF" "b_refcnt (bufs s b0) = 0" using unused_buffer [OF rep] assms(3) by auto
    then have "old \<noteq> None" using find_in_ring(4) [OF r, of "\<lambda>b. b_refcnt (bufs s b) = 0" b0] by (auto simp: old_def)
    then obtain b where old: "old = Some b" by blast
    have b: "b < NBUF" "b_refcnt (bufs s b) = 0" using find_in_ring(3) [OF r] old by (auto simp: old_def)
    have nl: "\<not> sl_locked (slks s (SBuf b))"
      using D(9) [OF b(1)] D(7) [OF b(1)] D(11) b(2) by fastforce
    define s' where "s' = settle (upd_buf b (\<lambda>r. r\<lparr>b_dev := dv, b_blockno := bno, b_valid := True, b_refcnt := 1,
      b_data := content s bno\<rparr>) (upd_slk (SBuf b) (sl_lock pid) s))"
    have "bread E dv bno s = Ret (b, s')"
      using bg(2) [OF None old nl]
      by (simp add: bread_def kM_simps rw disk_rw_def s'_def upd_slk_def upd_buf_def buf_fill)
    moreover have "store p pid dv s' (P(bno := Suc (P bno))) (insert bno H) L"
      using calm rep_miss [OF rep b nob] by (simp add: store_def s'_def upd_slk_def upd_buf_def)
    moreover have "disk_same s s'" by (simp add: disk_same_def s'_def upd_slk_def upd_buf_def)
    moreover have "holds_block dv s' b bno" using b by (auto simp: holds_block_def s'_def upd_slk_def upd_buf_def)
    moreover have "holds_block dv s' c d" if "0 < P d" "holds_block dv s c d" for c d
    proof -
      have "c \<noteq> b" using that D(7) [OF b(1)] b(2) by (auto simp: holds_block_def)
      then show ?thesis using that(2) by (simp add: holds_block_def s'_def upd_slk_def upd_buf_def)
    qed
    ultimately show ?thesis by blast
  qed
qed


text \<open>The buffer of a held block: its data, a write of it to the disk, and its release.\<close>

lemma store_data:
  assumes "store p pid dv s P H L" "holds_block dv s b bno"
  shows "b_data (bufs s b) = L bno" "b_blockno (bufs s b) = bno"
  using assms cache_repD(6) [of dv pid "bufs s"] by (auto simp: store_def holds_block_def)

lemma store_length: "store p pid dv s P H L \<Longrightarrow> length (L bno) = BSIZE"
  unfolding store_def using cache_repD(2) by blast

lemma store_content: "store p pid dv s P H L \<Longrightarrow> P bno = 0 \<Longrightarrow> L bno = content s bno"
  unfolding store_def using cache_repD(12) by blast

lemma set_data_store:
  assumes "store p pid dv s P H L" "holds_block dv s b bno" "0 < P bno" "length (f (L bno)) = BSIZE"
  shows "store p pid dv (set_data b f s) P H (L(bno := f (L bno)))" "disk_same s (set_data b f s)"
    "holds_block dv (set_data b f s) c d = holds_block dv s c d"
proof -
  have calm: "calm p pid s" and rep: "cache_rep dv pid (bufs s) (slks s) (content s) P H L"
    using assms(1) by (simp_all add: store_def)
  note D = cache_repD [OF rep]
  let ?B = "(bufs s)(b := (bufs s b)\<lparr>b_data := f (b_data (bufs s b))\<rparr>)"
  have b: "b < NBUF" "b_dev (bufs s b) = dv" "b_blockno (bufs s b) = bno" using assms(2) by (auto simp: holds_block_def)
  have same: "b_next (?B c) = b_next (bufs s c)" "b_prev (?B c) = b_prev (bufs s c)" "b_dev (?B c) = b_dev (bufs s c)"
    "b_blockno (?B c) = b_blockno (bufs s c)" "b_valid (?B c) = b_valid (bufs s c)" "b_refcnt (?B c) = b_refcnt (bufs s c)" for c
    by simp_all
  have only: "b_blockno (bufs s c) = bno \<longleftrightarrow> c = b" if "c < NBUF" "b_dev (bufs s c) = dv" for c
    using D(4) [OF that(1) b(1) that(2) b(2)] b(3) by auto
  have "cache_rep dv pid ?B (slks s) (content s) P H (L(bno := f (L bno)))"
  proof (rule cache_repI)
    show "\<exists>xs. ring ?B xs" using D(1) ring_links [of "bufs s" _ ?B] same(1,2) by blast
    show "length ((L(bno := f (L bno))) d) = BSIZE" for d using D(2) assms(4) by simp
    show "b_data (?B c) = (L(bno := f (L bno))) (b_blockno (?B c))" if "c < NBUF" "b_dev (?B c) = dv" for c
      using D(6) [OF that(1)] that(2) only [OF that(1)] b unfolding same by auto
    show "(L(bno := f (L bno))) d = content s d" if "P d = 0" for d using D(12) [OF that] that assms(3) by auto
    show "b_refcnt (?B c) = 0" if "c < NBUF" "b_dev (?B c) \<noteq> dv" for c using D(3) that unfolding same by blast
    show "c = c'" if "c < NBUF" "c' < NBUF" "b_dev (?B c) = dv" "b_dev (?B c') = dv" "b_blockno (?B c) = b_blockno (?B c')" for c c'
      using D(4) that unfolding same by blast
    show "b_valid (?B c)" "unat (b_refcnt (?B c)) = P (b_blockno (?B c))" if "c < NBUF" "b_dev (?B c) = dv" for c
      using D(5,7) that unfolding same by blast+
    show "\<exists>c<NBUF. b_dev (?B c) = dv \<and> b_blockno (?B c) = d" if "0 < P d" for d using D(8) [OF that] unfolding same .
    show "sl_locked (slks s (SBuf c)) = (b_dev (?B c) = dv \<and> b_blockno (?B c) \<in> H)" if "c < NBUF" for c
      using D(9) [OF that] unfolding same .
  qed (rule D(10,11); assumption)+
  then show "store p pid dv (set_data b f s) P H (L(bno := f (L bno)))"
    using calm by (simp add: store_def set_data_def upd_buf_def)
  show "disk_same s (set_data b f s)" by (simp add: disk_same_def set_data_def upd_buf_def)
  show "holds_block dv (set_data b f s) c d = holds_block dv s c d"
    by (auto simp: holds_block_def set_data_def upd_buf_def)
qed

lemma content_write: "content (s\<lparr>writes := writes s @ [(bno, d)]\<rparr>) = (content s)(bno := d)"
  by (simp add: content_def apply_writes_def)

lemma bwrite_store:
  assumes "store p pid dv s P H L" "holds_block dv s b bno" "bno \<in> H" and rw: "\<And>b wr. e_rw E b wr = disk_rw b wr"
  shows "\<exists>s'. bwrite E b s = Ret ((), s') \<and> store p pid dv s' P H L \<and> log s' = log s \<and> disk0 s' = disk0 s \<and>
    writes s' = writes s @ [(bno, L bno)] \<and> kept s s' \<and> (\<forall>c d. holds_block dv s' c d = holds_block dv s c d)"
proof -
  have calm: "calm p pid s" and rep: "cache_rep dv pid (bufs s) (slks s) (content s) P H L"
    using assms(1) by (simp_all add: store_def)
  note D = cache_repD [OF rep]
  have b: "b < NBUF" "b_dev (bufs s b) = dv" "b_blockno (bufs s b) = bno" using assms(2) by (auto simp: holds_block_def)
  have h: "sl_locked (slks s (SBuf b))" "sl_pid (slks s (SBuf b)) = pid" using D(9,10) [OF b(1)] b assms(3) by auto
  define s' where "s' = (settle s)\<lparr>writes := writes s @ [(bno, L bno)]\<rparr>"
  have "bwrite E b s = Ret ((), s')"
    using h b(3) store_data(1) [OF assms(1,2)] by (simp add: bwrite_def kM_simps holdingsleep_eq [OF calm] rw disk_rw_def s'_def)
  moreover have "cache_rep dv pid (bufs s) (slks s) ((content s)(bno := L bno)) P H L"
  proof (rule cache_repI)
    show "L d = ((content s)(bno := L bno)) d" if "P d = 0" for d using D(12) [OF that] by auto
  qed (rule D; assumption)+
  ultimately show ?thesis
    using calm content_write [of "settle s" bno "L bno"]
    by (intro exI [of _ s']) (simp add: s'_def store_def holds_block_def)
qed


lemma rep_ref:
  assumes "cache_rep dv pid B S C P H L" "b < NBUF" "b_dev (B b) = dv" "b_blockno (B b) = bno" "unat k = n"
    "n = 0 \<Longrightarrow> L bno = C bno \<and> bno \<notin> H"
  shows "cache_rep dv pid (B(b := (B b)\<lparr>b_refcnt := k\<rparr>)) S C (P(bno := n)) H L"
proof -
  note D = cache_repD [OF assms(1)]
  let ?B = "B(b := (B b)\<lparr>b_refcnt := k\<rparr>)"
  have same: "b_next (?B c) = b_next (B c)" "b_prev (?B c) = b_prev (B c)" "b_dev (?B c) = b_dev (B c)"
    "b_blockno (?B c) = b_blockno (B c)" "b_valid (?B c) = b_valid (B c)" "b_data (?B c) = b_data (B c)" for c by simp_all
  have only: "b_blockno (B c) = bno \<longleftrightarrow> c = b" if "c < NBUF" "b_dev (B c) = dv" for c
    using D(4) [OF that(1) assms(2) that(2) assms(3)] assms(4) by auto
  show ?thesis
  proof (rule cache_repI)
    show "\<exists>xs. ring ?B xs" using D(1) ring_links [of B _ ?B] same(1,2) by blast
    show "b_refcnt (?B c) = 0" if "c < NBUF" "b_dev (?B c) \<noteq> dv" for c
      using D(3) [OF that(1)] that(2) assms(3) by (cases "c = b") auto
    show "c = c'" if "c < NBUF" "c' < NBUF" "b_dev (?B c) = dv" "b_dev (?B c') = dv" "b_blockno (?B c) = b_blockno (?B c')" for c c'
      using D(4) that unfolding same by blast
    show "b_valid (?B c)" "b_data (?B c) = L (b_blockno (?B c))" if "c < NBUF" "b_dev (?B c) = dv" for c
      using D(5,6) that unfolding same by blast+
    show "unat (b_refcnt (?B c)) = (P(bno := n)) (b_blockno (?B c))" if "c < NBUF" "b_dev (?B c) = dv" for c
      using D(7) [OF that(1)] that(2) only [OF that(1)] assms(5) unfolding same by (cases "c = b") auto
    show "\<exists>c<NBUF. b_dev (?B c) = dv \<and> b_blockno (?B c) = d" if "0 < (P(bno := n)) d" for d
      using D(8) [of d] that assms(2-4) unfolding same by (cases "d = bno") auto
    show "sl_locked (S (SBuf c)) = (b_dev (?B c) = dv \<and> b_blockno (?B c) \<in> H)" if "c < NBUF" for c
      using D(9) [OF that] unfolding same .
    show "0 < (P(bno := n)) d" if "d \<in> H" for d using D(11) [OF that] assms(6) that by auto
    show "L d = C d" if "(P(bno := n)) d = 0" for d using D(12) [of d] assms(6) that by (cases "d = bno") auto
  qed (rule D; assumption)+
qed

lemma rep_unlock:
  assumes "cache_rep dv pid B S C P H L" "b < NBUF" "b_dev (B b) = dv" "b_blockno (B b) = bno"
  shows "cache_rep dv pid B (S(SBuf b := sl_unlock (S (SBuf b)))) C P (H - {bno}) L"
proof -
  note D = cache_repD [OF assms(1)]
  have only: "b_blockno (B c) = bno \<longleftrightarrow> c = b" if "c < NBUF" "b_dev (B c) = dv" for c
    using D(4) [OF that(1) assms(2) that(2) assms(3)] assms(4) by auto
  show ?thesis
  proof (rule cache_repI)
    show "sl_locked ((S(SBuf b := sl_unlock (S (SBuf b)))) (SBuf c)) = (b_dev (B c) = dv \<and> b_blockno (B c) \<in> H - {bno})"
      if "c < NBUF" for c using D(9) [OF that] only [OF that] assms(3,4) by (auto simp: sl_unlock_def)
    show "sl_pid ((S(SBuf b := sl_unlock (S (SBuf b)))) (SBuf c)) = pid"
      if "c < NBUF" "sl_locked ((S(SBuf b := sl_unlock (S (SBuf b)))) (SBuf c))" for c
      using D(10) [OF that(1)] that(2) by (auto simp: sl_unlock_def split: if_splits)
    show "0 < P d" if "d \<in> H - {bno}" for d using D(11) that by blast
  qed (rule D; assumption)+
qed

lemma rep_relinked:
  assumes "cache_rep dv pid B S C P H L" "relinked B B'" "ring B' xs"
  shows "cache_rep dv pid B' S C P H L"
proof -
  note D = cache_repD [OF assms(1)] and R = relinkedD [OF assms(2)]
  have "\<exists>xs. ring B' xs" using assms(3) by blast
  then show ?thesis by (rule cache_repI) (unfold R, (rule D; assumption)+)
qed

lemma brelse_store:
  assumes "store p pid dv s P H L" "holds_block dv s b bno" "bno \<in> H" "P bno = 1 \<Longrightarrow> L bno = content s bno"
  shows "\<exists>s'. brelse b s = Ret ((), s') \<and> store p pid dv s' (P(bno := P bno - 1)) (H - {bno}) L \<and> disk_same s s' \<and>
    (\<forall>c d. holds_block dv s' c d = holds_block dv s c d)"
proof -
  have calm: "calm p pid s" and rep: "cache_rep dv pid (bufs s) (slks s) (content s) P H L"
    using assms(1) by (simp_all add: store_def)
  note D = cache_repD [OF rep]
  have b: "b < NBUF" "b_dev (bufs s b) = dv" "b_blockno (bufs s b) = bno" using assms(2) by (auto simp: holds_block_def)
  have h: "sl_locked (slks s (SBuf b))" "sl_pid (slks s (SBuf b)) = pid" using D(9,10) [OF b(1)] b assms(3) by auto
  have P: "0 < P bno" "unat (b_refcnt (bufs s b)) = P bno" using D(11) assms(3) D(7) [OF b(1,2)] b(3) by auto
  have u: "unat (b_refcnt (bufs s b) - 1) = P bno - 1" using P unat_minus_one [of "b_refcnt (bufs s b)"] by fastforce
  define t where "t = upd_buf b (\<lambda>r. r\<lparr>b_refcnt := b_refcnt r - 1\<rparr>)
      ((upd_slk (SBuf b) sl_unlock s)\<lparr>proc := wake_all (Some (ChBuf b)) (Some p) (proc s)\<rparr>)"
  have t: "bufs t = (bufs s)(b := (bufs s b)\<lparr>b_refcnt := b_refcnt (bufs s b) - 1\<rparr>)"
      "slks t = (slks s)(SBuf b := sl_unlock (slks s (SBuf b)))" "content t = content s" "disk_same s t"
    by (simp_all add: t_def upd_buf_def upd_slk_def disk_same_def)
  have ct: "calm p pid t" using calm by (simp add: t_def upd_buf_def upd_slk_def) 
  have rt: "cache_rep dv pid (bufs t) (slks t) (content t) (P(bno := P bno - 1)) (H - {bno}) L"
    unfolding t by (rule rep_ref [OF rep_unlock [OF rep b] b u]) (use assms(4) P(1) in auto)
  have ht: "holds_block dv t c d = holds_block dv s c d" for c d by (auto simp: holds_block_def t(1))
  show ?thesis
  proof (cases "b_refcnt (bufs t b) = 0")
    case False
    have "brelse b s = Ret ((), settle t)" using brelse_eq [OF calm h] False by (simp add: t_def [symmetric])
    then show ?thesis using ct rt t(4) ht
      by (intro exI [of _ "settle t"]) (simp add: store_def disk_same_def holds_block_def)
  next
    case True
    obtain xs where "ring (bufs t) xs" using cache_repD(1) [OF rt] by blast
    then obtain B where B: "link_front b (unlink_buf b t) = t\<lparr>bufs := B\<rparr>" "ring B (b # remove1 b xs)" "relinked (bufs t) B"
      by (rule move_front_ok [OF _ b(1)])
    have "brelse b s = Ret ((), settle (t\<lparr>bufs := B\<rparr>))" using brelse_eq [OF calm h] True by (simp add: t_def [symmetric] B(1))
    then show ?thesis using ct rep_relinked [OF rt B(3,2)] t(4) ht relinkedD [OF B(3)]
      by (intro exI [of _ "settle (t\<lparr>bufs := B\<rparr>)"]) (simp add: store_def disk_same_def holds_block_def)
  qed
qed

lemma bpin_store:
  assumes "store p pid dv s P H L" "holds_block dv s b bno" "P bno < 2 ^ 32 - 1"
  shows "\<exists>s'. bpin b s = Ret ((), s') \<and> store p pid dv s' (P(bno := P bno + 1)) H L \<and> disk_same s s' \<and>
    (\<forall>c d. holds_block dv s' c d = holds_block dv s c d)"
proof -
  have calm: "calm p pid s" and rep: "cache_rep dv pid (bufs s) (slks s) (content s) P H L"
    using assms(1) by (simp_all add: store_def)
  have b: "b < NBUF" "b_dev (bufs s b) = dv" "b_blockno (bufs s b) = bno" using assms(2) by (auto simp: holds_block_def)
  have "unat (b_refcnt (bufs s b) + 1) = P bno + 1"
    using cache_repD(7) [OF rep b(1,2)] b(3) assms(3) by (simp add: unat_word_ariths)
  note r = rep_ref [OF rep b this]
  show ?thesis
    using calmD [OF calm] calm r
    by (intro exI [of _ "settle (upd_buf b (\<lambda>r. r\<lparr>b_refcnt := b_refcnt r + 1\<rparr>) s)"])
      (auto simp: bpin_def crit upd_buf_def store_def disk_same_def holds_block_def)
qed

lemma bunpin_store:
  assumes "store p pid dv s P H L" "holds_block dv s b bno" "1 < P bno"
  shows "\<exists>s'. bunpin b s = Ret ((), s') \<and> store p pid dv s' (P(bno := P bno - 1)) H L \<and> disk_same s s' \<and>
    (\<forall>c d. holds_block dv s' c d = holds_block dv s c d)"
proof -
  have calm: "calm p pid s" and rep: "cache_rep dv pid (bufs s) (slks s) (content s) P H L"
    using assms(1) by (simp_all add: store_def)
  have b: "b < NBUF" "b_dev (bufs s b) = dv" "b_blockno (bufs s b) = bno" using assms(2) by (auto simp: holds_block_def)
  have u: "unat (b_refcnt (bufs s b)) = P bno" using cache_repD(7) [OF rep b(1,2)] b(3) by simp
  have "unat (b_refcnt (bufs s b) - 1) = P bno - 1" using u assms(3) unat_minus_one [of "b_refcnt (bufs s b)"] by fastforce
  note r = rep_ref [OF rep b this]
  show ?thesis
    using calmD [OF calm] calm r assms(3)
    by (intro exI [of _ "settle (upd_buf b (\<lambda>r. r\<lparr>b_refcnt := b_refcnt r - 1\<rparr>) s)"])
      (auto simp: bunpin_def crit upd_buf_def store_def disk_same_def holds_block_def)
qed


section \<open>The invariant of the cache\<close>

lemma for_each_Suc: "for_each [0..<Suc k] f s = (case for_each [0..<k] f s of Ret r \<Rightarrow> f k (snd r) | Panic e \<Rightarrow> Panic e | Hang \<Rightarrow> Hang)"
  by (simp add: for_each_append kM_simps split: outcome.splits)

lemma binit_prefix:
  assumes "linked (bufs s) []" "n \<le> NBUF"
  shows "\<exists>s'. for_each [0..<n] (\<lambda>b. seq (initsleeplock (SBuf b) ''buffer'') (modify (link_front b))) s = Ret ((), s') \<and>
    linked (bufs s') (rev [0..<n]) \<and> relinked (bufs s) (bufs s') \<and> (\<forall>b<n. \<not> sl_locked (slks s' (SBuf b)))"
  using assms(2)
proof (induction n)
  case 0
  then show ?case using assms(1) by (auto simp: kM_simps relinked_def)
next
  case (Suc n)
  then obtain s' where s': "for_each [0..<n] (\<lambda>b. seq (initsleeplock (SBuf b) ''buffer'') (modify (link_front b))) s = Ret ((), s')"
    "linked (bufs s') (rev [0..<n])" "relinked (bufs s) (bufs s')" "\<forall>b<n. \<not> sl_locked (slks s' (SBuf b))" by auto
  let ?t = "upd_slk (SBuf n) (\<lambda>l. \<lparr>sl_locked = False, sl_name = ''buffer'', sl_pid = 0\<rparr>) (initlock (inner (SBuf n)) ''sleep lock'' s')"
  have "linked (bufs ?t) (rev [0..<n])" using s'(2) by (simp add: upd_slk_def initlock_def)
  then obtain B where B: "link_front n ?t = ?t\<lparr>bufs := B\<rparr>" "linked B (n # rev [0..<n])" "relinked (bufs ?t) B"
    using Suc.prems by (elim link_front_ok [of ?t _ n]) auto
  have "for_each [0..<Suc n] (\<lambda>b. seq (initsleeplock (SBuf b) ''buffer'') (modify (link_front b))) s = Ret ((), ?t\<lparr>bufs := B\<rparr>)"
    unfolding for_each_Suc s'(1) using B(1) by (simp add: initsleeplock_def kM_simps)
  moreover have "relinked (bufs s) B" using relinked_trans [OF s'(3)] B(3) by (simp add: upd_slk_def initlock_def)
  ultimately show ?case
    using s'(4) B(2) by (intro exI [of _ "?t\<lparr>bufs := B\<rparr>"]) (auto simp: upd_slk_def initlock_def less_Suc_eq)
qed

lemma binit_ok:
  "\<exists>s'. binit s = Ret ((), s') \<and> ring (bufs s') (rev [0..<NBUF]) \<and>
    relinked ((bufs s)(bhead := (bufs s bhead)\<lparr>b_prev := bhead, b_next := bhead\<rparr>)) (bufs s') \<and>
    (\<forall>b<NBUF. \<not> sl_locked (slks s' (SBuf b)))"
proof -
  let ?s = "upd_buf bhead (\<lambda>r. r\<lparr>b_prev := bhead, b_next := bhead\<rparr>) (initlock KBcache ''bcache'' s)"
  have "linked (bufs ?s) []" by (simp add: linked_def upd_buf_def)
  from binit_prefix [OF this order_refl] show ?thesis
    by (auto simp: binit_def kM_simps ring_def upd_buf_def initlock_def)
qed

text \<open>A run of the cache after boot: the operations of \<^verbatim>\<open>bio.c\<close> in any order, called as their clients do
  (a block is locked once, released unmodified or pinned, and at most \<^verbatim>\<open>NBUF\<close> blocks are referred to). The
  ghost values are the reference counts, the blocks locked and the contents that the clients see.\<close>

inductive cache_run :: "'z dstate_scheme env \<Rightarrow> nat \<Rightarrow> int \<Rightarrow> u32 \<Rightarrow> 'z dstate_scheme \<Rightarrow> (u32 \<Rightarrow> nat) \<Rightarrow> u32 set \<Rightarrow>
    (u32 \<Rightarrow> u8 list) \<Rightarrow> bool" for E p pid dv where
  boot: "binit (s0 :: 'z dstate_scheme) = Ret ((), s1) \<Longrightarrow> \<forall>b. b_dev (bufs s0 b) \<noteq> dv \<and> b_refcnt (bufs s0 b) = 0 \<Longrightarrow>
    calm p pid s \<Longrightarrow> bufs s = bufs s1 \<Longrightarrow> slks s = slks s1 \<Longrightarrow> \<forall>bno. length (content s bno) = BSIZE \<Longrightarrow>
    cache_run E p pid dv s (\<lambda>_. 0) {} (content s)"
| read: "cache_run E p pid dv s P H L \<Longrightarrow> bno \<notin> H \<Longrightarrow> 0 < P bno \<or> finite (used P) \<and> card (used P) < NBUF \<Longrightarrow>
    P bno < 2 ^ 32 - 1 \<Longrightarrow> bread E dv bno s = Ret (b, s') \<Longrightarrow> cache_run E p pid dv s' (P(bno := Suc (P bno))) (insert bno H) L"
| fill: "cache_run E p pid dv s P H L \<Longrightarrow> holds_block dv s b bno \<Longrightarrow> bno \<in> H \<Longrightarrow> length (f (L bno)) = BSIZE \<Longrightarrow>
    cache_run E p pid dv (set_data b f s) P H (L(bno := f (L bno)))"
| flush: "cache_run E p pid dv s P H L \<Longrightarrow> holds_block dv s b bno \<Longrightarrow> bno \<in> H \<Longrightarrow> bwrite E b s = Ret ((), s') \<Longrightarrow>
    cache_run E p pid dv s' P H L"
| drop: "cache_run E p pid dv s P H L \<Longrightarrow> holds_block dv s b bno \<Longrightarrow> bno \<in> H \<Longrightarrow> (P bno = 1 \<longrightarrow> L bno = content s bno) \<Longrightarrow>
    brelse b s = Ret ((), s') \<Longrightarrow> cache_run E p pid dv s' (P(bno := P bno - 1)) (H - {bno}) L"
| pin: "cache_run E p pid dv s P H L \<Longrightarrow> holds_block dv s b bno \<Longrightarrow> bno \<in> H \<Longrightarrow> P bno < 2 ^ 32 - 1 \<Longrightarrow>
    bpin b s = Ret ((), s') \<Longrightarrow> cache_run E p pid dv s' (P(bno := P bno + 1)) H L"
| unpin: "cache_run E p pid dv s P H L \<Longrightarrow> holds_block dv s b bno \<Longrightarrow> 1 < P bno \<Longrightarrow>
    bunpin b s = Ret ((), s') \<Longrightarrow> cache_run E p pid dv s' (P(bno := P bno - 1)) H L"

lemma boot_store:
  assumes "binit s0 = Ret ((), s1)" "\<forall>b. b_dev (bufs s0 b) \<noteq> dv \<and> b_refcnt (bufs s0 b) = 0" "calm p pid s"
    "bufs s = bufs s1" "slks s = slks s1" "\<forall>bno. length (content s bno) = BSIZE"
  shows "store p pid dv s (\<lambda>_. 0) {} (content s)"
proof -
  let ?B = "(bufs s0)(bhead := (bufs s0 bhead)\<lparr>b_prev := bhead, b_next := bhead\<rparr>)"
  have b: "ring (bufs s1) (rev [0..<NBUF])" "relinked ?B (bufs s1)" "\<forall>b<NBUF. \<not> sl_locked (slks s1 (SBuf b))"
    using binit_ok [of s0] assms(1) by auto
  have d: "b_dev (bufs s1 b) \<noteq> dv" "b_refcnt (bufs s1 b) = 0" for b
    using assms(2) relinkedD(3,5) [OF b(2), of b] by (simp_all split: if_splits)
  show ?thesis
    unfolding store_def assms(4,5) using assms(3,6) b(1,3) d by (intro conjI cache_repI) auto
qed

lemma cache_run_store:
  assumes "cache_run E p pid dv s P H L" and rw: "\<And>b wr. e_rw E b wr = disk_rw b wr"
  shows "store p pid dv s P H L"
  using assms(1)
proof induction
  case (boot s0 s1 s)
  then show ?case by (rule boot_store)
next
  case (read s P H L bno b s')
  from bread_store [OF read.IH read.hyps(2-4) rw] read.hyps(5) show ?case by (simp add: fun_upd_def)
next
  case (fill s P H L b bno f)
  then have "0 < P bno" unfolding store_def using cache_repD(11) by blast
  then show ?case using set_data_store(1) [OF fill.IH fill.hyps(2), of f] fill.hyps(4) by (simp add: fun_upd_def)
next
  case (flush s P H L b bno s')
  then show ?case using bwrite_store [OF flush.IH flush.hyps(2,3) rw] by auto
next
  case (drop s P H L b bno s')
  then show ?case using brelse_store [OF drop.IH drop.hyps(2,3)] by (auto simp: fun_upd_def)
next
  case (pin s P H L b bno s')
  then show ?case using bpin_store [OF pin.IH pin.hyps(2,4)] by (auto simp: fun_upd_def)
next
  case (unpin s P H L b bno s')
  then show ?case using bunpin_store [OF unpin.IH unpin.hyps(2,3)] by (auto simp: fun_upd_def)
qed

text \<open>C3. The buffer cache keeps its invariant in every run of its operations from \<^verbatim>\<open>binit\<close> on, over a disk that
  writes whole blocks: the buffers stay linked in one ring, no two of them hold the same block, the reference counts are those of
  the clients, a buffer is locked exactly while a client holds its block, its data is what the clients last stored, and a block
  that nobody refers to is on disk as it was last seen. While fewer than \<^verbatim>\<open>NBUF\<close> blocks are referred to,
  \<^verbatim>\<open>bread\<close> of an unlocked block returns a buffer with its contents.\<close>

theorem cache_invariant:
  assumes "cache_run E p pid dv s P H L" and rw: "\<And>b wr. e_rw E b wr = disk_rw b wr"
  shows "(\<exists>xs. ring (bufs s) xs) \<and>
    (\<forall>b<NBUF. \<forall>b'<NBUF. b_dev (bufs s b) = dv \<and> b_dev (bufs s b') = dv \<and> b_blockno (bufs s b) = b_blockno (bufs s b') \<longrightarrow> b = b') \<and>
    (\<forall>b<NBUF. b_dev (bufs s b) = dv \<longrightarrow> b_valid (bufs s b) \<and> b_data (bufs s b) = L (b_blockno (bufs s b)) \<and>
       unat (b_refcnt (bufs s b)) = P (b_blockno (bufs s b)) \<and> (sl_locked (slks s (SBuf b)) \<longleftrightarrow> b_blockno (bufs s b) \<in> H)) \<and>
    (\<forall>bno. P bno = 0 \<longrightarrow> L bno = content s bno) \<and>
    (\<forall>bno. bno \<notin> H \<and> (0 < P bno \<or> finite (used P) \<and> card (used P) < NBUF) \<and> P bno < 2 ^ 32 - 1 \<longrightarrow>
       (\<exists>b s'. bread E dv bno s = Ret (b, s') \<and> b_data (bufs s' b) = L bno \<and> content s' = content s))"
proof -
  have st: "store p pid dv s P H L" by (rule cache_run_store [OF assms])
  then have rep: "cache_rep dv pid (bufs s) (slks s) (content s) P H L" by (simp add: store_def)
  have "\<exists>b s'. bread E dv bno s = Ret (b, s') \<and> b_data (bufs s' b) = L bno \<and> content s' = content s"
    if "bno \<notin> H" "0 < P bno \<or> finite (used P) \<and> card (used P) < NBUF" "P bno < 2 ^ 32 - 1" for bno
    using bread_store [OF st that rw] store_data(1) by (fastforce simp: disk_same_def content_def)
  then show ?thesis using cache_repD(1,4-7,9,12) [OF rep] by auto
qed

section \<open>The log header\<close>

lemma length_put32 [simp]: "off + 4 \<le> length bs \<Longrightarrow> length (put32 bs off v) = length bs"
  by (simp add: put32_def put_bytes_def)

lemma get32_put32: "off + 4 \<le> length bs \<Longrightarrow> get32 (put32 bs off v) off = v"
  by (simp add: get32_def put32_def put_bytes_def le_word_bytes)

lemma get32_put32_other:
  assumes "off + 4 \<le> length bs" "off' + 4 \<le> off \<or> off + 4 \<le> off'"
  shows "get32 (put32 bs off v) off' = get32 bs off'"
proof -
  have "take 4 (drop off' (put32 bs off v)) = take 4 (drop off' bs)"
  proof (cases "off' + 4 \<le> off")
    case True
    then have "4 \<le> off - off'" by simp
    then show ?thesis using True assms(1) by (simp add: put32_def put_bytes_def drop_take min_def)
  next
    case False
    then obtain j where "off' = off + 4 + j" using assms(2) nat_le_iff_add by blast
    then show ?thesis using assms(1) by (simp add: put32_def put_bytes_def add.commute)
  qed
  then show ?thesis by (simp add: get32_def)
qed

lemma put_blocks:
  assumes "4 + 4 * n \<le> length bs"
  shows "length (fold (\<lambda>i bs. put32 bs (4 + 4 * i) (f i)) [0..<n] bs) = length bs"
    "get32 (fold (\<lambda>i bs. put32 bs (4 + 4 * i) (f i)) [0..<n] bs) 0 = get32 bs 0"
    "i < n \<Longrightarrow> get32 (fold (\<lambda>i bs. put32 bs (4 + 4 * i) (f i)) [0..<n] bs) (4 + 4 * i) = f i"
  using assms
proof (induction n)
  case (Suc n)
  { case 1 then show ?case using Suc.IH(1) by simp }
  { case 2 then show ?case using Suc.IH(1,2) get32_put32_other [of "4 + 4 * n" _ 0] by simp }
  { case 3
    then show ?case
      using Suc.IH(1,3) get32_put32_other [of "4 + 4 * n" _ "4 + 4 * i"] get32_put32 [of "4 + 4 * n"]
      by (cases "i = n") simp_all }
qed simp_all

lemma decode_encode_header:
  assumes "0 \<le> lh_n lh" "4 + 4 * lh_n lh \<le> int (length bs)" "lh_n lh < 2 ^ 31"
  shows "length (encode_header lh bs) = length bs" "lh_n (decode_header (encode_header lh bs) prev) = lh_n lh"
    "int i < lh_n lh \<Longrightarrow> lh_block (decode_header (encode_header lh bs) prev) i = lh_block lh i"
proof -
  let ?n = "nat (lh_n lh)"
  let ?bs = "put32 bs 0 (of_int (lh_n lh))"
  have len: "length ?bs = length bs" using assms(1,2) by (intro length_put32) simp
  have le: "4 + 4 * ?n \<le> length ?bs" unfolding len using assms(1,2) by simp
  note pb = put_blocks [OF le, where f = "lh_block lh"]
  show "length (encode_header lh bs) = length bs" using pb(1) len by (simp add: encode_header_def)
  have "get32 (encode_header lh bs) 0 = of_int (lh_n lh)"
    using pb(2) get32_put32 [of 0 bs] assms(1,2) by (simp add: encode_header_def)
  then have n: "sint (get32 (encode_header lh bs) 0) = lh_n lh"
    using assms(1,3) by (simp add: signed_of_int signed_take_bit_int_eq_self)
  show "lh_n (decode_header (encode_header lh bs) prev) = lh_n lh" by (simp add: decode_header_def n Let_def)
  show "lh_block (decode_header (encode_header lh bs) prev) i = lh_block lh i" if "int i < lh_n lh"
    using pb(3) [of i] that n by (simp add: decode_header_def Let_def encode_header_def)
qed


section \<open>Copying between the log and the home blocks\<close>

text \<open>A log whose header is at block \<open>st\<close>, with the home blocks \<open>ho\<close> of a transaction; all of them lie
  outside of the log.\<close>

definition slot :: "u32 \<Rightarrow> nat \<Rightarrow> u32" where
  "slot st i = st + of_nat i + 1"

definition log_area :: "u32 \<Rightarrow> u32 set" where
  "log_area st = insert st (slot st ` {..<30})"

definition log_at :: "u32 \<Rightarrow> u32 \<Rightarrow> u32 list \<Rightarrow> logrec \<Rightarrow> bool" where
  "log_at dv st ho l \<longleftrightarrow> lg_dev l = dv \<and> lg_start l = st \<and> lh_n (lg_lh l) = int (length ho) \<and>
    (\<forall>i<length ho. lh_block (lg_lh l) i = ho ! i)"

definition homes_ok :: "u32 \<Rightarrow> u32 list \<Rightarrow> bool" where
  "homes_ok st ho \<longleftrightarrow> length ho < NBUF \<and> set ho \<inter> log_area st = {} \<and> unat st + 30 < 2 ^ 32"

lemma slot_inj:
  assumes "unat st + 30 < 2 ^ 32" "i < 30" "j < 30"
  shows "slot st i = slot st j \<longleftrightarrow> i = j" "slot st i \<noteq> st"
proof -
  have u: "unat (slot st k) = unat st + k + 1" if "k < 30" for k
  proof -
    have e: "slot st k = st + of_nat (k + 1)" by (simp add: slot_def)
    have n: "unat (of_nat (k + 1) :: u32) = k + 1" using that by (simp only: unat_of_nat) simp
    have "unat (slot st k) = (unat st + (k + 1)) mod 2 ^ 32"
      unfolding e unat_word_ariths(1) n by simp
    also have "\<dots> = unat st + (k + 1)" by (rule mod_less) (use assms(1) that in linarith)
    finally show ?thesis by simp
  qed
  show "slot st i = slot st j \<longleftrightarrow> i = j" 
  proof
    assume "slot st i = slot st j"
    then have "unat (slot st i) = unat (slot st j)" by (rule arg_cong)
    then show "i = j" unfolding u [OF assms(2)] u [OF assms(3)] by simp
  qed simp
  show "slot st i \<noteq> st"
  proof
    assume "slot st i = st"
    then have "unat st = unat st + i + 1" using u [OF assms(2)] by (simp only:)
    then show False by simp
  qed
qed

lemma homes_slot:
  assumes "homes_ok st ho" "i < 30" "h \<in> set ho"
  shows "slot st i \<noteq> h" "st \<noteq> h"
  using assms unfolding homes_ok_def log_area_def by blast+

lemma home_out: "homes_ok st ho \<Longrightarrow> h \<in> set ho \<Longrightarrow> h \<notin> log_area st"
  unfolding homes_ok_def by blast

definition pins :: "u32 set \<Rightarrow> u32 \<Rightarrow> nat" where
  "pins A b = (if b \<in> A then 1 else 0)"

lemma used_pins [simp]: "used (pins A) = A"
  by (auto simp: pins_def)

lemma card_homes: "homes_ok st ho \<Longrightarrow> A \<subseteq> set ho \<Longrightarrow> finite A \<and> card A < NBUF"
  unfolding homes_ok_def by (meson List.finite_set card_length card_mono finite_subset le_less_trans order_trans)

lemma write_log_one_ok:
  assumes "store p pid dv s (pins (set ho)) {} L" "log_at dv st ho (log s)" "homes_ok st ho" "i < length ho"
    and rw: "\<And>b wr. e_rw E b wr = disk_rw b wr"
  shows "\<exists>s'. write_log_one E i s = Ret ((), s') \<and> store p pid dv s' (pins (set ho)) {} (L(slot st i := L (ho ! i))) \<and>
    log s' = log s \<and> kept s s' \<and> disk0 s' = disk0 s \<and> writes s' = writes s @ [(slot st i, L (ho ! i))]"
proof -
  let ?a = "slot st i" and ?h = "ho ! i" and ?P = "pins (set ho)"
  have i: "i < 30" using assms(3,4) by (simp add: homes_ok_def NBUF_def)
  have ah: "?a \<noteq> ?h" "?a \<notin> set ho" using homes_slot(1) [OF assms(3) i] assms(4) nth_mem by blast+
  have Pa: "?P ?a = 0" and Ph: "?P ?h = 1" using ah(2) assms(4) by (simp_all add: pins_def)
  have fin: "finite (used ?P) \<and> card (used ?P) < NBUF" using card_homes [OF assms(3)] by simp
  obtain b1 s1 where s1: "bread E dv ?a s = Ret (b1, s1)" "store p pid dv s1 (?P(?a := 1)) {?a} L" "disk_same s s1"
      "holds_block dv s1 b1 ?a"
    using bread_store [OF assms(1), of ?a E] rw fin Pa by auto
  obtain b2 s2 where s2: "bread E dv ?h s1 = Ret (b2, s2)" "store p pid dv s2 (?P(?a := 1, ?h := Suc (Suc 0))) {?h, ?a} L" "disk_same s1 s2"
      "holds_block dv s2 b2 ?h" "holds_block dv s2 b1 ?a"
    using bread_store [OF s1(2), of ?h E] rw Ph ah s1(4) by auto
  let ?L = "L(?a := L ?h)"
  let ?s3 = "set_data b1 (\<lambda>_. b_data (bufs s2 b2)) s2"
  have d2: "b_data (bufs s2 b2) = L ?h" by (rule store_data(1) [OF s2(2,4)])
  have len: "length (L ?h) = BSIZE" by (rule store_length [OF s2(2)])
  have s3: "store p pid dv ?s3 (?P(?a := 1, ?h := Suc (Suc 0))) {?h, ?a} ?L" "disk_same s2 ?s3"
      "holds_block dv ?s3 b1 ?a" "holds_block dv ?s3 b2 ?h"
    using set_data_store [OF s2(2,5), of "\<lambda>_. b_data (bufs s2 b2)"] s2(4,5) ah len by (simp_all add: d2)
  obtain s4 where s4: "bwrite E b1 ?s3 = Ret ((), s4)" "store p pid dv s4 (?P(?a := 1, ?h := Suc (Suc 0))) {?h, ?a} ?L"
      "log s4 = log ?s3" "disk0 s4 = disk0 ?s3" "writes s4 = writes ?s3 @ [(?a, L ?h)]" "holds_block dv s4 b1 ?a" "holds_block dv s4 b2 ?h" "kept ?s3 s4"
    using bwrite_store [OF s3(1,3), of E] rw s3(3,4) by auto
  obtain s5 where s5: "brelse b2 s4 = Ret ((), s5)" "store p pid dv s5 (?P(?a := 1)) {?a} ?L" "disk_same s4 s5" "holds_block dv s5 b1 ?a"
  proof -
    have "?P(?a := 1, ?h := Suc (Suc 0), ?h := Suc (Suc 0) - 1) = ?P(?a := 1)" using Ph ah(1) by (auto simp: fun_eq_iff)
    moreover have "{?h, ?a} - {?h} = {?a}" using ah(1) by auto
    ultimately show ?thesis using brelse_store [OF s4(2,7)] s4(6) that by auto
  qed
  have c: "content s5 ?a = L ?h"
    using s5(3) s4(4,5) by (simp add: content_def apply_writes_def disk_same_def)
  obtain s6 where s6: "brelse b1 s5 = Ret ((), s6)" "store p pid dv s6 ?P {} ?L" "disk_same s5 s6"
  proof -
    have "?P(?a := 1, ?a := 1 - 1) = ?P" using Pa by (auto simp: fun_eq_iff)
    then show ?thesis using brelse_store [OF s5(2,4)] c that by auto
  qed
  have "write_log_one E i s = Ret ((), s6)"
    using assms(2,4) s1(1) s2(1) s4(1) s5(1) s6(1)
    by (simp add: write_log_one_def kM_simps log_at_def slot_def add.commute add.left_commute)
  then show ?thesis
    using s6(2) s1(3) s2(3) s3(2) s4(3-5,8) s5(3) s6(3) by (intro exI [of _ s6]) (simp add: disk_same_def)
qed


lemma install_one_ok:
  assumes "store p pid dv s (pins A) {} L" "log_at dv st ho (log s)" "homes_ok st ho" "i < length ho" "A \<subseteq> set ho"
    "if rec then ho ! i \<notin> A else ho ! i \<in> A"
    and rw: "\<And>b wr. e_rw E b wr = disk_rw b wr"
  shows "\<exists>s'. install_one E rec i s = Ret ((), s') \<and> store p pid dv s' (pins (A - {ho ! i})) {} (L(ho ! i := L (slot st i))) \<and>
    log s' = log s \<and> kept s s' \<and> disk0 s' = disk0 s \<and> writes s' = writes s @ [(ho ! i, L (slot st i))]"
proof -
  let ?a = "slot st i" and ?h = "ho ! i" and ?P = "pins A"
  have i: "i < 30" using assms(3,4) by (simp add: homes_ok_def NBUF_def)
  have ah: "?a \<noteq> ?h" "?a \<notin> set ho" using homes_slot(1) [OF assms(3) i] assms(4) nth_mem by blast+
  have Pa: "?P ?a = 0" and Ph: "?P ?h = (if rec then 0 else 1)"
    using ah(2) assms(5,6) by (auto simp: pins_def)
  have fin: "finite A \<and> card A < NBUF" "finite (insert ?a A) \<and> (rec \<longrightarrow> card (insert ?a A) < NBUF)"
  proof -
    show f: "finite A \<and> card A < NBUF" using card_homes [OF assms(3,5)] .
    have "card (insert ?a A) < NBUF" if rec
    proof -
      have hA: "?h \<notin> A" using assms(6) that by simp
      have "insert ?h A \<subseteq> set ho" using assms(4,5) by simp
      then have "finite (insert ?h A) \<and> card (insert ?h A) < NBUF" by (rule card_homes [OF assms(3)])
      moreover have "?a \<notin> A" using ah(2) assms(5) by blast
      ultimately show ?thesis using f hA by simp
    qed
    then show "finite (insert ?a A) \<and> (rec \<longrightarrow> card (insert ?a A) < NBUF)" using f by simp
  qed
  have La: "L ?a = content s ?a" by (rule store_content [OF assms(1) Pa])
  obtain b1 s1 where s1: "bread E dv ?a s = Ret (b1, s1)" "store p pid dv s1 (?P(?a := 1)) {?a} L" "disk_same s s1"
      "holds_block dv s1 b1 ?a"
    using bread_store [OF assms(1), of ?a E] rw fin(1) Pa by auto
  have u1: "used (?P(?a := 1)) = insert ?a A" by (auto simp: pins_def)
  define k where "k = Suc (?P ?h)"
  have k: "k = (if rec then 1 else Suc (Suc 0))" "0 < k" using Ph by (simp_all add: k_def)
  obtain b2 s2 where s2: "bread E dv ?h s1 = Ret (b2, s2)" "store p pid dv s2 (?P(?a := 1, ?h := k)) {?h, ?a} L" "disk_same s1 s2"
      "holds_block dv s2 b2 ?h" "holds_block dv s2 b1 ?a"
  proof -
    have hit: "0 < (?P(?a := 1)) ?h \<or> (finite (used (?P(?a := 1))) \<and> card (used (?P(?a := 1))) < NBUF)"
      unfolding u1 using fin(2) Ph ah(1) by auto
    have kh: "Suc ((?P(?a := 1)) ?h) = k" using ah(1) by (simp add: k_def)
    have nh: "?h \<notin> {?a}" and lt: "(?P(?a := 1)) ?h < 2 ^ 32 - 1" using ah(1) Ph by auto
    have pos: "0 < (?P(?a := 1)) ?a" by simp
    show ?thesis using bread_store [OF s1(2) nh hit lt rw, unfolded kh] s1(4) pos that by blast
  qed
  let ?L = "L(?h := L ?a)"
  let ?s3 = "set_data b2 (\<lambda>_. b_data (bufs s2 b1)) s2"
  have d1: "b_data (bufs s2 b1) = L ?a" by (rule store_data(1) [OF s2(2,5)])
  have s3: "store p pid dv ?s3 (?P(?a := 1, ?h := k)) {?h, ?a} ?L" "disk_same s2 ?s3"
      "holds_block dv ?s3 b1 ?a" "holds_block dv ?s3 b2 ?h"
    using set_data_store [OF s2(2,4), of "\<lambda>_. b_data (bufs s2 b1)"] s2(4,5) ah k(2) store_length [OF s2(2), of ?a]
    by (simp_all add: d1)
  obtain s4 where s4: "bwrite E b2 ?s3 = Ret ((), s4)" "store p pid dv s4 (?P(?a := 1, ?h := k)) {?h, ?a} ?L"
      "log s4 = log ?s3" "disk0 s4 = disk0 ?s3" "writes s4 = writes ?s3 @ [(?h, L ?a)]" "holds_block dv s4 b1 ?a" "holds_block dv s4 b2 ?h" "kept ?s3 s4"
    using bwrite_store [OF s3(1,4), of E] rw s3(3,4) by auto
  obtain s5 where s5: "whenM (\<not> rec) (bunpin b2) s4 = Ret ((), s5)" "store p pid dv s5 (?P(?a := 1, ?h := 1)) {?h, ?a} ?L"
      "disk_same s4 s5" "holds_block dv s5 b1 ?a" "holds_block dv s5 b2 ?h"
  proof (cases rec)
    case True
    then show ?thesis using that [of s4] s4 k(1) by (simp add: kM_simps disk_same_def)
  next
    case False
    then show ?thesis using bunpin_store [OF s4(2,7)] s4(6,7) k(1) that by (auto simp: kM_simps)
  qed
  have c5: "content s5 = (content s)(?h := L ?a)"
    using s1(3) s2(3) s3(2) s4(4,5) s5(3) by (simp add: content_def apply_writes_def disk_same_def)
  obtain s6 where s6: "brelse b1 s5 = Ret ((), s6)" "store p pid dv s6 (?P(?h := 1)) {?h} ?L" "disk_same s5 s6" "holds_block dv s6 b2 ?h"
  proof -
    have "?P(?a := 1, ?h := 1, ?a := 1 - 1) = ?P(?h := 1)" using Pa ah(1) by (auto simp: fun_eq_iff)
    moreover have "{?h, ?a} - {?a} = {?h}" using ah(1) by auto
    moreover have "?L ?a = content s5 ?a" using c5 La ah(1) by simp
    ultimately show ?thesis using brelse_store [OF s5(2,4)] s5(5) ah(1) that by auto
  qed
  obtain s7 where s7: "brelse b2 s6 = Ret ((), s7)" "store p pid dv s7 (pins (A - {?h})) {} ?L" "disk_same s6 s7"
  proof -
    have "?P(?h := 1, ?h := 1 - 1) = pins (A - {?h})" by (auto simp: fun_eq_iff pins_def)
    moreover have "?L ?h = content s6 ?h" using c5 s6(3) by (simp add: content_def disk_same_def)
    ultimately show ?thesis using brelse_store [OF s6(2,4)] that by auto
  qed
  have "install_one E rec i s = Ret ((), s7)"
    using assms(2,4) s1(1) s2(1) s4(1) s5(1) s6(1) s7(1)
    by (simp add: install_one_def bind_apply seq_apply gets_apply modify_apply log_at_def slot_def add.commute add.left_commute)
  then show ?thesis
    using s7(2) s1(3) s2(3) s3(2) s4(3-5,8) s5(3) s6(3) s7(3) by (intro exI [of _ s7]) (simp add: disk_same_def)
qed

lemma write_head_ok:
  assumes "store p pid dv s (pins A) {} L" "lg_dev (log s) = dv" "lg_start (log s) = st" "st \<notin> A" "finite A \<and> card A < NBUF"
    "length (encode_header (lg_lh (log s)) (L st)) = BSIZE"
    and rw: "\<And>b wr. e_rw E b wr = disk_rw b wr"
  shows "\<exists>s'. write_head E s = Ret ((), s') \<and> store p pid dv s' (pins A) {} (L(st := encode_header (lg_lh (log s)) (L st))) \<and>
    log s' = log s \<and> kept s s' \<and> disk0 s' = disk0 s \<and> writes s' = writes s @ [(st, encode_header (lg_lh (log s)) (L st))]"
proof -
  let ?P = "pins A" and ?x = "encode_header (lg_lh (log s)) (L st)"
  have P: "?P st = 0" using assms(4) by (simp add: pins_def)
  obtain b s1 where s1: "bread E dv st s = Ret (b, s1)" "store p pid dv s1 (?P(st := 1)) {st} L" "disk_same s s1" "holds_block dv s1 b st"
    using bread_store [OF assms(1), of st E] rw assms(5) P by auto
  let ?s2 = "set_data b (encode_header (lg_lh (log s))) s1"
  have s2: "store p pid dv ?s2 (?P(st := 1)) {st} (L(st := ?x))" "disk_same s1 ?s2" "holds_block dv ?s2 b st"
    using set_data_store [OF s1(2,4), of "encode_header (lg_lh (log s))"] assms(6) s1(4) by simp_all
  obtain s3 where s3: "bwrite E b ?s2 = Ret ((), s3)" "store p pid dv s3 (?P(st := 1)) {st} (L(st := ?x))"
      "log s3 = log ?s2" "disk0 s3 = disk0 ?s2" "writes s3 = writes ?s2 @ [(st, ?x)]" "holds_block dv s3 b st" "kept ?s2 s3"
    using bwrite_store [OF s2(1,3), of E] rw s2(3) by auto
  obtain s4 where s4: "brelse b s3 = Ret ((), s4)" "store p pid dv s4 ?P {} (L(st := ?x))" "disk_same s3 s4"
  proof -
    have "?P(st := 1, st := 1 - 1) = ?P" using P by (auto simp: fun_eq_iff)
    moreover have "content s3 st = ?x" using s3(4,5) by (simp add: content_def apply_writes_def)
    ultimately show ?thesis using brelse_store [OF s3(2,6)] that by auto
  qed
  have "write_head E s = Ret ((), s4)"
    using assms(2,3) s1(1) s3(1) s4(1) by (simp add: write_head_def kM_simps)
  then show ?thesis using s4(2) s1(3) s2(2) s3(3-5,7) s4(3) by (intro exI [of _ s4]) (simp add: disk_same_def)
qed


section \<open>Commit and recovery\<close>

lemma apply_writes_simps [simp]:
  "apply_writes [] d = d" "apply_writes ((b, x) # ws) d = apply_writes ws (d(b := x))"
  "apply_writes (ws @ ws') d = apply_writes ws' (apply_writes ws d)"
  by (simp_all add: apply_writes_def)

lemma apply_writes_other: "b \<notin> fst ` set ws \<Longrightarrow> apply_writes ws d b = d b"
proof (induction ws arbitrary: d)
  case (Cons w ws) then show ?case by (cases w) auto
qed simp

lemma apply_writes_map:
  assumes "\<And>i j. i < n \<Longrightarrow> j < n \<Longrightarrow> g i = g j \<Longrightarrow> f i = f j" "i < n"
  shows "apply_writes (map (\<lambda>i. (g i, f i)) [0..<n]) d (g i) = f i"
  using assms
proof (induction n)
  case (Suc n)
  show ?case
  proof (cases "g i = g n")
    case True then show ?thesis using Suc.prems(1) [of i n] Suc.prems(2) by simp
  next
    case False
    then have "i < n" using Suc.prems(2) by (cases "i = n") auto
    then show ?thesis using False Suc.IH Suc.prems(1) by simp
  qed
qed simp

lemma store_log [simp]: "store p pid dv (s\<lparr>log := l\<rparr>) P H L = store p pid dv s P H L"
  by (simp add: store_def)

definition log_writes :: "u32 \<Rightarrow> u32 list \<Rightarrow> (u32 \<Rightarrow> u8 list) \<Rightarrow> nat \<Rightarrow> (u32 \<times> u8 list) list" where
  "log_writes st ho L k = map (\<lambda>i. (slot st i, L (ho ! i))) [0..<k]"

definition home_writes :: "u32 \<Rightarrow> u32 list \<Rightarrow> (u32 \<Rightarrow> u8 list) \<Rightarrow> nat \<Rightarrow> (u32 \<times> u8 list) list" where
  "home_writes st ho L k = map (\<lambda>i. (ho ! i, L (slot st i))) [0..<k]"

lemma log_writes_Suc [simp]: "log_writes st ho L (Suc k) = log_writes st ho L k @ [(slot st k, L (ho ! k))]"
  by (simp add: log_writes_def)

lemma home_writes_Suc [simp]: "home_writes st ho L (Suc k) = home_writes st ho L k @ [(ho ! k, L (slot st k))]"
  by (simp add: home_writes_def)

lemma log_writes_home:
  assumes "homes_ok st ho" "k \<le> length ho" "h \<notin> log_area st"
  shows "apply_writes (log_writes st ho L k) d h = d h"
proof (rule apply_writes_other)
  have "k < 30" using assms(1,2) by (simp add: homes_ok_def NBUF_def)
  then have "fst ` set (log_writes st ho L k) \<subseteq> log_area st" by (auto simp: log_writes_def log_area_def)
  then show "h \<notin> fst ` set (log_writes st ho L k)" using assms(3) by blast
qed

lemma home_writes_slot:
  assumes "homes_ok st ho" "k \<le> length ho" "b \<in> log_area st"
  shows "apply_writes (home_writes st ho L k) d b = d b"
proof (rule apply_writes_other)
  have "fst ` set (home_writes st ho L k) \<subseteq> set ho" using assms(2) by (auto simp: home_writes_def)
  then show "b \<notin> fst ` set (home_writes st ho L k)" using assms(1,3) by (auto simp: homes_ok_def)
qed

lemma write_log_ok:
  assumes "store p pid dv s (pins (set ho)) {} L" "log_at dv st ho (log s)" "homes_ok st ho" "k \<le> length ho"
    and rw: "\<And>b wr. e_rw E b wr = disk_rw b wr"
  shows "\<exists>s'. for_each [0..<k] (write_log_one E) s = Ret ((), s') \<and>
    store p pid dv s' (pins (set ho)) {} (apply_writes (log_writes st ho L k) L) \<and>
    log s' = log s \<and> kept s s' \<and> disk0 s' = disk0 s \<and> writes s' = writes s @ log_writes st ho L k"
  using assms(4)
proof (induction k)
  case 0
  then show ?case using assms(1) by (intro exI [of _ s]) (simp add: kM_simps log_writes_def)
next
  case (Suc k)
  then obtain s1 where s1: "for_each [0..<k] (write_log_one E) s = Ret ((), s1)"
    "store p pid dv s1 (pins (set ho)) {} (apply_writes (log_writes st ho L k) L)"
    "log s1 = log s" "disk0 s1 = disk0 s" "writes s1 = writes s @ log_writes st ho L k" "kept s s1" by auto
  have k: "k < length ho" using Suc.prems by simp
  have "log_at dv st ho (log s1)" using assms(2) s1(3) by simp
  from write_log_one_ok [OF s1(2) this assms(3) k rw] obtain s2 where s2: "write_log_one E k s1 = Ret ((), s2)"
    "store p pid dv s2 (pins (set ho)) {} ((apply_writes (log_writes st ho L k) L)(slot st k := L (ho ! k)))"
    "log s2 = log s1" "disk0 s2 = disk0 s1" "writes s2 = writes s1 @ [(slot st k, L (ho ! k))]" "kept s1 s2"
    using log_writes_home [OF assms(3), of k "ho ! k"] k home_out [OF assms(3), of "ho ! k"] by auto
  show ?case using s1 s2 by (intro exI [of _ s2]) (simp add: for_each_Suc fun_upd_def del: upt_Suc)
qed

lemma install_ok:
  assumes "store p pid dv s (pins (if rec then {} else set ho)) {} L" "log_at dv st ho (log s)" "homes_ok st ho" "k \<le> length ho"
    "rec \<or> distinct ho"
    and rw: "\<And>b wr. e_rw E b wr = disk_rw b wr"
  shows "\<exists>s'. for_each [0..<k] (install_one E rec) s = Ret ((), s') \<and>
    store p pid dv s' (pins (if rec then {} else set (drop k ho))) {} (apply_writes (home_writes st ho L k) L) \<and>
    log s' = log s \<and> kept s s' \<and> disk0 s' = disk0 s \<and> writes s' = writes s @ home_writes st ho L k"
  using assms(4)
proof (induction k)
  case 0
  then show ?case using assms(1) by (intro exI [of _ s]) (simp add: kM_simps home_writes_def split: if_splits)
next
  case (Suc k)
  let ?A = "if rec then {} else set (drop k ho)"
  obtain s1 where s1: "for_each [0..<k] (install_one E rec) s = Ret ((), s1)"
    "store p pid dv s1 (pins ?A) {} (apply_writes (home_writes st ho L k) L)"
    "log s1 = log s" "disk0 s1 = disk0 s" "writes s1 = writes s @ home_writes st ho L k" "kept s s1" using Suc by auto
  have k: "k < length ho" "k < 30" using Suc.prems assms(3) by (simp_all add: homes_ok_def NBUF_def)
  have la: "log_at dv st ho (log s1)" using assms(2) s1(3) by simp
  have A: "?A \<subseteq> set ho" by (auto dest: in_set_dropD)
  have dr: "drop k ho = ho ! k # drop (Suc k) ho" using k(1) by (rule Cons_nth_drop_Suc [symmetric])
  have hA: "if rec then ho ! k \<notin> ?A else ho ! k \<in> ?A" unfolding dr by simp
  have "ho ! k \<notin> set (drop (Suc k) ho)" if "\<not> rec"
  proof -
    have "distinct (drop k ho)" using assms(5) that by simp
    then show ?thesis unfolding dr by simp
  qed
  then have A': "?A - {ho ! k} = (if rec then {} else set (drop (Suc k) ho))" unfolding dr by auto
  from install_one_ok [OF s1(2) la assms(3) k(1) A hA rw] obtain s2 where s2: "install_one E rec k s1 = Ret ((), s2)"
    "store p pid dv s2 (pins (if rec then {} else set (drop (Suc k) ho))) {}
      ((apply_writes (home_writes st ho L k) L)(ho ! k := L (slot st k)))"
    "log s2 = log s1" "disk0 s2 = disk0 s1" "writes s2 = writes s1 @ [(ho ! k, L (slot st k))]" "kept s1 s2"
    using home_writes_slot [OF assms(3), of k "slot st k"] k unfolding A' by (auto simp: log_area_def)
  show ?case using s1 s2 by (intro exI [of _ s2]) (simp add: for_each_Suc fun_upd_def del: upt_Suc)
qed


lemma commit_ok:
  assumes "store p pid dv s (pins (set ho)) {} L" "log_at dv st ho (log s)" "homes_ok st ho" "distinct ho" "ho \<noteq> []"
    and rw: "\<And>b wr. e_rw E b wr = disk_rw b wr"
  defines "h1 \<equiv> encode_header (lg_lh (log s)) (L st)"
  defines "h0 \<equiv> encode_header ((lg_lh (log s))\<lparr>lh_n := 0\<rparr>) h1"
  shows "\<exists>s'. commit E s = Ret ((), s') \<and> log s' = (log s)\<lparr>lg_lh := (lg_lh (log s))\<lparr>lh_n := 0\<rparr>\<rparr> \<and> kept s s' \<and> disk0 s' = disk0 s \<and>
    writes s' = writes s @ log_writes st ho L (length ho) @ [(st, h1)] @ map (\<lambda>i. (ho ! i, L (ho ! i))) [0..<length ho] @ [(st, h0)] \<and>
    (\<exists>L'. store p pid dv s' (pins {}) {} L' \<and> (\<forall>b. b \<notin> log_area st \<longrightarrow> L' b = L b))"
proof -
  let ?n = "length ho"
  have n: "lh_n (lg_lh (log s)) = int ?n" "?n < 30" "lg_dev (log s) = dv" "lg_start (log s) = st"
    using assms(2,3) by (simp_all add: log_at_def homes_ok_def NBUF_def)
  have st: "st \<in> log_area st" "st \<notin> set ho" using assms(3) by (auto simp: homes_ok_def log_area_def)
  let ?L1 = "apply_writes (log_writes st ho L ?n) L"
  obtain s1 where s1: "for_each [0..<?n] (write_log_one E) s = Ret ((), s1)" "store p pid dv s1 (pins (set ho)) {} ?L1"
    "log s1 = log s" "disk0 s1 = disk0 s" "writes s1 = writes s @ log_writes st ho L ?n" "kept s s1"
    using write_log_ok [OF assms(1-3) order_refl rw] by blast
  have L1st: "?L1 st = L st"
  proof (rule apply_writes_other)
    have "slot st i \<noteq> st" if "i < ?n" for i using slot_inj(2) [of st i i] assms(3) that n(2) by (simp add: homes_ok_def)
    then show "st \<notin> fst ` set (log_writes st ho L ?n)" by (fastforce simp: log_writes_def)
  qed
  have bs: "length (L st) = BSIZE" by (rule store_length [OF assms(1)])
  have l1: "length h1 = BSIZE" using decode_encode_header(1) [of "lg_lh (log s)" "L st"] n(1,2) bs by (simp add: h1_def BSIZE_def)
  have l0: "length h0 = BSIZE" using decode_encode_header(1) [of "(lg_lh (log s))\<lparr>lh_n := 0\<rparr>" h1] l1 by (simp add: h0_def BSIZE_def)
  obtain s2 where s2: "write_head E s1 = Ret ((), s2)" "store p pid dv s2 (pins (set ho)) {} (?L1(st := h1))"
    "log s2 = log s" "disk0 s2 = disk0 s" "writes s2 = writes s1 @ [(st, h1)]" "kept s s2"
    using write_head_ok [OF s1(2), of st E] rw s1(3,4,6) n st(2) card_homes [OF assms(3) order_refl] l1
    by (auto simp: L1st h1_def)
  let ?L2 = "?L1(st := h1)"
  let ?L3 = "apply_writes (home_writes st ho ?L2 ?n) ?L2"
  have la2: "log_at dv st ho (log s2)" using assms(2) s2(3) by simp
  obtain s3 where s3: "for_each [0..<?n] (install_one E False) s2 = Ret ((), s3)" "store p pid dv s3 (pins {}) {} ?L3"
    "log s3 = log s" "disk0 s3 = disk0 s" "writes s3 = writes s2 @ home_writes st ho ?L2 ?n" "kept s s3"
    using install_ok [where rec = False and k = ?n and L = ?L2 and p = p and pid = pid, OF _ la2 assms(3) order_refl _ rw] s2(2-4,6) assms(4) by auto
  have hw: "home_writes st ho ?L2 ?n = map (\<lambda>i. (ho ! i, L (ho ! i))) [0..<?n]"
  proof -
    have "?L2 (slot st i) = L (ho ! i)" if "i < ?n" for i
    proof -
      have u: "unat st + 30 < 2 ^ 32" using assms(3) by (simp add: homes_ok_def)
      have "?L1 (slot st i) = L (ho ! i)"
        unfolding log_writes_def using that n(2) slot_inj(1) [OF u] by (intro apply_writes_map) auto
      then show ?thesis using slot_inj(2) [OF u, of i i] that n(2) by simp
    qed
    then show ?thesis by (simp add: home_writes_def)
  qed
  let ?s4 = "s3\<lparr>log := (log s)\<lparr>lg_lh := (lg_lh (log s))\<lparr>lh_n := 0\<rparr>\<rparr>\<rparr>"
  have L3st: "?L3 st = h1" using home_writes_slot [OF assms(3) order_refl st(1)] by simp
  obtain s5 where s5: "write_head E ?s4 = Ret ((), s5)" "store p pid dv s5 (pins {}) {} (?L3(st := h0))"
    "log s5 = log ?s4" "disk0 s5 = disk0 s" "writes s5 = writes s3 @ [(st, h0)]" "kept s s5"
    using write_head_ok [of p pid dv ?s4 "{}" ?L3 st E] s3(2,4,6) rw n l0 by (auto simp: L3st h0_def NBUF_def)
  have "commit E s = Ret ((), s5)"
    using s1(1) s2(1,3) s3(1,3) s5(1) n(1) assms(5)
    by (simp add: commit_def write_log_def install_trans_def log_entries_def kM_simps upd_log_def)
  moreover have "(?L3(st := h0)) b = L b" if "b \<notin> log_area st" for b
  proof -
    have b: "b \<noteq> st" "?L2 b = L b" using that st(1) log_writes_home [OF assms(3) order_refl that] by auto
    have "?L3 b = L b"
    proof (cases "b \<in> set ho")
      case True
      then obtain i where "i < ?n" "b = ho ! i" by (auto simp: in_set_conv_nth)
      then show ?thesis unfolding hw by (auto intro!: apply_writes_map)
    next
      case False
      then show ?thesis using b(2) unfolding hw by (subst apply_writes_other) auto
    qed
    then show ?thesis using b(1) by simp
  qed
  ultimately show ?thesis
    using s5 s3(5) s2(5) s1(5) hw by (intro exI [of _ s5]) auto
qed


text \<open>The header block names the home blocks \<open>ho\<close>.\<close>

definition header_is :: "u8 list \<Rightarrow> u32 list \<Rightarrow> bool" where
  "header_is bs ho \<longleftrightarrow> sint (get32 bs 0) = int (length ho) \<and> (\<forall>i<length ho. get32 bs (4 + 4 * i) = ho ! i)"

lemma header_encoded:
  assumes "0 \<le> lh_n lh" "4 + 4 * lh_n lh \<le> int (length bs)" "lh_n lh < 2 ^ 31"
  shows "header_is (encode_header lh bs) (map (lh_block lh) [0..<nat (lh_n lh)])"
proof -
  note d = decode_encode_header(2,3) [OF assms, where prev = lh]
  have "sint (get32 (encode_header lh bs) 0) = lh_n lh" using d(1) by (simp add: decode_header_def Let_def)
  moreover have "get32 (encode_header lh bs) (4 + 4 * i) = lh_block lh i" if "int i < lh_n lh" for i
    using d(2) [OF that] calculation that by (simp add: decode_header_def Let_def)
  ultimately show ?thesis using assms(1) by (simp add: header_is_def)
qed

lemma recover_ok:
  assumes "store p pid dv s (pins {}) {} (content s)" "lg_dev (log s) = dv" "lg_start (log s) = st" "homes_ok st ho"
    "header_is (content s st) ho"
    and rw: "\<And>b wr. e_rw E b wr = disk_rw b wr"
  shows "\<exists>s'. recover_from_log E s = Ret ((), s') \<and> lh_n (lg_lh (log s')) = 0 \<and> kept s s' \<and> store p pid dv s' (pins {}) {} (content s') \<and>
    header_is (content s' st) [] \<and> log s' = (log s)\<lparr>lg_lh := lg_lh (log s')\<rparr> \<and>
    (\<forall>b. b \<noteq> st \<longrightarrow> content s' b = apply_writes (home_writes st ho (content s) (length ho)) (content s) b)"
proof -
  let ?D = "content s" and ?n = "length ho"
  have n: "?n < 30" using assms(4) by (simp add: homes_ok_def NBUF_def)
  obtain b s1 where s1: "bread E dv st s = Ret (b, s1)" "store p pid dv s1 ((pins {})(st := 1)) {st} ?D" "disk_same s s1" "holds_block dv s1 b st"
    using bread_store [OF assms(1), of st E] rw by (auto simp: pins_def NBUF_def)
  let ?lh = "decode_header (?D st) (lg_lh (log s))"
  let ?s2 = "s1\<lparr>log := (log s)\<lparr>lg_lh := ?lh\<rparr>\<rparr>"
  have s2: "store p pid dv ?s2 ((pins {})(st := 1)) {st} ?D" "holds_block dv ?s2 b st" "content ?s2 = ?D"
    using s1(2-4) by (simp_all add: holds_block_def content_def disk_same_def)
  obtain s3 where s3: "brelse b ?s2 = Ret ((), s3)" "store p pid dv s3 (pins {}) {} ?D" "disk_same ?s2 s3"
  proof -
    have "(pins {})(st := 1, st := 1 - 1) = pins {}" by (auto simp: pins_def fun_eq_iff)
    then show ?thesis using brelse_store [OF s2(1,2)] s2(3) that by auto
  qed
  have rh: "read_head E s = Ret ((), s3)"
    using s1(1) s3(1) s1(3) store_data(1) [OF s1(2,4)] assms(2,3)
    by (simp add: read_head_def kM_simps upd_log_def disk_same_def)
  have la: "log_at dv st ho (log s3)"
    using s3(3) assms(2,3,5) by (simp add: disk_same_def log_at_def decode_header_def Let_def header_is_def)
  have nn: "lh_n (lg_lh (log s3)) = int ?n" using la by (simp add: log_at_def)
  let ?L = "apply_writes (home_writes st ho ?D ?n) ?D"
  obtain s4 where s4: "for_each [0..<?n] (install_one E True) s3 = Ret ((), s4)" "store p pid dv s4 (pins {}) {} ?L"
    "log s4 = log s3" "writes s4 = writes s3 @ home_writes st ho ?D ?n" "disk0 s4 = disk0 s3" "kept s3 s4"
    using install_ok [where rec = True and k = ?n and L = ?D and p = p and pid = pid, OF _ la assms(4) order_refl _ rw] s3(2) by auto
  let ?s5 = "s4\<lparr>log := (log s4)\<lparr>lg_lh := (lg_lh (log s4))\<lparr>lh_n := 0\<rparr>\<rparr>\<rparr>"
  let ?x = "encode_header (lg_lh (log ?s5)) (?L st)"
  have lx: "4 + 4 * lh_n (lg_lh (log ?s5)) \<le> int (length (?L st))" "0 \<le> lh_n (lg_lh (log ?s5))" "lh_n (lg_lh (log ?s5)) < 2 ^ 31"
    using store_length [OF s4(2)] by (simp_all add: BSIZE_def)
  have len: "length ?x = BSIZE" using decode_encode_header(1) [OF lx(2,1,3)] store_length [OF s4(2)] by simp
  obtain s6 where s6: "write_head E ?s5 = Ret ((), s6)" "store p pid dv s6 (pins {}) {} (?L(st := ?x))" "log s6 = log ?s5" "kept ?s5 s6"
    using write_head_ok [of p pid dv ?s5 "{}" ?L st E] s4(2) rw la s4(3) len by (auto simp: log_at_def NBUF_def)
  have run: "recover_from_log E s = Ret ((), s6)"
    using rh s4(1) s6(1) nn by (simp add: recover_from_log_def install_trans_def log_entries_def kM_simps upd_log_def)
  have c6: "content s6 = ?L(st := ?x)" using store_content [OF s6(2)] by (simp add: pins_def fun_eq_iff)
  have "header_is ?x []" using header_encoded [OF lx(2,1,3)] by simp
  then show ?thesis
    using run s6(2-4) c6 s4(3,6) s3(3) s1(3) by (intro exI [of _ s6]) (auto simp: log_area_def disk_same_def)
qed


section \<open>Recording a write\<close>

lemma log_find_eq:
  assumes "log_at dv st ho l"
  shows "log_find bno (lg_lh l) = (if bno \<in> set ho then (LEAST i. i < length ho \<and> ho ! i = bno) else length ho)"
proof -
  let ?n = "length ho" and ?f = "\<lambda>i. lh_block (lg_lh l) i = bno"
  have n: "nat (lh_n (lg_lh l)) = ?n" and e: "\<And>i. i < ?n \<Longrightarrow> ?f i = (ho ! i = bno)"
    using assms by (auto simp: log_at_def)
  show ?thesis
  proof (cases "find ?f [0..<?n]")
    case None
    then have "bno \<notin> set ho" using e by (auto simp: find_None_iff in_set_conv_nth)
    then show ?thesis using None by (simp add: log_find_def n)
  next
    case (Some i)
    then have f: "i < ?n" "?f i" "\<And>j. j < i \<Longrightarrow> \<not> ?f j" unfolding find_Some_iff by auto
    have i: "i < ?n" "ho ! i = bno" "ho ! j \<noteq> bno" if "j < i" for j using e [OF f(1)] e [of j] f(1,2) f(3) [of j] that by auto
    have i2: "ho ! i = bno" using e [OF f(1)] f(2) by blast
    have "(LEAST i. i < ?n \<and> ho ! i = bno) = i"
      by (rule Least_equality) (use f(1) i2 i(3) in \<open>auto intro: leI\<close>)
    moreover have "bno \<in> set ho" using f(1) i2 by (metis nth_mem)
    ultimately show ?thesis using Some by (simp add: log_find_def n)
  qed
qed

lemma log_find_spec:
  assumes "log_at dv st ho l"
  shows "bno \<in> set ho \<Longrightarrow> log_find bno (lg_lh l) < length ho \<and> ho ! log_find bno (lg_lh l) = bno"
    "bno \<notin> set ho \<Longrightarrow> log_find bno (lg_lh l) = length ho"
proof -
  assume "bno \<in> set ho"
  then have "\<exists>i. i < length ho \<and> ho ! i = bno" by (auto simp: in_set_conv_nth)
  then show "log_find bno (lg_lh l) < length ho \<and> ho ! log_find bno (lg_lh l) = bno"
    using LeastI_ex [of "\<lambda>i. i < length ho \<and> ho ! i = bno"] \<open>bno \<in> set ho\<close> log_find_eq [OF assms] by simp
qed (simp add: log_find_eq [OF assms])

lemma holds_acq [simp]: "holds_block dv (acq l s) b bno = holds_block dv s b bno"
  by (simp add: holds_block_def)

lemma log_bufs_swap: "s\<lparr>log := x, bufs := y\<rparr> = s\<lparr>bufs := y, log := x\<rparr>"
  by simp

lemma bpin_acq:
  assumes "calm p pid s"
  shows "bpin b (acq KLog s) = Ret ((), acq KLog (upd_buf b (\<lambda>r. r\<lparr>b_refcnt := b_refcnt r + 1\<rparr>) s))"
  using calmD [OF assms] by (simp add: bpin_def crit upd_buf_def)

lemma log_write_store:
  assumes "store p pid dv s P H L" "log_at dv st ho (log s)" "holds_block dv s b bno" "P bno < 2 ^ 32 - 1"
    "int (length ho) < LOGSIZE" "int (length ho) < lg_size (log s) - 1" "1 \<le> lg_outstanding (log s)"
  shows "\<exists>s'. log_write b s = Ret ((), s') \<and> log_at dv st (if bno \<in> set ho then ho else ho @ [bno]) (log s') \<and>
    store p pid dv s' (if bno \<in> set ho then P else P(bno := P bno + 1)) H L \<and> content s' = content s \<and>
    kept s s' \<and> log s' = (log s)\<lparr>lg_lh := lg_lh (log s')\<rparr> \<and> (\<forall>c d. holds_block dv s' c d = holds_block dv s c d)"
proof -
  note calm = assms(1) [unfolded store_def, THEN conjunct1] and rep = assms(1) [unfolded store_def, THEN conjunct2]
  note c = calmD [OF calm]
  have n: "lh_n (lg_lh (log s)) = int (length ho)" using assms(2) by (simp add: log_at_def)
  have bn: "b_blockno (bufs s b) = bno" using assms(3) by (simp add: holds_block_def)
  let ?i = "log_find bno (lg_lh (log s))"
  show ?thesis
  proof (cases "bno \<in> set ho")
    case True
    then have i: "?i < length ho" "ho ! ?i = bno" using log_find_spec(1) [OF assms(2)] by auto
    let ?l = "(log s)\<lparr>lg_lh := (lg_lh (log s))\<lparr>lh_block := (lh_block (lg_lh (log s)))(?i := bno)\<rparr>\<rparr>"
    have "log_write b s = Ret ((), settle (s\<lparr>log := ?l\<rparr>))"
      using c assms(5-7) n bn i(1) by (simp add: log_write_def crit Let_def upd_log_def)
    moreover have "log_at dv st ho ?l" using assms(2) i by (auto simp: log_at_def)
    ultimately show ?thesis using True assms(1) by (intro exI [of _ "settle (s\<lparr>log := ?l\<rparr>)"]) (simp add: store_def holds_block_def)
  next
    case False
    then have i: "?i = length ho" using log_find_spec(2) [OF assms(2)] by simp
    let ?l = "(log s)\<lparr>lg_lh := (lg_lh (log s))\<lparr>lh_block := (lh_block (lg_lh (log s)))(?i := bno), lh_n := lh_n (lg_lh (log s)) + 1\<rparr>\<rparr>"
    let ?s' = "settle (upd_buf b (\<lambda>r. r\<lparr>b_refcnt := b_refcnt r + 1\<rparr>) s\<lparr>log := ?l\<rparr>)"
    have run: "log_write b s = Ret ((), ?s')"
      using c assms(5-7) n bn i calm
      by (simp add: log_write_def crit Let_def upd_log_def upd_buf_def bpin_acq [of p pid] log_bufs_swap)
    have u: "unat (b_refcnt (bufs s b) + 1) = P bno + 1"
      using assms(3,4) cache_repD(7) [OF rep, of b] by (simp add: holds_block_def unat_word_ariths)
    have "store p pid dv ?s' (P(bno := P bno + 1)) H L"
      using rep_ref [OF rep _ _ _ u] assms(3) calm by (simp add: store_def upd_buf_def holds_block_def)
    moreover have "log_at dv st (ho @ [bno]) ?l"
      using assms(2) i by (auto simp: log_at_def nth_append less_Suc_eq)
    ultimately show ?thesis using run False by (intro exI [of _ ?s']) (auto simp: upd_buf_def holds_block_def)
  qed
qed

text \<open>C34. \<^verbatim>\<open>log_write\<close> absorbs writes: recording a held block adds it to the end of the list of the transaction's blocks
  and pins its buffer once, and recording a block that is already on the list changes neither the list nor the pins. Contents
  and disk stay.\<close>

theorem log_write_absorbs:
  assumes "store p pid dv s P H L" "log_at dv st ho (log s)" "holds_block dv s b bno" "P bno < 2 ^ 32 - 1"
    "int (length ho) < LOGSIZE" "int (length ho) < lg_size (log s) - 1" "1 \<le> lg_outstanding (log s)"
  shows "\<exists>s'. log_write b s = Ret ((), s') \<and> log_at dv st (if bno \<in> set ho then ho else ho @ [bno]) (log s') \<and>
    store p pid dv s' (if bno \<in> set ho then P else P(bno := P bno + 1)) H L \<and> content s' = content s"
  using log_write_store [OF assms] by blast

text \<open>C35. Three operations may be admitted to the log that it cannot hold: \<^verbatim>\<open>begin_op\<close> admits an operation while
  the blocks logged and ten for each operation do not exceed \<^verbatim>\<open>LOGSIZE\<close>, while \<^verbatim>\<open>log_write\<close> panics
  already when \<^verbatim>\<open>log.size - 1\<close> blocks are logged; with the \<^verbatim>\<open>LOGSIZE\<close> log blocks that mkfs lays out
  the tenth block of the last of these operations is one too many, even if the block is in the log already.\<close>

theorem log_capacity_gap:
  fixes s :: "'z lstate_scheme"
  assumes "calm p pid s" "lg_size (log s) = LOGSIZE" "\<not> lg_committing (log s)" "0 \<le> lg_outstanding (log s)"
    "lh_n (lg_lh (log s)) + (lg_outstanding (log s) + 1) * MAXOPBLOCKS \<le> LOGSIZE"
  shows "(\<exists>s'. begin_op E s = Ret ((), s') \<and> calm p pid s' \<and>
      log s' = (log s)\<lparr>lg_outstanding := lg_outstanding (log s) + 1\<rparr>) \<and>
    (\<forall>(t :: 'z lstate_scheme) b. calm p pid t \<and> lg_size (log t) = LOGSIZE \<and>
       lh_n (lg_lh (log t)) = lh_n (lg_lh (log s)) + (lg_outstanding (log s) + 1) * MAXOPBLOCKS - 1 \<and>
       LOGSIZE \<le> lh_n (lg_lh (log t)) + 1 \<longrightarrow> log_write b t = Panic ''too big a transaction'')"
proof (intro conjI allI impI)
  show "\<exists>s'. begin_op E s = Ret ((), s') \<and> calm p pid s' \<and> log s' = (log s)\<lparr>lg_outstanding := lg_outstanding (log s) + 1\<rparr>"
    using calmD [OF assms(1)] assms
    by (intro exI [of _ "settle (upd_log (\<lambda>l. l\<lparr>lg_outstanding := lg_outstanding l + 1\<rparr>) s)"])
      (simp add: begin_op_def crit upd_log_def)
next
  fix t :: "'z lstate_scheme" and b
  assume t: "calm p pid t \<and> lg_size (log t) = LOGSIZE \<and>
       lh_n (lg_lh (log t)) = lh_n (lg_lh (log s)) + (lg_outstanding (log s) + 1) * MAXOPBLOCKS - 1 \<and>
       LOGSIZE \<le> lh_n (lg_lh (log t)) + 1"
  then show "log_write b t = Panic ''too big a transaction''"
    using calmD [of p pid t] by (simp add: log_write_def crit)
qed

section \<open>Crash safety\<close>

text \<open>The disk after some prefix of the writes of a commit holds either no transaction or the whole one.\<close>

lemma prefix_cases:
  assumes "ws' = take k (as @ [x] @ bs @ [y])"
  obtains (before) "k \<le> length as" "ws' = take k as"
  | (logged) j where "j \<le> length bs" "ws' = as @ x # take j bs"
  | (cleared) "ws' = as @ x # bs @ [y]"
proof (cases "k \<le> length as")
  case True then show ?thesis using assms before by simp
next
  case False
  then obtain j where k: "k = length as + Suc j" using less_imp_Suc_add not_le by (metis add_Suc_right)
  then have ws: "ws' = as @ x # take j (bs @ [y])" using assms by simp
  show ?thesis
  proof (cases "j \<le> length bs")
    case True then show ?thesis using logged ws by simp
  next
    case False then show ?thesis using cleared ws by simp
  qed
qed

lemma install_all:
  assumes "homes_ok st ho" "\<And>b. b \<notin> log_area st \<Longrightarrow> b \<notin> set ho \<Longrightarrow> d b = L b"
    "\<And>i. i < length ho \<Longrightarrow> d (slot st i) = L (ho ! i)" "b \<notin> log_area st"
  shows "apply_writes (home_writes st ho d (length ho)) d b = L b"
proof -
  have hw: "home_writes st ho d (length ho) = map (\<lambda>i. (ho ! i, L (ho ! i))) [0..<length ho]"
    using assms(3) by (simp add: home_writes_def)
  show ?thesis
  proof (cases "b \<in> set ho")
    case True
    then obtain i where "i < length ho" "b = ho ! i" by (auto simp: in_set_conv_nth)
    then show ?thesis unfolding hw by (auto intro!: apply_writes_map)
  next
    case False
    then show ?thesis using assms(2,4) unfolding hw by (subst apply_writes_other) auto
  qed
qed

text \<open>C2. A commit is atomic across crashes. Let a transaction of fewer than \<^verbatim>\<open>NBUF\<close> distinct home blocks outside
  of the log be pinned in the cache with the contents \<open>L\<close>, the header on disk be empty, and the disk be one that writes whole
  blocks in order. Then \<^verbatim>\<open>commit\<close> returns, and after every prefix of the disk writes that it issues, a machine that
  boots from that disk and runs \<^verbatim>\<open>recover_from_log\<close> returns from it with an empty log and a disk whose blocks
  outside of the log are either all those before the transaction or all those of \<open>L\<close>; after the whole of the writes they are
  those of \<open>L\<close>.\<close>

theorem commit_crash_safe:
  assumes "store p pid dv s (pins (set ho)) {} L" "log_at dv st ho (log s)" "homes_ok st ho" "distinct ho" "ho \<noteq> []"
    and "header_is (content s st) []" and rw: "\<And>b wr. e_rw E b wr = disk_rw b wr"
  shows "\<exists>s' ws. commit E s = Ret ((), s') \<and> writes s' = writes s @ ws \<and>
    (\<forall>k t. k \<le> length ws \<and> content t = apply_writes (take k ws) (content s) \<and>
       store q qid dv t (pins {}) {} (content t) \<and> lg_dev (log t) = dv \<and> lg_start (log t) = st \<longrightarrow>
     (\<exists>t'. recover_from_log E t = Ret ((), t') \<and> lh_n (lg_lh (log t')) = 0 \<and> header_is (content t' st) [] \<and>
       ((\<forall>b. b \<notin> log_area st \<longrightarrow> content t' b = content s b) \<and> k < length ws \<or>
        (\<forall>b. b \<notin> log_area st \<longrightarrow> content t' b = L b))))"
proof -
  let ?n = "length ho" and ?D = "content s"
  define h1 where "h1 = encode_header (lg_lh (log s)) (L st)"
  define h0 where "h0 = encode_header ((lg_lh (log s))\<lparr>lh_n := 0\<rparr>) h1"
  define as where "as = log_writes st ho L ?n"
  define bs where "bs = map (\<lambda>i. (ho ! i, L (ho ! i))) [0..<?n]"
  let ?ws = "as @ [(st, h1)] @ bs @ [(st, h0)]"
  obtain s' where s': "commit E s = Ret ((), s')" "writes s' = writes s @ ?ws"
    using commit_ok [OF assms(1-5) rw] unfolding h1_def h0_def as_def bs_def by auto
  have n: "?n < 30" "unat st + 30 < 2 ^ 32" using assms(3) by (simp_all add: homes_ok_def NBUF_def)
  have st: "st \<in> log_area st" by (simp add: log_area_def)
  have lh: "0 \<le> lh_n (lg_lh (log s))" "lh_n (lg_lh (log s)) < 2 ^ 31" "4 + 4 * lh_n (lg_lh (log s)) \<le> int (length (L st))"
    "map (lh_block (lg_lh (log s))) [0..<nat (lh_n (lg_lh (log s)))] = ho"
    using assms(2) n(1) store_length [OF assms(1), of st]
    by (auto simp: log_at_def BSIZE_def intro: nth_equalityI)
  have hd1: "header_is h1 ho" using header_encoded [OF lh(1,3,2)] lh(4) by (simp add: h1_def)
  have "length h1 = BSIZE" using decode_encode_header(1) [OF lh(1,3,2)] store_length [OF assms(1)] by (simp add: h1_def)
  then have hd0: "header_is h0 []"
    using header_encoded [of "(lg_lh (log s))\<lparr>lh_n := 0\<rparr>" h1] by (simp add: h0_def BSIZE_def)
  have nil: "homes_ok st []" using n(2) by (simp add: homes_ok_def NBUF_def)
  have same: "?D b = L b" if "b \<notin> set ho" for b using store_content [OF assms(1), of b] that by (simp add: pins_def)
  have asO: "apply_writes (take k as) d b = d b" if "b \<notin> log_area st" for k d b
  proof (rule apply_writes_other)
    have "fst ` set as \<subseteq> log_area st" using n(1) by (auto simp: as_def log_writes_def log_area_def)
    then show "b \<notin> fst ` set (take k as)" using that set_take_subset [of k as] by blast
  qed
  have asN: "apply_writes (take k as) d st = d st" for k d
  proof (rule apply_writes_other)
    have "slot st i \<noteq> st" if "i < ?n" for i using slot_inj(2) [OF n(2), of i i] that n(1) by simp
    then have "st \<notin> fst ` set as" by (fastforce simp: as_def log_writes_def)
    then show "st \<notin> fst ` set (take k as)" using set_take_subset [of k as] by blast
  qed
  have asS: "apply_writes as d (slot st i) = L (ho ! i)" if "i < ?n" for i d
    unfolding as_def log_writes_def using that n(1) slot_inj(1) [OF n(2)] by (intro apply_writes_map) auto
  have bsA: "apply_writes (take j bs) d b = d b" if "b \<in> log_area st" for j d b
  proof (rule apply_writes_other)
    have "fst ` set bs \<subseteq> set ho" by (auto simp: bs_def)
    then show "b \<notin> fst ` set (take j bs)" using that set_take_subset [of j bs] assms(3) by (auto simp: homes_ok_def)
  qed
  have bsO: "apply_writes (take j bs) d b = d b" if "b \<notin> set ho" for j d b
  proof (rule apply_writes_other)
    have "fst ` set bs \<subseteq> set ho" by (auto simp: bs_def)
    then show "b \<notin> fst ` set (take j bs)" using that set_take_subset [of j bs] by blast
  qed
  have main: "\<exists>t'. recover_from_log E t = Ret ((), t') \<and> lh_n (lg_lh (log t')) = 0 \<and> header_is (content t' st) [] \<and>
       ((\<forall>b. b \<notin> log_area st \<longrightarrow> content t' b = ?D b) \<and> k < length ?ws \<or> (\<forall>b. b \<notin> log_area st \<longrightarrow> content t' b = L b))"
    if t: "k \<le> length ?ws" "content t = apply_writes (take k ?ws) ?D" "store q qid dv t (pins {}) {} (content t)"
      "lg_dev (log t) = dv" "lg_start (log t) = st" for k t
    using refl [of "take k ?ws"]
  proof (cases rule: prefix_cases)
    case before
    have "header_is (content t st) []" using assms(6) t(2) before asN by simp
    from recover_ok [OF t(3-5) nil this rw] show ?thesis
      using t(2) before asO by (fastforce simp: home_writes_def log_area_def)
  next
    case (logged j)
    have d: "content t = apply_writes (take j bs) ((apply_writes as ?D)(st := h1))" unfolding t(2) logged(2) by simp
    have "header_is (content t st) ho" using hd1 bsA [OF st] by (simp add: d)
    from recover_ok [OF t(3-5) assms(3) this rw] obtain t' where
      t': "recover_from_log E t = Ret ((), t')" "lh_n (lg_lh (log t')) = 0" "header_is (content t' st) []"
        "\<forall>b. b \<notin> log_area st \<longrightarrow> content t' b = apply_writes (home_writes st ho (content t) ?n) (content t) b"
      unfolding log_area_def by blast
    have "apply_writes (home_writes st ho (content t) ?n) (content t) b = L b" if "b \<notin> log_area st" for b
    proof (rule install_all [OF assms(3) _ _ that])
      show "content t c = L c" if "c \<notin> log_area st" "c \<notin> set ho" for c
        using bsO [OF that(2)] asO [OF that(1), of "length as"] that st same [OF that(2)] by (auto simp: d)
      show "content t (slot st i) = L (ho ! i)" if "i < ?n" for i
      proof -
        have "slot st i \<in> log_area st" "slot st i \<noteq> st" using that n(1) slot_inj(2) [OF n(2), of i i] by (auto simp: log_area_def)
        then show ?thesis using bsA asS [OF that] by (simp add: d)
      qed
    qed
    then show ?thesis using t' by auto
  next
    case cleared
    have d: "content t = (apply_writes bs ((apply_writes as ?D)(st := h1)))(st := h0)" unfolding t(2) cleared by simp
    have "header_is (content t st) []" using hd0 by (simp add: d)
    from recover_ok [OF t(3-5) nil this rw] obtain t' where
      t': "recover_from_log E t = Ret ((), t')" "lh_n (lg_lh (log t')) = 0" "header_is (content t' st) []"
        "\<forall>b. b \<notin> log_area st \<longrightarrow> content t' b = content t b" by (auto simp: home_writes_def log_area_def)
    have "content t b = L b" if "b \<notin> log_area st" for b
    proof (cases "b \<in> set ho")
      case True
      then obtain i where "i < ?n" "b = ho ! i" by (auto simp: in_set_conv_nth)
      moreover from this have "apply_writes bs d b = L b" for d unfolding bs_def by (auto intro!: apply_writes_map)
      ultimately show ?thesis using that st by (auto simp: d)
    next
      case False
      then show ?thesis using bsO [OF False, of "length bs"] asO [OF that, of "length as"] that st same [OF False] by (auto simp: d)
    qed
    then show ?thesis using t' by auto
  qed
  show ?thesis
    by (rule exI [of _ s'], rule exI [of _ ?ws], intro conjI allI impI) (use s' main in auto)
qed


text \<open>A state with one pinned block: buffer 0 holds block 40 with other contents than the disk.\<close>

definition one_pinned :: dstate where
  "one_pinned = ustate.extend (quiet_ustate (\<lambda>_. blank_proc) (Some 0)) \<lparr>
     slks = (\<lambda>_. \<lparr>sl_locked = False, sl_name = [], sl_pid = 0\<rparr>),
     bufs = (\<lambda>b. \<lparr>b_valid = (b = 0), b_disk = False, b_dev = (if b = 0 then 1 else 0), b_blockno = (if b = 0 then 40 else 0),
       b_refcnt = (if b = 0 then 1 else 0), b_prev = (if b = 0 then NBUF else b - 1), b_next = (if b = NBUF then 0 else b + 1),
       b_data = replicate BSIZE (if b = 0 then 7 else 0)\<rparr>),
     log = \<lparr>lg_start = 2, lg_size = 30, lg_outstanding = 0, lg_committing = True, lg_dev = 1,
       lg_lh = \<lparr>lh_n = 1, lh_block = (\<lambda>_. 40)\<rparr>\<rparr>,
     sb = \<lparr>sb_magic = 0, sb_size = 0, sb_nblocks = 0, sb_ninodes = 0, sb_nlog = 0, sb_logstart = 0, sb_inodestart = 0, sb_bmapstart = 0\<rparr>,
     itable = (\<lambda>_. \<lparr>i_dev = 0, i_inum = 0, i_ref = 0, i_valid = False, i_type = 0, i_major = 0, i_minor = 0, i_nlink = 0, i_size = 0,
       i_addrs = replicate (NDIRECT + 1) 0\<rparr>),
     disk0 = (\<lambda>_. replicate BSIZE 0), writes = []\<rparr>"

lemma one_pinned_sel:
  "calm 0 (p_pid blank_proc) one_pinned" "log one_pinned = \<lparr>lg_start = 2, lg_size = 30, lg_outstanding = 0, lg_committing = True, lg_dev = 1,
       lg_lh = \<lparr>lh_n = 1, lh_block = (\<lambda>_. 40)\<rparr>\<rparr>" "content one_pinned = (\<lambda>_. replicate BSIZE 0)" "writes one_pinned = []"
  "slks one_pinned l = \<lparr>sl_locked = False, sl_name = [], sl_pid = 0\<rparr>"
  "bufs one_pinned b = \<lparr>b_valid = (b = 0), b_disk = False, b_dev = (if b = 0 then 1 else 0), b_blockno = (if b = 0 then 40 else 0),
       b_refcnt = (if b = 0 then 1 else 0), b_prev = (if b = 0 then NBUF else b - 1), b_next = (if b = NBUF then 0 else b + 1),
       b_data = replicate BSIZE (if b = 0 then 7 else 0)\<rparr>"
  by (simp_all add: one_pinned_def quiet_ustate_def quiet_pstate_def pstate.defs ustate.defs calm_def procs_ready_def hart_ok_def
      lock_free_def hart_defs content_def)

lemma chain_nth:
  "(\<And>i. Suc i < length zs \<Longrightarrow> nx (zs ! i) = zs ! Suc i \<and> pv (zs ! Suc i) = zs ! i) \<Longrightarrow> chain nx pv zs"
proof (induction nx pv zs rule: chain.induct)
  case (1 nx pv a b zs)
  have "chain nx pv (b # zs)" using "1.prems" [of "Suc _"] by (intro "1.IH") simp
  then show ?case using "1.prems" [of 0] by simp
qed simp_all

lemma one_pinned_ring: "ring (bufs one_pinned) [0..<NBUF]"
proof -
  have "chain (\<lambda>b. b_next (bufs one_pinned b)) (\<lambda>b. b_prev (bufs one_pinned b)) (bhead # [0..<NBUF] @ [bhead])"
    by (rule chain_nth) (auto simp: one_pinned_sel nth_Cons nth_append split: nat.splits)
  then show ?thesis by (auto simp: ring_def linked_def)
qed

lemma one_pinned_store: "store 0 (p_pid blank_proc) 1 one_pinned (pins {40}) {} (\<lambda>b. replicate BSIZE (if b = 40 then 7 else 0))"
  using one_pinned_ring unfolding store_def
  by (intro conjI one_pinned_sel(1) cache_repI) (auto simp: one_pinned_sel(2-) pins_def NBUF_def split: if_splits)

definition ideal_env :: "dstate env" where
  "ideal_env = \<lparr>e_fuel = 0, e_sw = return (), e_rw = disk_rw\<rparr>"

text \<open>The same machine after a reboot, with an empty cache.\<close>

definition rebooted :: dstate where
  "rebooted = one_pinned\<lparr>bufs := (\<lambda>b. (bufs one_pinned b)\<lparr>b_dev := 0, b_refcnt := 0\<rparr>)\<rparr>"

lemma rebooted_store: "store 0 (p_pid blank_proc) 1 rebooted (pins {}) {} (content rebooted)"
proof -
  have "ring (bufs rebooted) [0..<NBUF]" by (rule ring_links [OF one_pinned_ring]) (simp_all add: rebooted_def)
  then show ?thesis
    using one_pinned_sel(1) unfolding store_def
    by (intro conjI cache_repI) (auto simp: rebooted_def one_pinned_sel(2-) pins_def split: if_splits)
qed

theorem commit_crash_safe_witness:
  "\<exists>s' t'. commit ideal_env one_pinned = Ret ((), s') \<and> recover_from_log ideal_env rebooted = Ret ((), t') \<and>
    lh_n (lg_lh (log t')) = 0"
proof -
  have "slot 2 i \<noteq> 40" if "i < 30" for i
  proof
    assume "slot 2 i = 40"
    then have "of_nat i = (of_nat 37 :: u32)" by (simp add: slot_def)
    then have "unat (of_nat i :: u32) = unat (of_nat 37 :: u32)" by (rule arg_cong)
    then show False using that by (simp only: unat_of_nat) simp
  qed
  then have lg: "log_at 1 2 [40] (log one_pinned)" "homes_ok 2 [40]" "distinct [40 :: u32]" "[40 :: u32] \<noteq> []"
    by (auto simp: one_pinned_sel(2) log_at_def homes_ok_def NBUF_def log_area_def)
  have "replicate 4 (0 :: u8) = [0, 0, 0, 0]" by (simp add: numeral_eq_Suc)
  then have hd: "header_is (content one_pinned 2) []"
    by (simp add: one_pinned_sel(3) header_is_def get32_def BSIZE_def)
  have rw: "e_rw ideal_env b wr = disk_rw b wr" for b wr by (simp add: ideal_env_def)
  have st: "store 0 (p_pid blank_proc) 1 one_pinned (pins (set [40])) {} (\<lambda>b. replicate BSIZE (if b = 40 then 7 else 0))"
    using one_pinned_store by simp
  from commit_crash_safe [OF st lg hd rw, of 0 "p_pid blank_proc"] obtain s' ws where
    c: "commit ideal_env one_pinned = Ret ((), s')"
    "\<And>k t. k \<le> length ws \<and> content t = apply_writes (take k ws) (content one_pinned) \<and>
       store 0 (p_pid blank_proc) 1 t (pins {}) {} (content t) \<and> lg_dev (log t) = 1 \<and> lg_start (log t) = 2 \<Longrightarrow>
     \<exists>t'. recover_from_log ideal_env t = Ret ((), t') \<and> lh_n (lg_lh (log t')) = 0"
    by blast
  have "content rebooted = apply_writes (take 0 ws) (content one_pinned)" "lg_dev (log rebooted) = 1" "lg_start (log rebooted) = 2"
    by (simp_all add: rebooted_def one_pinned_sel(2))
  then show ?thesis using c(1) c(2) [of 0 rebooted] rebooted_store by auto
qed

text \<open>The same state with a transaction that has begun and logged nothing.\<close>

definition one_begun :: dstate where
  "one_begun = one_pinned\<lparr>log := \<lparr>lg_start = 2, lg_size = 30, lg_outstanding = 1, lg_committing = False, lg_dev = 1,
       lg_lh = \<lparr>lh_n = 0, lh_block = (\<lambda>_. 0)\<rparr>\<rparr>\<rparr>"

theorem log_write_absorbs_witness:
  "\<exists>s'. log_write 0 one_begun = Ret ((), s') \<and> log_at 1 2 [40] (log s')"
proof -
  have "store 0 (p_pid blank_proc) 1 one_begun (pins {40}) {} (\<lambda>b. replicate BSIZE (if b = 40 then 7 else 0))"
    using one_pinned_store by (simp add: one_begun_def)
  moreover have "log_at 1 2 [] (log one_begun)" "holds_block 1 one_begun 0 40" "pins {40} 40 < 2 ^ 32 - 1"
    "int (length ([] :: u32 list)) < LOGSIZE" "int (length ([] :: u32 list)) < lg_size (log one_begun) - 1"
    "1 \<le> lg_outstanding (log one_begun)"
    by (simp_all add: one_begun_def log_at_def holds_block_def one_pinned_sel pins_def LOGSIZE_def MAXOPBLOCKS_def NBUF_def)
  ultimately show ?thesis using log_write_absorbs [of 0 "p_pid blank_proc" 1 one_begun "pins {40}" "{}" _ 2 "[]" 0 40] by auto
qed

theorem log_capacity_gap_witness:
  "(\<exists>s'. begin_op ideal_env (one_begun\<lparr>log := (log one_begun)\<lparr>lg_outstanding := 0, lg_lh := \<lparr>lh_n = 20, lh_block = (\<lambda>_. 40)\<rparr>\<rparr>\<rparr>) =
      Ret ((), s')) \<and>
    log_write 0 (one_begun\<lparr>log := (log one_begun)\<lparr>lg_lh := \<lparr>lh_n = 29, lh_block = (\<lambda>_. 40)\<rparr>\<rparr>\<rparr>) = Panic ''too big a transaction''"
proof -
  let ?s = "one_begun\<lparr>log := (log one_begun)\<lparr>lg_outstanding := 0, lg_lh := \<lparr>lh_n = 20, lh_block = (\<lambda>_. 40)\<rparr>\<rparr>\<rparr>"
  let ?t = "one_begun\<lparr>log := (log one_begun)\<lparr>lg_lh := \<lparr>lh_n = 29, lh_block = (\<lambda>_. 40)\<rparr>\<rparr>\<rparr>"
  have c: "calm 0 (p_pid blank_proc) ?s" "calm 0 (p_pid blank_proc) ?t" using one_pinned_sel(1) by (simp_all add: one_begun_def)
  have "lg_size (log ?s) = LOGSIZE" "\<not> lg_committing (log ?s)" "0 \<le> lg_outstanding (log ?s)"
    "lh_n (lg_lh (log ?s)) + (lg_outstanding (log ?s) + 1) * MAXOPBLOCKS \<le> LOGSIZE"
    by (simp_all add: one_begun_def LOGSIZE_def MAXOPBLOCKS_def)
  note g = log_capacity_gap [OF c(1) this, of ideal_env]
  have "log_write 0 ?t = Panic ''too big a transaction''"
    by (rule g [THEN conjunct2, rule_format]) (use c(2) in \<open>simp add: one_begun_def LOGSIZE_def MAXOPBLOCKS_def\<close>)
  then show ?thesis using g [THEN conjunct1] by blast
qed

theorem cache_invariant_witness:
  "\<exists>s. cache_run ideal_env 0 (p_pid blank_proc) 1 s (\<lambda>_. 0) {} (content s) \<and>
    (\<exists>b s'. bread ideal_env 1 40 s = Ret (b, s') \<and> b_data (bufs s' b) = replicate BSIZE 0)"
proof -
  obtain s1 where s1: "binit rebooted = Ret ((), s1)" using binit_ok by blast
  let ?s = "rebooted\<lparr>bufs := bufs s1, slks := slks s1\<rparr>"
  have rw: "e_rw ideal_env b wr = disk_rw b wr" for b wr by (simp add: ideal_env_def)
  have cont: "content ?s = (\<lambda>_. replicate BSIZE 0)" by (simp add: rebooted_def one_pinned_sel(3))
  have "calm 0 (p_pid blank_proc) ?s" using one_pinned_sel(1) by (simp add: rebooted_def)
  moreover have "\<forall>b. b_dev (bufs rebooted b) \<noteq> 1 \<and> b_refcnt (bufs rebooted b) = 0" by (simp add: rebooted_def)
  ultimately have run: "cache_run ideal_env 0 (p_pid blank_proc) 1 ?s (\<lambda>_. 0) {} (content ?s)"
    using s1 cont by (intro cache_run.boot [of rebooted s1]) auto
  from cache_invariant [OF run rw] have "\<exists>b s'. bread ideal_env 1 40 ?s = Ret (b, s') \<and> b_data (bufs s' b) = replicate BSIZE 0"
    unfolding cont by (simp add: NBUF_def) blast
  with run show ?thesis by blast
qed

end
