(* ===== verification/Mkfs.thy ===== *)
theory Mkfs
  imports Fs Crash
begin

text \<open>
  The program that builds the file system image on the host: \<^verbatim>\<open>mkfs/mkfs.c\<close>.

  The image is the list of its sectors. The host is a parameter: \<open>io i\<close> says whether a transfer
  of sector \<open>i\<close> succeeds, and \<open>reads name\<close> is what the successive \<^verbatim>\<open>read\<close> calls on a
  file of that name return, \<open>None\<close> when it cannot be opened. \<^verbatim>\<open>die()\<close> and a failed
  \<^verbatim>\<open>assert\<close> end the program with \<open>Panic\<close>. The host is little-endian, as the
  kernel's machine, so that a structure copied into a sector has the bytes that the codecs of theory
  \<open>Fs\<close> read. What the program prints is not modelled.
\<close>

section \<open>Definitions\<close>

definition NINODES :: nat where "NINODES = 200"
definition FSSIZE :: nat where "FSSIZE = 2000"
abbreviation nbitmap :: nat where "nbitmap \<equiv> FSSIZE div (BSIZE * 8) + 1"
abbreviation ninodeblocks :: nat where "ninodeblocks \<equiv> NINODES div IPB + 1"
abbreviation nlog :: nat where "nlog \<equiv> nat LOGSIZE"
abbreviation nmeta :: nat where "nmeta \<equiv> 2 + nlog + ninodeblocks + nbitmap"
abbreviation nblocks :: nat where "nblocks \<equiv> FSSIZE - nmeta"

record mkfs =
  mk_img :: "u8 list list"
  mk_sb :: superblock
  freeinode :: u32
  freeblock :: u32

definition xshort :: "u16 \<Rightarrow> u16" where
  "xshort x = le_word [ucast x, ucast (drop_bit 8 x)]"

definition xint :: "u32 \<Rightarrow> u32" where
  "xint x = le_word [ucast x, ucast (drop_bit 8 x), ucast (drop_bit 16 x), ucast (drop_bit 24 x)]"

definition zeroes :: "u8 list" where
  "zeroes = replicate BSIZE 0"

text \<open>The sector at the offset \<^verbatim>\<open>sec * BSIZE\<close>, a product of 32 bits. A write past the end leaves
  a hole of zeroes, a read there returns nothing.\<close>

definition sector :: "u32 \<Rightarrow> nat" where
  "sector sec = unat (sec * of_nat BSIZE) div BSIZE"

definition wsect :: "(nat \<Rightarrow> bool) \<Rightarrow> u32 \<Rightarrow> u8 list \<Rightarrow> (mkfs, unit) kM" where
  "wsect io sec buf =
    (let i = sector sec in
     if \<not> io i then panic ''write'' else
     modify (\<lambda>s. s\<lparr>mk_img := (let img = mk_img s in
       if i < length img then img[i := buf] else img @ replicate (i - length img) zeroes @ [buf])\<rparr>))"

definition rsect :: "(nat \<Rightarrow> bool) \<Rightarrow> u32 \<Rightarrow> (mkfs, u8 list) kM" where
  "rsect io sec =
    (let i = sector sec in
     bind (gets mk_img) (\<lambda>img.
     if \<not> io i \<or> \<not> i < length img then panic ''read'' else return (img ! i)))"

definition winode :: "(nat \<Rightarrow> bool) \<Rightarrow> u32 \<Rightarrow> dinode \<Rightarrow> (mkfs, unit) kM" where
  "winode io inum ip =
    bind (gets (\<lambda>s. IBLOCK inum (mk_sb s))) (\<lambda>bn.
    bind (rsect io bn) (\<lambda>buf.
    wsect io bn (encode_dinode buf (inode_off inum) ip)))"

definition rinode :: "(nat \<Rightarrow> bool) \<Rightarrow> u32 \<Rightarrow> (mkfs, dinode) kM" where
  "rinode io inum =
    bind (gets (\<lambda>s. IBLOCK inum (mk_sb s))) (\<lambda>bn.
    bind (rsect io bn) (\<lambda>buf.
    return (decode_dinode buf (inode_off inum))))"

definition zero_dinode :: dinode where
  "zero_dinode = \<lparr>d_type = 0, d_major = 0, d_minor = 0, d_nlink = 0, d_size = 0, d_addrs = replicate (NDIRECT + 1) 0\<rparr>"

definition ialloc_mkfs :: "(nat \<Rightarrow> bool) \<Rightarrow> u16 \<Rightarrow> (mkfs, u32) kM" where
  "ialloc_mkfs io type =
    bind (gets freeinode) (\<lambda>inum.
    seq (modify (\<lambda>s. s\<lparr>freeinode := inum + 1\<rparr>))
    (seq (winode io inum (zero_dinode\<lparr>d_type := xshort type, d_nlink := xshort 1, d_size := xint 0\<rparr>))
    (return inum)))"

definition balloc_mkfs :: "(nat \<Rightarrow> bool) \<Rightarrow> int \<Rightarrow> (mkfs, unit) kM" where
  "balloc_mkfs io n =
    (if \<not> n < int BSIZE * 8 then panic ''assert'' else
     let buf = fold bmap_set [0..<nat n] zeroes in
     bind (gets (\<lambda>s. sb_bmapstart (mk_sb s))) (\<lambda>b. wsect io b buf))"

text \<open>\<^verbatim>\<open>freeblock++\<close>.\<close>

definition next_block :: "(mkfs, u32) kM" where
  "next_block =
    bind (gets freeblock) (\<lambda>b.
    seq (modify (\<lambda>s. s\<lparr>freeblock := b + 1\<rparr>)) (return b))"

text \<open>The block of the file for block number \<open>fbn\<close>, allocated when it has none.\<close>

definition iappend_block :: "(nat \<Rightarrow> bool) \<Rightarrow> nat \<Rightarrow> dinode \<Rightarrow> (mkfs, u32 \<times> dinode) kM" where
  "iappend_block io fbn din =
    (if fbn < NDIRECT then
       bind (if xint (d_addrs din ! fbn) = 0
             then bind next_block (\<lambda>b. return (din\<lparr>d_addrs := (d_addrs din)[fbn := xint b]\<rparr>))
             else return din) (\<lambda>din.
       return (xint (d_addrs din ! fbn), din))
     else
       bind (if xint (d_addrs din ! NDIRECT) = 0
             then bind next_block (\<lambda>b. return (din\<lparr>d_addrs := (d_addrs din)[NDIRECT := xint b]\<rparr>))
             else return din) (\<lambda>din.
       let a = xint (d_addrs din ! NDIRECT); o4 = 4 * (fbn - NDIRECT) in
       bind (rsect io a) (\<lambda>indirect.
       bind (if get32 indirect o4 = 0
             then bind next_block (\<lambda>b.
               let indirect = put32 indirect o4 (xint b) in
               seq (wsect io a indirect) (return indirect))
             else return indirect) (\<lambda>indirect.
       return (xint (get32 indirect o4), din)))))"

text \<open>The loop of \<open>iappend\<close> with the bytes that are left. A round takes at least one, so that
  as many rounds as bytes are enough.\<close>

primrec iappend_loop :: "nat \<Rightarrow> (nat \<Rightarrow> bool) \<Rightarrow> u8 list \<Rightarrow> u32 \<Rightarrow> dinode \<Rightarrow> (mkfs, u32 \<times> dinode) kM" where
  "iappend_loop 0 io p off din = (if p = [] then return (off, din) else hang)"
| "iappend_loop (Suc k) io p off din =
    (if p = [] then return (off, din) else
     let fbn = unat off div BSIZE in
     if \<not> fbn < MAXFILE then panic ''assert'' else
     bind (iappend_block io fbn din) (\<lambda>(x, din).
     let n1 = min (length p) ((fbn + 1) * BSIZE - unat off) in
     bind (rsect io x) (\<lambda>buf.
     seq (wsect io x (put_bytes buf (unat off - fbn * BSIZE) (take n1 p)))
     (iappend_loop k io (drop n1 p) (off + of_nat n1) din))))"

definition iappend :: "(nat \<Rightarrow> bool) \<Rightarrow> u32 \<Rightarrow> u8 list \<Rightarrow> (mkfs, unit) kM" where
  "iappend io inum p =
    bind (rinode io inum) (\<lambda>din.
    bind (iappend_loop (length p) io p (xint (d_size din)) din) (\<lambda>(off, din).
    winode io inum (din\<lparr>d_size := xint off\<rparr>)))"

definition layout :: superblock where
  "layout = \<lparr>sb_magic = FSMAGIC, sb_size = xint (of_nat FSSIZE), sb_nblocks = xint (of_nat nblocks),
     sb_ninodes = xint (of_nat NINODES), sb_nlog = xint (of_nat nlog), sb_logstart = xint 2,
     sb_inodestart = xint (of_nat (2 + nlog)), sb_bmapstart = xint (of_nat (2 + nlog + ninodeblocks))\<rparr>"

definition superblock_bytes :: "superblock \<Rightarrow> u8 list" where
  "superblock_bytes b = concat (map (le_bytes 4) [sb_magic b, sb_size b, sb_nblocks b, sb_ninodes b, sb_nlog b, sb_logstart b,
     sb_inodestart b, sb_bmapstart b])"

definition dirent_name :: "u8 list \<Rightarrow> u8 list" where
  "dirent_name nm = take DIRSIZ nm @ replicate (DIRSIZ - length nm) 0"

definition add_dirent :: "(nat \<Rightarrow> bool) \<Rightarrow> u32 \<Rightarrow> u32 \<Rightarrow> u8 list \<Rightarrow> (mkfs, unit) kM" where
  "add_dirent io rootino inum nm = iappend io rootino (encode_dirent \<lparr>de_inum = xshort (ucast inum), de_name = dirent_name nm\<rparr>)"

definition shortname :: "u8 list \<Rightarrow> u8 list" where
  "shortname arg = (if take 5 arg = map of_char ''user/'' then drop 5 arg else arg)"

definition mkfs_file :: "(nat \<Rightarrow> bool) \<Rightarrow> (u8 list \<Rightarrow> u8 list list option) \<Rightarrow> u32 \<Rightarrow> u8 list \<Rightarrow> (mkfs, unit) kM" where
  "mkfs_file io reads rootino arg =
    (let nm = shortname arg in
     if of_char CHR ''/'' \<in> set nm then panic ''assert'' else
     case reads arg of None \<Rightarrow> panic ''die'' | Some cs \<Rightarrow>
     let nm = (if nm \<noteq> [] \<and> hd nm = of_char CHR ''_'' then tl nm else nm) in
     bind (ialloc_mkfs io T_FILE) (\<lambda>inum.
     seq (add_dirent io rootino inum nm)
     (for_each cs (iappend io inum))))"

definition mkfs_main :: "(nat \<Rightarrow> bool) \<Rightarrow> (u8 list \<Rightarrow> u8 list list option) \<Rightarrow> bool \<Rightarrow> u8 list list \<Rightarrow> (mkfs, unit) kM" where
  "mkfs_main io reads open_ok argv =
    (if length argv < 2 then panic ''usage'' else
     if BSIZE mod 64 \<noteq> 0 \<or> BSIZE mod 16 \<noteq> 0 then panic ''assert'' else
     if \<not> open_ok then panic ''die'' else
     seq (modify (\<lambda>s. s\<lparr>mk_img := [], mk_sb := layout, freeblock := of_nat nmeta\<rparr>))
     (seq (for_each [0..<FSSIZE] (\<lambda>i. wsect io (of_nat i) zeroes))
     (seq (wsect io 1 (put_bytes zeroes 0 (superblock_bytes layout)))
     (bind (ialloc_mkfs io T_DIR) (\<lambda>rootino.
     if rootino \<noteq> ROOTINO then panic ''assert'' else
     seq (add_dirent io rootino rootino [of_char CHR ''.''])
     (seq (add_dirent io rootino rootino [of_char CHR ''.'', of_char CHR ''.''])
     (seq (for_each (drop 2 argv) (mkfs_file io reads rootino))
     (bind (rinode io rootino) (\<lambda>din.
     let off = xint (d_size din); off = (off div of_nat BSIZE + 1) * of_nat BSIZE in
     seq (winode io rootino (din\<lparr>d_size := xint off\<rparr>))
     (bind (gets freeblock) (\<lambda>n. balloc_mkfs io (sint n))))))))))))"

section \<open>Sectors and inodes\<close>

lemma xint_id [simp]: "xint x = x"
proof -
  have "[ucast x, ucast (drop_bit 8 x), ucast (drop_bit 16 x), ucast (drop_bit 24 x)] = le_bytes 4 x"
    by (simp add: le_bytes_def upt_rec)
  then show ?thesis by (simp add: xint_def le_word_bytes)
qed

lemma xshort_id [simp]: "xshort x = x"
proof -
  have "[ucast x, ucast (drop_bit 8 x)] = le_bytes 2 x" by (simp add: le_bytes_def upt_rec)
  then show ?thesis by (simp add: xshort_def le_word_bytes)
qed

lemmas mk_consts = FSSIZE_def NINODES_def BSIZE_def IPB_def
  LOGSIZE_def MAXOPBLOCKS_def

lemma sector_eq: "unat sec < 2 ^ 22 \<Longrightarrow> sector sec = unat sec"
  by (simp add: sector_def BSIZE_def unat_word_ariths)

definition img_ok :: "mkfs \<Rightarrow> bool" where
  "img_ok s \<longleftrightarrow> length (mk_img s) = 2000 \<and> (\<forall>b\<in>set (mk_img s). length b = 1024) \<and> mk_sb s = layout"

definition io_ok :: "(nat \<Rightarrow> bool) \<Rightarrow> bool" where
  "io_ok io \<longleftrightarrow> (\<forall>i<2000. io i)"

definition sect :: "mkfs \<Rightarrow> u32 \<Rightarrow> u8 list" where
  "sect s b = (if unat b < length (mk_img s) then mk_img s ! unat b else zeroes)"

definition set_sect :: "u32 \<Rightarrow> u8 list \<Rightarrow> mkfs \<Rightarrow> mkfs" where
  "set_sect b buf s = s\<lparr>mk_img := (mk_img s)[unat b := buf]\<rparr>"

lemma sect_set [simp]:
  "img_ok s \<Longrightarrow> unat b < 2000 \<Longrightarrow> sect (set_sect b buf s) c = (if c = b then buf else sect s c)"
  "freeblock (set_sect b buf s) = freeblock s" "freeinode (set_sect b buf s) = freeinode s" "mk_sb (set_sect b buf s) = mk_sb s"
  "sect (s\<lparr>freeblock := x\<rparr>) c = sect s c" "sect (s\<lparr>freeinode := x\<rparr>) c = sect s c"
  by (auto simp: sect_def set_sect_def img_ok_def nth_list_update word_unat_eq_iff)

lemma img_ok_set [simp]:
  "img_ok s \<Longrightarrow> length buf = 1024 \<Longrightarrow> img_ok (set_sect b buf s)"
  "img_ok (s\<lparr>freeblock := x\<rparr>) = img_ok s" "img_ok (s\<lparr>freeinode := x\<rparr>) = img_ok s"
  by (auto simp: set_sect_def img_ok_def dest: subsetD [OF set_update_subset_insert])

lemma length_sect: "img_ok s \<Longrightarrow> unat b < 2000 \<Longrightarrow> length (sect s b) = 1024"
  by (auto simp: img_ok_def sect_def)

lemma wsect_ok: "io_ok io \<Longrightarrow> img_ok s \<Longrightarrow> unat b < 2000 \<Longrightarrow> wsect io b buf s = Ret ((), set_sect b buf s)"
  by (simp add: wsect_def sector_eq io_ok_def img_ok_def set_sect_def modify_apply Let_def)

lemma rsect_ok: "io_ok io \<Longrightarrow> img_ok s \<Longrightarrow> unat b < 2000 \<Longrightarrow> rsect io b s = Ret (sect s b, s)"
  by (simp add: rsect_def sector_eq io_ok_def img_ok_def sect_def kM_simps Let_def)

lemma put_bytes_length [simp]: "off + length v \<le> length bs \<Longrightarrow> length (put_bytes bs off v) = length bs"
  by (simp add: put_bytes_def)

lemma put_bytes_in: "off \<le> length bs \<Longrightarrow> take (length v) (drop off (put_bytes bs off v)) = v"
  by (simp add: put_bytes_def)

lemma put_bytes_out:
  assumes "off + length v \<le> length bs" "o' + n \<le> off \<or> off + length v \<le> o'"
  shows "take n (drop o' (put_bytes bs off v)) = take n (drop o' bs)"
proof (cases "o' + n \<le> off")
  case True
  then have "take n (take (off - o') (drop o' bs)) = take n (drop o' bs)" "n \<le> length (take (off - o') (drop o' bs))"
    using assms(1) by simp_all
  then show ?thesis using True assms(1) by (simp add: put_bytes_def drop_take)
next
  case False
  then obtain j where "o' = off + length v + j" using assms(2) nat_le_iff_add by blast
  then show ?thesis using assms(1) by (simp add: put_bytes_def add.commute add.left_commute)
qed

lemma take_part: "a + n \<le> m \<Longrightarrow> take n (drop a (take m xs)) = take n (drop a xs)"
  by (simp add: drop_take)

lemma decode_dinode_part: "decode_dinode bs off = decode_dinode (take 64 (drop off bs)) 0"
  by (simp add: decode_dinode_def get16_def get32_def take_part add.commute add.left_commute NDIRECT_def)

lemma chunk_concat:
  "i < length xs \<Longrightarrow> take 4 (drop (4 * i) (concat (map (le_bytes 4) xs))) = le_bytes 4 (xs ! i)"
proof (induction xs arbitrary: i)
  case (Cons x xs)
  then show ?case by (cases i) simp_all
qed simp

lemma length_dinode_bytes: "length (d_addrs d) = 13 \<Longrightarrow> length (dinode_bytes d) = 64"
  by (simp add: dinode_bytes_def length_concat comp_def sum_list_triv)

lemma decode_dinode_bytes:
  assumes "length (d_addrs d) = 13"
  shows "decode_dinode (dinode_bytes d) 0 = d"
proof -
  have "map (\<lambda>i. get32 (dinode_bytes d) (12 + 4 * i)) [0..<13] = d_addrs d"
  proof (rule nth_equalityI)
    fix i assume "i < length (map (\<lambda>i. get32 (dinode_bytes d) (12 + 4 * i)) [0..<13])"
    then have i: "i < 13" by simp
    have "drop (12 + 4 * i) (dinode_bytes d) = drop (4 * i) (concat (map (le_bytes 4) (d_addrs d)))"
      by (simp add: dinode_bytes_def)
    then show "map (\<lambda>i. get32 (dinode_bytes d) (12 + 4 * i)) [0..<13] ! i = d_addrs d ! i"
      using i assms by (simp add: get32_def chunk_concat le_word_bytes del: upt_Suc)
  qed (use assms in simp)
  moreover have "get16 (dinode_bytes d) 0 = d_type d" "get16 (dinode_bytes d) 2 = d_major d"
      "get16 (dinode_bytes d) 4 = d_minor d" "get16 (dinode_bytes d) 6 = d_nlink d" "get32 (dinode_bytes d) 8 = d_size d"
    by (simp_all add: get16_def get32_def dinode_bytes_def le_word_bytes)
  ultimately show ?thesis by (simp add: decode_dinode_def NDIRECT_def numeral_2_eq_2 del: upt_Suc)
qed

lemma decode_encode_dinode:
  assumes "length (d_addrs d) = 13" "off + 64 \<le> length bs"
  shows "decode_dinode (encode_dinode bs off d) off = d"
    "o' + 64 \<le> off \<or> off + 64 \<le> o' \<Longrightarrow> decode_dinode (encode_dinode bs off d) o' = decode_dinode bs o'"
  using put_bytes_in [of off bs "dinode_bytes d"] put_bytes_out [of off "dinode_bytes d" bs o' 64] assms
  by (simp_all add: decode_dinode_part [of _ off] decode_dinode_part [of _ o'] encode_dinode_def length_dinode_bytes decode_dinode_bytes)

definition iblk :: "u32 \<Rightarrow> u32" where
  "iblk i = i div 16 + 32"

definition get_inode :: "mkfs \<Rightarrow> u32 \<Rightarrow> dinode" where
  "get_inode s i = decode_dinode (sect s (iblk i)) (inode_off i)"

lemma get_inode_upd [simp]: "get_inode (s\<lparr>freeinode := x\<rparr>) i = get_inode s i"
  by (simp add: get_inode_def)

lemma IBLOCK_layout: "IBLOCK i layout = iblk i"
  by (simp add: IBLOCK_def layout_def iblk_def mk_consts)

lemma unat_iblk: "unat i < 208 \<Longrightarrow> unat (iblk i) = unat i div 16 + 32" "unat i < 208 \<Longrightarrow> unat (iblk i) < 45"
  by (simp_all add: iblk_def unat_word_ariths unat_div)

lemma rinode_ok: "io_ok io \<Longrightarrow> img_ok s \<Longrightarrow> unat i < 208 \<Longrightarrow> rinode io i s = Ret (get_inode s i, s)"
  using unat_iblk(2) [of i] by (simp add: rinode_def kM_simps img_ok_def IBLOCK_layout rsect_ok get_inode_def)

lemma winode_ok:
  assumes "io_ok io" "img_ok s" "unat i < 208" "length (d_addrs d) = 13"
  obtains s' where "winode io i d s = Ret ((), s')" "img_ok s'" "freeblock s' = freeblock s" "freeinode s' = freeinode s"
    "\<And>j. unat j < 208 \<Longrightarrow> get_inode s' j = (if j = i then d else get_inode s j)"
    "\<And>b. b \<noteq> iblk i \<Longrightarrow> sect s' b = sect s b"
proof
  let ?buf = "sect s (iblk i)" and ?o = "inode_off i"
  let ?s = "set_sect (iblk i) (encode_dinode ?buf ?o d) s"
  have b: "unat (iblk i) < 2000" "length ?buf = 1024" using unat_iblk(2) [OF assms(3)] length_sect [OF assms(2), of "iblk i"] by simp_all
  have o: "inode_off j + 64 \<le> 1024" for j by (simp add: inode_off_def mk_consts)
  show "winode io i d s = Ret ((), ?s)"
    using assms b(1) by (simp add: winode_def kM_simps img_ok_def IBLOCK_layout rsect_ok wsect_ok)
  show "img_ok ?s" using assms(2,4) b(2) o [of i] by (simp add: encode_dinode_def length_dinode_bytes)
  show "sect ?s c = sect s c" if "c \<noteq> iblk i" for c using that assms(2) b(1) by simp
  show "get_inode ?s j = (if j = i then d else get_inode s j)" if j: "unat j < 208" for j
  proof (cases "iblk j = iblk i")
    case False
    then show ?thesis using assms(2) b(1) by (auto simp: get_inode_def)
  next
    case True
    have "inode_off j + 64 \<le> ?o \<or> ?o + 64 \<le> inode_off j" if "j \<noteq> i"
    proof -
      have "unat j div 16 = unat i div 16" using True unat_iblk(1) [OF assms(3)] unat_iblk(1) [OF j] by simp
      then have "unat j mod 16 \<noteq> unat i mod 16" using that by (metis div_mult_mod_eq word_unat_eq_iff)
      then show ?thesis by (auto simp: inode_off_def mk_consts)
    qed
    then show ?thesis
      using decode_encode_dinode(1) [OF assms(4), of ?o ?buf] decode_encode_dinode(2) [OF assms(4), of ?o ?buf "inode_off j"] o [of i] b assms(2) True by (auto simp: get_inode_def)
  qed
qed simp_all

section \<open>The blocks of a file\<close>

text \<open>\<open>file_rep D d bl ind\<close>: the inode \<open>d\<close> has the data blocks \<open>bl\<close> in order
  and the indirect block \<open>ind\<close>, 0 when it has none.\<close>

definition file_rep :: "(u32 \<Rightarrow> u8 list) \<Rightarrow> dinode \<Rightarrow> u32 list \<Rightarrow> u32 \<Rightarrow> bool" where
  "file_rep D d bl ind \<longleftrightarrow> length (d_addrs d) = 13 \<and> length bl \<le> 268
    \<and> (\<forall>f<12. d_addrs d ! f = (if f < length bl then bl ! f else 0)) \<and> d_addrs d ! 12 = ind \<and> (ind = 0 \<longleftrightarrow> length bl \<le> 12)
    \<and> (ind \<noteq> 0 \<longrightarrow> (\<forall>f<256. get32 (D ind) (4 * f) = (if f + 12 < length bl then bl ! (f + 12) else 0)))"

definition own :: "u32 list \<Rightarrow> u32 \<Rightarrow> u32 set" where
  "own bl ind = set bl \<union> (if ind = 0 then {} else {ind})"

lemma file_rep_cong: "(ind \<noteq> 0 \<Longrightarrow> D' ind = D ind) \<Longrightarrow> file_rep D' d bl ind = file_rep D d bl ind"
  by (auto simp: file_rep_def)

lemma file_rep_addrs: "d_addrs d' = d_addrs d \<Longrightarrow> file_rep D d' bl ind = file_rep D d bl ind"
  by (simp add: file_rep_def)

lemma get32_zeroes: "k + 4 \<le> 1024 \<Longrightarrow> get32 zeroes k = 0"
proof -
  assume "k + 4 \<le> 1024"
  then have "take 4 (drop k zeroes) = replicate 4 0" by (simp add: zeroes_def mk_consts)
  moreover have "le_word (replicate 4 0) = (0 :: u32)" by (simp add: numeral_eq_Suc)
  ultimately show ?thesis by (simp add: get32_def)
qed

text \<open>A file with one more block: a direct one, the first one of the indirect block \<open>a\<close>, and a later one.\<close>

lemma file_rep_direct:
  "file_rep D d bl 0 \<Longrightarrow> length bl < 12 \<Longrightarrow> d_addrs d' = (d_addrs d)[length bl := x] \<Longrightarrow> file_rep D' d' (bl @ [x]) 0"
  by (auto simp: file_rep_def nth_append nth_list_update)

lemma file_rep_first:
  assumes "file_rep D d bl 0" "length bl = 12" "d_addrs d' = (d_addrs d)[12 := a]" "a \<noteq> 0" "D' a = put32 zeroes 0 x"
  shows "file_rep D' d' (bl @ [x]) a"
proof -
  have "length zeroes = 1024" by (simp add: zeroes_def mk_consts)
  then have "get32 (D' a) (4 * f) = (if f = 0 then x else 0)" if "f < 256" for f
    using that get32_put32 [of 0 zeroes x] get32_put32_other [of 0 zeroes "4 * f" x] get32_zeroes [of "4 * f"] assms(5) by auto
  then show ?thesis using assms(1-4) by (auto simp: file_rep_def nth_append nth_list_update)
qed

lemma file_rep_later:
  assumes r: "file_rep D d bl ind" and l: "12 < length bl" "length bl < 268" and D': "D' ind = put32 (D ind) (4 * (length bl - 12)) x" "length (D ind) = 1024"
  shows "file_rep D' d (bl @ [x]) ind"
proof -
  let ?o = "4 * (length bl - 12)"
  have o: "?o + 4 \<le> length (D ind)" using l D'(2) by simp
  have i: "ind \<noteq> 0" using r l(1) by (auto simp: file_rep_def)
  have "get32 (D' ind) (4 * f) = (if f + 12 < length (bl @ [x]) then (bl @ [x]) ! (f + 12) else 0)" if "f < 256" for f
  proof (cases "f + 12 = length bl")
    case True
    then have "?o = 4 * f" "(bl @ [x]) ! (f + 12) = x" by auto
    then show ?thesis using get32_put32 [OF o, of x] True D'(1) by simp
  next
    case False
    then have "4 * f + 4 \<le> ?o \<or> ?o + 4 \<le> 4 * f" using l(1) by auto
    then have "get32 (D' ind) (4 * f) = get32 (D ind) (4 * f)" unfolding D'(1) by (rule get32_put32_other [OF o])
    then show ?thesis using False that r i by (auto simp: file_rep_def nth_append)
  qed
  then show ?thesis using r l by (auto simp: file_rep_def nth_append)
qed

text \<open>The state of the data area while a file grows: the blocks of the file lie below
  \<^verbatim>\<open>freeblock\<close>, and what lies above is still zero.\<close>

definition data_ok :: "mkfs \<Rightarrow> dinode \<Rightarrow> u32 list \<Rightarrow> u32 \<Rightarrow> bool" where
  "data_ok s d bl ind \<longleftrightarrow> img_ok s \<and> file_rep (sect s) d bl ind \<and> distinct bl \<and> ind \<notin> set bl
    \<and> (\<forall>b\<in>own bl ind. 46 \<le> unat b \<and> unat b < unat (freeblock s)) \<and> 46 \<le> unat (freeblock s) \<and> unat (freeblock s) \<le> 2000
    \<and> (\<forall>b. unat (freeblock s) \<le> unat b \<and> unat b < 2000 \<longrightarrow> sect s b = zeroes)"

definition blocks_of :: "nat \<Rightarrow> nat" where
  "blocks_of n = (if n \<le> 12 then n else n + 1)"

lemma iappend_block_old:
  assumes "io_ok io" "data_ok s d bl ind" "fbn < length bl"
  shows "iappend_block io fbn d s = Ret ((bl ! fbn, d), s)"
proof -
  have r: "file_rep (sect s) d bl ind" "img_ok s" "bl ! fbn \<noteq> 0" "ind \<noteq> 0 \<Longrightarrow> unat ind < 2000"
  proof -
    show "file_rep (sect s) d bl ind" "img_ok s" using assms(2) by (simp_all add: data_ok_def)
    have "bl ! fbn \<in> own bl ind" using assms(3) by (simp add: own_def)
    then have "46 \<le> unat (bl ! fbn)" using assms(2) by (simp add: data_ok_def)
    then show "bl ! fbn \<noteq> 0" by auto
    show "unat ind < 2000" if "ind \<noteq> 0" using that assms(2) by (auto simp: data_ok_def own_def)
  qed
  show ?thesis
  proof (cases "fbn < 12")
    case True
    then show ?thesis using r assms(3) by (simp add: iappend_block_def NDIRECT_def kM_simps file_rep_def)
  next
    case False
    have "length bl \<le> 268" using r(1) by (simp add: file_rep_def)
    then obtain f where f: "fbn = f + 12" "f < 256" using False assms(3) that [of "fbn - 12"] by simp
    then have "ind \<noteq> 0" "get32 (sect s ind) (4 * f) = bl ! fbn" "d_addrs d ! 12 = ind" using r(1) assms(3) by (auto simp: file_rep_def)
    then show ?thesis using r assms(1) f by (simp add: iappend_block_def NDIRECT_def kM_simps Let_def rsect_ok)
  qed
qed

text \<open>What a new block \<open>x\<close> of the file changes.\<close>

definition grows :: "mkfs \<Rightarrow> dinode \<Rightarrow> u32 list \<Rightarrow> u32 \<Rightarrow> u32 \<Rightarrow> dinode \<Rightarrow> u32 \<Rightarrow> mkfs \<Rightarrow> bool" where
  "grows s d bl ind x d' ind' s' \<longleftrightarrow> data_ok s' d' (bl @ [x]) ind' \<and> unat (freeblock s) \<le> unat x \<and> sect s' x = zeroes
    \<and> unat (freeblock s') = unat (freeblock s) + (blocks_of (Suc (length bl)) - blocks_of (length bl))
    \<and> own (bl @ [x]) ind' = own bl ind \<union> {b. unat (freeblock s) \<le> unat b \<and> unat b < unat (freeblock s')}
    \<and> (\<forall>b. unat b < unat (freeblock s) \<and> (b \<noteq> ind \<or> ind = 0) \<longrightarrow> sect s' b = sect s b)
    \<and> d' = d\<lparr>d_addrs := d_addrs d'\<rparr> \<and> freeinode s' = freeinode s"

lemma unat_Suc: "unat (b :: u32) < 2 ^ 32 - 1 \<Longrightarrow> unat (b + 1) = unat b + 1"
  by (simp add: unat_word_ariths)

lemma between_one: "{b :: u32. unat a \<le> unat b \<and> unat b < unat a + 1} = {a}"
  by (auto simp: word_unat_eq_iff)

lemma between_two: "unat (a + 1) = unat a + 1 \<Longrightarrow> {b :: u32. unat a \<le> unat b \<and> unat b < unat a + 2} = {a, a + 1}"
  by (auto simp: word_unat_eq_iff)

lemma grow_direct:
  assumes "io_ok io" and ok: "data_ok s d bl ind" and l: "length bl < 12" and fb: "unat (freeblock s) < 2000"
  shows "iappend_block io (length bl) d s = Ret ((freeblock s, d\<lparr>d_addrs := (d_addrs d)[length bl := freeblock s]\<rparr>), s\<lparr>freeblock := freeblock s + 1\<rparr>)"
    "grows s d bl ind (freeblock s) (d\<lparr>d_addrs := (d_addrs d)[length bl := freeblock s]\<rparr>) ind (s\<lparr>freeblock := freeblock s + 1\<rparr>)"
proof -
  have r: "file_rep (sect s) d bl ind" "img_ok s" "ind = 0" using ok l by (auto simp: data_ok_def file_rep_def)
  show "iappend_block io (length bl) d s = Ret ((freeblock s, d\<lparr>d_addrs := (d_addrs d)[length bl := freeblock s]\<rparr>), s\<lparr>freeblock := freeblock s + 1\<rparr>)"
    using r(1) l by (simp add: iappend_block_def NDIRECT_def kM_simps next_block_def file_rep_def)
  have u: "unat (freeblock s + 1) = unat (freeblock s) + 1" using fb by (intro unat_Suc) simp
  have new: "freeblock s \<notin> set bl" "freeblock s \<noteq> 0" using ok by (auto simp: data_ok_def own_def)
  have "file_rep (sect s) (d\<lparr>d_addrs := (d_addrs d)[length bl := freeblock s]\<rparr>) (bl @ [freeblock s]) ind"
    using r(1,3) l file_rep_direct [of "sect s" d bl] by simp
  then show "grows s d bl ind (freeblock s) (d\<lparr>d_addrs := (d_addrs d)[length bl := freeblock s]\<rparr>) ind (s\<lparr>freeblock := freeblock s + 1\<rparr>)"
    using ok l u fb new r(3) by (auto simp: grows_def data_ok_def own_def blocks_of_def file_rep_def less_Suc_eq between_one [simplified] word_unat_eq_iff)
qed

lemma grow_indirect:
  assumes "io_ok io" and ok: "data_ok s d bl ind" and l: "12 < length bl" "length bl < 268" and fb: "unat (freeblock s) < 2000"
  shows "iappend_block io (length bl) d s
      = Ret ((freeblock s, d), set_sect ind (put32 (sect s ind) (4 * (length bl - 12)) (freeblock s)) (s\<lparr>freeblock := freeblock s + 1\<rparr>))"
    "grows s d bl ind (freeblock s) d ind (set_sect ind (put32 (sect s ind) (4 * (length bl - 12)) (freeblock s)) (s\<lparr>freeblock := freeblock s + 1\<rparr>))"
proof -
  let ?o = "4 * (length bl - 12)"
  have r: "file_rep (sect s) d bl ind" "img_ok s" "ind \<noteq> 0" "unat ind < 2000" "d_addrs d ! 12 = ind" "get32 (sect s ind) ?o = 0"
    using ok l by (auto simp: data_ok_def file_rep_def own_def)
  have ln: "length (sect s ind) = 1024" "?o + 4 \<le> 1024" using length_sect [OF r(2,4)] l by simp_all
  show "iappend_block io (length bl) d s
      = Ret ((freeblock s, d), set_sect ind (put32 (sect s ind) ?o (freeblock s)) (s\<lparr>freeblock := freeblock s + 1\<rparr>))"
    using r assms(1) l ln by (simp add: iappend_block_def NDIRECT_def kM_simps next_block_def Let_def rsect_ok wsect_ok get32_put32)
  let ?s = "set_sect ind (put32 (sect s ind) ?o (freeblock s)) (s\<lparr>freeblock := freeblock s + 1\<rparr>)"
  have u: "unat (freeblock s + 1) = unat (freeblock s) + 1" using fb by (intro unat_Suc) simp
  have new: "freeblock s \<notin> set bl" "freeblock s \<noteq> 0" "freeblock s \<noteq> ind" "unat ind < unat (freeblock s)"
    using ok r(3) by (auto simp: data_ok_def own_def)
  have sect: "sect ?s b = (if b = ind then put32 (sect s ind) ?o (freeblock s) else sect s b)" for b using r(2,4) by simp
  have "file_rep (sect ?s) d (bl @ [freeblock s]) ind"
    using file_rep_later [OF r(1) l, of "sect ?s"] ln(1) sect by simp
  moreover have "img_ok ?s" using r(2) ln by simp
  ultimately have "data_ok ?s d (bl @ [freeblock s]) ind"
    using ok l u fb new r(2,3,4) by (auto simp: data_ok_def own_def less_Suc_eq)
  moreover have fbs: "freeblock ?s = freeblock s + 1" by simp
  have "own (bl @ [freeblock s]) ind = own bl ind \<union> {b. unat (freeblock s) \<le> unat b \<and> unat b < unat (freeblock ?s)}"
    unfolding fbs u between_one by (auto simp: own_def)
  moreover have "sect s (freeblock s) = zeroes" using ok fb by (auto simp: data_ok_def)
  ultimately show "grows s d bl ind (freeblock s) d ind ?s"
    unfolding grows_def sect fbs u using l new r(3) by (simp add: blocks_of_def)
qed

lemma grow_first_indirect:
  assumes "io_ok io" and ok: "data_ok s d bl ind" and l: "length bl = 12" and fb: "unat (freeblock s) + 1 < 2000"
  defines "a \<equiv> freeblock s" and "d' \<equiv> d\<lparr>d_addrs := (d_addrs d)[12 := freeblock s]\<rparr>"
    and "s' \<equiv> set_sect (freeblock s) (put32 zeroes 0 (freeblock s + 1)) (s\<lparr>freeblock := freeblock s + 1 + 1\<rparr>)"
  shows "iappend_block io (length bl) d s = Ret ((a + 1, d'), s')" "grows s d bl ind (a + 1) d' a s'"
proof -
  have r: "file_rep (sect s) d bl ind" "img_ok s" "ind = 0" "d_addrs d ! 12 = 0" "length (d_addrs d) = 13"
    using ok l by (auto simp: data_ok_def file_rep_def)
  have u: "unat (a + 1) = unat a + 1" "unat (a + 1 + 1) = unat a + 2" using fb unat_Suc [of a] unat_Suc [of "a + 1"] by (simp_all add: a_def)
  have z: "sect s a = zeroes" "sect s (a + 1) = zeroes" "unat a < 2000" "a \<noteq> 0" "length zeroes = 1024"
    using ok fb u(1) by (auto simp: data_ok_def a_def zeroes_def mk_consts)
  have ne: "a + 1 \<noteq> a" by simp
  show "iappend_block io (length bl) d s = Ret ((a + 1, d'), s')"
    using r z assms(1) l by (simp add: iappend_block_def NDIRECT_def kM_simps next_block_def Let_def rsect_ok wsect_ok get32_put32 get32_zeroes
        a_def d'_def s'_def)
  have "unat b < unat a" if "b \<in> set bl" for b using ok that by (auto simp: data_ok_def own_def a_def)
  from this [of a] this [of "a + 1"] have new: "a \<notin> set bl" "a + 1 \<notin> set bl" "a + 1 \<noteq> 0" using u by auto
  have sect: "sect s' b = (if b = a then put32 zeroes 0 (a + 1) else sect s b)" for b using r(2) z(3) by (simp add: s'_def a_def)
  have "file_rep (sect s') d' (bl @ [a + 1]) a"
    using r l z(4) sect by (intro file_rep_first [of "sect s" d]) (simp_all add: d'_def a_def)
  moreover have "img_ok s'" using r(2) z(5) by (simp add: s'_def)
  moreover have "sect s' b = zeroes" if "unat a + 2 \<le> unat b" "unat b < 2000" for b
    using that ok by (auto simp: sect data_ok_def a_def)
  moreover have "freeblock s' = a + 1 + 1" "freeinode s' = freeinode s" "d' = d\<lparr>d_addrs := d_addrs d'\<rparr>" by (simp_all add: s'_def a_def d'_def)
  ultimately have "data_ok s' d' (bl @ [a + 1]) a" and d': "freeblock s' = a + 1 + 1" "freeinode s' = freeinode s" "d' = d\<lparr>d_addrs := d_addrs d'\<rparr>"
    using ok l u fb new z ne r(3) by (auto simp: data_ok_def own_def a_def)
  moreover have "own (bl @ [a + 1]) a = own bl ind \<union> {b. unat a \<le> unat b \<and> unat b < unat (freeblock s')}"
    unfolding d'(1) u between_two [OF u(1)] using r(3) z(4) by (auto simp: own_def)
  ultimately show "grows s d bl ind (a + 1) d' a s'"
    using l u z ne sect r(3) by (simp add: grows_def blocks_of_def a_def)
qed

lemma iappend_block_new:
  assumes "io_ok io" and ok: "data_ok s d bl ind" and l: "length bl < 268"
    and fb: "unat (freeblock s) + (blocks_of (Suc (length bl)) - blocks_of (length bl)) \<le> 2000"
  shows "\<exists>x d' ind' s'. iappend_block io (length bl) d s = Ret ((x, d'), s') \<and> grows s d bl ind x d' ind' s'"
proof (cases "length bl" "12 :: nat" rule: linorder_cases)
  case less
  then have "unat (freeblock s) < 2000" using fb by (simp add: blocks_of_def)
  from grow_direct [OF assms(1) ok less this] show ?thesis by blast
next
  case equal
  then have "unat (freeblock s) + 1 < 2000" using fb by (simp add: blocks_of_def)
  from grow_first_indirect [OF assms(1) ok equal this] show ?thesis by blast
next
  case greater
  then have "unat (freeblock s) < 2000" using fb by (simp add: blocks_of_def)
  from grow_indirect [OF assms(1) ok greater l this] show ?thesis by blast
qed

section \<open>Appending to a file\<close>

definition span :: "nat \<Rightarrow> nat" where
  "span n = (n + 1023) div 1024"

text \<open>The blocks \<open>bl\<close> hold the bytes \<open>c\<close>, and zeroes after them.\<close>

definition holds :: "(u32 \<Rightarrow> u8 list) \<Rightarrow> u32 list \<Rightarrow> u8 list \<Rightarrow> bool" where
  "holds D bl c \<longleftrightarrow> concat (map D bl) = c @ replicate (1024 * length bl - length c) 0"

text \<open>From the state \<open>s\<close>, where the file has the inode \<open>d\<close> and the blocks \<open>bl\<close> and \<open>ind\<close>, the
  file has come to \<open>d'\<close>, \<open>bl'\<close> and \<open>ind'\<close>, and only its own blocks and the free ones
  have changed.\<close>

definition extended :: "mkfs \<Rightarrow> dinode \<Rightarrow> u32 list \<Rightarrow> u32 \<Rightarrow> mkfs \<Rightarrow> dinode \<Rightarrow> u32 list \<Rightarrow> u32 \<Rightarrow> bool" where
  "extended s d bl ind s' d' bl' ind' \<longleftrightarrow> data_ok s' d' bl' ind' \<and> length bl \<le> length bl'
    \<and> unat (freeblock s') = unat (freeblock s) + (blocks_of (length bl') - blocks_of (length bl))
    \<and> own bl' ind' = own bl ind \<union> {b. unat (freeblock s) \<le> unat b \<and> unat b < unat (freeblock s')}
    \<and> (\<forall>b. unat b < unat (freeblock s) \<and> b \<notin> own bl ind \<longrightarrow> sect s' b = sect s b)
    \<and> d' = d\<lparr>d_addrs := d_addrs d'\<rparr> \<and> freeinode s' = freeinode s"

lemma blocks_of_mono: "m \<le> n \<Longrightarrow> blocks_of m \<le> blocks_of n"
  by (simp add: blocks_of_def)

lemma extended_refl: "data_ok s d bl ind \<Longrightarrow> extended s d bl ind s d bl ind"
  by (auto simp: extended_def)

lemma between_join: "A \<le> B \<Longrightarrow> B \<le> C \<Longrightarrow>
    {b :: u32. A \<le> unat b \<and> unat b < B} \<union> {b. B \<le> unat b \<and> unat b < C} = {b. A \<le> unat b \<and> unat b < C}"
  by auto

lemma dinode_addrs_trans:
  assumes "d1 = d\<lparr>d_addrs := d_addrs d1\<rparr>" "d2 = d1\<lparr>d_addrs := d_addrs d2\<rparr>"
  shows "d2 = (d :: dinode)\<lparr>d_addrs := d_addrs d2\<rparr>"
proof -
  obtain a b where "d1 = d\<lparr>d_addrs := a\<rparr>" "d2 = d1\<lparr>d_addrs := b\<rparr>" using assms by blast
  then show ?thesis by simp
qed

lemma extended_trans:
  assumes a: "extended s d bl ind s1 d1 bl1 ind1" and b: "extended s1 d1 bl1 ind1 s2 d2 bl2 ind2"
  shows "extended s d bl ind s2 d2 bl2 ind2"
proof -
  have "unat (freeblock s2) = unat (freeblock s) + (blocks_of (length bl2) - blocks_of (length bl))"
    using a b blocks_of_mono [of "length bl" "length bl1"] blocks_of_mono [of "length bl1" "length bl2"] by (simp add: extended_def)
  moreover have "d2 = d\<lparr>d_addrs := d_addrs d2\<rparr>" using a b by (intro dinode_addrs_trans [of d1 d d2]) (simp_all add: extended_def)
  moreover have "unat (freeblock s) \<le> unat (freeblock s1)" "unat (freeblock s1) \<le> unat (freeblock s2)" using a b by (simp_all add: extended_def)
  moreover have "own bl2 ind2 = own bl ind \<union> {b. unat (freeblock s) \<le> unat b \<and> unat b < unat (freeblock s2)}"
  proof -
    have "own bl2 ind2 = own bl ind \<union> {b. unat (freeblock s) \<le> unat b \<and> unat b < unat (freeblock s1)}
      \<union> {b. unat (freeblock s1) \<le> unat b \<and> unat b < unat (freeblock s2)}" using a b by (simp add: extended_def)
    then show ?thesis
      unfolding between_join [OF \<open>unat (freeblock s) \<le> unat (freeblock s1)\<close> \<open>unat (freeblock s1) \<le> unat (freeblock s2)\<close>, symmetric]
      by (simp only: Un_assoc)
  qed
  moreover have "sect s2 c = sect s c" if c: "unat c < unat (freeblock s)" "c \<notin> own bl ind" for c
  proof -
    have "c \<notin> own bl1 ind1" using a c by (simp add: extended_def)
    moreover have "unat c < unat (freeblock s1)" using a c by (simp add: extended_def)
    ultimately show ?thesis using a b c by (simp add: extended_def)
  qed
  ultimately show ?thesis using a b by (simp add: extended_def)
qed

lemma extended_grows:
  assumes "grows s d bl ind x d' ind' s'" "data_ok s d bl ind"
  shows "extended s d bl ind s' d' (bl @ [x]) ind'"
  using assms by (auto simp: extended_def grows_def own_def split: if_splits)

lemma extended_write:
  assumes "extended s d bl ind s' d' (ys @ [x]) ind'" "length buf = 1024"
  shows "extended s d bl ind (set_sect x buf s') d' (ys @ [x]) ind'" and "img_ok s'" "unat x < 2000" "x \<notin> set ys"
proof -
  have o: "data_ok s' d' (ys @ [x]) ind'" using assms(1) by (simp add: extended_def)
  then have x: "unat x < unat (freeblock s')" "x \<noteq> ind'" by (auto simp: data_ok_def own_def)
  show i: "img_ok s'" "unat x < 2000" "x \<notin> set ys" using o x by (simp_all add: data_ok_def)
  have "data_ok (set_sect x buf s') d' (ys @ [x]) ind'"
    using o x i assms(2) file_rep_cong [of ind' "sect (set_sect x buf s')" "sect s'"] by (auto simp: data_ok_def)
  moreover have "x \<in> own bl ind \<or> unat (freeblock s) \<le> unat x" using assms(1) by (auto simp: extended_def own_def)
  ultimately show "extended s d bl ind (set_sect x buf s') d' (ys @ [x]) ind'"
    using assms(1) i by (auto simp: extended_def)
qed


lemma length_blocks: "(\<And>b. b \<in> set bl \<Longrightarrow> length (D b) = 1024) \<Longrightarrow> length (concat (map D bl)) = 1024 * length bl"
  by (induction bl) auto

lemma span_cases:
  "span off = (if off mod 1024 = 0 then off div 1024 else Suc (off div 1024))"
proof -
  obtain q r where "off = 1024 * q + r" "r < 1024" by (metis mult_div_mod_eq mod_less_divisor zero_less_numeral)
  then show ?thesis by (auto simp: span_def)
qed

lemma span_mono: "m \<le> n \<Longrightarrow> span m \<le> span n"
  by (simp add: span_def div_le_mono)

lemma span_step: "0 < n \<Longrightarrow> off mod 1024 + n \<le> 1024 \<Longrightarrow> span (off + n) = Suc (off div 1024)"
proof -
  assume n: "0 < n" "off mod 1024 + n \<le> 1024"
  have "off + n + 1023 = 1024 * (off div 1024 + 1) + (off mod 1024 + n - 1)" using n(1) by simp
  moreover have "off mod 1024 + n - 1 < 1024" using n by linarith
  ultimately show ?thesis unfolding span_def by (metis Suc_eq_plus1 div_less div_mult_self4 add.right_neutral zero_neq_numeral)
qed

lemma data_ok_block: "data_ok s d bl ind \<Longrightarrow> b \<in> set bl \<Longrightarrow> unat b < 2000 \<and> length (sect s b) = 1024 \<and> unat b < unat (freeblock s) \<and> b \<noteq> ind"
  by (auto simp: data_ok_def own_def intro!: length_sect dest: bspec [of _ _ b])

lemma holds_cong: "(\<And>b. b \<in> set bl \<Longrightarrow> D' b = D b) \<Longrightarrow> holds D' bl c = holds D bl c"
  by (simp add: holds_def cong: map_cong)

text \<open>Writing \<open>q\<close> after \<open>c\<close> in the last block \<open>x\<close>.\<close>

lemma holds_write:
  assumes h: "holds D (ys @ [x]) c" and len: "\<And>b. b \<in> set ys \<Longrightarrow> length (D b) = 1024" "length (D x) = 1024"
    and c: "length c = 1024 * length ys + r" "r + length q \<le> 1024"
    and D': "\<And>b. b \<in> set ys \<Longrightarrow> D' b = D b" "D' x = put_bytes (D x) r q"
  shows "holds D' (ys @ [x]) (c @ q)"
proof -
  let ?ys = "concat (map D ys)"
  have ly: "length ?ys = 1024 * length ys" by (rule length_blocks) (rule len(1))
  have "?ys @ D x = c @ replicate (1024 - r) 0" using h c(1) by (simp add: holds_def)
  then have "take (1024 * length ys) (?ys @ D x) = take (1024 * length ys) (c @ replicate (1024 - r) 0)"
      "drop (1024 * length ys) (?ys @ D x) = drop (1024 * length ys) (c @ replicate (1024 - r) 0)" by simp_all
  then have "?ys = take (1024 * length ys) c" "D x = drop (1024 * length ys) c @ replicate (1024 - r) 0" using ly c(1) by simp_all
  moreover define a where "a = drop (1024 * length ys) c"
  ultimately have e: "?ys @ a = c" "D x = a @ replicate (1024 - r) 0" "length a = r" using c(1) by (simp_all add: a_def)
  have "put_bytes (D x) r q = a @ q @ replicate (1024 - r - length q) 0"
    using e(2,3) c(2) by (simp add: put_bytes_def)
  moreover have "concat (map D' ys) = ?ys" using D'(1) by (simp cong: map_cong)
  ultimately have "concat (map D' (ys @ [x])) = (?ys @ a) @ q @ replicate (1024 - r - length q) 0" using D'(2) by simp
  then show ?thesis unfolding holds_def e(1) using c by (simp add: algebra_simps)
qed

text \<open>The block for the offset \<open>off\<close>, the size of the file so far: a new one when the last is full.\<close>

lemma iappend_block_ok:
  assumes "io_ok io" and ok: "data_ok s d bl ind" and c: "holds (sect s) bl c" "length c = off" and l: "length bl = span off" "off < 268 * 1024"
    and fb: "unat (freeblock s) + (blocks_of (Suc (off div 1024)) - blocks_of (length bl)) \<le> 2000"
  shows "\<exists>x d' ind' s'. iappend_block io (off div 1024) d s = Ret ((x, d'), s') \<and> extended s d bl ind s' d' (take (off div 1024) bl @ [x]) ind'
    \<and> holds (sect s') (take (off div 1024) bl @ [x]) c"
proof (cases "off mod 1024 = 0")
  case True
  then have m: "off div 1024 = length bl" "off = 1024 * length bl" using l(1) by (auto simp: span_cases)
  obtain x d' ind' s' where g: "iappend_block io (length bl) d s = Ret ((x, d'), s')" "grows s d bl ind x d' ind' s'"
    using iappend_block_new [OF assms(1) ok] fb l(2) m by auto
  have keep: "sect s' b = sect s b" if "b \<in> set bl" for b using g(2) data_ok_block [OF ok that] by (simp add: grows_def)
  then have "holds (sect s') bl c" using holds_cong [of bl "sect s'" "sect s" c] c(1) by simp
  moreover have "sect s' x = zeroes" using g(2) by (simp add: grows_def)
  ultimately have "holds (sect s') (bl @ [x]) c" using c(2) m(2) by (simp add: holds_def zeroes_def BSIZE_def)
  then show ?thesis using g extended_grows [OF g(2) ok] m(1) by auto
next
  case False
  then have m: "length bl = Suc (off div 1024)" using l(1) by (simp add: span_cases)
  then have bl: "take (off div 1024) bl @ [bl ! (off div 1024)] = bl" by (metis lessI take_Suc_conv_app_nth take_all_iff order_refl)
  show ?thesis using iappend_block_old [OF assms(1) ok, of "off div 1024"] m extended_refl [OF ok] bl c(1) by auto
qed

lemma iappend_round:
  assumes "io_ok io" and ok: "data_ok s d bl ind" and c: "holds (sect s) bl c" "length c = off" and l: "length bl = span off" "off < 268 * 1024"
    and q: "off mod 1024 + length q \<le> 1024"
    and fb: "unat (freeblock s) + (blocks_of (Suc (off div 1024)) - blocks_of (length bl)) \<le> 2000"
  shows "\<exists>x d' bl' ind' s1 s'. iappend_block io (off div 1024) d s = Ret ((x, d'), s1) \<and> img_ok s1 \<and> unat x < 2000
    \<and> s' = set_sect x (put_bytes (sect s1 x) (off mod 1024) q) s1 \<and> extended s d bl ind s' d' bl' ind' \<and> length bl' = Suc (off div 1024)
    \<and> holds (sect s') bl' (c @ q)"
proof -
  define m r where "m = off div 1024" and "r = off mod 1024"
  obtain x d' ind' s1 where g: "iappend_block io m d s = Ret ((x, d'), s1)" "extended s d bl ind s1 d' (take m bl @ [x]) ind'"
      "holds (sect s1) (take m bl @ [x]) c"
    using iappend_block_ok [OF assms(1) ok c l fb] unfolding m_def by auto
  have m: "length (take m bl) = m" "off = 1024 * m + r" using l(1) by (auto simp: span_cases m_def r_def)
  have "data_ok s1 d' (take m bl @ [x]) ind'" using g(2) by (simp add: extended_def)
  from data_ok_block [OF this] have len: "\<And>b. b \<in> set (take m bl) \<Longrightarrow> length (sect s1 b) = 1024" "length (sect s1 x) = 1024" by auto
  let ?buf = "put_bytes (sect s1 x) r q" let ?s = "set_sect x ?buf s1"
  have buf: "length ?buf = 1024" using len(2) q by (simp add: r_def)
  note w = extended_write [OF g(2) buf]
  have "holds (sect ?s) (take m bl @ [x]) (c @ q)"
  proof (rule holds_write [OF g(3) len])
    show "length c = 1024 * length (take m bl) + r" "r + length q \<le> 1024" using c(2) m q unfolding r_def by simp_all
    show "sect ?s b = sect s1 b" if "b \<in> set (take m bl)" for b using that w(2,3,4) by auto
    show "sect ?s x = ?buf" using w(2,3) by simp
  qed
  then show ?thesis using g(1) w m(1) by (intro exI [of _ x] exI [of _ d'] exI [of _ "take m bl @ [x]"] exI [of _ ind'] exI [of _ s1] exI [of _ ?s])
    (simp add: m_def r_def)
qed

lemma blocks_of_diff: "blocks_of m - blocks_of k \<le> blocks_of n - blocks_of k" if "m \<le> n"
  using blocks_of_mono [OF that] by simp

lemma iappend_loop_ok:
  assumes "io_ok io" "data_ok s d bl ind" "length bl = span off" "holds (sect s) bl c" "length c = off" "unat w = off" "off + length p \<le> 268 * 1024"
    "unat (freeblock s) + (blocks_of (span (off + length p)) - blocks_of (length bl)) \<le> 2000" "length p \<le> k"
  shows "\<exists>d' bl' ind' s'. iappend_loop k io p w d s = Ret ((of_nat (off + length p), d'), s') \<and> extended s d bl ind s' d' bl' ind'
    \<and> length bl' = span (off + length p) \<and> holds (sect s') bl' (c @ p)"
  using assms(2-)
proof (induction k arbitrary: s d bl ind off w p c)
  case 0
  from \<open>unat w = off\<close> have "w = of_nat off" by auto
  then show ?case using 0 extended_refl [OF \<open>data_ok s d bl ind\<close>] by (auto simp: kM_simps)
next
  case (Suc k)
  note ok = \<open>data_ok s d bl ind\<close>
  show ?case
  proof (cases "p = []")
    case True
    have "w = of_nat off" using Suc.prems(5) by auto
    then show ?thesis using True Suc.prems extended_refl [OF ok] by (auto simp: kM_simps)
  next
    case False
    define q where "q = take (1024 - off mod 1024) p"
    define p' where "p' = drop (1024 - off mod 1024) p"
    have pq: "p = q @ p'" "q \<noteq> []" "off mod 1024 + length q \<le> 1024" using False by (auto simp: q_def p'_def)
    have n1: "min (length p) ((off div 1024 + 1) * 1024 - off) = length q"
      by (simp add: q_def minus_div_mult_eq_mod [symmetric] min.commute)
    have "0 < length q" using pq(2) by simp
    then have l: "off < 268 * 1024" using Suc.prems(6) pq(1) by (simp del: length_greater_0_conv)
    then have lm: "off div 1024 < MAXFILE" by (simp add: MAXFILE_def NDIRECT_def NINDIRECT_def BSIZE_def)
    have sp: "Suc (off div 1024) \<le> span (off + length p)" "span (off + length q) = Suc (off div 1024)"
      using span_step [OF \<open>0 < length q\<close> pq(3)] span_mono [of "off + length q" "off + length p"] pq(1) by simp_all
    have fb: "unat (freeblock s) + (blocks_of (Suc (off div 1024)) - blocks_of (length bl)) \<le> 2000"
      using Suc.prems(7) blocks_of_diff [OF sp(1), of "length bl"] by linarith
    obtain x d1 bl1 ind1 s1 s2 where g: "iappend_block io (off div 1024) d s = Ret ((x, d1), s1)" "img_ok s1" "unat x < 2000"
        "s2 = set_sect x (put_bytes (sect s1 x) (off mod 1024) q) s1" "extended s d bl ind s2 d1 bl1 ind1" "length bl1 = Suc (off div 1024)"
        "holds (sect s2) bl1 (c @ q)"
      using iappend_round [OF assms(1) ok Suc.prems(3,4,2) l pq(3) fb] by blast
    have w: "unat (w + of_nat (length q)) = off + length q" using Suc.prems(5) l pq(3) by (simp add: unat_word_ariths unat_of_nat)
    have fb2: "unat (freeblock s2) + (blocks_of (span (off + length q + length p')) - blocks_of (length bl1)) \<le> 2000"
      using g(5,6) Suc.prems(7) blocks_of_mono [OF sp(1)] pq(1) by (auto simp: extended_def add.assoc dest: blocks_of_mono)
    have pk: "length p' \<le> k" using Suc.prems(8) pq(1) \<open>0 < length q\<close> by (simp del: length_greater_0_conv)
    have "data_ok s2 d1 bl1 ind1" using g(5) by (simp add: extended_def)
    from Suc.IH [OF this _ g(7) _ w, of p'] obtain d' bl' ind' s' where h:
      "iappend_loop k io p' (w + of_nat (length q)) d1 s2 = Ret ((of_nat (off + length p), d'), s')"
      "extended s2 d1 bl1 ind1 s' d' bl' ind'" "length bl' = span (off + length p)"
      "holds (sect s') bl' (c @ p)"
      using g(6) sp(2) fb2 Suc.prems(4,6) pk pq(1) by (auto simp: add.assoc)
    have "iappend_loop (Suc k) io p w d s = iappend_loop k io p' (w + of_nat (length q)) d1 s2"
      using g(1-4) lm n1 assms(1) Suc.prems(5) pq False
      by (simp add: BSIZE_def kM_simps rsect_ok wsect_ok Let_def minus_div_mult_eq_mod)
    then show ?thesis using h extended_trans [OF g(5) h(2)] g(7) pq(1) by auto
  qed
qed


section \<open>The files of the image\<close>

text \<open>A file is its type and its bytes; \<open>file_at s i f b\<close> says that the inode \<open>i\<close> of the image is the file \<open>f\<close>
  with the data blocks and the indirect block \<open>b\<close>. \<open>mk_inv s files bs\<close> is the state while the
  image is built: the files have the inodes from 1 on, and they share out exactly the blocks
  between the bitmap and \<^verbatim>\<open>freeblock\<close>.\<close>

definition file_at :: "mkfs \<Rightarrow> u32 \<Rightarrow> u16 \<times> u8 list \<Rightarrow> u32 list \<times> u32 \<Rightarrow> bool" where
  "file_at s i f b \<longleftrightarrow> (let d = get_inode s i in d_type d = fst f \<and> d_major d = 0 \<and> d_minor d = 0 \<and> d_nlink d = 1
    \<and> d_size d = of_nat (length (snd f)) \<and> length (snd f) \<le> 268 * 1024 \<and> data_ok s d (fst b) (snd b)
    \<and> length (fst b) = span (length (snd f)) \<and> holds (sect s) (fst b) (snd f))"

text \<open>The inode number of the \<open>i\<close>-th file.\<close>

definition ino :: "nat \<Rightarrow> u32" where
  "ino i = of_nat (Suc i)"

lemma unat_ino [simp]: "i < 1000 \<Longrightarrow> unat (ino i) = Suc i"
  by (simp add: ino_def unat_of_nat del: of_nat_Suc)

lemma ino_eq [simp]: "i < 1000 \<Longrightarrow> j < 1000 \<Longrightarrow> ino i = ino j \<longleftrightarrow> i = j"
  by (simp add: word_unat_eq_iff)

lemma ino_Suc: "ino i + 1 = ino (Suc i)"
  by (simp add: ino_def)

definition owned :: "u32 list \<times> u32 \<Rightarrow> u32 set" where
  "owned b = own (fst b) (snd b)"

definition mk_used :: "(u16 \<times> u8 list) list \<Rightarrow> nat" where
  "mk_used files = 46 + sum_list (map (\<lambda>f. blocks_of (span (length (snd f)))) files)"

definition sb_sector :: "u8 list" where
  "sb_sector = put_bytes zeroes 0 (superblock_bytes layout)"

definition mk_inv :: "mkfs \<Rightarrow> (u16 \<times> u8 list) list \<Rightarrow> (u32 list \<times> u32) list \<Rightarrow> bool" where
  "mk_inv s files bs \<longleftrightarrow> img_ok s \<and> length bs = length files \<and> length files \<le> 199 \<and> freeinode s = ino (length files)
    \<and> unat (freeblock s) = mk_used files \<and> mk_used files \<le> 2000
    \<and> (\<forall>b. unat (freeblock s) \<le> unat b \<and> unat b < 2000 \<longrightarrow> sect s b = zeroes)
    \<and> (\<forall>i<length files. file_at s (ino i) (files ! i) (bs ! i))
    \<and> (\<forall>i<length files. \<forall>j<length files. i \<noteq> j \<longrightarrow> owned (bs ! i) \<inter> owned (bs ! j) = {})
    \<and> \<Union> (set (map owned bs)) = {b. 46 \<le> unat b \<and> unat b < unat (freeblock s)}
    \<and> (\<forall>i. unat i < 208 \<and> (i = 0 \<or> length files < unat i) \<longrightarrow> get_inode s i = zero_dinode)
    \<and> (\<forall>b. unat b < 32 \<longrightarrow> sect s b = (if b = 1 then sb_sector else zeroes))"

lemma mk_invI:
  assumes "img_ok s" "length bs = length files" "length files \<le> 199" "freeinode s = ino (length files)" "unat (freeblock s) = mk_used files" "mk_used files \<le> 2000"
    "\<And>b. unat (freeblock s) \<le> unat b \<Longrightarrow> unat b < 2000 \<Longrightarrow> sect s b = zeroes"
    "\<And>i. i < length files \<Longrightarrow> file_at s (ino i) (files ! i) (bs ! i)"
    "\<And>i j. i < length files \<Longrightarrow> j < length files \<Longrightarrow> i \<noteq> j \<Longrightarrow> owned (bs ! i) \<inter> owned (bs ! j) = {}"
    "\<Union> (set (map owned bs)) = {b. 46 \<le> unat b \<and> unat b < unat (freeblock s)}"
    "\<And>i. unat i < 208 \<Longrightarrow> i = 0 \<or> length files < unat i \<Longrightarrow> get_inode s i = zero_dinode"
    "\<And>b. unat b < 32 \<Longrightarrow> sect s b = (if b = 1 then sb_sector else zeroes)"
  shows "mk_inv s files bs"
  unfolding mk_inv_def by (intro conjI allI impI; (rule assms; blast)?) 

lemma mk_invD:
  assumes "mk_inv s files bs"
  shows "img_ok s" "length bs = length files" "length files \<le> 199" "freeinode s = ino (length files)" "unat (freeblock s) = mk_used files" "mk_used files \<le> 2000"
    "\<And>b. unat (freeblock s) \<le> unat b \<Longrightarrow> unat b < 2000 \<Longrightarrow> sect s b = zeroes"
    "\<And>i. i < length files \<Longrightarrow> file_at s (ino i) (files ! i) (bs ! i)"
    "\<And>i j. i < length files \<Longrightarrow> j < length files \<Longrightarrow> i \<noteq> j \<Longrightarrow> owned (bs ! i) \<inter> owned (bs ! j) = {}"
    "\<Union> (set (map owned bs)) = {b. 46 \<le> unat b \<and> unat b < unat (freeblock s)}"
    "\<And>i. unat i < 208 \<Longrightarrow> i = 0 \<or> length files < unat i \<Longrightarrow> get_inode s i = zero_dinode"
    "\<And>b. unat b < 32 \<Longrightarrow> sect s b = (if b = 1 then sb_sector else zeroes)"
  using assms unfolding mk_inv_def by blast+

lemma file_at_cong:
  assumes f: "file_at s i f b" and "get_inode s' i = get_inode s i" "img_ok s'" "unat (freeblock s) \<le> unat (freeblock s')" "unat (freeblock s') \<le> 2000"
    and "\<And>c. unat (freeblock s') \<le> unat c \<Longrightarrow> unat c < 2000 \<Longrightarrow> sect s' c = zeroes" and k: "\<And>c. c \<in> owned b \<Longrightarrow> sect s' c = sect s c"
  shows "file_at s' i f b"
proof -
  have "data_ok s' (get_inode s i) (fst b) (snd b)"
  proof -
    have "file_rep (sect s') (get_inode s i) (fst b) (snd b)"
      using f k file_rep_cong [of "snd b" "sect s'" "sect s"] by (simp add: file_at_def Let_def data_ok_def owned_def own_def)
    then show ?thesis using f assms(3-6) by (force simp: file_at_def Let_def data_ok_def)
  qed
  moreover have "holds (sect s') (fst b) (snd f)"
    using f k holds_cong [of "fst b" "sect s'" "sect s"] by (simp add: file_at_def Let_def owned_def own_def)
  ultimately show ?thesis using f assms(2) by (simp add: file_at_def Let_def)
qed

lemma file_at_owned:
  "file_at s i f b \<Longrightarrow> c \<in> owned b \<Longrightarrow> 46 \<le> unat c \<and> unat c < unat (freeblock s)"
  by (auto simp: file_at_def Let_def data_ok_def owned_def)

lemma ialloc_mkfs_ok:
  assumes "io_ok io" and inv: "mk_inv s files bs" and n: "length files < 199"
  shows "\<exists>s'. ialloc_mkfs io t s = Ret (ino (length files), s') \<and> mk_inv s' (files @ [(t, [])]) (bs @ [([], 0)])"
proof -
  let ?i = "ino (length files)" let ?d = "zero_dinode\<lparr>d_type := t, d_nlink := 1, d_size := 0\<rparr>"
  let ?s = "s\<lparr>freeinode := ?i + 1\<rparr>"
  have i: "unat ?i = length files + 1" using n by simp
  have len: "length (d_addrs ?d) = 13" by (simp add: zero_dinode_def NDIRECT_def)
  obtain s' where w: "winode io ?i ?d ?s = Ret ((), s')" "img_ok s'" "freeblock s' = freeblock s" "freeinode s' = ?i + 1"
      "\<And>j. unat j < 208 \<Longrightarrow> get_inode s' j = (if j = ?i then ?d else get_inode s j)" "\<And>b. b \<noteq> iblk ?i \<Longrightarrow> sect s' b = sect s b"
  proof (rule winode_ok [OF assms(1) _ _ len, of ?s ?i])
    show "img_ok ?s" "unat ?i < 208" using inv n by (simp_all add: mk_inv_def)
  qed simp
  have run: "ialloc_mkfs io t s = Ret (?i, s')"
    using w(1) inv by (simp add: ialloc_mkfs_def kM_simps mk_inv_def)
  have ib: "32 \<le> unat (iblk ?i)" "unat (iblk ?i) < 45" using unat_iblk [of ?i] i n by simp_all
  have keep: "sect s' b = sect s b" if "46 \<le> unat b \<or> unat b < 32" for b using w(6) [of b] ib that by force
  have z: "sect s' b = zeroes" if "unat (freeblock s') \<le> unat b" "unat b < 2000" for b
    using keep [of b] that inv w(3) by (simp add: mk_inv_def mk_used_def)
  have ne: "ino j \<noteq> ?i" if "j < length files" for j using that n by simp
  have "file_at s' (ino j) (files ! j) (bs ! j)" if j: "j < length files" for j
  proof (rule file_at_cong)
    show f: "file_at s (ino j) (files ! j) (bs ! j)" using inv j by (simp add: mk_inv_def)
    show "get_inode s' (ino j) = get_inode s (ino j)" using ne [OF j] j n by (subst w(5)) simp_all
    show "sect s' c = sect s c" if "c \<in> owned (bs ! j)" for c using file_at_owned [OF f that] keep by simp
  qed (use w inv z in \<open>simp_all add: mk_inv_def\<close>)
  moreover have "file_at s' ?i (t, []) ([], 0)"
  proof -
    have "data_ok s' ?d [] 0" using w(2,3) z inv
      by (auto simp: data_ok_def file_rep_def own_def zero_dinode_def NDIRECT_def nth_append mk_inv_def mk_used_def)
    then show ?thesis using w(5) [of ?i] i n by (simp add: file_at_def zero_dinode_def span_def holds_def)
  qed
  ultimately have fs: "file_at s' (ino j) ((files @ [(t, [])]) ! j) ((bs @ [([], 0)]) ! j)" if "j < length (files @ [(t, [])])" for j
    using that mk_invD(2) [OF inv] by (auto simp: less_Suc_eq nth_append)
  have e: "owned ([], 0) = {}" "mk_used (files @ [(t, [])]) = mk_used files" by (simp_all add: owned_def own_def mk_used_def span_def blocks_of_def)
  have "mk_inv s' (files @ [(t, [])]) (bs @ [([], 0)])"
  proof (rule mk_invI)
    show "owned ((bs @ [([], 0)]) ! j) \<inter> owned ((bs @ [([], 0)]) ! k) = {}"
      if "j < length (files @ [(t, [])])" "k < length (files @ [(t, [])])" "j \<noteq> k" for j k
      using that mk_invD(2,9) [OF inv] by (auto simp: less_Suc_eq nth_append e)
    show "get_inode s' j = zero_dinode" if "unat j < 208" "j = 0 \<or> length (files @ [(t, [])]) < unat j" for j
    proof -
      have "j \<noteq> ?i" "j = 0 \<or> length files < unat j" using that i by auto
      then show ?thesis using w(5) that(1) mk_invD(11) [OF inv] by simp
    qed
    show "sect s' b = (if b = 1 then sb_sector else zeroes)" if "unat b < 32" for b using keep that mk_invD(12) [OF inv] by simp
    show "\<Union> (set (map owned (bs @ [([], 0)]))) = {b. 46 \<le> unat b \<and> unat b < unat (freeblock s')}"
      using mk_invD(10) [OF inv] w(3) e(1) by simp
  qed (use w(2-4) z fs n e(2) mk_invD(2,5,6) [OF inv] ino_Suc in simp_all)
  then show ?thesis using run by blast
qed


lemma data_ok_cong:
  assumes "data_ok s d bl ind" "d_addrs d' = d_addrs d" "img_ok s'" "freeblock s' = freeblock s" "\<And>b. 46 \<le> unat b \<Longrightarrow> sect s' b = sect s b"
  shows "data_ok s' d' bl ind"
proof -
  have "file_rep (sect s') d' bl ind = file_rep (sect s) d bl ind"
    using assms(1,5) file_rep_addrs [OF assms(2)] by (subst file_rep_cong [of ind "sect s'" "sect s"]) (auto simp: data_ok_def own_def)
  then show ?thesis using assms by (auto simp: data_ok_def)
qed

lemma Union_update: "i < length xs \<Longrightarrow> xs ! i \<union> N = x \<Longrightarrow> \<Union> (set (xs[i := x])) = \<Union> (set xs) \<union> N"
proof (induction xs arbitrary: i)
  case (Cons a xs)
  then show ?case by (cases i) auto
qed simp

lemma mk_used_update:
  assumes "i < length files" "files ! i = (t, c)" "length c \<le> length c'"
  shows "mk_used (files[i := (t', c')]) = mk_used files + (blocks_of (span (length c')) - blocks_of (span (length c)))"
proof -
  let ?w = "\<lambda>f :: u16 \<times> u8 list. blocks_of (span (length (snd f)))"
  have "?w (files ! i) \<le> sum_list (map ?w files)" using elem_le_sum_list [of i "map ?w files"] assms(1) by simp
  moreover have "blocks_of (span (length c)) \<le> blocks_of (span (length c'))" using assms(3) by (intro blocks_of_mono span_mono)
  ultimately show ?thesis using assms by (simp add: mk_used_def map_update sum_list_update)
qed

text \<open>What the loop of \<open>iappend\<close> on the inode \<open>i\<close> leaves for the write of the inode: the inodes and the blocks
  of the other files are as before.\<close>

lemma extended_others:
  assumes inv: "mk_inv s files bs" and i: "i < length files" and e: "extended s d (fst (bs ! i)) (snd (bs ! i)) s1 d1 bl1 ind1"
  shows "unat b < 46 \<Longrightarrow> sect s1 b = sect s b" "unat j < 208 \<Longrightarrow> get_inode s1 j = get_inode s j"
    "k < length files \<Longrightarrow> k \<noteq> i \<Longrightarrow> b \<in> owned (bs ! k) \<Longrightarrow> sect s1 b = sect s b"
    "k < length files \<Longrightarrow> k \<noteq> i \<Longrightarrow> owned (bs ! k) \<inter> own bl1 ind1 = {}"
proof -
  have f: "file_at s (ino i) (files ! i) (bs ! i)" by (rule mk_invD(8) [OF inv i])
  show low: "sect s1 b = sect s b" if "unat b < 46" for b
  proof -
    have "unat b < unat (freeblock s)" using that mk_invD(5) [OF inv] by (simp add: mk_used_def)
    moreover have "b \<notin> own (fst (bs ! i)) (snd (bs ! i))" using file_at_owned [OF f, of b] that by (auto simp: owned_def)
    ultimately show ?thesis using e by (simp add: extended_def)
  qed
  show "get_inode s1 j = get_inode s j" if "unat j < 208" for j using low [of "iblk j"] unat_iblk(2) [OF that] by (simp add: get_inode_def)
  assume k: "k < length files" "k \<noteq> i"
  have o: "unat b < unat (freeblock s) \<and> b \<notin> own (fst (bs ! i)) (snd (bs ! i))" if "b \<in> owned (bs ! k)" for b
    using that file_at_owned [OF mk_invD(8) [OF inv k(1)] that] mk_invD(9) [OF inv k(1) i k(2)] by (auto simp: owned_def)
  show "sect s1 b = sect s b" if "b \<in> owned (bs ! k)" for b using o [OF that] e by (simp add: extended_def)
  have "own bl1 ind1 = own (fst (bs ! i)) (snd (bs ! i)) \<union> {b. unat (freeblock s) \<le> unat b \<and> unat b < unat (freeblock s1)}"
    using e by (simp add: extended_def)
  then show "owned (bs ! k) \<inter> own bl1 ind1 = {}" using o by force
qed

lemma mk_inv_append:
  assumes inv: "mk_inv s files bs" and i: "i < length files" "files ! i = (t, c)"
    and e: "extended s d (fst (bs ! i)) (snd (bs ! i)) s1 d1 bl1 ind1" "length bl1 = span (length c + length p)" "holds (sect s1) bl1 (c @ p)"
    and d: "d = get_inode s (ino i)" and len: "length c + length p \<le> 268 * 1024" and sp: "mk_used (files[i := (t, c @ p)]) \<le> 2000"
    and w: "img_ok s'" "freeblock s' = freeblock s1" "freeinode s' = freeinode s1" "\<And>b. b \<noteq> iblk (ino i) \<Longrightarrow> sect s' b = sect s1 b"
      "\<And>j. unat j < 208 \<Longrightarrow> get_inode s' j = (if j = ino i then d1\<lparr>d_size := of_nat (length c + length p)\<rparr> else get_inode s1 j)"
  shows "mk_inv s' (files[i := (t, c @ p)]) (bs[i := (bl1, ind1)])"
proof (rule mk_invI)
  note oth = extended_others [OF inv i(1) e(1)]
  have il: "unat (ino i) < 208" "i < 199" using i(1) mk_invD(3) [OF inv] by simp_all
  have f: "file_at s (ino i) (files ! i) (bs ! i)" by (rule mk_invD(8) [OF inv i(1)])
  have ok: "data_ok s1 d1 bl1 ind1" using e(1) by (simp add: extended_def)
  have keep: "sect s' b = sect s1 b" if "46 \<le> unat b \<or> unat b < 32" for b using w(4) [of b] unat_iblk [OF il(1)] that by force
  show fb: "unat (freeblock s') = mk_used (files[i := (t, c @ p)])"
    using e(1,2) f i mk_used_update [OF i, of "c @ p" t] mk_invD(5) [OF inv] w(2) by (simp add: extended_def file_at_def Let_def)
  show z: "sect s' b = zeroes" if "unat (freeblock s') \<le> unat b" "unat b < 2000" for b
    using ok keep [of b] that w(2) by (simp add: data_ok_def)
  have mono: "unat (freeblock s) \<le> unat (freeblock s')" using e(1) w(2) by (simp add: extended_def)
  show "file_at s' (ino k) (files[i := (t, c @ p)] ! k) (bs[i := (bl1, ind1)] ! k)" if "k < length (files[i := (t, c @ p)])" for k
  proof (cases "k = i")
    case True
    have "d1 = d\<lparr>d_addrs := d_addrs d1\<rparr>" using e(1) by (simp add: extended_def)
    then obtain a where "d1 = d\<lparr>d_addrs := a\<rparr>" by blast
    then have dd: "d_type d1 = d_type d" "d_major d1 = d_major d" "d_minor d1 = d_minor d" "d_nlink d1 = d_nlink d" by simp_all
    have "data_ok s' (d1\<lparr>d_size := of_nat (length c + length p)\<rparr>) bl1 ind1"
      using keep w(1,2) by (intro data_ok_cong [OF ok]) simp_all
    moreover have "holds (sect s') bl1 (c @ p)"
      using e(3) ok keep by (subst holds_cong [of bl1 "sect s'" "sect s1"]) (auto simp: data_ok_def own_def)
    ultimately show ?thesis using True f i w(5) [OF il(1)] dd d e(2) len mk_invD(2) [OF inv] by (simp add: file_at_def Let_def)
  next
    case False
    have k: "k < length files" "k < 199" using that mk_invD(3) [OF inv] by simp_all
    have "file_at s' (ino k) (files ! k) (bs ! k)"
    proof (rule file_at_cong)
      show g: "file_at s (ino k) (files ! k) (bs ! k)" by (rule mk_invD(8) [OF inv k(1)])
      show "get_inode s' (ino k) = get_inode s (ino k)" using False k il w(5) oth(2) by simp
      show "sect s' b = sect s b" if "b \<in> owned (bs ! k)" for b using file_at_owned [OF g that] keep [of b] oth(3) [OF k(1) False that] by simp
    qed (use w(1) mono fb sp z in simp_all)
    then show ?thesis using False by simp
  qed
  have o: "owned (bs ! i) \<union> {b. unat (freeblock s) \<le> unat b \<and> unat b < unat (freeblock s')} = owned (bl1, ind1)"
    using e(1) w(2) by (simp add: extended_def owned_def)
  show "owned (bs[i := (bl1, ind1)] ! k) \<inter> owned (bs[i := (bl1, ind1)] ! j) = {}"
    if "k < length (files[i := (t, c @ p)])" "j < length (files[i := (t, c @ p)])" "k \<noteq> j" for k j
    using that oth(4) [of k] oth(4) [of j] mk_invD(9) [OF inv, of k j] mk_invD(2) [OF inv] i(1)
    by (auto simp: nth_list_update owned_def split: if_splits)
  have "\<Union> (set (map owned (bs[i := (bl1, ind1)])))
      = {b. 46 \<le> unat b \<and> unat b < unat (freeblock s)} \<union> {b. unat (freeblock s) \<le> unat b \<and> unat b < unat (freeblock s')}"
    unfolding map_update using i(1) o mk_invD(2) [OF inv] by (subst Union_update) (simp_all only: mk_invD(10) [OF inv] length_map nth_map)
  also have "\<dots> = {b. 46 \<le> unat b \<and> unat b < unat (freeblock s')}"
    using mk_invD(5) [OF inv] mono by (intro between_join) (simp_all add: mk_used_def)
  finally show "\<Union> (set (map owned (bs[i := (bl1, ind1)]))) = {b. 46 \<le> unat b \<and> unat b < unat (freeblock s')}" .
  show "get_inode s' j = zero_dinode" if "unat j < 208" "j = 0 \<or> length (files[i := (t, c @ p)]) < unat j" for j
  proof -
    have "unat j = Suc i" if "j = ino i" using that il by simp
    then have "j \<noteq> ino i" using that(2) i(1) by auto
    then show ?thesis using that w(5) oth(2) mk_invD(11) [OF inv that(1)] by auto
  qed
  show "sect s' b = (if b = 1 then sb_sector else zeroes)" if "unat b < 32" for b
    using that keep [of b] oth(1) [of b] mk_invD(12) [OF inv that] by simp
  show "freeinode s' = ino (length (files[i := (t, c @ p)]))" using e(1) w(3) mk_invD(4) [OF inv] by (simp add: extended_def)
qed (use w(1) sp mk_invD(2,3) [OF inv] in simp_all)

text \<open>Appending refines the append on the file's bytes.\<close>

lemma iappend_ok:
  assumes "io_ok io" and inv: "mk_inv s files bs" and i: "i < length files" "files ! i = (t, c)"
    and len: "length c + length p \<le> 268 * 1024" and sp: "mk_used (files[i := (t, c @ p)]) \<le> 2000"
  shows "\<exists>s' b. iappend io (ino i) p s = Ret ((), s') \<and> mk_inv s' (files[i := (t, c @ p)]) (bs[i := b])"
proof -
  define d bl ind where "d = get_inode s (ino i)" and "bl = fst (bs ! i)" and "ind = snd (bs ! i)"
  have il: "unat (ino i) < 208" "i < 199" using i(1) mk_invD(3) [OF inv] by simp_all
  have f: "file_at s (ino i) (files ! i) (bs ! i)" by (rule mk_invD(8) [OF inv i(1)])
  then have d: "data_ok s d bl ind" "length bl = span (length c)" "holds (sect s) bl c" "d_size d = of_nat (length c)"
      "d_type d = t" "d_major d = 0" "d_minor d = 0" "d_nlink d = 1"
    using i(2) by (simp_all add: file_at_def Let_def d_def bl_def ind_def)
  have w: "unat (d_size d) = length c" using len by (simp add: d(4) unat_of_nat)
  note mu = mk_used_update [OF i, of "c @ p" t]
  have "unat (freeblock s) + (blocks_of (span (length c + length p)) - blocks_of (length bl)) \<le> 2000"
    using mu sp mk_invD(5) [OF inv] d(2) by simp
  from iappend_loop_ok [OF assms(1) d(1,2,3) refl w len this order_refl] obtain d1 bl1 ind1 s1 where l:
    "iappend_loop (length p) io p (d_size d) d s = Ret ((of_nat (length c + length p), d1), s1)" "extended s d bl ind s1 d1 bl1 ind1"
    "length bl1 = span (length c + length p)" "holds (sect s1) bl1 (c @ p)" by blast
  have e: "data_ok s1 d1 bl1 ind1" using l(2) by (simp add: extended_def)
  let ?d = "d1\<lparr>d_size := of_nat (length c + length p)\<rparr>"
  have "img_ok s1" "length (d_addrs ?d) = 13" using e by (simp_all add: data_ok_def file_rep_def)
  from winode_ok [OF assms(1) this(1) il(1) this(2)] obtain s' where w:
    "winode io (ino i) ?d s1 = Ret ((), s')" "img_ok s'" "freeblock s' = freeblock s1" "freeinode s' = freeinode s1"
    "\<And>j. unat j < 208 \<Longrightarrow> get_inode s' j = (if j = ino i then ?d else get_inode s1 j)" "\<And>b. b \<noteq> iblk (ino i) \<Longrightarrow> sect s' b = sect s1 b" by blast
  have run: "iappend io (ino i) p s = Ret ((), s')"
    using l(1) w(1) rinode_ok [OF assms(1) mk_invD(1) [OF inv] il(1)] by (simp add: iappend_def kM_simps d_def)
  have "mk_inv s' (files[i := (t, c @ p)]) (bs[i := (bl1, ind1)])"
    using w(2-6) by (intro mk_inv_append [OF inv i l(2) [unfolded bl_def ind_def] l(3,4) d_def len sp])
  then show ?thesis using run by blast
qed


section \<open>The whole image\<close>

lemma bmap_bit_bit: "bmap_bit bs bi \<longleftrightarrow> bit (bs ! (bi div 8)) (bi mod 8)"
  by (auto simp: bmap_bit_def bit_iff_and_push_bit_not_eq_0)

lemma bmap_bit_set:
  assumes "bi < 8192" "b < 8192" "length bs = 1024"
  shows "bmap_bit (bmap_set bi bs) b \<longleftrightarrow> b = bi \<or> bmap_bit bs b"
proof -
  have "b mod 8 < LENGTH(8)" by simp
  moreover have "b = bi \<longleftrightarrow> b div 8 = bi div 8 \<and> b mod 8 = bi mod 8" by (metis mult_div_mod_eq)
  ultimately show ?thesis
    using assms by (auto simp: bmap_bit_bit bmap_set_def nth_list_update bit_or_iff bit_push_bit_iff bit_exp_iff)
qed

lemma bmap_fold:
  assumes "n \<le> 8192" "b < 8192"
  shows "length (fold bmap_set [0..<n] zeroes) = 1024 \<and> (bmap_bit (fold bmap_set [0..<n] zeroes) b \<longleftrightarrow> b < n)"
  using assms(1)
proof (induction n)
  case 0
  then show ?case using assms(2) by (simp add: zeroes_def BSIZE_def bmap_bit_bit)
next
  case (Suc n)
  moreover have "length (bmap_set n bs) = length bs" for bs by (simp add: bmap_set_def)
  ultimately show ?case using assms(2) by (auto simp: bmap_bit_set less_Suc_eq)
qed

lemma decode_layout: "decode_superblock sb_sector = layout"
  by (simp add: sb_sector_def superblock_bytes_def put_bytes_def decode_superblock_def get32_def le_word_bytes)

lemma get16_zeroes: "k + 2 \<le> 1024 \<Longrightarrow> get16 zeroes k = 0"
proof -
  assume "k + 2 \<le> 1024"
  then have "take 2 (drop k zeroes) = replicate 2 0" by (simp add: zeroes_def mk_consts)
  moreover have "le_word (replicate 2 0) = (0 :: u16)" by (simp add: numeral_eq_Suc)
  ultimately show ?thesis by (simp add: get16_def)
qed

lemma decode_zeroes: "decode_dinode zeroes (inode_off i) = zero_dinode"
proof -
  have "inode_off i + 64 \<le> 1024" by (simp add: inode_off_def mk_consts)
  then show ?thesis
    by (simp add: decode_dinode_def zero_dinode_def get16_zeroes get32_zeroes NDIRECT_def map_replicate_trivial [symmetric] del: upt_Suc)
qed

lemma wsect_all:
  "io_ok io \<Longrightarrow> n \<le> 2000 \<Longrightarrow> mk_img s = [] \<Longrightarrow> for_each [0..<n] (\<lambda>i. wsect io (of_nat i) zeroes) s = Ret ((), s\<lparr>mk_img := replicate n zeroes\<rparr>)"
proof (induction n)
  case 0
  then show ?case by (simp add: kM_simps)
next
  case (Suc n)
  then show ?case
    by (simp add: for_each_append kM_simps wsect_def sector_eq unat_of_nat io_ok_def Let_def replicate_append_same [symmetric])
qed

lemma mk_inv_start:
  assumes "img_ok s" "mk_img s = (replicate 2000 zeroes)[1 := sb_sector]" "freeinode s = 1" "freeblock s = 46"
  shows "mk_inv s [] []"
proof (rule mk_invI)
  have sect: "sect s b = (if b = 1 then sb_sector else zeroes)" if "unat b < 2000" for b
    using that assms(2) by (simp add: sect_def nth_list_update word_unat_eq_iff)
  show "sect s b = zeroes" if "unat (freeblock s) \<le> unat b" "unat b < 2000" for b using sect [OF that(2)] that(1) assms(4) by auto
  show "sect s b = (if b = 1 then sb_sector else zeroes)" if "unat b < 32" for b using sect [of b] that by simp
  show "get_inode s i = zero_dinode" if "unat i < 208" for i
  proof -
    have "unat (iblk i) < 2000" "iblk i \<noteq> 1" using unat_iblk [OF that] by auto
    then show ?thesis using sect by (simp add: get_inode_def decode_zeroes)
  qed
qed (use assms in \<open>simp_all add: ino_def mk_used_def\<close>)


text \<open>The files of the finished image: the root directory, with an entry for each argument, and the
  arguments' files in order.\<close>

definition entry_name :: "u8 list \<Rightarrow> u8 list" where
  "entry_name arg = (let nm = shortname arg in if nm \<noteq> [] \<and> hd nm = of_char CHR ''_'' then tl nm else nm)"

definition dirent_of :: "nat \<Rightarrow> u8 list \<Rightarrow> u8 list" where
  "dirent_of i nm = encode_dirent \<lparr>de_inum = of_nat (Suc i), de_name = dirent_name nm\<rparr>"

definition root_dir :: "u8 list list \<Rightarrow> u8 list" where
  "root_dir args = dirent_of 0 [of_char CHR ''.''] @ dirent_of 0 [of_char CHR ''.'', of_char CHR ''.'']
    @ concat (map (\<lambda>(i, a). dirent_of (Suc i) (entry_name a)) (enumerate 0 args))"

definition img_files :: "(u8 list \<Rightarrow> u8 list) \<Rightarrow> u8 list list \<Rightarrow> (u16 \<times> u8 list) list" where
  "img_files dat args = (T_DIR, root_dir args) # map (\<lambda>a. (T_FILE, dat a)) args"

lemma length_dirent_of [simp]: "length (dirent_of i nm) = 16"
  by (simp add: dirent_of_def encode_dirent_def dirent_name_def DIRSIZ_def)

lemma root_dir_snoc: "root_dir (args @ [a]) = root_dir args @ dirent_of (Suc (length args)) (entry_name a)"
  by (simp add: root_dir_def enumerate_append_eq)

lemma length_root_dir: "length (root_dir args) = 16 * (length args + 2)"
  by (induction args rule: rev_induct) (simp_all add: root_dir_snoc, simp add: root_dir_def)

lemma add_dirent_eq: "i < 1000 \<Longrightarrow> add_dirent io r (ino i) nm = iappend io r (dirent_of i nm)"
  by (simp add: add_dirent_def dirent_of_def ino_def unsigned_of_nat take_bit_nat_eq_self del: of_nat_Suc)

lemma mk_used_append: "mk_used (files @ fs) = mk_used files + sum_list (map (\<lambda>f. blocks_of (span (length (snd f)))) fs)"
  by (simp add: mk_used_def)

text \<open>The loop over the pieces that \<^verbatim>\<open>read\<close> returns.\<close>

lemma iappend_all:
  assumes "io_ok io"
  shows "mk_inv s files bs \<Longrightarrow> i < length files \<Longrightarrow> files ! i = (t, c) \<Longrightarrow> length c + length (concat cs) \<le> 268 * 1024
    \<Longrightarrow> mk_used (files[i := (t, c @ concat cs)]) \<le> 2000
    \<Longrightarrow> \<exists>s' bs'. for_each cs (iappend io (ino i)) s = Ret ((), s') \<and> mk_inv s' (files[i := (t, c @ concat cs)]) bs'"
proof (induction cs arbitrary: s files bs c)
  case Nil
  then have "files[i := (t, c)] = files" by (metis list_update_id)
  then show ?case using Nil by (auto simp: kM_simps)
next
  case (Cons p cs)
  note prems = Cons.prems
  have "mk_used (files[i := (t, c @ p)]) \<le> mk_used (files[i := (t, c @ concat (p # cs))])"
    using mk_used_update [OF prems(2,3), of "c @ p" t] mk_used_update [OF prems(2,3), of "c @ concat (p # cs)" t]
      blocks_of_mono [OF span_mono, of "length (c @ p)" "length (c @ concat (p # cs))"] by simp
  then obtain s1 b where s1: "iappend io (ino i) p s = Ret ((), s1)" "mk_inv s1 (files[i := (t, c @ p)]) (bs[i := b])"
    using iappend_ok [OF assms prems(1,2,3), of p] prems(4,5) by fastforce
  have "\<exists>s' bs'. for_each cs (iappend io (ino i)) s1 = Ret ((), s') \<and> mk_inv s' ((files[i := (t, c @ p)])[i := (t, (c @ p) @ concat cs)]) bs'"
    using prems by (intro Cons.IH [OF s1(2)]) simp_all
  then show ?case using s1(1) by (simp add: kM_simps)
qed


lemma mk_used_img:
  "mk_used (img_files dat args) = 46 + blocks_of (span (16 * (length args + 2))) + sum_list (map (\<lambda>a. blocks_of (span (length (dat a)))) args)"
  by (simp add: mk_used_def img_files_def length_root_dir comp_def)

lemma mkfs_file_ok:
  assumes "io_ok io" and inv: "mk_inv s (img_files dat args) bs" and n: "length args < 198"
    and a: "of_char CHR ''/'' \<notin> set (shortname a)" "reads a = Some cs" "dat a = concat cs" "length (dat a) \<le> 268 * 1024"
    and sp: "mk_used (img_files dat (args @ [a])) \<le> 2000"
  shows "\<exists>s' bs'. mkfs_file io reads (ino 0) a s = Ret ((), s') \<and> mk_inv s' (img_files dat (args @ [a])) bs'"
proof -
  let ?f = "img_files dat args" let ?i = "Suc (length args)"
  have len: "length ?f = ?i" by (simp add: img_files_def)
  from ialloc_mkfs_ok [OF assms(1) inv, of T_FILE] n len obtain s1 where
    s1: "ialloc_mkfs io T_FILE s = Ret (ino ?i, s1)" "mk_inv s1 (?f @ [(T_FILE, [])]) (bs @ [([], 0)])" by auto
  have e0: "(?f @ [(T_FILE, [])]) ! 0 = (T_DIR, root_dir args)" by (simp add: img_files_def)
  have f2: "(?f @ [(T_FILE, [])])[0 := (T_DIR, root_dir args @ dirent_of ?i (entry_name a))]
      = (T_DIR, root_dir (args @ [a])) # map (\<lambda>a. (T_FILE, dat a)) args @ [(T_FILE, [])]"
    by (simp add: img_files_def root_dir_snoc)
  have "mk_used ((?f @ [(T_FILE, [])])[0 := (T_DIR, root_dir args @ dirent_of ?i (entry_name a))]) \<le> 2000"
    unfolding f2 using sp by (simp add: img_files_def mk_used_def span_def blocks_of_def comp_def split: if_splits)
  from iappend_ok [OF assms(1) s1(2) _ e0 _ this] n obtain s2 b where
    s2: "iappend io (ino 0) (dirent_of ?i (entry_name a)) s1 = Ret ((), s2)"
      "mk_inv s2 ((T_DIR, root_dir (args @ [a])) # map (\<lambda>a. (T_FILE, dat a)) args @ [(T_FILE, [])]) ((bs @ [([], 0)])[0 := b])"
    unfolding f2 by (auto simp: length_root_dir)
  let ?g = "(T_DIR, root_dir (args @ [a])) # map (\<lambda>a. (T_FILE, dat a)) args @ [(T_FILE, [])]"
  have g: "?g ! ?i = (T_FILE, [])" "?g[?i := (T_FILE, [] @ concat cs)] = img_files dat (args @ [a])"
    by (simp_all add: nth_append list_update_append img_files_def a(3))
  from iappend_all [OF assms(1) s2(2) _ g(1), of cs] sp a(3,4) obtain s3 bs3 where
    s3: "for_each cs (iappend io (ino ?i)) s2 = Ret ((), s3)" "mk_inv s3 (img_files dat (args @ [a])) bs3"
    unfolding g(2) by auto
  have "mkfs_file io reads (ino 0) a s = Ret ((), s3)"
    using a(1,2) s1(1) s2(1) s3(1) n by (simp add: mkfs_file_def Let_def kM_simps add_dirent_eq entry_name_def)
  then show ?thesis using s3(2) by blast
qed

lemma mkfs_files_ok:
  assumes "io_ok io"
  shows "mk_inv s (img_files dat args) bs \<Longrightarrow> length args + length rest \<le> 198 \<Longrightarrow> mk_used (img_files dat (args @ rest)) \<le> 2000
    \<Longrightarrow> (\<And>a. a \<in> set rest \<Longrightarrow> of_char CHR ''/'' \<notin> set (shortname a) \<and> (\<exists>cs. reads a = Some cs \<and> dat a = concat cs) \<and> length (dat a) \<le> 268 * 1024)
    \<Longrightarrow> \<exists>s' bs'. for_each rest (mkfs_file io reads (ino 0)) s = Ret ((), s') \<and> mk_inv s' (img_files dat (args @ rest)) bs'"
proof (induction rest arbitrary: s args bs)
  case Nil
  then show ?case by (auto simp: kM_simps)
next
  case (Cons a rest)
  note prems = Cons.prems
  have "mk_used (img_files dat (args @ [a])) \<le> mk_used (img_files dat (args @ a # rest))"
    unfolding mk_used_img using blocks_of_mono [OF span_mono, of "16 * (length (args @ [a]) + 2)" "16 * (length (args @ a # rest) + 2)"] by simp
  moreover obtain cs where "reads a = Some cs" "dat a = concat cs" "length (dat a) \<le> 268 * 1024" "of_char CHR ''/'' \<notin> set (shortname a)"
    using prems(4) [of a] by auto
  ultimately obtain s1 bs1 where s1: "mkfs_file io reads (ino 0) a s = Ret ((), s1)" "mk_inv s1 (img_files dat (args @ [a])) bs1"
    using mkfs_file_ok [OF assms prems(1), of a reads cs] prems(2,3) by auto
  have "\<exists>s' bs'. for_each rest (mkfs_file io reads (ino 0)) s1 = Ret ((), s') \<and> mk_inv s' (img_files dat ((args @ [a]) @ rest)) bs'"
    using prems(2-4) by (intro Cons.IH [OF s1(2)]) simp_all
  then show ?case using s1(1) by (simp add: kM_simps)
qed


text \<open>What a reader of the image finds: the block for block number \<open>f\<close> of a file, all blocks an inode names,
  and the bytes of a file.\<close>

definition file_block :: "(u32 \<Rightarrow> u8 list) \<Rightarrow> dinode \<Rightarrow> nat \<Rightarrow> u32" where
  "file_block D d f = (if f < 12 then d_addrs d ! f else get32 (D (d_addrs d ! 12)) (4 * (f - 12)))"

definition inode_blocks :: "(u32 \<Rightarrow> u8 list) \<Rightarrow> dinode \<Rightarrow> u32 list" where
  "inode_blocks D d = filter (\<lambda>b. b \<noteq> 0) (d_addrs d @ (if d_addrs d ! 12 = 0 then [] else map (\<lambda>f. get32 (D (d_addrs d ! 12)) (4 * f)) [0..<256]))"

definition read_file :: "(u32 \<Rightarrow> u8 list) \<Rightarrow> dinode \<Rightarrow> u8 list" where
  "read_file D d = take (unat (d_size d)) (concat (map (\<lambda>f. D (file_block D d f)) [0..<span (unat (d_size d))]))"

lemma file_block_eq:
  assumes "file_rep D d bl ind" "f < length bl" shows "file_block D d f = bl ! f"
proof (cases "f < 12")
  case False
  then have "get32 (D ind) (4 * (f - 12)) = bl ! (f - 12 + 12)" "d_addrs d ! 12 = ind" using assms by (auto simp: file_rep_def)
  then show ?thesis using False by (simp add: file_block_def)
qed (use assms in \<open>auto simp: file_rep_def file_block_def\<close>)

lemma filter_padded:
  "0 \<notin> set xs \<Longrightarrow> length xs \<le> n \<Longrightarrow> filter (\<lambda>b. b \<noteq> 0) (map (\<lambda>f. if f < length xs then xs ! f else (0 :: u32)) [0..<n]) = xs"
proof -
  assume a: "0 \<notin> set xs" "length xs \<le> n"
  have "map (\<lambda>f. if f < length xs then xs ! f else (0 :: u32)) [0..<n] = xs @ replicate (n - length xs) 0"
    using a(2) by (intro nth_equalityI) (auto simp: nth_append)
  moreover have "filter (\<lambda>b. b \<noteq> 0) xs = xs" using a(1) by (auto simp: filter_id_conv)
  ultimately show ?thesis by simp
qed

lemma inode_blocks_eq:
  assumes r: "file_rep D d bl ind" and z: "0 \<notin> set bl"
  shows "inode_blocks D d = take 12 bl @ (if ind = 0 then [] else ind # drop 12 bl)"
proof -
  have "d_addrs d = map (\<lambda>f. if f < length (take 12 bl) then take 12 bl ! f else 0) [0..<12] @ [ind]"
    (is "_ = ?as")
  proof (rule nth_equalityI)
    show "length (d_addrs d) = length ?as" using r by (simp add: file_rep_def)
    fix i assume "i < length (d_addrs d)"
    then have "i < 12 \<or> i = 12" using r by (auto simp: file_rep_def)
    then show "d_addrs d ! i = ?as ! i" using r by (auto simp: file_rep_def nth_append)
  qed
  moreover have z2: "0 \<notin> set (take 12 bl)" "0 \<notin> set (drop 12 bl)" using z by (auto dest: in_set_takeD in_set_dropD)
  ultimately have d: "filter (\<lambda>b. b \<noteq> 0) (d_addrs d) = take 12 bl @ (if ind = 0 then [] else [ind])"
    using filter_padded [OF z2(1), of 12] by simp
  have l: "d_addrs d ! 12 = ind" "length (drop 12 bl) \<le> 256" using r by (auto simp: file_rep_def)
  have "filter (\<lambda>b. b \<noteq> 0) (map (\<lambda>f. get32 (D ind) (4 * f)) [0..<256]) = drop 12 bl" if "ind \<noteq> 0"
  proof -
    have "map (\<lambda>f. get32 (D ind) (4 * f)) [0..<256] = map (\<lambda>f. if f < length (drop 12 bl) then drop 12 bl ! f else 0) [0..<256]"
      using r that by (intro map_cong refl) (auto simp: file_rep_def add.commute)
    then show ?thesis by (simp only: filter_padded [OF z2(2) l(2)])
  qed
  then show ?thesis using d l(1) by (simp add: inode_blocks_def)
qed

lemma data_ok_inode_blocks:
  assumes "data_ok s d bl ind" shows "set (inode_blocks (sect s) d) = own bl ind" "distinct (inode_blocks (sect s) d)"
proof -
  have z: "0 \<notin> set bl" "file_rep (sect s) d bl ind" "distinct bl" "ind \<notin> set bl" "ind = 0 \<Longrightarrow> length bl \<le> 12"
    using assms by (auto simp: data_ok_def own_def file_rep_def dest: bspec [of _ _ 0])
  have "set (take 12 bl) \<union> set (drop 12 bl) = set bl" by (metis append_take_drop_id set_append)
  then show "set (inode_blocks (sect s) d) = own bl ind" using z(5) by (auto simp: inode_blocks_eq [OF z(2,1)] own_def)
  have "distinct (take 12 bl @ drop 12 bl)" using z(3) by simp
  then show "distinct (inode_blocks (sect s) d)"
    unfolding inode_blocks_eq [OF z(2,1)] distinct_append using z(4) by (auto dest: in_set_takeD in_set_dropD)
qed

lemma file_at_read:
  assumes "file_at s i f b" shows "read_file (sect s) (get_inode s i) = snd f"
proof -
  let ?d = "get_inode s i"
  have f: "d_size ?d = of_nat (length (snd f))" "length (snd f) \<le> 268 * 1024" "file_rep (sect s) ?d (fst b) (snd b)"
      "length (fst b) = span (length (snd f))" "holds (sect s) (fst b) (snd f)"
    using assms by (simp_all add: file_at_def Let_def data_ok_def)
  have "unat (d_size ?d) = length (snd f)" using f(1,2) by (simp add: unat_of_nat)
  moreover have "map (\<lambda>k. sect s (file_block (sect s) ?d k)) [0..<length (fst b)] = map (sect s) (fst b)"
    using file_block_eq [OF f(3)] by (intro nth_equalityI) simp_all
  ultimately show ?thesis using f(4,5) by (simp add: read_file_def holds_def)
qed


text \<open>What the finished image promises the kernel: the super block at sector 1, an empty log, inodes 1 to
  \<open>n + 1\<close> for the root directory and the files, all others free, no block in two places, and a bitmap that marks exactly the
  blocks before the data area and the blocks of the files.\<close>

definition image_ok :: "(u32 \<Rightarrow> u8 list) \<Rightarrow> (u8 list \<Rightarrow> u8 list) \<Rightarrow> u8 list list \<Rightarrow> bool" where
  "image_ok D dat args \<longleftrightarrow>
    (let n = length args; I = (\<lambda>i. decode_dinode (D (IBLOCK i layout)) (inode_off i)); B = (\<lambda>i. inode_blocks D (I (ino i))) in
     decode_superblock (D 1) = layout \<and> D (sb_logstart layout) = zeroes
     \<and> (\<forall>i<n. let d = I (ino (Suc i)) in d_type d = T_FILE \<and> d_nlink d = 1 \<and> unat (d_size d) = length (dat (args ! i)) \<and> read_file D d = dat (args ! i)
         \<and> (\<exists>bl ind. file_rep D d bl ind \<and> 0 \<notin> set bl \<and> length bl = span (length (dat (args ! i)))))
     \<and> d_type (I ROOTINO) = T_DIR \<and> d_nlink (I ROOTINO) = 1 \<and> unat (d_size (I ROOTINO)) = (16 * (n + 2) div 1024 + 1) * 1024
     \<and> ((n + 2) mod 64 \<noteq> 0 \<longrightarrow> read_file D (I ROOTINO) = root_dir args @ replicate (unat (d_size (I ROOTINO)) - 16 * (n + 2)) 0)
     \<and> ((n + 2) mod 64 = 0 \<longrightarrow> file_block D (I ROOTINO) (16 * (n + 2) div 1024) = 0)
     \<and> (\<forall>i. n + 1 < unat i \<and> unat i < 208 \<longrightarrow> d_type (I i) = 0)
     \<and> (\<forall>i\<le>n. distinct (B i) \<and> (\<forall>b\<in>set (B i). 46 \<le> unat b \<and> unat b < 2000) \<and> (\<forall>j\<le>n. i \<noteq> j \<longrightarrow> set (B i) \<inter> set (B j) = {}))
     \<and> (\<forall>b<2000. bmap_bit (D (sb_bmapstart layout)) b \<longleftrightarrow> b < 46 \<or> (\<exists>i\<le>n. of_nat b \<in> set (B i))))"

lemma root_dir_rounded:
  assumes r: "file_rep D d bl ind" "length bl = span (length c)" "holds D bl c" and w: "unat (d_size d) = (length c div 1024 + 1) * 1024" and c: "length c < 12 * 1024"
  shows "length c mod 1024 \<noteq> 0 \<Longrightarrow> read_file D d = c @ replicate (unat (d_size d) - length c) 0"
    "length c mod 1024 = 0 \<Longrightarrow> file_block D d (length c div 1024) = 0"
proof -
  show "read_file D d = c @ replicate (unat (d_size d) - length c) 0" if "length c mod 1024 \<noteq> 0"
  proof -
    have l: "length bl = length c div 1024 + 1" "span (unat (d_size d)) = length c div 1024 + 1" using that r(2) w by (simp_all add: span_cases)
    have "map (\<lambda>k. D (file_block D d k)) [0..<length bl] = map D bl"
      using file_block_eq [OF r(1)] by (intro nth_equalityI) simp_all
    then have "read_file D d = take (unat (d_size d)) (c @ replicate (1024 * length bl - length c) 0)"
      using r(3) l by (simp add: read_file_def holds_def)
    moreover have "1024 * length bl = unat (d_size d)" using l(1) w by simp
    moreover have "length c \<le> unat (d_size d)" using w dividend_less_times_div [of 1024 "length c"] by simp
    ultimately show ?thesis by simp
  qed
  show "file_block D d (length c div 1024) = 0" if "length c mod 1024 = 0"
    using that r(1,2) c by (auto simp: span_cases file_rep_def file_block_def)
qed

lemma sint_small: "unat (w :: u32) < 2 ^ 31 \<Longrightarrow> sint w = int (unat w)"
proof -
  assume a: "unat w < 2 ^ 31"
  define n where "n = unat w"
  have "w = of_nat n" "n < 2 ^ 31" using a by (simp_all add: n_def)
  then have "sint w = int n" by (simp add: signed_of_nat signed_take_bit_int_eq_self)
  then show ?thesis by (simp only: n_def)
qed

lemma img_bits:
  assumes inv: "mk_inv s files bs" and B: "\<And>i. i < length files \<Longrightarrow> set (B i) = owned (bs ! i)" and b: "b < 2000"
  shows "b < unat (freeblock s) \<longleftrightarrow> b < 46 \<or> (\<exists>i<length files. of_nat b \<in> set (B i))"
proof -
  have u: "unat (of_nat b :: u32) = b" using b by (simp add: unat_of_nat)
  have "\<Union> (set (map owned bs)) = (\<Union>i<length files. owned (bs ! i))" using mk_invD(2) [OF inv] by (auto simp: set_conv_nth [of bs])
  then have "(\<exists>i<length files. of_nat b \<in> set (B i)) \<longleftrightarrow> of_nat b \<in> \<Union> (set (map owned bs))" using B by auto
  also have "\<dots> \<longleftrightarrow> 46 \<le> b \<and> b < unat (freeblock s)" unfolding mk_invD(10) [OF inv] by (simp add: u)
  finally show ?thesis using mk_invD(5) [OF inv] by (auto simp: mk_used_def)
qed

text \<open>The image once the size of the root directory is rounded up and the bitmap written.\<close>

lemma mkfs_image:
  assumes inv: "mk_inv s (img_files dat args) bs" and d: "d = (get_inode s (ino 0))\<lparr>d_size := w\<rparr>"
    and w: "unat w = (16 * (length args + 2) div 1024 + 1) * 1024" and s': "img_ok s'" "freeblock s' = freeblock s"
    and inode: "\<And>j. unat j < 208 \<Longrightarrow> get_inode s' j = (if j = ino 0 then d else get_inode s j)"
    and keep: "\<And>b. 46 \<le> unat b \<or> unat b < 32 \<Longrightarrow> sect s' b = sect s b"
    and bits: "\<And>b. b < 2000 \<Longrightarrow> bmap_bit (sect s' 45) b \<longleftrightarrow> b < unat (freeblock s)"
  shows "image_ok (sect s') dat args"
proof -
  let ?f = "img_files dat args" let ?n = "length args"
  have n: "length ?f = Suc ?n" "?n \<le> 198" "?f ! 0 = (T_DIR, root_dir args)" "\<And>i. i < ?n \<Longrightarrow> ?f ! Suc i = (T_FILE, dat (args ! i))"
    using mk_invD(3) [OF inv] by (simp_all add: img_files_def)
  have fb: "46 \<le> unat (freeblock s')" "unat (freeblock s') \<le> 2000" using mk_invD(5,6) [OF inv] s'(2) by (simp_all add: mk_used_def)
  have f: "file_at s (ino i) (?f ! i) (bs ! i)" if "i \<le> ?n" for i using mk_invD(8) [OF inv] that n(1) by simp
  have cong: "file_at s' j g b" if "file_at s j g b" "get_inode s' j = get_inode s j" for j g b
  proof (rule file_at_cong [OF that s'(1)])
    show "sect s' c = sect s c" if "c \<in> owned b" for c using file_at_owned [OF \<open>file_at s j g b\<close> that] keep by simp
    show "sect s' c = zeroes" if "unat (freeblock s') \<le> unat c" "unat c < 2000" for c
      using mk_invD(7) [OF inv, of c] keep [of c] that s'(2) fb(1) by simp
  qed (use s'(2) fb(2) in simp_all)
  have fs: "file_at s' (ino i) (?f ! i) (bs ! i)" if "0 < i" "i \<le> ?n" for i
    using that n(2) inode by (intro cong [OF f [OF that(2)]]) simp
  have root: "data_ok s' d (fst (bs ! 0)) (snd (bs ! 0))" "length (fst (bs ! 0)) = span (length (root_dir args))" "holds (sect s') (fst (bs ! 0)) (root_dir args)"
      "d_type d = T_DIR" "d_nlink d = 1" "d_size d = w"
  proof -
    have g: "file_at s (ino 0) (T_DIR, root_dir args) (bs ! 0)" using f [of 0] n(3) by simp
    show "length (fst (bs ! 0)) = span (length (root_dir args))" "d_type d = T_DIR" "d_nlink d = 1" "d_size d = w"
      using g by (simp_all add: file_at_def Let_def d)
    have "data_ok s (get_inode s (ino 0)) (fst (bs ! 0)) (snd (bs ! 0))" using g by (simp add: file_at_def Let_def)
    then show "data_ok s' d (fst (bs ! 0)) (snd (bs ! 0))" by (rule data_ok_cong) (simp_all add: d s' keep)
    show "holds (sect s') (fst (bs ! 0)) (root_dir args)"
      using g file_at_owned [OF g] keep holds_cong [of "fst (bs ! 0)" "sect s'" "sect s"] by (simp add: file_at_def Let_def owned_def own_def)
  qed
  have i0: "get_inode s' (ino 0) = d" using inode [of "ino 0"] by simp
  have B: "set (inode_blocks (sect s') (get_inode s' (ino i))) = owned (bs ! i) \<and> distinct (inode_blocks (sect s') (get_inode s' (ino i)))
      \<and> (\<forall>b\<in>owned (bs ! i). 46 \<le> unat b \<and> unat b < 2000)"
    if "i \<le> ?n" for i
  proof (cases "i = 0")
    case True
    then show ?thesis using data_ok_inode_blocks [OF root(1)] i0 root(1) by (auto simp: owned_def data_ok_def)
  next
    case False
    then have "data_ok s' (get_inode s' (ino i)) (fst (bs ! i)) (snd (bs ! i))" using fs that by (simp add: file_at_def Let_def)
    from data_ok_inode_blocks [OF this] this show ?thesis by (auto simp: owned_def data_ok_def)
  qed
  have I: "decode_dinode (sect s' (IBLOCK i layout)) (inode_off i) = get_inode s' i" for i by (simp add: get_inode_def IBLOCK_layout)
  have R: "ROOTINO = ino 0" "sb_logstart layout = 2" "sb_bmapstart layout = 45" by (simp_all add: ROOTINO_def ino_def layout_def mk_consts)
  have files: "let e = get_inode s' (ino (Suc i)) in d_type e = T_FILE \<and> d_nlink e = 1 \<and> unat (d_size e) = length (dat (args ! i)) \<and> read_file (sect s') e = dat (args ! i)
      \<and> (\<exists>bl ind. file_rep (sect s') e bl ind \<and> 0 \<notin> set bl \<and> length bl = span (length (dat (args ! i))))"
    if "i < ?n" for i
  proof -
    have g: "file_at s' (ino (Suc i)) (T_FILE, dat (args ! i)) (bs ! Suc i)" using fs [of "Suc i"] n(4) that by simp
    then have "file_rep (sect s') (get_inode s' (ino (Suc i))) (fst (bs ! Suc i)) (snd (bs ! Suc i))" "0 \<notin> set (fst (bs ! Suc i))"
        "length (fst (bs ! Suc i)) = span (length (dat (args ! i)))"
      using file_at_owned [OF g, of 0] by (auto simp: file_at_def Let_def data_ok_def owned_def own_def)
    then show ?thesis using g file_at_read [OF g] by (auto simp: file_at_def Let_def unat_of_nat)
  qed
  have free: "d_type (get_inode s' i) = 0" if "?n + 1 < unat i" "unat i < 208" for i
  proof -
    have "i \<noteq> ino 0" "length ?f < unat i" using that n(1) by auto
    then show ?thesis using inode [OF that(2)] mk_invD(11) [OF inv that(2)] by (simp add: zero_dinode_def)
  qed
  have lr: "length (root_dir args) = 16 * (?n + 2)" "16 * (?n + 2) mod 1024 = 16 * ((?n + 2) mod 64)" "16 * (?n + 2) < 12 * 1024"
    using n(2) mult_mod_right [of 16 "?n + 2" 64] by (simp_all add: length_root_dir)
  have "file_rep (sect s') d (fst (bs ! 0)) (snd (bs ! 0))" using root(1) by (simp add: data_ok_def)
  note rd = root_dir_rounded [OF this root(2,3), unfolded lr(1) lr(2) root(6), OF w lr(3)]
  have "i \<noteq> j \<Longrightarrow> i \<le> ?n \<Longrightarrow> j \<le> ?n \<Longrightarrow> owned (bs ! i) \<inter> owned (bs ! j) = {}" for i j using mk_invD(9) [OF inv] n(1) by simp
  moreover have "sect s' 1 = sb_sector" "sect s' 2 = zeroes" using keep mk_invD(12) [OF inv] by simp_all
  moreover have "bmap_bit (sect s' 45) b \<longleftrightarrow> b < 46 \<or> (\<exists>i\<le>?n. of_nat b \<in> set (inode_blocks (sect s') (get_inode s' (ino i))))" if "b < 2000" for b
    using bits [OF that] img_bits [OF inv, of "\<lambda>i. inode_blocks (sect s') (get_inode s' (ino i))" b] that B n(1) by (simp add: less_Suc_eq_le)
  ultimately show ?thesis
    unfolding image_ok_def Let_def I R i0 root(4-6) using files free B w rd decode_layout by (simp add: Let_def)
qed

text \<open>The end of \<^verbatim>\<open>main\<close>.\<close>

lemma mkfs_finish:
  assumes "io_ok io" and inv: "mk_inv s (img_files dat args) bs" and d: "d = (get_inode s (ino 0))\<lparr>d_size := w\<rparr>"
    and w: "unat w = (16 * (length args + 2) div 1024 + 1) * 1024"
  shows "\<exists>s'. seq (winode io (ino 0) d) (bind (gets freeblock) (\<lambda>n. balloc_mkfs io (sint n))) s = Ret ((), s') \<and> image_ok (sect s') dat args"
proof -
  have "0 < length (img_files dat args)" by (simp add: img_files_def)
  from mk_invD(8) [OF inv this] have "unat (ino 0) < 208" "length (d_addrs d) = 13"
    by (simp_all add: file_at_def Let_def data_ok_def file_rep_def d)
  then obtain s1 where s1: "winode io (ino 0) d s = Ret ((), s1)" "img_ok s1" "freeblock s1 = freeblock s" "freeinode s1 = freeinode s"
    "\<And>j. unat j < 208 \<Longrightarrow> get_inode s1 j = (if j = ino 0 then d else get_inode s j)" "\<And>b. b \<noteq> iblk (ino 0) \<Longrightarrow> sect s1 b = sect s b"
    by (rule winode_ok [OF assms(1) mk_invD(1) [OF inv]]) simp
  define m where "m = unat (freeblock s)"
  have m: "m \<le> 2000" "sint (freeblock s) = int m"
    using mk_invD(5,6) [OF inv] sint_small [of "freeblock s"] by (simp_all add: m_def)
  let ?map = "fold bmap_set [0..<m] zeroes" let ?s = "set_sect 45 ?map s1"
  have b45: "sb_bmapstart (mk_sb s1) = 45" using s1(2) by (simp add: img_ok_def layout_def mk_consts)
  have run: "seq (winode io (ino 0) d) (bind (gets freeblock) (\<lambda>n. balloc_mkfs io (sint n))) s = Ret ((), ?s)"
    using s1(1-3) m assms(1) b45 by (simp add: kM_simps balloc_mkfs_def Let_def BSIZE_def wsect_ok)
  have sect: "sect ?s b = (if b = 45 then ?map else sect s1 b)" for b using s1(2) by simp
  have "image_ok (sect ?s) dat args"
  proof (rule mkfs_image [OF inv d w])
    show "img_ok ?s" using s1(2) bmap_fold [of m 0] m(1) by simp
    show "get_inode ?s j = (if j = ino 0 then d else get_inode s j)" if "unat j < 208" for j
      using unat_iblk(2) [OF that] s1(5) [OF that] by (auto simp: get_inode_def sect)
    show "sect ?s b = sect s b" if "46 \<le> unat b \<or> unat b < 32" for b
    proof -
      have "b \<noteq> 45" "b \<noteq> iblk (ino 0)" using that by (auto simp: iblk_def ino_def)
      then show ?thesis using s1(6) by (simp add: sect)
    qed
    show "bmap_bit (sect ?s 45) b \<longleftrightarrow> b < unat (freeblock s)" if "b < 2000" for b using bmap_fold [of m b] m(1) that unfolding sect m_def [symmetric] by simp
  qed (simp add: s1(3))
  then show ?thesis using run by blast
qed

text \<open>\<^verbatim>\<open>main\<close> up to the root directory with its two first entries.\<close>

lemma mkfs_start:
  assumes "io_ok io" "freeinode s = 1"
  shows "\<exists>s' bs. seq (modify (\<lambda>s. s\<lparr>mk_img := [], mk_sb := layout, freeblock := of_nat nmeta\<rparr>))
      (seq (for_each [0..<FSSIZE] (\<lambda>i. wsect io (of_nat i) zeroes)) (seq (wsect io 1 sb_sector) (ialloc_mkfs io T_DIR))) s = Ret (ino 0, s')
    \<and> mk_inv s' [(T_DIR, [])] bs"
proof -
  let ?s = "s\<lparr>mk_img := replicate 2000 zeroes, mk_sb := layout, freeblock := 46\<rparr>"
  let ?s1 = "set_sect 1 sb_sector ?s"
  have z: "length zeroes = 1024" "length sb_sector = 1024"
    by (simp_all add: zeroes_def BSIZE_def sb_sector_def put_bytes_def superblock_bytes_def)
  have i: "img_ok ?s" "img_ok ?s1" using z by (auto simp: img_ok_def set_sect_def dest: subsetD [OF set_update_subset_insert])
  have "mk_inv ?s1 [] []" using i(2) assms(2) by (intro mk_inv_start) (simp_all add: set_sect_def)
  from ialloc_mkfs_ok [OF assms(1) this, of T_DIR] obtain s' where
    "ialloc_mkfs io T_DIR ?s1 = Ret (ino 0, s')" "mk_inv s' [(T_DIR, [])] [([], 0)]" by auto
  moreover have "of_nat nmeta = (46 :: u32)" by (simp add: mk_consts)
  moreover have "for_each [0..<FSSIZE] (\<lambda>i. wsect io (of_nat i) zeroes) (s\<lparr>mk_img := [], mk_sb := layout, freeblock := 46\<rparr>) = Ret ((), ?s)"
    using wsect_all [OF assms(1), of 2000 "s\<lparr>mk_img := [], mk_sb := layout, freeblock := 46\<rparr>"] by (simp add: FSSIZE_def)
  ultimately show ?thesis using i(1) assms(1) by (auto simp: kM_simps wsect_ok)
qed


lemma root_dir_Nil: "root_dir [] = dirent_of 0 [of_char CHR ''.''] @ dirent_of 0 [of_char CHR ''.'', of_char CHR ''.'']"
  by (simp add: root_dir_def)

lemma mkfs_root:
  assumes "io_ok io" "mk_inv s [(T_DIR, [])] bs"
  shows "\<exists>s1 s2 bs'. add_dirent io (ino 0) (ino 0) [of_char CHR ''.''] s = Ret ((), s1)
    \<and> add_dirent io (ino 0) (ino 0) [of_char CHR ''.'', of_char CHR ''.''] s1 = Ret ((), s2) \<and> mk_inv s2 (img_files dat []) bs'"
proof -
  let ?d1 = "dirent_of 0 [of_char CHR ''.'']" and ?d2 = "dirent_of 0 [of_char CHR ''.'', of_char CHR ''.'']"
  obtain s1 b1 where s1: "iappend io (ino 0) ?d1 s = Ret ((), s1)" "mk_inv s1 [(T_DIR, ?d1)] (bs[0 := b1])"
    using iappend_ok [OF assms, of 0 T_DIR "[]" ?d1] by (auto simp: mk_used_def span_def blocks_of_def)
  obtain s2 b2 where s2: "iappend io (ino 0) ?d2 s1 = Ret ((), s2)" "mk_inv s2 [(T_DIR, ?d1 @ ?d2)] ((bs[0 := b1])[0 := b2])"
    using iappend_ok [OF assms(1) s1(2), of 0 T_DIR ?d1 ?d2] by (auto simp: mk_used_def span_def blocks_of_def)
  then show ?thesis using s1(1) by (auto simp: add_dirent_eq img_files_def root_dir_Nil)
qed

lemma mkfs_ok:
  assumes io: "io_ok io" and s: "freeinode s = 1" and argc: "2 \<le> length argv" "length argv \<le> 200"
    and files: "\<forall>a\<in>set (drop 2 argv). of_char CHR ''/'' \<notin> set (shortname a) \<and> reads a = Some (chunks a) \<and> length (concat (chunks a)) \<le> MAXFILE * BSIZE"
    and space: "mk_used (img_files (\<lambda>a. concat (chunks a)) (drop 2 argv)) \<le> FSSIZE"
  shows "\<exists>s'. mkfs_main io reads True argv s = Ret ((), s') \<and> image_ok (sect s') (\<lambda>a. concat (chunks a)) (drop 2 argv)"
proof -
  define dat where "dat = (\<lambda>a. concat (chunks a))"
  let ?args = "drop 2 argv"
  obtain s0 bs0 where s0: "seq (modify (\<lambda>s. s\<lparr>mk_img := [], mk_sb := layout, freeblock := of_nat nmeta\<rparr>))
      (seq (for_each [0..<FSSIZE] (\<lambda>i. wsect io (of_nat i) zeroes)) (seq (wsect io 1 sb_sector) (ialloc_mkfs io T_DIR))) s = Ret (ino 0, s0)"
      "mk_inv s0 [(T_DIR, [])] bs0" using mkfs_start [OF io s] by blast
  obtain s1 s2 bs2 where s2: "add_dirent io (ino 0) (ino 0) [of_char CHR ''.''] s0 = Ret ((), s1)"
      "add_dirent io (ino 0) (ino 0) [of_char CHR ''.'', of_char CHR ''.''] s1 = Ret ((), s2)" "mk_inv s2 (img_files dat []) bs2"
    using mkfs_root [OF io s0(2)] by blast
  have "a \<in> set ?args \<Longrightarrow> of_char CHR ''/'' \<notin> set (shortname a) \<and> (\<exists>cs. reads a = Some cs \<and> dat a = concat cs) \<and> length (dat a) \<le> 268 * 1024" for a
    using files by (auto simp: dat_def MAXFILE_def NDIRECT_def NINDIRECT_def BSIZE_def)
  moreover have n: "length ?args \<le> 198" using argc by simp
  ultimately obtain s3 bs3 where s3: "for_each ?args (mkfs_file io reads (ino 0)) s2 = Ret ((), s3)" "mk_inv s3 (img_files dat ?args) bs3"
    using mkfs_files_ok [OF io s2(3), of ?args reads] space by (auto simp: dat_def FSSIZE_def)
  have "0 < length (img_files dat ?args)" "img_files dat ?args ! 0 = (T_DIR, root_dir ?args)" by (simp_all add: img_files_def)
  then have sz: "d_size (get_inode s3 (ino 0)) = of_nat (16 * (length ?args + 2))" "rinode io (ino 0) s3 = Ret (get_inode s3 (ino 0), s3)"
    using mk_invD(8) [OF s3(2), of 0] mk_invD(1) [OF s3(2)] io by (simp_all add: file_at_def Let_def length_root_dir rinode_ok)
  let ?w = "(d_size (get_inode s3 (ino 0)) div of_nat BSIZE + 1) * of_nat BSIZE :: u32"
  have "unat ?w = (16 * (length ?args + 2) div 1024 + 1) * 1024"
  proof -
    define k where "k = 16 * (length ?args + 2)"
    have "k \<le> 3200" using n by (simp add: k_def)
    then have "unat ((of_nat k :: u32) div 1024) = k div 1024" "k div 1024 \<le> 3" by (simp_all add: unat_div unat_of_nat)
    then show ?thesis unfolding sz(1) k_def [symmetric] by (simp add: BSIZE_def unat_word_ariths)
  qed
  from mkfs_finish [OF io s3(2) refl this] obtain s' where
    fin: "seq (winode io (ino 0) ((get_inode s3 (ino 0))\<lparr>d_size := ?w\<rparr>)) (bind (gets freeblock) (\<lambda>n. balloc_mkfs io (sint n))) s3 = Ret ((), s')"
      "image_ok (sect s') dat ?args" by blast
  have R: "ROOTINO = ino 0" by (simp add: ROOTINO_def ino_def)
  have "mkfs_main io reads True argv s = Ret ((), s')"
    using argc s0(1) s2(1,2) s3(1) sz(2) fin(1) by (auto simp: mkfs_main_def sb_sector_def R BSIZE_def Let_def kM_simps split: outcome.splits)
  then show ?thesis using fin(2) by (auto simp: dat_def)
qed


text \<open>C5. \<^verbatim>\<open>mkfs\<close> builds a sound image. Run on at most 198 files that can be read, have no slash in their short names, are no larger than
  the largest file and fit on the disk together, with a host on which every transfer succeeds, it
  ends without a failed assertion, and the image has the layout's super block, an empty log, the root directory with the entries
  \<^verbatim>\<open>.\<close>, \<^verbatim>\<open>..\<close> and one for each file, every file with exactly its bytes, all other inodes free, no block in two places, and a bitmap that
  marks exactly the metadata and the blocks of the files. The size of the root directory is rounded up, past its last block when the number of
  entries is a multiple of 64.\<close>

theorem mkfs_builds_image:
  assumes io: "io_ok io" and s: "freeinode s = 1" and argc: "2 \<le> length argv" "length argv \<le> 200"
    and files: "\<forall>a\<in>set (drop 2 argv). of_char CHR ''/'' \<notin> set (shortname a) \<and> reads a = Some (chunks a) \<and> length (concat (chunks a)) \<le> MAXFILE * BSIZE"
    and space: "mk_used (img_files (\<lambda>a. concat (chunks a)) (drop 2 argv)) \<le> FSSIZE"
  shows "\<exists>s'. mkfs_main io reads True argv s = Ret ((), s') \<and> image_ok (sect s') (\<lambda>a. concat (chunks a)) (drop 2 argv)"
  using mkfs_ok [OF assms] .

theorem mkfs_builds_image_witness:
  "\<exists>s'. mkfs_main (\<lambda>_. True) (\<lambda>_. Some [[1, 2], [3]]) True [[], [], map of_char ''user/_cat'']
      \<lparr>mk_img = [], mk_sb = layout, freeinode = 1, freeblock = 0\<rparr> = Ret ((), s')
    \<and> image_ok (sect s') (\<lambda>_. [1, 2, 3]) [map of_char ''user/_cat'']"
  using mkfs_builds_image [of "\<lambda>_. True" "\<lparr>mk_img = [], mk_sb = layout, freeinode = 1, freeblock = 0\<rparr>" "[[], [], map of_char ''user/_cat'']"
      "\<lambda>_. Some [[1, 2], [3]]" "\<lambda>_. [[1, 2], [3]]"]
  by (simp add: io_ok_def shortname_def mk_used_img span_def blocks_of_def FSSIZE_def MAXFILE_def NDIRECT_def BSIZE_def)


end
