(* ===== verification/Inode.thy ===== *)
theory Inode
  imports Mkfs
begin

text \<open>The inode layer of \<^verbatim>\<open>kernel/fs.c\<close> over the buffer cache and the log. \<open>fsv\<close> is the view a file system
  operation has of the disk: the blocks \<open>L\<close> as the cache shows them, the blocks \<open>ho\<close> of the open transaction and the
  blocks \<open>H\<close> whose buffers the operation holds. On it stand the block allocator, the block map of an inode and the reading
  and writing of its contents.\<close>

section \<open>The view of an operation\<close>

definition refs :: "u32 list \<Rightarrow> u32 set \<Rightarrow> u32 \<Rightarrow> nat" where
  "refs ho H b = (if b \<in> set ho then 1 else 0) + (if b \<in> H then 1 else 0)"

definition fsv :: "nat \<Rightarrow> int \<Rightarrow> u32 \<Rightarrow> 'z dstate_scheme \<Rightarrow> u32 list \<Rightarrow> u32 set \<Rightarrow> (u32 \<Rightarrow> u8 list) \<Rightarrow> bool" where
  "fsv p pid dv s ho H L \<longleftrightarrow> store p pid dv s (refs ho H) H L \<and> log_at dv (lg_start (log s)) ho (log s) \<and> distinct ho \<and> finite H \<and>
    (\<forall>b. b \<notin> set ho \<longrightarrow> L b = content s b)"

definition logged :: "u32 list \<Rightarrow> u32 \<Rightarrow> u32 list" where
  "logged ho b = (if b \<in> set ho then ho else ho @ [b])"

text \<open>The open transaction may grow to \<open>n\<close> blocks.\<close>

definition room :: "'z dstate_scheme \<Rightarrow> nat \<Rightarrow> bool" where
  "room s n \<longleftrightarrow> int n \<le> LOGSIZE \<and> int n \<le> lg_size (log s) - 1 \<and> 1 \<le> lg_outstanding (log s)"

text \<open>What the operations leave alone, the inode table apart.\<close>

definition steady :: "'z dstate_scheme \<Rightarrow> 'z dstate_scheme \<Rightarrow> bool" where
  "steady s s' \<longleftrightarrow> sb s' = sb s \<and> content s' = content s \<and> log s' = (log s)\<lparr>lg_lh := lg_lh (log s')\<rparr> \<and> (\<forall>i. slks s' (SInode i) = slks s (SInode i))"

lemma steady_refl [simp]: "steady s s"
  by (simp add: steady_def)

lemma steady_trans: "steady s s' \<Longrightarrow> steady s' s'' \<Longrightarrow> steady s s''"
  unfolding steady_def by (cases "log s"; cases "log s'"; cases "log s''") simp

lemma steady_same: "disk_same s s' \<Longrightarrow> steady s s' \<and> itable s' = itable s"
  by (simp add: steady_def disk_same_def content_def)

lemma steady_room: "steady s s' \<Longrightarrow> room s' n = room s n"
  unfolding steady_def room_def by (cases "log s"; cases "log s'") simp

lemma room_mono: "room s n \<Longrightarrow> m \<le> n \<Longrightarrow> room s m"
  by (simp add: room_def)

lemma steady_start: "steady s s' \<Longrightarrow> lg_start (log s') = lg_start (log s)"
  unfolding steady_def by (cases "log s"; cases "log s'") simp

text \<open>The buffers that are held stay where they are.\<close>

definition keeps :: "u32 \<Rightarrow> u32 set \<Rightarrow> 'z dstate_scheme \<Rightarrow> 'z dstate_scheme \<Rightarrow> bool" where
  "keeps dv H s s' \<longleftrightarrow> (\<forall>c. \<forall>d\<in>H. holds_block dv s c d \<longrightarrow> holds_block dv s' c d)"

lemma keeps_trans: "keeps dv H s s' \<Longrightarrow> keeps dv H s' s'' \<Longrightarrow> keeps dv H s s''"
  by (simp add: keeps_def)

lemma set_logged [simp]: "set (logged ho b) = insert b (set ho)"
  by (auto simp: logged_def)

lemma distinct_logged [simp]: "distinct ho \<Longrightarrow> distinct (logged ho b)"
  by (simp add: logged_def)

lemma used_refs: "used (refs ho H) = set ho \<union> H"
  by (auto simp: refs_def)

lemma fsvD:
  assumes "fsv p pid dv s ho H L"
  shows "store p pid dv s (refs ho H) H L" "log_at dv (lg_start (log s)) ho (log s)" "distinct ho" "finite H" "b \<notin> set ho \<Longrightarrow> L b = content s b"
    "length (L b) = BSIZE"
  using assms store_length unfolding fsv_def by blast+

lemma fsv_bread:
  assumes v: "fsv p pid dv s ho H L" and b: "bno \<notin> H" "length ho + card H < NBUF" and rw: "\<And>b wr. e_rw E b wr = disk_rw b wr"
  shows "\<exists>b s'. bread E dv bno s = Ret (b, s') \<and> fsv p pid dv s' ho (insert bno H) L \<and> disk_same s s' \<and> holds_block dv s' b bno \<and>
    (\<forall>c d. d \<in> set ho \<union> H \<longrightarrow> holds_block dv s c d \<longrightarrow> holds_block dv s' c d)"
proof -
  note D = fsvD [OF v]
  have "card (set ho \<union> H) \<le> length ho + card H" using card_Un_le [of "set ho" H] card_length [of ho] by linarith
  then have c: "0 < refs ho H bno \<or> (finite (used (refs ho H)) \<and> card (used (refs ho H)) < NBUF)" unfolding used_refs using D(4) b(2) by simp
  have "(refs ho H)(bno := Suc (refs ho H bno)) = refs ho (insert bno H)" using b(1) by (auto simp: fun_eq_iff refs_def)
  moreover have "refs ho H bno < 2 ^ 32 - 1" by (simp add: refs_def)
  ultimately obtain b s' where s': "bread E dv bno s = Ret (b, s')" "store p pid dv s' (refs ho (insert bno H)) (insert bno H) L" "disk_same s s'"
      "holds_block dv s' b bno" "\<And>c d. 0 < refs ho H d \<Longrightarrow> holds_block dv s c d \<Longrightarrow> holds_block dv s' c d"
    using bread_store [OF D(1) b(1) c _ rw] by auto
  moreover have "content s' = content s" "log s' = log s" using s'(3) by (simp_all add: disk_same_def content_def)
  ultimately show ?thesis
    using D(2-5) by (intro exI [of _ b] exI [of _ s']) (auto simp: fsv_def refs_def)
qed

lemma fsv_brelse:
  assumes v: "fsv p pid dv s ho H L" and b: "holds_block dv s b bno" "bno \<in> H"
  shows "\<exists>s'. brelse b s = Ret ((), s') \<and> fsv p pid dv s' ho (H - {bno}) L \<and> disk_same s s' \<and>
    (\<forall>c d. holds_block dv s' c d = holds_block dv s c d)"
proof -
  note D = fsvD [OF v]
  have "refs ho H bno = 1 \<Longrightarrow> L bno = content s bno" using D(5) b(2) by (simp add: refs_def split: if_splits)
  from brelse_store [OF D(1) b this] obtain s' where s': "brelse b s = Ret ((), s')" "store p pid dv s' ((refs ho H)(bno := refs ho H bno - 1)) (H - {bno}) L"
      "disk_same s s'" "\<forall>c d. holds_block dv s' c d = holds_block dv s c d" by blast
  moreover have "(refs ho H)(bno := refs ho H bno - 1) = refs ho (H - {bno})" using b(2) by (auto simp: fun_eq_iff refs_def)
  moreover have "content s' = content s" "log s' = log s" using s'(3) by (simp_all add: disk_same_def content_def)
  ultimately show ?thesis using D(2-5) by (intro exI [of _ s']) (simp add: fsv_def)
qed

lemma fsv_log_write:
  assumes v: "fsv p pid dv s ho H L" and b: "holds_block dv s b bno" "bno \<in> H" and r: "room s (Suc (length ho))" and f: "length (f (L bno)) = BSIZE"
  shows "\<exists>s'. log_write b (set_data b f s) = Ret ((), s') \<and> fsv p pid dv s' (logged ho bno) H (L(bno := f (L bno))) \<and> steady s s' \<and>
    itable s' = itable s \<and> (\<forall>c d. holds_block dv s' c d = holds_block dv s c d)"
proof -
  note D = fsvD [OF v]
  let ?s = "set_data b f s" and ?L = "L(bno := f (L bno))"
  have "0 < refs ho H bno" using b(2) by (simp add: refs_def)
  note sd = set_data_store [OF D(1) b(1) this, of f, OF f]
  have same: "log ?s = log s" "content ?s = content s" "sb ?s = sb s" "itable ?s = itable s" "\<forall>i. slks ?s (SInode i) = slks s (SInode i)"
    using sd(2) by (simp_all add: disk_same_def content_def)
  have la: "log_at dv (lg_start (log s)) ho (log ?s)" "holds_block dv ?s b bno" using D(2) sd(3) b(1) same(1) by simp_all
  have rf: "refs ho H bno < 2 ^ 32 - 1" by (simp add: refs_def)
  have cap: "int (length ho) < LOGSIZE" "int (length ho) < lg_size (log ?s) - 1" "1 \<le> lg_outstanding (log ?s)"
    using r same(1) by (simp_all add: room_def)
  obtain s' where s': "log_write b ?s = Ret ((), s')" "log_at dv (lg_start (log s)) (logged ho bno) (log s')"
      "store p pid dv s' (if bno \<in> set ho then refs ho H else (refs ho H)(bno := refs ho H bno + 1)) H ?L" "content s' = content ?s" "kept ?s s'"
      "log s' = (log ?s)\<lparr>lg_lh := lg_lh (log s')\<rparr>" "\<forall>c d. holds_block dv s' c d = holds_block dv ?s c d"
    using log_write_store [OF sd(1) la rf cap] unfolding logged_def by blast
  have "(if bno \<in> set ho then refs ho H else (refs ho H)(bno := refs ho H bno + 1)) = refs (logged ho bno) H"
    using b(2) by (auto simp: fun_eq_iff refs_def)
  moreover have st: "steady s s'" using s'(4-6) same by (simp add: steady_def)
  ultimately have "fsv p pid dv s' (logged ho bno) H ?L"
    using s'(2,3,4) D(3-5) same(2) steady_start [OF st] by (simp add: fsv_def)
  then show ?thesis using s'(1,5,7) sd(3) same st by (intro exI [of _ s']) simp
qed

text \<open>Reading a block, and changing one in the transaction.\<close>

lemma fsv_read:
  assumes "fsv p pid dv s ho H L" "bno \<notin> H" "length ho + card H < NBUF" and rw: "\<And>b wr. e_rw E b wr = disk_rw b wr"
  shows "\<exists>s1 s' b. bread E dv bno s = Ret (b, s1) \<and> b_data (bufs s1 b) = L bno \<and> disk_same s s1 \<and> brelse b s1 = Ret ((), s') \<and>
    fsv p pid dv s' ho H L \<and> disk_same s s'"
proof -
  obtain b s1 where s1: "bread E dv bno s = Ret (b, s1)" "fsv p pid dv s1 ho (insert bno H) L" "disk_same s s1" "holds_block dv s1 b bno"
    using fsv_bread [OF assms(1-3) rw] by blast
  moreover obtain s' where "brelse b s1 = Ret ((), s')" "fsv p pid dv s' ho (insert bno H - {bno}) L" "disk_same s1 s'"
    using fsv_brelse [OF s1(2,4)] by blast
  moreover have "insert bno H - {bno} = H" using assms(2) by auto
  ultimately show ?thesis using store_data(1) [OF fsvD(1) [OF s1(2)] s1(4)] by (auto simp: disk_same_def)
qed

lemma fsv_update:
  assumes "fsv p pid dv s ho H L" "bno \<notin> H" "length ho + card H < NBUF" "room s (Suc (length ho))" "length (f (L bno)) = BSIZE"
    and rw: "\<And>b wr. e_rw E b wr = disk_rw b wr"
  shows "\<exists>s1 s2 s' b. bread E dv bno s = Ret (b, s1) \<and> b_data (bufs s1 b) = L bno \<and> disk_same s s1 \<and> log_write b (set_data b f s1) = Ret ((), s2) \<and>
    brelse b s2 = Ret ((), s') \<and> fsv p pid dv s' (logged ho bno) H (L(bno := f (L bno))) \<and> steady s s' \<and> itable s' = itable s \<and> keeps dv H s s'"
proof -
  obtain b s1 where s1: "bread E dv bno s = Ret (b, s1)" "fsv p pid dv s1 ho (insert bno H) L" "disk_same s s1" "holds_block dv s1 b bno" "keeps dv H s s1"
    unfolding keeps_def
    using fsv_bread [OF assms(1-3) rw] by blast
  have r: "room s1 (Suc (length ho))" using assms(4) steady_room steady_same [OF s1(3)] by blast
  obtain s2 where s2: "log_write b (set_data b f s1) = Ret ((), s2)" "fsv p pid dv s2 (logged ho bno) (insert bno H) (L(bno := f (L bno)))" "steady s1 s2"
      "itable s2 = itable s1" "holds_block dv s2 b bno" "keeps dv H s1 s2"
    unfolding keeps_def using fsv_log_write [OF s1(2,4) _ r, of f] assms(5) s1(4) by blast
  obtain s' where s': "brelse b s2 = Ret ((), s')" "fsv p pid dv s' (logged ho bno) (insert bno H - {bno}) (L(bno := f (L bno)))" "disk_same s2 s'" "keeps dv H s2 s'"
    unfolding keeps_def using fsv_brelse [OF s2(2,5)] by blast
  have "insert bno H - {bno} = H" using assms(2) by auto
  moreover have "steady s s'" "itable s' = itable s"
    using steady_trans [OF steady_trans] steady_same [OF s1(3)] s2(3,4) steady_same [OF s'(3)] by auto
  moreover have "keeps dv H s s'" using keeps_trans [OF keeps_trans [OF s1(5) s2(6)] s'(4)] .
  ultimately show ?thesis
    using s1(1,3) s2(1) s'(1,2) store_data(1) [OF fsvD(1) [OF s1(2)] s1(4)] by (intro exI [of _ s1] exI [of _ s2] exI [of _ s'] exI [of _ b]) simp
qed

section \<open>The block allocator\<close>

text \<open>A file system with one bitmap block, as \<open>mkfs\<close> builds it.\<close>

definition one_bitmap :: "superblock \<Rightarrow> bool" where
  "one_bitmap b \<longleftrightarrow> 0 < unat (sb_size b) \<and> unat (sb_size b) \<le> BPB"

definition first_free :: "superblock \<Rightarrow> (u32 \<Rightarrow> u8 list) \<Rightarrow> nat option" where
  "first_free b L = find (\<lambda>bi. \<not> bmap_bit (L (sb_bmapstart b)) bi) [0..<unat (sb_size b)]"

lemma bzero_ok:
  assumes "fsv p pid dv s ho H L" "bno \<notin> H" "length ho + card H < NBUF" "room s (Suc (length ho))" and rw: "\<And>b wr. e_rw E b wr = disk_rw b wr"
  shows "\<exists>s'. bzero E dv bno s = Ret ((), s') \<and> fsv p pid dv s' (logged ho bno) H (L(bno := zeroes)) \<and> steady s s' \<and> itable s' = itable s \<and> keeps dv H s s'"
proof -
  obtain s1 s2 s' b where "bread E dv bno s = Ret (b, s1)" "log_write b (set_data b (\<lambda>_. zeroes) s1) = Ret ((), s2)" "brelse b s2 = Ret ((), s')"
      "fsv p pid dv s' (logged ho bno) H (L(bno := zeroes))" "steady s s'" "itable s' = itable s" "keeps dv H s s'"
    using fsv_update [OF assms(1-4), of "\<lambda>_. zeroes", OF _ rw] by (auto simp: zeroes_def)
  then show ?thesis by (intro exI [of _ s']) (simp add: bzero_def kM_simps zeroes_def)
qed

lemma length_bmap_set [simp]: "length (bmap_set bi bs) = length bs"
  by (simp add: bmap_set_def)

lemma length_bmap_clear [simp]: "length (bmap_clear bi bs) = length bs"
  by (simp add: bmap_clear_def)

lemma BPB_eq: "BPB = 8192"
  by (simp add: BPB_def BSIZE_def)

lemma one_bitmap_D:
  assumes "one_bitmap b"
  shows "map (\<lambda>k. BPB * k) [0..<(unat (sb_size b) + BPB - 1) div BPB] = [0]" "BBLOCK (of_nat 0) b = sb_bmapstart b"
    "i < unat (sb_size b) \<Longrightarrow> BBLOCK (of_nat i) b = sb_bmapstart b \<and> unat (of_nat i :: u32) = i"
proof -
  have "(unat (sb_size b) + BPB - 1) div BPB = 1" using assms by (intro div_nat_eqI) (auto simp: one_bitmap_def BPB_eq)
  then show "map (\<lambda>k. BPB * k) [0..<(unat (sb_size b) + BPB - 1) div BPB] = [0]" by simp
  show "BBLOCK (of_nat 0) b = sb_bmapstart b" by (simp add: BBLOCK_def)
  assume "i < unat (sb_size b)"
  then have i: "i < 8192" using assms by (simp add: one_bitmap_def BPB_eq)
  then have u: "unat (of_nat i :: u32) = i" by (simp add: unat_of_nat)
  then have "unat ((of_nat i :: u32) div of_nat BPB) = 0" using i by (simp add: unat_div BPB_eq)
  then have "(of_nat i :: u32) div of_nat BPB = 0" by (simp only: word_unat_eq_iff unat_0)
  then show "BBLOCK (of_nat i) b = sb_bmapstart b \<and> unat (of_nat i :: u32) = i" using u by (simp add: BBLOCK_def)
qed

text \<open>\<open>balloc\<close> takes the first free block, marks it and clears it.\<close>

lemma balloc_ok:
  assumes v: "fsv p pid dv s ho H L" and b: "one_bitmap (sb s)" "first_free (sb s) L = Some bi" "of_nat bi \<noteq> sb_bmapstart (sb s)"
      "sb_bmapstart (sb s) \<notin> H" "of_nat bi \<notin> H"
    and r: "length ho + card H + 1 < NBUF" "room s (length ho + 2)" and rw: "\<And>b wr. e_rw E b wr = disk_rw b wr"
  shows "\<exists>s'. balloc E dv s = Ret (of_nat bi, s') \<and> steady s s' \<and> itable s' = itable s \<and> keeps dv H s s' \<and>
    fsv p pid dv s' (logged (logged ho (sb_bmapstart (sb s))) (of_nat bi)) H
      (L(sb_bmapstart (sb s) := bmap_set bi (L (sb_bmapstart (sb s))), of_nat bi := zeroes))"
proof -
  let ?m = "sb_bmapstart (sb s)"
  note o = one_bitmap_D [OF b(1)]
  have r1: "room s (Suc (length ho))" "length ho + card H < NBUF" using r by (simp_all add: room_def)
  have "length (bmap_set bi (L ?m)) = BSIZE" using fsvD(6) [OF v] by simp
  from fsv_update [OF v b(4) r1(2,1), of "bmap_set bi", OF this rw] obtain s1 s2 s3 c where u: "bread E dv ?m s = Ret (c, s1)" "b_data (bufs s1 c) = L ?m"
      "log_write c (set_data c (bmap_set bi) s1) = Ret ((), s2)" "brelse c s2 = Ret ((), s3)"
      "fsv p pid dv s3 (logged ho ?m) H (L(?m := bmap_set bi (L ?m)))" "steady s s3" "itable s3 = itable s" "keeps dv H s s3" by blast
  have "length (logged ho ?m) \<le> Suc (length ho)" by (simp add: logged_def)
  then have "length (logged ho ?m) + card H < NBUF" "room s3 (Suc (length (logged ho ?m)))"
    unfolding steady_room [OF u(6)] using r room_mono [OF r(2)] by auto
  from bzero_ok [OF u(5) b(5) this rw] obtain s' where z: "bzero E dv (of_nat bi) s3 = Ret ((), s')" "steady s3 s'" "itable s' = itable s3"
      "fsv p pid dv s' (logged (logged ho ?m) (of_nat bi)) H (L(?m := bmap_set bi (L ?m), of_nat bi := zeroes))" "keeps dv H s3 s'" by blast
  have "find (\<lambda>bi. \<not> bmap_bit (L ?m) bi) [0..<min BPB (unat (sb_size (sb s)) - 0)] = Some bi"
    using b(1,2) by (simp add: first_free_def one_bitmap_def min_absorb2)
  then have "balloc_block E dv 0 s = Ret (Some (of_nat bi), s')"
    using u(1-4) z(1) o(2) by (simp add: balloc_block_def kM_simps)
  then have "balloc E dv s = Ret (of_nat bi, s')" unfolding balloc_def gets_apply bind_apply outcome.case prod.sel o(1) by (simp add: kM_simps)
  then show ?thesis using z(2-4) u(6,7) steady_trans keeps_trans [OF u(8) z(5)] by auto
qed

lemma bfree_ok:
  assumes v: "fsv p pid dv s ho H L" and b: "one_bitmap (sb s)" "i < unat (sb_size (sb s))" "sb_bmapstart (sb s) \<notin> H"
    and r: "length ho + card H < NBUF" "room s (Suc (length ho))" and rw: "\<And>b wr. e_rw E b wr = disk_rw b wr"
  shows "bmap_bit (L (sb_bmapstart (sb s))) i \<Longrightarrow> \<exists>s'. bfree E dv (of_nat i) s = Ret ((), s') \<and> steady s s' \<and> itable s' = itable s \<and>
      fsv p pid dv s' (logged ho (sb_bmapstart (sb s))) H (L(sb_bmapstart (sb s) := bmap_clear i (L (sb_bmapstart (sb s)))))"
    "\<not> bmap_bit (L (sb_bmapstart (sb s))) i \<Longrightarrow> bfree E dv (of_nat i) s = Panic ''freeing free block''"
proof -
  let ?m = "sb_bmapstart (sb s)"
  have i: "BBLOCK (of_nat i) (sb s) = ?m" "unat (of_nat i :: u32) mod BPB = i" using one_bitmap_D(3) [OF b(1,2)] b(1,2) by (simp_all add: one_bitmap_def)
  show "\<exists>s'. bfree E dv (of_nat i) s = Ret ((), s') \<and> steady s s' \<and> itable s' = itable s \<and>
      fsv p pid dv s' (logged ho ?m) H (L(?m := bmap_clear i (L ?m)))" if "bmap_bit (L ?m) i"
  proof -
    have "length (bmap_clear i (L ?m)) = BSIZE" using fsvD(6) [OF v] by simp
    from fsv_update [OF v b(3) r, of "bmap_clear i", OF this rw] obtain s1 s2 s' c where u: "bread E dv ?m s = Ret (c, s1)" "b_data (bufs s1 c) = L ?m"
        "log_write c (set_data c (bmap_clear i) s1) = Ret ((), s2)" "brelse c s2 = Ret ((), s')"
        "fsv p pid dv s' (logged ho ?m) H (L(?m := bmap_clear i (L ?m)))" "steady s s'" "itable s' = itable s" by blast
    have "bfree E dv (of_nat i) s = Ret ((), s')" using u(1-4) that i by (simp add: bfree_def kM_simps Let_def)
    then show ?thesis using u(5-7) by blast
  qed
  obtain c s1 where "bread E dv ?m s = Ret (c, s1)" "b_data (bufs s1 c) = L ?m" using fsv_read [OF v b(3) r(1) rw] by blast
  then show "bfree E dv (of_nat i) s = Panic ''freeing free block''" if "\<not> bmap_bit (L ?m) i"
    using that i by (simp add: bfree_def kM_simps Let_def)
qed

section \<open>Reading the contents of an inode\<close>

text \<open>The inode \<open>ip\<close> is loaded and has the data blocks \<open>bl\<close> and the indirect block \<open>ind\<close>.\<close>

definition inode_at :: "u32 \<Rightarrow> 'z dstate_scheme \<Rightarrow> (u32 \<Rightarrow> u8 list) \<Rightarrow> nat \<Rightarrow> u32 list \<Rightarrow> u32 \<Rightarrow> bool" where
  "inode_at dv s L ip bl ind \<longleftrightarrow> i_dev (itable s ip) = dv \<and> file_rep L (dinode_of (itable s ip)) bl ind \<and> 0 \<notin> set bl"

lemma nth_nonzero: "0 \<notin> set bl \<Longrightarrow> i < length bl \<Longrightarrow> bl ! i \<noteq> 0"
  by (metis nth_mem)

lemma bmap_old:
  assumes v: "fsv p pid dv s ho H L" and i: "inode_at dv s L ip bl ind" "bn < length bl" "ind \<notin> H" and n: "length ho + card H < NBUF"
    and rw: "\<And>b wr. e_rw E b wr = disk_rw b wr"
  shows "\<exists>s'. bmap E ip bn s = Ret (bl ! bn, s') \<and> fsv p pid dv s' ho H L \<and> disk_same s s'"
proof -
  have f: "file_rep L (dinode_of (itable s ip)) bl ind" "i_dev (itable s ip) = dv" "bl ! bn \<noteq> 0"
    using i(1) nth_nonzero [OF _ i(2)] by (simp_all add: inode_at_def)
  show ?thesis
  proof (cases "bn < 12")
    case True
    then have "bmap E ip bn s = Ret (bl ! bn, s)"
      using f i(2) by (simp add: bmap_def bmap_slot_def NDIRECT_def kM_simps file_rep_def dinode_of_def)
    then show ?thesis using v by (auto simp: disk_same_def)
  next
    case False
    then have k: "bn - 12 < 256" "ind \<noteq> 0" "i_addrs (itable s ip) ! 12 = ind" "get32 (L ind) (4 * (bn - 12)) = bl ! bn"
      using f(1) i(2) by (auto simp: file_rep_def dinode_of_def)
    obtain s1 s' b where "bread E dv ind s = Ret (b, s1)" "b_data (bufs s1 b) = L ind" "disk_same s s1" "brelse b s1 = Ret ((), s')"
        "fsv p pid dv s' ho H L" "disk_same s s'" using fsv_read [OF v i(3) n rw] by blast
    then show ?thesis using False k f(2,3) by (auto simp: bmap_def bmap_slot_def NDIRECT_def NINDIRECT_def BSIZE_def Let_def kM_simps)
  qed
qed

lemma inode_at_same: "disk_same s s' \<Longrightarrow> inode_at dv s' L ip bl ind = inode_at dv s L ip bl ind"
  by (simp add: inode_at_def disk_same_def)

lemma split_blocks:
  assumes "\<forall>b\<in>set bl. length (L b) = 1024" "k < length bl"
  shows "concat (map L bl) = concat (map L (take k bl)) @ L (bl ! k) @ concat (map L (drop (Suc k) bl))"
    "length (concat (map L (take k bl))) = 1024 * k" "length (L (bl ! k)) = 1024"
proof -
  have bl: "bl = take k bl @ bl ! k # drop (Suc k) bl" using assms(2) by (rule id_take_nth_drop)
  show "concat (map L bl) = concat (map L (take k bl)) @ L (bl ! k) @ concat (map L (drop (Suc k) bl))" by (subst bl) simp
  have "length (L b) = 1024" if "b \<in> set (take k bl)" for b using assms(1) in_set_takeD [OF that] by blast
  from length_blocks [of "take k bl" L, OF this] show "length (concat (map L (take k bl))) = 1024 * k" using assms(2) by simp
qed (use assms in simp)

lemma take_blocks:
  assumes "\<forall>b\<in>set bl. length (L b) = 1024" "k < length bl" "r + m \<le> 1024"
  shows "take m (drop (1024 * k + r) (concat (map L bl))) = take m (drop r (L (bl ! k)))"
  using assms(3) split_blocks(2,3) [OF assms(1,2)] by (simp add: split_blocks(1) [OF assms(1,2)])

text \<open>The loop of \<open>readi\<close> into a local variable, over blocks that are all allocated.\<close>

lemma readi_loop_ok:
  assumes rw: "\<And>b wr. e_rw E b wr = disk_rw b wr"
  shows "fsv p pid dv s ho {} L \<Longrightarrow> inode_at dv s L ip bl ind \<Longrightarrow> length ho < NBUF \<Longrightarrow> unat off + (unat n - unat tot) \<le> 1024 * length bl
    \<Longrightarrow> tot \<le> n \<Longrightarrow> unat n - unat tot \<le> k
    \<Longrightarrow> \<exists>s'. readi_loop k E ip LocalPtr off n tot out s = Ret ((uint n, out @ take (unat n - unat tot) (drop (unat off) (concat (map L bl)))), s')
      \<and> fsv p pid dv s' ho {} L \<and> disk_same s s'"
proof (induction k arbitrary: s off tot out)
  case 0
  then have "tot = n" by (simp add: word_le_nat_alt word_unat_eq_iff)
  then show ?case using 0 by (intro exI [of _ s]) (simp add: kM_simps disk_same_def)
next
  case (Suc k)
  note v = Suc.prems(1) and ia = Suc.prems(2)
  show ?case
  proof (cases "tot < n")
    case False
    then have "tot = n" using Suc.prems(5) by simp
    then show ?thesis using Suc.prems by (intro exI [of _ s]) (simp add: kM_simps disk_same_def)
  next
    case True
    define q r m where "q = unat off div 1024" and "r = unat off mod 1024" and "m = min (unat n - unat tot) (1024 - r)"
    have off: "unat off = 1024 * q + r" "r < 1024" by (simp_all add: q_def r_def)
    have tn: "unat tot < unat n" using True by (simp add: word_less_nat_alt)
    then have m: "0 < m" "m \<le> unat n - unat tot" "r + m \<le> 1024" using off(2) by (simp_all add: m_def)
    have q: "q < length bl" using Suc.prems(4) off tn by linarith
    define w :: u32 where "w = min (n - tot) (of_nat (1024 - r))"
    have w: "unat w = m"
      using Suc.prems(5) by (simp add: w_def min_def word_le_nat_alt unat_sub unat_of_nat m_def)
    have lb: "length bl \<le> 268" "\<forall>b\<in>set bl. length (L b) = 1024"
      using ia fsvD(6) [OF v] by (simp_all add: inode_at_def file_rep_def BSIZE_def)
    have nl: "unat n < 2 ^ 32" using unsigned_less [of n] by simp
    have ow: "unat (off + w) = unat off + m" "unat (tot + w) = unat tot + m"
      using Suc.prems(4) lb(1) m(2) tn nl by (simp_all add: unat_word_ariths w)
    obtain s1 where s1: "bmap E ip q s = Ret (bl ! q, s1)" "fsv p pid dv s1 ho {} L" "disk_same s s1"
      using bmap_old [OF v ia q _ _ rw] Suc.prems(3) by auto
    obtain s2 s3 b where s3: "bread E dv (bl ! q) s1 = Ret (b, s2)" "b_data (bufs s2 b) = L (bl ! q)" "brelse b s2 = Ret ((), s3)"
        "fsv p pid dv s3 ho {} L" "disk_same s1 s3"
      using fsv_read [OF s1(2) _ _ rw] Suc.prems(3) by fastforce
    have ia3: "inode_at dv s3 L ip bl ind" "disk_same s s3" using ia s1(3) s3(5) by (simp_all add: inode_at_def disk_same_def)
    let ?out = "out @ take m (drop r (L (bl ! q)))"
    obtain s' where s': "readi_loop k E ip LocalPtr (off + w) n (tot + w) ?out s3
        = Ret ((uint n, ?out @ take (unat n - unat (tot + w)) (drop (unat (off + w)) (concat (map L bl)))), s')"
        "fsv p pid dv s' ho {} L" "disk_same s3 s'"
    proof (atomize_elim, intro Suc.IH [OF s3(4) ia3(1) Suc.prems(3)])
      show "unat (off + w) + (unat n - unat (tot + w)) \<le> 1024 * length bl" "unat n - unat (tot + w) \<le> k"
        unfolding ow using Suc.prems(4,6) m(1,2) by simp_all
      show "tot + w \<le> n" unfolding word_le_nat_alt ow using m(2) tn by simp
    qed
    have "bl ! q \<noteq> 0" "i_dev (itable s1 ip) = dv" using ia s1(3) nth_nonzero [OF _ q] by (simp_all add: inode_at_def disk_same_def)
    then have "readi_loop (Suc k) E ip LocalPtr off n tot out s = readi_loop k E ip LocalPtr (off + w) n (tot + w) ?out s3"
      using True s1(1) s3(1-3) w by (simp add: kM_simps BSIZE_def q_def [symmetric] r_def [symmetric] w_def [symmetric] Let_def block_part_def)
    moreover have "take m (drop r (L (bl ! q))) @ take (unat n - unat (tot + w)) (drop (unat (off + w)) (concat (map L bl)))
        = take (unat n - unat tot) (drop (unat off) (concat (map L bl)))"
    proof -
      have "unat n - unat tot = m + (unat n - unat (tot + w))" unfolding ow using m(2) tn by simp
      then have "take (unat n - unat tot) (drop (unat off) (concat (map L bl)))
          = take m (drop (unat off) (concat (map L bl))) @ take (unat n - unat (tot + w)) (drop (m + unat off) (concat (map L bl)))"
        by (simp only: take_add drop_drop)
      then show ?thesis unfolding ow(1) off(1) using take_blocks [OF lb(2) q m(3)] by (simp add: add.commute add.left_commute)
    qed
    ultimately show ?thesis using s' ia3(2) by (intro exI [of _ s']) (simp add: disk_same_def)
  qed
qed

text \<open>The bytes of a file, and what a read of them delivers.\<close>

definition file_bytes :: "(u32 \<Rightarrow> u8 list) \<Rightarrow> u32 list \<Rightarrow> u32 \<Rightarrow> u8 list" where
  "file_bytes L bl sz = take (unat sz) (concat (map L bl))"

definition part :: "u8 list \<Rightarrow> u32 \<Rightarrow> u32 \<Rightarrow> u8 list" where
  "part c off n = (if unat off + unat n < 2 ^ 32 then take (unat n) (drop (unat off) c) else [])"

lemma add_overflow: "(off :: u32) + n < off \<longleftrightarrow> \<not> unat off + unat n < 2 ^ 32"
proof -
  have "unat off < 2 ^ 32" "unat n < 2 ^ 32" using unsigned_less [of off] unsigned_less [of n] by simp_all
  then show ?thesis by (auto simp: word_less_nat_alt unat_word_ariths mod_if)
qed

lemma length_concat_blocks: "fsv p pid dv s ho H L \<Longrightarrow> length (concat (map L bl)) = 1024 * length bl"
  using fsvD(6) by (intro length_blocks) (auto simp: BSIZE_def)

lemma readi_ok:
  assumes v: "fsv p pid dv s ho {} L" and i: "inode_at dv s L ip bl ind" "unat (i_size (itable s ip)) \<le> 1024 * length bl" and n: "length ho < NBUF"
    and rw: "\<And>b wr. e_rw E b wr = disk_rw b wr"
  defines "c \<equiv> file_bytes L bl (i_size (itable s ip))"
  shows "\<exists>s'. readi E ip LocalPtr off n s = Ret ((int (length (part c off n)), part c off n), s') \<and> fsv p pid dv s' ho {} L \<and> disk_same s s'"
proof -
  let ?sz = "i_size (itable s ip)" let ?n = "if off + n > ?sz then ?sz - off else n"
  have lc: "length c = unat ?sz" using i(2) length_concat_blocks [OF v, of bl] by (simp add: c_def file_bytes_def)
  show ?thesis
  proof (cases "?sz < off \<or> off + n < off")
    case True
    then have "part c off n = []" using lc add_overflow [of off n] by (auto simp: part_def word_less_nat_alt)
    then show ?thesis using True v by (intro exI [of _ s]) (simp add: readi_def kM_simps disk_same_def)
  next
    case False
    then have o: "unat off \<le> unat ?sz" "unat off + unat n < 2 ^ 32" by (simp_all add: word_le_nat_alt [symmetric] add_overflow not_less)
    have un: "unat ?n = min (unat n) (unat ?sz - unat off)"
      using o by (auto simp: word_less_nat_alt unat_word_ariths unat_sub word_le_nat_alt)
    obtain s' where s': "readi_loop (unat ?n) E ip LocalPtr off ?n 0 [] s = Ret ((uint ?n, [] @ take (unat ?n - unat (0 :: u32)) (drop (unat off) (concat (map L bl)))), s')"
        "fsv p pid dv s' ho {} L" "disk_same s s'"
      using v i n o(1) by (atomize_elim, intro readi_loop_ok [OF rw]) (simp_all add: un)
    have run: "readi E ip LocalPtr off n s = readi_loop (unat ?n) E ip LocalPtr off ?n 0 [] s"
      unfolding readi_def bind_apply gets_apply outcome.case prod.sel Let_def by (simp only: False if_False)
    have p: "part c off n = take (unat ?n) (drop (unat off) (concat (map L bl)))"
      using o by (simp add: part_def c_def file_bytes_def drop_take un)
    have "length (take (unat ?n) (drop (unat off) (concat (map L bl)))) = unat ?n"
      using o(1) i(2) length_concat_blocks [OF v, of bl] by (simp add: un)
    then show ?thesis using s' unfolding run p by (intro exI [of _ s']) (simp only: append_Nil unat_0 minus_nat.diff_0 uint_nat simp_thms)
  qed
qed

section \<open>Growing an inode\<close>

definition marks :: "superblock \<Rightarrow> (u32 \<Rightarrow> u8 list) \<Rightarrow> u32 set \<Rightarrow> bool" where
  "marks b L A \<longleftrightarrow> (\<forall>x\<in>A. unat x < unat (sb_size b) \<and> bmap_bit (L (sb_bmapstart b)) (unat x))"

definition free_count :: "superblock \<Rightarrow> (u32 \<Rightarrow> u8 list) \<Rightarrow> nat" where
  "free_count b L = card {i. i < unat (sb_size b) \<and> \<not> bmap_bit (L (sb_bmapstart b)) i}"

definition take_block :: "superblock \<Rightarrow> (u32 \<Rightarrow> u8 list) \<Rightarrow> u32 \<Rightarrow> u32 \<Rightarrow> u8 list" where
  "take_block b L x = L(sb_bmapstart b := bmap_set (unat x) (L (sb_bmapstart b)), x := zeroes)"

lemma take_block_marks:
  assumes "one_bitmap b" "marks b L A" "unat x < unat (sb_size b)" "x \<noteq> sb_bmapstart b" "length (L (sb_bmapstart b)) = 1024"
    "\<not> bmap_bit (L (sb_bmapstart b)) (unat x)"
  shows "marks b (take_block b L x) (insert x A)" "Suc (free_count b (take_block b L x)) = free_count b L"
proof -
  let ?m = "sb_bmapstart b"
  have m: "take_block b L x ?m = bmap_set (unat x) (L ?m)" using assms(4) by (simp add: take_block_def)
  have bit: "bmap_bit (bmap_set (unat x) (L ?m)) i \<longleftrightarrow> i = unat x \<or> bmap_bit (L ?m) i" if "i < unat (sb_size b)" for i
    using that assms(1,3,5) by (intro bmap_bit_set) (auto simp: one_bitmap_def BPB_eq)
  show "marks b (take_block b L x) (insert x A)" using assms(2,3) bit by (auto simp: marks_def m)
  let ?F = "{i. i < unat (sb_size b) \<and> \<not> bmap_bit (L ?m) i}"
  have "{i. i < unat (sb_size b) \<and> \<not> bmap_bit (take_block b L x ?m) i} = ?F - {unat x}" unfolding m using bit by auto
  moreover have "finite ?F" "unat x \<in> ?F" using assms(3,6) by auto
  ultimately show "Suc (free_count b (take_block b L x)) = free_count b L"
    unfolding free_count_def by (simp only: card_Suc_Diff1)
qed

lemma balloc_new:
  assumes v: "fsv p pid dv s ho H L" and b: "one_bitmap (sb s)" "0 < free_count (sb s) L" "marks (sb s) L A" "sb_bmapstart (sb s) \<in> A" "H \<subseteq> A" "sb_bmapstart (sb s) \<notin> H"
    and r: "length ho + card H + 1 < NBUF" "room s (length ho + 2)" and rw: "\<And>b wr. e_rw E b wr = disk_rw b wr"
  shows "\<exists>x s'. balloc E dv s = Ret (x, s') \<and> steady s s' \<and> itable s' = itable s \<and> keeps dv H s s' \<and> x \<notin> A \<and>
    fsv p pid dv s' (logged (logged ho (sb_bmapstart (sb s))) x) H (take_block (sb s) L x) \<and>
    marks (sb s) (take_block (sb s) L x) (insert x A) \<and> Suc (free_count (sb s) (take_block (sb s) L x)) = free_count (sb s) L"
proof -
  let ?m = "sb_bmapstart (sb s)"
  have "{i. i < unat (sb_size (sb s)) \<and> \<not> bmap_bit (L ?m) i} \<noteq> {}" using b(2) unfolding free_count_def by (metis card.empty less_not_refl)
  then obtain bi where bi: "first_free (sb s) L = Some bi" unfolding first_free_def by (cases "find (\<lambda>bi. \<not> bmap_bit (L ?m) bi) [0..<unat (sb_size (sb s))]") (auto simp: find_None_iff)
  then have f: "bi < unat (sb_size (sb s))" "\<not> bmap_bit (L ?m) bi" unfolding first_free_def by (auto simp: find_Some_iff)
  let ?x = "of_nat bi :: u32"
  have u: "unat ?x = bi" using one_bitmap_D(3) [OF b(1) f(1)] by simp
  have A: "?x \<notin> A" using b(3) f(2) u by (auto simp: marks_def)
  then have x: "?x \<noteq> ?m" "?x \<notin> H" using b(4,5) by auto
  have "length (L ?m) = 1024" using fsvD(6) [OF v] by (simp add: BSIZE_def)
  note tb = take_block_marks [OF b(1,3), of ?x, unfolded u, OF f(1) x(1) this f(2)]
  show ?thesis
    using balloc_ok [OF v b(1) bi x(1) b(6) x(2) r rw] tb A by (auto simp: take_block_def u)
qed


lemma fsv_itable [simp]: "fsv p pid dv (s\<lparr>itable := t\<rparr>) ho H L = fsv p pid dv s ho H L"
  by (simp add: fsv_def store_def)

lemma steady_itable [simp]: "steady s (s'\<lparr>itable := t\<rparr>) = steady s s'"
  by (simp add: steady_def)

lemma marks_cong: "L' (sb_bmapstart b) = L (sb_bmapstart b) \<Longrightarrow> marks b L' A = marks b L A"
  by (simp add: marks_def)

lemma free_count_cong: "L' (sb_bmapstart b) = L (sb_bmapstart b) \<Longrightarrow> free_count b L' = free_count b L"
  by (simp add: free_count_def)

text \<open>The blocks in use that an operation knows of, the bitmap and block 0 among them.\<close>

definition in_use :: "superblock \<Rightarrow> (u32 \<Rightarrow> u8 list) \<Rightarrow> u32 set \<Rightarrow> bool" where
  "in_use b L A \<longleftrightarrow> one_bitmap b \<and> marks b L A \<and> 0 \<in> A \<and> sb_bmapstart b \<in> A"

lemma bmap_slot_new:
  assumes v: "fsv p pid dv s ho {} L" and u: "in_use (sb s) L A" "0 < free_count (sb s) L" and i: "i_dev (itable s ip) = dv" "i_addrs (itable s ip) ! k = 0"
    and r: "length ho + 1 < NBUF" "room s (length ho + 2)" and rw: "\<And>b wr. e_rw E b wr = disk_rw b wr"
  shows "\<exists>x s'. bmap_slot E ip k s = Ret (x, s') \<and> steady s s' \<and> x \<notin> A \<and>
    itable s' = (itable s)(ip := (itable s ip)\<lparr>i_addrs := (i_addrs (itable s ip))[k := x]\<rparr>) \<and>
    fsv p pid dv s' (logged (logged ho (sb_bmapstart (sb s))) x) {} (take_block (sb s) L x) \<and>
    in_use (sb s) (take_block (sb s) L x) (insert x A) \<and> Suc (free_count (sb s) (take_block (sb s) L x)) = free_count (sb s) L"
proof -
  have U: "one_bitmap (sb s)" "marks (sb s) L A" "0 \<in> A" "sb_bmapstart (sb s) \<in> A" using u(1) by (simp_all add: in_use_def)
  have r': "length ho + card ({} :: u32 set) + 1 < NBUF" using r(1) by simp
  obtain x s1 where b: "balloc E dv s = Ret (x, s1)" "steady s s1" "itable s1 = itable s" "x \<notin> A"
      "fsv p pid dv s1 (logged (logged ho (sb_bmapstart (sb s))) x) {} (take_block (sb s) L x)"
      "marks (sb s) (take_block (sb s) L x) (insert x A)" "Suc (free_count (sb s) (take_block (sb s) L x)) = free_count (sb s) L"
    using balloc_new [OF v U(1) u(2) U(2,4) _ _ r' r(2) rw] by auto
  have "x \<noteq> 0" using b(4) U(3) by auto
  then have "bmap_slot E ip k s = Ret (x, upd_inode ip (\<lambda>r. r\<lparr>i_addrs := (i_addrs r)[k := x]\<rparr>) s1)"
    using b(1) i by (simp add: bmap_slot_def kM_simps)
  then show ?thesis using b(2-7) U by (intro exI [of _ x] exI [of _ "upd_inode ip (\<lambda>r. r\<lparr>i_addrs := (i_addrs r)[k := x]\<rparr>) s1"]) (simp add: upd_inode_def in_use_def)
qed

text \<open>A new entry of the indirect block \<open>a\<close>.\<close>

lemma bmap_entry_new:
  assumes sl: "bmap_slot E ip 12 s = Ret (a, s1)" and v: "fsv p pid dv s1 ho {} L" and u: "in_use (sb s1) L A" "0 < free_count (sb s1) L"
    and i: "i_dev (itable s1 ip) = dv" "a \<in> A" "a \<noteq> 0" "a \<noteq> sb_bmapstart (sb s1)" "f < 256" "get32 (L a) (4 * f) = 0"
    and r: "length ho + 3 < NBUF" "room s1 (length ho + 3)" and rw: "\<And>b wr. e_rw E b wr = disk_rw b wr"
  defines "L' \<equiv> \<lambda>x. (take_block (sb s1) L x)(a := put32 (L a) (4 * f) x)"
  shows "\<exists>x s'. bmap E ip (12 + f) s = Ret (x, s') \<and> steady s1 s' \<and> itable s' = itable s1 \<and> x \<notin> A \<and>
    fsv p pid dv s' (logged (logged (logged ho (sb_bmapstart (sb s1))) x) a) {} (L' x) \<and>
    in_use (sb s1) (L' x) (insert x A) \<and> Suc (free_count (sb s1) (L' x)) = free_count (sb s1) L"
proof -
  let ?m = "sb_bmapstart (sb s1)"
  have U: "one_bitmap (sb s1)" "marks (sb s1) L A" "0 \<in> A" "?m \<in> A" using u(1) by (simp_all add: in_use_def)
  obtain b s2 where s2: "bread E dv a s1 = Ret (b, s2)" "fsv p pid dv s2 ho {a} L" "disk_same s1 s2" "holds_block dv s2 b a"
    using fsv_bread [OF v _ _ rw] r(1) by fastforce
  have sb2: "sb s2 = sb s1" "itable s2 = itable s1" "room s2 n = room s1 n" for n
    using s2(3) steady_room [of s1 s2] steady_same [OF s2(3)] by (auto simp: disk_same_def)
  have d2: "b_data (bufs s2 b) = L a" by (rule store_data(1) [OF fsvD(1) [OF s2(2)] s2(4)])
  have "length ho + card {a} + 1 < NBUF" "room s2 (length ho + 2)" using r room_mono [OF r(2)] sb2(3) by simp_all
  from balloc_new [OF s2(2) _ _ _ _ _ _ this rw, of A] obtain x s3 where b: "balloc E dv s2 = Ret (x, s3)" "steady s2 s3" "itable s3 = itable s2" "x \<notin> A"
      "fsv p pid dv s3 (logged (logged ho ?m) x) {a} (take_block (sb s1) L x)"
      "marks (sb s1) (take_block (sb s1) L x) (insert x A)" "Suc (free_count (sb s1) (take_block (sb s1) L x)) = free_count (sb s1) L" "keeps dv {a} s2 s3"
    using U u(2) i(2,4) unfolding sb2 by auto
  have x: "x \<noteq> 0" "x \<noteq> a" "x \<noteq> ?m" using b(4) U(3,4) i(2) by auto
  have h3: "holds_block dv s3 b a" using b(8) s2(4) by (simp add: keeps_def)
  have st3: "steady s1 s3" using steady_trans steady_same [OF s2(3)] b(2) by blast
  let ?ho = "logged (logged ho ?m) x"
  have "length ?ho \<le> length ho + 2" by (simp add: logged_def)
  then have r3: "room s3 (Suc (length ?ho))" using room_mono [OF r(2)] steady_room [OF st3] by simp
  have La: "take_block (sb s1) L x a = L a" using x(2) i(4) by (simp add: take_block_def)
  have "length (put32 (L a) (4 * f) x) = BSIZE" using fsvD(6) [OF v, of a] i(5) by (simp add: BSIZE_def)
  then obtain s4 where s4: "log_write b (set_data b (\<lambda>bs. put32 bs (4 * f) x) s3) = Ret ((), s4)" "fsv p pid dv s4 (logged ?ho a) {a} (L' x)"
      "steady s3 s4" "itable s4 = itable s3" "holds_block dv s4 b a"
    using fsv_log_write [OF b(5) h3 _ r3, of "\<lambda>bs. put32 bs (4 * f) x"] h3 by (auto simp: La L'_def)
  obtain s' where s': "brelse b s4 = Ret ((), s')" "fsv p pid dv s' (logged ?ho a) {} (L' x)" "disk_same s4 s'"
    using fsv_brelse [OF s4(2,5)] by auto
  have run: "bmap E ip (12 + f) s = Ret (x, s')"
    using sl i(1,3,5,6) s2(1) d2 b(1) s4(1) s'(1) x(1) by (simp add: bmap_def NDIRECT_def NINDIRECT_def BSIZE_def Let_def kM_simps)
  have m: "L' x ?m = take_block (sb s1) L x ?m" using i(4) by (simp add: L'_def)
  have "steady s1 s'" "itable s' = itable s1"
    using steady_trans [OF steady_trans [OF st3 s4(3)]] steady_same [OF s'(3)] s4(4) b(3) sb2(2) by auto
  then show ?thesis
    using run s'(2) b(4,6,7) U marks_cong [of "L' x" "sb s1" "take_block (sb s1) L x", OF m] free_count_cong [of "L' x" "sb s1" "take_block (sb s1) L x", OF m]
    by (intro exI [of _ x] exI [of _ s']) (simp add: in_use_def)
qed

text \<open>An inode whose blocks are among the blocks in use \<open>A\<close>.\<close>

definition inode_ok :: "u32 \<Rightarrow> 'z dstate_scheme \<Rightarrow> (u32 \<Rightarrow> u8 list) \<Rightarrow> u32 set \<Rightarrow> nat \<Rightarrow> u32 list \<Rightarrow> u32 \<Rightarrow> bool" where
  "inode_ok dv s L A ip bl ind \<longleftrightarrow> inode_at dv s L ip bl ind \<and> distinct bl \<and> ind \<notin> set bl \<and> in_use (sb s) L A \<and>
    own bl ind \<subseteq> A - {sb_bmapstart (sb s)}"

text \<open>What a new block \<open>x\<close> changes.\<close>

definition blk_ind :: "u32 \<Rightarrow> u32 set" where
  "blk_ind ind = (if ind = 0 then {} else {ind})"

definition bmap_grows :: "nat \<Rightarrow> int \<Rightarrow> u32 \<Rightarrow> u32 set \<Rightarrow> nat \<Rightarrow> 'z dstate_scheme \<Rightarrow> u32 list \<Rightarrow> (u32 \<Rightarrow> u8 list) \<Rightarrow> u32 list \<Rightarrow> u32 \<Rightarrow>
    u32 \<Rightarrow> 'z dstate_scheme \<Rightarrow> u32 list \<Rightarrow> (u32 \<Rightarrow> u8 list) \<Rightarrow> u32 \<Rightarrow> bool" where
  "bmap_grows p pid dv A ip s ho L bl ind x s' ho' L' ind' \<longleftrightarrow> fsv p pid dv s' ho' {} L' \<and>
    inode_ok dv s' L' (A \<union> own (bl @ [x]) ind') ip (bl @ [x]) ind' \<and> L' x = zeroes \<and> own (bl @ [x]) ind' \<inter> A = own bl ind \<and>
    (\<forall>b\<in>A. b \<noteq> sb_bmapstart (sb s) \<and> b \<notin> blk_ind ind \<longrightarrow> L' b = L b) \<and> (ind \<noteq> 0 \<longrightarrow> ind' = ind) \<and> set ho' \<subseteq> set ho \<union> {sb_bmapstart (sb s), x} \<union> blk_ind ind' \<and> steady s s' \<and>
    (\<exists>as. itable s' = (itable s)(ip := (itable s ip)\<lparr>i_addrs := as\<rparr>)) \<and>
    free_count (sb s) L' + (blocks_of (Suc (length bl)) - blocks_of (length bl)) = free_count (sb s) L"

lemma dinode_of_addrs [simp]: "d_addrs (dinode_of r) = i_addrs r"
  by (simp add: dinode_of_def)

lemma bmap_direct:
  assumes v: "fsv p pid dv s ho {} L" and i: "inode_ok dv s L A ip bl ind" "length bl < 12" "0 < free_count (sb s) L"
    and r: "length ho + 1 < NBUF" "room s (length ho + 2)" and rw: "\<And>b wr. e_rw E b wr = disk_rw b wr"
  shows "\<exists>x s' ho' L'. bmap E ip (length bl) s = Ret (x, s') \<and> bmap_grows p pid dv A ip s ho L bl ind x s' ho' L' 0"
proof -
  let ?m = "sb_bmapstart (sb s)"
  have I: "i_dev (itable s ip) = dv" "file_rep L (dinode_of (itable s ip)) bl ind" "0 \<notin> set bl" "distinct bl" "in_use (sb s) L A" "set bl \<subseteq> A - {?m}"
    using i(1) by (auto simp: inode_ok_def inode_at_def own_def)
  have z: "ind = 0" "i_addrs (itable s ip) ! length bl = 0" using I(2) i(2) by (auto simp: file_rep_def)
  obtain x s' where b: "bmap_slot E ip (length bl) s = Ret (x, s')" "steady s s'" "x \<notin> A"
      "itable s' = (itable s)(ip := (itable s ip)\<lparr>i_addrs := (i_addrs (itable s ip))[length bl := x]\<rparr>)"
      "fsv p pid dv s' (logged (logged ho ?m) x) {} (take_block (sb s) L x)"
      "in_use (sb s) (take_block (sb s) L x) (insert x A)" "Suc (free_count (sb s) (take_block (sb s) L x)) = free_count (sb s) L"
    using bmap_slot_new [OF v I(5) i(3) I(1) z(2) r rw] by blast
  have run: "bmap E ip (length bl) s = Ret (x, s')" using b(1) i(2) by (simp add: bmap_def NDIRECT_def)
  have x: "x \<notin> set bl" "x \<noteq> 0" "x \<noteq> ?m" using b(3) I(5,6) by (auto simp: in_use_def)
  have sb: "sb s' = sb s" using b(2) by (simp add: steady_def)
  have "file_rep (take_block (sb s) L x) (dinode_of (itable s' ip)) (bl @ [x]) 0"
    using I(2) z(1) i(2) by (intro file_rep_direct [of L "dinode_of (itable s ip)"]) (simp_all add: b(4))
  moreover have A: "A \<union> own (bl @ [x]) 0 = insert x A" using I(6) by (auto simp: own_def)
  ultimately have ok: "inode_ok dv s' (take_block (sb s) L x) (A \<union> own (bl @ [x]) 0) ip (bl @ [x]) 0"
    unfolding A using I x b(4,6) sb by (auto simp: inode_ok_def inode_at_def own_def)
  have "own (bl @ [x]) 0 \<inter> A = own bl ind" using I(6) b(3) z(1) by (auto simp: own_def)
  then have "bmap_grows p pid dv A ip s ho L bl ind x s' (logged (logged ho ?m) x) (take_block (sb s) L x) 0"
    using b(2-7) ok z(1) i(2) by (auto simp: bmap_grows_def take_block_def blk_ind_def blocks_of_def)
  then show ?thesis using run by blast
qed


text \<open>The block map of a file with an indirect block, old or just allocated.\<close>

lemma bmap_grows_entry:
  assumes sl: "bmap_slot E ip 12 s = Ret (a, s1)" and v: "fsv p pid dv s1 ho1 {} L1" and u: "in_use (sb s) L1 A1" "0 < free_count (sb s) L1"
    and st: "steady s s1" "itable s1 = (itable s)(ip := (itable s ip)\<lparr>i_addrs := as\<rparr>)" and dv: "i_dev (itable s ip) = dv"
    and a: "a \<noteq> 0" "a \<noteq> sb_bmapstart (sb s)" "a \<notin> set bl" "A1 = insert a A" "own bl ind \<subseteq> A - {sb_bmapstart (sb s)}" "a \<in> A \<longleftrightarrow> ind \<noteq> 0" "ind \<noteq> 0 \<longrightarrow> a = ind"
    and bl: "12 \<le> length bl" "length bl < 268" "0 \<notin> set bl" "distinct bl" "get32 (L1 a) (4 * (length bl - 12)) = 0"
    and rep: "\<And>D x. D a = put32 (L1 a) (4 * (length bl - 12)) x \<Longrightarrow> file_rep D (dinode_of (itable s1 ip)) (bl @ [x]) a"
    and L1: "\<And>b. b \<in> A \<Longrightarrow> b \<noteq> sb_bmapstart (sb s) \<Longrightarrow> b \<notin> blk_ind ind \<Longrightarrow> L1 b = L b" "set ho1 \<subseteq> set ho \<union> {sb_bmapstart (sb s), a}"
      "free_count (sb s) L1 + (if ind = 0 then 1 else 0) = free_count (sb s) L"
    and r: "length ho1 + 3 < NBUF" "room s1 (length ho1 + 3)" and rw: "\<And>b wr. e_rw E b wr = disk_rw b wr"
    and n: "ind = 0 \<longleftrightarrow> length bl = 12"
  shows "\<exists>x s' ho' L'. bmap E ip (length bl) s = Ret (x, s') \<and> bmap_grows p pid dv A ip s ho L bl ind x s' ho' L' a"
proof -
  let ?m = "sb_bmapstart (sb s)" let ?f = "length bl - 12"
  have sb1: "sb s1 = sb s" using st(1) by (simp add: steady_def)
  have f: "?f < 256" "12 + ?f = length bl" using bl by simp_all
  obtain x s' where b: "bmap E ip (12 + ?f) s = Ret (x, s')" "steady s1 s'" "itable s' = itable s1" "x \<notin> A1"
      "fsv p pid dv s' (logged (logged (logged ho1 ?m) x) a) {} ((take_block (sb s) L1 x)(a := put32 (L1 a) (4 * ?f) x))"
      "in_use (sb s) ((take_block (sb s) L1 x)(a := put32 (L1 a) (4 * ?f) x)) (insert x A1)"
      "Suc (free_count (sb s) ((take_block (sb s) L1 x)(a := put32 (L1 a) (4 * ?f) x))) = free_count (sb s) L1"
    using bmap_entry_new [OF sl v _ _ _ _ a(1) _ f(1) bl(5) r rw, of A1] u a(2,4) dv unfolding sb1 st(2) by auto
  let ?L = "(take_block (sb s) L1 x)(a := put32 (L1 a) (4 * ?f) x)" and ?ho = "logged (logged (logged ho1 ?m) x) a"
  have x: "x \<notin> set bl" "x \<noteq> 0" "x \<noteq> ?m" "x \<noteq> a" "x \<notin> A" using b(4) u(1) a(4,5) by (auto simp: in_use_def own_def)
  have A: "A \<union> own (bl @ [x]) a = insert x A1" using a(1,4,5) by (auto simp: own_def)
  have "file_rep ?L (dinode_of (itable s' ip)) (bl @ [x]) a" unfolding b(3) by (rule rep) simp
  moreover have "sb s' = sb s" using b(2) sb1 by (simp add: steady_def)
  ultimately have ok: "inode_ok dv s' ?L (A \<union> own (bl @ [x]) a) ip (bl @ [x]) a"
    unfolding A using b(6) x a bl(3,4) dv st(2) b(3) by (auto simp: inode_ok_def inode_at_def own_def)
  have o: "own (bl @ [x]) a \<inter> A = own bl ind" using a x(5) by (auto simp: own_def)
  have keep: "?L b = L b" if "b \<in> A" "b \<noteq> ?m" "b \<notin> blk_ind ind" for b
    using L1(1) [OF that] that x(5) a(6,7) by (auto simp: take_block_def blk_ind_def)
  have "free_count (sb s) ?L + (blocks_of (Suc (length bl)) - blocks_of (length bl)) = free_count (sb s) L"
    using b(7) L1(3) n bl(1) by (auto simp: blocks_of_def)
  moreover have "set ?ho \<subseteq> set ho \<union> {?m, x} \<union> blk_ind a" using L1(2) a(1) by (auto simp: blk_ind_def)
  moreover have "?L x = zeroes" using x(4) by (simp add: take_block_def)
  moreover have "\<exists>as. itable s' = (itable s)(ip := (itable s ip)\<lparr>i_addrs := as\<rparr>)" using b(3) st(2) by auto
  ultimately have "bmap_grows p pid dv A ip s ho L bl ind x s' ?ho ?L a"
    unfolding bmap_grows_def using b(5) ok o keep steady_trans [OF st(1) b(2)] a(7) by blast
  then show ?thesis using b(1) f(2) by auto
qed


lemma bmap_new:
  assumes v: "fsv p pid dv s ho {} L" and i: "inode_ok dv s L A ip bl ind" "length bl < 268"
    and c: "blocks_of (Suc (length bl)) - blocks_of (length bl) \<le> free_count (sb s) L"
    and r: "length ho + 5 < NBUF" "room s (length ho + 5)" and rw: "\<And>b wr. e_rw E b wr = disk_rw b wr"
  shows "\<exists>x s' ho' L' ind'. bmap E ip (length bl) s = Ret (x, s') \<and> bmap_grows p pid dv A ip s ho L bl ind x s' ho' L' ind'"
proof -
  let ?m = "sb_bmapstart (sb s)"
  have I: "i_dev (itable s ip) = dv" "file_rep L (dinode_of (itable s ip)) bl ind" "0 \<notin> set bl" "distinct bl" "in_use (sb s) L A" "own bl ind \<subseteq> A - {?m}"
      "ind \<notin> set bl"
    using i(1) by (auto simp: inode_ok_def inode_at_def)
  have n: "ind = 0 \<longleftrightarrow> length bl \<le> 12" "i_addrs (itable s ip) ! 12 = ind" using I(2) by (simp_all add: file_rep_def)
  have r2: "length ho + 1 < NBUF" "room s (length ho + 2)" "length ho + 3 < NBUF" "room s (length ho + 3)" using r room_mono [OF r(2)] by simp_all
  show ?thesis
  proof (cases "length bl" "12 :: nat" rule: linorder_cases)
    case less
    then have "0 < free_count (sb s) L" using c by (simp add: blocks_of_def)
    from bmap_direct [OF v i(1) less this r2(1,2) rw] show ?thesis by blast
  next
    case equal
    then have z: "ind = 0" "Suc 0 < free_count (sb s) L" using c n(1) by (simp_all add: blocks_of_def)
    have a0: "i_addrs (itable s ip) ! 12 = 0" "0 < free_count (sb s) L" using n(2) z by simp_all
    obtain a s1 where b: "bmap_slot E ip 12 s = Ret (a, s1)" "steady s s1" "a \<notin> A"
        "itable s1 = (itable s)(ip := (itable s ip)\<lparr>i_addrs := (i_addrs (itable s ip))[12 := a]\<rparr>)"
        "fsv p pid dv s1 (logged (logged ho ?m) a) {} (take_block (sb s) L a)"
        "in_use (sb s) (take_block (sb s) L a) (insert a A)" "Suc (free_count (sb s) (take_block (sb s) L a)) = free_count (sb s) L"
      using bmap_slot_new [OF v I(5) a0(2) I(1) a0(1) r2(1,2) rw] by blast
    let ?ho = "logged (logged ho ?m) a"
    have "length ?ho \<le> length ho + 2" by (simp add: logged_def)
    then have r1: "length ?ho + 3 < NBUF" "room s1 (length ?ho + 3)" using r room_mono [OF r(2)] steady_room [OF b(2)] by simp_all
    have a: "a \<noteq> 0" "a \<noteq> ?m" "a \<notin> set bl" using b(3) I(5,6) by (auto simp: in_use_def own_def)
    have "\<exists>x s' ho' L'. bmap E ip (length bl) s = Ret (x, s') \<and> bmap_grows p pid dv A ip s ho L bl ind x s' ho' L' a"
    proof (rule bmap_grows_entry [OF b(1,5,6) _ b(2,4) I(1) a refl I(6) _ _ _ i(2) I(3,4) _ _ _ _ _ r1 rw])
      show "file_rep D (dinode_of (itable s1 ip)) (bl @ [x]) a" if "D a = put32 (take_block (sb s) L a a) (4 * (length bl - 12)) x" for D x
        using that I(2) z(1) equal a(1) by (intro file_rep_first [of L "dinode_of (itable s ip)"]) (simp_all add: b(4) take_block_def)
    qed (use b(3,7) z equal get32_zeroes [of 0] in \<open>auto simp: take_block_def\<close>)
    then show ?thesis by blast
  next
    case greater
    then have z: "ind \<noteq> 0" "0 < free_count (sb s) L" using c n(1) by (simp_all add: blocks_of_def)
    have ia: "ind \<in> A" "ind \<noteq> ?m" using I(6) z(1) by (auto simp: own_def)
    have sl: "bmap_slot E ip 12 s = Ret (ind, s)" using n(2) z(1) by (simp add: bmap_slot_def kM_simps)
    have "\<exists>x s' ho' L'. bmap E ip (length bl) s = Ret (x, s') \<and> bmap_grows p pid dv A ip s ho L bl ind x s' ho' L' ind"
    proof (rule bmap_grows_entry [OF sl v I(5) z(2) steady_refl _ I(1) z(1) ia(2) I(7) _ I(6) _ _ _ i(2) I(3,4) _ _ _ _ _ r2(3,4) rw])
      show "file_rep D (dinode_of (itable s ip)) (bl @ [x]) ind" if "D ind = put32 (L ind) (4 * (length bl - 12)) x" for D x
        using that I(2) greater i(2) fsvD(6) [OF v] by (intro file_rep_later [of L]) (simp_all add: BSIZE_def)
      show "get32 (L ind) (4 * (length bl - 12)) = 0" using I(2) greater i(2) z(1) by (auto simp: file_rep_def)
      show "itable s = (itable s)(ip := (itable s ip)\<lparr>i_addrs := i_addrs (itable s ip)\<rparr>)" by simp
    qed (use z ia greater in auto)
    then show ?thesis by blast
  qed
qed


section \<open>Writing the contents of an inode\<close>

text \<open>The file has come from the blocks \<open>bl\<close> and \<open>ind\<close> to \<open>bl'\<close> and \<open>ind'\<close>, and the bytes \<open>q\<close> have been
  stored from offset \<open>off\<close> on, over zeroes in the new blocks.\<close>

definition wrote :: "nat \<Rightarrow> int \<Rightarrow> u32 \<Rightarrow> u32 set \<Rightarrow> nat \<Rightarrow> 'z dstate_scheme \<Rightarrow> (u32 \<Rightarrow> u8 list) \<Rightarrow> u32 list \<Rightarrow> u32 \<Rightarrow>
    'z dstate_scheme \<Rightarrow> u32 list \<Rightarrow> (u32 \<Rightarrow> u8 list) \<Rightarrow> u32 list \<Rightarrow> u32 \<Rightarrow> nat \<Rightarrow> u8 list \<Rightarrow> bool" where
  "wrote p pid dv A ip s L bl ind s' ho' L' bl' ind' off q \<longleftrightarrow> fsv p pid dv s' ho' {} L' \<and>
    inode_ok dv s' L' (A \<union> own bl' ind') ip bl' ind' \<and> own bl' ind' \<inter> A = own bl ind \<and>
    (\<forall>b\<in>A. b \<noteq> sb_bmapstart (sb s) \<and> b \<notin> own bl ind \<longrightarrow> L' b = L b) \<and> steady s s' \<and>
    (\<exists>as. itable s' = (itable s)(ip := (itable s ip)\<lparr>i_addrs := as\<rparr>)) \<and> length bl \<le> length bl' \<and> (ind \<noteq> 0 \<longrightarrow> ind' = ind) \<and>
    free_count (sb s) L' + (blocks_of (length bl') - blocks_of (length bl)) = free_count (sb s) L \<and>
    concat (map L' bl') = put_bytes (concat (map L bl) @ replicate (1024 * (length bl' - length bl)) 0) off q"

lemma put_bytes_Nil: "off \<le> length xs \<Longrightarrow> put_bytes xs off [] = xs"
  by (simp add: put_bytes_def)

lemma put_bytes_append:
  assumes "off + length q1 \<le> length xs"
  shows "put_bytes (put_bytes xs off q1 @ zs) (off + length q1) q2 = put_bytes (xs @ zs) off (q1 @ q2)"
  using assms by (simp add: put_bytes_def add.commute add.left_commute)

lemma wrote_trans:
  assumes a: "wrote p pid dv A ip s L bl ind s1 ho1 L1 bl1 ind1 off q1"
    and b: "wrote p pid dv (A \<union> own bl1 ind1) ip s1 L1 bl1 ind1 s2 ho2 L2 bl2 ind2 (off + length q1) q2"
    and q: "off + length q1 \<le> length (concat (map L bl)) + 1024 * (length bl1 - length bl)"
  shows "wrote p pid dv A ip s L bl ind s2 ho2 L2 bl2 ind2 off (q1 @ q2)"
proof -
  have A: "A \<union> own bl1 ind1 \<union> own bl2 ind2 = A \<union> own bl2 ind2" "own bl2 ind2 \<inter> A = own bl ind" using a b by (auto simp: wrote_def)
  have sb: "sb s1 = sb s" using a by (simp add: wrote_def steady_def)
  have len: "length bl \<le> length bl1" "length bl1 \<le> length bl2" using a b by (simp_all add: wrote_def)
  have "free_count (sb s) L1 + (blocks_of (length bl1) - blocks_of (length bl)) = free_count (sb s) L"
      "free_count (sb s) L2 + (blocks_of (length bl2) - blocks_of (length bl1)) = free_count (sb s) L1"
    using a b sb unfolding wrote_def by metis+
  then have "free_count (sb s) L2 + (blocks_of (length bl2) - blocks_of (length bl)) = free_count (sb s) L"
    using blocks_of_mono [OF len(1)] blocks_of_mono [OF len(2)] by linarith
  moreover have "concat (map L2 bl2) = put_bytes (concat (map L bl) @ replicate (1024 * (length bl2 - length bl)) 0) off (q1 @ q2)"
  proof -
    have "concat (map L2 bl2) = put_bytes (put_bytes (concat (map L bl) @ replicate (1024 * (length bl1 - length bl)) 0) off q1
        @ replicate (1024 * (length bl2 - length bl1)) 0) (off + length q1) q2" using a b by (simp add: wrote_def)
    also have "\<dots> = put_bytes ((concat (map L bl) @ replicate (1024 * (length bl1 - length bl)) 0) @ replicate (1024 * (length bl2 - length bl1)) 0) off (q1 @ q2)"
      using q by (intro put_bytes_append) simp
    finally show ?thesis using len by (simp add: replicate_add [symmetric] diff_mult_distrib2 [symmetric] add_mult_distrib2 [symmetric])
  qed
  moreover have "L2 c = L c" if "c \<in> A" "c \<noteq> sb_bmapstart (sb s)" "c \<notin> own bl ind" for c
  proof -
    have "c \<notin> own bl1 ind1" using a that by (auto simp: wrote_def)
    then have "L2 c = L1 c" using b that sb by (auto simp: wrote_def)
    then show ?thesis using a that by (auto simp: wrote_def)
  qed
  moreover have "\<exists>as. itable s2 = (itable s)(ip := (itable s ip)\<lparr>i_addrs := as\<rparr>)"
  proof -
    obtain x y where "itable s1 = (itable s)(ip := (itable s ip)\<lparr>i_addrs := x\<rparr>)" "itable s2 = (itable s1)(ip := (itable s1 ip)\<lparr>i_addrs := y\<rparr>)"
      using a b unfolding wrote_def by blast
    then show ?thesis by auto
  qed
  moreover have "steady s s2" "ind \<noteq> 0 \<longrightarrow> ind2 = ind" using a b steady_trans unfolding wrote_def by blast+
  ultimately show ?thesis using b len A unfolding wrote_def by simp
qed


lemma bmap_wrote:
  assumes v: "fsv p pid dv s ho {} L" and i: "inode_ok dv s L A ip bl ind" and off: "off \<le> 1024 * length bl" "off < 268 * 1024"
    and c: "blocks_of (max (length bl) (Suc (off div 1024))) - blocks_of (length bl) \<le> free_count (sb s) L"
    and r: "length ho + 5 < NBUF" "room s (length ho + 5)" and rw: "\<And>b wr. e_rw E b wr = disk_rw b wr"
  shows "\<exists>x s' ho' L' bl' ind'. bmap E ip (off div 1024) s = Ret (x, s') \<and> wrote p pid dv A ip s L bl ind s' ho' L' bl' ind' off [] \<and>
    length bl' = max (length bl) (Suc (off div 1024)) \<and> bl' ! (off div 1024) = x \<and> set ho' \<subseteq> set ho \<union> {sb_bmapstart (sb s), x} \<union> blk_ind ind'"
proof (cases "off div 1024 < length bl")
  case True
  have ia: "inode_at dv s L ip bl ind" "own bl ind \<subseteq> A" using i by (auto simp: inode_ok_def)
  obtain s' where s': "bmap E ip (off div 1024) s = Ret (bl ! (off div 1024), s')" "fsv p pid dv s' ho {} L" "disk_same s s'"
    using bmap_old [OF v ia(1) True _ _ rw] r(1) by auto
  have "inode_ok dv s' L A ip bl ind" "steady s s'" "itable s' = itable s"
    using i steady_same [OF s'(3)] by (simp_all add: inode_ok_def inode_at_same [OF s'(3)] steady_def)
  moreover have "A \<union> own bl ind = A" "own bl ind \<inter> A = own bl ind" using ia(2) by auto
  ultimately have "wrote p pid dv A ip s L bl ind s' ho L bl ind off []"
    using s'(2) off(1) length_concat_blocks [OF v, of bl] by (auto simp: wrote_def put_bytes_Nil intro!: exI [of _ "i_addrs (itable s ip)"])
  then show ?thesis using s'(1) True by (intro exI [of _ "bl ! (off div 1024)"] exI [of _ s'] exI [of _ ho] exI [of _ L] exI [of _ bl] exI [of _ ind]) auto
next
  case False
  then have o: "off div 1024 = length bl" "off = 1024 * length bl" "length bl < 268" using off by auto
  have c': "blocks_of (Suc (length bl)) - blocks_of (length bl) \<le> free_count (sb s) L" using c o(1) by simp
  obtain x s' ho' L' ind' where b: "bmap E ip (length bl) s = Ret (x, s')" "bmap_grows p pid dv A ip s ho L bl ind x s' ho' L' ind'"
    using bmap_new [OF v i o(3) c' r rw] by blast
  have bl: "set bl \<subseteq> A - {sb_bmapstart (sb s)}" "ind \<notin> set bl" using i by (auto simp: inode_ok_def own_def)
  have fr: "\<forall>b\<in>A. b \<noteq> sb_bmapstart (sb s) \<and> b \<notin> blk_ind ind \<longrightarrow> L' b = L b" using b(2) by (simp add: bmap_grows_def)
  have "L' c = L c" if "c \<in> set bl" for c
  proof -
    have "c \<in> A" "c \<noteq> sb_bmapstart (sb s)" "c \<notin> blk_ind ind" using that bl by (auto simp: blk_ind_def)
    then show ?thesis using fr by blast
  qed
  then have "concat (map L' bl) = concat (map L bl)" by (intro arg_cong [of _ _ concat] map_cong refl)
  then have "concat (map L' (bl @ [x])) = concat (map L bl) @ replicate 1024 0"
    using b(2) unfolding map_append concat_append by (simp add: bmap_grows_def zeroes_def BSIZE_def)
  moreover have "\<forall>c\<in>A. c \<noteq> sb_bmapstart (sb s) \<and> c \<notin> own bl ind \<longrightarrow> L' c = L c"
    using fr unfolding own_def blk_ind_def by blast
  ultimately have "wrote p pid dv A ip s L bl ind s' ho' L' (bl @ [x]) ind' off []"
    using b(2) o(2) length_concat_blocks [OF v, of bl] by (simp add: wrote_def bmap_grows_def put_bytes_Nil)
  moreover have "set ho' \<subseteq> set ho \<union> {sb_bmapstart (sb s), x} \<union> blk_ind ind'" using b(2) by (simp add: bmap_grows_def)
  ultimately show ?thesis using b(1) o(1) by (intro exI [of _ x] exI [of _ s'] exI [of _ ho'] exI [of _ L'] exI [of _ "bl @ [x]"] exI [of _ ind']) auto
qed


lemma put_block:
  assumes "distinct bl" "k < length bl" "\<forall>b\<in>set bl. length (L b) = 1024" "r + length q \<le> 1024"
  shows "concat (map (L(bl ! k := put_bytes (L (bl ! k)) r q)) bl) = put_bytes (concat (map L bl)) (1024 * k + r) q"
proof -
  let ?L = "L(bl ! k := put_bytes (L (bl ! k)) r q)"
  have d: "distinct (take k bl @ bl ! k # drop (Suc k) bl)" using assms(1,2) by (simp add: id_take_nth_drop [symmetric])
  then have "bl ! k \<notin> set (take k bl)" "bl ! k \<notin> set (drop (Suc k) bl)" by auto
  then have m: "map ?L (take k bl) = map L (take k bl)" "map ?L (drop (Suc k) bl) = map L (drop (Suc k) bl)" by simp_all
  have "\<forall>b\<in>set bl. length (?L b) = 1024" using assms(2-4) by simp
  from split_blocks(1) [OF this assms(2)]
  have "concat (map ?L bl) = concat (map L (take k bl)) @ put_bytes (L (bl ! k)) r q @ concat (map L (drop (Suc k) bl))" unfolding m fun_upd_same .
  then show ?thesis using split_blocks [OF assms(3,2)] assms(4) by (simp add: put_bytes_def)
qed

text \<open>A round of the loop of \<open>writei\<close>.\<close>

lemma write_block:
  assumes v: "fsv p pid dv s ho {} L" and i: "inode_ok dv s L A ip bl ind" and off: "off \<le> 1024 * length bl" "off < 268 * 1024"
    and c: "blocks_of (max (length bl) (Suc (off div 1024))) - blocks_of (length bl) \<le> free_count (sb s) L"
    and r: "length ho + 5 < NBUF" "room s (length ho + 5)" and rw: "\<And>b wr. e_rw E b wr = disk_rw b wr"
    and q: "off mod 1024 + length q \<le> 1024"
  shows "\<exists>x s1 b s2 s3 s' ho' L' bl' ind'. bmap E ip (off div 1024) s = Ret (x, s1) \<and> x \<noteq> 0 \<and> i_dev (itable s1 ip) = dv \<and> bread E dv x s1 = Ret (b, s2) \<and>
    log_write b (set_data b (\<lambda>d. put_bytes d (off mod 1024) q) s2) = Ret ((), s3) \<and> brelse b s3 = Ret ((), s') \<and>
    wrote p pid dv A ip s L bl ind s' ho' L' bl' ind' off q \<and> length bl' = max (length bl) (Suc (off div 1024)) \<and>
    set ho' \<subseteq> set ho \<union> {sb_bmapstart (sb s), x} \<union> blk_ind ind'"
proof -
  let ?m = "sb_bmapstart (sb s)" and ?k = "off div 1024"
  obtain x s1 ho1 L1 bl1 ind1 where b: "bmap E ip ?k s = Ret (x, s1)" "wrote p pid dv A ip s L bl ind s1 ho1 L1 bl1 ind1 off []"
      "length bl1 = max (length bl) (Suc ?k)" "bl1 ! ?k = x" "set ho1 \<subseteq> set ho \<union> {?m, x} \<union> blk_ind ind1"
    using bmap_wrote [OF v i off c r rw] by blast
  have w: "fsv p pid dv s1 ho1 {} L1" "inode_ok dv s1 L1 (A \<union> own bl1 ind1) ip bl1 ind1" "steady s s1" using b(2) by (simp_all add: wrote_def)
  have sb: "sb s1 = sb s" using w(3) by (simp add: steady_def)
  have k: "?k < length bl1" using b(3) by simp
  have I: "i_dev (itable s1 ip) = dv" "file_rep L1 (dinode_of (itable s1 ip)) bl1 ind1" "0 \<notin> set bl1" "distinct bl1" "ind1 \<notin> set bl1" "in_use (sb s) L1 (A \<union> own bl1 ind1)"
      "own bl1 ind1 \<subseteq> A \<union> own bl1 ind1 - {?m}"
    using w(2) sb by (simp_all add: inode_ok_def inode_at_def)
  have x: "x \<in> set bl1" "x \<noteq> 0" "x \<noteq> ind1" "x \<noteq> ?m" using b(4) k I(3,5,7) nth_mem [OF k] by (auto simp: own_def)
  have "card (set ho \<union> {?m, x} \<union> blk_ind ind1) \<le> card (set ho) + card {?m, x} + card (blk_ind ind1)"
    by (intro order_trans [OF card_Un_le] add_mono order_refl)
  moreover have "card {?m, x} \<le> 2" "card (blk_ind ind1) \<le> 1" by (simp_all add: card_insert_if blk_ind_def)
  ultimately have "card (set ho \<union> {?m, x} \<union> blk_ind ind1) \<le> length ho + 3" using card_length [of ho] by linarith
  then have "length ho1 \<le> length ho + 3"
    using card_mono [OF _ b(5)] distinct_card [OF fsvD(3) [OF w(1)]] by (simp add: blk_ind_def)
  then have r1: "length ho1 + card ({} :: u32 set) < NBUF" "room s1 (Suc (length ho1))"
    using r room_mono [OF r(2)] steady_room [OF w(3)] by simp_all
  let ?f = "\<lambda>d. put_bytes d (off mod 1024) q"
  have "length (?f (L1 x)) = BSIZE" using fsvD(6) [OF w(1), of x] q by (simp add: BSIZE_def)
  from fsv_update [OF w(1) _ r1, of x ?f, OF _ this rw] obtain s2 s3 s' c where u: "bread E dv x s1 = Ret (c, s2)"
      "log_write c (set_data c ?f s2) = Ret ((), s3)" "brelse c s3 = Ret ((), s')" "fsv p pid dv s' (logged ho1 x) {} (L1(x := ?f (L1 x)))" "steady s1 s'"
      "itable s' = itable s1" by auto
  let ?L = "L1(x := ?f (L1 x))"
  have "inode_ok dv s' ?L (A \<union> own bl1 ind1) ip bl1 ind1"
    using w(2) u(5,6) x sb file_rep_cong [of ind1 ?L L1] marks_cong [of ?L "sb s" L1]
    by (simp add: inode_ok_def inode_at_def in_use_def steady_def)
  moreover have "concat (map ?L bl1) = put_bytes (concat (map L1 bl1)) off q"
    using put_block [OF I(4) k _ q, of L1] fsvD(6) [OF w(1)] b(4) by (simp add: BSIZE_def)
  moreover have "free_count (sb s) ?L = free_count (sb s) L1" using x(4) by (intro free_count_cong) simp
  moreover have "\<exists>as. itable s' = (itable s1)(ip := (itable s1 ip)\<lparr>i_addrs := as\<rparr>)"
    using u(6) by (intro exI [of _ "i_addrs (itable s1 ip)"]) simp
  moreover have "x \<in> own bl1 ind1" using x(1) by (simp add: own_def)
  ultimately have "wrote p pid dv (A \<union> own bl1 ind1) ip s1 L1 bl1 ind1 s' (logged ho1 x) ?L bl1 ind1 (off + length ([] :: u8 list)) q"
    using u(4,5) sb by (auto simp: wrote_def)
  from wrote_trans [OF b(2) this] have "wrote p pid dv A ip s L bl ind s' (logged ho1 x) ?L bl1 ind1 off q"
    using off(1) length_concat_blocks [OF v, of bl] by simp
  moreover have "set (logged ho1 x) \<subseteq> set ho \<union> {?m, x} \<union> blk_ind ind1" using b(5) by simp
  ultimately show ?thesis using b(1,3) x(2) I(1) u(1-3) by blast
qed

lemma card_base: "finite B \<Longrightarrow> card (B \<union> {m} \<union> blk_ind ind) \<le> card B + 2"
  using card_Un_le [of "B \<union> {m}" "blk_ind ind"] card_Un_le [of B "{m}"] by (simp add: blk_ind_def split: if_splits)

lemma wrote_refl:
  assumes "fsv p pid dv s ho {} L" "inode_ok dv s L A ip bl ind" "off \<le> 1024 * length bl"
  shows "wrote p pid dv A ip s L bl ind s ho L bl ind off []"
proof -
  have "A \<union> own bl ind = A" "own bl ind \<inter> A = own bl ind" using assms(2) by (auto simp: inode_ok_def)
  then show ?thesis using assms length_concat_blocks [OF assms(1), of bl] by (auto simp: wrote_def put_bytes_Nil intro!: exI [of _ "i_addrs (itable s ip)"])
qed

lemma writei_loop_done:
  assumes "fsv p pid dv s ho {} L" "inode_ok dv s L A ip bl ind" "unat off \<le> 1024 * length bl" "finite B" "set ho \<subseteq> B \<union> {sb_bmapstart (sb s)} \<union> blk_ind ind"
  shows "\<exists>ho' L' bl' ind' D. wrote p pid dv A ip s L bl ind s ho' L' bl' ind' (unat off) [] \<and> length bl' = max (length bl) (span (unat off)) \<and>
      finite D \<and> set ho' \<subseteq> insert (sb_bmapstart (sb s)) (D \<union> blk_ind ind') \<and> card D \<le> card B + R"
proof -
  have "length bl = max (length bl) (span (unat off))" using assms(3) span_mono [OF assms(3)] by (simp add: span_def)
  moreover have "set ho \<subseteq> insert (sb_bmapstart (sb s)) (B \<union> blk_ind ind)" using assms(5) by auto
  ultimately show ?thesis
    using wrote_refl [OF assms(1-3)] assms(4) by (intro exI [of _ ho] exI [of _ L] exI [of _ bl] exI [of _ ind] exI [of _ B]) simp
qed

lemma block_end: "(a + (1024 - a mod 1024)) mod 1024 = (0 :: nat)"
proof -
  have "a mod 1024 \<le> 1024" by simp
  then have "a mod 1024 + (1024 - a mod 1024) = 1024" by (rule le_add_diff_inverse)
  then show ?thesis by (subst mod_add_left_eq [symmetric]) simp
qed

lemma writei_loop_ok:
  assumes rw: "\<And>b wr. e_rw E b wr = disk_rw b wr"
  shows "fsv p pid dv s ho {} L \<Longrightarrow> inode_ok dv s L A ip bl ind \<Longrightarrow> unat off \<le> 1024 * length bl \<Longrightarrow> tot \<le> n \<Longrightarrow> unat n - unat tot \<le> k \<Longrightarrow>
    unat off + (unat n - unat tot) \<le> 268 * 1024 \<Longrightarrow> unat n \<le> length bs \<Longrightarrow>
    blocks_of (max (length bl) (span (unat off + (unat n - unat tot)))) - blocks_of (length bl) \<le> free_count (sb s) L \<Longrightarrow>
    finite B \<Longrightarrow> set ho \<subseteq> B \<union> {sb_bmapstart (sb s)} \<union> blk_ind ind \<Longrightarrow>
    (tot < n \<longrightarrow> unat off mod 1024 + (unat n - unat tot) \<le> 1024 * R) \<Longrightarrow> card B + R + 6 < NBUF \<Longrightarrow> room s (card B + R + 6) \<Longrightarrow>
    \<exists>s' ho' L' bl' ind' D. writei_loop k E ip (LocalSrc bs) off n tot s = Ret ((n, off + (n - tot)), s') \<and>
      wrote p pid dv A ip s L bl ind s' ho' L' bl' ind' (unat off) (take (unat n - unat tot) (drop (unat tot) bs)) \<and>
      length bl' = max (length bl) (span (unat off + (unat n - unat tot))) \<and>
      finite D \<and> set ho' \<subseteq> D \<union> {sb_bmapstart (sb s)} \<union> blk_ind ind' \<and> card D \<le> card B + R"
proof (induction k arbitrary: s ho L A bl ind off tot B R)
  case 0
  then have "tot = n" by (simp add: word_le_nat_alt word_unat_eq_iff)
  then show ?case using writei_loop_done [OF 0(1-3,9,10)] by (simp add: kM_simps)
next
  case (Suc k)
  note v = Suc.prems(1) and io = Suc.prems(2)
  show ?case
  proof (cases "tot < n")
    case False
    then have "tot = n" using Suc.prems(4) by simp
    then show ?thesis using writei_loop_done [OF Suc.prems(1-3,9,10)] by (simp add: kM_simps)
  next
    case True
    define r m where "r = unat off mod 1024" and "m = min (unat n - unat tot) (1024 - r)"
    define w :: u32 where "w = min (n - tot) (of_nat (1024 - r))"
    define q where "q = take m (drop (unat tot) bs)"
    let ?T = "unat off + (unat n - unat tot)"
    have tn: "unat tot < unat n" "r < 1024" using True by (simp_all add: word_less_nat_alt r_def)
    then have m: "0 < m" "m \<le> unat n - unat tot" "r + m \<le> 1024" by (simp_all add: m_def)
    have w: "unat w = m" using Suc.prems(4) by (simp add: w_def min_def word_le_nat_alt unat_sub unat_of_nat m_def)
    have q: "length q = m" "r + length q \<le> 1024" using m Suc.prems(7) by (simp_all add: q_def)
    have nl: "unat n < 2 ^ 32" using unsigned_less [of n] by simp
    have ow: "unat (off + w) = unat off + m" "unat (tot + w) = unat tot + m"
      using Suc.prems(6) m(2) tn nl by (simp_all add: unat_word_ariths w)
    have R: "r + (unat n - unat tot) \<le> 1024 * R" "0 < R" using Suc.prems(11) True m(1,2) tn by (auto simp: r_def intro: Nat.gr0I)
    have st: "span (unat off + m) = Suc (unat off div 1024)" using span_step [OF m(1), of "unat off"] m(3) by (simp add: r_def)
    have sp: "Suc (unat off div 1024) \<le> span ?T" unfolding st [symmetric] using m(2) by (intro span_mono) simp
    have off: "unat off < 268 * 1024" using Suc.prems(6) tn(1) by linarith
    have c: "blocks_of (max (length bl) (Suc (unat off div 1024))) - blocks_of (length bl) \<le> free_count (sb s) L"
      using Suc.prems(8) sp by (intro order_trans [OF blocks_of_diff Suc.prems(8)]) simp
    have "card (B \<union> {sb_bmapstart (sb s)} \<union> blk_ind ind) \<le> card B + 2" by (rule card_base [OF Suc.prems(9)])
    then have lh: "length ho \<le> card B + 2" using card_mono [OF _ Suc.prems(10)] Suc.prems(9) distinct_card [OF fsvD(3) [OF v]] by (simp add: blk_ind_def)
    then have rm: "length ho + 5 < NBUF" "room s (length ho + 5)" using Suc.prems(12) room_mono [OF Suc.prems(13)] R(2) by simp_all
    obtain x s1 b s2 s3 s4 ho1 L1 bl1 ind1 where b: "bmap E ip (unat off div 1024) s = Ret (x, s1)" "x \<noteq> 0" "i_dev (itable s1 ip) = dv" "bread E dv x s1 = Ret (b, s2)"
        "log_write b (set_data b (\<lambda>d. put_bytes d r q) s2) = Ret ((), s3)" "brelse b s3 = Ret ((), s4)"
        "wrote p pid dv A ip s L bl ind s4 ho1 L1 bl1 ind1 (unat off) q" "length bl1 = max (length bl) (Suc (unat off div 1024))"
        "set ho1 \<subseteq> set ho \<union> {sb_bmapstart (sb s), x} \<union> blk_ind ind1"
      using write_block [OF v io Suc.prems(3) off c rm rw q(2) [unfolded r_def]] unfolding r_def by blast
    have W: "fsv p pid dv s4 ho1 {} L1" "inode_ok dv s4 L1 (A \<union> own bl1 ind1) ip bl1 ind1" "steady s s4" "ind \<noteq> 0 \<longrightarrow> ind1 = ind"
        "free_count (sb s) L1 + (blocks_of (length bl1) - blocks_of (length bl)) = free_count (sb s) L"
      using b(7) by (simp_all add: wrote_def)
    have sb: "sb s4 = sb s" using W(3) by (simp add: steady_def)
    let ?B = "insert x B"
    have mx: "max (length bl1) (span ?T) = max (length bl) (span ?T)" using b(8) sp by (simp add: max.assoc max_absorb2)
    have T': "unat (off + w) + (unat n - unat (tot + w)) = ?T" unfolding ow using m(2) tn(1) by simp
    have "Suc (unat off div 1024) \<le> length bl1" using b(8) by simp
    then have ob: "unat off + m \<le> 1024 * length bl1" using m(3) mult_div_mod_eq [of 1024 "unat off"] unfolding r_def by linarith
    have cB: "card ?B \<le> Suc (card B)" using Suc.prems(9) by (simp add: card_insert_if)
    have lb: "blocks_of (length bl) \<le> blocks_of (length bl1)" by (rule blocks_of_mono) (simp add: b(8))
    obtain s' ho' L' bl' ind' D where s': "writei_loop k E ip (LocalSrc bs) (off + w) n (tot + w) s4 = Ret ((n, off + w + (n - (tot + w))), s')"
        "wrote p pid dv (A \<union> own bl1 ind1) ip s4 L1 bl1 ind1 s' ho' L' bl' ind' (unat (off + w)) (take (unat n - unat (tot + w)) (drop (unat (tot + w)) bs))"
        "length bl' = max (length bl1) (span ?T)" "finite D" "set ho' \<subseteq> D \<union> {sb_bmapstart (sb s4)} \<union> blk_ind ind'" "card D \<le> card ?B + (R - 1)"
      unfolding T' [symmetric]
    proof (atomize_elim, intro Suc.IH [OF W(1,2)])
      show "unat (off + w) \<le> 1024 * length bl1" "unat n - unat (tot + w) \<le> k" "unat (off + w) + (unat n - unat (tot + w)) \<le> 268 * 1024" "unat n \<le> length bs"
        unfolding ow using ob Suc.prems(5-7) m(1,2) tn(1) by simp_all
      show "tot + w \<le> n" unfolding word_le_nat_alt ow using m(2) tn by simp
      show "finite ?B" using Suc.prems(9) by simp
      show "set ho1 \<subseteq> ?B \<union> {sb_bmapstart (sb s4)} \<union> blk_ind ind1" using b(9) Suc.prems(10) W(4) sb by (auto simp: blk_ind_def split: if_splits)
      show "card ?B + (R - 1) + 6 < NBUF" "room s4 (card ?B + (R - 1) + 6)"
        using cB R(2) Suc.prems(12) room_mono [OF Suc.prems(13)] steady_room [OF W(3)] by simp_all
      show "blocks_of (max (length bl1) (span (unat (off + w) + (unat n - unat (tot + w))))) - blocks_of (length bl1) \<le> free_count (sb s4) L1"
        unfolding T' mx sb using W(5) Suc.prems(8) lb by linarith
      show "tot + w < n \<longrightarrow> unat (off + w) mod 1024 + (unat n - unat (tot + w)) \<le> 1024 * (R - 1)"
      proof
        assume "tot + w < n"
        then have "m < unat n - unat tot" unfolding word_less_nat_alt ow by simp
        then have "m = 1024 - r" by (simp add: m_def)
        moreover from this have "(unat off + m) mod 1024 = 0" unfolding r_def by (simp only: block_end)
        ultimately show "unat (off + w) mod 1024 + (unat n - unat (tot + w)) \<le> 1024 * (R - 1)"
          unfolding ow using R tn(2) by (simp add: diff_mult_distrib2)
      qed
    qed
    have "writei_loop (Suc k) E ip (LocalSrc bs) off n tot s = Ret ((n, off + (n - tot)), s')"
      using True b(1-6) s'(1) w by (simp add: kM_simps BSIZE_def r_def [symmetric] w_def [symmetric] q_def [symmetric] Let_def)
    moreover have split: "take (unat n - unat tot) (drop (unat tot) bs) = q @ take (unat n - unat (tot + w)) (drop (unat (tot + w)) bs)"
    proof -
      have "unat n - unat tot = m + (unat n - unat (tot + w))" unfolding ow using m(2) tn by simp
      then show ?thesis unfolding q_def ow by (simp only: take_add drop_drop add.commute)
    qed
    moreover have "card D \<le> card B + R" using s'(6) cB R(2) by simp
    moreover have "wrote p pid dv A ip s L bl ind s' ho' L' bl' ind' (unat off) (take (unat n - unat tot) (drop (unat tot) bs))"
      unfolding split
    proof (rule wrote_trans [OF b(7)])
      show "unat off + length q \<le> length (concat (map L bl)) + 1024 * (length bl1 - length bl)"
        unfolding length_concat_blocks [OF v] q(1) using ob b(8) by (simp add: diff_mult_distrib2)
      show "wrote p pid dv (A \<union> own bl1 ind1) ip s4 L1 bl1 ind1 s' ho' L' bl' ind' (unat off + length q) (take (unat n - unat (tot + w)) (drop (unat (tot + w)) bs))"
        using s'(2) unfolding ow q(1) .
    qed
    ultimately show ?thesis using s'(3-5) unfolding mx sb by blast
  qed
qed

text \<open>\<open>iupdate\<close> stores the inode in its block.\<close>

lemma iupdate_ok:
  assumes v: "fsv p pid dv s ho {} L" and i: "i_dev (itable s ip) = dv" "length (i_addrs (itable s ip)) = 13" and r: "length ho < NBUF" "room s (Suc (length ho))"
    and rw: "\<And>b wr. e_rw E b wr = disk_rw b wr"
  defines "b \<equiv> IBLOCK (i_inum (itable s ip)) (sb s)" and "o' \<equiv> inode_off (i_inum (itable s ip))"
  shows "\<exists>s'. iupdate E ip s = Ret ((), s') \<and> fsv p pid dv s' (logged ho b) {} (L(b := encode_dinode (L b) o' (dinode_of (itable s ip)))) \<and>
    steady s s' \<and> itable s' = itable s"
proof -
  let ?d = "dinode_of (itable s ip)"
  have o: "o' + 64 \<le> 1024" by (simp add: o'_def inode_off_def IPB_def BSIZE_def)
  have d: "length (dinode_bytes ?d) = 64" using i(2) by (simp add: length_dinode_bytes)
  have "length (encode_dinode (L b) o' ?d) = BSIZE"
    using fsvD(6) [OF v, of b] o d by (simp add: encode_dinode_def BSIZE_def)
  from fsv_update [OF v _ _ r(2), of b "\<lambda>bs. encode_dinode bs o' ?d", OF _ _ this rw] obtain s1 s2 s' c where u: "bread E dv b s = Ret (c, s1)" "disk_same s s1"
      "log_write c (set_data c (\<lambda>bs. encode_dinode bs o' ?d) s1) = Ret ((), s2)" "brelse c s2 = Ret ((), s')"
      "fsv p pid dv s' (logged ho b) {} (L(b := encode_dinode (L b) o' ?d))" "steady s s'" "itable s' = itable s" using r(1) by auto
  have "itable s1 = itable s" using u(2) by (simp add: disk_same_def)
  then show ?thesis using u(1,3-7) i(1) by (intro exI [of _ s']) (simp add: iupdate_def kM_simps b_def o'_def)
qed

text \<open>\<open>writei\<close> with room in the transaction and enough free blocks: \<open>off \<le> size\<close>, and the file stays within its
  largest size.\<close>

definition disk_inode :: "superblock \<Rightarrow> (u32 \<Rightarrow> u8 list) \<Rightarrow> u32 \<Rightarrow> dinode" where
  "disk_inode b L i = decode_dinode (L (IBLOCK i b)) (inode_off i)"

lemma put_file_bytes:
  assumes "off \<le> sz" "sz \<le> length C" "off + length q \<le> length (C @ Z)"
  shows "take (max sz (off + length q)) (put_bytes (C @ Z) off q) = put_bytes (take sz C) off q"
proof (cases "sz \<le> off + length q")
  case True
  then show ?thesis using assms by (simp add: put_bytes_def max_absorb2)
next
  case False
  then show ?thesis using assms by (simp add: put_bytes_def max_absorb1 drop_take)
qed

definition writable :: "nat \<Rightarrow> int \<Rightarrow> u32 \<Rightarrow> u32 set \<Rightarrow> nat \<Rightarrow> 'z dstate_scheme \<Rightarrow> u32 list \<Rightarrow> (u32 \<Rightarrow> u8 list) \<Rightarrow> u32 list \<Rightarrow> u32 \<Rightarrow> bool" where
  "writable p pid dv A ip s ho L bl ind \<longleftrightarrow> fsv p pid dv s ho {} L \<and> inode_ok dv s L A ip bl ind \<and> unat (i_size (itable s ip)) \<le> 1024 * length bl \<and>
    IBLOCK (i_inum (itable s ip)) (sb s) \<in> A - own bl ind - {sb_bmapstart (sb s)}"

lemma inode_off_other:
  assumes "IBLOCK i b = IBLOCK j b" "i \<noteq> j"
  shows "inode_off j + 64 \<le> inode_off i \<or> inode_off i + 64 \<le> inode_off j"
proof -
  have "i div 16 = j div 16" using assms(1) by (simp add: IBLOCK_def IPB_def BSIZE_def)
  then have "unat i div 16 = unat j div 16" by (simp add: unat_div word_unat_eq_iff)
  then have "unat i mod 16 \<noteq> unat j mod 16" using assms(2) div_mult_mod_eq [of "unat i" 16] div_mult_mod_eq [of "unat j" 16] by (metis word_unat_eq_iff)
  then show ?thesis by (simp add: inode_off_def IPB_def BSIZE_def) arith
qed

lemma disk_inode_other:
  assumes "j \<noteq> i" "length (L (IBLOCK i b)) = 1024" "length (d_addrs d) = 13"
  shows "disk_inode b (L(IBLOCK i b := encode_dinode (L (IBLOCK i b)) (inode_off i) d)) j = disk_inode b L j"
    "disk_inode b (L(IBLOCK i b := encode_dinode (L (IBLOCK i b)) (inode_off i) d)) i = d"
proof -
  have o: "inode_off i + 64 \<le> length (L (IBLOCK i b))" using assms(2) by (simp add: inode_off_def IPB_def BSIZE_def)
  show "disk_inode b (L(IBLOCK i b := encode_dinode (L (IBLOCK i b)) (inode_off i) d)) i = d"
    using decode_encode_dinode(1) [OF assms(3) o] by (simp add: disk_inode_def)
  show "disk_inode b (L(IBLOCK i b := encode_dinode (L (IBLOCK i b)) (inode_off i) d)) j = disk_inode b L j"
    using decode_encode_dinode(2) [OF assms(3) o, of "inode_off j"] inode_off_other [of i b j] assms(1) by (auto simp: disk_inode_def)
qed

text \<open>The end of \<open>writei\<close>: the size and the inode block.\<close>

lemma writei_end:
  assumes w: "wrote p pid dv A ip s L bl ind s1 ho1 L1 bl1 ind1 (unat off) q" and W: "writable p pid dv A ip s ho L bl ind"
    and o: "off \<le> i_size (itable s ip)" "unat off + length q < 2 ^ 32" "unat (off + n) = unat off + length q" "unat off + length q \<le> 1024 * length bl1"
    and r: "length ho1 < NBUF" "room s (Suc (length ho1))" and rw: "\<And>b wr. e_rw E b wr = disk_rw b wr"
  defines "sz \<equiv> max (i_size (itable s ip)) (off + n)" and "i \<equiv> i_inum (itable s ip)"
  shows "\<exists>s' L'. iupdate E ip (upd_inode ip (\<lambda>r. if off + n > i_size r then r\<lparr>i_size := off + n\<rparr> else r) s1) = Ret ((), s') \<and>
    writable p pid dv (A \<union> own bl1 ind1) ip s' (logged ho1 (IBLOCK i (sb s))) L' bl1 ind1 \<and>
    steady s s' \<and> (\<exists>as. itable s' = (itable s)(ip := (itable s ip)\<lparr>i_addrs := as, i_size := sz\<rparr>)) \<and>
    file_bytes L' bl1 sz = put_bytes (file_bytes L bl (i_size (itable s ip))) (unat off) q \<and>
    disk_inode (sb s) L' i = dinode_of (itable s' ip) \<and> (\<forall>j. j \<noteq> i \<longrightarrow> IBLOCK j (sb s) \<in> A - own bl ind - {sb_bmapstart (sb s)} \<longrightarrow> disk_inode (sb s) L' j = disk_inode (sb s) L j) \<and>
    (\<forall>b\<in>A. b \<noteq> sb_bmapstart (sb s) \<and> b \<noteq> IBLOCK i (sb s) \<and> b \<notin> own bl ind \<longrightarrow> L' b = L b)"
proof -
  let ?b = "IBLOCK i (sb s)" and ?s = "upd_inode ip (\<lambda>r. if off + n > i_size r then r\<lparr>i_size := off + n\<rparr> else r) s1"
  have v: "fsv p pid dv s ho {} L" "unat (i_size (itable s ip)) \<le> 1024 * length bl" "?b \<in> A" "?b \<notin> own bl ind" "?b \<noteq> sb_bmapstart (sb s)"
    using W by (simp_all add: writable_def i_def)
  obtain as where as: "itable s1 = (itable s)(ip := (itable s ip)\<lparr>i_addrs := as\<rparr>)" using w unfolding wrote_def by blast
  have v1: "fsv p pid dv s1 ho1 {} L1" "inode_ok dv s1 L1 (A \<union> own bl1 ind1) ip bl1 ind1" "own bl1 ind1 \<inter> A = own bl ind" "steady s s1" "length bl \<le> length bl1"
      "concat (map L1 bl1) = put_bytes (concat (map L bl) @ replicate (1024 * (length bl1 - length bl)) 0) (unat off) q"
    using w by (simp_all add: wrote_def)
  have fr: "\<forall>b\<in>A. b \<noteq> sb_bmapstart (sb s) \<and> b \<notin> own bl ind \<longrightarrow> L1 b = L b" using w unfolding wrote_def by blast
  have it: "itable ?s = (itable s)(ip := (itable s ip)\<lparr>i_addrs := as, i_size := sz\<rparr>)" 
    by (cases "i_size (itable s ip) < off + n") (auto simp: upd_inode_def as sz_def max_absorb1 max_absorb2 less_imp_le)
  have s: "fsv p pid dv ?s ho1 {} L1" "steady s ?s" "sb ?s = sb s" using v1(1,4) by (simp_all add: upd_inode_def steady_def)
  have I: "i_dev (itable s1 ip) = dv" "file_rep L1 (dinode_of (itable s1 ip)) bl1 ind1" using v1(2) by (simp_all add: inode_ok_def inode_at_def)
  have I2: "i_dev (itable ?s ip) = dv" "length (i_addrs (itable ?s ip)) = 13" "i_inum (itable ?s ip) = i" using I by (simp_all add: it as file_rep_def i_def)
  have r': "room ?s (Suc (length ho1))" using r(2) steady_room [OF s(2)] by simp
  let ?L = "L1(?b := encode_dinode (L1 ?b) (inode_off i) (dinode_of (itable ?s ip)))"
  obtain s' where s': "iupdate E ip ?s = Ret ((), s')" "fsv p pid dv s' (logged ho1 ?b) {} ?L" "steady ?s s'" "itable s' = itable ?s"
    using iupdate_ok [OF s(1) I2(1,2) r(1) r' rw] unfolding I2(3) s(3) by blast
  have sb: "sb s' = sb s" "sb s1 = sb s" using s'(3) s(3) v1(4) by (simp_all add: steady_def)
  have nb: "?b \<notin> own bl1 ind1" using v1(3) v(3,4) by auto
  then have nb2: "?b \<noteq> ind1 \<or> ind1 = 0" "?b \<notin> set bl1" by (auto simp: own_def split: if_splits)
  have "inode_ok dv s' ?L (A \<union> own bl1 ind1) ip bl1 ind1"
    using v1(2) file_rep_cong [of ind1 ?L L1] nb2 marks_cong [of ?L "sb s" L1] v(5) file_rep_addrs [of "dinode_of (itable s' ip)" "dinode_of (itable s1 ip)" L1 bl1 ind1]
    by (auto simp: inode_ok_def inode_at_def in_use_def s'(4) it as sb)
  moreover have us: "unat sz = max (unat (i_size (itable s ip))) (unat off + length q)" using o(3) by (simp add: sz_def max_def word_le_nat_alt)
  ultimately have "writable p pid dv (A \<union> own bl1 ind1) ip s' (logged ho1 ?b) ?L bl1 ind1"
    using s'(2) v(2,3,5) v1(5) o(4) nb by (simp add: writable_def s'(4) it sb i_def)
  moreover have "file_bytes ?L bl1 sz = put_bytes (file_bytes L bl (i_size (itable s ip))) (unat off) q"
  proof -
    have "map ?L bl1 = map L1 bl1" using nb2(2) by (intro map_cong) auto
    moreover have "unat off \<le> unat (i_size (itable s ip))" "unat (i_size (itable s ip)) \<le> length (concat (map L bl))"
        "unat off + length q \<le> length (concat (map L bl) @ replicate (1024 * (length bl1 - length bl)) (0 :: u8))"
      using o(1,4) v(2) v1(5) unfolding length_append length_replicate length_concat_blocks [OF v(1)] by (simp_all add: word_le_nat_alt diff_mult_distrib2)
    ultimately show ?thesis unfolding file_bytes_def us by (simp only: v1(6) put_file_bytes)
  qed
  moreover have len: "length (L1 ?b) = 1024" "length (d_addrs (dinode_of (itable ?s ip))) = 13" using fsvD(6) [OF v1(1)] I2(2) by (simp_all add: BSIZE_def)
  moreover have "disk_inode (sb s) ?L j = disk_inode (sb s) L j" if "j \<noteq> i" "IBLOCK j (sb s) \<in> A - own bl ind - {sb_bmapstart (sb s)}" for j
    using disk_inode_other(1) [OF that(1), of L1 "sb s", OF len] fr that(2) by (simp add: disk_inode_def)
  moreover have "\<forall>b\<in>A. b \<noteq> sb_bmapstart (sb s) \<and> b \<noteq> ?b \<and> b \<notin> own bl ind \<longrightarrow> ?L b = L b" using fr by simp
  moreover have "disk_inode (sb s) ?L i = dinode_of (itable s' ip)" using disk_inode_other(2) [of "i + 1" i L1 "sb s", OF _ len] s'(4) by simp
  moreover have "\<exists>as. itable s' = (itable s)(ip := (itable s ip)\<lparr>i_addrs := as, i_size := sz\<rparr>)" unfolding s'(4) it by blast
  ultimately show ?thesis using s'(1) steady_trans [OF s(2) s'(3)] by blast
qed

lemma writei_ok:
  assumes w: "writable p pid dv A ip s ho L bl ind" and o: "off \<le> i_size (itable s ip)" "unat off + unat n \<le> 268 * 1024" "unat n \<le> length bs"
    and c: "blocks_of (max (length bl) (span (unat off + unat n))) - blocks_of (length bl) \<le> free_count (sb s) L"
    and R: "unat off mod 1024 + unat n \<le> 1024 * R" "length ho + R + 6 < NBUF" "room s (length ho + R + 6)"
    and rw: "\<And>b wr. e_rw E b wr = disk_rw b wr"
  defines "sz \<equiv> max (i_size (itable s ip)) (off + n)" and "i \<equiv> i_inum (itable s ip)"
  shows "\<exists>s' ho' L' bl' ind'. writei E ip (LocalSrc bs) off n s = Ret (uint n, s') \<and> writable p pid dv (A \<union> own bl' ind') ip s' ho' L' bl' ind' \<and>
    steady s s' \<and> (\<exists>as. itable s' = (itable s)(ip := (itable s ip)\<lparr>i_addrs := as, i_size := sz\<rparr>)) \<and>
    file_bytes L' bl' sz = put_bytes (file_bytes L bl (i_size (itable s ip))) (unat off) (take (unat n) bs) \<and>
    disk_inode (sb s) L' i = dinode_of (itable s' ip) \<and> (\<forall>j. j \<noteq> i \<longrightarrow> IBLOCK j (sb s) \<in> A - own bl ind - {sb_bmapstart (sb s)} \<longrightarrow> disk_inode (sb s) L' j = disk_inode (sb s) L j) \<and>
    own bl' ind' \<inter> A = own bl ind \<and> (\<forall>b\<in>A. b \<noteq> sb_bmapstart (sb s) \<and> b \<noteq> IBLOCK i (sb s) \<and> b \<notin> own bl ind \<longrightarrow> L' b = L b) \<and>
    length ho' \<le> length ho + R + 3"
proof -
  let ?B = "set ho"
  have v: "fsv p pid dv s ho {} L" "inode_ok dv s L A ip bl ind" "unat (i_size (itable s ip)) \<le> 1024 * length bl" using w by (simp_all add: writable_def)
  have sub: "?B \<subseteq> ?B \<union> {sb_bmapstart (sb s)} \<union> blk_ind ind" by blast
  have cB: "card ?B = length ho" using distinct_card [OF fsvD(3) [OF v(1)]] .
  have un: "unat (off + n) = unat off + unat n" using o(2) by (simp add: unat_word_ariths)
  have ub: "unat off \<le> 1024 * length bl" using o(1) v(3) by (simp add: word_le_nat_alt)
  obtain s1 ho1 L1 bl1 ind1 D where s1: "writei_loop (unat n) E ip (LocalSrc bs) off n 0 s = Ret ((n, off + n), s1)"
      "wrote p pid dv A ip s L bl ind s1 ho1 L1 bl1 ind1 (unat off) (take (unat n) bs)" "length bl1 = max (length bl) (span (unat off + unat n))"
      "finite D" "set ho1 \<subseteq> D \<union> {sb_bmapstart (sb s)} \<union> blk_ind ind1" "card D \<le> length ho + R"
    using writei_loop_ok [where tot = 0 and n = n and k = "unat n" and bs = bs and R = R, OF rw v(1,2) ub _ _ _ _ _ _ sub] o c R cB by auto
  have "card (D \<union> {sb_bmapstart (sb s)} \<union> blk_ind ind1) \<le> card D + 2" by (rule card_base [OF s1(4)])
  moreover have "distinct ho1" using s1(2) unfolding wrote_def by (blast dest: fsvD(3))
  ultimately have lh: "length ho1 \<le> length ho + R + 2" using card_mono [OF _ s1(5)] s1(4,6) distinct_card [of ho1] by (simp add: blk_ind_def)
  have sp: "unat off + unat n \<le> 1024 * length bl1" using s1(3) unfolding span_def by simp
  have r: "length ho1 < NBUF" "room s (Suc (length ho1))" using lh R(2) room_mono [OF R(3)] by simp_all
  have "\<exists>s' L'. iupdate E ip (upd_inode ip (\<lambda>r. if off + n > i_size r then r\<lparr>i_size := off + n\<rparr> else r) s1) = Ret ((), s') \<and>
    writable p pid dv (A \<union> own bl1 ind1) ip s' (logged ho1 (IBLOCK i (sb s))) L' bl1 ind1 \<and>
    steady s s' \<and> (\<exists>as. itable s' = (itable s)(ip := (itable s ip)\<lparr>i_addrs := as, i_size := sz\<rparr>)) \<and>
    file_bytes L' bl1 sz = put_bytes (file_bytes L bl (i_size (itable s ip))) (unat off) (take (unat n) bs) \<and>
    disk_inode (sb s) L' i = dinode_of (itable s' ip) \<and> (\<forall>j. j \<noteq> i \<longrightarrow> IBLOCK j (sb s) \<in> A - own bl ind - {sb_bmapstart (sb s)} \<longrightarrow> disk_inode (sb s) L' j = disk_inode (sb s) L j) \<and>
    (\<forall>b\<in>A. b \<noteq> sb_bmapstart (sb s) \<and> b \<noteq> IBLOCK i (sb s) \<and> b \<notin> own bl ind \<longrightarrow> L' b = L b)"
    unfolding sz_def i_def using o(2,3) un sp by (intro writei_end [OF s1(2) w o(1) _ _ _ r rw]) (simp_all add: min_absorb2)
  then obtain s' L' where s': "iupdate E ip (upd_inode ip (\<lambda>r. if off + n > i_size r then r\<lparr>i_size := off + n\<rparr> else r) s1) = Ret ((), s')"
    "writable p pid dv (A \<union> own bl1 ind1) ip s' (logged ho1 (IBLOCK i (sb s))) L' bl1 ind1"
    "steady s s'" "\<exists>as. itable s' = (itable s)(ip := (itable s ip)\<lparr>i_addrs := as, i_size := sz\<rparr>)"
    "file_bytes L' bl1 sz = put_bytes (file_bytes L bl (i_size (itable s ip))) (unat off) (take (unat n) bs)"
    "disk_inode (sb s) L' i = dinode_of (itable s' ip)" "\<forall>j. j \<noteq> i \<longrightarrow> IBLOCK j (sb s) \<in> A - own bl ind - {sb_bmapstart (sb s)} \<longrightarrow> disk_inode (sb s) L' j = disk_inode (sb s) L j"
    "\<forall>b\<in>A. b \<noteq> sb_bmapstart (sb s) \<and> b \<noteq> IBLOCK i (sb s) \<and> b \<notin> own bl ind \<longrightarrow> L' b = L b" by blast
  have "\<not> (i_size (itable s ip) < off \<or> off + n < off)" "\<not> MAXFILE * BSIZE < unat (off + n)"
    using o un by (simp_all add: not_less word_le_nat_alt MAXFILE_def NDIRECT_def NINDIRECT_def BSIZE_def)
  then have "writei E ip (LocalSrc bs) off n s = Ret (uint n, s')"
    using s1(1) s'(1) by (simp add: writei_def kM_simps)
  moreover have "length (logged ho1 (IBLOCK i (sb s))) \<le> length ho + R + 3" using lh by (simp add: logged_def)
  moreover have "own bl1 ind1 \<inter> A = own bl ind" using s1(2) by (simp add: wrote_def)
  ultimately show ?thesis using s'(2-8) by blast
qed

text \<open>C6. \<open>writei\<close> stores exactly the bytes it is given, and \<open>readi\<close> reads them back. The inode is loaded, its blocks and its inode block are
  marked in the bitmap, the disk has the free blocks the longer file needs, and the bytes touch at most \<open>R\<close> blocks for which the transaction
  has room. A write that starts past the end of the file, wraps around or ends beyond the largest file returns \<^verbatim>\<open>-1\<close> and changes
  nothing. Any other write returns its length, overwrites the contents from \<open>off\<close> on and extends the file as far as needed, stores the new
  inode on the disk, keeps every other inode of the blocks in use and every other block in use, gives the file only blocks that were free, and
  logs at most \<open>R + 3\<close> new blocks; a piece that \<open>filewrite\<close> writes has at most three blocks of bytes, so four blocks are touched.\<close>

theorem writei_readi:
  assumes "writable p pid dv A ip s ho L bl ind"
    and "blocks_of (max (length bl) (span (unat off + length bs))) - blocks_of (length bl) \<le> free_count (sb s) L" "length bs < 2 ^ 32"
    and "unat off mod 1024 + length bs \<le> 1024 * R" "length ho + R + 6 < NBUF" "room s (length ho + R + 6)"
    and rw: "\<And>b wr. e_rw E b wr = disk_rw b wr"
  defines "n \<equiv> of_nat (length bs)" and "c \<equiv> file_bytes L bl (i_size (itable s ip))" and "i \<equiv> i_inum (itable s ip)" and "m \<equiv> sb_bmapstart (sb s)"
  shows "if length c < unat off \<or> 2 ^ 32 \<le> unat off + length bs \<or> MAXFILE * BSIZE < unat off + length bs then writei E ip (LocalSrc bs) off n s = Ret (-1, s)
    else \<exists>s' ho' L' bl' ind'. writei E ip (LocalSrc bs) off n s = Ret (int (length bs), s') \<and> writable p pid dv (A \<union> own bl' ind') ip s' ho' L' bl' ind' \<and>
      file_bytes L' bl' (i_size (itable s' ip)) = put_bytes c (unat off) bs \<and> (\<exists>s''. readi E ip LocalPtr off n s' = Ret ((int (length bs), bs), s'')) \<and>
      disk_inode (sb s) L' i = dinode_of (itable s' ip) \<and>
      (\<forall>j. j \<noteq> i \<longrightarrow> IBLOCK j (sb s) \<in> A - own bl ind - {m} \<longrightarrow> disk_inode (sb s) L' j = disk_inode (sb s) L j) \<and>
      own bl' ind' \<inter> A = own bl ind \<and> (\<forall>b\<in>A. b \<noteq> m \<and> b \<noteq> IBLOCK i (sb s) \<and> b \<notin> own bl ind \<longrightarrow> L' b = L b) \<and> length ho' \<le> length ho + R + 3"
proof -
  have un: "unat n = length bs" "uint n = int (length bs)" using assms(3) by (simp_all add: n_def unat_of_nat uint_nat)
  have v: "fsv p pid dv s ho {} L" "unat (i_size (itable s ip)) \<le> 1024 * length bl" using assms(1) by (simp_all add: writable_def)
  have lc: "length c = unat (i_size (itable s ip))" using v(2) length_concat_blocks [OF v(1), of bl] by (simp add: c_def file_bytes_def)
  have mx: "MAXFILE * BSIZE = 268 * 1024" by (simp add: MAXFILE_def NDIRECT_def NINDIRECT_def BSIZE_def)
  show ?thesis
  proof (cases "length c < unat off \<or> 2 ^ 32 \<le> unat off + length bs \<or> MAXFILE * BSIZE < unat off + length bs")
    case True
    have "unat (off + n) = unat off + length bs" if "unat off + length bs < 2 ^ 32" using that un(1) by (simp add: unat_word_ariths)
    then have "i_size (itable s ip) < off \<or> off + n < off \<or> MAXFILE * BSIZE < unat (off + n)"
      using True lc un(1) add_overflow [of off n] by (auto simp: word_less_nat_alt not_less)
    then have "writei E ip (LocalSrc bs) off n s = Ret (-1, s)" by (auto simp: writei_def kM_simps)
    then show ?thesis using True by (simp only: if_True)
  next
    case False
    then have o: "off \<le> i_size (itable s ip)" "unat off + unat n \<le> 268 * 1024" "unat n \<le> length bs" using lc un mx by (simp_all add: word_le_nat_alt)
    obtain s' ho' L' bl' ind' where w: "writei E ip (LocalSrc bs) off n s = Ret (uint n, s')" "writable p pid dv (A \<union> own bl' ind') ip s' ho' L' bl' ind'"
        "\<exists>as. itable s' = (itable s)(ip := (itable s ip)\<lparr>i_addrs := as, i_size := max (i_size (itable s ip)) (off + n)\<rparr>)"
        "file_bytes L' bl' (max (i_size (itable s ip)) (off + n)) = put_bytes c (unat off) (take (unat n) bs)"
        "disk_inode (sb s) L' i = dinode_of (itable s' ip)"
        "\<forall>j. j \<noteq> i \<longrightarrow> IBLOCK j (sb s) \<in> A - own bl ind - {m} \<longrightarrow> disk_inode (sb s) L' j = disk_inode (sb s) L j"
        "own bl' ind' \<inter> A = own bl ind" "\<forall>b\<in>A. b \<noteq> m \<and> b \<noteq> IBLOCK i (sb s) \<and> b \<notin> own bl ind \<longrightarrow> L' b = L b" "length ho' \<le> length ho + R + 3"
      using writei_ok [OF assms(1) o, of R E] assms(2,4-6) rw unfolding un c_def i_def m_def by blast
    have sz: "i_size (itable s' ip) = max (i_size (itable s ip)) (off + n)" using w(3) by auto
    have f: "file_bytes L' bl' (i_size (itable s' ip)) = put_bytes c (unat off) bs" unfolding sz w(4) un by simp
    have v': "fsv p pid dv s' ho' {} L'" "inode_at dv s' L' ip bl' ind'" "unat (i_size (itable s' ip)) \<le> 1024 * length bl'" "length ho' < NBUF"
      using w(2,9) assms(5) by (simp_all add: writable_def inode_ok_def)
    have "part (put_bytes c (unat off) bs) off n = bs" using False un(1) put_bytes_in [of "unat off" c bs] by (simp add: part_def)
    then have "\<exists>s''. readi E ip LocalPtr off n s' = Ret ((int (length bs), bs), s'')" using readi_ok [OF v' rw, of off n] unfolding f by auto
    then show ?thesis using False w(1,2,5-9) f un(2) by auto
  qed
qed

text \<open>A disk with the layout of \<open>mkfs\<close>, no file and no cached block; a transaction has begun, and inode 2 is loaded, empty.\<close>

definition empty_disk :: "u32 \<Rightarrow> u8 list" where
  "empty_disk b = (if b = 45 then fold bmap_set [0..<46] zeroes else zeroes)"

definition fresh_fs :: dstate where
  "fresh_fs = rebooted\<lparr>log := \<lparr>lg_start = 2, lg_size = 30, lg_outstanding = 1, lg_committing = False, lg_dev = 1, lg_lh = \<lparr>lh_n = 0, lh_block = (\<lambda>_. 0)\<rparr>\<rparr>,
     sb := layout, disk0 := empty_disk, bufs := (\<lambda>b. (bufs rebooted b)\<lparr>b_valid := False\<rparr>),
     itable := (\<lambda>_. \<lparr>i_dev = 1, i_inum = 2, i_ref = 1, i_valid = True, i_type = T_FILE, i_major = 0, i_minor = 0, i_nlink = 1, i_size = 0, i_addrs = replicate 13 0\<rparr>)\<rparr>"

lemma fresh_fs_sel: "sb fresh_fs = layout" "content fresh_fs = empty_disk" "itable fresh_fs ip = \<lparr>i_dev = 1, i_inum = 2, i_ref = 1, i_valid = True, i_type = T_FILE,
    i_major = 0, i_minor = 0, i_nlink = 1, i_size = 0, i_addrs = replicate 13 0\<rparr>" "room fresh_fs 29" "log_at 1 2 [] (log fresh_fs)" "lg_start (log fresh_fs) = 2"
  by (simp_all add: fresh_fs_def content_def rebooted_def one_pinned_sel room_def LOGSIZE_def MAXOPBLOCKS_def log_at_def)

lemma length_empty_disk: "length (empty_disk b) = BSIZE"
  using bmap_fold [of 46 0] by (simp add: empty_disk_def zeroes_def BSIZE_def)

lemma fresh_fs_fsv: "fsv 0 (p_pid blank_proc) 1 fresh_fs [] {} empty_disk"
proof -
  have "ring (bufs fresh_fs) [0..<NBUF]" by (rule ring_links [OF one_pinned_ring]) (simp_all add: fresh_fs_def rebooted_def)
  then have "store 0 (p_pid blank_proc) 1 fresh_fs (refs [] {}) {} empty_disk"
    using one_pinned_sel(1) length_empty_disk unfolding store_def
    by (intro conjI cache_repI) (auto simp: fresh_fs_def rebooted_def content_def one_pinned_sel(2-) refs_def split: if_splits)
  then show ?thesis using fresh_fs_sel by (simp add: fsv_def)
qed

lemma fresh_fs_writable: "writable 0 (p_pid blank_proc) 1 {0, 32, 45} 0 fresh_fs [] empty_disk [] 0" "0 < free_count layout empty_disk"
proof -
  have l: "sb_size layout = 2000" "sb_bmapstart layout = 45" "IBLOCK 2 layout = 32" by (simp_all add: layout_def mk_consts IBLOCK_def)
  have b: "bmap_bit (empty_disk 45) i \<longleftrightarrow> i < 46" if "i < 2000" for i using bmap_fold [of 46 i] that by (simp add: empty_disk_def)
  have "in_use layout empty_disk {0, 32, 45}" using b by (simp add: in_use_def one_bitmap_def marks_def l BPB_eq)
  moreover have "file_rep empty_disk (dinode_of (itable fresh_fs 0)) [] 0" by (simp add: fresh_fs_sel file_rep_def dinode_of_def)
  ultimately show "writable 0 (p_pid blank_proc) 1 {0, 32, 45} 0 fresh_fs [] empty_disk [] 0"
    using fresh_fs_fsv by (simp add: writable_def inode_ok_def inode_at_def own_def fresh_fs_sel l)
  have "46 \<in> {i. i < unat (sb_size layout) \<and> \<not> bmap_bit (empty_disk (sb_bmapstart layout)) i}" using b by (simp add: l)
  then show "0 < free_count layout empty_disk" unfolding free_count_def by (simp only: card_gt_0_iff) auto
qed

theorem writei_readi_witness:
  "\<exists>s' s''. writei ideal_env 0 (LocalSrc [7, 8, 9]) 0 3 fresh_fs = Ret (3, s') \<and> readi ideal_env 0 LocalPtr 0 3 s' = Ret ((3, [7, 8, 9]), s'')"
proof -
  have "e_rw ideal_env b wr = disk_rw b wr" for b wr by (simp add: ideal_env_def)
  note t = writei_readi [OF fresh_fs_writable(1), of 0 "[7, 8, 9]" 1 ideal_env, OF _ _ _ _ _ this]
  have "room fresh_fs 7" using fresh_fs_sel(4) by (rule room_mono) simp
  then show ?thesis using t fresh_fs_writable(2) by (auto simp: fresh_fs_sel(1) fresh_fs_sel(3) span_def blocks_of_def NBUF_def file_bytes_def MAXFILE_def NDIRECT_def NINDIRECT_def BSIZE_def)
qed

lemma bmap_clear_set:
  assumes "\<not> bmap_bit bs bi" "bi div 8 < length bs"
  shows "bmap_clear bi (bmap_set bi bs) = bs" "bmap_bit (bmap_set bi bs) bi"
proof -
  let ?k = "bi div 8" and ?m = "push_bit (bi mod 8) 1 :: u8"
  have "(bs ! ?k OR ?m) AND NOT ?m = bs ! ?k"
    using assms(1) by (intro bit_word_eqI) (auto simp: bmap_bit_bit bit_simps)
  then show "bmap_clear bi (bmap_set bi bs) = bs" using assms(2) by (simp add: bmap_clear_def bmap_set_def)
  show "bmap_bit (bmap_set bi bs) bi" using assms(2) by (simp add: bmap_bit_bit bmap_set_def bit_simps)
qed

text \<open>The block allocator. With a free block on the disk \<open>balloc\<close> returns the first one, which is none of the blocks in use and not block 0,
  marks it in the bitmap, clears it and changes no other block; what was in use stays in use. \<open>bfree\<close> of that block then restores the bitmap.
  To free a block that is not marked is a panic, before \<open>balloc\<close> and after \<open>bfree\<close>.\<close>

theorem balloc_bfree:
  assumes v: "fsv p pid dv s ho {} L" and u: "in_use (sb s) L A" "first_free (sb s) L = Some bi"
    and r: "length ho + 3 < NBUF" "room s (length ho + 3)" and rw: "\<And>b wr. e_rw E b wr = disk_rw b wr"
  defines "m \<equiv> sb_bmapstart (sb s)" and "x \<equiv> of_nat bi"
  shows "bfree E dv x s = Panic ''freeing free block'' \<and> (\<forall>j<bi. bmap_bit (L m) j) \<and> x \<notin> A \<and> x \<noteq> 0 \<and>
    (\<exists>s1 ho1 s2 ho2. balloc E dv s = Ret (x, s1) \<and> fsv p pid dv s1 ho1 {} (L(m := bmap_set bi (L m), x := zeroes)) \<and>
      in_use (sb s1) (L(m := bmap_set bi (L m), x := zeroes)) (insert x A) \<and>
      bfree E dv x s1 = Ret ((), s2) \<and> fsv p pid dv s2 ho2 {} (L(x := zeroes)) \<and> bfree E dv x s2 = Panic ''freeing free block'')"
proof -
  have U: "one_bitmap (sb s)" "marks (sb s) L A" "0 \<in> A" "m \<in> A" using u(1) by (simp_all add: in_use_def m_def)
  have f: "bi < unat (sb_size (sb s))" "\<not> bmap_bit (L m) bi" "\<forall>j<bi. bmap_bit (L m) j"
    using u(2) unfolding first_free_def m_def by (auto simp: find_Some_iff)
  have ux: "unat x = bi" using one_bitmap_D(3) [OF U(1) f(1)] by (simp add: x_def)
  have x: "x \<notin> A" using U(2) f(2) ux by (auto simp: marks_def m_def)
  then have xm: "x \<noteq> m" "x \<noteq> 0" using U(3,4) by auto
  have r0: "length ho + card ({} :: u32 set) < NBUF" "length ho + card ({} :: u32 set) + 1 < NBUF" "room s (Suc (length ho))" "room s (length ho + 2)"
    using r room_mono [OF r(2)] by simp_all
  have lm: "length (L m) = 1024" "bi div 8 < length (L m)" using fsvD(6) [OF v, of m] f(1) U(1) by (simp_all add: BSIZE_def one_bitmap_def BPB_eq)
  let ?L1 = "L(m := bmap_set bi (L m), x := zeroes)" and ?ho = "logged (logged ho m) x"
  obtain s1 where s1: "balloc E dv s = Ret (x, s1)" "steady s s1" "fsv p pid dv s1 ?ho {} ?L1"
    using balloc_ok [OF v U(1) u(2) xm(1) [unfolded m_def x_def] _ _ r0(2,4) rw] unfolding m_def x_def by auto
  have t: "take_block (sb s) L x = ?L1" "sb s1 = sb s" "?L1 m = bmap_set bi (L m)" using ux s1(2) xm by (simp_all add: take_block_def steady_def m_def)
  have iu: "in_use (sb s1) ?L1 (insert x A)"
    using take_block_marks(1) [OF U(1,2), of x] f(1,2) xm(1) lm(1) U ux t by (simp add: in_use_def m_def [symmetric])
  have "length ?ho \<le> length ho + 2" by (simp add: logged_def)
  then have r1: "length ?ho + card ({} :: u32 set) < NBUF" "room s1 (Suc (length ?ho))"
    using r room_mono [OF r(2)] steady_room [OF s1(2)] by simp_all
  note b1 = bfree_ok [OF s1(3), of bi, unfolded t(2), OF U(1) f(1) _ r1 rw, folded m_def x_def]
  have "?L1(m := bmap_clear bi (?L1 m)) = L(x := zeroes)" unfolding t(3) using bmap_clear_set(1) [OF f(2) lm(2)] xm(1) by (auto simp: fun_eq_iff)
  then obtain s2 where s2: "bfree E dv x s1 = Ret ((), s2)" "steady s1 s2" "fsv p pid dv s2 (logged ?ho m) {} (L(x := zeroes))"
    using b1(1) bmap_clear_set(2) [OF f(2) lm(2)] unfolding t(3) by auto
  have r2: "length (logged ?ho m) + card ({} :: u32 set) < NBUF" "room s2 (Suc (length (logged ?ho m)))"
    using r1 steady_room [OF s2(2)] by (simp_all add: logged_def)
  have "sb s2 = sb s" using s2(2) t(2) by (simp add: steady_def)
  then have "bfree E dv x s2 = Panic ''freeing free block''"
    using bfree_ok(2) [OF s2(3), of bi, OF _ _ _ r2 rw] U(1) f(1,2) xm(1) by (simp add: x_def m_def)
  moreover have "bfree E dv x s = Panic ''freeing free block''" using bfree_ok(2) [OF v U(1) f(1) _ r0(1,3) rw] f(2) by (simp add: x_def m_def)
  ultimately show ?thesis using f(3) x xm(2) s1(1,3) s2(1,3) iu by blast
qed

theorem balloc_bfree_witness:
  "\<exists>s1 s2. balloc ideal_env 1 fresh_fs = Ret (46, s1) \<and> bfree ideal_env 1 46 s1 = Ret ((), s2) \<and> bfree ideal_env 1 46 s2 = Panic ''freeing free block''"
proof -
  have rw: "e_rw ideal_env b wr = disk_rw b wr" for b wr by (simp add: ideal_env_def)
  have u: "in_use (sb fresh_fs) empty_disk {0, 32, 45}" using fresh_fs_writable(1) by (simp add: writable_def inode_ok_def)
  have l: "unat (sb_size layout) = 2000" "sb_bmapstart layout = 45" by (simp_all add: layout_def mk_consts)
  have b: "bmap_bit (empty_disk 45) i \<longleftrightarrow> i < 46" if "i < 2000" for i using bmap_fold [of 46 i] that by (simp add: empty_disk_def)
  have "first_free (sb fresh_fs) empty_disk = Some 46"
    unfolding first_free_def fresh_fs_sel(1) l using b by (intro find_Some_iff [THEN iffD2] exI [of _ 46]) auto
  from balloc_bfree [OF fresh_fs_fsv u this _ _ rw] show ?thesis
    using room_mono [OF fresh_fs_sel(4), of 3] by (auto simp: NBUF_def)
qed

end
