(* ===== verification/Pipe.thy ===== *)
theory Pipe
  imports File Pagetable Bcache
begin

text \<open>
  Pipes as queues of bytes (\<^verbatim>\<open>kernel/pipe.c\<close>, modelled in theory \<open>File\<close>). The bytes of
  a pipe are \<open>pipe_list\<close>. The counters \<^verbatim>\<open>nread\<close> and \<^verbatim>\<open>nwrite\<close> wrap at 32 bits; as
  \<^verbatim>\<open>PIPESIZE\<close> divides the number of their values, the index into the buffer does not jump when they
  do.
\<close>

section \<open>The bytes of a pipe\<close>

definition pipe_len :: "pipe \<Rightarrow> nat" where
  "pipe_len r = unat (pi_nwrite r - pi_nread r)"

definition pipe_at :: "pipe \<Rightarrow> nat \<Rightarrow> u8" where
  "pipe_at r i = pi_data r ((unat (pi_nread r) + i) mod 512)"

definition pipe_list :: "pipe \<Rightarrow> u8 list" where
  "pipe_list r = map (pipe_at r) [0..<pipe_len r]"

lemma length_pipe_list [simp]: "length (pipe_list r) = pipe_len r"
  by (simp add: pipe_list_def)

lemma mod_pipesize: "unat (x mod PIPESIZE) = unat x mod 512"
  by (simp add: PIPESIZE_def unat_mod)

lemma unat_add_mod_512: "unat (x + y :: u32) mod 512 = (unat x + unat y) mod 512"
  by (simp add: unat_word_ariths mod_mod_cancel)

lemma nwrite_index: "unat (pi_nwrite r mod PIPESIZE) = (unat (pi_nread r) + pipe_len r) mod 512"
proof -
  have "pi_nwrite r = pi_nread r + (pi_nwrite r - pi_nread r)" by simp
  then show ?thesis unfolding mod_pipesize pipe_len_def by (metis unat_add_mod_512)
qed

lemma pipe_full: "pi_nwrite r = pi_nread r + PIPESIZE \<longleftrightarrow> pipe_len r = 512"
proof -
  have "pi_nwrite r = pi_nread r + PIPESIZE \<longleftrightarrow> pi_nwrite r - pi_nread r = 512"
    by (auto simp: PIPESIZE_def algebra_simps)
  then show ?thesis by (simp add: pipe_len_def word_unat_eq_iff)
qed

lemma pipe_empty: "pi_nread r = pi_nwrite r \<longleftrightarrow> pipe_len r = 0"
  by (auto simp: pipe_len_def unat_eq_zero)

lemma mod_512_inj: "i < (512::nat) \<Longrightarrow> j < 512 \<Longrightarrow> (x + i) mod 512 = (x + j) mod 512 \<Longrightarrow> i = j"
  using mod_eq_dvd_iff_nat [of "x + i" "x + j" 512] mod_eq_dvd_iff_nat [of "x + j" "x + i" 512]
    nat_dvd_not_less [of "i - j" 512] nat_dvd_not_less [of "j - i" 512]
  by (cases i j rule: linorder_cases) auto

lemma pipe_push:
  assumes "pipe_len r < 512"
  shows "pipe_list (r\<lparr>pi_data := (pi_data r)(unat (pi_nwrite r mod PIPESIZE) := c), pi_nwrite := pi_nwrite r + 1\<rparr>)
    = pipe_list r @ [c]"
proof -
  let ?r = "r\<lparr>pi_data := (pi_data r)(unat (pi_nwrite r mod PIPESIZE) := c), pi_nwrite := pi_nwrite r + 1\<rparr>"
  have "pi_nwrite r + 1 - pi_nread r = (pi_nwrite r - pi_nread r) + 1" by simp
  moreover have "unat ((pi_nwrite r - pi_nread r) + 1) = Suc (unat (pi_nwrite r - pi_nread r))"
    using assms unat_word_ariths(1) [of "pi_nwrite r - pi_nread r" 1] by (simp add: pipe_len_def)
  moreover have sel: "pi_nwrite ?r = pi_nwrite r + 1" "pi_nread ?r = pi_nread r" by simp_all
  ultimately have len: "pipe_len ?r = Suc (pipe_len r)" unfolding pipe_len_def sel by metis
  have "pipe_at ?r i = pipe_at r i" if "i < pipe_len r" for i
    using that assms mod_512_inj [of i "pipe_len r" "unat (pi_nread r)"] by (auto simp: pipe_at_def nwrite_index)
  moreover have "pipe_at ?r (pipe_len r) = c" by (simp add: pipe_at_def nwrite_index)
  ultimately show ?thesis by (simp add: pipe_list_def len)
qed

lemma pipe_pop:
  assumes "0 < pipe_len r"
  shows "pipe_list r = pi_data r (unat (pi_nread r mod PIPESIZE)) # pipe_list (r\<lparr>pi_nread := pi_nread r + 1\<rparr>)"
    "pipe_len (r\<lparr>pi_nread := pi_nread r + 1\<rparr>) = pipe_len r - 1"
proof -
  let ?r = "r\<lparr>pi_nread := pi_nread r + 1\<rparr>"
  have "pi_nwrite r - (pi_nread r + 1) = (pi_nwrite r - pi_nread r) - 1" by simp
  moreover have "1 \<le> pi_nwrite r - pi_nread r" using assms by (simp add: pipe_len_def word_le_nat_alt)
  moreover have sel: "pi_nread ?r = pi_nread r + 1" "pi_nwrite ?r = pi_nwrite r" by simp_all
  ultimately show len: "pipe_len ?r = pipe_len r - 1"
    unfolding pipe_len_def sel by (metis unat_sub unat_1)
  have at: "pipe_at ?r i = pipe_at r (Suc i)" for i
    using mod_add_left_eq [of "unat (pi_nread r + 1)" 512 i] mod_add_left_eq [of "unat (pi_nread r) + 1" 512 i]
    by (simp add: pipe_at_def unat_add_mod_512)
  have "[0..<pipe_len r] = 0 # map Suc [0..<pipe_len r - 1]"
    using assms by (metis Suc_pred' map_Suc_upt upt_conv_Cons)
  then have "pipe_list r = pipe_at r 0 # map (pipe_at r) (map Suc [0..<pipe_len r - 1])" by (simp only: pipe_list_def list.map)
  then show "pipe_list r = pi_data r (unat (pi_nread r mod PIPESIZE)) # pipe_list ?r"
    by (simp add: pipe_list_def len at mod_pipesize) (simp add: pipe_at_def)
qed

section \<open>Pipes in critical sections\<close>

lemma pipes_acq [simp]:
  "pipes (acq l s) = pipes s" "(acq l s)\<lparr>pipes := x\<rparr> = acq l (s\<lparr>pipes := x\<rparr>)"
  by (simp_all add: acq_def push_off_def hart_defs Let_def)

lemma pipes_settle [simp]:
  "pipes (settle s) = pipes s" "(settle s)\<lparr>pipes := x\<rparr> = settle (s\<lparr>pipes := x\<rparr>)"
  by (simp_all add: settle_def hart_defs)

lemma pipes_ok [simp]:
  "hart_ok (s\<lparr>pipes := x\<rparr>) = hart_ok s" "lock_free l (s\<lparr>pipes := x\<rparr>) = lock_free l s"
  "mycpu (s\<lparr>pipes := x\<rparr>) = mycpu s" "procs_ready (s\<lparr>pipes := x\<rparr>) = procs_ready s"
  "calm p pid (s\<lparr>pipes := x\<rparr>) = calm p pid s"
  by (simp_all add: hart_ok_def lock_free_def hart_defs procs_ready_def calm_def)

lemma calm_mem [simp]: "calm p pid (s\<lparr>mem := m\<rparr>) = calm p pid s"
  by (simp add: calm_def procs_ready_def hart_defs)

lemma mem_ready [simp]: "procs_ready (s\<lparr>mem := m\<rparr>) = procs_ready s" "mycpu (s\<lparr>mem := m\<rparr>) = mycpu s"
  by (simp_all add: procs_ready_def hart_defs)

lemma killed_acq:
  assumes "calm p pid s" "l \<noteq> KProc p"
  shows "killed p (acq l s) = Ret (p_killed (proc s p), acq l s)"
  using calmD [OF assms(1)] assms(2) by (simp add: killed_def crit)

lemma copyin_one:
  assumes "user_ok (mem s) r" "unat a + 1 \<le> 2 ^ 38"
  shows "copyin r a 1 s = Ret (case umem (mem s) r a of None \<Rightarrow> (-1, []) | Some b \<Rightarrow> (0, [b]), s)"
proof -
  obtain n bs where n: "copyin r a 1 s = Ret ((if n = 1 then 0 else -1, bs), s)" "mapped_upto (mem s) r a 1 n"
      "map Some bs = map (\<lambda>i. umem (mem s) r (a + of_nat i)) [0..<n]"
    using copyin_loop_ok [of s r a 1 1] assms by (auto simp: copyin_def user_ok_def)
  have "n = 0 \<or> n = 1" using n(2) by (auto simp: mapped_upto_def)
  then show ?thesis
  proof
    assume "n = 0"
    then show ?thesis using n by (simp add: mapped_upto_def umem_def)
  next
    assume "n = 1"
    then show ?thesis using n by (cases "umem (mem s) r a") auto
  qed
qed

lemma copyout_one:
  assumes "user_ok (mem s) r" "unat a + 1 \<le> 2 ^ 38"
  shows "\<exists>m'. copyout r a [c] s = Ret (if umem (mem s) r a = None then -1 else 0, s\<lparr>mem := m'\<rparr>) \<and> user_ok m' r
    \<and> (\<forall>x. upage m' r x = upage (mem s) r x)
    \<and> umem m' r = (if umem (mem s) r a = None then umem (mem s) r else (umem (mem s) r)(a := Some c))"
proof -
  obtain n m' where n: "copyout r a [c] s = Ret (if n = 1 then 0 else -1, s\<lparr>mem := m'\<rparr>)" "mapped_upto (mem s) r a 1 n"
      "user_ok m' r" "\<forall>x. upage m' r x = upage (mem s) r x" "umem m' r = overlay a (take n [c]) (umem (mem s) r)"
    using copyout_loop_ok [of s r a "[c]" 1] assms by (auto simp: copyout_def)
  have "n = 0 \<or> n = 1" using n(2) by (auto simp: mapped_upto_def)
  then show ?thesis
  proof
    assume "n = 0"
    then show ?thesis using n by (intro exI [of _ m']) (auto simp: mapped_upto_def umem_def overlay_def fun_eq_iff)
  next
    assume "n = 1"
    then show ?thesis using n by (intro exI [of _ m']) (auto simp: mapped_upto_def umem_def overlay_def fun_eq_iff word_unat_eq_iff)
  qed
qed

section \<open>Writing\<close>

text \<open>The bytes that a user program passes: \<open>n\<close> of them from \<open>addr\<close> on, up to the first
  one that is not mapped.\<close>

definition user_bytes :: "mem \<Rightarrow> u64 \<Rightarrow> u64 \<Rightarrow> nat \<Rightarrow> u8 list \<Rightarrow> bool" where
  "user_bytes m r addr n bs \<longleftrightarrow> mapped_upto m r addr n (length bs)
    \<and> map Some bs = map (\<lambda>i. umem m r (addr + of_nat i)) [0..<length bs]"

lemma mapped_upto_Suc:
  "mapped_upto m r a (Suc n) (Suc k) \<longleftrightarrow> upage m r a \<noteq> None \<and> mapped_upto m r (a + 1) n k"
proof -
  have shift: "a + of_nat (Suc i) = a + 1 + of_nat i" for i by simp
  have "(\<forall>i<Suc k. P i) \<longleftrightarrow> P 0 \<and> (\<forall>i<k. P (Suc i))" for P by (metis less_Suc_eq_0_disj)
  then show ?thesis unfolding mapped_upto_def shift by (auto simp: add.assoc)
qed

lemma user_bytes_Suc:
  "user_bytes m r a (Suc n) bs \<longleftrightarrow> (case umem m r a of None \<Rightarrow> bs = []
    | Some b \<Rightarrow> \<exists>cs. bs = b # cs \<and> user_bytes m r (a + 1) n cs)"
proof (cases bs)
  case Nil
  then show ?thesis by (simp add: user_bytes_def mapped_upto_def umem_def split: option.split)
next
  case (Cons c cs)
  have um: "upage m r a = None \<longleftrightarrow> umem m r a = None" by (simp add: umem_def split: option.split)
  have "[0..<Suc (length cs)] = 0 # map Suc [0..<length cs]" by (metis map_Suc_upt upt_conv_Cons zero_less_Suc)
  then have "map (\<lambda>i. umem m r (a + of_nat i)) [0..<Suc (length cs)]
      = umem m r a # map (\<lambda>i. umem m r (a + 1 + of_nat i)) [0..<length cs]" by (simp add: add.assoc del: upt_Suc)
  then show ?thesis
    using Cons um by (auto simp: user_bytes_def mapped_upto_Suc simp del: upt_Suc split: option.split)
qed

lemma pipewrite_loop_ok:
  assumes "calm p pid t" "user_ok (mem t) r" "p_pagetable (proc t p) = r" "unat addr + n \<le> 2 ^ 38" "i \<le> n"
    "pipe_len (pipes t pi) + (n - i) \<le> 512" "pi_readopen (pipes t pi)" "p_killed (proc t p) = 0" "n - i \<le> k"
  shows "\<exists>bs q. pipewrite_loop k E p pi addr (int n) (int i) (acq (KPipe pi) t)
      = Ret (Some (int (i + length bs)), acq (KPipe pi) (t\<lparr>pipes := (pipes t)(pi := q)\<rparr>))
    \<and> user_bytes (mem t) r (addr + of_nat i) (n - i) bs \<and> pipe_list q = pipe_list (pipes t pi) @ bs
    \<and> pi_readopen q = pi_readopen (pipes t pi) \<and> pi_writeopen q = pi_writeopen (pipes t pi)"
  using assms
proof (induction k arbitrary: i t)
  case 0
  then show ?case
    by (intro exI [of _ "[]"] exI [of _ "pipes t pi"]) (simp add: return_apply user_bytes_def mapped_upto_def)
next
  case (Suc k)
  note c = calmD [OF Suc.prems(1)]
  have [simp]: "KPipe pi \<noteq> KProc p" by simp
  show ?case
  proof (cases "i < n")
    case False
    then show ?thesis using Suc.prems
      by (intro exI [of _ "[]"] exI [of _ "pipes t pi"]) (simp add: return_apply user_bytes_def mapped_upto_def)
  next
    case True
    then obtain l where l: "n - i = Suc l" "n - Suc i = l" by (metis Suc_diff_Suc)
    have "unat (addr + of_nat i) = unat addr + i" using True Suc.prems(4) by (intro unat_add_of_nat) simp
    then have a: "unat (addr + of_nat i) + 1 \<le> 2 ^ 38" using True Suc.prems(4) by simp
    have nf: "pi_nwrite (pipes t pi) \<noteq> pi_nread (pipes t pi) + PIPESIZE" using Suc.prems(6) l by (simp add: pipe_full)
    note ci = copyin_one [of "acq (KPipe pi) t" r "addr + of_nat i"]
    show ?thesis
    proof (cases "umem (mem t) r (addr + of_nat i)")
      case None
      have "pipewrite_loop (Suc k) E p pi addr (int n) (int i) (acq (KPipe pi) t) = Ret (Some (int i), acq (KPipe pi) t)"
        using Suc.prems True a nf None ci c by (simp add: kM_simps killed_acq [OF Suc.prems(1)])
      then show ?thesis using None l
        by (intro exI [of _ "[]"] exI [of _ "pipes t pi"]) (simp add: user_bytes_Suc)
    next
      case (Some b)
      define q where "q = (pipes t pi)\<lparr>pi_data := (pi_data (pipes t pi))(unat (pi_nwrite (pipes t pi) mod PIPESIZE) := b),
        pi_nwrite := pi_nwrite (pipes t pi) + 1\<rparr>"
      let ?t = "t\<lparr>pipes := (pipes t)(pi := q)\<rparr>"
      have q: "pipe_list q = pipe_list (pipes t pi) @ [b]" "pi_readopen q = pi_readopen (pipes t pi)"
          "pi_writeopen q = pi_writeopen (pipes t pi)"
        using Suc.prems(6) l pipe_push [of "pipes t pi" b] by (simp_all add: q_def)
      then have "pipe_len q = Suc (pipe_len (pipes t pi))" by (metis length_append_singleton length_pipe_list)
      then obtain bs q' where IH: "pipewrite_loop k E p pi addr (int n) (int (Suc i)) (acq (KPipe pi) ?t)
          = Ret (Some (int (Suc i + length bs)), acq (KPipe pi) (?t\<lparr>pipes := (pipes ?t)(pi := q')\<rparr>))"
        "user_bytes (mem ?t) r (addr + of_nat (Suc i)) (n - Suc i) bs" "pipe_list q' = pipe_list (pipes ?t pi) @ bs"
        "pi_readopen q' = pi_readopen (pipes ?t pi)" "pi_writeopen q' = pi_writeopen (pipes ?t pi)"
        by (atomize_elim, intro Suc.IH) (use Suc.prems l True q in simp_all)
      have "pipewrite_loop (Suc k) E p pi addr (int n) (int i) (acq (KPipe pi) t)
          = pipewrite_loop k E p pi addr (int n) (int (Suc i)) (acq (KPipe pi) ?t)"
        using Suc.prems True a nf Some ci c by (simp add: kM_simps killed_acq [OF Suc.prems(1)] upd_pipe_def q_def add.commute)
      also have "\<dots> = Ret (Some (int (i + length (b # bs))), acq (KPipe pi) (t\<lparr>pipes := (pipes t)(pi := q')\<rparr>))"
        using IH(1) by simp
      finally show ?thesis using Some l q IH(2-5)
        by (intro exI [of _ "b # bs"] exI [of _ q']) (simp add: user_bytes_Suc add.assoc add.commute [of 1] fun_upd_def)
    qed
  qed
qed

section \<open>Reading\<close>

text \<open>\<open>user_writes m r addr bs k m'\<close>: of the bytes \<open>bs\<close> the first \<open>k\<close>, up to the first
  address that is not mapped, are stored from \<open>addr\<close> on.\<close>

definition user_writes :: "mem \<Rightarrow> u64 \<Rightarrow> u64 \<Rightarrow> u8 list \<Rightarrow> nat \<Rightarrow> mem \<Rightarrow> bool" where
  "user_writes m r addr bs k m' \<longleftrightarrow> mapped_upto m r addr (length bs) k \<and> user_ok m' r
    \<and> (\<forall>x. upage m' r x = upage m r x) \<and> umem m' r = overlay addr (take k bs) (umem m r)"

lemma overlay_Cons:
  "unat (a + 1) = unat a + 1 \<Longrightarrow> overlay (a + 1) xs (f(a := Some c)) = overlay a (c # xs) f"
  by (auto simp: overlay_def fun_eq_iff nth_Cons' word_unat_eq_iff)

lemma user_writes_Cons:
  assumes "user_writes m1 r (a + 1) bs j m'" "umem m1 r = (umem m r)(a := Some c)" "\<forall>x. upage m1 r x = upage m r x"
    "upage m r a \<noteq> None" "unat (a + 1) = unat a + 1"
  shows "user_writes m r a (c # bs) (Suc j) m'"
proof -
  have "mapped_upto m1 r = mapped_upto m r" using assms(3) by (simp add: mapped_upto_def fun_eq_iff)
  then show ?thesis using assms overlay_Cons [OF assms(5)] by (simp add: user_writes_def mapped_upto_Suc)
qed

lemma piperead_loop_ok:
  assumes "calm p pid t" "user_ok (mem t) r" "p_pagetable (proc t p) = r" "unat addr + i + k \<le> 2 ^ 38"
  shows "\<exists>j m' q. piperead_loop k p pi addr (int i) (acq (KPipe pi) t)
      = Ret (int (i + j), acq (KPipe pi) (t\<lparr>pipes := (pipes t)(pi := q), mem := m'\<rparr>))
    \<and> user_writes (mem t) r (addr + of_nat i) (take k (pipe_list (pipes t pi))) j m'
    \<and> pipe_list q = drop (if j < min k (pipe_len (pipes t pi)) then Suc j else j) (pipe_list (pipes t pi))
    \<and> pi_readopen q = pi_readopen (pipes t pi) \<and> pi_writeopen q = pi_writeopen (pipes t pi)"
  using assms
proof (induction k arbitrary: i t)
  case 0
  then show ?case
    by (intro exI [of _ 0] exI [of _ "mem t"] exI [of _ "pipes t pi"])
      (simp add: return_apply user_writes_def mapped_upto_def overlay_def fun_eq_iff)
next
  case (Suc k)
  let ?r = "pipes t pi"
  show ?case
  proof (cases "pipe_len ?r = 0")
    case True
    then show ?thesis using Suc.prems
      by (intro exI [of _ 0] exI [of _ "mem t"] exI [of _ "pipes t pi"])
        (simp add: kM_simps user_writes_def mapped_upto_def overlay_def fun_eq_iff pipe_empty)
  next
    case False
    define q where "q = ?r\<lparr>pi_nread := pi_nread ?r + 1\<rparr>"
    let ?c = "pi_data ?r (unat (pi_nread ?r mod PIPESIZE))" and ?t = "t\<lparr>pipes := (pipes t)(pi := q)\<rparr>"
    have q: "pipe_list ?r = ?c # pipe_list q" "pipe_len ?r = Suc (pipe_len q)" "pi_readopen q = pi_readopen ?r"
        "pi_writeopen q = pi_writeopen ?r" "pi_nread ?r \<noteq> pi_nwrite ?r"
      using pipe_pop [of ?r] False by (simp_all add: q_def pipe_empty)
    have "unat (addr + of_nat i) = unat addr + i" using Suc.prems(4) by (intro unat_add_of_nat) simp
    then have a: "unat (addr + of_nat i) + 1 \<le> 2 ^ 38" using Suc.prems(4) by simp
    obtain m1 where m1: "copyout r (addr + of_nat i) [?c] (acq (KPipe pi) ?t)
        = Ret (if umem (mem t) r (addr + of_nat i) = None then -1 else 0, acq (KPipe pi) (?t\<lparr>mem := m1\<rparr>))" "user_ok m1 r"
        "\<forall>x. upage m1 r x = upage (mem t) r x" "umem m1 r = (if umem (mem t) r (addr + of_nat i) = None then umem (mem t) r
          else (umem (mem t) r)(addr + of_nat i := Some ?c))"
      using copyout_one [of "acq (KPipe pi) ?t" r "addr + of_nat i" ?c] a Suc.prems(2) by auto
    have step: "piperead_loop (Suc k) p pi addr (int i) (acq (KPipe pi) t) =
        (if umem (mem t) r (addr + of_nat i) = None then Ret (int i, acq (KPipe pi) (?t\<lparr>mem := m1\<rparr>))
         else piperead_loop k p pi addr (int (Suc i)) (acq (KPipe pi) (?t\<lparr>mem := m1\<rparr>)))"
      using m1(1) q(5) Suc.prems(3) by (simp add: kM_simps Let_def upd_pipe_def add.commute [of 1 "int i"] flip: q_def)
    show ?thesis
    proof (cases "umem (mem t) r (addr + of_nat i)")
      case None
      then have "upage (mem t) r (addr + of_nat i) = None" by (simp add: umem_def split: option.splits)
      then have "user_writes (mem t) r (addr + of_nat i) (take (Suc k) (pipe_list ?r)) 0 m1"
        using m1 None q(2) by (simp add: user_writes_def mapped_upto_def overlay_def fun_eq_iff)
      then show ?thesis using step None q
        by (intro exI [of _ 0] exI [of _ m1] exI [of _ q]) (simp add: fun_upd_def del: piperead_loop.simps)
    next
      case (Some b)
      let ?t1 = "?t\<lparr>mem := m1\<rparr>"
      obtain j m' q' where IH: "piperead_loop k p pi addr (int (Suc i)) (acq (KPipe pi) ?t1)
          = Ret (int (Suc i + j), acq (KPipe pi) (?t1\<lparr>pipes := (pipes ?t1)(pi := q'), mem := m'\<rparr>))"
        "user_writes (mem ?t1) r (addr + of_nat (Suc i)) (take k (pipe_list (pipes ?t1 pi))) j m'"
        "pipe_list q' = drop (if j < min k (pipe_len (pipes ?t1 pi)) then Suc j else j) (pipe_list (pipes ?t1 pi))"
        "pi_readopen q' = pi_readopen (pipes ?t1 pi)" "pi_writeopen q' = pi_writeopen (pipes ?t1 pi)"
        by (atomize_elim, intro Suc.IH) (use Suc.prems m1(2) in simp_all)
      have "unat (addr + of_nat i + 1) = unat (addr + of_nat i) + 1" using a by (simp add: unat_word_ariths)
      moreover have "upage (mem t) r (addr + of_nat i) \<noteq> None" using Some by (auto simp: umem_def split: option.splits)
      ultimately have "user_writes (mem t) r (addr + of_nat i) (take (Suc k) (pipe_list ?r)) (Suc j) m'"
        using IH(2) m1(3,4) Some unfolding q(1) take_Suc_Cons by (intro user_writes_Cons [of m1]) (simp_all add: add.assoc add.commute [of 1])
      moreover have "piperead_loop (Suc k) p pi addr (int i) (acq (KPipe pi) t)
          = Ret (int (i + Suc j), acq (KPipe pi) (t\<lparr>pipes := (pipes t)(pi := q'), mem := m'\<rparr>))"
        using step IH(1) Some by (simp del: piperead_loop.simps)
      ultimately show ?thesis using q IH(3-5)
        by (intro exI [of _ "Suc j"] exI [of _ m'] exI [of _ q']) (simp add: fun_upd_def del: piperead_loop.simps)
    qed
  qed
qed

section \<open>The pipe as a queue\<close>

lemmas pipe_call = crit with_ptr_def myproc_eq wakeup_eq procs_ready_acq

lemma pipewrite_ok:
  assumes c: "calm p pid s" and u: "user_ok (mem s) r" "p_pagetable (proc s p) = r" "unat addr + n \<le> 2 ^ 38"
    and p: "p_killed (proc s p) = 0" "pipe_len (pipes s pi) + n \<le> 512" "pi_readopen (pipes s pi)"
  shows "\<exists>bs s'. pipewrite E pi addr (int n) s = Ret (int (length bs), s') \<and> calm p pid s' \<and> mem s' = mem s
    \<and> user_bytes (mem s) r addr n bs \<and> pipe_list (pipes s' pi) = pipe_list (pipes s pi) @ bs
    \<and> (\<forall>pj. pj \<noteq> pi \<longrightarrow> pipes s' pj = pipes s pj)"
proof -
  obtain bs q where w: "pipewrite_loop (n + e_fuel E) E p pi addr (int n) (int 0) (acq (KPipe pi) s)
      = Ret (Some (int (0 + length bs)), acq (KPipe pi) (s\<lparr>pipes := (pipes s)(pi := q)\<rparr>))"
    "user_bytes (mem s) r (addr + of_nat 0) (n - 0) bs" "pipe_list q = pipe_list (pipes s pi) @ bs"
    using pipewrite_loop_ok [OF c u, of 0 pi "n + e_fuel E" E] p by auto
  then show ?thesis
    using calmD [OF c] by (auto simp: pipewrite_def pipe_call calm_def wake_all_def)
qed

lemma piperead_ok:
  assumes c: "calm p pid s" and u: "user_ok (mem s) r" "p_pagetable (proc s p) = r" "unat addr + n \<le> 2 ^ 38"
    and p: "pipe_len (pipes s pi) \<noteq> 0 \<or> \<not> pi_writeopen (pipes s pi)"
  shows "\<exists>j s'. piperead E pi addr (int n) s = Ret (int j, s') \<and> calm p pid s'
    \<and> user_writes (mem s) r addr (take n (pipe_list (pipes s pi))) j (mem s')
    \<and> pipe_list (pipes s' pi) = drop (if j < min n (pipe_len (pipes s pi)) then Suc j else j) (pipe_list (pipes s pi))
    \<and> (\<forall>pj. pj \<noteq> pi \<longrightarrow> pipes s' pj = pipes s pj)"
proof -
  obtain j m' q where w: "piperead_loop n p pi addr (int 0) (acq (KPipe pi) s)
      = Ret (int (0 + j), acq (KPipe pi) (s\<lparr>pipes := (pipes s)(pi := q), mem := m'\<rparr>))"
    "user_writes (mem s) r (addr + of_nat 0) (take n (pipe_list (pipes s pi))) j m'"
    "pipe_list q = drop (if j < min n (pipe_len (pipes s pi)) then Suc j else j) (pipe_list (pipes s pi))"
    using piperead_loop_ok [OF c u(1,2), of addr 0 n pi] u(3) by auto
  let ?s = "settle (s\<lparr>pipes := (pipes s)(pi := q), mem := m', proc := wake_all (Some (ChPipeWrite pi)) (Some p) (proc s)\<rparr>)"
  have "piperead E pi addr (int n) s = Ret (int j, ?s)"
    using w(1) calmD [OF c] p by (auto simp: piperead_def pipe_call pipe_empty)
  moreover have "calm p pid ?s" using calmD [OF c] by (simp add: calm_def wake_all_def)
  ultimately show ?thesis using w(2,3) by (intro exI [of _ j] exI [of _ ?s]) simp
qed

text \<open>C7. A pipe is a queue of bytes. \<^verbatim>\<open>pipewrite\<close> with room for its bytes returns how many of
  them it could read from the user's memory and appends exactly those; when the read end is closed it
  returns -1 and changes nothing. \<^verbatim>\<open>piperead\<close> of a pipe that is not empty, or whose write end is
  closed, takes bytes from the front in order, stores them at the user's address and returns their
  number; when the user's memory ends early, the byte that could not be stored is taken as well and
  lost. Other pipes do not change.\<close>

theorem pipe_fifo:
  assumes "calm p pid s" and "user_ok (mem s) r" and "p_pagetable (proc s p) = r" and "unat addr + n \<le> 2 ^ 38"
    and "p_killed (proc s p) = 0"
  shows "(pi_readopen (pipes s pi) \<and> pipe_len (pipes s pi) + n \<le> 512 \<longrightarrow>
      (\<exists>bs s'. pipewrite E pi addr (int n) s = Ret (int (length bs), s') \<and> calm p pid s' \<and> mem s' = mem s
        \<and> user_bytes (mem s) r addr n bs \<and> pipe_list (pipes s' pi) = pipe_list (pipes s pi) @ bs
        \<and> (\<forall>pj. pj \<noteq> pi \<longrightarrow> pipes s' pj = pipes s pj)))
    \<and> (\<not> pi_readopen (pipes s pi) \<and> 0 < n \<longrightarrow> pipewrite E pi addr (int n) s = Ret (-1, settle s))
    \<and> (pipe_len (pipes s pi) \<noteq> 0 \<or> \<not> pi_writeopen (pipes s pi) \<longrightarrow>
      (\<exists>j s'. piperead E pi addr (int n) s = Ret (int j, s') \<and> calm p pid s'
        \<and> user_writes (mem s) r addr (take n (pipe_list (pipes s pi))) j (mem s')
        \<and> pipe_list (pipes s' pi) = drop (if j < min n (pipe_len (pipes s pi)) then Suc j else j) (pipe_list (pipes s pi))
        \<and> (\<forall>pj. pj \<noteq> pi \<longrightarrow> pipes s' pj = pipes s pj)))"
proof (intro conjI impI)
  assume closed: "\<not> pi_readopen (pipes s pi) \<and> 0 < n"
  then obtain k where k: "nat (int n) + e_fuel E = Suc k" by (metis add_gr_0 gr0_implies_Suc nat_int)
  show "pipewrite E pi addr (int n) s = Ret (-1, settle s)"
    unfolding pipewrite_def k using closed calmD [OF assms(1)] by (simp add: pipe_call)
qed (use pipewrite_ok [OF assms(1-4)] piperead_ok [OF assms(1-4)] assms(5) in simp_all)

text \<open>A pipe with four bytes whose write counter has wrapped.\<close>

definition pipe_world :: filestate where
  "pipe_world = ustate.extend ((quiet_ustate (\<lambda>_. blank_proc\<lparr>p_pagetable := 0x87FF1000\<rparr>) (Some 1))\<lparr>mem := user_mem\<rparr>) \<lparr>
     slks = (\<lambda>_. \<lparr>sl_locked = False, sl_name = [], sl_pid = 0\<rparr>),
     bufs = (\<lambda>b. \<lparr>b_valid = False, b_disk = False, b_dev = 0, b_blockno = 0, b_refcnt = 0, b_prev = 0, b_next = 0,
       b_data = []\<rparr>),
     log = \<lparr>lg_start = 2, lg_size = 30, lg_outstanding = 0, lg_committing = False, lg_dev = 1,
       lg_lh = \<lparr>lh_n = 0, lh_block = (\<lambda>_. 0)\<rparr>\<rparr>,
     sb = \<lparr>sb_magic = 0, sb_size = 0, sb_nblocks = 0, sb_ninodes = 0, sb_nlog = 0, sb_logstart = 0, sb_inodestart = 0,
       sb_bmapstart = 0\<rparr>,
     itable = (\<lambda>_. \<lparr>i_dev = 0, i_inum = 0, i_ref = 0, i_valid = False, i_type = 0, i_major = 0, i_minor = 0, i_nlink = 0,
       i_size = 0, i_addrs = []\<rparr>),
     ftable = (\<lambda>_. \<lparr>f_type = FD_NONE, f_ref = 0, f_readable = False, f_writable = False, f_pipe = 0, f_ip = None, f_off = 0,
       f_major = 0\<rparr>),
     pipes = (\<lambda>_. \<lparr>pi_data = of_nat, pi_nread = -1, pi_nwrite = 3, pi_readopen = True, pi_writeopen = True\<rparr>)\<rparr>"

lemma pipe_world_ok:
  "calm 1 (p_pid blank_proc) pipe_world" "mem pipe_world = user_mem" "p_pagetable (proc pipe_world 1) = 0x87FF1000"
  "p_killed (proc pipe_world 1) = 0"
  "pipes pipe_world pi = \<lparr>pi_data = of_nat, pi_nread = -1, pi_nwrite = 3, pi_readopen = True, pi_writeopen = True\<rparr>"
  by (simp_all add: pipe_world_def quiet_ustate_def quiet_pstate_def pstate.defs ustate.defs calm_def procs_ready_def hart_ok_def
      lock_free_def hart_defs blank_proc_def)

lemma pipe_world_list: "pipe_list (pipes pipe_world pi) = [255, 0, 1, 2]" "pipe_len (pipes pipe_world pi) = 4"
  by (simp_all add: pipe_list_def pipe_len_def pipe_at_def pipe_world_ok upt_rec unsigned_minus_1_eq_mask mask_eq_exp_minus_1)

theorem pipe_fifo_witness:
  "\<forall>E. (\<exists>bs s'. pipewrite E 0x87FF5000 0x1000 1 pipe_world = Ret (int (length bs), s')
      \<and> pipe_list (pipes s' 0x87FF5000) = [255, 0, 1, 2] @ bs)
    \<and> (\<exists>j s'. piperead E 0x87FF5000 0x1000 1 pipe_world = Ret (int j, s') \<and> pipe_list (pipes s' 0x87FF5000) = [0, 1, 2])"
proof
  fix E :: "filestate env"
  have "user_ok (mem pipe_world) 0x87FF1000" "unat (0x1000 :: u64) + 1 \<le> 2 ^ 38"
    by (simp_all add: pipe_world_ok user_mem_ok)
  note f = pipe_fifo [OF pipe_world_ok(1) this(1) pipe_world_ok(3) this(2) pipe_world_ok(4), of "0x87FF5000" E,
      unfolded pipe_world_list]
  show "(\<exists>bs s'. pipewrite E 0x87FF5000 0x1000 1 pipe_world = Ret (int (length bs), s')
      \<and> pipe_list (pipes s' 0x87FF5000) = [255, 0, 1, 2] @ bs)
    \<and> (\<exists>j s'. piperead E 0x87FF5000 0x1000 1 pipe_world = Ret (int j, s') \<and> pipe_list (pipes s' 0x87FF5000) = [0, 1, 2])"
    using f by (auto simp: pipe_world_ok(5) user_writes_def mapped_upto_def le_Suc_eq)
qed

end
