(* ===== verification/Ulib.thy ===== *)
theory Ulib
  imports Console
begin

text \<open>
  User programs and their library: \<^verbatim>\<open>user/ulib.c\<close> and \<^verbatim>\<open>user/printf.c\<close>.

  A user program is a tree of system calls: it ends, or makes a call and goes on with what the
  kernel gives back, the return value and the bytes stored through the pointer that was passed.
  A program that forks goes on in the same way with 0, which is the child, and with a pid, which
  is the parent, so that the tree has the behaviour of every process that the program starts.
  A loop that reads until the kernel says stop has a bound on its rounds and becomes
  \<open>UHang\<close> when the bound is used up.

  A C string is the list of its bytes up to the terminating nul; a character array is the list of
  all of its bytes.
\<close>

section \<open>Programs\<close>

datatype ucall = UFork | UWait | UPipe | URead int nat | UWrite int "u8 list" | UClose int | UKill int
  | UExec "u8 list" "u8 list list" | UOpen "u8 list" int | UMknod "u8 list" int int | UUnlink "u8 list" | UFstat int
  | ULink "u8 list" "u8 list" | UMkdir "u8 list" | UChdir "u8 list" | UDup int | USbrk int | USleep int | UTrace int
  | UWaitx | USetpriority int int

datatype 'a uprog = UDone 'a | UExit int | UHang | UCall ucall "int \<times> u8 list \<Rightarrow> 'a uprog"

primrec ubind :: "'a uprog \<Rightarrow> ('a \<Rightarrow> 'b uprog) \<Rightarrow> 'b uprog" where
  "ubind (UDone a) f = f a"
| "ubind (UExit st) f = UExit st"
| "ubind UHang f = UHang"
| "ubind (UCall c k) f = UCall c (\<lambda>r. ubind (k r) f)"

definition useq :: "'a uprog \<Rightarrow> 'b uprog \<Rightarrow> 'b uprog" where
  "useq p q = ubind p (\<lambda>_. q)"

definition ucall :: "ucall \<Rightarrow> int uprog" where
  "ucall c = UCall c (\<lambda>r. UDone (fst r))"

definition ucall_data :: "ucall \<Rightarrow> (int \<times> u8 list) uprog" where
  "ucall_data c = UCall c UDone"

definition uwhen :: "bool \<Rightarrow> unit uprog \<Rightarrow> unit uprog" where
  "uwhen b p = (if b then p else UDone ())"

primrec ufor :: "'x list \<Rightarrow> ('x \<Rightarrow> unit uprog) \<Rightarrow> unit uprog" where
  "ufor [] f = UDone ()"
| "ufor (x # xs) f = useq (f x) (ufor xs f)"

text \<open>The bytes \<open>d\<close> stored at position \<open>i\<close> of an array.\<close>

definition store_at :: "nat \<Rightarrow> u8 list \<Rightarrow> u8 list \<Rightarrow> u8 list" where
  "store_at i d buf = take i buf @ d @ drop (i + length d) buf"

text \<open>The C string at position \<open>p\<close> of an array.\<close>

definition cstr :: "u8 list \<Rightarrow> nat \<Rightarrow> u8 list" where
  "cstr buf p = takeWhile (\<lambda>b. b \<noteq> 0) (drop p buf)"

text \<open>A program run by a system: what each call returns and stores, with the new state of the
  system.\<close>

datatype 'a uend = Returned 'a | Exited int | Hung

primrec urun :: "(ucall \<Rightarrow> 'w \<Rightarrow> (int \<times> u8 list) \<times> 'w) \<Rightarrow> 'a uprog \<Rightarrow> 'w \<Rightarrow> 'a uend \<times> 'w" where
  "urun os (UDone a) w = (Returned a, w)"
| "urun os (UExit st) w = (Exited st, w)"
| "urun os UHang w = (Hung, w)"
| "urun os (UCall c k) w = (case os c w of (r, w') \<Rightarrow> urun os (k r) w')"

text \<open>\<^verbatim>\<open>_main\<close>: a program whose \<^verbatim>\<open>main\<close> returns exits with 0.\<close>

definition main_wrapper :: "unit uprog \<Rightarrow> unit uprog" where
  "main_wrapper main = useq main (UExit 0)"

section \<open>ulib.c\<close>

fun strcpy :: "u8 list \<Rightarrow> nat \<Rightarrow> u8 list \<Rightarrow> u8 list" where
  "strcpy s i [] = s[i := 0]"
| "strcpy s i (c # t) = strcpy (s[i := c]) (Suc i) t"

fun strcmp :: "u8 list \<Rightarrow> u8 list \<Rightarrow> int" where
  "strcmp (p # ps) (q # qs) = (if p = q then strcmp ps qs else uint p - uint q)"
| "strcmp (p # ps) [] = uint p"
| "strcmp [] (q # qs) = - uint q"
| "strcmp [] [] = 0"

fun strlen_u :: "u8 list \<Rightarrow> nat" where
  "strlen_u [] = 0"
| "strlen_u (c # s) = Suc (strlen_u s)"

definition memset_u :: "u8 list \<Rightarrow> nat \<Rightarrow> int \<Rightarrow> nat \<Rightarrow> u8 list" where
  "memset_u buf at c n = fold (\<lambda>i b. b[at + i := of_int c]) [0..<n] buf"

fun strchr :: "u8 list \<Rightarrow> u8 \<Rightarrow> u8 list option" where
  "strchr [] c = None"
| "strchr (x # s) c = (if x = c then Some (x # s) else strchr s c)"

text \<open>The loop of \<^verbatim>\<open>gets\<close> at position \<open>i\<close>, with \<open>k\<close> positions left.\<close>

primrec gets_loop :: "nat \<Rightarrow> nat \<Rightarrow> u8 list \<Rightarrow> u8 list uprog" where
  "gets_loop 0 i buf = UDone (buf[i := 0])"
| "gets_loop (Suc k) i buf =
    ubind (ucall_data (URead 0 1)) (\<lambda>(cc, d).
    if cc < 1 then UDone (buf[i := 0]) else
    let c = hd d; buf' = buf[i := c] in
    if c = 10 \<or> c = 13 then UDone (buf'[Suc i := 0]) else gets_loop k (Suc i) buf')"

definition gets_u :: "u8 list \<Rightarrow> int \<Rightarrow> u8 list uprog" where
  "gets_u buf mx = gets_loop (nat (mx - 1)) 0 buf"

definition stat_u :: "u8 list \<Rightarrow> (int \<times> u8 list) uprog" where
  "stat_u n =
    ubind (ucall (UOpen n 0)) (\<lambda>fd.
    if fd < 0 then UDone (-1, []) else
    ubind (ucall_data (UFstat fd)) (\<lambda>r.
    useq (ucall (UClose fd)) (UDone r)))"

text \<open>The \<^verbatim>\<open>int\<close> of \<^verbatim>\<open>atoi\<close> wraps, as it does on the machine.\<close>

fun atoi_loop :: "int \<Rightarrow> u8 list \<Rightarrow> int" where
  "atoi_loop n [] = n"
| "atoi_loop n (c # s) =
    (if 48 \<le> c \<and> c \<le> 57 then atoi_loop (sint (of_int (n * 10 + uint c - 48) :: u32)) s else n)"

definition atoi :: "u8 list \<Rightarrow> int" where
  "atoi s = atoi_loop 0 s"

definition memmove_u :: "u64 \<Rightarrow> u64 \<Rightarrow> int \<Rightarrow> mem \<Rightarrow> mem" where
  "memmove_u dst src n m =
    (if src > dst then copy_up (nat n) dst src m
     else copy_down (nat n) (dst + of_int n) (src + of_int n) m)"

fun memcmp_u :: "bytes_at \<Rightarrow> bytes_at \<Rightarrow> nat \<Rightarrow> int" where
  "memcmp_u p1 p2 0 = 0"
| "memcmp_u p1 p2 (Suc n) =
    (if p1 0 \<noteq> p2 0 then uint (p1 0) - uint (p2 0)
     else memcmp_u (\<lambda>i. p1 (Suc i)) (\<lambda>i. p2 (Suc i)) n)"

definition memcpy_u :: "u64 \<Rightarrow> u64 \<Rightarrow> u32 \<Rightarrow> mem \<Rightarrow> mem" where
  "memcpy_u dst src n m = memmove_u dst src (sint n) m"

section \<open>printf.c\<close>

definition digits_u :: string where "digits_u = ''0123456789ABCDEF''"

definition putc :: "int \<Rightarrow> u8 \<Rightarrow> unit uprog" where
  "putc fd c = useq (ucall (UWrite fd [c])) (UDone ())"

primrec print_digits_u :: "nat \<Rightarrow> u32 \<Rightarrow> u32 \<Rightarrow> char list" where
  "print_digits_u 0 x base = []"
| "print_digits_u (Suc n) x base =
    digits_u ! unat (x mod base) # (if x div base \<noteq> 0 then print_digits_u n (x div base) base else [])"

definition printint_u :: "int \<Rightarrow> int \<Rightarrow> u32 \<Rightarrow> bool \<Rightarrow> unit uprog" where
  "printint_u fd xx base sign =
    (let neg = (sign \<and> xx < 0);
         x = (if neg then - of_int xx else of_int xx :: u32);
         buf = print_digits_u 32 x base @ (if neg then ''-'' else [])
     in ufor (rev buf) (\<lambda>c. putc fd (of_char c)))"

definition printptr_u :: "int \<Rightarrow> u64 \<Rightarrow> unit uprog" where
  "printptr_u fd x =
    useq (putc fd (of_char (CHR ''0'')))
    (useq (putc fd (of_char (CHR ''x'')))
    (ufor [0..<16] (\<lambda>i. putc fd (of_char (digits_u ! unat (drop_bit 60 (push_bit (4 * i) x)))))))"

text \<open>The loop of \<^verbatim>\<open>vprintf\<close>; \<open>pct\<close> is its \<^verbatim>\<open>state == '%'\<close>. The argument of
  \<^verbatim>\<open>%l\<close> is passed on as an \<^verbatim>\<open>int\<close>.\<close>

fun vprintf_loop :: "int \<Rightarrow> string \<Rightarrow> bool \<Rightarrow> arg list \<Rightarrow> unit uprog" where
  "vprintf_loop fd [] pct ap = UDone ()"
| "vprintf_loop fd (c # fmt) pct ap =
    (if \<not> pct then
       (if c = CHR ''%'' then vprintf_loop fd fmt True ap
        else useq (putc fd (of_char c)) (vprintf_loop fd fmt False ap))
     else if c = CHR ''d'' then useq (printint_u fd (va_int (va_arg ap)) 10 True) (vprintf_loop fd fmt False (tl ap))
     else if c = CHR ''l'' then
       useq (printint_u fd (sint (ucast (va_ptr (va_arg ap)) :: u32)) 10 False) (vprintf_loop fd fmt False (tl ap))
     else if c = CHR ''x'' then useq (printint_u fd (va_int (va_arg ap)) 16 False) (vprintf_loop fd fmt False (tl ap))
     else if c = CHR ''p'' then useq (printptr_u fd (va_ptr (va_arg ap))) (vprintf_loop fd fmt False (tl ap))
     else if c = CHR ''s'' then useq (ufor (va_str (va_arg ap)) (putc fd)) (vprintf_loop fd fmt False (tl ap))
     else if c = CHR ''c'' then useq (putc fd (of_int (va_int (va_arg ap)))) (vprintf_loop fd fmt False (tl ap))
     else if c = CHR ''%'' then useq (putc fd (of_char c)) (vprintf_loop fd fmt False ap)
     else useq (putc fd (of_char (CHR ''%''))) (useq (putc fd (of_char c)) (vprintf_loop fd fmt False ap)))"

definition vprintf :: "int \<Rightarrow> string \<Rightarrow> arg list \<Rightarrow> unit uprog" where
  "vprintf fd fmt ap = vprintf_loop fd fmt False ap"

definition fprintf :: "int \<Rightarrow> string \<Rightarrow> arg list \<Rightarrow> unit uprog" where
  "fprintf fd fmt ap = vprintf fd fmt ap"

definition printf_u :: "string \<Rightarrow> arg list \<Rightarrow> unit uprog" where
  "printf_u fmt ap = vprintf 1 fmt ap"

section \<open>Laws of programs\<close>

lemma ubind_assoc [simp]: "ubind (ubind p f) g = ubind p (\<lambda>x. ubind (f x) g)"
  by (induction p) auto

lemma ubind_UDone [simp]: "ubind p UDone = p"
  by (induction p) auto

lemma useq_simps [simp]:
  "useq (UDone a) q = q" "useq (UExit st) q = UExit st" "useq UHang q = UHang"
  "useq (UCall c k) q = UCall c (\<lambda>r. useq (k r) q)" "useq (useq p q') q = useq p (useq q' q)"
  by (simp_all add: useq_def)

lemma useq_unit [simp]: "useq p (UDone ()) = p"
  by (simp add: useq_def)

lemma ufor_append: "ufor (xs @ ys) f = useq (ufor xs f) (ufor ys f)"
  by (induction xs) auto

lemma ufor_map: "ufor (map g xs) f = ufor xs (\<lambda>x. f (g x))"
  by (induction xs) auto

lemma ufor_cong: "(\<And>x. x \<in> set xs \<Longrightarrow> f x = g x) \<Longrightarrow> ufor xs f = ufor xs g"
  by (induction xs) auto

lemma urun_ubind:
  "urun os (ubind p f) w = (case urun os p w of
    (Returned a, w') \<Rightarrow> urun os (f a) w' | (Exited st, w') \<Rightarrow> (Exited st, w') | (Hung, w') \<Rightarrow> (Hung, w'))"
  by (induction p arbitrary: w) (auto split: prod.splits)

lemma urun_useq:
  "urun os (useq p q) w = (case urun os p w of
    (Returned a, w') \<Rightarrow> urun os q w' | (Exited st, w') \<Rightarrow> (Exited st, w') | (Hung, w') \<Rightarrow> (Hung, w'))"
  by (simp add: useq_def urun_ubind)

lemma urun_ucall [simp]:
  "urun os (ucall c) w = (Returned (fst (fst (os c w))), snd (os c w))"
  "urun os (ucall_data c) w = (Returned (fst (os c w)), snd (os c w))"
  by (simp_all add: ucall_def ucall_data_def split: prod.splits)

lemmas uprog_simps = useq_def urun_ubind uwhen_def

section \<open>What printf writes\<close>

definition upcase :: "char \<Rightarrow> char" where
  "upcase c = (if (of_char c :: nat) \<in> {97..122} then char_of ((of_char c :: nat) - 32) else c)"

text \<open>The text of a format: as in the kernel, with capital digits, no sign for \<^verbatim>\<open>%x\<close> and
  the low 32 bits for \<^verbatim>\<open>%l\<close>.\<close>

fun uformat_text :: "string \<Rightarrow> bool \<Rightarrow> arg list \<Rightarrow> u8 list" where
  "uformat_text [] pct ap = []"
| "uformat_text (c # fmt) pct ap =
    (if \<not> pct then (if c = CHR ''%'' then uformat_text fmt True ap else bytes [c] @ uformat_text fmt False ap)
     else if c = CHR ''d'' then bytes (int_text 10 (va_int (va_arg ap))) @ uformat_text fmt False (tl ap)
     else if c = CHR ''l'' then bytes (num_text 10 (unat (va_ptr (va_arg ap)) mod 2 ^ 32)) @ uformat_text fmt False (tl ap)
     else if c = CHR ''x'' then
       bytes (map upcase (num_text 16 (nat (va_int (va_arg ap) mod 2 ^ 32)))) @ uformat_text fmt False (tl ap)
     else if c = CHR ''p'' then bytes (''0x'' @ map upcase (drop 2 (ptr_text (va_ptr (va_arg ap))))) @ uformat_text fmt False (tl ap)
     else if c = CHR ''s'' then va_str (va_arg ap) @ uformat_text fmt False (tl ap)
     else if c = CHR ''c'' then of_int (va_int (va_arg ap)) # uformat_text fmt False (tl ap)
     else if c = CHR ''%'' then bytes [c] @ uformat_text fmt False ap
     else bytes [CHR ''%'', c] @ uformat_text fmt False ap)"

lemma digits_upcase: "i < 16 \<Longrightarrow> digits_u ! i = upcase (digits ! i)"
proof -
  assume "i < 16"
  then have "i \<in> set [0..<16]" by simp
  moreover have "\<forall>j\<in>set [0..<16]. digits_u ! j = upcase (digits ! j)" by code_simp
  ultimately show ?thesis by blast
qed

lemma digit_lower: "n < 10 \<Longrightarrow> upcase (digits ! n) = digits ! n"
proof -
  assume "n < 10"
  then have "n \<in> set [0..<10]" by simp
  moreover have "\<forall>j\<in>set [0..<10]. upcase (digits ! j) = digits ! j" by code_simp
  ultimately show ?thesis by blast
qed

lemma num_text_lower: "map upcase (num_text 10 n) = num_text 10 n"
proof (induction n rule: less_induct)
  case (less n)
  then show ?case by (subst (1 2) num_text.simps) (simp add: digit_lower)
qed

lemma print_digits_upcase:
  assumes "0 < b" "b \<le> 16"
  shows "print_digits_u n x b = map upcase (print_digits n x b)"
proof (induction n arbitrary: x)
  case (Suc n)
  have "unat (x mod b) < unat b" using assms(1) by (simp add: unat_mod word_less_nat_alt)
  then have "unat (x mod b) < 16" using assms(2) by (simp add: word_le_nat_alt)
  then show ?case using Suc by (simp add: digits_upcase)
qed simp

lemma digits_fuel: "2 \<le> (b :: u32) \<Longrightarrow> unat (y :: u32) < unat b ^ 32"
proof -
  assume "2 \<le> b"
  then have b: "2 \<le> unat b" by (simp add: word_le_nat_alt)
  have "unat y < 2 ^ 32" using unsigned_less [of y] by simp
  also have "\<dots> \<le> unat b ^ 32" using power_mono [OF b, of 32] by simp
  finally show ?thesis .
qed

lemma putc_bytes: "ufor cs (\<lambda>c. putc fd (of_char c)) = ufor (bytes cs) (putc fd)"
  by (simp add: bytes_def ufor_map)

lemma printint_u_signed:
  assumes "- (2 ^ 31) \<le> x" "x < 2 ^ 31"
  shows "printint_u fd x 10 True = ufor (bytes (int_text 10 x)) (putc fd)"
proof -
  have "rev (print_digits_u 32 y 10) = num_text 10 (unat y)" for y
    using print_digits_text [of 10 y 32] digits_fuel [of 10 y] num_text_lower [of "unat y"]
    by (simp add: print_digits_upcase rev_map)
  moreover have "rev (print_digits 32 y 10) = num_text 10 (unat y)" for y
    using print_digits_text [of 10 y 32] digits_fuel [of 10 y] by simp
  ultimately show ?thesis
    using printint_text [of 10 x] assms
    by (simp add: printint_u_def printint_buf_def Let_def putc_bytes)
qed

lemma printint_u_unsigned:
  assumes "2 \<le> b" "b \<le> 16"
  shows "printint_u fd x b False = ufor (bytes (map upcase (num_text (unat b) (nat (x mod 2 ^ 32))))) (putc fd)"
proof -
  have "0 < b" using assms(1) by (rule order.strict_trans2 [rotated]) simp
  then have "rev (print_digits_u 32 y b) = map upcase (num_text (unat b) (unat y))" for y
    using print_digits_text [OF assms(1) digits_fuel [OF assms(1)]] assms(2)
    by (simp add: print_digits_upcase rev_map)
  moreover have "unat (of_int x :: u32) = nat (x mod 2 ^ 32)"
    by (simp add: unsigned_of_int take_bit_eq_mod)
  ultimately show ?thesis by (simp add: printint_u_def Let_def putc_bytes)
qed

lemma printptr_u_text: "printptr_u fd x = ufor (bytes (''0x'' @ map upcase (drop 2 (ptr_text x)))) (putc fd)"
proof -
  have "digits_u ! unat (drop_bit 60 (push_bit (4 * i) x)) = upcase (digits ! (unat x div 16 ^ (15 - i) mod 16))" if "i < 16" for i
    using that by (simp add: nibble digits_upcase)
  then have "ufor [0..<16] (\<lambda>i. putc fd (of_char (digits_u ! unat (drop_bit 60 (push_bit (4 * i) x))))) =
      ufor (map (\<lambda>i. of_char (upcase (digits ! (unat x div 16 ^ (15 - i) mod 16)))) [0..<16]) (putc fd)"
    unfolding ufor_map by (intro ufor_cong) simp
  then show ?thesis
    by (simp add: printptr_u_def ptr_text_def bytes_def comp_def del: upt_rec_numeral)
qed

lemma low_word: "nat (sint (ucast (v :: u64) :: u32) mod 4294967296) = unat v mod 4294967296"
proof -
  have "sint (ucast v :: u32) mod 2 ^ 32 = uint (ucast v :: u32)" by (simp add: uint_sint take_bit_eq_mod)
  then have "nat (sint (ucast v :: u32) mod 2 ^ 32) = unat (ucast v :: u32)" by simp
  also have "\<dots> = unat v mod 2 ^ 32" by (simp add: unsigned_ucast_eq take_bit_eq_mod)
  finally show ?thesis by simp
qed

lemma vprintf_loop_text:
  assumes "int_args ap"
  shows "vprintf_loop fd fmt pct ap = ufor (uformat_text fmt pct ap) (putc fd)"
  using assms
proof (induction fd fmt pct ap rule: vprintf_loop.induct)
  case (2 fd c fmt pct ap)
  note ia = int_args_va [OF "2.prems"] int_args_tl [OF "2.prems"]
  show ?case
  proof (cases pct)
    case True
    consider "c = CHR ''d''" | "c = CHR ''l''" | "c = CHR ''x''" | "c = CHR ''p''" | "c = CHR ''s''" | "c = CHR ''c''" | "c = CHR ''%''"
      | "c \<noteq> CHR ''d'' \<and> c \<noteq> CHR ''l'' \<and> c \<noteq> CHR ''x'' \<and> c \<noteq> CHR ''p'' \<and> c \<noteq> CHR ''s'' \<and> c \<noteq> CHR ''c'' \<and> c \<noteq> CHR ''%''"
      by blast
    then show ?thesis
    proof cases
      case 1 then show ?thesis using "2.IH"(3) True ia by (simp add: ufor_append printint_u_signed)
    next
      case 2 then show ?thesis
        using "2.IH"(4) True ia num_text_lower low_word by (simp add: ufor_append printint_u_unsigned)
    next
      case 3 then show ?thesis using "2.IH"(5) True ia by (simp add: ufor_append printint_u_unsigned)
    next
      case 4 then show ?thesis using "2.IH"(6) True ia by (simp add: ufor_append printptr_u_text)
    next
      case 5 then show ?thesis using "2.IH"(7) True ia by (simp add: ufor_append)
    next
      case 6 then show ?thesis using "2.IH"(8) True ia by simp
    next
      case 7 then show ?thesis using "2.IH"(9) True "2.prems" by (simp add: bytes_def)
    next
      case 8 then show ?thesis using "2.IH"(10) True "2.prems" by (simp add: bytes_def)
    qed
  qed (use "2.IH"(1,2) "2.prems" in \<open>auto simp: bytes_def\<close>)
qed simp

text \<open>The user library's \<^verbatim>\<open>printf\<close> writes exactly the text that its format and arguments
  describe, one byte per \<^verbatim>\<open>write\<close>, and makes no other system call.\<close>

theorem vprintf_text:
  assumes "int_args ap"
  shows "vprintf fd fmt ap = ufor (uformat_text fmt False ap) (putc fd)"
  using vprintf_loop_text [OF assms] by (simp add: vprintf_def)

theorem vprintf_text_witness:
  "vprintf 1 ''%d-%x'' [AInt (-42), AInt 255] = ufor [0x2d, 0x34, 0x32, 0x2d, 0x46, 0x46] (putc 1)"
proof -
  have "char_of (70 :: nat) = CHR ''F''" by code_simp
  then show ?thesis
    using vprintf_text [of "[AInt (-42), AInt 255]" 1 "''%d-%x''"]
    by (simp add: int_args_def bytes_def va_arg_def va_int_def int_text_def num_text.simps digits_def upcase_def)
qed

section \<open>Arrays\<close>

text \<open>\<^verbatim>\<open>memmove\<close> inside of an array, as the programs use it on their buffers.\<close>

definition memmove_arr :: "nat \<Rightarrow> nat \<Rightarrow> nat \<Rightarrow> u8 list \<Rightarrow> u8 list" where
  "memmove_arr dst src n buf = store_at dst (take n (drop src buf)) buf"

lemma memmove_u_apply:
  assumes "unat src + n < 2 ^ 64" "unat dst + n < 2 ^ 64"
  shows "memmove_u dst src (int n) m a = (if in_range dst n a then m (src + (a - dst)) else m a)"
proof (cases "src > dst")
  case True
  have "dst + of_nat i \<noteq> src + of_nat j" if "i < j" "j < n" for i j
  proof
    assume "dst + of_nat i = src + of_nat j"
    then have "unat (dst + of_nat i) = unat (src + of_nat j)" by simp
    then have "unat dst + i = unat src + j" using assms that by (simp add: unat_add_of_nat)
    then show False using True that by (simp add: word_less_nat_alt)
  qed
  then show ?thesis using True by (simp add: memmove_u_def copy_up_apply in_range_def)
next
  case False
  have "dst + of_nat n - 1 - of_nat i \<noteq> src + of_nat n - 1 - of_nat j" if "i < j" "j < n" for i j
  proof
    assume "dst + of_nat n - 1 - of_nat i = src + of_nat n - 1 - of_nat j"
    then have "dst + of_nat j = src + of_nat i" by (simp add: algebra_simps)
    then have "unat (dst + of_nat j) = unat (src + of_nat i)" by simp
    then have "unat dst + j = unat src + i" using assms that by (simp add: unat_add_of_nat)
    then show False using False that by (simp add: word_less_nat_alt)
  qed
  note cd = copy_down_apply [OF this]
  have "(\<exists>i<n. a = dst + of_nat n - 1 - of_nat i) \<longleftrightarrow> in_range dst n a"
  proof
    assume "\<exists>i<n. a = dst + of_nat n - 1 - of_nat i"
    then obtain i where "i < n" "a = dst + of_nat n - 1 - of_nat i" by blast
    then show "in_range dst n a" unfolding in_range_def
      by (intro exI [of _ "n - 1 - i"]) (simp add: of_nat_diff algebra_simps)
  next
    assume "in_range dst n a"
    then obtain i where "i < n" "a = dst + of_nat i" unfolding in_range_def by blast
    then show "\<exists>i<n. a = dst + of_nat n - 1 - of_nat i"
      by (intro exI [of _ "n - 1 - i"]) (simp add: of_nat_diff algebra_simps)
  qed
  then show ?thesis using False cd by (simp add: memmove_u_def)
qed

lemma length_store_at [simp]: "i + length d \<le> length buf \<Longrightarrow> length (store_at i d buf) = length buf"
  by (simp add: store_at_def)

lemma nth_store_at:
  "i + length d \<le> length buf \<Longrightarrow> k < length buf \<Longrightarrow>
    store_at i d buf ! k = (if i \<le> k \<and> k < i + length d then d ! (k - i) else buf ! k)"
  by (auto simp: store_at_def nth_append)

text \<open>On the bytes of an array in memory, \<^verbatim>\<open>memmove\<close> is \<open>memmove_arr\<close>, also when the two
  ranges overlap.\<close>

lemma memmove_u_arr:
  fixes a :: u64 and m :: mem
  assumes "unat a + l < 2 ^ 64" "d + n \<le> l" "s + n \<le> l"
  shows "map (\<lambda>i. memmove_u (a + of_nat d) (a + of_nat s) (int n) m (a + of_nat i)) [0..<l] =
    memmove_arr d s n (map (\<lambda>i. m (a + of_nat i)) [0..<l])"
proof (rule nth_equalityI)
  have u: "unat (a + of_nat i) = unat a + i" if "i \<le> l" for i using assms(1) that by (intro unat_add_of_nat) simp
  have ap: "memmove_u (a + of_nat d) (a + of_nat s) (int n) m b =
      (if in_range (a + of_nat d) n b then m (a + of_nat s + (b - (a + of_nat d))) else m b)" for b
    by (rule memmove_u_apply) (use assms u in simp_all)
  have inj: "(of_nat i :: u64) = of_nat j \<longleftrightarrow> i = j" if "i < l" "j < l" for i j
    using that assms(1) by (intro of_nat_inj_u64) auto
  fix k
  assume "k < length (map (\<lambda>i. memmove_u (a + of_nat d) (a + of_nat s) (int n) m (a + of_nat i)) [0..<l])"
  then have k: "k < l" by simp
  have "in_range (a + of_nat d) n (a + of_nat k) \<longleftrightarrow> (\<exists>i<n. k = d + i)"
  proof -
    have "a + of_nat k = a + of_nat d + of_nat i \<longleftrightarrow> k = d + i" if "i < n" for i
      using inj [of k "d + i"] that k assms(2) by (auto simp: add.assoc)
    then show ?thesis by (auto simp: in_range_def)
  qed
  then have r: "in_range (a + of_nat d) n (a + of_nat k) \<longleftrightarrow> d \<le> k \<and> k < d + n" by (auto intro: exI [of _ "k - d"])
  have "a + of_nat s + (a + of_nat k - (a + of_nat d)) = a + of_nat (s + (k - d))" if "d \<le> k"
    using that by (simp add: of_nat_diff)
  then show "map (\<lambda>i. memmove_u (a + of_nat d) (a + of_nat s) (int n) m (a + of_nat i)) [0..<l] ! k =
      memmove_arr d s n (map (\<lambda>i. m (a + of_nat i)) [0..<l]) ! k"
    using k r assms(2,3) by (auto simp: ap memmove_arr_def nth_store_at algebra_simps)
qed (use assms in \<open>simp add: memmove_arr_def\<close>)

lemma cstr_le: "length (cstr buf p) \<le> length buf - p"
  unfolding cstr_def by (metis length_drop length_takeWhile_le)

lemma takeWhile_nul: "0 \<notin> set xs \<Longrightarrow> takeWhile (\<lambda>b. b \<noteq> 0) (xs @ 0 # zs) = (xs :: u8 list)"
  by (induction xs) auto

end
