(* ===== verification/Utils.thy ===== *)
theory Utils
  imports Ulib
begin

text \<open>
  The small user programs: \<^verbatim>\<open>cat\<close>, \<^verbatim>\<open>wc\<close>, \<^verbatim>\<open>ls\<close>, \<^verbatim>\<open>echo\<close>,
  \<^verbatim>\<open>kill\<close>, \<^verbatim>\<open>ln\<close>, \<^verbatim>\<open>mkdir\<close>, \<^verbatim>\<open>rm\<close>, \<^verbatim>\<open>init\<close>,
  \<^verbatim>\<open>strace\<close>, \<^verbatim>\<open>setpriority\<close> and \<^verbatim>\<open>zombie\<close>. The first argument of a program
  with an unbounded loop is the bound on its rounds; \<open>argv\<close> is the list of the arguments, so that
  \<^verbatim>\<open>argc\<close> is its length. Their behaviour is shown on a system that delivers a file in
  pieces of any sizes and records what is written.
\<close>

section \<open>cat.c\<close>

primrec cat :: "nat \<Rightarrow> int \<Rightarrow> u8 list \<Rightarrow> u8 list uprog" where
  "cat 0 fd buf = UHang"
| "cat (Suc k) fd buf =
    ubind (ucall_data (URead fd 512)) (\<lambda>(n, d).
    let buf = store_at 0 d buf in
    if n > 0 then
      ubind (ucall (UWrite 1 (take (nat n) buf))) (\<lambda>w.
      if w \<noteq> n then useq (fprintf 2 ''cat: write error\<newline>'' []) (UExit 1)
      else cat k fd buf)
    else if n < 0 then useq (fprintf 2 ''cat: read error\<newline>'' []) (UExit 1)
    else UDone buf)"

primrec cat_files :: "nat \<Rightarrow> u8 list list \<Rightarrow> u8 list \<Rightarrow> unit uprog" where
  "cat_files k [] buf = UExit 0"
| "cat_files k (f # fs) buf =
    ubind (ucall (UOpen f 0)) (\<lambda>fd.
    if fd < 0 then useq (fprintf 2 ''cat: cannot open %s\<newline>'' [AStr (Some f)]) (UExit 1) else
    ubind (cat k fd buf) (\<lambda>buf.
    useq (ucall (UClose fd)) (cat_files k fs buf)))"

definition cat_main :: "nat \<Rightarrow> u8 list list \<Rightarrow> unit uprog" where
  "cat_main k argv =
    (if length argv \<le> 1 then useq (cat k 0 (replicate 512 0)) (UExit 0)
     else cat_files k (tl argv) (replicate 512 0))"

section \<open>wc.c\<close>

text \<open>The three counters and \<^verbatim>\<open>inword\<close>, and the body of the loop over the buffer.\<close>

record wcstate =
  wc_l :: u32
  wc_w :: u32
  wc_c :: u32
  wc_inword :: bool

definition wc_char :: "u8 \<Rightarrow> wcstate \<Rightarrow> wcstate" where
  "wc_char b s =
    (let s = s\<lparr>wc_c := wc_c s + 1\<rparr>;
         s = (if b = 10 then s\<lparr>wc_l := wc_l s + 1\<rparr> else s)
     in if strchr [32, 13, 9, 10, 11] b \<noteq> None then s\<lparr>wc_inword := False\<rparr>
        else if \<not> wc_inword s then s\<lparr>wc_w := wc_w s + 1, wc_inword := True\<rparr> else s)"

primrec wc_loop :: "nat \<Rightarrow> int \<Rightarrow> u8 list \<Rightarrow> wcstate \<Rightarrow> (int \<times> u8 list \<times> wcstate) uprog" where
  "wc_loop 0 fd buf s = UHang"
| "wc_loop (Suc k) fd buf s =
    ubind (ucall_data (URead fd 512)) (\<lambda>(n, d).
    let buf = store_at 0 d buf in
    if n > 0 then wc_loop k fd buf (fold wc_char (take (nat n) buf) s)
    else UDone (n, buf, s))"

definition wc :: "nat \<Rightarrow> int \<Rightarrow> u8 list \<Rightarrow> u8 list \<Rightarrow> u8 list uprog" where
  "wc k fd name buf =
    ubind (wc_loop k fd buf \<lparr>wc_l = 0, wc_w = 0, wc_c = 0, wc_inword = False\<rparr>) (\<lambda>(n, buf, s).
    if n < 0 then useq (printf_u ''wc: read error\<newline>'' []) (UExit 1)
    else useq (printf_u ''%d %d %d %s\<newline>'' [AInt (sint (wc_l s)), AInt (sint (wc_w s)), AInt (sint (wc_c s)), AStr (Some name)])
      (UDone buf))"

primrec wc_files :: "nat \<Rightarrow> u8 list list \<Rightarrow> u8 list \<Rightarrow> unit uprog" where
  "wc_files k [] buf = UExit 0"
| "wc_files k (f # fs) buf =
    ubind (ucall (UOpen f 0)) (\<lambda>fd.
    if fd < 0 then useq (printf_u ''wc: cannot open %s\<newline>'' [AStr (Some f)]) (UExit 1) else
    ubind (wc k fd f buf) (\<lambda>buf.
    useq (ucall (UClose fd)) (wc_files k fs buf)))"

definition wc_main :: "nat \<Rightarrow> u8 list list \<Rightarrow> unit uprog" where
  "wc_main k argv =
    (if length argv \<le> 1 then useq (wc k 0 [] (replicate 512 0)) (UExit 0)
     else wc_files k (tl argv) (replicate 512 0))"

section \<open>ls.c\<close>

text \<open>\<^verbatim>\<open>fmtname\<close>: the part of the path after the last slash, padded with blanks in its static
  buffer of 15 bytes.\<close>

definition fmtname :: "u8 list \<Rightarrow> u8 list" where
  "fmtname path =
    (let p = rev (takeWhile (\<lambda>c. c \<noteq> 47) (rev path))
     in if strlen_u p \<ge> 14 then p
        else memset_u (store_at 0 p (replicate 15 0)) (strlen_u p) 32 (14 - strlen_u p))"

text \<open>The fields of \<^verbatim>\<open>struct stat\<close> and \<^verbatim>\<open>struct dirent\<close> in the bytes that the kernel
  stores.\<close>

definition st_type :: "u8 list \<Rightarrow> int" where
  "st_type st = sint (le_word (take 2 (drop 8 st)) :: u16)"

definition st_ino :: "u8 list \<Rightarrow> u32" where
  "st_ino st = le_word (take 4 (drop 4 st))"

definition st_size :: "u8 list \<Rightarrow> u64" where
  "st_size st = le_word (take 8 (drop 16 st))"

definition de_inum :: "u8 list \<Rightarrow> u16" where
  "de_inum de = le_word (take 2 de)"

primrec ls_entries :: "nat \<Rightarrow> int \<Rightarrow> u8 list \<Rightarrow> nat \<Rightarrow> unit uprog" where
  "ls_entries 0 fd buf p = UHang"
| "ls_entries (Suc k) fd buf p =
    ubind (ucall_data (URead fd 16)) (\<lambda>(n, de).
    if n \<noteq> 16 then UDone () else
    if de_inum de = 0 then ls_entries k fd buf p else
    let buf = (store_at p (take 14 (drop 2 de)) buf)[p + 14 := 0];
        name = takeWhile (\<lambda>c. c \<noteq> 0) buf
    in ubind (stat_u name) (\<lambda>(r, st).
      if r < 0 then useq (printf_u ''ls: cannot stat %s\<newline>'' [AStr (Some name)]) (ls_entries k fd buf p)
      else useq (printf_u ''%s %d %d %d\<newline>''
          [AStr (Some (takeWhile (\<lambda>c. c \<noteq> 0) (fmtname name))), AInt (st_type st), AInt (sint (st_ino st)), APtr (st_size st)])
        (ls_entries k fd buf p)))"

definition ls :: "nat \<Rightarrow> u8 list \<Rightarrow> unit uprog" where
  "ls k path =
    ubind (ucall (UOpen path 0)) (\<lambda>fd.
    if fd < 0 then fprintf 2 ''ls: cannot open %s\<newline>'' [AStr (Some path)] else
    ubind (ucall_data (UFstat fd)) (\<lambda>(r, st).
    if r < 0 then
      useq (fprintf 2 ''ls: cannot stat %s\<newline>'' [AStr (Some path)]) (useq (ucall (UClose fd)) (UDone ()))
    else
      useq (if st_type st = 2 \<or> st_type st = 3 then
          printf_u ''%s %d %d %l\<newline>''
            [AStr (Some (takeWhile (\<lambda>c. c \<noteq> 0) (fmtname path))), AInt (st_type st), AInt (sint (st_ino st)), APtr (st_size st)]
        else if st_type st = 1 then
          (if strlen_u path + 1 + 14 + 1 > 512 then printf_u ''ls: path too long\<newline>'' []
           else let buf = strcpy (replicate 512 0) 0 path; p = strlen_u path
             in ls_entries k fd (buf[p := 47]) (Suc p))
        else UDone ())
      (useq (ucall (UClose fd)) (UDone ()))))"

definition ls_main :: "nat \<Rightarrow> u8 list list \<Rightarrow> unit uprog" where
  "ls_main k argv =
    (if length argv < 2 then useq (ls k [46]) (UExit 0)
     else useq (ufor (tl argv) (ls k)) (UExit 0))"

section \<open>echo.c, kill.c, ln.c, mkdir.c, rm.c\<close>

primrec echo_args :: "u8 list list \<Rightarrow> unit uprog" where
  "echo_args [] = UExit 0"
| "echo_args (a # as) =
    useq (ucall (UWrite 1 a))
    (useq (ucall (UWrite 1 (if as \<noteq> [] then [32] else [10]))) (echo_args as))"

definition echo_main :: "u8 list list \<Rightarrow> unit uprog" where
  "echo_main argv = echo_args (tl argv)"

definition kill_main :: "u8 list list \<Rightarrow> unit uprog" where
  "kill_main argv =
    (if length argv < 2 then useq (fprintf 2 ''usage: kill pid...\<newline>'' []) (UExit 1)
     else useq (ufor (tl argv) (\<lambda>a. useq (ucall (UKill (atoi a))) (UDone ()))) (UExit 0))"

definition ln_main :: "u8 list list \<Rightarrow> unit uprog" where
  "ln_main argv =
    (if length argv \<noteq> 3 then useq (fprintf 2 ''Usage: ln old new\<newline>'' []) (UExit 1)
     else ubind (ucall (ULink (argv ! 1) (argv ! 2))) (\<lambda>r.
       useq (uwhen (r < 0) (fprintf 2 ''link %s %s: failed\<newline>'' [AStr (Some (argv ! 1)), AStr (Some (argv ! 2))]))
       (UExit 0)))"

primrec mkdir_args :: "u8 list list \<Rightarrow> unit uprog" where
  "mkdir_args [] = UDone ()"
| "mkdir_args (a # as) =
    ubind (ucall (UMkdir a)) (\<lambda>r.
    if r < 0 then fprintf 2 ''mkdir: %s failed to create\<newline>'' [AStr (Some a)] else mkdir_args as)"

definition mkdir_main :: "u8 list list \<Rightarrow> unit uprog" where
  "mkdir_main argv =
    (if length argv < 2 then useq (fprintf 2 ''Usage: mkdir files...\<newline>'' []) (UExit 1)
     else useq (mkdir_args (tl argv)) (UExit 0))"

primrec rm_args :: "u8 list list \<Rightarrow> unit uprog" where
  "rm_args [] = UDone ()"
| "rm_args (a # as) =
    ubind (ucall (UUnlink a)) (\<lambda>r.
    if r < 0 then fprintf 2 ''rm: %s failed to delete\<newline>'' [AStr (Some a)] else rm_args as)"

definition rm_main :: "u8 list list \<Rightarrow> unit uprog" where
  "rm_main argv =
    (if length argv < 2 then useq (fprintf 2 ''Usage: rm files...\<newline>'' []) (UExit 1)
     else useq (rm_args (tl argv)) (UExit 0))"

section \<open>init.c, strace.c, setpriority.c, zombie.c\<close>

text \<open>The loop of \<^verbatim>\<open>init\<close> that reaps children until the shell \<open>pid\<close> exits, and the one that
  starts the shell again and again.\<close>

primrec init_reap :: "nat \<Rightarrow> int \<Rightarrow> unit uprog" where
  "init_reap 0 pid = UHang"
| "init_reap (Suc k) pid =
    ubind (ucall UWait) (\<lambda>wpid.
    if wpid = pid then UDone ()
    else if wpid < 0 then useq (printf_u ''init: wait returned an error\<newline>'' []) (UExit 1)
    else init_reap k pid)"

primrec init_loop :: "nat \<Rightarrow> nat \<Rightarrow> unit uprog" where
  "init_loop 0 k = UHang"
| "init_loop (Suc n) k =
    useq (printf_u ''init: starting sh\<newline>'' [])
    (ubind (ucall UFork) (\<lambda>pid.
    if pid < 0 then useq (printf_u ''init: fork failed\<newline>'' []) (UExit 1)
    else if pid = 0 then
      useq (ucall (UExec (bytes ''sh'') [bytes ''sh''])) (useq (printf_u ''init: exec sh failed\<newline>'' []) (UExit 1))
    else useq (init_reap k pid) (init_loop n k)))"

definition init_main :: "nat \<Rightarrow> nat \<Rightarrow> unit uprog" where
  "init_main n k =
    ubind (ucall (UOpen (bytes ''console'') 2)) (\<lambda>fd.
    useq (uwhen (fd < 0) (useq (ucall (UMknod (bytes ''console'') 1 0)) (useq (ucall (UOpen (bytes ''console'') 2)) (UDone ()))))
    (useq (ucall (UDup 0)) (useq (ucall (UDup 0)) (init_loop n k))))"

text \<open>\<^verbatim>\<open>strace\<close> hands \<^verbatim>\<open>exec\<close> an array on the stack in which it stores the arguments but no
  null after them: \<open>rest\<close> are the strings that the kernel finds behind them, up to the first null
  pointer that happens to lie there.\<close>

definition strace_main :: "u8 list list \<Rightarrow> u8 list list \<Rightarrow> unit uprog" where
  "strace_main rest argv =
    (if length argv < 3 then useq (printf_u ''Error(trace): Incorrect command\<newline>'' []) (UExit 1) else
     ubind (ucall (UTrace (atoi (argv ! 1)))) (\<lambda>r.
     if r < 0 then useq (printf_u ''Error(trace): integer mask invalid\<newline>'' []) (UExit 1) else
     let arg_exec = take 30 (drop 2 argv)
     in useq (ucall (UExec (hd arg_exec) (arg_exec @ rest))) (UExit 0)))"

definition setpriority_main :: "u8 list list \<Rightarrow> unit uprog" where
  "setpriority_main argv =
    (if length argv \<noteq> 3 then useq (printf_u ''Invalid number of arguments\<newline>'' []) (UExit 1) else
     ubind (ucall (USetpriority (atoi (argv ! 1)) (atoi (argv ! 2)))) (\<lambda>r.
     useq (printf_u ''Process priority being updated to: %d\<newline>'' [AInt r]) (UExit 0)))"

definition zombie_main :: "unit uprog" where
  "zombie_main =
    ubind (ucall UFork) (\<lambda>pid.
    useq (uwhen (pid > 0) (useq (ucall (USleep 5)) (UDone ()))) (UExit 0))"

section \<open>Reading a file in pieces\<close>

text \<open>A system on which the reads deliver the pieces \<open>w_in\<close> of a file one after the other, a longer
  piece in parts, and then nothing; what is written is recorded with its descriptor.\<close>

record uworld =
  w_in :: "u8 list list"
  w_out :: "(int \<times> u8 list) list"

fun file_os :: "ucall \<Rightarrow> uworld \<Rightarrow> (int \<times> u8 list) \<times> uworld" where
  "file_os (URead fd n) w =
    (case w_in w of
      [] \<Rightarrow> ((0, []), w)
    | c # cs \<Rightarrow> ((int (length (take n c)), take n c), w\<lparr>w_in := (if n < length c then drop n c # cs else cs)\<rparr>))"
| "file_os (UWrite fd bs) w = ((int (length bs), []), w\<lparr>w_out := w_out w @ [(fd, bs)]\<rparr>)"
| "file_os (UOpen f m) w = ((3, []), w)"
| "file_os _ w = ((0, []), w)"

definition delivers :: "uworld \<Rightarrow> u8 list \<Rightarrow> bool" where
  "delivers w bs \<longleftrightarrow> [] \<notin> set (w_in w) \<and> concat (w_in w) = bs"

text \<open>One read of up to \<open>n\<close> bytes: the end of the file, or a first part that is not empty.\<close>

lemma read_delivers [consumes 2]:
  assumes "delivers w bs" "0 < n"
  obtains (eof) "bs = []" "file_os (URead fd n) w = ((0, []), w)"
  | (part) d bs' w' where "bs = d @ bs'" "d \<noteq> []" "length d \<le> n" "delivers w' bs'" "w_out w' = w_out w"
      "file_os (URead fd n) w = ((int (length d), d), w')"
proof (cases "w_in w")
  case Nil
  then show thesis using assms eof by (simp add: delivers_def)
next
  case (Cons c cs)
  let ?w = "w\<lparr>w_in := (if n < length c then drop n c # cs else cs)\<rparr>"
  have "delivers ?w (drop n c @ concat cs)" using assms Cons by (auto simp: delivers_def)
  moreover have "bs = take n c @ drop n c @ concat cs" using assms Cons by (simp add: delivers_def flip: append_assoc)
  moreover have "take n c \<noteq> []" using assms Cons by (auto simp: delivers_def)
  ultimately show thesis using Cons by (intro part [of "take n c" _ ?w]) auto
qed

lemma output_write [simp]: "delivers (w\<lparr>w_out := out\<rparr>) bs = delivers w bs"
  by (simp add: delivers_def)

lemma put_output:
  "urun file_os (ufor bs (putc fd)) w = (Returned (), w\<lparr>w_out := w_out w @ map (\<lambda>b. (fd, [b])) bs\<rparr>)"
  by (induction bs arbitrary: w) (auto simp: putc_def urun_useq)

lemma fprintf_output:
  "int_args ap \<Longrightarrow> urun file_os (fprintf fd fmt ap) w =
    (Returned (), w\<lparr>w_out := w_out w @ map (\<lambda>b. (fd, [b])) (uformat_text fmt False ap)\<rparr>)"
  by (simp add: fprintf_def vprintf_def vprintf_loop_text put_output)

lemma printf_output_u:
  "int_args ap \<Longrightarrow> urun file_os (printf_u fmt ap) w =
    (Returned (), w\<lparr>w_out := w_out w @ map (\<lambda>b. (1, [b])) (uformat_text fmt False ap)\<rparr>)"
  by (simp add: printf_u_def vprintf_def vprintf_loop_text put_output)

text \<open>\<^verbatim>\<open>cat\<close> of a file writes the bytes of the file to descriptor 1, in pieces of at most 512
  bytes and nothing else, however the reads split the file, and ends when a bound of more rounds than
  bytes is given.\<close>

theorem cat_copies:
  assumes "delivers w bs" "length bs < k" "length buf = 512"
  shows "\<exists>buf' w' ps. urun file_os (cat k fd buf) w = (Returned buf', w') \<and> concat ps = bs \<and>
    (\<forall>p\<in>set ps. length p \<le> 512) \<and> w_out w' = w_out w @ map (Pair 1) ps"
  using assms
proof (induction k arbitrary: w bs buf)
  case (Suc k)
  have "0 < (512 :: nat)" by simp
  with Suc.prems(1) show ?case
  proof (cases rule: read_delivers [where fd = fd])
    case eof
    then show ?thesis by (auto simp: urun_ubind Let_def intro!: exI [of _ "[]"])
  next
    case (part d bs' w1)
    let ?w = "w1\<lparr>w_out := w_out w1 @ [(1, d)]\<rparr>"
    have "length bs' < k" using part Suc.prems(2) by (cases d) auto
    moreover have "length (store_at 0 d buf) = 512" using part Suc.prems(3) by simp
    ultimately obtain buf' w' ps where IH: "urun file_os (cat k fd (store_at 0 d buf)) ?w = (Returned buf', w')" "concat ps = bs'"
      "\<forall>p\<in>set ps. length p \<le> 512" "w_out w' = w_out ?w @ map (Pair 1) ps"
      using Suc.IH [of ?w bs' "store_at 0 d buf"] part by auto
    have "take (length d) (store_at 0 d buf) = d" by (simp add: store_at_def)
    then show ?thesis
      using part IH by (intro exI [of _ buf'] exI [of _ w'] exI [of _ "d # ps"]) (simp add: urun_ubind Let_def)
  qed
qed simp

theorem cat_copies_witness:
  "\<exists>buf' w' ps. urun file_os (cat 4 0 (replicate 512 0)) \<lparr>w_in = [[1, 2], [3]], w_out = []\<rparr> = (Returned buf', w') \<and>
    concat ps = [1, 2, 3] \<and> w_out w' = map (Pair 1) ps"
  using cat_copies [of "\<lparr>w_in = [[1, 2], [3]], w_out = []\<rparr>" "[1, 2, 3]" 4 "replicate 512 0" 0]
  by (auto simp: delivers_def)

definition blank :: "u8 \<Rightarrow> bool" where
  "blank b \<longleftrightarrow> b \<in> {32, 13, 9, 10, 11}"

text \<open>The number of words: of the places where one begins.\<close>

definition word_count :: "u8 list \<Rightarrow> nat" where
  "word_count bs = length (filter (\<lambda>i. \<not> blank (bs ! i) \<and> (i = 0 \<or> blank (bs ! (i - 1)))) [0..<length bs])"

lemma word_count_snoc:
  "word_count (bs @ [b]) = word_count bs + (if \<not> blank b \<and> (bs = [] \<or> blank (last bs)) then 1 else 0)"
proof -
  have "filter (\<lambda>i. \<not> blank ((bs @ [b]) ! i) \<and> (i = 0 \<or> blank ((bs @ [b]) ! (i - 1)))) [0..<length bs] =
      filter (\<lambda>i. \<not> blank (bs ! i) \<and> (i = 0 \<or> blank (bs ! (i - 1)))) [0..<length bs]"
    by (rule filter_cong) (auto simp: nth_append)
  then show ?thesis
    by (cases "bs = []") (simp_all add: word_count_def nth_append last_conv_nth)
qed

lemma strchr_None [simp]: "strchr s c = None \<longleftrightarrow> c \<notin> set s"
  by (induction s) auto

lemma wc_chars:
  "fold wc_char bs \<lparr>wc_l = 0, wc_w = 0, wc_c = 0, wc_inword = False\<rparr> =
    \<lparr>wc_l = of_nat (length (filter (\<lambda>b. b = 10) bs)), wc_w = of_nat (word_count bs), wc_c = of_nat (length bs),
     wc_inword = (bs \<noteq> [] \<and> \<not> blank (last bs))\<rparr>"
proof (induction bs rule: rev_induct)
  case Nil
  then show ?case by (simp add: word_count_def)
next
  case (snoc b bs)
  have "strchr [32, 13, 9, 10, 11] b \<noteq> None \<longleftrightarrow> blank b" by (simp only: strchr_None) (simp add: blank_def)
  then show ?case using snoc by (auto simp: wc_char_def Let_def word_count_snoc blank_def)
qed

lemma wc_loop_reads:
  assumes "delivers w bs" "length bs < k" "length buf = 512"
  shows "\<exists>buf' w'. urun file_os (wc_loop k fd buf s) w = (Returned (0, buf', fold wc_char bs s), w') \<and> w_out w' = w_out w"
  using assms
proof (induction k arbitrary: w bs buf s)
  case (Suc k)
  have "0 < (512 :: nat)" by simp
  with Suc.prems(1) show ?case
  proof (cases rule: read_delivers [where fd = fd])
    case eof
    then show ?thesis by (auto simp: urun_ubind Let_def)
  next
    case (part d bs' w1)
    have "length bs' < k" using part Suc.prems(2) by (cases d) auto
    moreover have "length (store_at 0 d buf) = 512" using part Suc.prems(3) by simp
    moreover have "take (length d) (store_at 0 d buf) = d" by (simp add: store_at_def)
    ultimately show ?thesis
      using Suc.IH [of w1 bs' "store_at 0 d buf" "fold wc_char d s"] part by (auto simp: urun_ubind Let_def)
  qed
qed simp

lemma sint_of_nat: "n < 2 ^ 31 \<Longrightarrow> sint (of_nat n :: u32) = int n"
  by (simp add: signed_of_nat signed_take_bit_int_eq_self)

text \<open>C32. \<^verbatim>\<open>wc\<close> prints the number of newlines, of words and of bytes of the file and its name, for a file
  of less than 2 GiB that the reads split in any way, also inside of a word.\<close>

theorem wc_counts:
  assumes "delivers w bs" "length bs < k" "length bs < 2 ^ 31" "length buf = 512"
  shows "\<exists>buf' w'. urun file_os (wc k fd name buf) w = (Returned buf', w') \<and>
    w_out w' = w_out w @ map (\<lambda>b. (1, [b]))
      (bytes (int_text 10 (int (length (filter (\<lambda>b. b = 10) bs)))) @ bytes '' '' @ bytes (int_text 10 (int (word_count bs))) @ bytes '' '' @
       bytes (int_text 10 (int (length bs))) @ bytes '' '' @ name @ bytes ''\<newline>'')"
proof -
  let ?s = "fold wc_char bs \<lparr>wc_l = 0, wc_w = 0, wc_c = 0, wc_inword = False\<rparr>"
  obtain buf' w' where w': "urun file_os (wc_loop k fd buf \<lparr>wc_l = 0, wc_w = 0, wc_c = 0, wc_inword = False\<rparr>) w = (Returned (0, buf', ?s), w')"
    "w_out w' = w_out w" using wc_loop_reads [OF assms(1,2,4)] by blast
  have le: "length (filter (\<lambda>b. b = 10) bs) < 2 ^ 31" "word_count bs < 2 ^ 31"
    using assms(3) by (auto simp: word_count_def intro: le_less_trans [OF length_filter_le])
  let ?ap = "[AInt (sint (wc_l ?s)), AInt (sint (wc_w ?s)), AInt (sint (wc_c ?s)), AStr (Some name)]"
  have "int_args ?ap" using le assms(3) by (auto simp: int_args_def wc_chars sint_of_nat)
  then show ?thesis
    using w' le assms(3)
    by (simp add: wc_def urun_ubind urun_useq printf_output_u)
       (simp add: wc_chars sint_of_nat va_arg_def va_int_def va_str_def bytes_def)
qed

theorem wc_counts_witness:
  "\<exists>buf' w'. urun file_os (wc 6 0 [] (replicate 512 0)) \<lparr>w_in = [[97], [98, 32], [99, 10]], w_out = []\<rparr> = (Returned buf', w') \<and>
    map (hd \<circ> snd) (w_out w') = bytes ''1 2 5 \<newline>''"
  using wc_counts [of "\<lparr>w_in = [[97], [98, 32], [99, 10]], w_out = []\<rparr>" "[97, 98, 32, 99, 10]" 6 "replicate 512 0" 0 "[]"]
  by (auto simp: delivers_def word_count_def blank_def int_text_def num_text.simps digits_def bytes_def)

end
