(* ===== verification/Grep.thy ===== *)
theory Grep
  imports Utils
begin

text \<open>
  \<^verbatim>\<open>user/grep.c\<close>: the matcher for patterns with \<^verbatim>\<open>^ . * $\<close>, proved to decide the language
  of the pattern, and the loop that cuts the input into lines in a buffer of 1024 bytes, proved to
  write the matching lines.
\<close>

section \<open>The matcher\<close>

function (sequential) matchhere :: "u8 list \<Rightarrow> u8 list \<Rightarrow> bool"
and matchstar :: "u8 \<Rightarrow> u8 list \<Rightarrow> u8 list \<Rightarrow> bool" where
  "matchhere re tx =
    (if re = [] then True
     else if length re > 1 \<and> re ! 1 = 42 then matchstar (hd re) (drop 2 re) tx
     else if hd re = 36 \<and> length re = 1 then tx = []
     else if tx \<noteq> [] \<and> (hd re = 46 \<or> hd re = hd tx) then matchhere (tl re) (tl tx)
     else False)"
| "matchstar c re tx =
    (if matchhere re tx then True
     else if tx \<noteq> [] \<and> (hd tx = c \<or> c = 46) then matchstar c re (tl tx)
     else False)"
  by pat_completeness auto
termination
  by (relation "measures [\<lambda>x. case x of Inl (re, tx) \<Rightarrow> length re | Inr (c, re, tx) \<Rightarrow> length re,
      \<lambda>x. case x of Inl (re, tx) \<Rightarrow> length tx | Inr (c, re, tx) \<Rightarrow> length tx,
      \<lambda>x. case x of Inl _ \<Rightarrow> 0 | Inr _ \<Rightarrow> 1]") auto

declare matchhere.simps [simp del] matchstar.simps [simp del]

fun match_from :: "u8 list \<Rightarrow> u8 list \<Rightarrow> bool" where
  "match_from re tx =
    (if matchhere re tx then True else case tx of [] \<Rightarrow> False | _ # tx \<Rightarrow> match_from re tx)"

declare match_from.simps [simp del]

definition match :: "u8 list \<Rightarrow> u8 list \<Rightarrow> bool" where
  "match re tx =
    (if re \<noteq> [] \<and> hd re = 94 then matchhere (tl re) tx else match_from re tx)"

section \<open>The buffer of lines\<close>

lemma strchr_less: "strchr s c = Some r \<Longrightarrow> 0 < length r \<and> length r \<le> length s"
  by (induction s) (auto split: if_splits)

text \<open>The inner loop: the lines between \<open>p\<close> and the nul.\<close>

function grep_lines :: "u8 list \<Rightarrow> u8 list \<Rightarrow> nat \<Rightarrow> (u8 list \<times> nat) uprog" where
  "grep_lines pattern buf p =
    (case strchr (cstr buf p) 10 of
      None \<Rightarrow> UDone (buf, p)
    | Some r \<Rightarrow>
        let q = p + (length (cstr buf p) - length r); buf' = buf[q := 0]
        in if match pattern (cstr buf' p)
           then useq (ucall (UWrite 1 (take (q + 1 - p) (drop p (buf'[q := 10]))))) (grep_lines pattern (buf'[q := 10]) (q + 1))
           else grep_lines pattern buf' (q + 1))"
  by pat_completeness auto
termination
proof (relation "measure (\<lambda>(pattern, buf, p). length buf - p)", goal_cases)
  case (2 pattern buf p r q buf')
  then have "0 < length r" "length r \<le> length (cstr buf p)" using strchr_less by blast+
  moreover have "length (cstr buf p) \<le> length buf - p" by (rule cstr_le)
  ultimately have "p \<le> q" "q < length buf" using 2 by linarith+
  then show ?case using 2 by simp
next
  case (3 pattern buf p r q buf')
  then have "0 < length r" "length r \<le> length (cstr buf p)" using strchr_less by blast+
  moreover have "length (cstr buf p) \<le> length buf - p" by (rule cstr_le)
  ultimately have "p \<le> q" "q < length buf" using 3 by linarith+
  then show ?case using 3 by simp
qed simp

declare grep_lines.simps [simp del]

primrec grep :: "nat \<Rightarrow> u8 list \<Rightarrow> int \<Rightarrow> u8 list \<Rightarrow> nat \<Rightarrow> u8 list uprog" where
  "grep 0 pattern fd buf m = UHang"
| "grep (Suc k) pattern fd buf m =
    ubind (ucall_data (URead fd (1024 - m - 1))) (\<lambda>(n, d).
    let buf = store_at m d buf in
    if n > 0 then
      let m = m + nat n; buf = buf[m := 0] in
      ubind (grep_lines pattern buf 0) (\<lambda>(buf, p).
      if m > 0 then grep k pattern fd (memmove_arr 0 p (m - p) buf) (m - p)
      else grep k pattern fd buf m)
    else UDone buf)"

primrec grep_files :: "nat \<Rightarrow> u8 list \<Rightarrow> u8 list list \<Rightarrow> u8 list \<Rightarrow> unit uprog" where
  "grep_files k pattern [] buf = UExit 0"
| "grep_files k pattern (f # fs) buf =
    ubind (ucall (UOpen f 0)) (\<lambda>fd.
    if fd < 0 then useq (printf_u ''grep: cannot open %s\<newline>'' [AStr (Some f)]) (UExit 1) else
    ubind (grep k pattern fd buf 0) (\<lambda>buf.
    useq (ucall (UClose fd)) (grep_files k pattern fs buf)))"

definition grep_main :: "nat \<Rightarrow> u8 list list \<Rightarrow> unit uprog" where
  "grep_main k argv =
    (if length argv \<le> 1 then useq (fprintf 2 ''usage: grep pattern [file ...]\<newline>'' []) (UExit 1)
     else if length argv \<le> 2 then useq (grep k (argv ! 1) 0 (replicate 1024 0) 0) (UExit 0)
     else grep_files k (argv ! 1) (drop 2 argv) (replicate 1024 0))"

section \<open>The language of a pattern\<close>

text \<open>A pattern is a list of characters, each with or without a star, and an anchor at the end or
  none. A character stands for itself, the dot for every character.\<close>

datatype item = Chr u8 | Many u8

fun items :: "u8 list \<Rightarrow> item list \<times> bool" where
  "items [] = ([], False)"
| "items [c] = (if c = 36 then ([], True) else ([Chr c], False))"
| "items (c # d # re) =
    (if d = 42 then (case items re of (it, e) \<Rightarrow> (Many c # it, e))
     else (case items (d # re) of (it, e) \<Rightarrow> (Chr c # it, e)))"

definition fits :: "u8 \<Rightarrow> u8 \<Rightarrow> bool" where
  "fits c x \<longleftrightarrow> c = 46 \<or> c = x"

definition conc :: "u8 list set \<Rightarrow> u8 list set \<Rightarrow> u8 list set" where
  "conc A B = {u @ v | u v. u \<in> A \<and> v \<in> B}"

fun words :: "item list \<Rightarrow> u8 list set" where
  "words [] = {[]}"
| "words (Chr c # it) = conc {[x] | x. fits c x} (words it)"
| "words (Many c # it) = conc {u. \<forall>x\<in>set u. fits c x} (words it)"

text \<open>The texts that begin with a word of the pattern, or are one when it is anchored.\<close>

definition pattern_lang :: "u8 list \<Rightarrow> u8 list set" where
  "pattern_lang re = (case items re of (it, e) \<Rightarrow> conc (words it) (if e then {[]} else UNIV))"

lemma conc_assoc: "conc (conc A B) C = conc A (conc B C)"
proof
  show "conc (conc A B) C \<subseteq> conc A (conc B C)" by (auto simp: conc_def) metis
  show "conc A (conc B C) \<subseteq> conc (conc A B) C" by (auto simp: conc_def) (metis append_assoc)
qed

lemma conc_Nil [simp]: "conc {[]} A = A"
  by (auto simp: conc_def)

lemma in_conc: "x \<in> conc A B \<longleftrightarrow> (\<exists>u v. x = u @ v \<and> u \<in> A \<and> v \<in> B)"
  by (auto simp: conc_def)

lemma lang_Nil [simp]: "pattern_lang [] = UNIV"
  by (simp add: pattern_lang_def)

lemma lang_end: "tx \<in> pattern_lang [36] \<longleftrightarrow> tx = []"
  by (simp add: pattern_lang_def)

lemma lang_chr:
  assumes "re = [] \<longrightarrow> c \<noteq> 36" "re \<noteq> [] \<longrightarrow> hd re \<noteq> 42"
  shows "tx \<in> pattern_lang (c # re) \<longleftrightarrow> tx \<noteq> [] \<and> fits c (hd tx) \<and> tl tx \<in> pattern_lang re"
proof -
  have "items (c # re) = (case items re of (it, e) \<Rightarrow> (Chr c # it, e))" using assms by (cases re) auto
  then have "pattern_lang (c # re) = conc {[x] | x. fits c x} (pattern_lang re)"
    by (cases "items re") (simp add: pattern_lang_def conc_assoc)
  moreover have "a # l \<in> conc {[x] | x. fits c x} (pattern_lang re)" if "fits c a" "l \<in> pattern_lang re" for a l
    unfolding in_conc using that by (intro exI [of _ "[a]"] exI [of _ l]) simp
  ultimately show ?thesis by (cases tx) (auto simp: in_conc)
qed

lemma lang_many:
  "tx \<in> pattern_lang (c # 42 # re) \<longleftrightarrow> (\<exists>u v. tx = u @ v \<and> (\<forall>x\<in>set u. fits c x) \<and> v \<in> pattern_lang re)"
proof -
  have "pattern_lang (c # 42 # re) = conc {u. \<forall>x\<in>set u. fits c x} (pattern_lang re)"
    by (cases "items re") (simp add: pattern_lang_def conc_assoc)
  then show ?thesis by (auto simp: in_conc)
qed

lemma matchhere_lang:
  "matchhere re tx \<longleftrightarrow> tx \<in> pattern_lang re"
  "matchstar c re tx \<longleftrightarrow> (\<exists>u v. tx = u @ v \<and> (\<forall>x\<in>set u. fits c x) \<and> v \<in> pattern_lang re)"
proof (induction re tx and c re tx rule: matchhere_matchstar.induct)
  case (1 re tx)
  show ?case
  proof (cases re)
    case (Cons a re')
    show ?thesis
    proof (cases re')
      case Nil
      then show ?thesis
        unfolding matchhere.simps [of re tx]
        using 1 Cons lang_chr [of "[]" a tx] by (cases "a = 36") (auto simp: lang_end fits_def)
    next
      case (Cons b re'')
      then show ?thesis
        unfolding matchhere.simps [of re tx]
        using 1 \<open>re = a # re'\<close> by (cases "b = 42") (auto simp: lang_many lang_chr fits_def)
    qed
  qed (simp add: matchhere.simps)
next
  case (2 c re tx)
  show ?case (is "_ \<longleftrightarrow> ?R tx")
  proof (cases "tx \<in> pattern_lang re")
    case True
    then have "?R tx" by (intro exI [of _ "[]"] exI [of _ tx]) auto
    then show ?thesis using 2(1) True by (simp add: matchstar.simps [of c re tx])
  next
    case False
    have "?R tx \<longleftrightarrow> tx \<noteq> [] \<and> fits c (hd tx) \<and> ?R (tl tx)"
    proof
      assume "?R tx"
      then obtain u v where uv: "tx = u @ v" "\<forall>x\<in>set u. fits c x" "v \<in> pattern_lang re" by blast
      then obtain x u' where "u = x # u'" using False by (cases u) auto
      then show "tx \<noteq> [] \<and> fits c (hd tx) \<and> ?R (tl tx)" using uv by auto
    next
      assume r: "tx \<noteq> [] \<and> fits c (hd tx) \<and> ?R (tl tx)"
      then obtain u v where "tl tx = u @ v" "\<forall>x\<in>set u. fits c x" "v \<in> pattern_lang re" by blast
      then show "?R tx" using r by (intro exI [of _ "hd tx # u"] exI [of _ v]) (cases tx; auto)
    qed
    then show ?thesis using 2 False by (auto simp: matchstar.simps [of c re tx] fits_def)
  qed
qed

lemma match_from_iff: "match_from re tx \<longleftrightarrow> (\<exists>u v. tx = u @ v \<and> v \<in> pattern_lang re)"
proof (induction tx)
  case (Cons x tx)
  have "(\<exists>u v. x # tx = u @ v \<and> v \<in> pattern_lang re) \<longleftrightarrow> x # tx \<in> pattern_lang re \<or> (\<exists>u v. tx = u @ v \<and> v \<in> pattern_lang re)"
    by (auto simp: Cons_eq_append_conv)
  then show ?case using Cons by (subst match_from.simps) (simp add: matchhere_lang)
qed (simp add: match_from.simps matchhere_lang)

text \<open>C30. \<^verbatim>\<open>match\<close> decides the language of the pattern: it says yes exactly when some part of the line is
  a word of the pattern, where a character stands for itself, a dot for any character, a star for any
  number of the character before it, a leading \<^verbatim>\<open>^\<close> ties the word to the beginning of the line and
  a final \<^verbatim>\<open>$\<close> to its end.\<close>

theorem match_correct:
  "match re tx \<longleftrightarrow>
    (let (anchored, re') = (if re \<noteq> [] \<and> hd re = 94 then (True, tl re) else (False, re)); (it, ends) = items re'
     in \<exists>u w v. tx = u @ w @ v \<and> w \<in> words it \<and> (anchored \<longrightarrow> u = []) \<and> (ends \<longrightarrow> v = []))"
proof -
  have "tx \<in> pattern_lang r \<longleftrightarrow> (\<exists>w v. tx = w @ v \<and> w \<in> words (fst (items r)) \<and> (snd (items r) \<longrightarrow> v = []))" for r tx
    by (auto simp: pattern_lang_def in_conc split: prod.splits)
  then show ?thesis
    by (simp add: match_def match_from_iff matchhere_lang case_prod_beta) metis
qed

theorem match_correct_witness: "match [94, 97, 42, 98, 36] [97, 97, 98]"
proof -
  have "[97, 97, 98] \<in> words [Many 97, Chr 98]"
    unfolding words.simps in_conc by (rule exI [of _ "[97, 97]"], rule exI [of _ "[98]"]) (auto simp: fits_def in_conc)
  then show ?thesis
    using match_correct [of "[94, 97, 42, 98, 36]" "[97, 97, 98]"] by auto
qed

section \<open>Lines\<close>

text \<open>The complete lines of a text after the beginning \<open>acc\<close> of one, and the unfinished line at the
  end.\<close>

fun split_lines :: "u8 list \<Rightarrow> u8 list \<Rightarrow> u8 list list \<times> u8 list" where
  "split_lines acc [] = ([], acc)"
| "split_lines acc (b # bs) =
    (if b = 10 then (case split_lines [] bs of (lns, r) \<Rightarrow> (acc # lns, r)) else split_lines (acc @ [b]) bs)"

lemma split_lines_append:
  "split_lines acc (xs @ ys) =
    (case split_lines acc xs of (lns, r) \<Rightarrow> case split_lines r ys of (lns', r') \<Rightarrow> (lns @ lns', r'))"
  by (induction acc xs rule: split_lines.induct) (auto split: prod.splits)

lemma split_lines_plain: "10 \<notin> set xs \<Longrightarrow> split_lines acc xs = ([], acc @ xs)"
  by (induction acc xs rule: split_lines.induct) auto

lemma split_lines_rest: "split_lines acc xs = (lns, r) \<Longrightarrow> 10 \<notin> set acc \<Longrightarrow> 10 \<notin> set r \<and> set r \<subseteq> set acc \<union> set xs"
  by (induction acc xs arbitrary: lns r rule: split_lines.induct) (fastforce split: if_splits prod.splits)+

lemma strchr_split:
  "strchr s c = Some r \<Longrightarrow> \<exists>u r'. s = u @ c # r' \<and> c \<notin> set u \<and> r = c # r'"
  by (induction s) (fastforce split: if_splits intro: exI [of _ "_ # _"])+

abbreviation line_out :: "u8 list \<Rightarrow> int \<times> u8 list" where
  "line_out l \<equiv> (1, l @ [10])"

lemma grep_lines_ok:
  assumes "drop p buf = xs @ 0 # zs" "0 \<notin> set xs" "split_lines [] xs = (lns, r)"
  shows "\<exists>buf' p'. urun file_os (grep_lines pattern buf p) w =
      (Returned (buf', p'), w\<lparr>w_out := w_out w @ map line_out (filter (match pattern) lns)\<rparr>) \<and>
    p \<le> p' \<and> p' + length r = p + length xs \<and> drop p' buf' = r @ 0 # zs \<and> length buf' = length buf"
  using assms
proof (induction "length xs" arbitrary: xs buf p lns w rule: less_induct)
  case less
  have c: "cstr buf p = xs" using less.prems(1,2) by (simp add: cstr_def takeWhile_nul)
  show ?case
  proof (cases "strchr xs 10")
    case None
    then have "lns = []" "r = xs" using less.prems(3) split_lines_plain [of xs "[]"] by auto
    then show ?thesis using None less.prems(1) c by (simp add: grep_lines.simps [of pattern buf p] del: strchr_None)
  next
    case (Some t)
    then obtain u r' where u: "xs = u @ 10 # r'" "10 \<notin> set u" "t = 10 # r'" using strchr_split by blast
    define q where "q = p + length u"
    have q: "p + (length xs - length t) = q" using u by (simp add: q_def)
    obtain lns' where lns: "split_lines [] r' = (lns', r)" "lns = u # lns'"
      using less.prems(3) u split_lines_append [of "[]" u "10 # r'"] split_lines_plain [of u "[]"] by (auto split: prod.splits)
    have ql: "q < length buf"
    proof -
      have "length (drop p buf) = length xs + Suc (length zs)" using less.prems(1) by simp
      then show ?thesis using u by (simp add: q_def)
    qed
    have d0: "drop p (buf[q := v]) = u @ v # r' @ 0 # zs" for v
      using less.prems(1) u ql by (simp add: drop_update_swap q_def list_update_append)
    have d1: "drop (q + 1) (buf[q := v]) = r' @ 0 # zs" for v
    proof -
      have "drop (q + 1) (buf[q := v]) = drop (Suc (length u)) (drop p (buf[q := v]))" by (simp add: q_def add.commute)
      then show ?thesis by (simp add: d0)
    qed
    have cs: "cstr (buf[q := 0]) p = u" using less.prems(2) u by (simp add: cstr_def d0 takeWhile_nul)
    have n0: "0 \<notin> set r'" using less.prems(2) u by simp
    show ?thesis
    proof (cases "match pattern u")
      case True
      let ?w = "w\<lparr>w_out := w_out w @ [line_out u]\<rparr>" and ?buf = "buf[q := 10]"
      obtain buf' p' where IH: "urun file_os (grep_lines pattern ?buf (q + 1)) ?w =
          (Returned (buf', p'), ?w\<lparr>w_out := w_out ?w @ map line_out (filter (match pattern) lns')\<rparr>)"
        "q + 1 \<le> p'" "p' + length r = q + 1 + length r'" "drop p' buf' = r @ 0 # zs" "length buf' = length ?buf"
        using less.hyps [where w = ?w, OF _ d1 [of 10] n0 lns(1)] u(1) by auto
      have "take (q + 1 - p) (drop p ?buf) = u @ [10]" by (simp add: d0) (simp add: q_def)
      then show ?thesis
        using IH True c Some q cs lns u by (simp add: grep_lines.simps [of pattern buf p] urun_useq Let_def q_def)
    next
      case False
      obtain buf' p' where IH: "urun file_os (grep_lines pattern (buf[q := 0]) (q + 1)) w =
          (Returned (buf', p'), w\<lparr>w_out := w_out w @ map line_out (filter (match pattern) lns')\<rparr>)"
        "q + 1 \<le> p'" "p' + length r = q + 1 + length r'" "drop p' buf' = r @ 0 # zs" "length buf' = length (buf[q := 0])"
        using less.hyps [where w = w, OF _ d1 [of 0] n0 lns(1)] u(1) by auto
      then show ?thesis
        using False c Some q cs lns u by (simp add: grep_lines.simps [of pattern buf p] Let_def q_def)
    qed
  qed
qed

text \<open>Every line fits into the buffer.\<close>

definition lines_fit :: "u8 list \<Rightarrow> u8 list \<Rightarrow> bool" where
  "lines_fit acc bs \<longleftrightarrow> (\<forall>l \<in> set (fst (split_lines acc bs)). length l \<le> 1022) \<and> length (snd (split_lines acc bs)) \<le> 1022"

lemma lines_fit_acc: "lines_fit acc bs \<Longrightarrow> length acc \<le> 1022"
proof (induction acc bs rule: split_lines.induct)
  case (2 acc b bs)
  then show ?case by (fastforce simp: lines_fit_def split: if_splits prod.splits)
qed (simp add: lines_fit_def)

lemma lines_fit_append:
  "lines_fit acc (xs @ ys) \<Longrightarrow> split_lines acc xs = (lns, r) \<Longrightarrow> lines_fit r ys"
  by (auto simp: lines_fit_def split_lines_append split: prod.splits)

lemma grep_ok:
  assumes "delivers w bs" "length bs < k" "length buf = 1024" "take m buf = r" "length r = m" "10 \<notin> set r" "0 \<notin> set r" "0 \<notin> set bs"
    "lines_fit r bs"
  shows "\<exists>buf' w'. urun file_os (grep k pattern fd buf m) w = (Returned buf', w') \<and>
    w_out w' = w_out w @ map line_out (filter (match pattern) (fst (split_lines r bs)))"
  using assms
proof (induction k arbitrary: w bs buf m r)
  case (Suc k)
  have "0 < 1024 - m - 1" using lines_fit_acc [OF Suc.prems(9)] Suc.prems(5) by simp
  with Suc.prems(1) show ?case
  proof (cases rule: read_delivers [where fd = fd])
    case eof
    then show ?thesis by (auto simp: urun_ubind Let_def)
  next
    case (part d bs' w1)
    define m' where "m' = m + length d"
    have m': "m' \<le> 1023" "m \<le> m'" using part(3) \<open>0 < 1024 - m - 1\<close> by (simp_all add: m'_def)
    define buf1 where "buf1 = (store_at m d buf)[m' := 0]"
    obtain lns r2 where sp: "split_lines r d = (lns, r2)" by fastforce
    have "store_at m d buf = (r @ d) @ drop m' buf" using Suc.prems(4) by (simp add: store_at_def m'_def)
    moreover have "drop m' buf = buf ! m' # drop (Suc m') buf" using m' Suc.prems(3) by (simp add: Cons_nth_drop_Suc)
    moreover have "length (r @ d) = m'" using Suc.prems(5) by (simp add: m'_def)
    ultimately have "buf1 = ((r @ d) @ buf ! m' # drop (Suc m') buf)[length (r @ d) := 0]" unfolding buf1_def by (simp only:)
    then have b1: "drop 0 buf1 = (r @ d) @ 0 # drop (Suc m') buf" by (simp only: list_update_length drop_0)
    have "0 \<notin> set (r @ d)" "split_lines [] (r @ d) = (lns, r2)"
      using Suc.prems(6-8) part(1) sp by (auto simp: split_lines_append split_lines_plain)
    from grep_lines_ok [OF b1 this, of pattern w1] obtain buf2 p where p:
      "urun file_os (grep_lines pattern buf1 0) w1 = (Returned (buf2, p), w1\<lparr>w_out := w_out w1 @ map line_out (filter (match pattern) lns)\<rparr>)"
      "p + length r2 = m'" "drop p buf2 = r2 @ 0 # drop (Suc m') buf" "length buf2 = length buf1"
      using Suc.prems(5) by (auto simp: m'_def)
    let ?w = "w1\<lparr>w_out := w_out w1 @ map line_out (filter (match pattern) lns)\<rparr>"
    let ?buf = "memmove_arr 0 p (m' - p) buf2"
    have mp: "m' - p = length r2" using p(2) by simp
    have mv: "?buf = r2 @ drop (length r2) buf2" unfolding memmove_arr_def mp p(3) by (simp add: store_at_def)
    have len1: "length buf1 = 1024" using Suc.prems(3,5) m' by (simp add: buf1_def m'_def)
    have len: "length ?buf = 1024" unfolding mv using len1 p(2,4) m' by simp
    have r2: "10 \<notin> set r2" "0 \<notin> set r2"
      using split_lines_rest [OF sp] Suc.prems(6) \<open>0 \<notin> set (r @ d)\<close> by auto
    have fit: "lines_fit r2 bs'" using lines_fit_append [OF Suc.prems(9) [unfolded part(1)] sp] .
    have "length bs' < k" using part Suc.prems(2) by (cases d) auto
    moreover have "0 \<notin> set bs'" using Suc.prems(8) part(1) by simp
    ultimately obtain buf' w' where IH: "urun file_os (grep k pattern fd ?buf (length r2)) ?w = (Returned buf', w')"
      "w_out w' = w_out ?w @ map line_out (filter (match pattern) (fst (split_lines r2 bs')))"
      using Suc.IH [of ?w bs' ?buf "length r2" r2] part(4) len r2 fit mv by auto
    have "0 < m'" using part(2) by (simp add: m'_def)
    then show ?thesis
      using part p(1) IH sp mp
      by (simp add: urun_ubind Let_def split_lines_append flip: m'_def buf1_def split: prod.splits)
  qed
qed simp

text \<open>C31. \<^verbatim>\<open>grep\<close> writes to descriptor 1 exactly the lines of the file that match, in order and with their
  newlines, for a file without nul bytes whose lines have at most 1022 bytes, however the reads split
  it and wherever the lines fall in its buffer; an unfinished last line is never looked at.\<close>

theorem grep_prints_matching_lines:
  assumes "delivers w bs" "length bs < k" "length buf = 1024" "0 \<notin> set bs" "lines_fit [] bs"
  shows "\<exists>buf' w'. urun file_os (grep k pattern fd buf 0) w = (Returned buf', w') \<and>
    w_out w' = w_out w @ map line_out (filter (match pattern) (fst (split_lines [] bs)))"
  using grep_ok [of w bs k buf 0 "[]"] assms by simp

theorem grep_prints_matching_lines_witness:
  "\<exists>buf' w'. urun file_os (grep 9 [97, 36] 0 (replicate 1024 0) 0) \<lparr>w_in = [[98, 97, 10, 97], [98, 10, 97]], w_out = []\<rparr> = (Returned buf', w') \<and>
    w_out w' = [(1, [98, 97, 10])]"
proof -
  have m: "match [97, 36] [98, 97]" "\<not> match [97, 36] [97, 98]"
    by (simp_all add: match_def match_from.simps matchhere.simps)
  show ?thesis
    using grep_prints_matching_lines [of "\<lparr>w_in = [[98, 97, 10, 97], [98, 10, 97]], w_out = []\<rparr>" "[98, 97, 10, 97, 98, 10, 97]" 9 "replicate 1024 0" "[97, 36]" 0] m
    by (auto simp: delivers_def lines_fit_def)
qed

end
