(* ===== verification/Sh.thy ===== *)
theory Sh
  imports Utils
begin

text \<open>
  The shell, \<^verbatim>\<open>user/sh.c\<close>: the recursive descent parser over the line, the pass that ends the words
  with nuls in place, the execution of the commands and the read loop.

  The line is the list of the bytes before its nul and a pointer into it is a position, at most the
  position of the nul (\<^verbatim>\<open>es\<close>). The nodes of the tree hold positions of the words, as the code
  does, because the words are cut only after the whole line has been parsed. \<^verbatim>\<open>malloc\<close> is taken to
  succeed: the constructors use its result without a test.
\<close>

section \<open>Commands\<close>

text \<open>\<open>CNull\<close> is the null pointer. The words of an \<^verbatim>\<open>execcmd\<close> are the pairs of its arrays
  \<^verbatim>\<open>argv\<close> and \<^verbatim>\<open>eargv\<close> before the null.\<close>

datatype cmd = CNull | EXEC "(nat \<times> nat) list" | REDIR cmd nat nat int int | PIPE cmd cmd | LIST cmd cmd | BACK cmd

definition MAXARGS :: nat where "MAXARGS = 10"

section \<open>Tokens\<close>

definition whitespace :: "u8 list" where "whitespace = [32, 9, 13, 10, 11]"

definition symbols :: "u8 list" where "symbols = [60, 124, 62, 38, 59, 40, 41]"

text \<open>\<^verbatim>\<open>*s\<close>, the nul at the end included.\<close>

definition at :: "u8 list \<Rightarrow> nat \<Rightarrow> u8" where
  "at str s = (if s < length str then str ! s else 0)"

text \<open>\<^verbatim>\<open>while(s < es && ...) s++\<close>\<close>

function skip :: "(u8 \<Rightarrow> bool) \<Rightarrow> u8 list \<Rightarrow> nat \<Rightarrow> nat" where
  "skip P str s = (if s < length str \<and> P (str ! s) then skip P str (Suc s) else s)"
  by pat_completeness auto
termination
  by (relation "measure (\<lambda>(P, str, s). length str - s)") auto

declare skip.simps [simp del]

definition is_space :: "u8 \<Rightarrow> bool" where
  "is_space c \<longleftrightarrow> strchr whitespace c \<noteq> None"

definition is_word :: "u8 \<Rightarrow> bool" where
  "is_word c \<longleftrightarrow> strchr whitespace c = None \<and> strchr symbols c = None"

lemma is_space_iff: "is_space c \<longleftrightarrow> c \<in> {32, 9, 13, 10, 11}"
  unfolding is_space_def strchr_None by (simp add: whitespace_def)

lemma is_word_iff: "is_word c \<longleftrightarrow> c \<notin> {32, 9, 13, 10, 11, 60, 124, 62, 38, 59, 40, 41}"
  unfolding is_word_def strchr_None by (auto simp: whitespace_def symbols_def)

text \<open>The token with the positions \<^verbatim>\<open>q\<close> and \<^verbatim>\<open>eq\<close> and the new position. The word token is
  97, which is \<^verbatim>\<open>'a'\<close>, and 43, which is \<^verbatim>\<open>'+'\<close>, stands for \<^verbatim>\<open>>>\<close>.\<close>

definition gettoken :: "u8 list \<Rightarrow> nat \<Rightarrow> u8 \<times> nat \<times> nat \<times> nat" where
  "gettoken str ps =
    (let q = skip is_space str ps; c = at str q;
         (ret, eq) =
           (if c = 0 then (c, q)
            else if c \<in> {124, 40, 41, 59, 38, 60} then (c, q + 1)
            else if c = 62 then (if at str (q + 1) = 62 then (43, q + 2) else (c, q + 1))
            else (97, skip is_word str q))
     in (ret, q, eq, skip is_space str eq))"

definition peek :: "u8 list \<Rightarrow> nat \<Rightarrow> u8 list \<Rightarrow> nat \<times> bool" where
  "peek str ps toks =
    (let s = skip is_space str ps in (s, at str s \<noteq> 0 \<and> strchr toks (at str s) \<noteq> None))"

section \<open>The parser\<close>

datatype 'a pres = POk 'a nat | PPanic string | PFuel

fun pbind :: "'a pres \<Rightarrow> ('a \<Rightarrow> nat \<Rightarrow> 'b pres) \<Rightarrow> 'b pres" where
  "pbind (POk a s) f = f a s"
| "pbind (PPanic m) f = PPanic m"
| "pbind PFuel f = PFuel"

text \<open>A redirection: file, end of file, mode and descriptor, in the order of \<^verbatim>\<open>redircmd\<close>.\<close>

type_synonym redir = "nat \<times> nat \<times> int \<times> int"

definition redircmd :: "redir \<Rightarrow> cmd \<Rightarrow> cmd" where
  "redircmd r c = (case r of (file, efile, mode, fd) \<Rightarrow> REDIR c file efile mode fd)"

definition redir_of :: "u8 \<Rightarrow> nat \<Rightarrow> nat \<Rightarrow> redir" where
  "redir_of tok q eq =
    (if tok = 60 then (q, eq, 0, 0)
     else if tok = 62 then (q, eq, 1 + 0x200 + 0x400, 1)
     else (q, eq, 1 + 0x200, 1))"

lemma skip_ge: "s \<le> skip P str s"
  by (induction P str s rule: skip.induct) (subst skip.simps, simp, fastforce)

lemma gettoken_ge: "gettoken str s = (t, q, eq, s') \<Longrightarrow> s \<le> q \<and> q \<le> eq \<and> eq \<le> s'"
  by (auto simp: gettoken_def Let_def skip_ge intro: order_trans [OF skip_ge] split: if_splits)

lemma peek_true: "peek str s toks = (s', True) \<Longrightarrow> s \<le> s' \<and> s' < length str"
  by (auto simp: peek_def Let_def at_def skip_ge split: if_splits)

lemma peek_ge: "peek str s toks = (s', b) \<Longrightarrow> s \<le> s'"
  by (auto simp: peek_def Let_def skip_ge)

lemma pbind_cong [fundef_cong]:
  "m = m' \<Longrightarrow> (\<And>a s. m' = POk a s \<Longrightarrow> f a s = g a s) \<Longrightarrow> pbind m f = pbind m' g"
  by (cases m') auto

lemma pbind_POk: "pbind m f = POk b s \<longleftrightarrow> (\<exists>a s'. m = POk a s' \<and> f a s' = POk b s)"
  by (cases m) auto

lemma pbind_PFuel: "pbind m f = PFuel \<longleftrightarrow> m = PFuel \<or> (\<exists>a s. m = POk a s \<and> f a s = PFuel)"
  by (cases m) auto

lemma skip_stop: "\<not> (skip P str s < length str \<and> P (str ! skip P str s))"
  by (induction P str s rule: skip.induct) (subst (1 2) skip.simps, simp)

lemma skip_idem [simp]: "skip P str (skip P str s) = skip P str s"
  using skip_stop [of P str s] skip.simps [of P str "skip P str s"] by argo

text \<open>A token other than the end moves the position.\<close>

lemma gettoken_progress:
  assumes "gettoken str s = (t, q, eq, s')" "t \<noteq> 0"
  shows "s < s' \<and> q < length str \<and> q < eq"
proof -
  have q: "q = skip is_space str s" using assms(1) by (auto simp: gettoken_def Let_def split: if_splits prod.splits)
  have c: "at str q \<noteq> 0" using assms by (auto simp: gettoken_def Let_def split: if_splits)
  have "q < skip is_word str q" if "at str q \<notin> {0, 124, 40, 41, 59, 38, 60, 62}"
  proof -
    have "q < length str" using c by (simp add: at_def split: if_splits)
    moreover from this have "\<not> is_space (str ! q)" using skip_stop [of is_space str s] by (simp only: q) blast
    ultimately have "is_word (str ! q)" using that by (auto simp: at_def is_word_iff is_space_iff)
    with \<open>q < length str\<close> have "skip is_word str q = skip is_word str (Suc q)" by (subst skip.simps) simp
    then show ?thesis using skip_ge [of "Suc q" is_word str] by simp
  qed
  then have "q < eq" using assms by (auto simp: gettoken_def Let_def simp flip: q split: if_splits)
  then show ?thesis using gettoken_ge [OF assms(1)] c by (auto simp: at_def split: if_splits)
qed

lemma peek_token:
  assumes "peek str s toks = (s1, True)" "gettoken str s1 = (t, q, eq, s2)"
  shows "t \<noteq> 0 \<and> s < s2"
proof -
  have "s \<le> s1" "at str (skip is_space str s1) \<noteq> 0" using assms(1) by (auto simp: peek_def Let_def skip_ge)
  then have "t \<noteq> 0" using assms(2) by (auto simp: gettoken_def Let_def split: if_splits)
  then show ?thesis using gettoken_progress [OF assms(2)] \<open>s \<le> s1\<close> by auto
qed

lemma peek_step: "peek str s toks = (s1, True) \<Longrightarrow> gettoken str s1 = (t, q, eq, s2) \<Longrightarrow> s < s2 \<and> s < length str"
  using peek_token peek_true by fastforce

text \<open>The loop of \<^verbatim>\<open>parseredirs\<close>: the redirections from position \<open>s\<close> on; \<open>fold redircmd\<close> wraps
  them around the command, the first one innermost.\<close>

function parseredirs :: "u8 list \<Rightarrow> nat \<Rightarrow> redir list pres" where
  "parseredirs str s =
    (case peek str s [60, 62] of (s1, b) \<Rightarrow>
     if \<not> b then POk [] s1 else
     case gettoken str s1 of (tok, _, _, s2) \<Rightarrow>
     case gettoken str s2 of (t, q, eq, s3) \<Rightarrow>
     if t \<noteq> 97 then PPanic ''missing file for redirection'' else
     pbind (parseredirs str s3) (\<lambda>rs s4. POk (redir_of tok q eq # rs) s4))"
  by pat_completeness auto
termination
proof (relation "measure (\<lambda>(str, s). length str - s)", goal_cases)
  case (2 str s s1 b tok ya q1 yb eq1 s2 t yd q ye eq s3)
  have "peek str s [60, 62] = (s1, True)" "gettoken str s1 = (tok, q1, eq1, s2)" "gettoken str s2 = (t, q, eq, s3)" using 2 by simp_all
  then have "s < s2" "s2 \<le> s3" "s < length str" using peek_token gettoken_ge peek_true by (blast, fastforce, fastforce)
  then show ?case by simp
qed simp

declare parseredirs.simps [simp del]

lemma parseredirs_ge: "parseredirs str s = POk rs s' \<Longrightarrow> s \<le> s'"
proof (induction str s arbitrary: rs s' rule: parseredirs.induct)
  case (1 str s)
  obtain s1 b where pk: "peek str s [60, 62] = (s1, b)" by fastforce
  show ?case
  proof (cases b)
    case False
    then show ?thesis using 1(2) pk peek_ge [OF pk] by (simp add: parseredirs.simps [of str s])
  next
    case True
    obtain tok q1 eq1 s2 where t1: "gettoken str s1 = (tok, q1, eq1, s2)" by (cases "gettoken str s1") auto
    obtain t q eq s3 where t2: "gettoken str s2 = (t, q, eq, s3)" by (cases "gettoken str s2") auto
    have "s < s2" "s2 \<le> s3" using peek_token [OF _ t1] pk True gettoken_ge [OF t2] by auto
    moreover obtain rs1 where "t = 97" "parseredirs str s3 = POk rs1 s'"
      using 1(2) pk True t1 t2 by (auto simp: parseredirs.simps [of str s] pbind_POk split: if_splits)
    ultimately show ?thesis using 1(1) [OF pk [symmetric] _ t1 [symmetric] refl refl t2 [symmetric] refl refl] True by fastforce
  qed
qed

text \<open>The loop of \<^verbatim>\<open>parseexec\<close>: the words and the redirections between them.\<close>

function parseexec_args :: "u8 list \<Rightarrow> nat \<Rightarrow> (nat \<times> nat) list \<Rightarrow> ((nat \<times> nat) list \<times> redir list) pres" where
  "parseexec_args str s args =
    (case peek str s [124, 41, 38, 59] of (s1, b) \<Rightarrow>
     if b then POk (args, []) s1 else
     case gettoken str s1 of (tok, q, eq, s2) \<Rightarrow>
     if tok = 0 then POk (args, []) s2 else
     if tok \<noteq> 97 then PPanic ''syntax'' else
     if Suc (length args) \<ge> MAXARGS then PPanic ''too many args'' else
     pbind (parseredirs str s2) (\<lambda>rs s3.
     pbind (parseexec_args str s3 (args @ [(q, eq)])) (\<lambda>(args, rs') s4. POk (args, rs @ rs') s4)))"
  by pat_completeness auto
termination
proof (relation "measure (\<lambda>(str, s, args). length str - s)", goal_cases)
  case (2 str s args s1 b tok ya q yb eq s2 rs s3)
  have pk: "peek str s [124, 41, 38, 59] = (s1, b)" and t: "gettoken str s1 = (tok, q, eq, s2)" using 2 by simp_all
  have "s \<le> s1" using pk skip_ge by (auto simp: peek_def Let_def)
  moreover have "s1 < s2" "q < length str" "s1 \<le> q" using gettoken_progress [OF t] gettoken_ge [OF t] 2(7) by auto
  moreover have "s2 \<le> s3" using parseredirs_ge 2 by blast
  ultimately show ?case by simp
qed simp

declare parseexec_args.simps [simp del]

section \<open>The grammar\<close>

text \<open>The four mutually recursive functions, with a bound on the depth of their calls.\<close>

fun parse_backs :: "u8 list \<Rightarrow> nat \<Rightarrow> nat \<Rightarrow> cmd \<Rightarrow> cmd pres" where
  "parse_backs str 0 s c = PFuel"
| "parse_backs str (Suc n) s c =
    (case peek str s [38] of (s1, b) \<Rightarrow>
     if \<not> b then POk c s1 else
     case gettoken str s1 of (_, _, _, s2) \<Rightarrow> parse_backs str n s2 (BACK c))"

fun parseline :: "u8 list \<Rightarrow> nat \<Rightarrow> nat \<Rightarrow> cmd pres"
and parsepipe :: "u8 list \<Rightarrow> nat \<Rightarrow> nat \<Rightarrow> cmd pres"
and parseblock :: "u8 list \<Rightarrow> nat \<Rightarrow> nat \<Rightarrow> cmd pres"
and parseexec :: "u8 list \<Rightarrow> nat \<Rightarrow> nat \<Rightarrow> cmd pres" where
  "parseline str 0 s = PFuel"
| "parseline str (Suc n) s =
    pbind (parsepipe str n s) (\<lambda>c s1.
    pbind (parse_backs str n s1 c) (\<lambda>c s2.
    case peek str s2 [59] of (s3, b) \<Rightarrow>
    if b then
      (case gettoken str s3 of (_, _, _, s4) \<Rightarrow>
       pbind (parseline str n s4) (\<lambda>r s5. POk (LIST c r) s5))
    else POk c s3))"
| "parsepipe str 0 s = PFuel"
| "parsepipe str (Suc n) s =
    pbind (parseexec str n s) (\<lambda>c s1.
    case peek str s1 [124] of (s2, b) \<Rightarrow>
    if b then
      (case gettoken str s2 of (_, _, _, s3) \<Rightarrow>
       pbind (parsepipe str n s3) (\<lambda>r s4. POk (PIPE c r) s4))
    else POk c s2)"
| "parseblock str 0 s = PFuel"
| "parseblock str (Suc n) s =
    (case peek str s [40] of (s1, b) \<Rightarrow>
     if \<not> b then PPanic ''parseblock'' else
     case gettoken str s1 of (_, _, _, s2) \<Rightarrow>
     pbind (parseline str n s2) (\<lambda>c s3.
     case peek str s3 [41] of (s4, b) \<Rightarrow>
     if \<not> b then PPanic ''syntax - missing )'' else
     case gettoken str s4 of (_, _, _, s5) \<Rightarrow>
     pbind (parseredirs str s5) (\<lambda>rs s6. POk (fold redircmd rs c) s6)))"
| "parseexec str 0 s = PFuel"
| "parseexec str (Suc n) s =
    (case peek str s [40] of (s1, b) \<Rightarrow>
     if b then parseblock str n s1 else
     pbind (parseredirs str s1) (\<lambda>rs s2.
     pbind (parseexec_args str s2 []) (\<lambda>(args, rs') s3. POk (fold redircmd (rs @ rs') (EXEC args)) s3)))"

text \<open>\<^verbatim>\<open>nulterminate\<close>: a nul behind every word, in the array that holds the line.\<close>

primrec nulterminate :: "cmd \<Rightarrow> u8 list \<Rightarrow> u8 list" where
  "nulterminate CNull buf = buf"
| "nulterminate (EXEC args) buf = fold (\<lambda>(q, eq) buf. buf[eq := 0]) args buf"
| "nulterminate (REDIR c file efile mode fd) buf = (nulterminate c buf)[efile := 0]"
| "nulterminate (PIPE l r) buf = nulterminate r (nulterminate l buf)"
| "nulterminate (LIST l r) buf = nulterminate r (nulterminate l buf)"
| "nulterminate (BACK c) buf = nulterminate c buf"

section \<open>Running commands\<close>

definition panic_sh :: "string \<Rightarrow> 'a uprog" where
  "panic_sh m = useq (fprintf 2 ''%s\<newline>'' [AStr (Some (bytes m))]) (UExit 1)"

definition fork1 :: "int uprog" where
  "fork1 = ubind (ucall UFork) (\<lambda>pid. if pid = -1 then panic_sh ''fork'' else UDone pid)"

definition parsecmd :: "nat \<Rightarrow> u8 list \<Rightarrow> (cmd \<times> u8 list) uprog" where
  "parsecmd n buf =
    (let str = cstr buf 0 in
     case parseline str n 0 of
       POk c s \<Rightarrow>
         (case peek str s [] of (s, _) \<Rightarrow>
          if s \<noteq> length str then
            useq (fprintf 2 ''leftovers: %s\<newline>'' [AStr (Some (drop s str))]) (panic_sh ''syntax'')
          else UDone (c, nulterminate c buf))
     | PPanic m \<Rightarrow> panic_sh m
     | PFuel \<Rightarrow> UHang)"

text \<open>The two descriptors that \<^verbatim>\<open>pipe\<close> stores.\<close>

definition pipe_fd :: "nat \<Rightarrow> u8 list \<Rightarrow> int" where
  "pipe_fd i d = sint (le_word (take 4 (drop (4 * i) d)) :: u32)"

primrec runcmd :: "cmd \<Rightarrow> u8 list \<Rightarrow> unit uprog" where
  "runcmd CNull buf = UExit 1"
| "runcmd (EXEC args) buf =
    (let argv = map (\<lambda>(q, eq). cstr buf q) args in
     if argv = [] then UExit 1 else
     useq (ucall (UExec (hd argv) argv))
     (useq (fprintf 2 ''exec %s failed\<newline>'' [AStr (Some (hd argv))]) (UExit 0)))"
| "runcmd (REDIR c file efile mode fd) buf =
    useq (ucall (UClose fd))
    (ubind (ucall (UOpen (cstr buf file) mode)) (\<lambda>r.
     if r < 0 then useq (fprintf 2 ''open %s failed\<newline>'' [AStr (Some (cstr buf file))]) (UExit 1)
     else runcmd c buf))"
| "runcmd (LIST l r) buf =
    ubind fork1 (\<lambda>pid.
    if pid = 0 then runcmd l buf
    else useq (ucall UWait) (runcmd r buf))"
| "runcmd (PIPE l r) buf =
    ubind (ucall_data UPipe) (\<lambda>(e, d).
    if e < 0 then panic_sh ''pipe'' else
    let p0 = pipe_fd 0 d; p1 = pipe_fd 1 d in
    ubind fork1 (\<lambda>pid.
    if pid = 0 then
      useq (ucall (UClose 1)) (useq (ucall (UDup p1)) (useq (ucall (UClose p0)) (useq (ucall (UClose p1)) (runcmd l buf))))
    else
      ubind fork1 (\<lambda>pid.
      if pid = 0 then
        useq (ucall (UClose 0)) (useq (ucall (UDup p0)) (useq (ucall (UClose p0)) (useq (ucall (UClose p1)) (runcmd r buf))))
      else
        useq (ucall (UClose p0)) (useq (ucall (UClose p1))
        (useq (ucall UWait) (useq (ucall UWait) (UExit 0)))))))"
| "runcmd (BACK c) buf =
    ubind fork1 (\<lambda>pid. if pid = 0 then runcmd c buf else UExit 0)"

definition getcmd :: "u8 list \<Rightarrow> int \<Rightarrow> (int \<times> u8 list) uprog" where
  "getcmd buf nbuf =
    useq (ucall (UWrite 2 [36, 32]))
    (ubind (gets_u (memset_u buf 0 0 (nat nbuf)) nbuf) (\<lambda>buf.
     if buf ! 0 = 0 then UDone (-1, buf) else UDone (0, buf)))"

primrec sh_open :: "nat \<Rightarrow> unit uprog" where
  "sh_open 0 = UHang"
| "sh_open (Suc k) =
    ubind (ucall (UOpen (bytes ''console'') 2)) (\<lambda>fd.
    if fd \<ge> 0 then (if fd \<ge> 3 then useq (ucall (UClose fd)) (UDone ()) else sh_open k)
    else UDone ())"

primrec sh_loop :: "nat \<Rightarrow> u8 list \<Rightarrow> unit uprog" where
  "sh_loop 0 buf = UHang"
| "sh_loop (Suc k) buf =
    ubind (getcmd buf 100) (\<lambda>(r, buf).
    if r < 0 then UExit 0
    else if buf ! 0 = 99 \<and> buf ! 1 = 100 \<and> buf ! 2 = 32 then
      (let buf = buf[strlen_u (cstr buf 0) - 1 := 0] in
       ubind (ucall (UChdir (cstr buf 3))) (\<lambda>r.
       useq (uwhen (r < 0) (fprintf 2 ''cannot cd %s\<newline>'' [AStr (Some (cstr buf 3))])) (sh_loop k buf)))
    else
      ubind fork1 (\<lambda>pid.
      if pid = 0 then ubind (parsecmd (4 * length buf + 4) buf) (\<lambda>(c, buf). runcmd c buf)
      else useq (ucall UWait) (sh_loop k buf)))"

definition sh_main :: "nat \<Rightarrow> unit uprog" where
  "sh_main k = useq (sh_open k) (sh_loop k (replicate 100 0))"

section \<open>The parser ends\<close>

lemma parseexec_args_ge: "parseexec_args str s args = POk r s' \<Longrightarrow> s \<le> s'"
proof (induction str s args arbitrary: r s' rule: parseexec_args.induct)
  case (1 str s args)
  obtain s1 b where pk: "peek str s [124, 41, 38, 59] = (s1, b)" by fastforce
  obtain tok q eq s2 where t: "gettoken str s1 = (tok, q, eq, s2)" by (cases "gettoken str s1") auto
  have le: "s \<le> s1" "s1 \<le> s2" using peek_ge [OF pk] gettoken_ge [OF t] by auto
  show ?case
  proof (cases "b \<or> tok = 0")
    case True
    then show ?thesis using 1(2) pk t le by (auto simp: parseexec_args.simps [of str s] split: if_splits)
  next
    case False
    then obtain rs s3 where rs: "tok = 97" "\<not> MAXARGS \<le> Suc (length args)" "parseredirs str s2 = POk rs s3"
      "\<exists>r. parseexec_args str s3 (args @ [(q, eq)]) = POk r s'"
      using 1(2) pk t by (auto simp: parseexec_args.simps [of str s] pbind_POk split: if_splits)
    then have "s3 \<le> s'" using 1(1) [OF pk [symmetric] _ t [symmetric] refl refl] False by blast
    then show ?thesis using le parseredirs_ge [OF rs(3)] by simp
  qed
qed

lemma parse_backs_ge: "parse_backs str n s c = POk c' s' \<Longrightarrow> s \<le> s'"
proof (induction str n s c rule: parse_backs.induct)
  case (2 str n s c)
  obtain s1 b where pk: "peek str s [38] = (s1, b)" by fastforce
  obtain tok q eq s2 where t: "gettoken str s1 = (tok, q, eq, s2)" by (cases "gettoken str s1") auto
  have "s \<le> s1" "s1 \<le> s2" using peek_ge [OF pk] gettoken_ge [OF t] by auto
  then show ?case using 2 pk t by (cases b) fastforce+
qed simp

lemma parse_backs_fuel: "length str - s < n \<Longrightarrow> parse_backs str n s c \<noteq> PFuel"
proof (induction str n s c rule: parse_backs.induct)
  case (2 str n s c)
  obtain s1 b where pk: "peek str s [38] = (s1, b)" by fastforce
  obtain tok q eq s2 where t: "gettoken str s1 = (tok, q, eq, s2)" by (cases "gettoken str s1") auto
  show ?case
  proof (cases b)
    case True
    then have "s < s2 \<and> s < length str" using pk peek_step [OF _ t] by simp
    then have "length str - s2 < n" using "2.prems" by linarith
    then show ?thesis using "2.IH" pk t True by fastforce
  qed (use pk in simp)
qed simp

lemma parseredirs_fuel: "parseredirs str s \<noteq> PFuel"
proof (induction str s rule: parseredirs.induct)
  case (1 str s)
  obtain s1 b where pk: "peek str s [60, 62] = (s1, b)" by fastforce
  obtain tok q1 eq1 s2 where t1: "gettoken str s1 = (tok, q1, eq1, s2)" by (cases "gettoken str s1") auto
  obtain t q eq s3 where t2: "gettoken str s2 = (t, q, eq, s3)" by (cases "gettoken str s2") auto
  show ?case
    using 1 [OF pk [symmetric] _ t1 [symmetric] refl refl t2 [symmetric] refl refl] pk t1 t2
    by (auto simp: parseredirs.simps [of str s] pbind_PFuel)
qed

lemma parseexec_args_fuel: "parseexec_args str s args \<noteq> PFuel"
proof (induction str s args rule: parseexec_args.induct)
  case (1 str s args)
  obtain s1 b where pk: "peek str s [124, 41, 38, 59] = (s1, b)" by fastforce
  obtain tok q eq s2 where t: "gettoken str s1 = (tok, q, eq, s2)" by (cases "gettoken str s1") auto
  show ?case
    using 1 [OF pk [symmetric] _ t [symmetric] refl refl] pk t parseredirs_fuel
    by (auto simp: parseexec_args.simps [of str s] pbind_PFuel split: prod.splits)
qed

text \<open>The parser never goes back.\<close>

lemma parse_ge:
  "(parseline str n s = POk c s' \<longrightarrow> s \<le> s') \<and> (parsepipe str n s = POk c s' \<longrightarrow> s \<le> s') \<and>
   (parseblock str n s = POk c s' \<longrightarrow> s \<le> s') \<and> (parseexec str n s = POk c s' \<longrightarrow> s \<le> s')"
proof (induction n arbitrary: s c s')
  case (Suc n)
  note IH = Suc [THEN conjunct1, rule_format] Suc [THEN conjunct2, THEN conjunct1, rule_format]
    Suc [THEN conjunct2, THEN conjunct2, THEN conjunct1, rule_format] Suc [THEN conjunct2, THEN conjunct2, THEN conjunct2, rule_format]
  show ?case
  proof (intro conjI impI)
    assume "parseline str (Suc n) s = POk c s'"
    then obtain c1 s1 c2 s2 where p: "parsepipe str n s = POk c1 s1" "parse_backs str n s1 c1 = POk c2 s2"
      "(case peek str s2 [59] of (s3, b) \<Rightarrow>
        if b then (case gettoken str s3 of (_, _, _, s4) \<Rightarrow> pbind (parseline str n s4) (\<lambda>r s5. POk (LIST c2 r) s5)) else POk c2 s3) = POk c s'"
      by (auto simp: pbind_POk)
    have "s2 \<le> s'" using p(3) by (auto simp: pbind_POk split: prod.splits if_splits dest!: IH(1) peek_ge gettoken_ge)
    then show "s \<le> s'" using IH(2) [OF p(1)] parse_backs_ge [OF p(2)] by simp
  next
    assume "parsepipe str (Suc n) s = POk c s'"
    then show "s \<le> s'"
      by (clarsimp simp: pbind_POk) (auto simp: pbind_POk split: prod.splits if_splits dest!: IH(2,4) peek_ge gettoken_ge)
  next
    assume a: "parseblock str (Suc n) s = POk c s'"
    obtain s1 b where pk: "peek str s [40] = (s1, b)" by fastforce
    obtain t q eq s2 where t: "gettoken str s1 = (t, q, eq, s2)" by (cases "gettoken str s1") auto
    obtain c1 s3 where p: "parseline str n s2 = POk c1 s3"
      "(case peek str s3 [41] of (s4, b) \<Rightarrow> if \<not> b then PPanic ''syntax - missing )'' else
        case gettoken str s4 of (_, _, _, s5) \<Rightarrow> pbind (parseredirs str s5) (\<lambda>rs s6. POk (fold redircmd rs c1) s6)) = POk c s'"
      using a pk t by (auto simp: pbind_POk split: if_splits)
    have "s3 \<le> s'" using p(2) by (auto simp: pbind_POk split: prod.splits if_splits dest!: parseredirs_ge peek_ge gettoken_ge)
    then show "s \<le> s'" using IH(1) [OF p(1)] peek_ge [OF pk] gettoken_ge [OF t] by simp
  next
    assume "parseexec str (Suc n) s = POk c s'"
    then show "s \<le> s'"
      by (clarsimp simp: pbind_POk) (auto simp: pbind_POk split: prod.splits if_splits dest!: IH(3) parseredirs_ge parseexec_args_ge peek_ge)
  qed
qed simp

lemma parse_fuel:
  "(4 * (length str - s) + 4 \<le> n \<longrightarrow> parseline str n s \<noteq> PFuel) \<and> (4 * (length str - s) + 3 \<le> n \<longrightarrow> parsepipe str n s \<noteq> PFuel) \<and>
   (4 * (length str - s) + 1 \<le> n \<longrightarrow> parseblock str n s \<noteq> PFuel) \<and> (4 * (length str - s) + 2 \<le> n \<longrightarrow> parseexec str n s \<noteq> PFuel)"
proof (induction n arbitrary: s)
  case (Suc n)
  note IH = Suc [THEN conjunct1, rule_format] Suc [THEN conjunct2, THEN conjunct1, rule_format]
    Suc [THEN conjunct2, THEN conjunct2, THEN conjunct1, rule_format] Suc [THEN conjunct2, THEN conjunct2, THEN conjunct2, rule_format]
  note ge = parse_ge [THEN conjunct1, rule_format] parse_ge [THEN conjunct2, THEN conjunct1, rule_format]
    parse_ge [THEN conjunct2, THEN conjunct2, THEN conjunct2, rule_format]
  show ?case
  proof (intro conjI impI notI)
    assume f: "4 * (length str - s) + 4 \<le> Suc n" "parseline str (Suc n) s = PFuel"
    have "parsepipe str n s \<noteq> PFuel" using f(1) by (intro IH(2)) simp
    then obtain c s1 where c: "parsepipe str n s = POk c s1"
      "pbind (parse_backs str n s1 c) (\<lambda>c s2. case peek str s2 [59] of (s3, b) \<Rightarrow>
        if b then (case gettoken str s3 of (_, _, _, s4) \<Rightarrow> pbind (parseline str n s4) (\<lambda>r s5. POk (LIST c r) s5)) else POk c s3) = PFuel"
      using f(2) by (auto simp: pbind_PFuel)
    have "s \<le> s1" by (rule ge(2) [OF c(1)])
    then have "parse_backs str n s1 c \<noteq> PFuel" using f(1) by (intro parse_backs_fuel) linarith
    then obtain c2 s2 where c2: "parse_backs str n s1 c = POk c2 s2" "s1 \<le> s2"
      "(case peek str s2 [59] of (s3, b) \<Rightarrow>
        if b then (case gettoken str s3 of (_, _, _, s4) \<Rightarrow> pbind (parseline str n s4) (\<lambda>r s5. POk (LIST c2 r) s5)) else POk c2 s3) = PFuel"
      using c(2) parse_backs_ge by (auto simp: pbind_PFuel)
    then obtain s3 t q eq s4 where s4: "peek str s2 [59] = (s3, True)" "gettoken str s3 = (t, q, eq, s4)" "parseline str n s4 = PFuel"
      by (auto simp: pbind_PFuel split: prod.splits if_splits)
    have "s2 < s4 \<and> s2 < length str" by (rule peek_step [OF s4(1,2)])
    then have "4 * (length str - s4) + 4 \<le> n" using f(1) \<open>s \<le> s1\<close> c2(2) by linarith
    then show False using IH(1) s4(3) by blast
  next
    assume f: "4 * (length str - s) + 3 \<le> Suc n" "parsepipe str (Suc n) s = PFuel"
    have "parseexec str n s \<noteq> PFuel" using f(1) by (intro IH(4)) simp
    then obtain c s1 where c1: "parseexec str n s = POk c s1" "(case peek str s1 [124] of (s2, b) \<Rightarrow> if b then (case gettoken str s2 of (_, _, _, s3) \<Rightarrow> pbind (parsepipe str n s3) (\<lambda>r s4. POk (PIPE c r) s4)) else POk c s2) = PFuel"
      using f(2) by (auto simp: pbind_PFuel)
    then obtain s2 t q eq s3 where c: "parseexec str n s = POk c s1"
      "peek str s1 [124] = (s2, True)" "gettoken str s2 = (t, q, eq, s3)" "parsepipe str n s3 = PFuel"
      by (auto simp: pbind_PFuel split: prod.splits if_splits)
    have "s1 < s3 \<and> s1 < length str" by (rule peek_step [OF c(2,3)])
    then have "4 * (length str - s3) + 3 \<le> n" using f(1) ge(3) [OF c(1)] by linarith
    then show False using IH(2) c(4) by blast
  next
    assume f: "4 * (length str - s) + 1 \<le> Suc n" "parseblock str (Suc n) s = PFuel"
    obtain s1 b where pk: "peek str s [40] = (s1, b)" by fastforce
    obtain t q eq s2 where t: "gettoken str s1 = (t, q, eq, s2)" by (cases "gettoken str s1") auto
    have "(case peek str s3 [41] of (s4, b) \<Rightarrow> if \<not> b then PPanic ''syntax - missing )'' else
        case gettoken str s4 of (_, _, _, s5) \<Rightarrow> pbind (parseredirs str s5) (\<lambda>rs s6. POk (fold redircmd rs c1) s6)) \<noteq> PFuel" for s3 c1
      using parseredirs_fuel by (auto simp: pbind_PFuel split: prod.splits if_splits)
    then have c: "peek str s [40] = (s1, True)" "gettoken str s1 = (t, q, eq, s2)" "parseline str n s2 = PFuel"
      using f(2) pk t by (auto simp: pbind_PFuel split: if_splits)
    have "s < s2 \<and> s < length str" by (rule peek_step [OF c(1,2)])
    then have "4 * (length str - s2) + 4 \<le> n" using f(1) by linarith
    then show False using IH(1) c(3) by blast
  next
    assume f: "4 * (length str - s) + 2 \<le> Suc n" "parseexec str (Suc n) s = PFuel"
    then obtain s1 where c: "peek str s [40] = (s1, True)" "parseblock str n s1 = PFuel"
      using parseredirs_fuel parseexec_args_fuel by (auto simp: pbind_PFuel split: prod.splits if_splits)
    then show False using IH(3) [of s1] peek_ge [OF c(1)] f(1) by simp
  qed
qed simp

lemma fprintf_returns: "fst (urun os (fprintf fd fmt [AStr x]) w) = Returned ()"
proof -
  have "fst (urun os (ufor bs (putc fd)) w) = Returned ()" for bs
    by (induction bs arbitrary: w) (auto simp: putc_def urun_useq split: prod.splits)
  then show ?thesis by (simp add: fprintf_def vprintf_def vprintf_loop_text int_args_def)
qed

lemma fprintf_then [simp]:
  "fst (urun os (useq (fprintf fd fmt [AStr x]) p) w) = fst (urun os p (snd (urun os (fprintf fd fmt [AStr x]) w)))"
  using fprintf_returns [of os fd fmt x w] by (auto simp: urun_useq split: prod.splits)

text \<open>C29. The shell's parser ends on every line, with the bound that the read loop gives it: on every system it
  returns a command, or prints a message and exits with status 1.\<close>

theorem sh_parser_terminates:
  "(\<exists>c. fst (urun os (parsecmd (4 * length buf + 4) buf) w) = Returned c) \<or> fst (urun os (parsecmd (4 * length buf + 4) buf) w) = Exited 1"
proof -
  let ?str = "cstr buf 0"
  have "length ?str \<le> length buf" using cstr_le [of buf 0] by simp
  then have "parseline ?str (4 * length buf + 4) 0 \<noteq> PFuel" using parse_fuel [of ?str 0 "4 * length buf + 4"] by simp
  then show ?thesis
    by (auto simp: parsecmd_def Let_def panic_sh_def split: pres.splits prod.splits)
qed

section \<open>The parser returns well-formed commands\<close>

text \<open>A word of the line between two positions: not empty, of word characters, and as long as
  possible.\<close>

definition tok_ok :: "u8 list \<Rightarrow> nat \<Rightarrow> nat \<Rightarrow> bool" where
  "tok_ok str q eq \<longleftrightarrow> q < eq \<and> eq \<le> length str \<and> (\<forall>i. q \<le> i \<longrightarrow> i < eq \<longrightarrow> is_word (str ! i)) \<and>
    (eq < length str \<longrightarrow> \<not> is_word (str ! eq))"

primrec wf_cmd :: "u8 list \<Rightarrow> cmd \<Rightarrow> bool" where
  "wf_cmd str CNull \<longleftrightarrow> False"
| "wf_cmd str (EXEC args) \<longleftrightarrow> length args < MAXARGS \<and> (\<forall>(q, eq) \<in> set args. tok_ok str q eq)"
| "wf_cmd str (REDIR c file efile mode fd) \<longleftrightarrow>
    wf_cmd str c \<and> tok_ok str file efile \<and> (mode, fd) \<in> {(0, 0), (0x601, 1), (0x201, 1)}"
| "wf_cmd str (PIPE l r) \<longleftrightarrow> wf_cmd str l \<and> wf_cmd str r"
| "wf_cmd str (LIST l r) \<longleftrightarrow> wf_cmd str l \<and> wf_cmd str r"
| "wf_cmd str (BACK c) \<longleftrightarrow> wf_cmd str c"

definition wf_redir :: "u8 list \<Rightarrow> redir \<Rightarrow> bool" where
  "wf_redir str r \<longleftrightarrow> (case r of (q, eq, mode, fd) \<Rightarrow> tok_ok str q eq \<and> (mode, fd) \<in> {(0, 0), (0x601, 1), (0x201, 1)})"

lemma skip_all: "s \<le> i \<Longrightarrow> i < skip P str s \<Longrightarrow> i < length str \<and> P (str ! i)"
proof (induction P str s rule: skip.induct)
  case (1 P str s)
  show ?case
  proof (cases "s < length str \<and> P (str ! s)")
    case True
    then show ?thesis using 1 skip.simps [of P str s] by (cases "i = s") auto
  next
    case False
    then have "skip P str s = s" by (subst skip.simps) auto
    then show ?thesis using "1.prems" by simp
  qed
qed

lemma gettoken_word:
  assumes "gettoken str s = (97, q, eq, s')"
  shows "tok_ok str q eq"
proof -
  have e: "eq = skip is_word str q" using assms by (auto simp: gettoken_def Let_def split: if_splits)
  have q: "q < eq" "q < length str" using gettoken_progress [OF assms] by simp_all
  have w: "i < length str \<and> is_word (str ! i)" if "q \<le> i" "i < eq" for i
    using skip_all [of q i is_word str] that unfolding e by blast
  have "eq \<le> length str" using w [of "eq - 1"] q by (cases eq) auto
  then show ?thesis using q w skip_stop [of is_word str q] unfolding tok_ok_def e [symmetric] by blast
qed

lemma wf_redir_of: "tok_ok str q eq \<Longrightarrow> wf_redir str (redir_of tok q eq)"
  by (simp add: wf_redir_def redir_of_def)

lemma parseredirs_wf: "parseredirs str s = POk rs s' \<Longrightarrow> \<forall>r\<in>set rs. wf_redir str r"
proof (induction str s arbitrary: rs s' rule: parseredirs.induct)
  case (1 str s)
  obtain s1 b where pk: "peek str s [60, 62] = (s1, b)" by fastforce
  obtain tok q1 eq1 s2 where t1: "gettoken str s1 = (tok, q1, eq1, s2)" by (cases "gettoken str s1") auto
  obtain t q eq s3 where t2: "gettoken str s2 = (t, q, eq, s3)" by (cases "gettoken str s2") auto
  show ?case
    using 1(1) [OF pk [symmetric] _ t1 [symmetric] refl refl t2 [symmetric] refl refl] 1(2) pk t1 t2 gettoken_word [of str s2 q eq s3]
    by (auto simp: parseredirs.simps [of str s] pbind_POk wf_redir_of split: if_splits)
qed

lemma parseexec_args_wf:
  "parseexec_args str s args = POk (args', rs) s' \<Longrightarrow> wf_cmd str (EXEC args) \<Longrightarrow>
    wf_cmd str (EXEC args') \<and> (\<forall>r\<in>set rs. wf_redir str r)"
proof (induction str s args arbitrary: args' rs s' rule: parseexec_args.induct)
  case (1 str s args)
  obtain s1 b where pk: "peek str s [124, 41, 38, 59] = (s1, b)" by fastforce
  obtain tok q eq s2 where t: "gettoken str s1 = (tok, q, eq, s2)" by (cases "gettoken str s1") auto
  show ?case
    using 1(1) [OF pk [symmetric] _ t [symmetric] refl refl] 1(2,3) pk t gettoken_word [of str s1 q eq s2] parseredirs_wf
    by (fastforce simp: parseexec_args.simps [of str s] pbind_POk split: if_splits)
qed

lemma wf_redirs: "wf_cmd str c \<Longrightarrow> \<forall>r\<in>set rs. wf_redir str r \<Longrightarrow> wf_cmd str (fold redircmd rs c)"
  by (induction rs arbitrary: c) (auto simp: redircmd_def wf_redir_def split: prod.splits)

lemma parse_backs_wf: "parse_backs str n s c = POk c' s' \<Longrightarrow> wf_cmd str c \<Longrightarrow> wf_cmd str c'"
  by (induction str n s c rule: parse_backs.induct) (auto split: prod.splits if_splits)

lemma parse_wf:
  "(parseline str n s = POk c s' \<longrightarrow> wf_cmd str c) \<and> (parsepipe str n s = POk c s' \<longrightarrow> wf_cmd str c) \<and>
   (parseblock str n s = POk c s' \<longrightarrow> wf_cmd str c) \<and> (parseexec str n s = POk c s' \<longrightarrow> wf_cmd str c)"
proof (induction n arbitrary: s c s')
  case (Suc n)
  note IH = Suc [THEN conjunct1, rule_format] Suc [THEN conjunct2, THEN conjunct1, rule_format]
    Suc [THEN conjunct2, THEN conjunct2, THEN conjunct1, rule_format] Suc [THEN conjunct2, THEN conjunct2, THEN conjunct2, rule_format]
  show ?case
  proof (intro conjI impI)
    assume "parseline str (Suc n) s = POk c s'"
    then obtain c1 s1 c2 s2 where p: "parsepipe str n s = POk c1 s1" "parse_backs str n s1 c1 = POk c2 s2"
      "(case peek str s2 [59] of (s3, b) \<Rightarrow>
        if b then (case gettoken str s3 of (_, _, _, s4) \<Rightarrow> pbind (parseline str n s4) (\<lambda>r s5. POk (LIST c2 r) s5)) else POk c2 s3) = POk c s'"
      by (auto simp: pbind_POk)
    then show "wf_cmd str c"
      using parse_backs_wf [OF p(2) IH(2) [OF p(1)]] by (auto simp: pbind_POk split: prod.splits if_splits dest!: IH(1))
  next
    assume "parsepipe str (Suc n) s = POk c s'"
    then show "wf_cmd str c"
      by (clarsimp simp: pbind_POk) (auto simp: pbind_POk split: prod.splits if_splits dest!: IH(2,4))
  next
    assume a: "parseblock str (Suc n) s = POk c s'"
    obtain s1 b where pk: "peek str s [40] = (s1, b)" by fastforce
    obtain t q eq s2 where t: "gettoken str s1 = (t, q, eq, s2)" by (cases "gettoken str s1") auto
    obtain c1 s3 where p: "parseline str n s2 = POk c1 s3"
      "(case peek str s3 [41] of (s4, b) \<Rightarrow> if \<not> b then PPanic ''syntax - missing )'' else
        case gettoken str s4 of (_, _, _, s5) \<Rightarrow> pbind (parseredirs str s5) (\<lambda>rs s6. POk (fold redircmd rs c1) s6)) = POk c s'"
      using a pk t by (auto simp: pbind_POk split: if_splits)
    then show "wf_cmd str c"
      using IH(1) [OF p(1)] by (auto simp: pbind_POk split: prod.splits if_splits intro: wf_redirs dest!: parseredirs_wf)
  next
    assume a: "parseexec str (Suc n) s = POk c s'"
    obtain s1 b where pk: "peek str s [40] = (s1, b)" by fastforce
    show "wf_cmd str c"
    proof (cases b)
      case True
      then show ?thesis using a pk IH(3) by auto
    next
      case False
      then obtain rs s2 args rs' where p: "parseredirs str s1 = POk rs s2" "parseexec_args str s2 [] = POk (args, rs') s'"
        "c = fold redircmd (rs @ rs') (EXEC args)"
        using a pk by (auto simp: pbind_POk)
      have "wf_cmd str (EXEC args) \<and> (\<forall>r\<in>set rs'. wf_redir str r)"
        using parseexec_args_wf [OF p(2)] by (simp add: MAXARGS_def)
      then show ?thesis unfolding p(3) using parseredirs_wf [OF p(1)] by (intro wf_redirs) auto
    qed
  qed
qed simp

section \<open>Printing and parsing\<close>

text \<open>Commands with their words as strings, and the text of a command at the four levels of the grammar:
  0 for \<^verbatim>\<open>parseexec\<close>, 1 for \<^verbatim>\<open>parsepipe\<close>, 2 with the trailing \<^verbatim>\<open>&\<close>, 3 for
  \<^verbatim>\<open>parseline\<close>. A command of a higher level is put into parentheses.\<close>

datatype rkind = RIn | ROut | RApp

datatype acmd = AExec "u8 list list" | ARedir acmd rkind "u8 list" | APipe acmd acmd | AList acmd acmd | ABack acmd

definition show_words :: "u8 list list \<Rightarrow> u8 list" where
  "show_words ws = concat (map (\<lambda>w. w @ [32]) ws)"

primrec rkind_sym :: "rkind \<Rightarrow> u8 list" where
  "rkind_sym RIn = [60]"
| "rkind_sym ROut = [62]"
| "rkind_sym RApp = [62, 62]"

definition show_redirs :: "(rkind \<times> u8 list) list \<Rightarrow> u8 list" where
  "show_redirs rs = concat (map (\<lambda>(k, f). rkind_sym k @ f @ [32]) rs)"

definition paren :: "bool \<Rightarrow> u8 list \<Rightarrow> u8 list" where
  "paren b t = (if b then [40] @ t @ [41] else t)"

primrec show_cmd :: "acmd \<Rightarrow> nat \<Rightarrow> u8 list" where
  "show_cmd (AExec ws) l = show_words ws"
| "show_cmd (ARedir c k f) l = show_cmd c 0 @ show_redirs [(k, f)]"
| "show_cmd (APipe c d) l = paren (l < 1) (show_cmd c 0 @ [124] @ show_cmd d 1)"
| "show_cmd (ABack c) l = paren (l < 2) (show_cmd c 2 @ [38])"
| "show_cmd (AList c d) l = paren (l < 3) (show_cmd c 2 @ [59] @ show_cmd d 3)"

definition word_ok :: "u8 list \<Rightarrow> bool" where
  "word_ok w \<longleftrightarrow> w \<noteq> [] \<and> (\<forall>b\<in>set w. is_word b \<and> b \<noteq> 0)"

primrec acmd_ok :: "acmd \<Rightarrow> bool" where
  "acmd_ok (AExec ws) \<longleftrightarrow> length ws < MAXARGS \<and> (\<forall>w\<in>set ws. word_ok w)"
| "acmd_ok (ARedir c k f) \<longleftrightarrow> acmd_ok c \<and> word_ok f"
| "acmd_ok (APipe c d) \<longleftrightarrow> acmd_ok c \<and> acmd_ok d"
| "acmd_ok (ABack c) \<longleftrightarrow> acmd_ok c"
| "acmd_ok (AList c d) \<longleftrightarrow> acmd_ok c \<and> acmd_ok d"

text \<open>The positions \<open>q\<close> and \<open>eq\<close> of the line hold the word \<open>w\<close>, and the tree holds the command.\<close>

definition tok_is :: "u8 list \<Rightarrow> nat \<times> nat \<Rightarrow> u8 list \<Rightarrow> bool" where
  "tok_is str p w \<longleftrightarrow> (case p of (q, eq) \<Rightarrow> eq = q + length w \<and> take (length w) (drop q str) = w \<and> eq < length str \<and> str ! eq = 32)"

primrec rkind_mode :: "rkind \<Rightarrow> int \<times> int" where
  "rkind_mode RIn = (0, 0)"
| "rkind_mode ROut = (0x601, 1)"
| "rkind_mode RApp = (0x201, 1)"

fun cmd_is :: "u8 list \<Rightarrow> cmd \<Rightarrow> acmd \<Rightarrow> bool" where
  "cmd_is str (EXEC ps) (AExec ws) \<longleftrightarrow> list_all2 (tok_is str) ps ws"
| "cmd_is str (REDIR c q eq mode fd) (ARedir a k f) \<longleftrightarrow> cmd_is str c a \<and> tok_is str (q, eq) f \<and> (mode, fd) = rkind_mode k"
| "cmd_is str (PIPE c d) (APipe a b) \<longleftrightarrow> cmd_is str c a \<and> cmd_is str d b"
| "cmd_is str (LIST c d) (AList a b) \<longleftrightarrow> cmd_is str c a \<and> cmd_is str d b"
| "cmd_is str (BACK c) (ABack a) \<longleftrightarrow> cmd_is str c a"
| "cmd_is str _ _ \<longleftrightarrow> False"

text \<open>The position \<open>length pre\<close> of \<open>pre @ rest\<close>: tokens at the beginning of \<open>rest\<close>. A rest that does
  not begin with a blank is \<open>tight\<close>.\<close>

definition tight :: "u8 list \<Rightarrow> bool" where
  "tight rest \<longleftrightarrow> rest = [] \<or> \<not> is_space (hd rest)"

lemma skip_run:
  assumes "\<forall>c\<in>set w. P c" "rest = [] \<or> \<not> P (hd rest)"
  shows "skip P (pre @ w @ rest) (length pre) = length pre + length w"
  using assms
proof (induction w arbitrary: pre)
  case Nil
  then show ?case by (subst skip.simps) (cases rest; auto simp: nth_append)
next
  case (Cons c w)
  have "skip P (pre @ (c # w) @ rest) (length pre) = skip P ((pre @ [c]) @ w @ rest) (length (pre @ [c]))"
    using Cons.prems by (subst skip.simps) (simp add: nth_append)
  also have "\<dots> = length (pre @ [c]) + length w" using Cons by (intro Cons.IH) auto
  finally show ?case by simp
qed

lemma skip_tight: "tight rest \<Longrightarrow> skip is_space (pre @ rest) (length pre) = length pre"
  using skip_run [of "[]" is_space rest pre] by (auto simp: tight_def)

lemma at_rest: "at (pre @ rest) (length pre) = (case rest of [] \<Rightarrow> 0 | c # _ \<Rightarrow> c)"
  by (auto simp: at_def nth_append split: list.splits)

lemma peek_tight:
  "tight rest \<Longrightarrow> peek (pre @ rest) (length pre) toks =
    (length pre, case rest of [] \<Rightarrow> False | c # _ \<Rightarrow> c \<noteq> 0 \<and> c \<in> set toks)"
  by (simp add: peek_def skip_tight at_rest split: list.splits)

lemma gettoken_sym:
  assumes "c \<in> {124, 40, 41, 59, 38, 60}" "tight rest"
  shows "gettoken (pre @ c # rest) (length pre) = (c, length pre, length pre + 1, length pre + 1)"
proof -
  have "tight (c # rest)" using assms(1) by (auto simp: tight_def is_space_iff)
  then have "skip is_space (pre @ c # rest) (length pre) = length pre" by (rule skip_tight)
  moreover have "skip is_space (pre @ c # rest) (Suc (length pre)) = Suc (length pre)" using skip_tight [OF assms(2), of "pre @ [c]"] by simp
  moreover have "c \<noteq> 0" using assms(1) by auto
  ultimately show ?thesis using assms(1) by (auto simp: gettoken_def Let_def at_rest)
qed

lemma gettoken_gt:
  assumes "rest \<noteq> []" "hd rest \<noteq> 62" "tight rest"
  shows "gettoken (pre @ 62 # rest) (length pre) = (62, length pre, length pre + 1, length pre + 1)"
    "gettoken (pre @ 62 # 62 # rest) (length pre) = (43, length pre, length pre + 2, length pre + 2)"
proof -
  have t: "tight (62 # r)" for r by (simp add: tight_def is_space_iff)
  have "skip is_space (pre @ 62 # r) (length pre) = length pre" for r by (rule skip_tight [OF t])
  moreover have "skip is_space (pre @ 62 # rest) (Suc (length pre)) = Suc (length pre)" using skip_tight [OF assms(3), of "pre @ [62]"] by simp
  moreover have "skip is_space (pre @ 62 # 62 # rest) (Suc (Suc (length pre))) = Suc (Suc (length pre))"
    using skip_tight [OF assms(3), of "pre @ [62, 62]"] by simp
  moreover have "at (pre @ 62 # r) (Suc (length pre)) = (case r of [] \<Rightarrow> 0 | c # _ \<Rightarrow> c)" for r
    using at_rest [of "pre @ [62]" r] by simp
  ultimately show "gettoken (pre @ 62 # rest) (length pre) = (62, length pre, length pre + 1, length pre + 1)"
    "gettoken (pre @ 62 # 62 # rest) (length pre) = (43, length pre, length pre + 2, length pre + 2)"
    using assms(1,2) by (auto simp: gettoken_def Let_def at_rest split: list.splits)
qed

lemma word_first:
  assumes "word_ok w"
  obtains c w' where "w = c # w'" "is_word c" "c \<noteq> 0" "c \<notin> {124, 40, 41, 59, 38, 60, 62}"
  using assms by (cases w) (auto simp: word_ok_def is_word_iff)

lemma tight_word [simp]: "word_ok w \<Longrightarrow> tight (w @ r)"
  by (auto simp: tight_def is_word_iff is_space_iff elim: word_first)

lemma gettoken_text:
  assumes "word_ok w" "tight rest"
  shows "gettoken (pre @ w @ 32 # rest) (length pre) = (97, length pre, length pre + length w, length pre + length w + 1)"
    "tok_is (pre @ w @ 32 # rest) (length pre, length pre + length w) w"
proof -
  have s1: "skip is_space (pre @ w @ 32 # rest) (length pre) = length pre" using skip_tight assms(1) by simp
  have s2: "skip is_word (pre @ w @ 32 # rest) (length pre) = length pre + length w"
    using assms(1) by (intro skip_run) (auto simp: word_ok_def is_word_iff)
  have s3: "skip is_space (pre @ w @ 32 # rest) (length pre + length w) = length pre + length w + 1"
    using skip_run [of "[32]" is_space rest "pre @ w"] assms(2) by (auto simp: tight_def is_space_iff)
  from assms(1) show "gettoken (pre @ w @ 32 # rest) (length pre) = (97, length pre, length pre + length w, length pre + length w + 1)"
    by (elim word_first) (use s1 s2 s3 in \<open>auto simp: gettoken_def Let_def at_rest\<close>)
  show "tok_is (pre @ w @ 32 # rest) (length pre, length pre + length w) w"
    by (simp add: tok_is_def nth_append)
qed

definition redirs_ok :: "(rkind \<times> u8 list) list \<Rightarrow> bool" where
  "redirs_ok rs \<longleftrightarrow> (\<forall>(k, f) \<in> set rs. word_ok f)"

definition follow :: "u8 set \<Rightarrow> u8 list \<Rightarrow> bool" where
  "follow A post \<longleftrightarrow> post = [] \<or> hd post \<in> A"

definition redir_is :: "u8 list \<Rightarrow> redir \<Rightarrow> rkind \<times> u8 list \<Rightarrow> bool" where
  "redir_is str r kf \<longleftrightarrow> (case r of (q, eq, mode, fd) \<Rightarrow> tok_is str (q, eq) (snd kf) \<and> (mode, fd) = rkind_mode (fst kf))"

abbreviation add_redirs :: "acmd \<Rightarrow> (rkind \<times> u8 list) list \<Rightarrow> acmd" where
  "add_redirs a rs \<equiv> foldl (\<lambda>a (k, f). ARedir a k f) a rs"

lemma show_redirs_simps [simp]:
  "show_redirs [] = []" "show_redirs ((k, f) # rs) = rkind_sym k @ f @ 32 # show_redirs rs"
  by (simp_all add: show_redirs_def)

lemma show_words_simps [simp]: "show_words [] = []" "show_words (w # ws) = w @ 32 # show_words ws"
  by (simp_all add: show_words_def)

lemma tight_sym [simp]: "c \<in> {60, 124, 62, 38, 59, 40, 41} \<Longrightarrow> tight (c # r)"
  by (auto simp: tight_def is_space_iff)

lemma tight_follow: "follow A post \<Longrightarrow> A \<subseteq> {60, 124, 62, 38, 59, 40, 41} \<Longrightarrow> tight post"
  by (cases post) (auto simp: follow_def tight_def is_space_iff)

lemma tight_redirs: "tight post \<Longrightarrow> tight (show_redirs rs @ post)"
proof (cases rs)
  case (Cons kf rs')
  obtain k f where "kf = (k, f)" by fastforce
  then show ?thesis using Cons by (cases k) simp_all
qed simp

lemma tight_words: "\<forall>w\<in>set ws. word_ok w \<Longrightarrow> tight post \<Longrightarrow> tight (show_words ws @ post)"
  by (cases ws) simp_all

lemma tight_show: "acmd_ok c \<Longrightarrow> tight post \<Longrightarrow> tight (show_cmd c l @ post)"
  by (induction c arbitrary: l post) (auto simp: tight_words tight_redirs paren_def simp del: show_redirs_simps)

lemma cmd_is_redirs:
  "cmd_is str c a \<Longrightarrow> list_all2 (redir_is str) rs' rs \<Longrightarrow> cmd_is str (fold redircmd rs' c) (add_redirs a rs)"
proof (induction rs arbitrary: rs' c a)
  case (Cons kf rs)
  then obtain r rs1 where r: "rs' = r # rs1" "redir_is str r kf" "list_all2 (redir_is str) rs1 rs" by (auto simp: list_all2_Cons2)
  obtain k f q eq mode fd where kf: "kf = (k, f)" "r = (q, eq, mode, fd)" by (cases kf, cases r) auto
  then have "cmd_is str (redircmd r c) (ARedir a k f)" using r(2) Cons.prems(1) by (cases k) (auto simp: redir_is_def redircmd_def)
  from Cons.IH [OF this r(3)] show ?case using r(1) kf by simp
qed simp

lemma gettoken_rkind:
  assumes "word_ok f" "str = pre @ rkind_sym k @ f @ rest"
  shows "\<exists>tok. gettoken str (length pre) = (tok, length pre, length pre + length (rkind_sym k), length pre + length (rkind_sym k)) \<and>
    (\<forall>q eq. redir_of tok q eq = (q, eq, rkind_mode k))"
proof -
  have f: "f @ rest \<noteq> []" "hd (f @ rest) \<noteq> 62" "tight (f @ rest)" using assms(1) by (auto elim: word_first)
  show ?thesis
    unfolding assms(2) using gettoken_sym [of 60 "f @ rest" pre] gettoken_gt [OF f, of pre] f(3)
    by (cases k) (simp_all add: redir_of_def)
qed

lemma parseredirs_show:
  assumes "redirs_ok rs" "tight rest" "follow (- {60, 62}) rest" "str = pre @ show_redirs rs @ rest"
  shows "\<exists>rs'. parseredirs str (length pre) = POk rs' (length pre + length (show_redirs rs)) \<and> list_all2 (redir_is str) rs' rs"
  using assms(1,4)
proof (induction rs arbitrary: pre)
  case Nil
  have "peek str (length pre) [60, 62] = (length pre, False)"
    using Nil peek_tight [OF assms(2), of pre "[60, 62]"] assms(3) by (auto simp: follow_def split: list.splits)
  then show ?case by (simp add: parseredirs.simps)
next
  case (Cons kf rs)
  obtain k f where kf: "kf = (k, f)" by fastforce
  have f: "word_ok f" "redirs_ok rs" using Cons.prems kf by (auto simp: redirs_ok_def)
  let ?pre1 = "pre @ rkind_sym k" and ?rest1 = "show_redirs rs @ rest"
  have str: "str = pre @ rkind_sym k @ f @ 32 # ?rest1" "str = ?pre1 @ f @ 32 # ?rest1" "str = (?pre1 @ f @ [32]) @ show_redirs rs @ rest"
    using Cons.prems kf by simp_all
  have pk: "peek str (length pre) [60, 62] = (length pre, True)"
    unfolding str(1) using peek_tight [of "rkind_sym k @ f @ 32 # ?rest1" pre "[60, 62]"] by (cases k) auto
  obtain tok where t1: "gettoken str (length pre) = (tok, length pre, length ?pre1, length ?pre1)"
    "\<And>q eq. redir_of tok q eq = (q, eq, rkind_mode k)"
    using gettoken_rkind [OF f(1) str(1)] by auto
  have tr: "tight ?rest1" using assms(2) by (rule tight_redirs)
  have t2: "gettoken str (length ?pre1) = (97, length ?pre1, length ?pre1 + length f, length (?pre1 @ f @ [32]))"
    "tok_is str (length ?pre1, length ?pre1 + length f) f"
    using gettoken_text [OF f(1) tr, of ?pre1] unfolding str(2) by simp_all
  obtain rs1 where "parseredirs str (length (?pre1 @ f @ [32])) = POk rs1 (length (?pre1 @ f @ [32]) + length (show_redirs rs))"
    "list_all2 (redir_is str) rs1 rs" using Cons.IH [OF f(2) str(3)] by blast
  moreover have "redir_is str (length ?pre1, length ?pre1 + length f, rkind_mode k) kf" using t2(2) kf by (simp add: redir_is_def)
  ultimately show ?case
    using pk t1 t2(1) kf by (simp add: parseredirs.simps [of str "length pre"])
qed

lemma gettoken_end: "gettoken pre (length pre) = (0, length pre, length pre, length pre)"
  using skip_tight [of "[]" pre] by (simp add: gettoken_def Let_def at_def tight_def)

lemma parseexec_args_show:
  assumes "\<forall>w\<in>set ws. word_ok w" "redirs_ok rs" "ws = [] \<longrightarrow> rs = []" "follow {124, 41, 38, 59} post"
    "length args + length ws < MAXARGS" "str = pre @ show_words ws @ show_redirs rs @ post"
  shows "\<exists>ps rs'. parseexec_args str (length pre) args =
      POk (args @ ps, rs') (length pre + length (show_words ws) + length (show_redirs rs)) \<and>
    list_all2 (tok_is str) ps ws \<and> list_all2 (redir_is str) rs' rs"
  using assms
proof (induction ws arbitrary: pre args)
  case Nil
  note prems = Nil.prems
  have t: "tight post" using tight_follow [OF prems(4)] by simp
  show ?case
  proof (cases post)
    case Nil
    then show ?thesis
      using prems(3,6) peek_tight [OF t, of pre] gettoken_end [of pre]
      by (simp add: parseexec_args.simps)
  next
    case (Cons c post')
    then show ?thesis
      using prems(3,4,6) peek_tight [OF t, of pre "[124, 41, 38, 59]"]
      by (auto simp: parseexec_args.simps follow_def)
  qed
next
  case (Cons w ws)
  let ?rest = "show_words ws @ show_redirs rs @ post"
  have w: "word_ok w" "\<forall>w\<in>set ws. word_ok w" using Cons.prems(1) by auto
  have tp: "tight post" using tight_follow [OF Cons.prems(4)] by simp
  then have t: "tight ?rest" using w(2) by (intro tight_words tight_redirs)
  have str: "str = pre @ w @ 32 # ?rest" "str = (pre @ w @ [32]) @ ?rest" using Cons.prems(6) by simp_all
  let ?pre = "pre @ w @ [32]"
  have pk: "peek str (length pre) [124, 41, 38, 59] = (length pre, False)"
    unfolding str(1) using w(1) peek_tight [of "w @ 32 # ?rest" pre] by (auto elim!: word_first)
  have tok: "gettoken str (length pre) = (97, length pre, length pre + length w, length ?pre)"
    "tok_is str (length pre, length pre + length w) w"
    using gettoken_text [OF w(1) t, of pre] unfolding str(1) by simp_all
  let ?args = "args @ [(length pre, length pre + length w)]"
  have len: "length ?args + length ws < MAXARGS" using Cons.prems(5) by simp
  show ?case
  proof (cases "ws = []")
    case Nil: True
    have fw: "follow (- {60, 62}) post" using Cons.prems(4) by (auto simp: follow_def)
    have st: "str = ?pre @ show_redirs rs @ post" "str = (?pre @ show_redirs rs) @ show_words [] @ show_redirs [] @ post" using str Nil by simp_all
    obtain rs1 where r1: "parseredirs str (length ?pre) = POk rs1 (length (?pre @ show_redirs rs))" "list_all2 (redir_is str) rs1 rs"
      using parseredirs_show [OF Cons.prems(2) tp fw st(1)] by auto
    have "parseexec_args str (length (?pre @ show_redirs rs)) ?args = POk (?args @ [], []) (length (?pre @ show_redirs rs))"
      using peek_tight [OF tp, of "?pre @ show_redirs rs" "[124, 41, 38, 59]"] gettoken_end [of str] Cons.prems(4) st
      by (cases post) (auto simp: parseexec_args.simps follow_def)
    then show ?thesis
      using pk tok r1 Nil len by (simp add: parseexec_args.simps [of str "length pre"])
  next
    case False
    have fw: "follow (- {60, 62}) ?rest" using w(2) False by (cases ws) (auto simp: follow_def elim!: word_first)
    have st: "str = ?pre @ show_redirs [] @ ?rest" using str by simp
    have r1: "parseredirs str (length ?pre) = POk [] (length ?pre)"
      using parseredirs_show [OF _ t fw st] by (simp add: redirs_ok_def)
    obtain ps rs' where "parseexec_args str (length ?pre) ?args =
        POk (?args @ ps, rs') (length ?pre + length (show_words ws) + length (show_redirs rs))"
      "list_all2 (tok_is str) ps ws" "list_all2 (redir_is str) rs' rs"
      using Cons.IH [OF w(2) Cons.prems(2) _ Cons.prems(4) len str(2)] False by blast
    then show ?thesis
      using pk tok r1 len by (simp add: parseexec_args.simps [of str "length pre"])
  qed
qed

text \<open>What each level of the parser does on the text of a command, followed by what may follow it.\<close>

definition exec_ok :: "acmd \<Rightarrow> bool" where
  "exec_ok c \<longleftrightarrow> (\<forall>pre rs post n str. redirs_ok rs \<longrightarrow> follow {124, 41, 38, 59} post \<longrightarrow>
    str = pre @ show_cmd c 0 @ show_redirs rs @ post \<longrightarrow> 4 * (length str - length pre) + 2 \<le> n \<longrightarrow>
    (\<exists>c'. parseexec str n (length pre) = POk c' (length pre + length (show_cmd c 0) + length (show_redirs rs)) \<and>
      cmd_is str c' (add_redirs c rs)))"

definition pipe_ok :: "acmd \<Rightarrow> bool" where
  "pipe_ok c \<longleftrightarrow> (\<forall>pre post n str. follow {41, 38, 59} post \<longrightarrow>
    str = pre @ show_cmd c 1 @ post \<longrightarrow> 4 * (length str - length pre) + 3 \<le> n \<longrightarrow>
    (\<exists>c'. parsepipe str n (length pre) = POk c' (length pre + length (show_cmd c 1)) \<and> cmd_is str c' c))"

definition backs_ok :: "acmd \<Rightarrow> bool" where
  "backs_ok c \<longleftrightarrow> (\<forall>pre post n str. follow {41, 38, 59} post \<longrightarrow>
    str = pre @ show_cmd c 2 @ post \<longrightarrow> 4 * (length str - length pre) + 3 \<le> n \<longrightarrow>
    (\<exists>c' k. k \<le> length (show_cmd c 2) \<and> cmd_is str c' c \<and>
      (\<forall>m\<ge>k. pbind (parsepipe str n (length pre)) (\<lambda>c s. parse_backs str m s c) =
        parse_backs str (m - k) (length pre + length (show_cmd c 2)) c')))"

definition line_ok :: "acmd \<Rightarrow> bool" where
  "line_ok c \<longleftrightarrow> (\<forall>pre post n str. follow {41} post \<longrightarrow>
    str = pre @ show_cmd c 3 @ post \<longrightarrow> 4 * (length str - length pre) + 4 \<le> n \<longrightarrow>
    (\<exists>c'. parseline str n (length pre) = POk c' (length pre + length (show_cmd c 3)) \<and> cmd_is str c' c))"

lemma peek_follow:
  assumes "follow A post" "A \<subseteq> {124, 41, 38, 59}"
  shows "peek (pre @ post) (length pre) toks = (length pre, post \<noteq> [] \<and> hd post \<in> set toks)"
proof -
  have "tight post" using assms by (intro tight_follow) auto
  from peek_tight [OF this, of pre toks] show ?thesis using assms by (cases post) (auto simp: follow_def)
qed

lemma pipe_from_exec:
  assumes "exec_ok c" "show_cmd c 1 = show_cmd c 0"
  shows "pipe_ok c"
  unfolding pipe_ok_def
proof (intro allI impI)
  fix pre post n str
  assume f: "follow {41, 38, 59} post" and s: "str = pre @ show_cmd c 1 @ post" and n: "4 * (length str - length pre) + 3 \<le> n"
  obtain m where m: "n = Suc m" using n by (cases n) auto
  have "redirs_ok []" "follow {124, 41, 38, 59} post" "str = pre @ show_cmd c 0 @ show_redirs [] @ post" "4 * (length str - length pre) + 2 \<le> m"
    using f s n m assms(2) by (auto simp: redirs_ok_def follow_def)
  then obtain c' where c: "parseexec str m (length pre) = POk c' (length (pre @ show_cmd c 1))" "cmd_is str c' c"
    using assms by (fastforce simp: exec_ok_def)
  have "peek str (length (pre @ show_cmd c 1)) [124] = (length (pre @ show_cmd c 1), False)"
    using peek_follow [OF f, of "pre @ show_cmd c 1" "[124]"] f s by (auto simp: follow_def)
  then show "\<exists>c'. parsepipe str n (length pre) = POk c' (length pre + length (show_cmd c 1)) \<and> cmd_is str c' c"
    using c m by simp
qed

lemma backs_from_pipe:
  assumes "pipe_ok c" "show_cmd c 2 = show_cmd c 1"
  shows "backs_ok c"
  unfolding backs_ok_def
proof (intro allI impI)
  fix pre post n str
  assume f: "follow {41, 38, 59} post" and s: "str = pre @ show_cmd c 2 @ post" and n: "4 * (length str - length pre) + 3 \<le> n"
  obtain c' where "parsepipe str n (length pre) = POk c' (length pre + length (show_cmd c 2))" "cmd_is str c' c"
    using assms f s n by (fastforce simp: pipe_ok_def)
  then show "\<exists>c' k. k \<le> length (show_cmd c 2) \<and> cmd_is str c' c \<and>
      (\<forall>m\<ge>k. pbind (parsepipe str n (length pre)) (\<lambda>c s. parse_backs str m s c) =
        parse_backs str (m - k) (length pre + length (show_cmd c 2)) c')"
    by (intro exI [of _ c'] exI [of _ 0]) simp
qed

text \<open>A line begins with a command and its ampersands.\<close>

lemma line_step:
  assumes "backs_ok c" "follow {41, 59} post" "str = pre @ show_cmd c 2 @ post" "4 * (length str - length pre) + 3 \<le> n"
  shows "\<exists>c'. cmd_is str c' c \<and> pbind (parsepipe str n (length pre)) (\<lambda>c s. parse_backs str n s c) = POk c' (length (pre @ show_cmd c 2))"
proof -
  have f: "follow {41, 38, 59} post" using assms(2) by (auto simp: follow_def)
  obtain c' k where k: "k \<le> length (show_cmd c 2)" "cmd_is str c' c"
    "\<forall>m\<ge>k. pbind (parsepipe str n (length pre)) (\<lambda>c s. parse_backs str m s c) = parse_backs str (m - k) (length pre + length (show_cmd c 2)) c'"
    using assms(1) [unfolded backs_ok_def, rule_format, OF f assms(3,4)] by blast
  have "k < n" using k(1) assms(3,4) by simp
  then obtain j where "n - k = Suc j" by (metis Suc_diff_Suc)
  moreover have "peek str (length (pre @ show_cmd c 2)) [38] = (length (pre @ show_cmd c 2), False)"
    using peek_follow [OF f, of "pre @ show_cmd c 2" "[38]"] assms(2,3) by (auto simp: follow_def)
  ultimately show ?thesis using k \<open>k < n\<close> by auto
qed

lemma line_from_backs:
  assumes "backs_ok c" "show_cmd c 3 = show_cmd c 2"
  shows "line_ok c"
  unfolding line_ok_def
proof (intro allI impI)
  fix pre post n str
  assume f: "follow {41} post" and s: "str = pre @ show_cmd c 3 @ post" and n: "4 * (length str - length pre) + 4 \<le> n"
  obtain m where m: "n = Suc m" using n by (cases n) auto
  have f': "follow {41, 59} post" "follow {41, 38, 59} post" using f by (auto simp: follow_def)
  obtain c' where c: "cmd_is str c' c" "pbind (parsepipe str m (length pre)) (\<lambda>c s. parse_backs str m s c) = POk c' (length (pre @ show_cmd c 2))"
    using line_step [OF assms(1) f'(1), of str pre m] s n m assms(2) by auto
  then obtain c1 s1 where "parsepipe str m (length pre) = POk c1 s1" "parse_backs str m s1 c1 = POk c' (length (pre @ show_cmd c 2))"
    by (auto simp: pbind_POk)
  moreover have "peek str (length (pre @ show_cmd c 2)) [59] = (length (pre @ show_cmd c 2), False)"
    using peek_follow [OF f'(2), of "pre @ show_cmd c 2" "[59]"] f s assms(2) by (auto simp: follow_def)
  ultimately show "\<exists>c'. parseline str n (length pre) = POk c' (length pre + length (show_cmd c 3)) \<and> cmd_is str c' c"
    using c m assms(2) by simp
qed

lemma exec_from_line:
  assumes "line_ok c" "show_cmd c 0 = 40 # show_cmd c 3 @ [41]" "acmd_ok c"
  shows "exec_ok c"
  unfolding exec_ok_def
proof (intro allI impI)
  fix pre rs post n str
  assume r: "redirs_ok rs" and f: "follow {124, 41, 38, 59} post" and s: "str = pre @ show_cmd c 0 @ show_redirs rs @ post"
    and n: "4 * (length str - length pre) + 2 \<le> n"
  let ?pre1 = "pre @ [40]" and ?rest1 = "show_cmd c 3 @ 41 # show_redirs rs @ post"
  let ?pre2 = "?pre1 @ show_cmd c 3" and ?pre3 = "?pre1 @ show_cmd c 3 @ [41]"
  obtain m where m: "n = Suc (Suc m)" using n s assms(2) by (cases n; cases "n - 1") auto
  have str: "str = pre @ 40 # ?rest1" "str = ?pre1 @ show_cmd c 3 @ 41 # show_redirs rs @ post"
    "str = ?pre2 @ 41 # show_redirs rs @ post" "str = ?pre3 @ show_redirs rs @ post" using s assms(2) by simp_all
  have tp: "tight post" "follow (- {60, 62}) post" using tight_follow [OF f] f by (auto simp: follow_def)
  have t1: "tight ?rest1" using assms(3) by (intro tight_show) simp_all
  have p1: "peek str (length pre) [40] = (length pre, True)" unfolding str(1) using peek_tight [of "40 # ?rest1" pre "[40]"] by simp
  have g1: "gettoken str (length pre) = (40, length pre, length ?pre1, length ?pre1)"
    unfolding str(1) using gettoken_sym [of 40 ?rest1 pre] t1 by simp
  have fl: "follow {41} (41 # show_redirs rs @ post)" by (simp add: follow_def)
  have "4 * (length str - length ?pre1) + 4 \<le> m" using n m str(1) by simp
  then obtain c' where c: "parseline str m (length ?pre1) = POk c' (length ?pre2)" "cmd_is str c' c"
    using assms(1) fl str(2) unfolding line_ok_def by (metis length_append)
  have p2: "peek str (length ?pre2) [41] = (length ?pre2, True)"
    unfolding str(3) using peek_tight [of "41 # show_redirs rs @ post" ?pre2 "[41]"] by simp
  have g2: "gettoken str (length ?pre2) = (41, length ?pre2, length ?pre3, length ?pre3)"
    unfolding str(3) using gettoken_sym [of 41 "show_redirs rs @ post" ?pre2] tight_redirs [OF tp(1)] by simp
  obtain rs' where "parseredirs str (length ?pre3) = POk rs' (length ?pre3 + length (show_redirs rs))" "list_all2 (redir_is str) rs' rs"
    using parseredirs_show [OF r tp str(4)] by blast
  then show "\<exists>c'. parseexec str n (length pre) = POk c' (length pre + length (show_cmd c 0) + length (show_redirs rs)) \<and>
      cmd_is str c' (add_redirs c rs)"
    using p1 g1 c p2 g2 m assms(2) by (auto intro!: cmd_is_redirs)
qed

lemma rkind_hd: "hd (rkind_sym k @ r) \<noteq> 40"
  by (cases k) simp_all

lemma exec_ok_exec:
  assumes "acmd_ok (AExec ws)"
  shows "exec_ok (AExec ws)"
  unfolding exec_ok_def
proof (intro allI impI)
  fix pre rs post n str
  assume r: "redirs_ok rs" and f: "follow {124, 41, 38, 59} post" and s: "str = pre @ show_cmd (AExec ws) 0 @ show_redirs rs @ post"
    and n: "4 * (length str - length pre) + 2 \<le> n"
  obtain m where m: "n = Suc m" using n by (cases n) auto
  have ws: "\<forall>w\<in>set ws. word_ok w" "length [] + length ws < MAXARGS" using assms by auto
  have tp: "tight post" "follow (- {60, 62}) post" using tight_follow [OF f] f by (auto simp: follow_def)
  have t: "tight (show_words ws @ show_redirs rs @ post)" using ws(1) tp(1) by (intro tight_words tight_redirs)
  have str: "str = pre @ show_words ws @ show_redirs rs @ post" using s by simp
  have p: "peek str (length pre) [40] = (length pre, False)"
  proof -
    have "show_words ws @ show_redirs rs @ post = [] \<or> hd (show_words ws @ show_redirs rs @ post) \<noteq> 40"
    proof (cases ws)
      case Nil
      then show ?thesis using f rkind_hd by (cases rs) (auto simp: follow_def)
    next
      case (Cons w ws')
      then show ?thesis using ws(1) by (auto elim!: word_first)
    qed
    then show ?thesis unfolding str using peek_tight [OF t, of pre "[40]"] by (auto split: list.splits)
  qed
  show "\<exists>c'. parseexec str n (length pre) = POk c' (length pre + length (show_cmd (AExec ws) 0) + length (show_redirs rs)) \<and>
      cmd_is str c' (add_redirs (AExec ws) rs)"
  proof (cases "ws = []")
    case True
    have st: "str = pre @ show_redirs rs @ post" "str = (pre @ show_redirs rs) @ show_words [] @ show_redirs [] @ post" using str True by simp_all
    obtain rs' where rs: "parseredirs str (length pre) = POk rs' (length (pre @ show_redirs rs))" "list_all2 (redir_is str) rs' rs"
      using parseredirs_show [OF r tp st(1)] by auto
    have "parseexec_args str (length (pre @ show_redirs rs)) [] = POk ([], []) (length (pre @ show_redirs rs))"
      using parseexec_args_show [of "[]" "[]" post "[]" str "pre @ show_redirs rs"] f st(2) by (auto simp: redirs_ok_def MAXARGS_def)
    then show ?thesis using p rs m True cmd_is_redirs [of str "EXEC []" "AExec []" rs' rs] by simp
  next
    case False
    then have w: "ws = [] \<longrightarrow> rs = []" by simp
    have fw: "follow (- {60, 62}) (show_words ws @ show_redirs rs @ post)"
      using False ws(1) by (cases ws) (auto simp: follow_def elim!: word_first)
    have "parseredirs str (length pre) = POk [] (length pre)"
      using parseredirs_show [OF _ t fw, of "[]" str pre] str by (simp add: redirs_ok_def)
    moreover obtain ps rs' where "parseexec_args str (length pre) [] =
        POk ([] @ ps, rs') (length pre + length (show_words ws) + length (show_redirs rs))"
      "list_all2 (tok_is str) ps ws" "list_all2 (redir_is str) rs' rs"
      using parseexec_args_show [OF ws(1) r w f ws(2) str] by blast
    ultimately show ?thesis using p m cmd_is_redirs [of str "EXEC ps" "AExec ws" rs' rs] by simp
  qed
qed

lemma exec_ok_redir:
  assumes "exec_ok c" "word_ok f"
  shows "exec_ok (ARedir c k f)"
  unfolding exec_ok_def
proof (intro allI impI)
  fix pre rs post n str
  assume r: "redirs_ok rs" and fl: "follow {124, 41, 38, 59} post" and s: "str = pre @ show_cmd (ARedir c k f) 0 @ show_redirs rs @ post"
    and n: "4 * (length str - length pre) + 2 \<le> n"
  have "redirs_ok ((k, f) # rs)" "str = pre @ show_cmd c 0 @ show_redirs ((k, f) # rs) @ post" using r assms(2) s by (auto simp: redirs_ok_def)
  from assms(1) [unfolded exec_ok_def, rule_format, OF this(1) fl this(2) n] show
    "\<exists>c'. parseexec str n (length pre) = POk c' (length pre + length (show_cmd (ARedir c k f) 0) + length (show_redirs rs)) \<and>
      cmd_is str c' (add_redirs (ARedir c k f) rs)" by auto
qed

lemma pipe_ok_pipe:
  assumes "exec_ok c" "pipe_ok d" "acmd_ok d"
  shows "pipe_ok (APipe c d)"
  unfolding pipe_ok_def
proof (intro allI impI)
  fix pre post n str
  assume f: "follow {41, 38, 59} post" and s: "str = pre @ show_cmd (APipe c d) 1 @ post" and n: "4 * (length str - length pre) + 3 \<le> n"
  obtain m where m: "n = Suc m" using n by (cases n) auto
  let ?pre1 = "pre @ show_cmd c 0" and ?rest = "show_cmd d 1 @ post"
  let ?pre2 = "?pre1 @ [124]"
  have str: "str = pre @ show_cmd c 0 @ show_redirs [] @ 124 # ?rest" "str = ?pre1 @ 124 # ?rest" "str = ?pre2 @ show_cmd d 1 @ post"
    using s by (simp_all add: paren_def)
  have t: "tight ?rest" using assms(3) tight_follow [OF f] by (intro tight_show) simp_all
  have "redirs_ok []" "follow {124, 41, 38, 59} (124 # ?rest)" "4 * (length str - length pre) + 2 \<le> m" using n m by (simp_all add: redirs_ok_def follow_def)
  from assms(1) [unfolded exec_ok_def, rule_format, OF this(1,2) str(1) this(3)] obtain c' where
    c: "parseexec str m (length pre) = POk c' (length ?pre1)" "cmd_is str c' c" by auto
  have p: "peek str (length ?pre1) [124] = (length ?pre1, True)" unfolding str(2) using peek_tight [of "124 # ?rest" ?pre1 "[124]"] by simp
  have g: "gettoken str (length ?pre1) = (124, length ?pre1, length ?pre2, length ?pre2)"
    unfolding str(2) using gettoken_sym [of 124 ?rest ?pre1] t by simp
  have "4 * (length str - length ?pre2) + 3 \<le> m" using n m str(2) by simp
  from assms(2) [unfolded pipe_ok_def, rule_format, OF f str(3) this] obtain d' where
    "parsepipe str m (length ?pre2) = POk d' (length ?pre2 + length (show_cmd d 1))" "cmd_is str d' d" by blast
  then show "\<exists>c'. parsepipe str n (length pre) = POk c' (length pre + length (show_cmd (APipe c d) 1)) \<and> cmd_is str c' (APipe c d)"
    using c p g m by (simp add: paren_def)
qed

lemma backs_ok_back:
  assumes "backs_ok c"
  shows "backs_ok (ABack c)"
  unfolding backs_ok_def
proof (intro allI impI)
  fix pre post n str
  assume f: "follow {41, 38, 59} post" and s: "str = pre @ show_cmd (ABack c) 2 @ post" and n: "4 * (length str - length pre) + 3 \<le> n"
  let ?pre1 = "pre @ show_cmd c 2"
  have str: "str = pre @ show_cmd c 2 @ 38 # post" "str = ?pre1 @ 38 # post" using s by (simp_all add: paren_def)
  have "follow {41, 38, 59} (38 # post)" by (simp add: follow_def)
  from assms [unfolded backs_ok_def, rule_format, OF this str(1) n] obtain c' k where
    k: "k \<le> length (show_cmd c 2)" "cmd_is str c' c"
    "\<And>m. m \<ge> k \<Longrightarrow> pbind (parsepipe str n (length pre)) (\<lambda>c s. parse_backs str m s c) = parse_backs str (m - k) (length ?pre1) c'" by auto
  have p: "peek str (length ?pre1) [38] = (length ?pre1, True)" unfolding str(2) using peek_tight [of "38 # post" ?pre1 "[38]"] by simp
  have g: "gettoken str (length ?pre1) = (38, length ?pre1, length ?pre1 + 1, length ?pre1 + 1)"
    unfolding str(2) using gettoken_sym [of 38 post ?pre1] tight_follow [OF f] by simp
  have "parse_backs str (m - k) (length ?pre1) c' = parse_backs str (m - Suc k) (length ?pre1 + 1) (BACK c')" if "Suc k \<le> m" for m
  proof -
    have "m - k = Suc (m - Suc k)" using that by simp
    then show ?thesis using p g by simp
  qed
  then show "\<exists>c' k. k \<le> length (show_cmd (ABack c) 2) \<and> cmd_is str c' (ABack c) \<and>
      (\<forall>m\<ge>k. pbind (parsepipe str n (length pre)) (\<lambda>c s. parse_backs str m s c) =
        parse_backs str (m - k) (length pre + length (show_cmd (ABack c) 2)) c')"
    using k by (intro exI [of _ "BACK c'"] exI [of _ "Suc k"]) (simp add: paren_def)
qed

lemma line_ok_list:
  assumes "backs_ok c" "line_ok d" "acmd_ok d"
  shows "line_ok (AList c d)"
  unfolding line_ok_def
proof (intro allI impI)
  fix pre post n str
  assume f: "follow {41} post" and s: "str = pre @ show_cmd (AList c d) 3 @ post" and n: "4 * (length str - length pre) + 4 \<le> n"
  obtain m where m: "n = Suc m" using n by (cases n) auto
  let ?pre1 = "pre @ show_cmd c 2" and ?rest = "show_cmd d 3 @ post"
  let ?pre2 = "?pre1 @ [59]"
  have str: "str = pre @ show_cmd c 2 @ 59 # ?rest" "str = ?pre1 @ 59 # ?rest" "str = ?pre2 @ show_cmd d 3 @ post"
    using s by (simp_all add: paren_def)
  have t: "tight ?rest" using assms(3) tight_follow [OF f] by (intro tight_show) simp_all
  have "follow {41, 59} (59 # ?rest)" "4 * (length str - length pre) + 3 \<le> m" using n m by (simp_all add: follow_def)
  from line_step [OF assms(1) this(1) str(1) this(2)] obtain c' where
    c: "cmd_is str c' c" "pbind (parsepipe str m (length pre)) (\<lambda>c s. parse_backs str m s c) = POk c' (length ?pre1)" by blast
  then obtain c1 s1 where c1: "parsepipe str m (length pre) = POk c1 s1" "parse_backs str m s1 c1 = POk c' (length ?pre1)"
    by (auto simp: pbind_POk)
  have p: "peek str (length ?pre1) [59] = (length ?pre1, True)" unfolding str(2) using peek_tight [of "59 # ?rest" ?pre1 "[59]"] by simp
  have g: "gettoken str (length ?pre1) = (59, length ?pre1, length ?pre2, length ?pre2)"
    unfolding str(2) using gettoken_sym [of 59 ?rest ?pre1] t by simp
  have "4 * (length str - length ?pre2) + 4 \<le> m" using n m str(2) by simp
  from assms(2) [unfolded line_ok_def, rule_format, OF f str(3) this] obtain d' where
    "parseline str m (length ?pre2) = POk d' (length ?pre2 + length (show_cmd d 3))" "cmd_is str d' d" by blast
  then show "\<exists>c'. parseline str n (length pre) = POk c' (length pre + length (show_cmd (AList c d) 3)) \<and> cmd_is str c' (AList c d)"
    using c(1) c1 p g m by (simp add: paren_def)
qed

lemma parser_ok: "acmd_ok c \<Longrightarrow> exec_ok c \<and> pipe_ok c \<and> backs_ok c \<and> line_ok c"
proof (induction c)
  case (AExec ws)
  then have "exec_ok (AExec ws)" by (rule exec_ok_exec)
  then show ?case by (simp add: pipe_from_exec backs_from_pipe line_from_backs)
next
  case (ARedir c k f)
  then have "exec_ok (ARedir c k f)" by (simp add: exec_ok_redir)
  then show ?case by (simp add: pipe_from_exec backs_from_pipe line_from_backs)
next
  case (APipe c d)
  then have "pipe_ok (APipe c d)" by (simp add: pipe_ok_pipe)
  moreover from this have "line_ok (APipe c d)" by (simp add: backs_from_pipe line_from_backs paren_def)
  ultimately show ?case using APipe.prems by (simp add: backs_from_pipe exec_from_line paren_def)
next
  case (ABack c)
  then have "backs_ok (ABack c)" by (simp add: backs_ok_back)
  moreover from this have "line_ok (ABack c)" by (simp add: line_from_backs paren_def)
  moreover from this have "exec_ok (ABack c)" using ABack.prems by (simp add: exec_from_line paren_def)
  ultimately show ?case by (simp add: pipe_from_exec paren_def)
next
  case (AList c d)
  then have "line_ok (AList c d)" by (simp add: line_ok_list)
  moreover from this have "exec_ok (AList c d)" using AList.prems by (simp add: exec_from_line paren_def)
  ultimately show ?case by (simp add: pipe_from_exec backs_from_pipe paren_def)
qed

section \<open>Cutting the words\<close>

primrec word_ends :: "cmd \<Rightarrow> nat set" where
  "word_ends CNull = {}"
| "word_ends (EXEC args) = {e. \<exists>q. (q, e) \<in> set args}"
| "word_ends (REDIR c file efile mode fd) = insert efile (word_ends c)"
| "word_ends (PIPE l r) = word_ends l \<union> word_ends r"
| "word_ends (LIST l r) = word_ends l \<union> word_ends r"
| "word_ends (BACK c) = word_ends c"

text \<open>The command that \<^verbatim>\<open>runcmd\<close> finds in the tree and the array.\<close>

fun cmd_text :: "u8 list \<Rightarrow> cmd \<Rightarrow> acmd" where
  "cmd_text buf (EXEC args) = AExec (map (\<lambda>(q, eq). cstr buf q) args)"
| "cmd_text buf (REDIR c file efile mode fd) =
    ARedir (cmd_text buf c) (if fd = 0 then RIn else if mode = 0x601 then ROut else RApp) (cstr buf file)"
| "cmd_text buf (PIPE l r) = APipe (cmd_text buf l) (cmd_text buf r)"
| "cmd_text buf (LIST l r) = AList (cmd_text buf l) (cmd_text buf r)"
| "cmd_text buf (BACK c) = ABack (cmd_text buf c)"
| "cmd_text buf CNull = AExec []"

lemma nulterminate_args_length: "length (fold (\<lambda>(q, eq) buf. buf[eq := 0]) args buf) = length (buf :: u8 list)"
  by (induction args arbitrary: buf) auto

lemma nulterminate_args:
  "i < length buf \<Longrightarrow> fold (\<lambda>(q, eq) buf. buf[eq := 0]) args buf ! i = (if \<exists>q. (q, i) \<in> set args then 0 else (buf :: u8 list) ! i)"
proof (induction args arbitrary: buf)
  case (Cons p args)
  obtain q eq where p: "p = (q, eq)" by fastforce
  have "fold (\<lambda>(q, eq) buf. buf[eq := 0]) args (buf[eq := 0]) ! i = (if \<exists>q. (q, i) \<in> set args then 0 else buf[eq := 0] ! i)"
    using Cons by simp
  then show ?case using p Cons.prems by (cases "i = eq") auto
qed simp

lemma nulterminate_length [simp]: "length (nulterminate c buf) = length buf"
  by (induction c arbitrary: buf) (auto simp: nulterminate_args_length)

lemma nulterminate_nth:
  "i < length buf \<Longrightarrow> nulterminate c buf ! i = (if i \<in> word_ends c then 0 else buf ! i)"
proof (induction c arbitrary: buf)
  case (REDIR c fl efl mode fd)
  then show ?case by (cases "i = efl") (auto simp: nth_list_update)
qed (auto simp: nulterminate_args)

lemma cmd_is_ends: "cmd_is str c a \<Longrightarrow> e \<in> word_ends c \<Longrightarrow> e < length str \<and> str ! e = 32"
proof (induction str c a rule: cmd_is.induct)
  case (1 str ps ws)
  then obtain q i where "i < length ps" "ps ! i = (q, e)" by (auto simp: in_set_conv_nth)
  then have "tok_is str (q, e) (ws ! i)" using "1.prems"(1) list_all2_nthD by fastforce
  then show ?case by (auto simp: tok_is_def)
qed (auto simp: tok_is_def)

lemma cut_tok:
  assumes "tok_ok str q eq" "eq \<in> E" "\<And>e. e \<in> E \<Longrightarrow> e < length str \<Longrightarrow> \<not> is_word (str ! e)" "length str < length buf"
    "\<And>i. i \<le> length str \<Longrightarrow> buf ! i = (if i \<in> E then 0 else (str @ [0]) ! i)" "0 \<notin> set str"
  shows "cstr buf q = take (eq - q) (drop q str)"
proof -
  let ?w = "take (eq - q) (drop q str)"
  have t: "q < eq" "eq \<le> length str" using assms(1) by (auto simp: tok_ok_def)
  have "take (eq - q) (drop q buf) = ?w"
  proof (rule nth_equalityI)
    show "length (take (eq - q) (drop q buf)) = length ?w" using t assms(4) by simp
    fix i
    assume "i < length (take (eq - q) (drop q buf))"
    then have "i < eq - q" by simp
    then have i: "q + i < eq" by linarith
    then have "is_word (str ! (q + i))" using assms(1) by (simp add: tok_ok_def)
    then have "q + i \<notin> E" using assms(3) i t by auto
    then show "take (eq - q) (drop q buf) ! i = ?w ! i" using i t assms(4,5) by (simp add: nth_append)
  qed
  moreover have "drop eq buf = 0 # drop (Suc eq) buf"
    using t(2) assms(2,4,5) Cons_nth_drop_Suc [of eq buf] by simp
  ultimately have "drop q buf = ?w @ 0 # drop (Suc eq) buf"
    using t(1) append_take_drop_id [of "eq - q" "drop q buf"] by simp
  moreover have "0 \<notin> set ?w" using assms(6) by (meson in_set_dropD in_set_takeD)
  ultimately show ?thesis by (simp add: cstr_def takeWhile_nul)
qed

lemma cut_word:
  assumes "tok_is str (q, eq) w" "word_ok w" "eq \<in> E" "\<And>e. e \<in> E \<Longrightarrow> e < length str \<and> str ! e = 32" "length str < length buf"
    "\<And>i. i \<le> length str \<Longrightarrow> buf ! i = (if i \<in> E then 0 else (str @ [0]) ! i)" "0 \<notin> set str"
  shows "cstr buf q = w"
proof -
  have t: "eq = q + length w" "take (length w) (drop q str) = w" "eq < length str" "str ! eq = 32" using assms(1) by (auto simp: tok_is_def)
  have "is_word (str ! i)" if "q \<le> i" "i < eq" for i
  proof -
    have "str ! i = take (length w) (drop q str) ! (i - q)" using that t(1,3) by simp
    also have "\<dots> = w ! (i - q)" by (simp only: t(2))
    finally show ?thesis using assms(2) that t(1) by (auto simp: word_ok_def)
  qed
  moreover have "\<not> is_word 32" by (simp add: is_word_iff)
  ultimately have "tok_ok str q eq" using t assms(2) by (auto simp: tok_ok_def word_ok_def)
  then have "cstr buf q = take (eq - q) (drop q str)"
    using assms(3-7) \<open>\<not> is_word 32\<close> by (intro cut_tok) auto
  then show ?thesis using t(1,2) by simp
qed

lemma cmd_text_is:
  assumes "cmd_is str c a" "acmd_ok a" "word_ends c \<subseteq> E" "\<And>e. e \<in> E \<Longrightarrow> e < length str \<and> str ! e = 32" "length str < length buf"
    "\<And>i. i \<le> length str \<Longrightarrow> buf ! i = (if i \<in> E then 0 else (str @ [0]) ! i)" "0 \<notin> set str"
  shows "cmd_text buf c = a"
  using assms(1-3)
proof (induction c arbitrary: a)
  case (EXEC ps)
  then obtain ws where a: "a = AExec ws" "list_all2 (tok_is str) ps ws" by (cases a) auto
  have "map (\<lambda>(q, eq). cstr buf q) ps = ws"
  proof (rule nth_equalityI)
    show "length (map (\<lambda>(q, eq). cstr buf q) ps) = length ws" using a(2) by (simp add: list_all2_lengthD)
    fix i
    assume "i < length (map (\<lambda>(q, eq). cstr buf q) ps)"
    then have i: "i < length ps" "i < length ws" using a(2) by (simp_all add: list_all2_lengthD)
    obtain q eq where p: "ps ! i = (q, eq)" by fastforce
    have "tok_is str (q, eq) (ws ! i)" using a(2) i p list_all2_nthD by fastforce
    moreover have "word_ok (ws ! i)" using EXEC.prems(2) a(1) i(2) by simp
    moreover have "eq \<in> E" using EXEC.prems(3) i(1) p by (auto simp: in_set_conv_nth)
    ultimately have "cstr buf q = ws ! i" using assms(4-7) by (rule cut_word)
    then show "map (\<lambda>(q, eq). cstr buf q) ps ! i = ws ! i" using i(1) p by simp
  qed
  then show ?case using a(1) by simp
next
  case (REDIR c fl efl mode fd)
  then obtain b k f where a: "a = ARedir b k f" "cmd_is str c b" "tok_is str (fl, efl) f" "(mode, fd) = rkind_mode k" by (cases a) auto
  have "cstr buf fl = f"
    by (rule cut_word [OF a(3) _ _ assms(4-7)]) (use REDIR.prems a(1) in auto)
  moreover have "cmd_text buf c = b" using REDIR a by auto
  ultimately show ?case using a(1,4) by (cases k) auto
next
  case (PIPE l r)
  then show ?case by (cases a) auto
next
  case (LIST l r)
  then show ?case by (cases a) auto
next
  case (BACK c)
  then show ?case by (cases a) auto
qed simp

lemma show_nonzero: "acmd_ok c \<Longrightarrow> 0 \<notin> set (show_cmd c l)"
proof (induction c arbitrary: l)
  case (ARedir c k f)
  then show ?case by (cases k) (auto simp: word_ok_def)
qed (auto simp: show_words_def word_ok_def paren_def)

lemma parse_shown:
  assumes "acmd_ok a" "4 * length (show_cmd a 3) + 4 \<le> n"
  shows "\<exists>c buf. parsecmd n (show_cmd a 3 @ 0 # zs) = UDone (c, buf) \<and> cmd_text buf c = a"
proof -
  let ?str = "show_cmd a 3" and ?buf = "show_cmd a 3 @ 0 # zs"
  have str: "cstr ?buf 0 = ?str" using show_nonzero [OF assms(1), of 3] by (simp add: cstr_def takeWhile_nul)
  have "line_ok a" using parser_ok [OF assms(1)] by blast
  from this [unfolded line_ok_def, rule_format, of "[]" ?str "[]" n] obtain c where
    c: "parseline ?str n 0 = POk c (length ?str)" "cmd_is ?str c a" using assms(2) by (auto simp: follow_def)
  have "peek ?str (length ?str) [] = (length ?str, False)" using peek_tight [of "[]" ?str] by (simp add: tight_def)
  then have run: "parsecmd n ?buf = UDone (c, nulterminate c ?buf)" using str c(1) by (simp add: parsecmd_def)
  have "cmd_text (nulterminate c ?buf) c = a"
  proof (rule cmd_text_is [OF c(2) assms(1) subset_refl])
    show "e < length ?str \<and> ?str ! e = 32" if "e \<in> word_ends c" for e using cmd_is_ends [OF c(2) that] .
    show "nulterminate c ?buf ! i = (if i \<in> word_ends c then 0 else (?str @ [0]) ! i)" if "i \<le> length ?str" for i
      using that by (simp add: nulterminate_nth nth_append)
  qed (use show_nonzero [OF assms(1), of 3] in simp_all)
  then show ?thesis using run by blast
qed

text \<open>C27. Parsing inverts printing: the text of a command, whatever its nesting of pipes, lists, background commands,
  redirections and parentheses, is parsed into a tree from which \<^verbatim>\<open>runcmd\<close> reads, after the words have been cut in
  the line, exactly the words, files and modes of the command. The command may have up to nine words of characters that
  are neither blank nor special.\<close>

theorem sh_parse_roundtrip:
  assumes "acmd_ok a" "4 * length (show_cmd a 3) + 4 \<le> n"
  shows "\<exists>c buf. parsecmd n (show_cmd a 3 @ 0 # zs) = UDone (c, buf) \<and> cmd_text buf c = a"
  using assms by (rule parse_shown)

theorem sh_parse_roundtrip_witness:
  "\<exists>c buf. parsecmd 60 (bytes ''ls |(wc >f &)'' @ [0]) = UDone (c, buf) \<and>
    cmd_text buf c = APipe (AExec [bytes ''ls'']) (ABack (ARedir (AExec [bytes ''wc'']) ROut (bytes ''f'')))"
proof -
  let ?a = "APipe (AExec [bytes ''ls'']) (ABack (ARedir (AExec [bytes ''wc'']) ROut (bytes ''f'')))"
  have "acmd_ok ?a" by (simp add: word_ok_def is_word_iff bytes_def MAXARGS_def)
  moreover have "show_cmd ?a 3 = bytes ''ls |(wc >f &)''" by (simp add: paren_def bytes_def)
  ultimately show ?thesis using sh_parse_roundtrip [of ?a 60 "[]"] by (simp add: bytes_def)
qed

section \<open>Every command has its words\<close>

primrec words_cut :: "u8 list \<Rightarrow> u8 list \<Rightarrow> cmd \<Rightarrow> bool" where
  "words_cut str buf CNull \<longleftrightarrow> True"
| "words_cut str buf (EXEC args) \<longleftrightarrow> (\<forall>(q, eq) \<in> set args. cstr buf q = take (eq - q) (drop q str))"
| "words_cut str buf (REDIR c file efile mode fd) \<longleftrightarrow> words_cut str buf c \<and> cstr buf file = take (efile - file) (drop file str)"
| "words_cut str buf (PIPE l r) \<longleftrightarrow> words_cut str buf l \<and> words_cut str buf r"
| "words_cut str buf (LIST l r) \<longleftrightarrow> words_cut str buf l \<and> words_cut str buf r"
| "words_cut str buf (BACK c) \<longleftrightarrow> words_cut str buf c"

lemma exits_not_done: "fst (urun os p w) = Exited st \<Longrightarrow> p \<noteq> UDone r"
  by auto

lemma panic_not_done: "panic_sh m \<noteq> UDone r" "useq (fprintf 2 fmt [AStr x]) (panic_sh m) \<noteq> UDone r"
  by (rule exits_not_done [of "\<lambda>_ w. ((0, []), w)" _ "()" 1], simp add: panic_sh_def)+

lemma cstr_split: "0 \<in> set buf \<Longrightarrow> \<exists>zs. buf = cstr buf 0 @ 0 # zs"
proof (induction buf)
  case (Cons b buf)
  then show ?case by (cases "b = 0") (auto simp: cstr_def)
qed simp

lemma wf_ends: "wf_cmd str c \<Longrightarrow> e \<in> word_ends c \<Longrightarrow> e < length str \<Longrightarrow> \<not> is_word (str ! e)"
  by (induction c) (auto simp: tok_ok_def)

lemma wf_words_cut:
  assumes "wf_cmd str c" "word_ends c \<subseteq> E" "\<And>e. e \<in> E \<Longrightarrow> e < length str \<Longrightarrow> \<not> is_word (str ! e)" "length str < length buf"
    "\<And>i. i \<le> length str \<Longrightarrow> buf ! i = (if i \<in> E then 0 else (str @ [0]) ! i)" "0 \<notin> set str"
  shows "words_cut str buf c"
  using assms(1,2)
proof (induction c)
  case (EXEC args)
  then show ?case using cut_tok [OF _ _ assms(3-6)] by fastforce
next
  case (REDIR c fl efl mode fd)
  then show ?case using cut_tok [OF _ _ assms(3-6), of fl efl] by auto
qed auto

text \<open>C28. Every command that the shell's parser returns is well formed, for every line: it has no null node and fewer than
  \<^verbatim>\<open>MAXARGS\<close> words per command, every word and file name is a maximal non-empty run of word characters inside of
  the line, the modes and descriptors of redirections are those of \<^verbatim>\<open><\<close>, \<^verbatim>\<open>>\<close> and \<^verbatim>\<open>>>\<close>,
  and the strings that \<^verbatim>\<open>runcmd\<close> then reads in the array are exactly these words, though the nuls are written
  into the same array.\<close>

theorem sh_parse_wellformed:
  assumes "parsecmd n buf = UDone (c, buf')" "0 \<in> set buf"
  shows "wf_cmd (cstr buf 0) c \<and> length buf' = length buf \<and> words_cut (cstr buf 0) buf' c"
proof -
  let ?str = "cstr buf 0"
  obtain s where p: "parseline ?str n 0 = POk c s" and b: "buf' = nulterminate c buf"
    using assms(1) by (auto simp: parsecmd_def Let_def panic_not_done split: pres.splits if_splits prod.splits)
  have wf: "wf_cmd ?str c" using parse_wf p by blast
  obtain zs where z: "buf = ?str @ 0 # zs" using cstr_split [OF assms(2)] by blast
  have len: "length ?str < length buf" using arg_cong [OF z, of length] by simp
  have "words_cut ?str buf' c"
  proof (rule wf_words_cut [OF wf subset_refl wf_ends [OF wf]])
    show "buf' ! i = (if i \<in> word_ends c then 0 else (?str @ [0]) ! i)" if "i \<le> length ?str" for i
    proof -
      have "buf ! i = ((?str @ [0]) @ zs) ! i" using z by simp
      then have "buf ! i = (?str @ [0]) ! i" using that nth_append_left [of i "?str @ [0]" zs] by simp
      moreover have "i < length buf" using that len by simp
      ultimately show ?thesis unfolding b by (simp add: nulterminate_nth)
    qed
    show "length ?str < length buf'" unfolding b using len by simp
    show "0 \<notin> set ?str" by (auto simp: cstr_def dest: set_takeWhileD)
  qed
  then show ?thesis using wf b by simp
qed

theorem sh_parse_wellformed_witness:
  "\<exists>c buf. parsecmd 20 (bytes ''wc '' @ [0]) = UDone (c, buf) \<and> wf_cmd (bytes ''wc '') c \<and> words_cut (bytes ''wc '') buf c"
proof -
  have "acmd_ok (AExec [bytes ''wc''])" by (simp add: word_ok_def is_word_iff bytes_def MAXARGS_def)
  then obtain c buf where p: "parsecmd 20 (bytes ''wc '' @ [0]) = UDone (c, buf)"
    using parse_shown [of "AExec [bytes ''wc'']" 20 "[]"] by (auto simp: bytes_def)
  have "cstr (bytes ''wc '' @ [0]) 0 = bytes ''wc ''" by (simp add: cstr_def bytes_def)
  then show ?thesis using p sh_parse_wellformed [OF p] by simp
qed

end
