(* ===== verification/Umalloc.thy ===== *)
theory Umalloc
  imports Ulib
begin

text \<open>
  The memory allocator of user programs, \<^verbatim>\<open>user/umalloc.c\<close>.

  The heap is the table of the headers by their addresses; an address whose header was never
  written has an arbitrary one. The blocks that are free form a ring in the order of their
  addresses, from \<^verbatim>\<open>base\<close>, whose size is 0, through the heap and back.
  \<open>heap_ok\<close> is this invariant with the list of the free blocks. \<^verbatim>\<open>freep\<close> may point
  anywhere in the ring. The loops have a bound on their rounds, and the theorem says that a large
  enough bound is never used up.
\<close>

section \<open>Definitions\<close>

record header =
  h_ptr :: u64
  h_size :: u32

record uheap =
  hdr :: "u64 \<Rightarrow> header"
  freep :: u64

definition set_ptr :: "u64 \<Rightarrow> u64 \<Rightarrow> uheap \<Rightarrow> uheap" where
  "set_ptr a q m = m\<lparr>hdr := (hdr m)(a := (hdr m a)\<lparr>h_ptr := q\<rparr>)\<rparr>"

definition set_size :: "u64 \<Rightarrow> u32 \<Rightarrow> uheap \<Rightarrow> uheap" where
  "set_size a n m = m\<lparr>hdr := (hdr m)(a := (hdr m a)\<lparr>h_size := n\<rparr>)\<rparr>"









section \<open>The ring of free blocks\<close>

text \<open>\<open>path m q xs p\<close>: following the pointers from \<open>q\<close> visits \<open>xs\<close> and
  arrives at \<open>p\<close>.\<close>

primrec path :: "uheap \<Rightarrow> u64 \<Rightarrow> u64 list \<Rightarrow> u64 \<Rightarrow> bool" where
  "path m q [] p \<longleftrightarrow> q = p"
| "path m q (x # xs) p \<longleftrightarrow> q = x \<and> path m (h_ptr (hdr m x)) xs p"

definition block_end :: "uheap \<Rightarrow> u64 \<Rightarrow> nat" where
  "block_end m c = unat c + 16 * unat (h_size (hdr m c))"

text \<open>The blocks \<open>cs\<close> start above \<open>e\<close>, lie in order with gaps between them, and
  end by \<open>lim\<close>.\<close>

primrec spaced :: "uheap \<Rightarrow> nat \<Rightarrow> u64 list \<Rightarrow> nat \<Rightarrow> bool" where
  "spaced m e [] lim \<longleftrightarrow> e \<le> lim"
| "spaced m e (c # cs) lim \<longleftrightarrow> e < unat c \<and> 0 < h_size (hdr m c) \<and> spaced m (block_end m c) cs lim"


text \<open>The bytes of the free blocks.\<close>

definition free_bytes :: "uheap \<Rightarrow> u64 list \<Rightarrow> nat set" where
  "free_bytes m cs = (\<Union>c\<in>set cs. {unat c..<block_end m c})"


lemma path_cong:
  "(\<And>x. x \<in> set xs \<Longrightarrow> h_ptr (hdr m' x) = h_ptr (hdr m x)) \<Longrightarrow> path m' q xs p = path m q xs p"
  by (induction xs arbitrary: q) auto

lemma block_end_cong: "h_size (hdr m' c) = h_size (hdr m c) \<Longrightarrow> block_end m' c = block_end m c"
  by (simp add: block_end_def)

lemma spaced_cong:
  "(\<And>x. x \<in> set cs \<Longrightarrow> h_size (hdr m' x) = h_size (hdr m x)) \<Longrightarrow> spaced m' e cs lim = spaced m e cs lim"
  by (induction cs arbitrary: e) (simp_all add: block_end_def)

lemma free_bytes_cong:
  "(\<And>x. x \<in> set cs \<Longrightarrow> h_size (hdr m' x) = h_size (hdr m x)) \<Longrightarrow> free_bytes m' cs = free_bytes m cs"
  by (auto simp: free_bytes_def block_end_def)


definition last_end :: "uheap \<Rightarrow> nat \<Rightarrow> u64 list \<Rightarrow> nat" where
  "last_end m e xs = (if xs = [] then e else block_end m (last xs))"






section \<open>Finding the place of a block\<close>








section \<open>Freeing a block\<close>

lemma hdr_set [simp]:
  "hdr (set_ptr a q m) x = (if x = a then (hdr m a)\<lparr>h_ptr := q\<rparr> else hdr m x)"
  "hdr (set_size a n m) x = (if x = a then (hdr m a)\<lparr>h_size := n\<rparr> else hdr m x)"
  "freep (set_ptr a q m) = freep m" "freep (set_size a n m) = freep m"
  by (simp_all add: set_ptr_def set_size_def)




lemma freep_upd [simp]:
  "path (m\<lparr>freep := f\<rparr>) q xs r = path m q xs r" "block_end (m\<lparr>freep := f\<rparr>) c = block_end m c"
  "spaced (m\<lparr>freep := f\<rparr>) e xs l = spaced m e xs l" "free_bytes (m\<lparr>freep := f\<rparr>) xs = free_bytes m xs"
  "last_end (m\<lparr>freep := f\<rparr>) e xs = last_end m e xs"
  by (auto intro!: path_cong spaced_cong free_bytes_cong simp: block_end_def last_end_def)

lemma path_set [simp]:
  "a \<notin> set xs \<Longrightarrow> path (set_ptr a v m) q xs r = path m q xs r" "path (set_size a n m) q xs r = path m q xs r"
  by (rule path_cong; auto)+

lemma spaced_set [simp]:
  "spaced (set_ptr a v m) e xs l = spaced m e xs l" "a \<notin> set xs \<Longrightarrow> spaced (set_size a n m) e xs l = spaced m e xs l"
  by (rule spaced_cong; auto)+

lemma block_end_set [simp]:
  "block_end (set_ptr a v m) c = block_end m c" "c \<noteq> a \<Longrightarrow> block_end (set_size a n m) c = block_end m c"
  by (simp_all add: block_end_def)

lemma last_end_set [simp]: "a \<notin> set xs \<Longrightarrow> last_end (set_size a n m) e xs = last_end m e xs"
  using last_in_set [of xs] by (auto simp: last_end_def intro!: block_end_set(2))

lemma free_bytes_set [simp]:
  "free_bytes (set_ptr a v m) xs = free_bytes m xs" "a \<notin> set xs \<Longrightarrow> free_bytes (set_size a n m) xs = free_bytes m xs"
  by (rule free_bytes_cong; auto)+





section \<open>Taking a block\<close>








section \<open>Searching for a block\<close>





section \<open>Memory from the kernel\<close>










section \<open>malloc\<close>








section \<open>A program that uses the heap\<close>



















end
