(* ===== verification/Spec2Isabelle.thy ===== *)
theory Spec2Isabelle
  imports Alarm Asm Reap Inode Pipe Grep Sh Umalloc
begin

text \<open>Verification of a small Unix kernel for RISC-V.\<close>

end
